(* ===== verification/Prelude.thy ===== *)
theory Prelude
  imports Main "HOL-Library.Word" "HOL-Library.List_Lexorder" "HOL-Library.Sublist" "HOL-Library.Multiset"
begin

text \<open>
  Shared vocabulary of the development: bytes and byte strings (a Rust \<open>&str\<close> or
  \<open>&[u8]\<close> is the list of its bytes, ordered as Rust orders them, lexicographically
  by unsigned byte), the few string operations of the standard library the sources call, results
  (\<open>Ok\<close>/\<open>Err\<close>), and the order facts on byte strings (prefixes form intervals) that
  every path algorithm rests on. Three collections gather the facts the component proofs share:
  \<open>str_simps\<close> (string operations), \<open>order_intros\<close> (order of byte strings) and
  \<open>result_splits\<close> (case analysis of results).
\<close>

named_theorems str_simps "rewrite rules for the string operations of the standard library"
named_theorems order_intros "introduction rules about the byte-wise order of strings"
named_theorems result_elims "inversion of results"

section \<open>Bytes and strings\<close>

type_synonym u8 = "8 word"
type_synonym str = "u8 list"

text \<open>ASCII literals of the source, as bytes.\<close>

definition lit :: "string \<Rightarrow> str" where
  "lit s = map of_char s"

lemma lit_simps [simp]: "lit [] = []" "lit (c # cs) = of_char c # lit cs"
  by (simp_all add: lit_def)

lemma length_lit [simp]: "length (lit s) = length s"
  by (simp add: lit_def)

abbreviation TAB :: u8 where "TAB \<equiv> 9"
abbreviation LF :: u8 where "LF \<equiv> 10"
abbreviation CR :: u8 where "CR \<equiv> 13"
abbreviation DOT :: u8 where "DOT \<equiv> 46"
abbreviation SLASH :: u8 where "SLASH \<equiv> 47"
abbreviation BACKSLASH :: u8 where "BACKSLASH \<equiv> 92"

section \<open>Results\<close>

abbreviation Ok :: "'a \<Rightarrow> 'e + 'a" where "Ok \<equiv> Inr"
abbreviation Err :: "'e \<Rightarrow> 'e + 'a" where "Err \<equiv> Inl"

definition and_then :: "'e + 'a \<Rightarrow> ('a \<Rightarrow> 'e + 'b) \<Rightarrow> 'e + 'b" where
  "and_then r f = (case r of Inl e \<Rightarrow> Inl e | Inr x \<Rightarrow> f x)"

definition map_err :: "('e \<Rightarrow> 'f) \<Rightarrow> 'e + 'a \<Rightarrow> 'f + 'a" where
  "map_err g r = (case r of Inl e \<Rightarrow> Inl (g e) | Inr x \<Rightarrow> Inr x)"

definition map_ok :: "('a \<Rightarrow> 'b) \<Rightarrow> 'e + 'a \<Rightarrow> 'e + 'b" where
  "map_ok g r = (case r of Inl e \<Rightarrow> Inl e | Inr x \<Rightarrow> Inr (g x))"

definition ok_or :: "'e \<Rightarrow> 'a option \<Rightarrow> 'e + 'a" where
  "ok_or e o' = (case o' of None \<Rightarrow> Inl e | Some x \<Rightarrow> Inr x)"

text \<open>\<open>iter().map(f).collect::<Result<Vec<_>, _>>()\<close>: the first error wins.\<close>

fun try_map :: "('a \<Rightarrow> 'e + 'b) \<Rightarrow> 'a list \<Rightarrow> 'e + 'b list" where
  "try_map f [] = Inr []"
| "try_map f (x # xs) =
     (case f x of Inl e \<Rightarrow> Inl e
      | Inr y \<Rightarrow> (case try_map f xs of Inl e \<Rightarrow> Inl e | Inr ys \<Rightarrow> Inr (y # ys)))"

lemma and_then_simps [simp]:
  "and_then (Inl e) f = Inl e" "and_then (Inr x) f = f x"
  by (simp_all add: and_then_def)

lemma map_err_simps [simp]: "map_err g (Inl e) = Inl (g e)" "map_err g (Inr x) = Inr x"
  by (simp_all add: map_err_def)

lemma map_ok_simps [simp]: "map_ok g (Inl e) = Inl e" "map_ok g (Inr x) = Inr (g x)"
  by (simp_all add: map_ok_def)

lemma ok_or_simps [simp]: "ok_or e None = Inl e" "ok_or e (Some x) = Inr x"
  by (simp_all add: ok_or_def)

lemma and_then_eq_Inr [result_elims]:
  "and_then r f = Inr y \<longleftrightarrow> (\<exists>x. r = Inr x \<and> f x = Inr y)"
  by (cases r) simp_all

lemma map_err_eq_Inr [result_elims]: "map_err g r = Inr y \<longleftrightarrow> r = Inr y"
  by (cases r) simp_all

lemma map_ok_eq_Inr [result_elims]: "map_ok g r = Inr y \<longleftrightarrow> (\<exists>x. r = Inr x \<and> y = g x)"
  by (cases r) auto

lemma try_map_Inr:
  "try_map f xs = Inr ys \<longleftrightarrow> list_all2 (\<lambda>x y. f x = Inr y) xs ys"
proof (induction xs arbitrary: ys)
  case Nil
  then show ?case by auto
next
  case (Cons x xs)
  show ?case
    by (cases ys; cases "try_map f xs") (auto simp: Cons.IH split: sum.splits,
        (metis Cons.IH Inl_Inr_False Inr_inject)+)
qed

section \<open>String operations of the standard library\<close>

definition strip_prefix :: "str \<Rightarrow> str \<Rightarrow> str option" where
  "strip_prefix p s = (if prefix p s then Some (drop (length p) s) else None)"

definition strip_suffix :: "str \<Rightarrow> str \<Rightarrow> str option" where
  "strip_suffix q s = (if suffix q s then Some (take (length s - length q) s) else None)"

definition find_byte :: "u8 \<Rightarrow> str \<Rightarrow> nat option" where
  "find_byte c s = (if c \<in> set s then Some (length (takeWhile (\<lambda>b. b \<noteq> c) s)) else None)"

text \<open>\<open>Iterator::position\<close>: the index of the first element that satisfies a test.\<close>

fun find_position :: "('a \<Rightarrow> bool) \<Rightarrow> 'a list \<Rightarrow> nat option" where
  "find_position P [] = None"
| "find_position P (x # xs) = (if P x then Some 0 else map_option Suc (find_position P xs))"

text \<open>\<open>str::split\<close> on one byte: the components between separators, at least one.\<close>

fun split_on :: "u8 \<Rightarrow> str \<Rightarrow> str list" where
  "split_on c [] = [[]]"
| "split_on c (x # xs) =
     (if x = c then [] # split_on c xs
      else (case split_on c xs of [] \<Rightarrow> [[x]] | w # ws \<Rightarrow> (x # w) # ws))"

fun join_with :: "u8 \<Rightarrow> str list \<Rightarrow> str" where
  "join_with c [] = []"
| "join_with c [w] = w"
| "join_with c (w # ws) = w @ c # join_with c ws"

text \<open>\<open>str::split_inclusive('\n')\<close>: lines with their terminators, none for the empty text.\<close>

fun split_inclusive :: "u8 \<Rightarrow> str \<Rightarrow> str list" where
  "split_inclusive c [] = []"
| "split_inclusive c (x # xs) =
     (if x = c then [x] # split_inclusive c xs
      else (case split_inclusive c xs of [] \<Rightarrow> [[x]] | w # ws \<Rightarrow> (x # w) # ws))"

lemma strip_prefix_Some [str_simps]: "strip_prefix p s = Some r \<longleftrightarrow> s = p @ r"
  by (auto simp: strip_prefix_def prefix_def)

lemma strip_prefix_None [str_simps]: "strip_prefix p s = None \<longleftrightarrow> \<not> prefix p s"
  by (simp add: strip_prefix_def)

lemma strip_suffix_Some [str_simps]: "strip_suffix q s = Some r \<longleftrightarrow> s = r @ q"
  by (auto simp: strip_suffix_def suffix_def)

lemma strip_suffix_None [str_simps]: "strip_suffix q s = None \<longleftrightarrow> \<not> suffix q s"
  by (simp add: strip_suffix_def)

lemma strip_prefix_append [simp]: "strip_prefix p (p @ r) = Some r"
  by (simp add: strip_prefix_def)

lemma strip_suffix_append [simp]: "strip_suffix q (r @ q) = Some r"
  by (simp add: strip_suffix_def suffix_def)

lemma find_byte_simps [simp]:
  "find_byte c [] = None"
  "find_byte c (x # xs) = (if x = c then Some 0 else map_option Suc (find_byte c xs))"
  by (simp_all add: find_byte_def)

lemma find_byte_Some:
  "find_byte c s = Some i \<longleftrightarrow> i < length s \<and> s ! i = c \<and> c \<notin> set (take i s)"
proof (induction s arbitrary: i)
  case (Cons x xs)
  then show ?case by (cases i) auto
qed simp

lemma find_byte_split: "find_byte c s = Some i \<longleftrightarrow> (\<exists>a b. s = a @ c # b \<and> c \<notin> set a \<and> i = length a)"
proof
  assume "find_byte c s = Some i"
  then have *: "i < length s" "s ! i = c" "c \<notin> set (take i s)"
    by (auto simp: find_byte_Some)
  then have "s = take i s @ c # drop (Suc i) s"
    using id_take_nth_drop by blast
  moreover have "i = length (take i s)"
    using *(1) by simp
  ultimately show "\<exists>a b. s = a @ c # b \<and> c \<notin> set a \<and> i = length a"
    using *(3) by blast
qed (auto simp: find_byte_Some)

lemma find_byte_None: "find_byte c s = None \<longleftrightarrow> c \<notin> set s"
  by (simp add: find_byte_def)

lemma find_position_append:
  "find_position P (xs @ ys) =
     (case find_position P xs of Some i \<Rightarrow> Some i
      | None \<Rightarrow> map_option (\<lambda>i. length xs + i) (find_position P ys))"
  by (induction xs; cases "find_position P ys") (auto split: option.splits)

lemma find_position_None: "find_position P xs = None \<longleftrightarrow> (\<forall>x \<in> set xs. \<not> P x)"
  by (induction xs) auto

lemma find_position_Some:
  "find_position P xs = Some i \<longleftrightarrow> i < length xs \<and> P (xs ! i) \<and> (\<forall>x \<in> set (take i xs). \<not> P x)"
proof (induction xs arbitrary: i)
  case (Cons x xs)
  then show ?case by (cases i) auto
qed simp

lemma split_on_neq_Nil [simp]: "split_on c s \<noteq> []"
  by (induction c s rule: split_on.induct) (auto split: list.splits)

lemma join_split_on [simp]: "join_with c (split_on c s) = s"
proof (induction c s rule: split_on.induct)
  case (2 c x xs)
  then show ?case
    by (cases "split_on c xs"; cases "tl (split_on c xs)") (auto split: list.splits)
qed simp

lemma split_on_no_sep: "w \<in> set (split_on c s) \<Longrightarrow> c \<notin> set w"
  by (induction c s arbitrary: w rule: split_on.induct) (auto split: list.splits if_splits)

lemma split_on_id [simp]: "c \<notin> set w \<Longrightarrow> split_on c w = [w]"
  by (induction w) auto

lemma split_on_append:
  "c \<notin> set w \<Longrightarrow> split_on c (w @ c # s) = w # split_on c s"
  by (induction w) auto

lemma split_on_append_gen: "split_on c (a @ c # b) = split_on c a @ split_on c b"
  by (induction c a rule: split_on.induct) (auto split: list.splits)

lemma split_join:
  "ws \<noteq> [] \<Longrightarrow> (\<And>w. w \<in> set ws \<Longrightarrow> c \<notin> set w) \<Longrightarrow> split_on c (join_with c ws) = ws"
  by (induction c ws rule: join_with.induct) (auto simp: split_on_append)

lemma set_split_on: "x \<in> set s \<longleftrightarrow> (\<exists>w \<in> set (split_on c s). x \<in> set w) \<or> (x = c \<and> c \<in> set s)"
  by (induction c s rule: split_on.induct) (auto split: list.splits if_splits)

lemma concat_split_inclusive [simp]: "concat (split_inclusive c s) = s"
  by (induction c s rule: split_inclusive.induct) (auto split: list.splits if_splits)

lemma map_option_plus_0 [simp]: "map_option ((+) (0 :: nat)) x = x"
  by (cases x) simp_all

text \<open>\<open>slice::get\<close>: the element at an index, if there is one.\<close>

definition nth_opt :: "'a list \<Rightarrow> nat \<Rightarrow> 'a option" where
  "nth_opt xs i = (if i < length xs then Some (xs ! i) else None)"

lemma nth_opt_Some: "nth_opt xs i = Some x \<longleftrightarrow> i < length xs \<and> xs ! i = x"
  by (simp add: nth_opt_def)

lemma nth_opt_None: "nth_opt xs i = None \<longleftrightarrow> length xs \<le> i"
  by (simp add: nth_opt_def)

lemma nth_opt_drop [simp]: "nth_opt (drop n xs) i = nth_opt xs (n + i)"
  by (auto simp: nth_opt_def)

lemma nth_opt_append_length [simp]: "nth_opt (xs @ ys) (length xs + i) = nth_opt ys i"
  by (simp add: nth_opt_def)

lemma nth_opt_simps [simp]: "nth_opt [] i = None" "nth_opt (x # xs) 0 = Some x"
  "nth_opt (x # xs) (Suc i) = nth_opt xs i"
  by (simp_all add: nth_opt_def)

text \<open>\<open>&xs[a..b]\<close>\<close>

definition slice :: "nat \<Rightarrow> nat \<Rightarrow> 'a list \<Rightarrow> 'a list" where
  "slice a b xs = take (b - a) (drop a xs)"

lemma slice_append_middle [simp]: "slice (length xs) (length xs + length ys) (xs @ ys @ zs) = ys"
  by (simp add: slice_def)

lemma slice_append_left [simp]: "b \<le> length xs \<Longrightarrow> slice a b (xs @ ys) = slice a b xs"
  by (simp add: slice_def)

lemma length_slice: "b \<le> length xs \<Longrightarrow> length (slice a b xs) = b - a"
  by (simp add: slice_def)

lemma slice_empty [simp]: "slice a a xs = []"
  by (simp add: slice_def)

lemma slice_snoc: "a \<le> i \<Longrightarrow> i < length xs \<Longrightarrow> slice a (Suc i) xs = slice a i xs @ [xs ! i]"
  by (simp add: slice_def Suc_diff_le take_Suc_conv_app_nth)

section \<open>The order of byte strings\<close>

lemma prefix_le [order_intros]: "prefix p s \<Longrightarrow> p \<le> (s :: str)"
proof (induction p arbitrary: s)
  case (Cons a p)
  then show ?case by (cases s) auto
qed simp

lemma strict_prefix_less [order_intros]: "strict_prefix p s \<Longrightarrow> p < (s :: str)"
  by (metis order_le_less prefix_le prefix_order.dual_order.strict_iff_order)

text \<open>The strings with a given prefix form an interval.\<close>

lemma prefix_convex:
  "prefix p a \<Longrightarrow> a \<le> b \<Longrightarrow> b \<le> c \<Longrightarrow> prefix p c \<Longrightarrow> prefix p (b :: str)"
proof (induction p arbitrary: a b c)
  case (Cons x p)
  from Cons.prems(1) obtain a' where a: "a = x # a'" "prefix p a'"
    by (auto simp: prefix_def)
  from Cons.prems(4) obtain c' where c: "c = x # c'" "prefix p c'"
    by (auto simp: prefix_def)
  from a(1) Cons.prems(2) obtain y b' where b: "b = y # b'"
    by (cases b) simp_all
  with a(1) c(1) Cons.prems(2,3) have "x < y \<or> x = y \<and> a' \<le> b'" "y < x \<or> y = x \<and> b' \<le> c'"
    by simp_all
  then have "x = y" "a' \<le> b'" "b' \<le> c'"
    using order_less_asym by blast+
  with Cons.IH [OF a(2) _ _ c(2)] b show ?case by simp
qed simp

text \<open>A prefix that lies below some string of the interval is a prefix of everything between.\<close>

lemma prefix_between:
  "prefix p c \<Longrightarrow> p \<le> b \<Longrightarrow> b \<le> c \<Longrightarrow> prefix p (b :: str)"
  using prefix_convex [of p p b c] by simp

lemma append_less_same [simp]: "(p @ a < p @ b) = (a < (b :: str))"
  by (induction p) auto

lemma append_le_same [simp]: "(p @ a \<le> p @ b) = (a \<le> (b :: str))"
  by (induction p) auto

lemma less_append [simp]: "b \<noteq> [] \<Longrightarrow> p < p @ (b :: str)"
  by (induction p) (auto simp: neq_Nil_conv)

lemma Nil_less_iff [simp]: "[] < (s :: str) \<longleftrightarrow> s \<noteq> []"
  by (cases s) simp_all

lemma Nil_le_str [simp]: "[] \<le> (s :: str)"
  by (cases s) simp_all

lemma not_append_less [simp]: "\<not> p @ a < (p :: str)"
  using prefix_le [of p "p @ a"] by (simp add: not_less)

lemma append_le_self [simp]: "p @ a \<le> p \<longleftrightarrow> a = ([] :: str)"
proof
  assume "p @ a \<le> p"
  then show "a = []" using less_append [of a p] by (auto simp: not_le [symmetric])
qed simp

lemma sorted_wrt_less_distinct: "sorted_wrt (<) (xs :: 'a :: order list) \<Longrightarrow> distinct xs"
  by (induction xs) auto

section \<open>Binary search\<close>

text \<open>
  \<open>slice::partition_point\<close> and \<open>slice::binary_search_by\<close> of the standard library. The search is
  only specified on slices the test partitions, which is what the lemmas require.
\<close>

datatype ordering = Less | Equal | Greater

definition cmp :: "'a :: linorder \<Rightarrow> 'a \<Rightarrow> ordering" where
  "cmp a b = (if a < b then Less else if a = b then Equal else Greater)"

function partition_loop :: "('a \<Rightarrow> bool) \<Rightarrow> 'a list \<Rightarrow> nat \<Rightarrow> nat \<Rightarrow> nat" where
  "partition_loop P xs lo hi =
     (if lo < hi then
        (let mid = (lo + hi) div 2 in
         if P (xs ! mid) then partition_loop P xs (mid + 1) hi else partition_loop P xs lo mid)
      else lo)"
  by pat_completeness auto
termination by (relation "measure (\<lambda>(P, xs, lo, hi). hi - lo)") auto

declare partition_loop.simps [simp del]

definition partition_point :: "('a \<Rightarrow> bool) \<Rightarrow> 'a list \<Rightarrow> nat" where
  "partition_point P xs = partition_loop P xs 0 (length xs)"

definition binary_search_by :: "('a \<Rightarrow> ordering) \<Rightarrow> 'a list \<Rightarrow> nat + nat" where
  "binary_search_by c xs =
     (let i = partition_point (\<lambda>x. c x = Less) xs in
      if i < length xs \<and> c (xs ! i) = Equal then Inr i else Inl i)"

definition partitioned :: "('a \<Rightarrow> bool) \<Rightarrow> 'a list \<Rightarrow> bool" where
  "partitioned P xs \<longleftrightarrow> (\<forall>i j. i < j \<longrightarrow> j < length xs \<longrightarrow> P (xs ! j) \<longrightarrow> P (xs ! i))"

lemma partition_loop_bounds:
  "partitioned P xs \<Longrightarrow> lo \<le> hi \<Longrightarrow> hi \<le> length xs \<Longrightarrow> (\<forall>i < lo. P (xs ! i)) \<Longrightarrow>
     (\<forall>i. hi \<le> i \<longrightarrow> i < length xs \<longrightarrow> \<not> P (xs ! i)) \<Longrightarrow>
     (let k = partition_loop P xs lo hi in
        k \<le> length xs \<and> (\<forall>i < k. P (xs ! i)) \<and> (\<forall>i. k \<le> i \<longrightarrow> i < length xs \<longrightarrow> \<not> P (xs ! i)))"
proof (induction P xs lo hi rule: partition_loop.induct)
  case (1 P xs lo hi)
  show ?case
  proof (cases "lo < hi")
    case False
    then have "partition_loop P xs lo hi = lo" by (subst partition_loop.simps) simp
    with False 1 show ?thesis by (auto simp: Let_def)
  next
    case True
    define mid where "mid = (lo + hi) div 2"
    have mid: "lo \<le> mid" "mid < hi" using True by (auto simp: mid_def)
    note part = \<open>partitioned P xs\<close> [unfolded partitioned_def, rule_format]
    show ?thesis
    proof (cases "P (xs ! mid)")
      case P: True
      then have "\<forall>i < mid + 1. P (xs ! i)"
        using part [of _ mid] mid 1(5) by (auto simp: less_Suc_eq)
      with True P mid 1 show ?thesis
        by (simp add: partition_loop.simps [of P xs lo hi] Let_def flip: mid_def)
    next
      case nP: False
      then have "\<forall>i. mid \<le> i \<longrightarrow> i < length xs \<longrightarrow> \<not> P (xs ! i)"
        using part [of mid] by (metis le_neq_implies_less)
      with True nP mid 1 show ?thesis
        by (simp add: partition_loop.simps [of P xs lo hi] Let_def flip: mid_def)
    qed
  qed
qed

lemma partition_point_spec:
  assumes "partitioned P xs"
  shows "partition_point P xs \<le> length xs" "i < partition_point P xs \<Longrightarrow> P (xs ! i)"
    "partition_point P xs \<le> i \<Longrightarrow> i < length xs \<Longrightarrow> \<not> P (xs ! i)"
  using partition_loop_bounds [OF assms, of 0 "length xs"]
  by (auto simp: partition_point_def Let_def)

lemma binary_search_by_spec:
  fixes f :: "'a \<Rightarrow> 'b :: linorder"
  assumes "sorted_wrt (<) (map f xs)"
  shows "binary_search_by (\<lambda>x. cmp (f x) k) xs = Inr i \<longleftrightarrow> i < length xs \<and> f (xs ! i) = k"
    and "(\<exists>i. binary_search_by (\<lambda>x. cmp (f x) k) xs = Inl i) \<longleftrightarrow> k \<notin> f ` set xs"
proof -
  let ?P = "\<lambda>x. cmp (f x) k = Less"
  have less: "f (xs ! i) < f (xs ! j)" if "i < j" "j < length xs" for i j
    using assms that by (auto simp: sorted_wrt_iff_nth_less)
  have P: "?P x \<longleftrightarrow> f x < k" "cmp (f x) k = Equal \<longleftrightarrow> f x = k" for x
    by (auto simp: cmp_def)
  have "partitioned ?P xs"
    unfolding partitioned_def P using less order.strict_trans by blast
  note pp = partition_point_spec [OF this]
  have at: "partition_point ?P xs = i" if "i < length xs" "f (xs ! i) = k" for i
  proof (rule linorder_cases [of "partition_point ?P xs" i])
    assume "partition_point ?P xs < i"
    with pp(3) [of "partition_point ?P xs"] less [of "partition_point ?P xs" i] that
    show ?thesis unfolding P by auto
  next
    assume "i < partition_point ?P xs"
    with pp(2) [of i] that show ?thesis unfolding P by auto
  qed
  show i: "binary_search_by (\<lambda>x. cmp (f x) k) xs = Inr i \<longleftrightarrow> i < length xs \<and> f (xs ! i) = k" for i
    using at [of i] by (auto simp: binary_search_by_def Let_def P(2))
  show "(\<exists>i. binary_search_by (\<lambda>x. cmp (f x) k) xs = Inl i) \<longleftrightarrow> k \<notin> f ` set xs"
  proof
    assume "\<exists>i. binary_search_by (\<lambda>x. cmp (f x) k) xs = Inl i"
    then obtain n where n: "binary_search_by (\<lambda>x. cmp (f x) k) xs = Inl n" ..
    show "k \<notin> f ` set xs"
    proof
      assume "k \<in> f ` set xs"
      then obtain j where "j < length xs" "f (xs ! j) = k"
        by (metis imageE in_set_conv_nth)
      then have "binary_search_by (\<lambda>x. cmp (f x) k) xs = Inr j" using i [of j] by blast
      with n show False by simp
    qed
  next
    assume k: "k \<notin> f ` set xs"
    show "\<exists>i. binary_search_by (\<lambda>x. cmp (f x) k) xs = Inl i"
    proof (cases "binary_search_by (\<lambda>x. cmp (f x) k) xs")
      case (Inr j)
      with i [of j] have "j < length xs" "f (xs ! j) = k" by blast+
      with k show ?thesis by (metis imageI nth_mem)
    qed simp
  qed
qed

end
