(* ===== verification/LexicalPath.thy ===== *)
theory LexicalPath
  imports Prelude
begin

text \<open>
  Gat's host-independent path identity (\<open>gat-core/src/lexical_path.rs\<close>) and the path
  scopes built on it (\<open>gat-core/src/path_scope.rs\<close>). A \<open>gat_path\<close> is the source's
  newtype over its text; \<open>canonical\<close> is the invariant its constructors establish. The
  lenient parser (\<open>normalize_lexical\<close>, one scan over the bytes) and the strict one
  (\<open>validate_canonical_str\<close>) are both translated; a \<open>char_indices\<close> loop that only
  inspects ASCII is a loop over bytes, since no byte of a multi-byte character is ASCII.
  A \<open>Path\<close> argument of the host is either Unicode text or an opaque string of which only
  the lossy rendering is known.
\<close>

section \<open>Data\<close>

datatype lexical_path_error =
    EmptyPath str
  | NonUtf8 str
  | NotRelative str
  | ParentTraversal str

datatype gat_path = GatPath (as_str: str)

text \<open>\<open>#[derive(PartialOrd, Ord)]\<close>: paths are ordered by their text.\<close>

instantiation gat_path :: linorder
begin

definition less_eq_gat_path :: "gat_path \<Rightarrow> gat_path \<Rightarrow> bool" where
  "less_eq_gat_path p q \<longleftrightarrow> as_str p \<le> as_str q"

definition less_gat_path :: "gat_path \<Rightarrow> gat_path \<Rightarrow> bool" where
  "less_gat_path p q \<longleftrightarrow> as_str p < as_str q"

instance
  by standard (auto simp: less_eq_gat_path_def less_gat_path_def gat_path.expand)

end

datatype gat_subpath_ref = RefRoot | RefPath gat_path

datatype gat_subpath = Root | SubPath gat_path

datatype path_scope = ScopeRoot | ScopePath gat_path

datatype lexical_path = LexEmpty | LexPath gat_path

record normalized_glob_pattern =
  pattern :: str
  first_meta :: "nat option"

datatype os_path = Unicode str | NonUnicode str

fun to_string_lossy :: "os_path \<Rightarrow> str" where
  "to_string_lossy (Unicode s) = s"
| "to_string_lossy (NonUnicode d) = d"

section \<open>Strict validation of canonical text\<close>

fun check_components :: "str \<Rightarrow> str list \<Rightarrow> lexical_path_error + unit" where
  "check_components raw [] = Ok ()"
| "check_components raw (component # rest) =
     (if component = [] then Err (NotRelative raw)
      else if component = lit ''.'' then Err (NotRelative raw)
      else if component = lit ''..'' then Err (ParentTraversal raw)
      else if BACKSLASH \<in> set component then Err (NotRelative raw)
      else check_components raw rest)"

definition validate_canonical_str :: "str \<Rightarrow> lexical_path_error + unit" where
  "validate_canonical_str raw =
     (if raw = [] then Err (EmptyPath raw)
      else if prefix [SLASH] raw then Err (NotRelative raw)
      else check_components raw (split_on SLASH raw))"

definition parse_canonical :: "str \<Rightarrow> lexical_path_error + gat_path" where
  "parse_canonical raw = and_then (validate_canonical_str raw) (\<lambda>_. Ok (GatPath raw))"

definition from_canonical_string :: "str \<Rightarrow> lexical_path_error + gat_path" where
  "from_canonical_string raw = and_then (validate_canonical_str raw) (\<lambda>_. Ok (GatPath raw))"

section \<open>Lenient normalization\<close>

definition is_glob_meta :: "u8 \<Rightarrow> bool" where
  "is_glob_meta ch \<longleftrightarrow> ch = 42 \<or> ch = 63 \<or> ch = 91"

definition push_component ::
  "str \<Rightarrow> str \<Rightarrow> nat option \<Rightarrow> normalized_glob_pattern
     \<Rightarrow> lexical_path_error + normalized_glob_pattern" where
  "push_component component display pending_meta st =
     (if component = [] \<or> component = lit ''.'' then Ok st
      else if component = lit ''..'' then Err (ParentTraversal display)
      else
        let normalized = (if pattern st \<noteq> [] then pattern st @ [SLASH] else pattern st);
            start = length normalized
        in Ok (st\<lparr>pattern := normalized @ component,
                  first_meta := (case first_meta st of
                      None \<Rightarrow> map_option (\<lambda>offset. start + offset) pending_meta
                    | Some m \<Rightarrow> Some m)\<rparr>))"

fun normalize_loop ::
  "bool \<Rightarrow> str \<Rightarrow> str \<Rightarrow> str \<Rightarrow> nat option \<Rightarrow> normalized_glob_pattern
     \<Rightarrow> lexical_path_error + normalized_glob_pattern" where
  "normalize_loop track_glob_meta display [] component pending_meta st =
     push_component component display pending_meta st"
| "normalize_loop track_glob_meta display (ch # rest) component pending_meta st =
     (if ch = SLASH \<or> ch = BACKSLASH then
        and_then (push_component component display pending_meta st)
          (normalize_loop track_glob_meta display rest [] None)
      else if is_glob_meta ch \<and> track_glob_meta \<and> first_meta st = None \<and> pending_meta = None then
        normalize_loop track_glob_meta display rest (component @ [ch]) (Some (length component)) st
      else normalize_loop track_glob_meta display rest (component @ [ch]) pending_meta st)"

definition normalize_lexical ::
  "str \<Rightarrow> str \<Rightarrow> bool \<Rightarrow> lexical_path_error + normalized_glob_pattern" where
  "normalize_lexical raw display track_glob_meta =
     (if prefix [SLASH] raw \<or> prefix [BACKSLASH] raw then Err (NotRelative display)
      else normalize_loop track_glob_meta display raw [] None \<lparr>pattern = [], first_meta = None\<rparr>)"

definition normalize_relative_str :: "str \<Rightarrow> str \<Rightarrow> lexical_path_error + lexical_path" where
  "normalize_relative_str raw display =
     and_then (normalize_lexical raw display False) (\<lambda>normalized.
       Ok (if pattern normalized = [] then LexEmpty else LexPath (GatPath (pattern normalized))))"

definition normalize_relative_path :: "os_path \<Rightarrow> lexical_path_error + lexical_path" where
  "normalize_relative_path path =
     (case path of Unicode raw \<Rightarrow> normalize_relative_str raw (to_string_lossy path)
      | NonUnicode _ \<Rightarrow> Err (NonUtf8 (to_string_lossy path)))"

definition normalize_glob_pattern_with_meta ::
  "str \<Rightarrow> lexical_path_error + normalized_glob_pattern" where
  "normalize_glob_pattern_with_meta pat = normalize_lexical pat pat True"

definition gat_path_normalize :: "os_path \<Rightarrow> lexical_path_error + gat_path" where
  "gat_path_normalize path =
     and_then (normalize_relative_path path) (\<lambda>r. case r of
         LexPath p \<Rightarrow> Ok p
       | LexEmpty \<Rightarrow> Err (EmptyPath (to_string_lossy path)))"

section \<open>Component-aware operations\<close>

definition relative_path :: "str \<Rightarrow> str \<Rightarrow> str option" where
  "relative_path candidate pre =
     (case strip_prefix pre candidate of
        None \<Rightarrow> None
      | Some rest \<Rightarrow> (if rest = [] then Some rest else strip_prefix [SLASH] rest))"

definition gat_path_strip_prefix :: "gat_path \<Rightarrow> gat_path \<Rightarrow> gat_subpath_ref option" where
  "gat_path_strip_prefix self pre =
     map_option (\<lambda>relative. if relative = [] then RefRoot else RefPath (GatPath relative))
       (relative_path (as_str self) (as_str pre))"

definition is_or_under :: "gat_path \<Rightarrow> gat_path \<Rightarrow> bool" where
  "is_or_under self pre \<longleftrightarrow> gat_path_strip_prefix self pre \<noteq> None"

definition join_rel :: "gat_path \<Rightarrow> gat_path \<Rightarrow> gat_path" where
  "join_rel self rel = GatPath (as_str self @ [SLASH] @ as_str rel)"

text \<open>The release build's behaviour; the debug assertion only rules out the last case.\<close>

definition with_replaced_prefix :: "gat_path \<Rightarrow> gat_path \<Rightarrow> gat_path \<Rightarrow> gat_path" where
  "with_replaced_prefix self old_prefix new_prefix =
     (case gat_path_strip_prefix self old_prefix of
        Some RefRoot \<Rightarrow> new_prefix
      | Some (RefPath relative) \<Rightarrow> join_rel new_prefix relative
      | None \<Rightarrow> self)"

section \<open>Subpaths and scopes\<close>

definition gat_subpath_normalize :: "os_path \<Rightarrow> lexical_path_error + gat_subpath" where
  "gat_subpath_normalize path =
     and_then (normalize_relative_path path) (\<lambda>r. case r of
         LexEmpty \<Rightarrow> Ok Root
       | LexPath p \<Rightarrow> Ok (SubPath p))"

definition gat_subpath_parse_canonical :: "str \<Rightarrow> lexical_path_error + gat_subpath" where
  "gat_subpath_parse_canonical raw =
     (if raw = lit ''.'' then Ok Root else map_ok SubPath (parse_canonical raw))"

definition gat_subpath_from_canonical_string :: "str \<Rightarrow> lexical_path_error + gat_subpath" where
  "gat_subpath_from_canonical_string raw =
     (if raw = lit ''.'' then Ok Root else map_ok SubPath (from_canonical_string raw))"

fun as_path :: "gat_subpath \<Rightarrow> gat_path option" where
  "as_path Root = None"
| "as_path (SubPath p) = Some p"

fun is_root :: "gat_subpath \<Rightarrow> bool" where
  "is_root Root = True"
| "is_root (SubPath p) = False"

fun into_path_scope :: "gat_subpath \<Rightarrow> path_scope" where
  "into_path_scope Root = ScopeRoot"
| "into_path_scope (SubPath p) = ScopePath p"

fun gat_subpath_display :: "gat_subpath \<Rightarrow> str" where
  "gat_subpath_display Root = lit ''.''"
| "gat_subpath_display (SubPath p) = as_str p"

definition normalize_path_scope :: "os_path \<Rightarrow> lexical_path_error + path_scope" where
  "normalize_path_scope path =
     and_then (normalize_relative_path path) (\<lambda>r. case r of
         LexEmpty \<Rightarrow> Ok ScopeRoot
       | LexPath p \<Rightarrow> Ok (ScopePath p))"

fun matches_scope :: "gat_path \<Rightarrow> path_scope \<Rightarrow> bool" where
  "matches_scope candidate ScopeRoot = True"
| "matches_scope candidate (ScopePath scope) = is_or_under candidate scope"

definition has_glob_metacharacters :: "str \<Rightarrow> bool" where
  "has_glob_metacharacters s \<longleftrightarrow> list_ex is_glob_meta s"

section \<open>The canonical form\<close>

lemma gat_path_eq_iff: "p = q \<longleftrightarrow> as_str p = as_str q"
  by (cases p; cases q) simp


definition ok_component :: "str \<Rightarrow> bool" where
  "ok_component w \<longleftrightarrow> w \<noteq> [] \<and> w \<noteq> lit ''.'' \<and> w \<noteq> lit ''..'' \<and> BACKSLASH \<notin> set w \<and> SLASH \<notin> set w"

definition canonical :: "str \<Rightarrow> bool" where
  "canonical s \<longleftrightarrow> (\<forall>w \<in> set (split_on SLASH s). ok_component w)"

definition wf_path :: "gat_path \<Rightarrow> bool" where
  "wf_path p \<longleftrightarrow> canonical (as_str p)"

lemma canonical_not_Nil [simp]: "\<not> canonical []"
  by (simp add: canonical_def ok_component_def)

lemma canonical_components:
  "canonical s \<Longrightarrow> w \<in> set (split_on SLASH s) \<Longrightarrow> ok_component w"
  by (simp add: canonical_def)

lemma canonical_append:
  "canonical (a @ SLASH # b) \<longleftrightarrow> canonical a \<and> canonical b"
  by (auto simp: canonical_def split_on_append_gen)

lemma canonical_not_slash: "canonical s \<Longrightarrow> \<not> prefix [SLASH] s"
  using canonical_append [of "[]"] by (auto simp: prefix_def)

lemma canonical_no_backslash: "canonical s \<Longrightarrow> BACKSLASH \<notin> set s"
proof
  assume "canonical s" "BACKSLASH \<in> set s"
  then obtain w where "w \<in> set (split_on SLASH s)" "BACKSLASH \<in> set w"
    using set_split_on [of BACKSLASH s SLASH] by auto
  with \<open>canonical s\<close> show False
    by (auto simp: canonical_def ok_component_def)
qed

lemma canonical_join:
  "ws \<noteq> [] \<Longrightarrow> list_all ok_component ws \<Longrightarrow> canonical (join_with SLASH ws)"
  by (simp add: canonical_def split_join list_all_iff ok_component_def)

lemma check_components_Ok:
  "check_components raw ws = Ok () \<longleftrightarrow>
     (\<forall>w \<in> set ws. w \<noteq> [] \<and> w \<noteq> lit ''.'' \<and> w \<noteq> lit ''..'' \<and> BACKSLASH \<notin> set w)"
  by (induction ws) auto

lemma validate_canonical_str_Ok: "validate_canonical_str raw = Ok () \<longleftrightarrow> canonical raw"
proof -
  have "\<And>w. w \<in> set (split_on SLASH raw) \<Longrightarrow> SLASH \<notin> set w"
    by (rule split_on_no_sep)
  then show ?thesis
    using canonical_not_slash [of raw]
    by (cases "raw = []") (auto simp: validate_canonical_str_def check_components_Ok canonical_def
        ok_component_def simp del: lit_simps)
qed

lemma parse_canonical_Ok: "parse_canonical raw = Ok p \<longleftrightarrow> canonical raw \<and> p = GatPath raw"
  by (cases "validate_canonical_str raw")
    (auto simp: parse_canonical_def validate_canonical_str_Ok [symmetric])

lemma from_canonical_string_eq: "from_canonical_string = parse_canonical"
  by (simp add: fun_eq_iff from_canonical_string_def parse_canonical_def)

section \<open>What the lenient scan computes\<close>

text \<open>The components of a lenient spelling: both separators split, empty and dot components go.\<close>

definition unify_separators :: "str \<Rightarrow> str" where
  "unify_separators s = map (\<lambda>b. if b = BACKSLASH then SLASH else b) s"

definition kept :: "str \<Rightarrow> bool" where
  "kept w \<longleftrightarrow> w \<noteq> [] \<and> w \<noteq> lit ''.''"

definition lenient_components :: "str \<Rightarrow> str list" where
  "lenient_components s = filter kept (split_on SLASH (unify_separators s))"

fun push_all ::
  "bool \<Rightarrow> str \<Rightarrow> str list \<Rightarrow> normalized_glob_pattern \<Rightarrow> lexical_path_error + normalized_glob_pattern"
where
  "push_all t d [] st = Ok st"
| "push_all t d (w # ws) st =
     and_then (push_component w d
         (if t \<and> first_meta st = None then find_position is_glob_meta w else None) st)
       (push_all t d ws)"

lemma unify_simps [simp]:
  "unify_separators [] = []"
  "unify_separators (b # s) = (if b = BACKSLASH then SLASH else b) # unify_separators s"
  by (simp_all add: unify_separators_def)

lemma unify_id [simp]: "BACKSLASH \<notin> set s \<Longrightarrow> unify_separators s = s"
  by (induction s) auto

lemma normalize_loop_push_all:
  assumes "SLASH \<notin> set c" "BACKSLASH \<notin> set c"
    and "pend = (if t \<and> first_meta st = None then find_position is_glob_meta c else None)"
  shows "normalize_loop t d s c pend st = push_all t d (split_on SLASH (c @ unify_separators s)) st"
  using assms
proof (induction t d s c pend st rule: normalize_loop.induct)
  case (1 t d c pend st)
  then show ?case
    by (cases "push_component c d pend st") auto
next
  case (2 t d ch s c pend st)
  show ?case
  proof (cases "ch = SLASH \<or> ch = BACKSLASH")
    case True
    then have "split_on SLASH (c @ unify_separators (ch # s)) = c # split_on SLASH (unify_separators s)"
      using "2.prems"(1) by (auto simp: split_on_append)
    moreover have "normalize_loop t d s [] None st' = push_all t d (split_on SLASH (unify_separators s)) st'"
      if "push_component c d pend st = Ok st'" for st'
      using "2.IH"(1) [OF True, of st'] by simp
    ultimately show ?thesis
      using True "2.prems"(3) by (cases "push_component c d pend st") auto
  next
    case False
    then have "ch \<noteq> SLASH" "ch \<noteq> BACKSLASH" by auto
    then have eq: "c @ unify_separators (ch # s) = (c @ [ch]) @ unify_separators s" by simp
    show ?thesis
    proof (cases "is_glob_meta ch \<and> t \<and> first_meta st = None \<and> pend = None")
      case True
      then have no_meta: "find_position is_glob_meta c = None"
        using "2.prems"(3) by (auto split: if_splits)
      then have "find_position is_glob_meta (c @ [ch]) = Some (length c)"
        using True by (simp add: find_position_append)
      then show ?thesis
        using False True no_meta "2.prems" "2.IH"(2) [OF False True] unfolding eq
        by simp
    next
      case F2: False
      then show ?thesis
        using False "2.prems" "2.IH"(3) [OF False F2] unfolding eq
        by (auto simp: find_position_append split: option.splits)
    qed
  qed
qed

text \<open>The text built by pushing components one by one.\<close>

fun append_components :: "str \<Rightarrow> str list \<Rightarrow> str" where
  "append_components n [] = n"
| "append_components n (w # ws) = append_components (if n = [] then w else n @ SLASH # w) ws"

lemma append_components_join:
  "list_all (\<lambda>w. w \<noteq> []) ws \<Longrightarrow>
     append_components n ws = (if n = [] \<or> ws = [] then n @ join_with SLASH ws
                               else n @ SLASH # join_with SLASH ws)"
proof (induction ws arbitrary: n)
  case (Cons w ws)
  then show ?case by (cases ws) auto
qed simp

definition meta_ok :: "bool \<Rightarrow> normalized_glob_pattern \<Rightarrow> bool" where
  "meta_ok t st \<longleftrightarrow> first_meta st = (if t then find_position is_glob_meta (pattern st) else None)"

definition with_meta :: "bool \<Rightarrow> str \<Rightarrow> normalized_glob_pattern" where
  "with_meta t n = \<lparr>pattern = n, first_meta = (if t then find_position is_glob_meta n else None)\<rparr>"

lemma meta_ok_eq: "meta_ok t st \<longleftrightarrow> st = with_meta t (pattern st)"
  by (cases st) (auto simp: meta_ok_def with_meta_def)

lemma pattern_with_meta [simp]: "pattern (with_meta t n) = n"
  by (simp add: with_meta_def)

lemma meta_ok_with_meta [simp]: "meta_ok t (with_meta t n)"
  by (simp add: meta_ok_def with_meta_def)

lemma push_component_spec:
  assumes ok: "meta_ok t st"
  shows "push_component w d (if t \<and> first_meta st = None then find_position is_glob_meta w else None) st =
    (if \<not> kept w then Ok st
     else if w = lit ''..'' then Err (ParentTraversal d)
     else Ok (with_meta t (if pattern st = [] then w else pattern st @ SLASH # w)))"
proof -
  have slash: "find_position is_glob_meta (n @ SLASH # w) =
      (case find_position is_glob_meta n of Some i \<Rightarrow> Some i
       | None \<Rightarrow> map_option (\<lambda>i. Suc (length n) + i) (find_position is_glob_meta w))" for n
  proof -
    have "\<not> is_glob_meta SLASH" by (simp add: is_glob_meta_def)
    then show ?thesis
      by (cases "find_position is_glob_meta w") (simp_all add: find_position_append split: option.splits)
  qed
  show ?thesis
  proof (cases "kept w \<and> w \<noteq> lit ''..''")
    case False
    then show ?thesis by (auto simp: push_component_def kept_def simp del: lit_simps)
  next
    case True
    then have "push_component w d p st =
        Ok (st\<lparr>pattern := (if pattern st = [] then w else pattern st @ SLASH # w),
             first_meta := (case first_meta st of None \<Rightarrow>
               map_option (\<lambda>i. (if pattern st = [] then 0 else Suc (length (pattern st))) + i) p
               | Some m \<Rightarrow> Some m)\<rparr>)" for p
      by (simp add: push_component_def kept_def Let_def del: lit_simps split: option.split)
    then show ?thesis
      using True ok slash [of "pattern st"]
      by (cases "find_position is_glob_meta (pattern st)"; cases "pattern st = []"; cases t)
        (simp_all add: meta_ok_def with_meta_def option.map_ident del: lit_simps)
  qed
qed

lemma kept_dotdot: "kept (lit ''..'')"
  by (simp add: kept_def)

lemma push_all_spec:
  "meta_ok t st \<Longrightarrow> push_all t d ws st =
    (if lit ''..'' \<in> set ws then Err (ParentTraversal d)
     else Ok (with_meta t (append_components (pattern st) (filter kept ws))))"
proof (induction ws arbitrary: st)
  case Nil
  then show ?case by (simp add: meta_ok_eq)
next
  case (Cons w ws)
  show ?case
    using Cons.IH [of st] Cons.IH [of "with_meta t _"] Cons.prems
      push_component_spec [OF Cons.prems, of w d] kept_dotdot
    by (cases "kept w"; cases "w = lit ''..''") (auto simp del: lit_simps)
qed

lemma normalize_lexical_spec:
  "normalize_lexical raw display t =
    (if prefix [SLASH] raw \<or> prefix [BACKSLASH] raw then Err (NotRelative display)
     else if lit ''..'' \<in> set (lenient_components raw) then Err (ParentTraversal display)
     else Ok (with_meta t (join_with SLASH (lenient_components raw))))"
proof -
  have start: "\<lparr>pattern = [], first_meta = None\<rparr> = with_meta t []"
    by (simp add: with_meta_def)
  have "list_all (\<lambda>w. w \<noteq> []) (lenient_components raw)"
    by (auto simp: lenient_components_def kept_def list_all_iff)
  then have "append_components [] (lenient_components raw) = join_with SLASH (lenient_components raw)"
    by (simp add: append_components_join)
  moreover have "normalize_loop t display raw [] None (with_meta t []) =
      push_all t display (split_on SLASH (unify_separators raw)) (with_meta t [])"
    using normalize_loop_push_all [of "[]" None t "with_meta t []" display raw]
    by (simp add: with_meta_def)
  ultimately show ?thesis
    using kept_dotdot
    by (simp add: normalize_lexical_def start push_all_spec lenient_components_def del: lit_simps)
qed

lemma lenient_components_canonical:
  assumes "canonical s"
  shows "lenient_components s = split_on SLASH s"
proof -
  have "unify_separators s = s"
    using assms by (simp add: canonical_no_backslash)
  moreover have "filter kept (split_on SLASH s) = split_on SLASH s"
    using assms by (auto simp: filter_id_conv canonical_def ok_component_def kept_def)
  ultimately show ?thesis by (simp add: lenient_components_def)
qed

lemma lenient_components_ok:
  assumes "lit ''..'' \<notin> set (lenient_components s)"
  shows "list_all ok_component (lenient_components s)"
  unfolding list_all_iff
proof
  fix w assume w: "w \<in> set (lenient_components s)"
  then have in_split: "w \<in> set (split_on SLASH (unify_separators s))"
    and kept: "w \<noteq> []" "w \<noteq> lit ''.''"
    by (simp_all add: lenient_components_def kept_def)
  have "BACKSLASH \<notin> set (unify_separators s)"
    by (auto simp: unify_separators_def)
  then have "BACKSLASH \<notin> set w"
    using set_split_on [of BACKSLASH "unify_separators s" SLASH] in_split by blast
  moreover have "SLASH \<notin> set w"
    using in_split by (rule split_on_no_sep)
  moreover have "w \<noteq> lit ''..''"
    using assms w by metis
  ultimately show "ok_component w"
    using kept by (simp add: ok_component_def del: lit_simps)
qed

lemma join_lenient_components [simp]:
  "join_with SLASH (lenient_components raw) = [] \<longleftrightarrow> lenient_components raw = []"
proof -
  have "join_with SLASH ws \<noteq> []" if "ws \<noteq> []" "[] \<notin> set ws" for ws
    using that by (cases ws; cases "tl ws") auto
  moreover have "[] \<notin> set (lenient_components raw)"
    by (auto simp: lenient_components_def kept_def)
  ultimately show ?thesis by auto
qed

lemma normalize_lexical_canonical:
  "canonical s \<Longrightarrow> normalize_lexical s d t = Ok (with_meta t s)"
  using canonical_not_slash [of s] canonical_no_backslash [of s]
  by (auto simp: normalize_lexical_spec lenient_components_canonical canonical_def ok_component_def
      prefix_def simp del: lit_simps)

text \<open>
  C1: \<open>GatPath::normalize\<close> computes exactly what its documentation says: rooted spellings
  (either slash) are refused, any \<open>..\<close> component is refused, a spelling with no components is the
  empty path, and everything else is the slash-joined list of its non-trivial components; an
  opaque host path is refused first.
\<close>

theorem gat_path_normalize_spec:
  "gat_path_normalize path =
    (case path of
       NonUnicode d \<Rightarrow> Err (NonUtf8 d)
     | Unicode raw \<Rightarrow>
         if prefix [SLASH] raw \<or> prefix [BACKSLASH] raw then Err (NotRelative raw)
         else if lit ''..'' \<in> set (lenient_components raw) then Err (ParentTraversal raw)
         else if lenient_components raw = [] then Err (EmptyPath raw)
         else Ok (GatPath (join_with SLASH (lenient_components raw))))"
  using join_lenient_components
  by (cases path) (simp_all add: gat_path_normalize_def normalize_relative_path_def
      normalize_relative_str_def normalize_lexical_spec del: lit_simps)

text \<open>
  C2: The lenient and the strict constructor agree: whatever \<open>GatPath::normalize\<close> returns is
  canonical, is accepted unchanged by \<open>GatPath::parse_canonical\<close>, and normalizing it again gives
  the same path; and the strict constructor accepts exactly the texts normalization leaves alone.
\<close>

theorem normalize_parse_canonical:
  "(\<forall>path p. gat_path_normalize path = Ok p \<longrightarrow>
      canonical (as_str p) \<and> parse_canonical (as_str p) = Ok p
      \<and> gat_path_normalize (Unicode (as_str p)) = Ok p)
   \<and> (\<forall>raw. (\<exists>p. parse_canonical raw = Ok p) \<longleftrightarrow> gat_path_normalize (Unicode raw) = Ok (GatPath raw))"
proof (intro conjI allI impI)
  have fixed: "gat_path_normalize (Unicode s) = Ok (GatPath s)" if "canonical s" for s
    using that by (auto simp: gat_path_normalize_def normalize_relative_path_def
        normalize_relative_str_def normalize_lexical_canonical)
  have canon: "canonical (as_str p)" if n: "gat_path_normalize path = Ok p" for path p
  proof (cases path)
    case (Unicode raw)
    with n lenient_components_ok [of raw] show ?thesis
      by (auto simp: gat_path_normalize_spec canonical_join simp del: lit_simps split: if_splits)
  qed (use n in \<open>simp add: gat_path_normalize_spec\<close>)
  show "canonical (as_str p)" "parse_canonical (as_str p) = Ok p"
    "gat_path_normalize (Unicode (as_str p)) = Ok p"
    if "gat_path_normalize path = Ok p" for path p
    using canon [OF that] fixed by (simp_all add: parse_canonical_Ok)
  show "(\<exists>p. parse_canonical raw = Ok p) \<longleftrightarrow> gat_path_normalize (Unicode raw) = Ok (GatPath raw)" for raw
    using fixed [of raw] canon [of "Unicode raw" "GatPath raw"] by (auto simp: parse_canonical_Ok)
qed

theorem normalize_parse_canonical_witness:
  "gat_path_normalize (Unicode (lit ''./data//a.bin'')) = Ok (GatPath (lit ''data/a.bin''))
   \<and> parse_canonical (lit ''data/a.bin'') = Ok (GatPath (lit ''data/a.bin''))"
proof -
  have n: "gat_path_normalize (Unicode (lit ''./data//a.bin'')) = Ok (GatPath (lit ''data/a.bin''))"
    by code_simp
  show ?thesis
    using n normalize_parse_canonical [THEN conjunct1, rule_format, OF n] by (simp del: lit_simps)
qed

section \<open>Component-aware relations\<close>

lemma relative_path_Some [str_simps]:
  "relative_path c p = Some r \<longleftrightarrow> (c = p \<and> r = []) \<or> c = p @ SLASH # r"
  by (auto simp: relative_path_def str_simps split: option.splits)

lemma is_or_under_iff:
  "is_or_under s p \<longleftrightarrow> s = p \<or> (\<exists>q. as_str s = as_str p @ SLASH # q)"
proof -
  have "is_or_under s p \<longleftrightarrow> (\<exists>r. relative_path (as_str s) (as_str p) = Some r)"
    by (auto simp: is_or_under_def gat_path_strip_prefix_def)
  then show ?thesis by (auto simp: relative_path_Some gat_path_eq_iff)
qed

lemma is_or_under_refl [simp]: "is_or_under p p"
  by (simp add: is_or_under_iff)

lemma is_or_under_trans: "is_or_under a b \<Longrightarrow> is_or_under b c \<Longrightarrow> is_or_under a c"
  by (auto simp: is_or_under_iff)

lemma is_or_under_prefix: "is_or_under s p \<Longrightarrow> prefix (as_str p) (as_str s)"
  by (auto simp: is_or_under_iff)

lemma is_or_under_components:
  assumes "wf_path s" "wf_path p"
  shows "is_or_under s p \<longleftrightarrow> prefix (split_on SLASH (as_str p)) (split_on SLASH (as_str s))"
proof
  assume "is_or_under s p"
  then show "prefix (split_on SLASH (as_str p)) (split_on SLASH (as_str s))"
    by (auto simp: is_or_under_iff split_on_append_gen)
next
  assume "prefix (split_on SLASH (as_str p)) (split_on SLASH (as_str s))"
  then obtain ws where ws: "split_on SLASH (as_str s) = split_on SLASH (as_str p) @ ws"
    by (auto simp: prefix_def)
  have join: "join_with SLASH (us @ vs) = join_with SLASH us @ SLASH # join_with SLASH vs"
    if "us \<noteq> []" "vs \<noteq> []" for us vs
    using that
  proof (induction us)
    case (Cons u us)
    then show ?case by (cases us; cases vs) auto
  qed simp
  show "is_or_under s p"
  proof (cases "ws = []")
    case True
    then have "as_str s = as_str p"
      using ws by (metis append_Nil2 join_split_on)
    then show ?thesis by (simp add: is_or_under_iff gat_path_eq_iff)
  next
    case False
    then have "as_str s = as_str p @ SLASH # join_with SLASH ws"
      using ws join [of "split_on SLASH (as_str p)" ws] join_split_on [of SLASH "as_str s"] by simp
    then show ?thesis by (auto simp: is_or_under_iff)
  qed
qed

lemma with_replaced_prefix_self: "is_or_under s p \<Longrightarrow> wf_path s \<Longrightarrow>
   as_str (with_replaced_prefix s p n) = as_str n @ drop (length (as_str p)) (as_str s)"
  by (auto simp: is_or_under_iff with_replaced_prefix_def gat_path_strip_prefix_def
      relative_path_def strip_prefix_def join_rel_def wf_path_def canonical_append)

lemma with_replaced_prefix_wf:
  assumes "is_or_under s p" "wf_path s" "wf_path n"
  shows "wf_path (with_replaced_prefix s p n)" "is_or_under (with_replaced_prefix s p n) n"
proof -
  have eq: "as_str (with_replaced_prefix s p n) = as_str n @ drop (length (as_str p)) (as_str s)"
    using assms by (simp add: with_replaced_prefix_self)
  from assms(1) consider "s = p" | q where "as_str s = as_str p @ SLASH # q"
    by (auto simp: is_or_under_iff)
  then show "wf_path (with_replaced_prefix s p n)" "is_or_under (with_replaced_prefix s p n) n"
    by (cases; use eq assms in \<open>auto simp: wf_path_def canonical_append is_or_under_iff gat_path_eq_iff\<close>)+
qed

text \<open>
  Moving a subtree is sound and reversible: for canonical paths, \<open>is_or_under\<close> is prefixing
  of component lists (never of bytes), \<open>with_replaced_prefix\<close> of a path under the old directory is
  a canonical path under the new one, and replacing the prefix back gives the original path.
\<close>

theorem replaced_prefix_roundtrip:
  assumes "wf_path s" "wf_path old" "wf_path new"
    and "prefix (split_on SLASH (as_str old)) (split_on SLASH (as_str s))"
  shows "wf_path (with_replaced_prefix s old new)
    \<and> is_or_under (with_replaced_prefix s old new) new
    \<and> with_replaced_prefix (with_replaced_prefix s old new) new old = s"
proof -
  have under: "is_or_under s old"
    using assms by (simp add: is_or_under_components)
  note wf = with_replaced_prefix_wf [OF under assms(1,3)]
  have "as_str (with_replaced_prefix (with_replaced_prefix s old new) new old)
      = as_str old @ drop (length (as_str old)) (as_str s)"
    using wf under assms by (simp add: with_replaced_prefix_self)
  also have "\<dots> = as_str s"
    using is_or_under_prefix [OF under] by (auto simp: prefix_def)
  finally show ?thesis using wf by (simp add: gat_path_eq_iff)
qed

theorem replaced_prefix_roundtrip_witness:
  "with_replaced_prefix (with_replaced_prefix (GatPath (lit ''a/b/c'')) (GatPath (lit ''a/b'')) (GatPath (lit ''z'')))
      (GatPath (lit ''z'')) (GatPath (lit ''a/b'')) = GatPath (lit ''a/b/c'')"
proof -
  have "wf_path (GatPath (lit ''a/b/c''))" "wf_path (GatPath (lit ''a/b''))" "wf_path (GatPath (lit ''z''))"
    "prefix (split_on SLASH (as_str (GatPath (lit ''a/b'')))) (split_on SLASH (as_str (GatPath (lit ''a/b/c''))))"
    by (simp_all add: wf_path_def canonical_def ok_component_def)
  from replaced_prefix_roundtrip [OF this] show ?thesis by blast
qed

end
