(* ===== verification/ManagedBlock.thy ===== *)
theory ManagedBlock
  imports LexicalPath
begin

text \<open>
  The newline policy (\<open>gat-core/src/newline.rs\<close>) and the editor of marked blocks inside files gat
  does not own (\<open>gat-core/src/managed_block.rs\<close>): Git hooks, \<open>.git/info/exclude\<close> and
  \<open>.git/info/attributes\<close>. The model works on the same offsets and slices as the source; the
  lemmas reason about the list of lines.
\<close>

section \<open>Line terminators\<close>

definition strip_terminator :: "str \<Rightarrow> str" where
  "strip_terminator line =
     (case strip_suffix [LF] line of
        Some rest \<Rightarrow> (case strip_suffix [CR] rest of Some r \<Rightarrow> r | None \<Rightarrow> rest)
      | None \<Rightarrow> line)"

datatype eol = Lf | Crlf

fun eol_as_str :: "eol \<Rightarrow> str" where
  "eol_as_str Lf = [LF]"
| "eol_as_str Crlf = [CR, LF]"

definition eol_detect :: "str \<Rightarrow> eol" where
  "eol_detect existing =
     (case find_byte LF existing of
        Some idx \<Rightarrow> (if suffix [CR] (take idx existing) then Crlf else Lf)
      | None \<Rightarrow> Lf)"

section \<open>Editing\<close>

function push_crlf :: "str \<Rightarrow> str \<Rightarrow> str" where
  "push_crlf out rest =
     (case find_byte LF rest of
        Some idx \<Rightarrow> push_crlf (out @ take idx rest @ [CR, LF]) (drop (idx + 1) rest)
      | None \<Rightarrow> out @ rest)"
  by pat_completeness auto
termination
  by (relation "measure (\<lambda>(out, rest). length rest)") (auto simp: find_byte_Some)

declare push_crlf.simps [simp del]

fun push_body_with_eol :: "str \<Rightarrow> str \<Rightarrow> eol \<Rightarrow> str" where
  "push_body_with_eol out body Lf = out @ body"
| "push_body_with_eol out body Crlf = push_crlf out body"

definition strip_leading_terminator :: "str \<Rightarrow> str" where
  "strip_leading_terminator s =
     (case strip_prefix [CR, LF] s of
        Some r \<Rightarrow> r
      | None \<Rightarrow> (case strip_prefix [LF] s of Some r \<Rightarrow> r | None \<Rightarrow> s))"

fun marker_loop :: "str \<Rightarrow> str \<Rightarrow> str list \<Rightarrow> nat option \<Rightarrow> nat \<Rightarrow> (nat \<times> nat) option" where
  "marker_loop begin_m end_m [] start offset = None"
| "marker_loop begin_m end_m (line # rest) start offset =
     (let txt = strip_terminator line in
      if txt = begin_m then marker_loop begin_m end_m rest (Some offset) (offset + length line)
      else (case (txt = end_m, start) of
          (True, Some s) \<Rightarrow> Some (s, offset)
        | _ \<Rightarrow> marker_loop begin_m end_m rest start (offset + length line)))"

definition marker_offsets :: "str \<Rightarrow> str \<Rightarrow> str \<Rightarrow> (nat \<times> nat) option" where
  "marker_offsets existing begin_m end_m =
     (if begin_m = [] \<or> end_m = [] \<or> begin_m = end_m then None
      else marker_loop begin_m end_m (split_inclusive LF existing) None 0)"

definition upsert :: "str \<Rightarrow> str \<Rightarrow> str \<Rightarrow> str \<Rightarrow> str" where
  "upsert existing begin_m end_m body =
     (let e = eol_detect existing;
          nl = eol_as_str e;
          (before, after, append) =
            (case marker_offsets existing begin_m end_m of
               Some (start, end_at) \<Rightarrow>
                 (take start existing,
                  strip_leading_terminator (drop (end_at + length end_m) existing), False)
             | None \<Rightarrow> (existing, [], True));
          out = before;
          out = (if append \<and> before \<noteq> [] \<and> \<not> suffix [LF] before then out @ nl else out);
          out = out @ begin_m @ nl;
          out = push_body_with_eol out body e
      in out @ end_m @ nl @ after)"

definition remove_block :: "str \<Rightarrow> str \<Rightarrow> str \<Rightarrow> str option" where
  "remove_block existing begin_m end_m =
     (case marker_offsets existing begin_m end_m of
        None \<Rightarrow> None
      | Some (start, end_at) \<Rightarrow>
          Some (take start existing
                @ strip_leading_terminator (drop (end_at + length end_m) existing)))"

definition extract_body :: "str \<Rightarrow> str \<Rightarrow> str \<Rightarrow> str option" where
  "extract_body existing begin_m end_m =
     (case marker_offsets existing begin_m end_m of
        None \<Rightarrow> None
      | Some (start, end_at) \<Rightarrow>
          Some (strip_leading_terminator
            (drop (start + length begin_m) (take end_at existing))))"

section \<open>Lines\<close>

definition lines :: "str \<Rightarrow> str list" where
  "lines s = split_inclusive LF s"

definition ends_line :: "str \<Rightarrow> bool" where
  "ends_line s \<longleftrightarrow> s = [] \<or> suffix [LF] s"

lemma suffix_single: "suffix [c] s \<longleftrightarrow> s \<noteq> [] \<and> last s = c"
  by (cases s rule: rev_cases) (auto simp: suffix_def)

lemma ends_line_simps [simp]: "ends_line []" "ends_line (s @ [LF])" "ends_line (s @ [c, LF])"
  by (auto simp: ends_line_def suffix_def)

lemma ends_line_append: "ends_line t \<Longrightarrow> t \<noteq> [] \<or> ends_line s \<Longrightarrow> ends_line (s @ t)"
  by (auto simp: ends_line_def suffix_def)

lemma split_inclusive_Nil [simp]: "split_inclusive c s = [] \<longleftrightarrow> s = []"
  by (induction c s rule: split_inclusive.induct) (auto split: list.splits)

lemma lines_append: "ends_line s \<Longrightarrow> lines (s @ t) = lines s @ lines t"
  unfolding lines_def ends_line_def
proof (induction s)
  case (Cons x s)
  then show ?case
    by (cases "s = []"; cases "split_inclusive LF s") (auto simp: suffix_Cons)
qed simp

lemma lines_single: "LF \<notin> set l \<Longrightarrow> lines (l @ [LF]) = [l @ [LF]]"
  unfolding lines_def by (induction l) auto

lemma lines_unterminated: "LF \<notin> set l \<Longrightarrow> l \<noteq> [] \<Longrightarrow> lines l = [l]"
  unfolding lines_def
proof (induction l)
  case (Cons a l)
  then show ?case by (cases "l = []") auto
qed simp

lemma lines_Nil [simp]: "lines [] = []"
  by (simp add: lines_def)

lemma concat_lines [simp]: "concat (lines s) = s"
  by (simp add: lines_def)

text \<open>Every line but the last ends with its only terminator.\<close>

lemma line_shape:
  "lines s = xs @ l # ys \<Longrightarrow>
     (\<exists>r. l = r @ [LF] \<and> LF \<notin> set r) \<or> (ys = [] \<and> l \<noteq> [] \<and> LF \<notin> set l)"
  unfolding lines_def
proof (induction s arbitrary: xs l)
  case (Cons c s)
  show ?case
  proof (cases "c = LF")
    case True
    with Cons show ?thesis by (cases xs) auto
  next
    case False
    show ?thesis
    proof (cases "split_inclusive LF s")
      case Nil
      with False Cons.prems show ?thesis by (cases xs) auto
    next
      case (Cons w ws)
      with False Cons.prems have eq: "(c # w) # ws = xs @ l # ys" by simp
      show ?thesis
      proof (cases xs)
        case Nil
        with eq Cons Cons.IH [of "[]" w] False show ?thesis
          by (auto simp del: split_inclusive_Nil)
      next
        case (Cons x xs')
        with eq \<open>split_inclusive LF s = w # ws\<close> Cons.IH [of "w # xs'" l] show ?thesis by simp
      qed
    qed
  qed
qed simp

section \<open>Finding the marked block\<close>

text \<open>Whether the scan, with an opening marker already seen or not, meets a complete pair.\<close>

fun has_pair :: "str \<Rightarrow> str \<Rightarrow> bool \<Rightarrow> str list \<Rightarrow> bool" where
  "has_pair b e seen [] = False"
| "has_pair b e seen (l # ls) =
     (if strip_terminator l = b then has_pair b e True ls
      else if strip_terminator l = e \<and> seen then True
      else has_pair b e seen ls)"

lemma marker_loop_None: "b \<noteq> e \<Longrightarrow> marker_loop b e ls st off = None \<longleftrightarrow> \<not> has_pair b e (st \<noteq> None) ls"
  by (induction ls arbitrary: st off) (auto simp: Let_def split: option.splits bool.splits)

lemma marker_loop_skip:
  "\<not> has_pair b e (st \<noteq> None) pre \<Longrightarrow>
     \<exists>st'. (st \<noteq> None \<longrightarrow> st' \<noteq> None) \<and>
       marker_loop b e (pre @ ls) st off = marker_loop b e ls st' (off + length (concat pre))"
proof (induction pre arbitrary: st off)
  case (Cons l pre)
  show ?case
  proof (cases "strip_terminator l = b")
    case True
    with Cons.IH [of "Some off" "off + length l"] Cons.prems show ?thesis
      by (auto simp: Let_def add.assoc)
  next
    case False
    with Cons.IH [of st "off + length l"] Cons.prems show ?thesis
      by (auto simp: Let_def add.assoc split: option.splits bool.splits if_splits)
  qed
qed auto

definition clean_lines :: "str \<Rightarrow> str \<Rightarrow> str list \<Rightarrow> bool" where
  "clean_lines b e ls \<longleftrightarrow> (\<forall>l \<in> set ls. strip_terminator l \<noteq> b \<and> strip_terminator l \<noteq> e)"

lemma clean_no_pair: "clean_lines b e ls \<Longrightarrow> \<not> has_pair b e seen ls"
  by (induction ls) (auto simp: clean_lines_def)

lemma marker_loop_clean:
  "clean_lines b e mid \<Longrightarrow>
     marker_loop b e (mid @ ls) st off = marker_loop b e ls st (off + length (concat mid))"
  by (induction mid arbitrary: off) (auto simp: clean_lines_def Let_def add.assoc split: bool.splits)

lemma marker_loop_hit:
  assumes "b \<noteq> e" "\<not> has_pair b e False pre" "clean_lines b e mid"
    and "strip_terminator lb = b" "strip_terminator le = e"
  shows "marker_loop b e (pre @ lb # mid @ le # post) None 0 =
    Some (length (concat pre), length (concat pre) + length lb + length (concat mid))"
proof -
  obtain st where "marker_loop b e (pre @ lb # mid @ le # post) None 0 =
      marker_loop b e (lb # mid @ le # post) st (length (concat pre))"
    using marker_loop_skip [of b e None pre "lb # mid @ le # post" 0] assms(2) by auto
  then show ?thesis
    using assms by (simp add: Let_def marker_loop_clean add.assoc)
qed

lemma has_pair_append: "has_pair b e seen xs \<Longrightarrow> has_pair b e seen (xs @ ys)"
  by (induction xs arbitrary: seen) (auto split: if_splits)

lemma has_pair_seen: "b \<noteq> e \<Longrightarrow> x \<in> set ls \<Longrightarrow> strip_terminator x = e \<Longrightarrow> has_pair b e True ls"
  by (induction ls) auto

lemma has_pair_closes:
  "b \<noteq> e \<Longrightarrow> strip_terminator lb = b \<Longrightarrow> x \<in> set mid \<Longrightarrow> strip_terminator x = e \<Longrightarrow>
     has_pair b e seen (pre @ lb # mid)"
  by (induction pre arbitrary: seen) (auto simp: has_pair_seen)

lemma has_pair_first:
  "has_pair b e seen ls \<Longrightarrow>
     \<exists>pre le post. ls = pre @ le # post \<and> strip_terminator le = e \<and> \<not> has_pair b e seen pre
       \<and> (seen \<or> (\<exists>l \<in> set pre. strip_terminator l = b))"
proof (induction ls arbitrary: seen)
  case (Cons l ls)
  show ?case
  proof (cases "strip_terminator l \<noteq> b \<and> strip_terminator l = e \<and> seen")
    case True
    then show ?thesis by (intro exI [of _ "[]"] exI [of _ l] exI [of _ ls]) simp
  next
    case False
    then have "has_pair b e (seen \<or> strip_terminator l = b) ls"
      using Cons.prems by (auto split: if_splits)
    from Cons.IH [OF this] obtain pre le post where
      "ls = pre @ le # post" "strip_terminator le = e"
      "\<not> has_pair b e (seen \<or> strip_terminator l = b) pre"
      "seen \<or> strip_terminator l = b \<or> (\<exists>l \<in> set pre. strip_terminator l = b)"
      by blast
    with False show ?thesis
      by (intro exI [of _ "l # pre"] exI [of _ le] exI [of _ post])
        (cases "strip_terminator l = b"; cases seen; simp)
  qed
qed simp

lemma has_pair_split:
  assumes "has_pair b e False ls" "b \<noteq> e"
  obtains pre lb mid le post where "ls = pre @ lb # mid @ le # post" "\<not> has_pair b e False pre"
    "clean_lines b e mid" "strip_terminator lb = b" "strip_terminator le = e"
proof -
  from has_pair_first [OF assms(1)] obtain front le post where
    f: "ls = front @ le # post" "strip_terminator le = e" "\<not> has_pair b e False front"
      "\<exists>l \<in> set front. strip_terminator l = b"
    by blast
  from split_list_last_prop [OF f(4)] obtain pre lb mid where
    m: "front = pre @ lb # mid" "strip_terminator lb = b" "\<forall>l \<in> set mid. strip_terminator l \<noteq> b"
    by blast
  moreover have "clean_lines b e mid"
    using m f(3) assms(2) has_pair_closes [of b e lb _ mid False pre] by (auto simp: clean_lines_def)
  moreover have "\<not> has_pair b e False pre"
    using m f(3) has_pair_append by blast
  ultimately show thesis
    using that [of pre lb mid le post] f by simp
qed

text \<open>Markers a caller can use: two different one-line texts.\<close>

definition valid_markers :: "str \<Rightarrow> str \<Rightarrow> bool" where
  "valid_markers b e \<longleftrightarrow> b \<noteq> [] \<and> e \<noteq> [] \<and> b \<noteq> e \<and> LF \<notin> set b \<and> LF \<notin> set e
     \<and> \<not> suffix [CR] b \<and> \<not> suffix [CR] e"

text \<open>A body in the form \<open>upsert\<close> documents: LF lines, the last one terminated, none a marker.\<close>

definition valid_body :: "str \<Rightarrow> str \<Rightarrow> str \<Rightarrow> bool" where
  "valid_body b e body \<longleftrightarrow> ends_line body \<and> clean_lines b e (lines body)"

lemma marker_offsets_None:
  "valid_markers b e \<Longrightarrow> marker_offsets t b e = None \<longleftrightarrow> \<not> has_pair b e False (lines t)"
  by (simp add: valid_markers_def marker_offsets_def marker_loop_None lines_def)

lemma marker_offsets_hit:
  assumes "valid_markers b e" "lines t = pre @ lb # mid @ le # post"
    and "\<not> has_pair b e False pre" "clean_lines b e mid"
    and "strip_terminator lb = b" "strip_terminator le = e"
  shows "marker_offsets t b e =
    Some (length (concat pre), length (concat pre) + length lb + length (concat mid))"
  using assms marker_loop_hit [of b e pre mid lb le post]
  by (simp add: marker_offsets_def valid_markers_def lines_def)

lemma strip_LF [simp]: "\<not> suffix [CR] r \<Longrightarrow> strip_terminator (r @ [LF]) = r"
  by (auto simp: strip_terminator_def str_simps suffix_def split: option.splits)

lemma strip_CRLF [simp]: "strip_terminator (r @ [CR, LF]) = r"
proof -
  have "strip_suffix [LF] (r @ [CR, LF]) = Some (r @ [CR])"
    by (simp add: str_simps)
  then show ?thesis by (simp add: strip_terminator_def)
qed

lemma strip_eol [simp]: "\<not> suffix [CR] r \<Longrightarrow> strip_terminator (r @ eol_as_str k) = r"
  by (cases k) simp_all

text \<open>The line of a marker is the marker and a terminator; only a last line may lack it.\<close>

lemma marker_line:
  assumes "lines t = xs @ l # ys" "strip_terminator l = m" "LF \<notin> set m"
  obtains (eol) k where "l = m @ eol_as_str k" | (bare) "l = m" "ys = []"
proof -
  from line_shape [OF assms(1)] consider r where "l = r @ [LF]" | "ys = []" "LF \<notin> set l"
    by blast
  then show thesis
  proof cases
    case 1
    then show ?thesis
      using assms(2) that(1) [of Lf] that(1) [of Crlf]
      by (auto simp: strip_terminator_def str_simps split: option.splits)
  next
    case 2
    then have "strip_suffix [LF] l = None"
      by (auto simp: str_simps suffix_def)
    then show ?thesis
      using 2 assms(2) that(2) by (simp add: strip_terminator_def)
  qed
qed

section \<open>Rendering a body\<close>

definition rendered :: "eol \<Rightarrow> str \<Rightarrow> str" where
  "rendered k body = (case k of Lf \<Rightarrow> body
     | Crlf \<Rightarrow> concat (map (\<lambda>c. if c = LF then [CR, LF] else [c]) body))"

lemma rendered_no_LF: "LF \<notin> set r \<Longrightarrow> rendered Crlf r = r"
  by (induction r) (auto simp: rendered_def)

lemma rendered_split: "LF \<notin> set r \<Longrightarrow> rendered Crlf (r @ LF # s) = r @ CR # LF # rendered Crlf s"
  using rendered_no_LF [of r] by (simp add: rendered_def)

lemma push_crlf_eq: "push_crlf out rest = out @ rendered Crlf rest"
proof (induction out rest rule: push_crlf.induct)
  case (1 out rest)
  show ?case
  proof (cases "find_byte LF rest")
    case None
    then have "rendered Crlf rest = rest"
      by (simp add: rendered_no_LF find_byte_None)
    with None show ?thesis
      by (simp add: push_crlf.simps [of out rest])
  next
    case (Some idx)
    then obtain r s where "rest = r @ LF # s" "LF \<notin> set r" "idx = length r"
      by (auto simp: find_byte_split)
    with 1 Some show ?thesis
      by (subst push_crlf.simps) (simp add: rendered_split)
  qed
qed

lemma push_body_eq: "push_body_with_eol out body k = out @ rendered k body"
  by (cases k) (simp_all add: push_crlf_eq rendered_def)

lemma lines_LF: "LF \<notin> set r \<Longrightarrow> lines (r @ LF # s) = (r @ [LF]) # lines s"
  using lines_append [OF ends_line_simps(2), of r s] by (simp add: lines_single)

lemma lines_CRLF: "LF \<notin> set r \<Longrightarrow> lines (r @ CR # LF # s) = (r @ [CR, LF]) # lines s"
  using lines_LF [of "r @ [CR]" s] by simp

lemma ends_line_LF [simp]: "ends_line (r @ LF # s) \<longleftrightarrow> ends_line s"
  by (simp add: ends_line_def suffix_single)

lemma ends_line_CRLF [simp]: "ends_line (r @ CR # LF # s) \<longleftrightarrow> ends_line s"
  by (simp add: ends_line_def suffix_single)

lemma clean_lines_simps [simp]:
  "clean_lines b e []"
  "clean_lines b e (l # ls) \<longleftrightarrow> strip_terminator l \<noteq> b \<and> strip_terminator l \<noteq> e \<and> clean_lines b e ls"
  by (auto simp: clean_lines_def)

lemma rendered_clean_crlf:
  assumes "\<not> suffix [CR] b" "\<not> suffix [CR] e"
  shows "ends_line body \<Longrightarrow> clean_lines b e (lines body) \<Longrightarrow>
    ends_line (rendered Crlf body) \<and> clean_lines b e (lines (rendered Crlf body))"
proof (induction body rule: length_induct)
  case (1 body)
  show ?case
  proof (cases "body = []")
    case True
    then show ?thesis by (simp add: rendered_def)
  next
    case False
    then have "LF \<in> set body"
      using 1(2) last_in_set by (fastforce simp: ends_line_def suffix_single)
    then obtain r s where body: "body = r @ LF # s" and r: "LF \<notin> set r"
      by (metis split_list_first)
    have l: "strip_terminator (r @ [LF]) \<noteq> b" "strip_terminator (r @ [LF]) \<noteq> e"
      and s: "ends_line s" "clean_lines b e (lines s)"
      using 1(2,3) by (simp_all add: body lines_LF r)
    have "r \<noteq> b" "r \<noteq> e"
      using l assms by auto
    moreover have "ends_line (rendered Crlf s)" "clean_lines b e (lines (rendered Crlf s))"
      using 1(1) body s by auto
    ultimately show ?thesis
      by (simp add: body rendered_split r lines_CRLF)
  qed
qed

lemma rendered_clean:
  "valid_markers b e \<Longrightarrow> valid_body b e body \<Longrightarrow>
     ends_line (rendered k body) \<and> clean_lines b e (lines (rendered k body))"
  using rendered_clean_crlf [of b e body]
  by (cases k) (simp_all add: valid_markers_def valid_body_def rendered_def)

section \<open>The shape of a file with a block\<close>

lemma strip_leading_eol [simp]: "strip_leading_terminator (eol_as_str k @ s) = s"
  by (cases k) (auto simp: strip_leading_terminator_def strip_prefix_def)

lemma eol_detect_append: "LF \<in> set s \<Longrightarrow> eol_detect (s @ t) = eol_detect s"
proof -
  assume "LF \<in> set s"
  then obtain a r where "s = a @ LF # r" "LF \<notin> set a"
    using split_list_first by fastforce
  moreover from this have "find_byte LF (s @ t) = Some (length a)" "find_byte LF s = Some (length a)"
    by (auto simp: find_byte_split)
  ultimately show ?thesis by (simp add: eol_detect_def)
qed

lemma eol_detect_first:
  assumes "LF \<notin> set r" "\<not> suffix [CR] r"
  shows "eol_detect (r @ eol_as_str k @ t) = k"
proof -
  have "find_byte LF (r @ eol_as_str k @ t) = Some (length r + (case k of Lf \<Rightarrow> 0 | Crlf \<Rightarrow> 1))"
    using assms(1) by (cases k) (auto simp: find_byte_split intro: exI [of _ "r @ [CR]"])
  then show ?thesis
    using assms(2) by (cases k) (simp_all add: eol_detect_def)
qed

lemma block_shape:
  assumes v: "valid_markers b e" and p: "\<not> has_pair b e False P" and c: "clean_lines b e (lines B)"
    and ls: "lines u = P @ (b @ eol_as_str k) # lines B @ (e @ eol_as_str k) # Q"
  shows "remove_block u b e = Some (concat P @ concat Q)" "extract_body u b e = Some B"
    and "eol_detect u = k \<Longrightarrow> B = rendered k body \<Longrightarrow> upsert u b e body = u"
proof -
  have u: "u = concat P @ (b @ eol_as_str k) @ B @ (e @ eol_as_str k) @ concat Q"
    using arg_cong [OF ls, of concat] by simp
  have cr: "\<not> suffix [CR] b" "\<not> suffix [CR] e"
    using v by (simp_all add: valid_markers_def)
  have m: "marker_offsets u b e =
      Some (length (concat P), length (concat P) + length (b @ eol_as_str k) + length B)"
    using marker_offsets_hit [OF v ls p c] cr by simp
  have before: "take (length (concat P)) u = concat P"
    by (simp add: u)
  have "drop (length (concat P) + length (b @ eol_as_str k) + length B + length e) u = eol_as_str k @ concat Q"
    by (simp add: u)
  then have after: "strip_leading_terminator
      (drop (length (concat P) + length (b @ eol_as_str k) + length B + length e) u) = concat Q"
    by simp
  have "drop (length (concat P) + length b)
      (take (length (concat P) + length (b @ eol_as_str k) + length B) u) = eol_as_str k @ B"
    by (simp add: u)
  then show "extract_body u b e = Some B"
    by (simp add: extract_body_def m del: length_append)
  show "remove_block u b e = Some (concat P @ concat Q)"
    by (simp add: remove_block_def m before after del: length_append)
  show "upsert u b e body = u" if "eol_detect u = k" "B = rendered k body"
    using that by (simp add: upsert_def m before after push_body_eq Let_def del: length_append) (simp add: u)
qed

section \<open>Installing, extracting and removing a block\<close>

lemma lines_of_terminated:
  "(\<And>l. l \<in> set ls \<Longrightarrow> \<exists>r. l = r @ [LF] \<and> LF \<notin> set r) \<Longrightarrow>
     lines (concat ls) = ls \<and> ends_line (concat ls)"
proof (induction ls)
  case (Cons l ls)
  obtain r where r: "l = r @ [LF]" "LF \<notin> set r"
    using Cons.prems [of l] by auto
  have "lines (concat ls) = ls \<and> ends_line (concat ls)"
    by (rule Cons.IH) (use Cons.prems in auto)
  then show ?case by (simp add: r lines_LF)
qed simp

lemma lines_split:
  assumes "lines t = xs @ ys" "ys \<noteq> []"
  shows "lines (concat xs) = xs" "ends_line (concat xs)" "lines (concat ys) = ys"
proof -
  have "\<exists>r. l = r @ [LF] \<and> LF \<notin> set r" if "l \<in> set xs" for l
  proof -
    from that obtain us vs where "xs = us @ l # vs" by (meson split_list)
    with assms line_shape [of t us l "vs @ ys"] show ?thesis by auto
  qed
  then show xs: "lines (concat xs) = xs" "ends_line (concat xs)"
    using lines_of_terminated by blast+
  have "t = concat xs @ concat ys"
    by (metis assms(1) concat_append concat_lines)
  then show "lines (concat ys) = ys"
    using lines_append [OF xs(2), of "concat ys"] xs(1) assms(1) by simp
qed

lemma lines_block:
  assumes "ends_line x" "ends_line B" "LF \<notin> set b" "LF \<notin> set e"
  shows "lines (x @ b @ eol_as_str k @ B @ e @ eol_as_str k @ a) =
    lines x @ (b @ eol_as_str k) # lines B @ (e @ eol_as_str k) # lines a"
  using assms by (cases k) (simp_all add: lines_append lines_LF lines_CRLF)

text \<open>The text that precedes an appended block: a missing last terminator is supplied.\<close>

definition terminated :: "str \<Rightarrow> str" where
  "terminated t = (if ends_line t then t else t @ eol_as_str (eol_detect t))"

lemma terminated_ends [simp]: "ends_line (terminated t)"
  by (cases "eol_detect t") (simp_all add: terminated_def)

lemma has_pair_snoc:
  "strip_terminator l = strip_terminator l' \<Longrightarrow>
     has_pair b e seen (ls @ [l]) = has_pair b e seen (ls @ [l'])"
  by (induction ls arbitrary: seen) auto

lemma unterminated_split:
  assumes "\<not> ends_line t"
  obtains ls r where "lines t = ls @ [r]" "LF \<notin> set r" "r \<noteq> []" "t = concat ls @ r" "ends_line (concat ls)"
proof -
  from assms have "lines t \<noteq> []" by (auto simp: lines_def)
  then obtain ls r where ls: "lines t = ls @ [r]" by (metis rev_exhaust)
  then have t: "t = concat ls @ r" by (metis concat.simps concat_append concat_lines append_Nil2)
  from line_shape [of t ls r "[]"] ls assms t have "LF \<notin> set r" "r \<noteq> []"
    by (auto simp: ends_line_def suffix_single)
  with ls t lines_split [of t ls "[r]"] that show thesis by simp
qed

lemma has_pair_terminated:
  assumes "\<not> suffix [CR] t"
  shows "has_pair b e False (lines (terminated t)) = has_pair b e False (lines t)"
proof (cases "ends_line t")
  case False
  then obtain ls r where r: "lines t = ls @ [r]" "LF \<notin> set r" "r \<noteq> []" "t = concat ls @ r"
    "ends_line (concat ls)"
    by (rule unterminated_split)
  then have "\<not> suffix [CR] r" using assms by (auto simp: suffix_single)
  moreover have "strip_terminator r = r"
    using r(2) by (auto simp: strip_terminator_def str_simps suffix_def split: option.splits)
  ultimately have strip: "strip_terminator (r @ eol_as_str k) = strip_terminator r" for k
    by simp
  have single: "lines (r @ eol_as_str k) = [r @ eol_as_str k]" for k
    using r(2) lines_LF [of r "[]"] lines_CRLF [of r "[]"] by (cases k) simp_all
  have "ls = lines (concat ls)"
    using lines_split [of t ls "[r]"] r(1) by simp
  moreover have "terminated t = concat ls @ (r @ eol_as_str (eol_detect t))"
    using False r(4) by (simp add: terminated_def)
  ultimately have "lines (terminated t) = ls @ [r @ eol_as_str (eol_detect t)]"
    using lines_append [OF r(5)] single by metis
  then show ?thesis
    using has_pair_snoc [OF strip] r(1) by metis
qed (simp add: terminated_def)

lemma eol_detect_terminated:
  assumes "\<not> suffix [CR] t" "LF \<notin> set b" "\<not> suffix [CR] b"
  shows "eol_detect (terminated t @ b @ eol_as_str (eol_detect t) @ s) = eol_detect t"
proof (cases "LF \<in> set t")
  case True
  then show ?thesis by (simp add: terminated_def eol_detect_append)
next
  case False
  then have "eol_detect t = Lf"
    by (simp add: eol_detect_def find_byte_None [THEN iffD2])
  moreover have "eol_detect (t @ eol_as_str Lf @ s') = Lf" for s'
    using False assms(1) by (rule eol_detect_first)
  moreover have "eol_detect (b @ eol_as_str Lf @ s') = Lf" for s'
    using assms(2,3) by (rule eol_detect_first)
  moreover have no_last: "\<not> (t \<noteq> [] \<and> last t = LF)"
    using False last_in_set by metis
  ultimately show ?thesis
    using no_last by (cases "t = []") (auto simp: terminated_def ends_line_def suffix_single)
qed

lemma upsert_append:
  assumes "valid_markers b e" "\<not> has_pair b e False (lines t)"
  shows "upsert t b e body = terminated t @ b @ eol_as_str (eol_detect t)
    @ rendered (eol_detect t) body @ e @ eol_as_str (eol_detect t)"
proof -
  have "marker_offsets t b e = None"
    using assms by (simp add: marker_offsets_None)
  then show ?thesis
    by (simp add: upsert_def Let_def push_body_eq terminated_def ends_line_def)
qed

lemma marker_tail:
  assumes "lines t = xs @ le # post" "strip_terminator le = e" "LF \<notin> set e"
  shows "strip_leading_terminator (drop (length (concat xs) + length e) t) = concat post"
proof -
  have t: "t = concat xs @ le @ concat post"
    using arg_cong [OF assms(1), of concat] by simp
  from marker_line [OF assms] show ?thesis
  proof cases
    case (1 k)
    then show ?thesis using t by simp
  next
    case 2
    then show ?thesis using t by (simp add: strip_leading_terminator_def strip_prefix_def)
  qed
qed

lemma upsert_replace:
  assumes v: "valid_markers b e" and ls: "lines t = pre @ lb # mid @ le # post"
    and p: "\<not> has_pair b e False pre" "clean_lines b e mid"
      "strip_terminator lb = b" "strip_terminator le = e"
  shows "upsert t b e body = concat pre @ b @ eol_as_str (eol_detect t)
      @ rendered (eol_detect t) body @ e @ eol_as_str (eol_detect t) @ concat post"
    and "remove_block t b e = Some (concat pre @ concat post)"
proof -
  note m = marker_offsets_hit [OF v ls p]
  have t: "t = concat pre @ lb @ concat mid @ le @ concat post"
    using arg_cong [OF ls, of concat] by simp
  have "lines t = (pre @ lb # mid) @ le # post" "LF \<notin> set e"
    using ls v by (simp_all add: valid_markers_def)
  from marker_tail [OF this(1) p(4) this(2)]
  have after: "strip_leading_terminator
      (drop (length (concat pre) + length lb + length (concat mid) + length e) t) = concat post"
    by (simp add: add.assoc)
  have before: "take (length (concat pre)) t = concat pre"
    by (simp add: t)
  show "upsert t b e body = concat pre @ b @ eol_as_str (eol_detect t)
      @ rendered (eol_detect t) body @ e @ eol_as_str (eol_detect t) @ concat post"
    by (simp add: upsert_def m before after Let_def push_body_eq)
  show "remove_block t b e = Some (concat pre @ concat post)"
    by (simp add: remove_block_def m before after)
qed

lemma eol_detect_replace:
  assumes "valid_markers b e" "lines t = pre @ lb # x # ys" "strip_terminator lb = b"
  shows "eol_detect (concat pre @ b @ eol_as_str (eol_detect t) @ s) = eol_detect t"
proof (cases pre)
  case Nil
  from assms have b: "LF \<notin> set b" "\<not> suffix [CR] b" by (simp_all add: valid_markers_def)
  from marker_line [OF assms(2,3) b(1)] obtain k where "lb = b @ eol_as_str k"
    by (cases) auto
  moreover have "t = concat (pre @ lb # x # ys)"
    by (metis assms(2) concat_lines)
  ultimately have "t = b @ eol_as_str k @ (x @ concat ys)"
    using Nil by simp
  then show ?thesis
    using eol_detect_first [OF b] Nil by simp
next
  case (Cons l pre')
  have "t = concat pre @ concat (lb # x # ys)"
    by (metis assms(2) concat_append concat_lines)
  moreover have "LF \<in> set (concat pre)"
    using line_shape [of t "[]" l "pre' @ lb # x # ys"] assms(2) Cons by auto
  ultimately show ?thesis
    by (metis eol_detect_append)
qed

lemma upsert_core:
  assumes "valid_markers b e" "valid_body b e body" "\<not> suffix [CR] t"
  shows "upsert (upsert t b e body) b e body = upsert t b e body
    \<and> extract_body (upsert t b e body) b e = Some (rendered (eol_detect t) body)
    \<and> remove_block (upsert t b e body) b e =
        Some (case remove_block t b e of Some rest \<Rightarrow> rest | None \<Rightarrow> terminated t)"
proof -
  let ?k = "eol_detect t"
  let ?B = "rendered ?k body"
  have B: "ends_line ?B" "clean_lines b e (lines ?B)"
    using rendered_clean [OF assms(1,2)] by auto
  have b: "LF \<notin> set b" "LF \<notin> set e" "\<not> suffix [CR] b"
    using assms(1) by (simp_all add: valid_markers_def)
  have "\<exists>P Q. \<not> has_pair b e False P \<and> eol_detect (upsert t b e body) = ?k
      \<and> lines (upsert t b e body) = P @ (b @ eol_as_str ?k) # lines ?B @ (e @ eol_as_str ?k) # Q
      \<and> concat P @ concat Q = (case remove_block t b e of Some rest \<Rightarrow> rest | None \<Rightarrow> terminated t)"
  proof (cases "has_pair b e False (lines t)")
    case False
    then have "remove_block t b e = None"
      using assms(1) by (simp add: remove_block_def marker_offsets_None [THEN iffD2])
    then show ?thesis
      using False assms b B lines_block [OF terminated_ends B(1) b(1,2), of t ?k "[]"]
        eol_detect_terminated [OF assms(3) b(1,3)]
      by (intro exI [of _ "lines (terminated t)"] exI [of _ "[]"])
        (simp add: upsert_append has_pair_terminated)
  next
    case True
    have "b \<noteq> e" using assms(1) by (simp add: valid_markers_def)
    from has_pair_split [OF True this] obtain pre lb mid le post where
      d: "lines t = pre @ lb # mid @ le # post" "\<not> has_pair b e False pre"
        "clean_lines b e mid" "strip_terminator lb = b" "strip_terminator le = e" .
    obtain x ys where xs: "lines t = pre @ lb # x # ys"
      using d(1) by (cases "mid @ le # post") auto
    have "lines (concat pre) = pre" "ends_line (concat pre)"
      using lines_split [of t pre "lb # mid @ le # post"] d(1) by simp_all
    moreover have "lines (concat post) = post"
      using lines_split(3) [of t "pre @ lb # mid @ [le]" post] d(1) by (cases post) simp_all
    ultimately show ?thesis
      using upsert_replace [OF assms(1) d] d(2) b B eol_detect_replace [OF assms(1) xs d(4)]
      by (intro exI [of _ pre] exI [of _ post]) (simp add: lines_block)
  qed
  then obtain P Q where s: "\<not> has_pair b e False P" "eol_detect (upsert t b e body) = ?k"
    "lines (upsert t b e body) = P @ (b @ eol_as_str ?k) # lines ?B @ (e @ eol_as_str ?k) # Q"
    "concat P @ concat Q = (case remove_block t b e of Some rest \<Rightarrow> rest | None \<Rightarrow> terminated t)"
    by blast
  from block_shape [OF assms(1) s(1) B(2) s(3)] s(2,4) show ?thesis by simp
qed

text \<open>
  C4: Installing a managed block is idempotent and disturbs nothing else: for usable markers, a
  body in the documented form and a file that does not end in a bare CR, \<open>upsert\<close> twice is
  \<open>upsert\<close> once, the installed body reads back in the file's own line endings, and removing the
  installed block leaves exactly the text outside the block: what removing an old block would have
  left, or the whole original file (its missing last terminator supplied) when it had no block.
\<close>

theorem upsert_idempotent_extract_remove:
  assumes "valid_markers b e" "valid_body b e body" "\<not> suffix [CR] t"
  shows "upsert (upsert t b e body) b e body = upsert t b e body
    \<and> extract_body (upsert t b e body) b e = Some (rendered (eol_detect t) body)
    \<and> remove_block (upsert t b e body) b e =
        Some (case remove_block t b e of Some rest \<Rightarrow> rest | None \<Rightarrow> terminated t)"
  using upsert_core [OF assms] .

lemma upsert_idempotent_extract_remove_witness:
  "upsert (upsert (lit ''x'') (lit ''B'') (lit ''E'') (lit ''y'' @ [LF])) (lit ''B'') (lit ''E'')
     (lit ''y'' @ [LF])
   = upsert (lit ''x'') (lit ''B'') (lit ''E'') (lit ''y'' @ [LF])"
proof -
  have "valid_markers (lit ''B'') (lit ''E'')"
    by code_simp
  moreover have "valid_body (lit ''B'') (lit ''E'') (lit ''y'' @ [LF])"
    by code_simp
  moreover have "\<not> suffix [CR] (lit ''x'')"
    by code_simp
  ultimately show ?thesis
    using upsert_idempotent_extract_remove by blast
qed

text \<open>
  The hypothesis on the last byte is needed: when an unmatched block ends in a bare CR, appending
  a block completes that CR to a terminator, the user's lines become a matched block, and the next
  \<open>upsert\<close> replaces them.
\<close>

lemma upsert_bare_cr_not_idempotent:
  "let t = lit ''B'' @ [LF] @ lit ''x'' @ [LF] @ lit ''E'' @ [CR];
       u = upsert t (lit ''B'') (lit ''E'') (lit ''y'' @ [LF])
   in marker_offsets t (lit ''B'') (lit ''E'') = None
      \<and> prefix t u
      \<and> \<not> prefix (lit ''B'' @ [LF] @ lit ''x'') (upsert u (lit ''B'') (lit ''E'') (lit ''y'' @ [LF]))
      \<and> upsert u (lit ''B'') (lit ''E'') (lit ''y'' @ [LF]) \<noteq> u"
  by code_simp

end
