(* ===== verification/ObjectId.thy ===== *)
theory ObjectId
  imports LexicalPath
begin

unbundle bit_operations_syntax

text \<open>
  Content ids (\<open>gat-core/src/oid.rs\<close>): 32 raw bytes with one canonical text, 64 lowercase
  hexadecimal digits. Parsing (\<open>oid_from_hex\<close>), rendering (\<open>to_hex\<close>) and the comparison without
  allocation (\<open>eq_hex\<close>) keep the byte arithmetic of the source (shifts and masks on \<open>8 word\<close>).
  The lock reader has its own copy of the digit table (\<open>nibble\<close>,
  \<open>gat-core/src/lock/reader/kernels.rs\<close>).
\<close>

datatype oid_format_error =
    WrongHexLength str nat
  | NotLowercaseHex str

datatype oid = Oid (oid_bytes: "u8 list")

instantiation oid :: linorder
begin

definition less_eq_oid :: "oid \<Rightarrow> oid \<Rightarrow> bool" where
  "less_eq_oid a b \<longleftrightarrow> oid_bytes a \<le> oid_bytes b"

definition less_oid :: "oid \<Rightarrow> oid \<Rightarrow> bool" where
  "less_oid a b \<longleftrightarrow> oid_bytes a < oid_bytes b"

instance
  by standard (auto simp: less_eq_oid_def less_oid_def oid.expand)

end

text \<open>The Rust type is \<open>[u8; 32]\<close>.\<close>

definition wf_oid :: "oid \<Rightarrow> bool" where
  "wf_oid o' \<longleftrightarrow> length (oid_bytes o') = 32"

definition hex_value :: "u8 \<Rightarrow> u8 option" where
  "hex_value byte =
     (if 48 \<le> byte \<and> byte \<le> 57 then Some (byte - 48)
      else if 97 \<le> byte \<and> byte \<le> 102 then Some (byte - 97 + 10)
      else None)"

definition hex_pair :: "u8 \<Rightarrow> u8 \<Rightarrow> u8 option" where
  "hex_pair a b =
     (case (hex_value a, hex_value b) of
        (Some hi, Some lo) \<Rightarrow> Some (push_bit 4 hi OR lo)
      | _ \<Rightarrow> None)"

text \<open>The byte loop of \<open>from_hex\<close>: one output byte per pair of digits.\<close>

fun decode_pairs :: "str \<Rightarrow> u8 list option" where
  "decode_pairs (a # b # rest) =
     (case hex_pair a b of None \<Rightarrow> None
      | Some byte \<Rightarrow> map_option (\<lambda>out. byte # out) (decode_pairs rest))"
| "decode_pairs _ = Some []"

definition oid_from_hex :: "str \<Rightarrow> oid_format_error + oid" where
  "oid_from_hex hex =
     (if length hex \<noteq> 64 then Err (WrongHexLength hex (length hex))
      else (case decode_pairs hex of
              None \<Rightarrow> Err (NotLowercaseHex hex)
            | Some out \<Rightarrow> Ok (Oid out)))"

fun eq_hex_loop :: "u8 list \<Rightarrow> str \<Rightarrow> bool" where
  "eq_hex_loop (byte # bytes) (a # b # hex) =
     (case (hex_value a, hex_value b) of
        (Some hi, Some lo) \<Rightarrow>
          (if byte \<noteq> push_bit 4 hi OR lo then False else eq_hex_loop bytes hex)
      | _ \<Rightarrow> False)"
| "eq_hex_loop _ _ = True"

definition eq_hex :: "oid \<Rightarrow> str \<Rightarrow> bool" where
  "eq_hex self hex = (if length hex \<noteq> 64 then False else eq_hex_loop (oid_bytes self) hex)"

definition HEX_DIGITS :: str where
  "HEX_DIGITS = lit ''0123456789abcdef''"

definition hex_digit :: "u8 \<Rightarrow> u8" where
  "hex_digit n = HEX_DIGITS ! unat n"

definition encode_hex :: "oid \<Rightarrow> str" where
  "encode_hex self =
     concat (map (\<lambda>byte. [hex_digit (drop_bit 4 byte), hex_digit (byte AND 0x0f)]) (oid_bytes self))"

definition to_hex :: "oid \<Rightarrow> str" where
  "to_hex self = encode_hex self"

section \<open>Nibbles\<close>

lemma nibble_iff: "(n :: u8) < 16 \<longleftrightarrow> take_bit 4 n = n"
proof -
  have "take_bit 4 n = n \<longleftrightarrow> take_bit 4 (unat n) = unat n"
    by (simp add: word_unat_eq_iff unsigned_take_bit_eq)
  then show ?thesis by (simp add: word_less_nat_alt take_bit_nat_eq_self_iff)
qed

lemma mask_nibble: "(b :: u8) AND 15 = take_bit 4 b"
  by (simp add: take_bit_eq_mask mask_eq_exp_minus_1)

lemma nibble_bit: "(n :: u8) < 16 \<Longrightarrow> bit n i \<Longrightarrow> i < 4"
  by (metis nibble_iff bit_take_bit_iff)

lemma high_nibble_bound [simp]: "drop_bit 4 (b :: u8) < 16"
  unfolding nibble_iff by (rule bit_word_eqI) (auto simp: bit_simps dest: bit_imp_le_length)

lemma low_nibble_bound [simp]: "(b :: u8) AND 15 < 16"
  by (simp add: mask_nibble nibble_iff)

lemma nibbles_recombine [simp]: "push_bit 4 (drop_bit 4 b) OR (b AND 15) = (b :: u8)"
  unfolding mask_nibble by (rule bit_word_eqI) (auto simp: bit_simps)

lemma high_nibble: "hi < 16 \<Longrightarrow> lo < 16 \<Longrightarrow> drop_bit 4 (push_bit 4 hi OR lo) = (hi :: u8)"
  by (rule bit_word_eqI) (auto simp: bit_simps dest: nibble_bit)

lemma low_nibble: "hi < 16 \<Longrightarrow> lo < 16 \<Longrightarrow> (push_bit 4 hi OR lo) AND 15 = (lo :: u8)"
  unfolding mask_nibble by (rule bit_word_eqI) (auto simp: bit_simps dest: nibble_bit)

lemma nibble_cases:
  assumes "(n :: u8) < 16"
  obtains k where "k < 16" "n = of_nat k"
proof -
  have "unat n < 16" using assms by (simp add: word_less_nat_alt)
  then show thesis using that [of "unat n"] by simp
qed

lemma less_by_nibbles:
  "(a :: u8) < b \<longleftrightarrow>
     drop_bit 4 a < drop_bit 4 b \<or> drop_bit 4 a = drop_bit 4 b \<and> a AND 15 < b AND 15"
proof -
  have hi: "unat (drop_bit 4 x) = unat x div 16" for x :: u8
    by (simp add: drop_bit_eq_div unat_div)
  have lo: "unat (x AND 15) = unat x mod 16" for x :: u8
    by (simp add: mask_nibble take_bit_eq_mod unat_mod)
  have pos: "16 * q + r < 16 * q' + r' \<longleftrightarrow> q < q' \<or> q = q' \<and> r < r'"
    if "r < 16" "r' < 16" for q r q' r' :: nat
    using that by linarith
  have "(m :: nat) < n \<longleftrightarrow> m div 16 < n div 16 \<or> m div 16 = n div 16 \<and> m mod 16 < n mod 16" for m n
    using pos [of "m mod 16" "n mod 16" "m div 16" "n div 16"] by simp
  then show ?thesis
    unfolding word_less_nat_alt word_unat_eq_iff hi lo .
qed

section \<open>Digits\<close>

lemma hex_value_digit [simp]: "n < 16 \<Longrightarrow> hex_value (hex_digit n) = Some n"
proof -
  have "\<forall>k \<in> {0..<16 :: nat}. hex_value (hex_digit (of_nat k)) = Some (of_nat k)"
    by (simp add: atLeastLessThan_nat_numeral hex_value_def hex_digit_def HEX_DIGITS_def)
  then show "n < 16 \<Longrightarrow> ?thesis" by (auto elim: nibble_cases)
qed

lemma hex_digit_unfold: "n < 16 \<Longrightarrow> hex_digit n = (if n < 10 then n + 48 else n + 87)"
proof -
  have "\<forall>k \<in> {0..<16 :: nat}. hex_digit (of_nat k) = (if (of_nat k :: u8) < 10 then of_nat k + 48 else of_nat k + 87)"
    by (simp add: atLeastLessThan_nat_numeral hex_digit_def HEX_DIGITS_def)
  then show "n < 16 \<Longrightarrow> ?thesis" by (auto elim: nibble_cases)
qed

lemma hex_value_Some:
  assumes "hex_value c = Some v"
  shows "v < 16 \<and> hex_digit v = c"
proof (cases "48 \<le> c \<and> c \<le> 57")
  case True
  then have "v = c - 48" using assms by (simp add: hex_value_def)
  with True have "v < 10" by unat_arith
  with \<open>v = c - 48\<close> show ?thesis
    using hex_digit_unfold [of v] by (auto simp: word_less_nat_alt)
next
  case False
  then have "v = c - 97 + 10" "97 \<le> c \<and> c \<le> 102"
    using assms by (auto simp: hex_value_def split: if_splits)
  then have "v < 16" "\<not> v < 10" by unat_arith+
  with \<open>v = c - 97 + 10\<close> show ?thesis
    using hex_digit_unfold [of v] by simp
qed

lemma unat_hex_digit:
  "n < 16 \<Longrightarrow> unat (hex_digit n) = unat n + (if unat n < 10 then 48 else 87)"
proof -
  have "\<forall>k \<in> {0..<16 :: nat}. unat (hex_digit (of_nat k)) =
      unat (of_nat k :: u8) + (if unat (of_nat k :: u8) < 10 then 48 else 87)"
    by (simp add: atLeastLessThan_nat_numeral hex_digit_def HEX_DIGITS_def)
  then show "n < 16 \<Longrightarrow> ?thesis" by (auto elim: nibble_cases)
qed

lemma hex_digit_less: "m < 16 \<Longrightarrow> n < 16 \<Longrightarrow> hex_digit m < hex_digit n \<longleftrightarrow> m < n"
  by (auto simp: unat_hex_digit word_less_nat_alt)

lemma hex_digit_inject: "m < 16 \<Longrightarrow> n < 16 \<Longrightarrow> hex_digit m = hex_digit n \<longleftrightarrow> m = n"
  by (metis hex_value_digit option.inject)

section \<open>Texts of content ids\<close>

definition byte_hex :: "u8 \<Rightarrow> str" where
  "byte_hex b = [hex_digit (drop_bit 4 b), hex_digit (b AND 0x0f)]"

lemma encode_hex_eq: "encode_hex o' = concat (map byte_hex (oid_bytes o'))"
  by (simp add: encode_hex_def byte_hex_def cong: map_cong)

lemma length_concat_byte_hex [simp]: "length (concat (map byte_hex bs)) = 2 * length bs"
  by (induction bs) (simp_all add: byte_hex_def)

lemma length_to_hex: "wf_oid o' \<Longrightarrow> length (to_hex o') = 64"
  by (simp add: to_hex_def encode_hex_eq wf_oid_def)

lemma hex_pair_byte: "hex_pair (hex_digit (drop_bit 4 b)) (hex_digit (b AND 0x0f)) = Some b"
  by (simp add: hex_pair_def)

lemma hex_pair_Some: "hex_pair a c = Some b \<longleftrightarrow> byte_hex b = [a, c]"
proof
  assume "hex_pair a c = Some b"
  then obtain hi lo where *: "hex_value a = Some hi" "hex_value c = Some lo" "b = push_bit 4 hi OR lo"
    by (auto simp: hex_pair_def split: option.splits)
  then have d: "hi < 16" "hex_digit hi = a" "lo < 16" "hex_digit lo = c"
    using hex_value_Some by blast+
  with *(3) have "drop_bit 4 b = hi" "b AND 0x0f = lo"
    using high_nibble low_nibble by blast+
  with d show "byte_hex b = [a, c]" by (simp add: byte_hex_def)
qed (auto simp: byte_hex_def hex_pair_byte)

lemma decode_pairs_encode: "decode_pairs (concat (map byte_hex bs)) = Some bs"
  by (induction bs) (simp_all add: byte_hex_def hex_pair_byte)

lemma decode_pairs_Some:
  "even (length s) \<Longrightarrow> decode_pairs s = Some bs \<longleftrightarrow> s = concat (map byte_hex bs)"
proof (induction s arbitrary: bs rule: decode_pairs.induct)
  case (1 a c s)
  show ?case
  proof
    assume "decode_pairs (a # c # s) = Some bs"
    then obtain b bs' where "hex_pair a c = Some b" "decode_pairs s = Some bs'" "bs = b # bs'"
      by (auto split: option.splits)
    moreover from this have "s = concat (map byte_hex bs')"
      using "1.IH" [of b bs'] "1.prems" by simp
    ultimately show "a # c # s = concat (map byte_hex bs)"
      by (simp add: hex_pair_Some)
  next
    assume "a # c # s = concat (map byte_hex bs)"
    then show "decode_pairs (a # c # s) = Some bs"
      using decode_pairs_encode by simp
  qed
next
  case "2_1"
  have "concat (map byte_hex bs) \<noteq> [] \<or> bs = []"
    by (cases bs) (simp_all add: byte_hex_def)
  then show ?case by auto
qed simp

lemma oid_from_hex_Ok:
  "oid_from_hex h = Ok o' \<longleftrightarrow> wf_oid o' \<and> h = to_hex o'"
proof (cases "length h = 64")
  case True
  then have "oid_from_hex h = Ok o' \<longleftrightarrow> decode_pairs h = Some (oid_bytes o')"
    by (cases o') (auto simp: oid_from_hex_def split: option.splits)
  also have "\<dots> \<longleftrightarrow> h = to_hex o'"
    using True by (simp add: decode_pairs_Some to_hex_def encode_hex_eq)
  finally show ?thesis
    using True by (auto simp: wf_oid_def to_hex_def encode_hex_eq)
next
  case False
  then show ?thesis by (auto simp: oid_from_hex_def length_to_hex)
qed

text \<open>
  C3: Content ids have exactly one text: every 32-byte id parses back from \<open>to_hex\<close>, whatever
  \<open>Oid::from_hex\<close> accepts is 64 digits that \<open>to_hex\<close> renders again byte for byte, and every other
  text is refused with the error for its length or its digits.
\<close>

theorem oid_hex_roundtrip:
  "(\<forall>o'. wf_oid o' \<longrightarrow> oid_from_hex (to_hex o') = Ok o')
   \<and> (\<forall>h o'. oid_from_hex h = Ok o' \<longrightarrow> wf_oid o' \<and> to_hex o' = h)
   \<and> (\<forall>h e. oid_from_hex h = Err e \<longrightarrow>
        e = (if length h = 64 then NotLowercaseHex h else WrongHexLength h (length h)))"
  by (auto simp: oid_from_hex_Ok) (auto simp: oid_from_hex_def split: option.splits)

theorem oid_hex_roundtrip_witness:
  "oid_from_hex (to_hex (Oid (replicate 32 171))) = Ok (Oid (replicate 32 171))"
proof -
  have "wf_oid (Oid (replicate 32 171))" by (simp add: wf_oid_def)
  then show ?thesis using oid_hex_roundtrip by blast
qed

lemma eq_hex_loop_iff:
  "length hex = 2 * length bs \<Longrightarrow> eq_hex_loop bs hex \<longleftrightarrow> hex = concat (map byte_hex bs)"
proof (induction bs hex rule: eq_hex_loop.induct)
  case (1 byte bytes a b hex)
  then show ?case
    using hex_pair_Some [of a b byte]
    by (auto simp: hex_pair_def byte_hex_def split: option.splits)
qed auto

lemma eq_hex_iff: "wf_oid o' \<Longrightarrow> eq_hex o' h \<longleftrightarrow> h = to_hex o'"
  using length_to_hex [of o']
  by (auto simp: eq_hex_def eq_hex_loop_iff wf_oid_def to_hex_def encode_hex_eq)

lemma byte_hex_less: "byte_hex a @ s < byte_hex b @ t \<longleftrightarrow> a < b \<or> a = b \<and> s < t"
  using less_by_nibbles [of a b]
  by (auto simp: byte_hex_def hex_digit_less hex_digit_inject)
     (metis nibbles_recombine)+

lemma encode_less:
  "length as = length bs \<Longrightarrow>
     concat (map byte_hex as) < concat (map byte_hex bs) \<longleftrightarrow> as < bs"
  by (induction as bs rule: list_induct2) (auto simp: byte_hex_less)

text \<open>
  The two shortcuts the code takes instead of rendering are exact: \<open>eq_hex\<close> decides whether
  the text is the id's text without decoding it into an id (malformed text compares unequal), and
  comparing raw bytes orders ids as their lowercase texts are ordered.
\<close>

theorem oid_shortcuts_agree_with_text:
  assumes "wf_oid a" "wf_oid b"
  shows "(eq_hex a h \<longleftrightarrow> oid_from_hex h = Ok a)
    \<and> (a < b \<longleftrightarrow> to_hex a < to_hex b) \<and> (a = b \<longleftrightarrow> to_hex a = to_hex b)"
proof (intro conjI)
  show "eq_hex a h \<longleftrightarrow> oid_from_hex h = Ok a"
    using assms(1) by (simp add: eq_hex_iff oid_from_hex_Ok)
  show "a < b \<longleftrightarrow> to_hex a < to_hex b"
    using assms by (simp add: less_oid_def to_hex_def encode_hex_eq encode_less wf_oid_def)
  show "a = b \<longleftrightarrow> to_hex a = to_hex b"
    using assms by (metis oid_from_hex_Ok sum.inject(2))
qed

theorem oid_shortcuts_agree_with_text_witness:
  "eq_hex (Oid (replicate 32 1)) (to_hex (Oid (replicate 32 1)))
   \<and> to_hex (Oid (replicate 32 1)) < to_hex (Oid (replicate 32 2))"
proof -
  have wf: "wf_oid (Oid (replicate 32 1))" "wf_oid (Oid (replicate 32 2))"
    by (simp_all add: wf_oid_def)
  have less: "Oid (replicate 32 1) < Oid (replicate 32 2)"
    by (simp add: less_oid_def numeral_eq_Suc)
  show ?thesis
    using oid_shortcuts_agree_with_text [OF wf, of "to_hex (Oid (replicate 32 1))"] less wf
    by (simp add: oid_from_hex_Ok)
qed

end
