(* ===== verification/LockModel.thy ===== *)
theory LockModel
  imports LexicalPath ObjectId
begin

text \<open>
  The semantic lock values of \<open>gat-core/src/lock/codec.rs\<close> with the errors of
  \<open>lock/error.rs\<close>: entries, locks, the directory-prefix relation between tracked paths and its
  upper bound, the single-pass conflict check over ordered paths, and the resident mutations
  (\<open>upsert\<close>, \<open>upsert_many\<close>, \<open>remove_prefix\<close>). The conflict check keeps a stack of earlier paths
  that are string prefixes of the current one; the locale \<open>prefix_stack\<close> states the contract of
  one step of such a stack, and the file decoder implements the same contract differently.
\<close>

section \<open>Errors\<close>

datatype malformed_row_reason =
    InvalidSeparator
  | MissingLineFeed
  | UnorderedPath str

datatype invalid_oid_reason = NotHexBlake3

datatype lock_domain_error =
    Empty
  | UnsupportedVersion str str
  | MalformedRow nat malformed_row_reason
  | InvalidRowPath nat str lexical_path_error
  | NonCanonicalPath nat str
  | InvalidOid nat str invalid_oid_reason
  | DuplicatePath str "nat option"
  | PathInMultipleShards str
  | DirectoryPrefixConflict str str
  | MisplacedShardRow str str str

datatype lock_error =
    Domain lock_domain_error
  | LexicalPath lexical_path_error
  | CallbackFailed

section \<open>Entries and locks\<close>

record entry =
  entry_path :: gat_path
  entry_oid :: oid

record lock =
  lock_entries :: "entry list"

definition entry_from_validated_parts :: "gat_path \<Rightarrow> oid \<Rightarrow> entry" where
  "entry_from_validated_parts path oid' = \<lparr>entry_path = path, entry_oid = oid'\<rparr>"

definition VERSION :: str where
  "VERSION = lit ''version https://getgat.dev/spec/lock-v1''"

definition validate_path :: "str \<Rightarrow> nat \<Rightarrow> lock_error + unit" where
  "validate_path path line =
     (case validate_canonical_str path of
        Inr _ \<Rightarrow> Ok ()
      | Inl _ \<Rightarrow>
          and_then
            (map_err (\<lambda>source. Domain (InvalidRowPath line path source))
              (gat_path_normalize (Unicode path)))
            (\<lambda>_. Err (Domain (NonCanonicalPath line path))))"

section \<open>The directory-prefix relation\<close>

definition is_directory_prefix :: "str \<Rightarrow> str \<Rightarrow> bool" where
  "is_directory_prefix ancestor path \<longleftrightarrow>
     length path > length ancestor \<and> path ! length ancestor = SLASH \<and> prefix ancestor path"

fun upper_bound_loop :: "str \<Rightarrow> str \<Rightarrow> bool" where
  "upper_bound_loop (p # ps) (a # as) =
     (if p < a then False else if p > a then True else upper_bound_loop ps as)"
| "upper_bound_loop ps as =
     (if length ps \<le> length as then False else hd ps \<ge> 48)"

definition exceeds_directory_upper_bound :: "str \<Rightarrow> str \<Rightarrow> bool" where
  "exceeds_directory_upper_bound path ancestor = upper_bound_loop path ancestor"

section \<open>The conflict check over ordered paths\<close>

text \<open>
  The \<open>candidates\<close> vector is a list with its last element first; the pushes and pops of one
  iteration are \<open>candidate_step\<close>.
\<close>

definition candidate_step :: "str list \<Rightarrow> str \<Rightarrow> str \<Rightarrow> str list" where
  "candidate_step candidates previous path =
     (let candidates = dropWhile (\<lambda>p. length p \<ge> length path \<or> \<not> prefix p path) candidates
      in if length previous < length path \<and> prefix previous path
         then previous # candidates else candidates)"

fun conflict_on_top :: "str list \<Rightarrow> str \<Rightarrow> str option" where
  "conflict_on_top [] path = None"
| "conflict_on_top (ancestor # _) path =
     (if nth_opt path (length ancestor) = Some SLASH then Some ancestor else None)"

fun validate_ordered_loop :: "str option \<Rightarrow> str list \<Rightarrow> str list \<Rightarrow> lock_error + bool" where
  "validate_ordered_loop previous candidates [] = Ok True"
| "validate_ordered_loop None candidates (path # paths) =
     validate_ordered_loop (Some path) candidates paths"
| "validate_ordered_loop (Some previous) candidates (path # paths) =
     (if previous = path then Err (Domain (DuplicatePath path None))
      else if previous > path then Ok False
      else (let candidates = candidate_step candidates previous path in
        case conflict_on_top candidates path of
          Some ancestor \<Rightarrow> Err (Domain (DirectoryPrefixConflict ancestor path))
        | None \<Rightarrow> validate_ordered_loop (Some path) candidates paths))"

definition validate_paths_if_ordered :: "str list \<Rightarrow> lock_error + bool" where
  "validate_paths_if_ordered paths = validate_ordered_loop None [] paths"

text \<open>The argument is the iteration order of a \<open>BTreeSet\<close>, which the caller's order makes ascending.\<close>

definition validate_no_path_directory_conflicts :: "str list \<Rightarrow> lock_error + unit" where
  "validate_no_path_directory_conflicts paths =
     and_then (validate_paths_if_ordered paths) (\<lambda>_. Ok ())"

definition lock_paths :: "lock \<Rightarrow> str list" where
  "lock_paths self = map (\<lambda>entry. as_str (entry_path entry)) (lock_entries self)"

definition lock_validate :: "lock \<Rightarrow> lock_error + unit" where
  "lock_validate self =
     and_then (validate_paths_if_ordered (lock_paths self)) (\<lambda>ordered.
       if ordered then Ok ()
       else
         (let entries = sort_key entry_path (lock_entries self) in
          and_then (validate_paths_if_ordered (map (\<lambda>entry. as_str (entry_path entry)) entries))
            (\<lambda>_. Ok ())))"

section \<open>Resident mutations\<close>

fun upsert_entries :: "entry list \<Rightarrow> gat_path \<Rightarrow> oid \<Rightarrow> entry list" where
  "upsert_entries [] path oid' = [\<lparr>entry_path = path, entry_oid = oid'\<rparr>]"
| "upsert_entries (e # es) path oid' =
     (if entry_path e = path then e\<lparr>entry_oid := oid'\<rparr> # es
      else e # upsert_entries es path oid')"

definition lock_upsert :: "lock \<Rightarrow> gat_path \<Rightarrow> oid \<Rightarrow> lock" where
  "lock_upsert self path oid' = self\<lparr>lock_entries := upsert_entries (lock_entries self) path oid'\<rparr>"

text \<open>The \<open>HashMap\<close> of positions is a finite map; later duplicates overwrite earlier positions.\<close>

definition position_index :: "entry list \<Rightarrow> gat_path \<Rightarrow> nat option" where
  "position_index es =
     foldl (\<lambda>index (i, e). index(entry_path e \<mapsto> i)) Map.empty (enumerate 0 es)"

fun upsert_many_loop :: "(gat_path \<Rightarrow> nat option) \<Rightarrow> entry list \<Rightarrow> entry list \<Rightarrow> entry list" where
  "upsert_many_loop index entries [] = entries"
| "upsert_many_loop index entries (e # new) =
     (case index (entry_path e) of
        Some i \<Rightarrow> upsert_many_loop index (entries[i := e]) new
      | None \<Rightarrow>
          upsert_many_loop (index(entry_path e \<mapsto> length entries)) (entries @ [e]) new)"

definition lock_upsert_many :: "lock \<Rightarrow> entry list \<Rightarrow> lock" where
  "lock_upsert_many self new_entries =
     self\<lparr>lock_entries :=
       upsert_many_loop (position_index (lock_entries self)) (lock_entries self) new_entries\<rparr>"

definition lock_remove_prefix :: "lock \<Rightarrow> gat_path \<Rightarrow> lock \<times> gat_path list" where
  "lock_remove_prefix self path =
     (self\<lparr>lock_entries := filter (\<lambda>e. \<not> is_or_under (entry_path e) path) (lock_entries self)\<rparr>,
      map entry_path (filter (\<lambda>e. is_or_under (entry_path e) path) (lock_entries self)))"

section \<open>Descendants form an interval of the path order\<close>

lemma is_directory_prefix_iff: "is_directory_prefix a p \<longleftrightarrow> (\<exists>q. p = a @ SLASH # q)"
proof
  assume "is_directory_prefix a p"
  then obtain r where "p = a @ r" "r \<noteq> []" "p ! length a = SLASH"
    by (auto simp: is_directory_prefix_def prefix_def)
  then show "\<exists>q. p = a @ SLASH # q"
    by (cases r) simp_all
qed (auto simp: is_directory_prefix_def)

lemma is_or_under_directory_prefix:
  "is_or_under p q \<longleftrightarrow> p = q \<or> is_directory_prefix (as_str q) (as_str p)"
  by (simp add: is_or_under_iff is_directory_prefix_iff)

lemma is_directory_prefix_strict: "is_directory_prefix a p \<Longrightarrow> strict_prefix a p"
  by (auto simp: is_directory_prefix_iff strict_prefix_def)

lemma is_directory_prefix_less [order_intros]: "is_directory_prefix a p \<Longrightarrow> a < p"
  by (auto simp: is_directory_prefix_iff)

lemma is_directory_prefix_irrefl [simp]: "\<not> is_directory_prefix a a"
  using is_directory_prefix_strict by blast

lemma is_directory_prefix_via_longer:
  "is_directory_prefix a p \<Longrightarrow> prefix t p \<Longrightarrow> length a < length t \<Longrightarrow> is_directory_prefix a t"
  unfolding is_directory_prefix_def
  by (metis nth_append prefix_def prefix_length_prefix less_imp_le)

lemma nth_opt_directory: "prefix a p \<Longrightarrow> nth_opt p (length a) = Some SLASH \<longleftrightarrow> is_directory_prefix a p"
  by (auto simp: nth_opt_Some is_directory_prefix_def)

lemma upper_bound_loop_iff: "upper_bound_loop p a \<longleftrightarrow> a @ [48] \<le> p"
proof (induction p arbitrary: a)
  case Nil
  then show ?case by (cases a) simp_all
next
  case (Cons c p)
  then show ?case by (cases a) (auto simp: le_less [of "48"])
qed

lemma exceeds_iff: "exceeds_directory_upper_bound p a \<longleftrightarrow> a @ [48] \<le> p"
  by (simp add: exceeds_directory_upper_bound_def upper_bound_loop_iff)

lemma slash_interval: "(\<exists>q. p = SLASH # q) \<longleftrightarrow> [SLASH] \<le> p \<and> p < [48 :: u8]"
proof -
  have "b = SLASH" if "SLASH \<le> b" "b < 48" for b :: u8
    using that by (simp add: word_le_nat_alt word_less_nat_alt word_unat_eq_iff)
  then show ?thesis
    by (cases p) (auto intro: less_imp_le)
qed

lemma directory_interval:
  "is_directory_prefix a p \<longleftrightarrow> a @ [SLASH] \<le> p \<and> p < a @ [48]"
proof
  assume "is_directory_prefix a p"
  then obtain q where "p = a @ SLASH # q"
    by (auto simp: is_directory_prefix_iff)
  then show "a @ [SLASH] \<le> p \<and> p < a @ [48]"
    using slash_interval [of "SLASH # q"] by simp
next
  assume *: "a @ [SLASH] \<le> p \<and> p < a @ [48]"
  have "prefix a p"
    using prefix_convex [of a "a @ [SLASH]" p "a @ [48]"] * by (simp add: less_imp_le)
  then obtain r where "p = a @ r" by (auto simp: prefix_def)
  with * show "is_directory_prefix a p"
    using slash_interval [of r] by (auto simp: is_directory_prefix_iff)
qed

text \<open>
  The directory relation and its two byte-wise shortcuts agree: a path is a proper
  descendant of a directory exactly when it lies at or above \<open>ancestor/\<close> and has not reached the
  exclusive upper bound \<open>ancestor0\<close> that \<open>exceeds_directory_upper_bound\<close> tests without building
  it; the bound retires a candidate for good, because every later path in order exceeds it too.
\<close>

theorem descendants_are_an_interval:
  "(is_directory_prefix a p \<longleftrightarrow> a @ [SLASH] \<le> p \<and> \<not> exceeds_directory_upper_bound p a)
   \<and> (exceeds_directory_upper_bound p a \<and> p \<le> p' \<longrightarrow>
        exceeds_directory_upper_bound p' a \<and> \<not> is_directory_prefix a p')
   \<and> (is_directory_prefix (as_str d) (as_str f) \<longleftrightarrow> f \<noteq> d \<and> is_or_under f d)"
  by (auto simp: directory_interval exceeds_iff not_le is_or_under_directory_prefix)

lemma descendants_are_an_interval_witness:
  "exceeds_directory_upper_bound (lit ''a0'') (lit ''a'')
   \<and> \<not> is_directory_prefix (lit ''a'') (lit ''ab/c'')"
proof -
  have "exceeds_directory_upper_bound (lit ''a0'') (lit ''a'')" "lit ''a0'' \<le> lit ''ab/c''"
    by code_simp+
  then show ?thesis
    using descendants_are_an_interval by blast
qed

section \<open>Stacks of prefixes\<close>

text \<open>
  Over strictly ascending paths, the earlier paths that are string prefixes of the current one form
  a chain. A stack step receives the chain of the previous path and must leave exactly those of
  the previous path and its chain that are prefixes of the current one.
\<close>

definition chain :: "str list \<Rightarrow> bool" where
  "chain st \<longleftrightarrow> sorted_wrt (\<lambda>a b. strict_prefix b a) st"

definition prefixes_of :: "str \<Rightarrow> str list \<Rightarrow> str list" where
  "prefixes_of path seen = rev (filter (\<lambda>p. strict_prefix p path) seen)"

definition conflict_free :: "str set \<Rightarrow> bool" where
  "conflict_free ps \<longleftrightarrow> (\<forall>a \<in> ps. \<forall>b \<in> ps. \<not> is_directory_prefix a b)"

lemma conflict_free_subset: "conflict_free B \<Longrightarrow> A \<subseteq> B \<Longrightarrow> conflict_free A"
  by (auto simp: conflict_free_def)

lemma sorted_prefixes_chain:
  assumes "sorted_wrt (<) (seen @ [path])"
  shows "chain (path # prefixes_of path seen)"
proof -
  have "strict_prefix a b" if "strict_prefix a path" "strict_prefix b path" "a < b" for a b
  proof -
    have "prefix a b \<or> prefix b a"
      using that(1,2) by (meson prefix_order.less_imp_le prefix_same_cases)
    then show ?thesis
      using that(3) prefix_le [of b a] by (auto simp: strict_prefix_def)
  qed
  then have "sorted_wrt strict_prefix (filter (\<lambda>p. strict_prefix p path) seen)"
    using assms sorted_wrt_filter [of "(<)" seen "\<lambda>p. strict_prefix p path"]
    by (auto simp: sorted_wrt_append intro: sorted_wrt_mono_rel [rotated])
  then show ?thesis
    by (auto simp: chain_def prefixes_of_def sorted_wrt_rev)
qed

lemma chain_dropWhile:
  "chain st \<Longrightarrow> dropWhile (\<lambda>p. \<not> prefix p path) st = filter (\<lambda>p. prefix p path) st"
proof (induction st)
  case (Cons a st)
  show ?case
  proof (cases "prefix a path")
    case True
    then have "\<forall>b \<in> set st. prefix b path"
      using Cons.prems by (auto simp: chain_def strict_prefix_def)
    with True show ?thesis by simp
  next
    case False
    then show ?thesis using Cons by (simp add: chain_def)
  qed
qed simp

lemma prefix_passes_middle:
  "prefix q path \<Longrightarrow> q < previous \<Longrightarrow> previous < path \<Longrightarrow> strict_prefix q (previous :: str)"
  using prefix_between [of q path previous] by (auto simp: strict_prefix_def)

locale prefix_stack =
  fixes step :: "str list \<Rightarrow> str \<Rightarrow> str \<Rightarrow> str list"
  assumes retains:
    "chain (previous # st) \<Longrightarrow> previous < path \<Longrightarrow>
       step st previous path = dropWhile (\<lambda>p. \<not> prefix p path) (previous # st)"
begin

lemma step_prefixes_of:
  assumes "sorted_wrt (<) (seen @ [previous, path])"
  shows "step (prefixes_of previous seen) previous path = prefixes_of path (seen @ [previous])"
proof -
  have s: "sorted_wrt (<) (seen @ [previous])" "previous < path" "\<forall>q \<in> set seen. q < previous"
    using assms by (auto simp: sorted_wrt_append)
  have "step (prefixes_of previous seen) previous path
      = filter (\<lambda>p. prefix p path) (previous # prefixes_of previous seen)"
    using retains [OF sorted_prefixes_chain [OF s(1)] s(2)]
      chain_dropWhile [OF sorted_prefixes_chain [OF s(1)]] by simp
  also have "\<dots> = filter (\<lambda>p. prefix p path) (previous # rev seen)"
  proof -
    have "q \<in> set seen \<Longrightarrow> prefix q path \<Longrightarrow> strict_prefix q previous" for q
      using prefix_passes_middle [of q path previous] s(2,3) by blast
    then show ?thesis
      by (auto simp: prefixes_of_def rev_filter intro!: filter_cong)
  qed
  also have "\<dots> = filter (\<lambda>p. strict_prefix p path) (previous # rev seen)"
    using s by (intro filter_cong) (auto simp: strict_prefix_def)
  finally show ?thesis
    by (simp add: prefixes_of_def rev_filter)
qed

end

text \<open>The conflict test looks only at the top of the stack.\<close>

lemma conflict_on_top_prefixes:
  assumes "sorted_wrt (<) (seen @ [path])" "conflict_free (set seen)"
  shows "conflict_on_top (prefixes_of path seen) path = Some a \<longleftrightarrow>
    a \<in> set seen \<and> is_directory_prefix a path"
proof (cases "prefixes_of path seen")
  case Nil
  then have "\<forall>q \<in> set seen. \<not> strict_prefix q path"
    by (simp add: prefixes_of_def filter_empty_conv)
  then show ?thesis
    using Nil is_directory_prefix_strict by auto
next
  case (Cons t ts)
  have ch: "chain (path # t # ts)"
    using sorted_prefixes_chain [OF assms(1)] Cons by simp
  have set: "set (t # ts) = {q \<in> set seen. strict_prefix q path}"
    using arg_cong [OF Cons, of set] by (auto simp: prefixes_of_def)
  then have t: "prefix t path" "t \<in> set seen"
    by (auto simp: strict_prefix_def)
  have "a = t" if a: "a \<in> set seen" "is_directory_prefix a path"
  proof (rule ccontr)
    assume "a \<noteq> t"
    then have "a \<in> set ts"
      using set a is_directory_prefix_strict by auto
    then have "strict_prefix a t"
      using ch by (simp add: chain_def)
    then have "is_directory_prefix a t"
      using is_directory_prefix_via_longer [OF a(2) t(1)] by (simp add: prefix_length_less)
    then show False
      using assms(2) a(1) t(2) by (auto simp: conflict_free_def)
  qed
  then show ?thesis
    using Cons t nth_opt_directory [OF t(1)] by auto
qed

lemma candidate_step_retains:
  assumes ch: "chain (previous # st)" and less: "previous < path"
  shows "candidate_step st previous path = dropWhile (\<lambda>p. \<not> prefix p path) (previous # st)"
proof (cases "prefix previous path")
  case True
  then have "length previous < length path"
    using less by (intro prefix_length_less) (auto simp: strict_prefix_def)
  moreover have "\<forall>p \<in> set st. prefix p path \<and> length p < length path"
  proof
    fix p
    assume that: "p \<in> set st"
    have p: "strict_prefix p previous"
      using that ch by (simp add: chain_def)
    show "prefix p path \<and> length p < length path"
      using prefix_length_less [OF p] calculation prefix_order.trans [OF _ True] p
      by (auto simp: strict_prefix_def)
  qed
  then have "dropWhile (\<lambda>p. length path \<le> length p \<or> \<not> prefix p path) st = st"
    by (cases st) auto
  ultimately show ?thesis
    using True by (simp add: candidate_step_def)
next
  case False
  have "path \<notin> set st"
    using ch less strict_prefix_less [of path previous] by (auto simp: chain_def)
  then have "dropWhile (\<lambda>p. length path \<le> length p \<or> \<not> prefix p path) st
      = dropWhile (\<lambda>p. \<not> prefix p path) st"
    by (intro dropWhile_cong refl) (auto simp: prefix_def)
  with False show ?thesis by (simp add: candidate_step_def)
qed

interpretation cand: prefix_stack candidate_step
  by unfold_locales (rule candidate_step_retains)

section \<open>What the conflict check decides\<close>

definition tracked_twice :: "str \<Rightarrow> str list \<Rightarrow> bool" where
  "tracked_twice p ps \<longleftrightarrow> 2 \<le> length (filter (\<lambda>q. q = p) ps)"

definition check_outcome :: "str list \<Rightarrow> lock_error + bool \<Rightarrow> bool" where
  "check_outcome ps r \<longleftrightarrow>
     (case r of
        Inr True \<Rightarrow> sorted_wrt (<) ps \<and> conflict_free (set ps)
      | Inr False \<Rightarrow> \<not> sorted ps
      | Inl e \<Rightarrow>
          (\<exists>p. e = Domain (DuplicatePath p None) \<and> tracked_twice p ps)
          \<or> (\<exists>a d. e = Domain (DirectoryPrefixConflict a d) \<and> a \<in> set ps \<and> d \<in> set ps
               \<and> is_directory_prefix a d))"

lemma conflict_free_snoc:
  assumes "sorted_wrt (<) (seen @ [path])" "conflict_free (set seen)"
    "\<forall>q \<in> set seen. \<not> is_directory_prefix q path"
  shows "conflict_free (set (seen @ [path]))"
  using assms is_directory_prefix_less
  by (fastforce simp: conflict_free_def sorted_wrt_append)

lemma validate_ordered_loop_outcome:
  assumes "sorted_wrt (<) (seen @ [previous])" "conflict_free (set (seen @ [previous]))"
  shows "check_outcome (seen @ previous # rest)
    (validate_ordered_loop (Some previous) (prefixes_of previous seen) rest)"
  using assms
proof (induction rest arbitrary: seen previous)
  case Nil
  then show ?case by (simp add: check_outcome_def)
next
  case (Cons path rest)
  let ?seen = "seen @ [previous]"
  consider "previous = path" | "previous > path" | "previous < path"
    by (meson linorder_neqE)
  then show ?case
  proof cases
    case 1
    then show ?thesis by (auto simp: check_outcome_def tracked_twice_def)
  next
    case 2
    then show ?thesis by (auto simp: check_outcome_def sorted_wrt_append not_le)
  next
    case 3
    then have ne: "previous \<noteq> path" "\<not> path < previous" by auto
    from 3 have s: "sorted_wrt (<) (?seen @ [path])"
      using Cons.prems(1) by (auto simp: sorted_wrt_append)
    then have st: "candidate_step (prefixes_of previous seen) previous path = prefixes_of path ?seen"
      using cand.step_prefixes_of [of seen previous path] by simp
    note top = conflict_on_top_prefixes [OF s Cons.prems(2)]
    show ?thesis
    proof (cases "conflict_on_top (prefixes_of path ?seen) path")
      case None
      then have "\<forall>q \<in> set ?seen. \<not> is_directory_prefix q path"
        using top by (metis option.distinct(1))
      then have "conflict_free (set (?seen @ [path]))"
        by (rule conflict_free_snoc [OF s Cons.prems(2)])
      with ne st None Cons.IH [OF s] show ?thesis by simp
    next
      case (Some a)
      with top have "a \<in> set ?seen" "is_directory_prefix a path" by blast+
      with ne st Some show ?thesis by (auto simp: check_outcome_def)
    qed
  qed
qed

lemma validate_paths_outcome: "check_outcome ps (validate_paths_if_ordered ps)"
proof (cases ps)
  case Nil
  then show ?thesis
    by (simp add: validate_paths_if_ordered_def check_outcome_def conflict_free_def)
next
  case (Cons p rest)
  then show ?thesis
    using validate_ordered_loop_outcome [of "[]" p rest]
    by (simp add: validate_paths_if_ordered_def prefixes_of_def conflict_free_def)
qed

lemma tracked_twice_not_distinct: "tracked_twice p ps \<Longrightarrow> \<not> distinct ps"
proof
  assume t: "tracked_twice p ps" and "distinct ps"
  from this(2) have "length (filter (\<lambda>q. q = p) ps) \<le> 1"
    by (induction ps) (auto simp: filter_empty_conv)
  with t show False by (simp add: tracked_twice_def)
qed

lemma validate_paths_Ok_True:
  "validate_paths_if_ordered ps = Ok True \<longleftrightarrow> sorted_wrt (<) ps \<and> conflict_free (set ps)"
  (is "_ \<longleftrightarrow> ?good")
proof
  assume ?good
  then have g: "sorted ps" "distinct ps" "conflict_free (set ps)"
    by (auto intro: sorted_wrt_less_distinct sorted_wrt_mono_rel [rotated])
  show "validate_paths_if_ordered ps = Ok True"
    using validate_paths_outcome [of ps] g tracked_twice_not_distinct
    by (auto simp: check_outcome_def conflict_free_def split: sum.splits bool.splits)
next
  assume "validate_paths_if_ordered ps = Ok True"
  then show ?good using validate_paths_outcome [of ps] by (simp add: check_outcome_def)
qed

lemma sort_key_paths:
  "map (\<lambda>e. as_str (entry_path e)) (sort_key entry_path es) = sort (map (\<lambda>e. as_str (entry_path e)) es)"
proof (rule properties_for_sort [symmetric])
  show "mset (map (\<lambda>e. as_str (entry_path e)) (sort_key entry_path es)) = mset (map (\<lambda>e. as_str (entry_path e)) es)"
    by simp
  have "sorted (map entry_path (sort_key entry_path es))"
    by simp
  then show "sorted (map (\<lambda>e. as_str (entry_path e)) (sort_key entry_path es))"
    by (simp add: sorted_wrt_map less_eq_gat_path_def)
qed

lemma tracked_twice_sort [simp]: "tracked_twice p (sort ps) \<longleftrightarrow> tracked_twice p ps"
  unfolding tracked_twice_def by (simp flip: size_mset add: mset_filter)

lemma lock_validate_outcome:
  "(lock_validate self = Ok () \<longleftrightarrow>
      distinct (lock_paths self) \<and> conflict_free (set (lock_paths self)))
   \<and> (case lock_validate self of Inr _ \<Rightarrow> True
      | Inl e \<Rightarrow>
          (\<exists>p. e = Domain (DuplicatePath p None) \<and> tracked_twice p (lock_paths self))
          \<or> (\<exists>a d. e = Domain (DirectoryPrefixConflict a d) \<and> a \<in> set (lock_paths self)
               \<and> d \<in> set (lock_paths self) \<and> is_directory_prefix a d))"
proof -
  let ?ps = "lock_paths self"
  let ?v1 = "validate_paths_if_ordered ?ps" and ?v2 = "validate_paths_if_ordered (sort ?ps)"
  have v: "lock_validate self = and_then ?v1 (\<lambda>ordered. if ordered then Ok () else and_then ?v2 (\<lambda>_. Ok ()))"
    by (simp add: lock_validate_def sort_key_paths lock_paths_def Let_def cong: if_cong)
  have o1: "check_outcome ?ps ?v1" and o2: "check_outcome (sort ?ps) ?v2"
    by (rule validate_paths_outcome)+
  have bad: "\<not> (distinct ?ps \<and> conflict_free (set ?ps))"
    if "check_outcome qs (Inl e)" "mset qs = mset ?ps" for qs e
    using that(1) tracked_twice_not_distinct mset_eq_setD [OF that(2)] mset_eq_imp_distinct_iff [OF that(2)]
    by (auto simp: check_outcome_def conflict_free_def)
  show ?thesis
  proof (cases ?v1)
    case (Inl e)
    with o1 bad [of ?ps e] show ?thesis by (simp add: v check_outcome_def)
  next
    case (Inr b1)
    note v1 = this
    show ?thesis
    proof (cases b1)
      case True
      with v1 o1 show ?thesis
        using sorted_wrt_less_distinct [of ?ps] by (simp add: v check_outcome_def)
    next
      case False
      show ?thesis
      proof (cases ?v2)
        case (Inl e)
        with o2 bad [of "sort ?ps" e] v1 False show ?thesis by (simp add: v check_outcome_def)
      next
        case (Inr b2)
        with o2 sorted_wrt_less_distinct [of "sort ?ps"] v1 False show ?thesis
          by (simp add: v check_outcome_def split: bool.splits)
      qed
    qed
  qed
qed

text \<open>
  C5: Validating a resident lock decides exactly the two invariants of a lock, whatever order
  its entries are in: it succeeds if and only if no path is tracked twice and no tracked path is a
  directory of another one, although it looks at each path once and compares it with one stack
  entry only; and every error it reports names a real duplicate or a real conflicting pair.
\<close>

theorem lock_validate_decides:
  "(lock_validate self = Ok () \<longleftrightarrow>
      distinct (lock_paths self) \<and> conflict_free (set (lock_paths self)))
   \<and> (case lock_validate self of Inr _ \<Rightarrow> True
      | Inl e \<Rightarrow>
          (\<exists>p. e = Domain (DuplicatePath p None) \<and> tracked_twice p (lock_paths self))
          \<or> (\<exists>a d. e = Domain (DirectoryPrefixConflict a d) \<and> a \<in> set (lock_paths self)
               \<and> d \<in> set (lock_paths self) \<and> is_directory_prefix a d))"
  by (rule lock_validate_outcome)

section \<open>What the mutations do\<close>

definition lock_map :: "entry list \<Rightarrow> gat_path \<rightharpoonup> oid" where
  "lock_map es = map_of (map (\<lambda>e. (entry_path e, entry_oid e)) es)"

definition entry_paths :: "entry list \<Rightarrow> gat_path list" where
  "entry_paths es = map entry_path es"

lemma lock_map_simps [simp]:
  "lock_map [] = Map.empty"
  "lock_map (e # es) = (lock_map es)(entry_path e \<mapsto> entry_oid e)"
  by (simp_all add: lock_map_def)

lemma entry_paths_simps [simp]:
  "entry_paths [] = []" "entry_paths (e # es) = entry_path e # entry_paths es"
  "entry_paths (es @ fs) = entry_paths es @ entry_paths fs"
  "length (entry_paths es) = length es"
  by (simp_all add: entry_paths_def)

lemma lock_map_append [simp]: "lock_map (es @ fs) = lock_map fs ++ lock_map es"
  by (simp add: lock_map_def)

lemma lock_map_None [simp]: "lock_map es p = None \<longleftrightarrow> p \<notin> set (entry_paths es)"
  by (induction es) auto

lemma dom_lock_map [simp]: "dom (lock_map es) = set (entry_paths es)"
  by (auto simp: dom_def)

lemma nth_entry_path_in: "i < length es \<Longrightarrow> entry_path (es ! i) \<in> set (entry_paths es)"
  by (simp add: entry_paths_def)

lemma upsert_entries_map: "lock_map (upsert_entries es p o') = (lock_map es)(p \<mapsto> o')"
  by (induction es p o' rule: upsert_entries.induct) (auto simp: fun_upd_twist)

lemma upsert_entries_paths:
  "entry_paths (upsert_entries es p o') = (if p \<in> set (entry_paths es) then entry_paths es else entry_paths es @ [p])"
  by (induction es p o' rule: upsert_entries.induct) auto

lemma upsert_entries_distinct:
  "distinct (entry_paths es) \<Longrightarrow> distinct (entry_paths (upsert_entries es p o'))"
  by (simp add: upsert_entries_paths)

text \<open>The one-by-one reference of a bulk update.\<close>

definition upsert_each :: "entry list \<Rightarrow> entry list \<Rightarrow> entry list" where
  "upsert_each es new = foldl (\<lambda>es e. upsert_entries es (entry_path e) (entry_oid e)) es new"

definition index_ok :: "(gat_path \<Rightarrow> nat option) \<Rightarrow> entry list \<Rightarrow> bool" where
  "index_ok index es \<longleftrightarrow> (\<forall>p i. index p = Some i \<longleftrightarrow> i < length es \<and> entry_path (es ! i) = p)"

lemma entry_equality: "(e :: entry) = f \<longleftrightarrow> entry_path e = entry_path f \<and> entry_oid e = entry_oid f"
  by (cases e; cases f) simp

lemma upsert_entries_at:
  "distinct (entry_paths es) \<Longrightarrow> i < length es \<Longrightarrow> entry_path (es ! i) = entry_path e \<Longrightarrow>
     upsert_entries es (entry_path e) (entry_oid e) = es[i := e]"
proof (induction es arbitrary: i)
  case (Cons f es)
  show ?case
  proof (cases i)
    case 0
    then show ?thesis using Cons.prems by (simp add: entry_equality)
  next
    case (Suc j)
    then have "entry_path e \<in> set (entry_paths es)"
      using Cons.prems by (auto simp: entry_paths_def) (metis image_eqI nth_mem)
    then show ?thesis using Cons Suc by auto
  qed
qed simp

lemma upsert_entries_new:
  "entry_path e \<notin> set (entry_paths es) \<Longrightarrow>
     upsert_entries es (entry_path e) (entry_oid e) = es @ [e]"
  by (induction es) (auto simp: entry_equality)

lemma index_ok_None:
  assumes ok: "index_ok index es"
  shows "index p = None \<longleftrightarrow> p \<notin> set (entry_paths es)"
proof -
  have "(\<exists>i. index p = Some i) \<longleftrightarrow> p \<in> set (entry_paths es)"
    using ok nth_entry_path_in [of _ es] unfolding index_ok_def
    by (auto simp: entry_paths_def in_set_conv_nth)
  then show ?thesis by auto
qed

lemma index_ok_snoc:
  assumes ok: "index_ok index es" and new: "entry_path e \<notin> set (entry_paths es)"
  shows "index_ok (index(entry_path e \<mapsto> length es)) (es @ [e])"
  unfolding index_ok_def
proof (intro allI)
  fix p i
  have "entry_path (es ! i) \<noteq> entry_path e" if "i < length es"
    using new nth_entry_path_in [OF that] by metis
  then show "(index(entry_path e \<mapsto> length es)) p = Some i \<longleftrightarrow>
      i < length (es @ [e]) \<and> entry_path ((es @ [e]) ! i) = p"
    using ok by (cases "i < length es") (auto simp: index_ok_def nth_append)
qed

lemma upsert_many_loop_eq:
  "index_ok index es \<Longrightarrow> distinct (entry_paths es) \<Longrightarrow> upsert_many_loop index es new = upsert_each es new"
proof (induction index es new rule: upsert_many_loop.induct)
  case (2 index es e new)
  show ?case
  proof (cases "index (entry_path e)")
    case None
    then have n: "entry_path e \<notin> set (entry_paths es)"
      using 2(3) by (simp add: index_ok_None)
    moreover have "index_ok (index(entry_path e \<mapsto> length es)) (es @ [e])"
      by (rule index_ok_snoc [OF 2(3) n])
    ultimately show ?thesis
      using 2 None by (simp add: upsert_each_def upsert_entries_new del: fun_upd_apply)
  next
    case (Some i)
    then have i: "i < length es" "entry_path (es ! i) = entry_path e"
      using 2(3) by (auto simp: index_ok_def)
    then have "entry_paths (es[i := e]) = entry_paths es"
      by (auto simp: entry_paths_def map_update intro: list_update_same_conv [THEN iffD2])
    moreover have "index_ok index (es[i := e])"
      using 2(3) i by (auto simp: index_ok_def nth_list_update)
    ultimately show ?thesis
      using 2 Some i by (simp add: upsert_each_def upsert_entries_at)
  qed
qed (simp add: upsert_each_def)

lemma position_index_ok: "distinct (entry_paths es) \<Longrightarrow> index_ok (position_index es) es"
proof (induction es rule: rev_induct)
  case Nil
  then show ?case by (simp add: index_ok_def position_index_def)
next
  case (snoc e es)
  have "position_index (es @ [e]) = (position_index es)(entry_path e \<mapsto> length es)"
    by (simp add: position_index_def enumerate_append_eq)
  with snoc show ?case by (simp add: index_ok_snoc del: fun_upd_apply)
qed

lemma upsert_each_map: "lock_map (upsert_each es new) = lock_map es ++ lock_map (rev new)"
  by (induction new arbitrary: es)
    (simp_all add: upsert_each_def upsert_entries_map map_add_assoc [symmetric])

lemma upsert_each_distinct:
  "distinct (entry_paths es) \<Longrightarrow> distinct (entry_paths (upsert_each es new))"
  by (induction new arbitrary: es) (simp_all add: upsert_each_def upsert_entries_distinct)

lemma lock_map_filter:
  "lock_map (filter (\<lambda>e. P (entry_path e)) es) = lock_map es |` {p. P p}"
  by (induction es) (auto simp: restrict_map_def fun_eq_iff)

lemma foldl_lock_upsert:
  "foldl (\<lambda>l e. lock_upsert l (entry_path e) (entry_oid e)) self new
     = self\<lparr>lock_entries := upsert_each (lock_entries self) new\<rparr>"
  by (induction new arbitrary: self) (simp_all add: upsert_each_def lock_upsert_def)

text \<open>
  C6: The resident mutations are the map operations they stand for: on a lock with unique
  paths the indexed bulk update gives the very entry list that updating one entry after another
  gives, its content is the old map overridden by the new rows (the last row of a path wins) with
  paths still unique, and removing a path drops exactly it and everything below it, returns those
  paths, and keeps the lock's invariants.
\<close>

theorem mutations_are_map_updates:
  assumes "distinct (entry_paths (lock_entries self))"
  shows "lock_upsert_many self new
      = foldl (\<lambda>l e. lock_upsert l (entry_path e) (entry_oid e)) self new
    \<and> lock_map (lock_entries (lock_upsert_many self new)) = lock_map (lock_entries self) ++ lock_map (rev new)
    \<and> distinct (entry_paths (lock_entries (lock_upsert_many self new)))
    \<and> (let (rest, removed) = lock_remove_prefix self path in
          lock_map (lock_entries rest) = lock_map (lock_entries self) |` {p. \<not> is_or_under p path}
          \<and> set removed = {p \<in> set (entry_paths (lock_entries self)). is_or_under p path}
          \<and> distinct (entry_paths (lock_entries rest) @ removed)
          \<and> (lock_validate self = Ok () \<longrightarrow> lock_validate rest = Ok ()))"
proof -
  let ?es = "lock_entries self" and ?P = "\<lambda>e. is_or_under (entry_path e) path"
  have bulk: "upsert_many_loop (position_index ?es) ?es new = upsert_each ?es new"
    by (rule upsert_many_loop_eq [OF position_index_ok [OF assms] assms])
  have parts: "distinct (map f (filter (\<lambda>x. \<not> P x) es) @ map f (filter P es))"
    if "distinct (map f es)" for f :: "entry \<Rightarrow> gat_path" and P es
    using that by (induction es) auto
  have valid: "lock_validate (self\<lparr>lock_entries := filter P ?es\<rparr>) = Ok ()"
    if "lock_validate self = Ok ()" for P
    using that lock_validate_outcome
      conflict_free_subset [of "set (lock_paths self)" "set (lock_paths (self\<lparr>lock_entries := filter P ?es\<rparr>))"]
    by (auto simp: lock_paths_def distinct_map_filter image_iff subset_iff)
  have "let (rest, removed) = lock_remove_prefix self path in
      lock_map (lock_entries rest) = lock_map ?es |` {p. \<not> is_or_under p path}
      \<and> set removed = {p \<in> set (entry_paths ?es). is_or_under p path}
      \<and> distinct (entry_paths (lock_entries rest) @ removed)
      \<and> (lock_validate self = Ok () \<longrightarrow> lock_validate rest = Ok ())"
    using parts [of entry_path ?es ?P] assms valid [of "\<lambda>e. \<not> ?P e"]
      lock_map_filter [of "\<lambda>p. \<not> is_or_under p path" ?es]
    by (auto simp: lock_remove_prefix_def entry_paths_def)
  then show ?thesis
    using assms by (simp add: lock_upsert_many_def foldl_lock_upsert upsert_each_map
        upsert_each_distinct bulk)
qed

lemma mutations_are_map_updates_witness:
  "let e = \<lparr>entry_path = GatPath (lit ''a/b''), entry_oid = Oid [1]\<rparr>;
       self = \<lparr>lock_entries = [e]\<rparr>
   in lock_map (lock_entries (lock_upsert_many self [e\<lparr>entry_oid := Oid [2]\<rparr>])) (entry_path e) = Some (Oid [2])
      \<and> snd (lock_remove_prefix self (GatPath (lit ''a''))) = [GatPath (lit ''a/b'')]"
proof -
  define e where "e = \<lparr>entry_path = GatPath (lit ''a/b''), entry_oid = Oid [1]\<rparr>"
  define self where "self = \<lparr>lock_entries = [e]\<rparr>"
  have "distinct (entry_paths (lock_entries self))"
    by (simp add: self_def)
  from mutations_are_map_updates [OF this, of "[e\<lparr>entry_oid := Oid [2]\<rparr>]" "GatPath (lit ''a'')"]
  have "lock_map (lock_entries (lock_upsert_many self [e\<lparr>entry_oid := Oid [2]\<rparr>]))
      = lock_map (lock_entries self) ++ lock_map (rev [e\<lparr>entry_oid := Oid [2]\<rparr>])"
    by blast
  then have "lock_map (lock_entries (lock_upsert_many self [e\<lparr>entry_oid := Oid [2]\<rparr>])) (entry_path e) = Some (Oid [2])"
    by simp
  moreover have "snd (lock_remove_prefix self (GatPath (lit ''a''))) = [GatPath (lit ''a/b'')]"
    unfolding self_def e_def by code_simp
  ultimately show ?thesis by (simp add: Let_def e_def self_def)
qed

end
