(* ===== verification/LockEncoding.thy ===== *)
theory LockEncoding
  imports LockModel
begin

text \<open>
  Serialization of \<open>gat.lock\<close>: the control-only escaping of paths (\<open>EscapedPath\<close> and
  \<open>Lock\<close>'s \<open>Display\<close> in \<open>gat-core/src/lock/codec.rs\<close>) and the streaming and appending writers
  (\<open>gat-core/src/lock/encoding.rs\<close>). The writers take the destination's \<open>write_all\<close> as a
  parameter; the locale \<open>sink\<close> states the contract of \<open>std::io::Write\<close> they rely on. The
  formatting loops pass the pending span, the slice from \<open>start\<close> to the current index, as an
  argument. The four writers are shown to produce one row text.
\<close>

section \<open>Escaping\<close>

definition ESCAPE :: str where
  "ESCAPE = [BACKSLASH, 120]"

text \<open>\<open>{byte:02x}\<close>\<close>

definition format_02x :: "u8 \<Rightarrow> str" where
  "format_02x byte = [hex_digit (drop_bit 4 byte), hex_digit (byte AND 0x0f)]"

fun escaped_path_loop :: "str \<Rightarrow> str \<Rightarrow> str" where
  "escaped_path_loop span [] = span"
| "escaped_path_loop span (byte # rest) =
     (if byte < 32 then span @ (ESCAPE @ format_02x byte) @ escaped_path_loop [] rest
      else escaped_path_loop (span @ [byte]) rest)"

definition escaped_path :: "gat_path \<Rightarrow> str" where
  "escaped_path path = escaped_path_loop [] (as_str path)"

section \<open>Display of a lock\<close>

definition display_row :: "entry \<Rightarrow> str" where
  "display_row entry = to_hex (entry_oid entry) @ [TAB] @ escaped_path (entry_path entry) @ [LF]"

text \<open>
  \<open>sort_unstable_by\<close> may order entries of equal paths either way; locks have unique paths, and the
  model takes the stable order.
\<close>

definition lock_display :: "lock \<Rightarrow> str" where
  "lock_display self = (VERSION @ [LF]) @ concat (map display_row (sort_key entry_path (lock_entries self)))"

section \<open>Streaming writers\<close>

definition HEX :: str where
  "HEX = lit ''0123456789abcdef''"

definition write_header :: "('w \<Rightarrow> str \<Rightarrow> 'e + 'w) \<Rightarrow> 'w \<Rightarrow> 'e + 'w" where
  "write_header write_all out = and_then (write_all out VERSION) (\<lambda>out. write_all out [LF])"

fun write_path_loop :: "('w \<Rightarrow> str \<Rightarrow> 'e + 'w) \<Rightarrow> 'w \<Rightarrow> str \<Rightarrow> str \<Rightarrow> 'e + 'w" where
  "write_path_loop write_all out span [] = write_all out span"
| "write_path_loop write_all out span (byte # rest) =
     (if byte < 32 then
        and_then (write_all out span) (\<lambda>out.
          and_then
            (write_all out
              [BACKSLASH, 120, HEX ! unat (drop_bit 4 byte), HEX ! unat (byte AND 15)])
            (\<lambda>out. write_path_loop write_all out [] rest))
      else write_path_loop write_all out (span @ [byte]) rest)"

definition write_row :: "('w \<Rightarrow> str \<Rightarrow> 'e + 'w) \<Rightarrow> 'w \<Rightarrow> entry \<Rightarrow> 'e + 'w" where
  "write_row write_all out entry =
     and_then (write_all out (encode_hex (entry_oid entry))) (\<lambda>out.
     and_then (write_all out [TAB]) (\<lambda>out.
     and_then (write_path_loop write_all out [] (as_str (entry_path entry))) (\<lambda>out.
       write_all out [LF])))"

definition append_row :: "str \<Rightarrow> entry \<Rightarrow> str" where
  "append_row out entry =
     (let out = out @ encode_hex (entry_oid entry);
          out = out @ [TAB];
          path = as_str (entry_path entry);
          out = (if list_ex (\<lambda>byte. byte < 32) path then out @ escaped_path (entry_path entry)
                 else out @ path)
      in out @ [LF])"

section \<open>One row text\<close>

definition escape_byte :: "u8 \<Rightarrow> str" where
  "escape_byte b = (if b < 32 then BACKSLASH # 120 # byte_hex b else [b])"

definition escape :: "str \<Rightarrow> str" where
  "escape s = concat (map escape_byte s)"

definition row_text :: "entry \<Rightarrow> str" where
  "row_text e = to_hex (entry_oid e) @ TAB # escape (as_str (entry_path e)) @ [LF]"

lemma escape_simps [simp]: "escape [] = []" "escape (b # s) = escape_byte b @ escape s"
  by (simp_all add: escape_def)

lemma escaped_path_loop_eq: "escaped_path_loop span s = span @ escape s"
  by (induction span s rule: escaped_path_loop.induct)
    (simp_all add: escape_byte_def ESCAPE_def format_02x_def byte_hex_def)

lemma escape_plain: "\<not> list_ex (\<lambda>b. b < 32) s \<Longrightarrow> escape s = s"
  by (induction s) (auto simp: escape_byte_def)

lemma display_row_eq: "display_row e = row_text e"
  by (simp add: display_row_def row_text_def escaped_path_def escaped_path_loop_eq)

lemma append_row_eq: "append_row out e = out @ row_text e"
  using escape_plain [of "as_str (entry_path e)"]
  by (simp add: append_row_def row_text_def escaped_path_def escaped_path_loop_eq Let_def to_hex_def)

text \<open>
  The contract of a destination: a successful \<open>write_all\<close> appends exactly its argument to what
  the destination has received.
\<close>

locale sink =
  fixes write_all :: "'w \<Rightarrow> str \<Rightarrow> 'e + 'w"
    and received :: "'w \<Rightarrow> str"
  assumes appends: "write_all out s = Inr out' \<Longrightarrow> received out' = received out @ s"
begin

lemma write_header_appends:
  "write_header write_all out = Inr out' \<Longrightarrow> received out' = received out @ VERSION @ [LF]"
  by (auto simp: write_header_def and_then_eq_Inr dest!: appends)

lemma write_path_loop_appends:
  "write_path_loop write_all out span s = Inr out' \<Longrightarrow> received out' = received out @ span @ escape s"
proof (induction s arbitrary: out span out')
  case (Cons byte rest)
  have "[BACKSLASH, 120, HEX ! unat (drop_bit 4 byte), HEX ! unat (byte AND 15)] = escape_byte byte"
    if "byte < 32"
    using that by (simp add: escape_byte_def byte_hex_def hex_digit_def HEX_def HEX_DIGITS_def)
  with Cons show ?case
    by (cases "byte < 32") (auto simp: and_then_eq_Inr escape_byte_def dest!: appends Cons.IH)
qed (simp add: appends)

lemma write_row_appends:
  "write_row write_all out e = Inr out' \<Longrightarrow> received out' = received out @ row_text e"
  by (auto simp: write_row_def row_text_def and_then_eq_Inr to_hex_def
      dest!: appends write_path_loop_appends)

lemma write_rows_append:
  "foldl (\<lambda>r e. and_then r (\<lambda>out. write_row write_all out e)) (Inr out) es = Inr out' \<Longrightarrow>
     received out' = received out @ concat (map row_text es)"
proof (induction es arbitrary: out)
  case (Cons e es)
  have stuck: "foldl (\<lambda>r e. and_then r (\<lambda>out. write_row write_all out e)) (Inl x) fs = Inl x" for x fs
    by (induction fs) simp_all
  show ?case
    using Cons stuck by (cases "write_row write_all out e") (auto dest: write_row_appends)
qed simp

end

text \<open>The resident destination: \<open>impl Write for Vec<u8>\<close> appends and never fails.\<close>

definition vec_write_all :: "str \<Rightarrow> str \<Rightarrow> unit + str" where
  "vec_write_all out s = Inr (out @ s)"

text \<open>
  A bounded destination (\<open>impl Write for &mut [u8]\<close>): it holds the bytes written so far and the
  space left, and fails when the space does not suffice.
\<close>

definition slice_write_all :: "str \<times> nat \<Rightarrow> str \<Rightarrow> unit + (str \<times> nat)" where
  "slice_write_all out s =
     (if length s \<le> snd out then Inr (fst out @ s, snd out - length s) else Inl ())"

interpretation vec: sink vec_write_all "\<lambda>out. out"
  by unfold_locales (simp add: vec_write_all_def)

interpretation slice: sink slice_write_all fst
  by unfold_locales (auto simp: slice_write_all_def split: if_splits)

lemma vec_write_path_loop: "write_path_loop vec_write_all out span s = Inr (out @ span @ escape s)"
proof -
  have "\<exists>out'. write_path_loop vec_write_all out span s = Inr out'"
    by (induction s arbitrary: out span) (auto simp: vec_write_all_def)
  then show ?thesis using vec.write_path_loop_appends by blast
qed

lemma vec_write_row: "write_row vec_write_all out e = Inr (out @ row_text e)"
proof -
  have "\<exists>out'. write_row vec_write_all out e = Inr out'"
    by (simp add: write_row_def vec_write_path_loop) (simp add: vec_write_all_def)
  then show ?thesis using vec.write_row_appends by blast
qed

text \<open>The file text of a lock whose entries are already in order.\<close>

definition file_text :: "entry list \<Rightarrow> str" where
  "file_text es = VERSION @ [LF] @ concat (map row_text es)"

lemma lock_display_eq: "lock_display self = file_text (sort_key entry_path (lock_entries self))"
  by (simp add: lock_display_def file_text_def display_row_eq [abs_def])

lemma foldl_append_row: "foldl append_row out es = out @ concat (map row_text es)"
  by (induction es arbitrary: out) (simp_all add: append_row_eq)

lemma vec_write_rows:
  "foldl (\<lambda>r e. and_then r (\<lambda>out. write_row vec_write_all out e)) (Inr out) es
     = Inr (out @ concat (map row_text es))"
  by (induction es arbitrary: out) (simp_all add: vec_write_row)

text \<open>A header and then rows, the way every caller drives the streaming writer.\<close>

definition write_entries :: "('w \<Rightarrow> str \<Rightarrow> 'e + 'w) \<Rightarrow> 'w \<Rightarrow> entry list \<Rightarrow> 'e + 'w" where
  "write_entries write_all out es =
     foldl (\<lambda>r e. and_then r (\<lambda>out. write_row write_all out e)) (write_header write_all out) es"

text \<open>
  C7: The serializers agree byte for byte: \<open>Display\<close>, the appending writer and the streaming
  writer produce the same file for the same ordered entries; on a resident destination the
  streaming writer always succeeds; and on a bounded one every success has delivered exactly the
  file, so a short file is never reported as written.
\<close>

theorem serializers_agree:
  "lock_display \<lparr>lock_entries = es\<rparr> = foldl append_row (VERSION @ [LF]) (sort_key entry_path es)
    \<and> (sorted (map entry_path es) \<longrightarrow> write_entries vec_write_all [] es = Inr (lock_display \<lparr>lock_entries = es\<rparr>))
    \<and> (\<forall>n out. write_entries slice_write_all ([], n) es = Inr out \<longrightarrow>
         write_entries vec_write_all [] es = Inr (fst out))"
proof (intro conjI allI impI)
  show "lock_display \<lparr>lock_entries = es\<rparr> = foldl append_row (VERSION @ [LF]) (sort_key entry_path es)"
    by (simp add: lock_display_eq file_text_def foldl_append_row)
  have vec: "write_entries vec_write_all [] es = Inr (file_text es)"
  proof -
    have "write_header vec_write_all [] = Inr (VERSION @ [LF])"
      by (simp add: write_header_def vec_write_all_def)
    then show ?thesis
      by (simp add: write_entries_def vec_write_rows file_text_def)
  qed
  show "write_entries vec_write_all [] es = Inr (lock_display \<lparr>lock_entries = es\<rparr>)" if "sorted (map entry_path es)"
    using that by (simp add: vec lock_display_eq sort_key_id_if_sorted)
  fix n out
  assume w: "write_entries slice_write_all ([], n) es = Inr out"
  have "foldl (\<lambda>r e. and_then r (\<lambda>out. write_row slice_write_all out e)) (Inl u) es \<noteq> Inr out" for u
    by (induction es) simp_all
  then obtain out' where h: "write_header slice_write_all ([], n) = Inr out'"
    using w unfolding write_entries_def by (metis old.sum.exhaust)
  with w have "fst out = fst out' @ concat (map row_text es)"
    unfolding write_entries_def by (intro slice.write_rows_append) simp
  then show "write_entries vec_write_all [] es = Inr (fst out)"
    using slice.write_header_appends [OF h] by (simp add: vec file_text_def)
qed

lemma serializers_agree_witness:
  "write_entries vec_write_all [] [] = (Inr (lock_display \<lparr>lock_entries = []\<rparr>) :: unit + str)"
proof -
  have "sorted (map entry_path ([] :: entry list))" by simp
  then show ?thesis using serializers_agree [of "[]"] by blast
qed

end
