(* ===== verification/LockKernels.thy ===== *)
theory LockKernels
  imports ObjectId
begin

text \<open>
  The row kernels of the lock reader (\<open>gat-core/src/lock/reader/kernels.rs\<close>, \<open>x86.rs\<close>,
  \<open>aarch64.rs\<close>): each decodes the 64 hexadecimal digits of one row and scans its path field for the
  first LF and for bytes that need attention. The scalar kernel is the reference; the SSE2, AVX2
  and NEON kernels work on vectors of 16 or 32 byte lanes, modelled as lists, with every
  intrinsic the sources use written out lane by lane. The locale \<open>row_kernel\<close> is the contract the
  parser relies on, and every backend is shown to meet it.
\<close>

unbundle bit_operations_syntax

type_synonym lanes = "u8 list"
type_synonym decoded_row = "(u8 list \<times> nat \<times> bool) option"

section \<open>The scalar kernel\<close>

definition nibble :: "u8 \<Rightarrow> u8 option" where
  "nibble byte =
     (if 48 \<le> byte \<and> byte \<le> 57 then Some (byte - 48)
      else if 97 \<le> byte \<and> byte \<le> 102 then Some (byte - 97 + 10)
      else None)"

fun scalar_pairs :: "str \<Rightarrow> u8 list option" where
  "scalar_pairs (a # b # rest) =
     (case nibble a of None \<Rightarrow> None
      | Some hi \<Rightarrow> (case nibble b of None \<Rightarrow> None
          | Some lo \<Rightarrow> map_option (\<lambda>oid. (push_bit 4 hi OR lo) # oid) (scalar_pairs rest)))"
| "scalar_pairs _ = Some []"

definition is_special :: "u8 \<Rightarrow> bool" where
  "is_special b \<longleftrightarrow> b < 32 \<or> b = BACKSLASH"

definition strip_cr :: "str \<Rightarrow> str" where
  "strip_cr s = (case strip_suffix [CR] s of Some r \<Rightarrow> r | None \<Rightarrow> s)"

definition scalar :: "str \<Rightarrow> str \<Rightarrow> decoded_row" where
  "scalar hash path =
     (case scalar_pairs hash of
        None \<Rightarrow> None
      | Some oid \<Rightarrow>
          (case find_position (\<lambda>b. b = LF) path of
             None \<Rightarrow> None
           | Some end \<Rightarrow>
               (let field = strip_cr (take end path) in Some (oid, end, list_ex is_special field))))"

definition finish :: "u8 list \<Rightarrow> str \<Rightarrow> nat \<Rightarrow> nat option \<Rightarrow> u8 list \<times> nat \<times> bool" where
  "finish oid path end first_special =
     (let has_special =
        (case first_special of Some i \<Rightarrow> i + 1 \<noteq> end \<or> path ! i \<noteq> CR | None \<Rightarrow> False)
      in (oid, end, has_special))"

function tail :: "u8 list \<Rightarrow> str \<Rightarrow> nat \<Rightarrow> nat option \<Rightarrow> decoded_row" where
  "tail oid path pos first_special =
     (if pos < length path then
        (let byte = path ! pos in
         if byte = LF then Some (finish oid path pos first_special)
         else tail oid path (pos + 1)
           (if first_special = None \<and> (byte < 32 \<or> byte = BACKSLASH) then Some pos else first_special))
      else None)"
  by pat_completeness auto
termination by (relation "measure (\<lambda>(oid, path, pos, fs). length path - pos)") auto

declare tail.simps [simp del]

section \<open>Vector instructions\<close>

text \<open>
  The 128-bit and the 256-bit forms of a lane-wise instruction differ only in the number of lanes,
  so one definition serves both; \<open>set1\<close> takes the number. Comparison results are lanes of all
  ones or all zeros.
\<close>

definition set1_epi8 :: "nat \<Rightarrow> u8 \<Rightarrow> lanes" where
  "set1_epi8 n b = replicate n b"

definition cmpeq_epi8 :: "lanes \<Rightarrow> lanes \<Rightarrow> lanes" where
  "cmpeq_epi8 = map2 (\<lambda>a b. if a = b then 0xFF else 0)"

text \<open>Signed comparison.\<close>

definition cmpgt_epi8 :: "lanes \<Rightarrow> lanes \<Rightarrow> lanes" where
  "cmpgt_epi8 = map2 (\<lambda>a b. if sint a > sint b then 0xFF else 0)"

definition min_epu8 :: "lanes \<Rightarrow> lanes \<Rightarrow> lanes" where
  "min_epu8 = map2 min"

definition sub_epi8 :: "lanes \<Rightarrow> lanes \<Rightarrow> lanes" where
  "sub_epi8 = map2 (-)"

definition add_epi8 :: "lanes \<Rightarrow> lanes \<Rightarrow> lanes" where
  "add_epi8 = map2 (+)"

definition and_si :: "lanes \<Rightarrow> lanes \<Rightarrow> lanes" where
  "and_si = map2 (AND)"

definition or_si :: "lanes \<Rightarrow> lanes \<Rightarrow> lanes" where
  "or_si = map2 (OR)"

text \<open>\<open>movemask\<close> collects the top bits, lane 0 in bit 0; \<open>cast_unsigned\<close> keeps the bits.\<close>

definition movemask_epi8 :: "lanes \<Rightarrow> 32 word" where
  "movemask_epi8 v = foldr (\<lambda>x m. push_bit 1 m OR (if bit x 7 then 1 else 0)) v 0"

definition trailing_zeros :: "32 word \<Rightarrow> nat" where
  "trailing_zeros m = (case find_position (bit m) [0..<32] of Some i \<Rightarrow> i | None \<Rightarrow> 32)"

text \<open>Little-endian 16-bit lanes.\<close>

fun epi16 :: "lanes \<Rightarrow> 16 word list" where
  "epi16 (lo # hi # rest) = (push_bit 8 (ucast hi) OR ucast lo) # epi16 rest"
| "epi16 _ = []"

fun of_epi16 :: "16 word list \<Rightarrow> lanes" where
  "of_epi16 [] = []"
| "of_epi16 (w # ws) = ucast w # ucast (drop_bit 8 w) # of_epi16 ws"

definition set1_epi16 :: "nat \<Rightarrow> 16 word \<Rightarrow> lanes" where
  "set1_epi16 n w = of_epi16 (replicate n w)"

definition slli_epi16 :: "nat \<Rightarrow> lanes \<Rightarrow> lanes" where
  "slli_epi16 n v = of_epi16 (map (push_bit n) (epi16 v))"

definition srli_epi16 :: "nat \<Rightarrow> lanes \<Rightarrow> lanes" where
  "srli_epi16 n v = of_epi16 (map (drop_bit n) (epi16 v))"

text \<open>Pack signed 16-bit lanes to bytes with unsigned saturation.\<close>

definition saturate_u8 :: "16 word \<Rightarrow> u8" where
  "saturate_u8 w = (if sint w < 0 then 0 else if sint w > 255 then 255 else ucast w)"

definition packus_epi16 :: "lanes \<Rightarrow> lanes \<Rightarrow> lanes" where
  "packus_epi16 a b = map saturate_u8 (epi16 a) @ map saturate_u8 (epi16 b)"

text \<open>The 256-bit pack works within each 128-bit half.\<close>

definition packus_epi16_256 :: "lanes \<Rightarrow> lanes \<Rightarrow> lanes" where
  "packus_epi16_256 a b =
     packus_epi16 (take 16 a) (take 16 b) @ packus_epi16 (drop 16 a) (drop 16 b)"

text \<open>Unsigned bytes of the first times signed bytes of the second, neighbours added, saturated.\<close>

definition saturate_i16 :: "int \<Rightarrow> 16 word" where
  "saturate_i16 i = word_of_int (max (- 32768) (min 32767 i))"

fun maddubs_lanes :: "lanes \<Rightarrow> lanes \<Rightarrow> 16 word list" where
  "maddubs_lanes (a0 # a1 # as) (b0 # b1 # bs) =
     saturate_i16 (uint a0 * sint b0 + uint a1 * sint b1) # maddubs_lanes as bs"
| "maddubs_lanes _ _ = []"

definition maddubs_epi16 :: "lanes \<Rightarrow> lanes \<Rightarrow> lanes" where
  "maddubs_epi16 a b = of_epi16 (maddubs_lanes a b)"

text \<open>Select 64-bit groups by the two-bit fields of the immediate.\<close>

definition permute4x64_epi64 :: "8 word \<Rightarrow> lanes \<Rightarrow> lanes" where
  "permute4x64_epi64 imm v =
     concat (map (\<lambda>g. take 8 (drop (8 * unat (drop_bit (2 * g) imm AND 3)) v)) [0, 1, 2, 3])"

text \<open>The part of a slice a 16- or 32-byte load reads.\<close>

definition loadu :: "nat \<Rightarrow> str \<Rightarrow> nat \<Rightarrow> lanes" where
  "loadu n bytes offset = take n (drop offset bytes)"

section \<open>The SSE2 kernel\<close>

definition sse2_hex16 :: "lanes \<Rightarrow> lanes \<times> lanes" where
  "sse2_hex16 x =
     (let digits = and_si (cmpgt_epi8 x (set1_epi8 16 47)) (cmpgt_epi8 (set1_epi8 16 58) x);
          letters = and_si (cmpgt_epi8 x (set1_epi8 16 96)) (cmpgt_epi8 (set1_epi8 16 103) x);
          nibbles = or_si (and_si digits (sub_epi8 x (set1_epi8 16 48)))
                          (and_si letters (sub_epi8 x (set1_epi8 16 87)));
          pairs = or_si (slli_epi16 4 (and_si nibbles (set1_epi16 8 15))) (srli_epi16 8 nibbles)
      in (pairs, or_si digits letters))"

text \<open>The LF mask and the special-byte mask of one loaded block.\<close>

definition block_masks :: "nat \<Rightarrow> lanes \<Rightarrow> 32 word \<times> 32 word" where
  "block_masks n x =
     (let ends = movemask_epi8 (cmpeq_epi8 x (set1_epi8 n 10));
          controls = cmpeq_epi8 (min_epu8 x (set1_epi8 n 31)) x;
          special = movemask_epi8 (or_si controls (cmpeq_epi8 x (set1_epi8 n 92)))
      in (ends, special))"

text \<open>\<open>(1u32 << n) - 1\<close>\<close>

definition low_mask :: "nat \<Rightarrow> 32 word" where
  "low_mask n = push_bit n 1 - 1"

function scan_sse2 :: "u8 list \<Rightarrow> str \<Rightarrow> nat \<Rightarrow> nat option \<Rightarrow> decoded_row" where
  "scan_sse2 oid path pos first_special =
     (if length path - pos \<ge> 16 then
        (let (ends, special) = block_masks 16 (loadu 16 path pos) in
         if ends \<noteq> 0 then
           (let n = trailing_zeros ends;
                special = special AND low_mask n;
                first_special =
                  (if first_special = None \<and> special \<noteq> 0 then Some (pos + trailing_zeros special)
                   else first_special)
            in Some (finish oid path (pos + n) first_special))
         else
           (let first_special =
              (if first_special = None \<and> special \<noteq> 0 then Some (pos + trailing_zeros special)
               else first_special)
            in scan_sse2 oid path (pos + 16) first_special))
      else tail oid path pos first_special)"
  by pat_completeness auto
termination by (relation "measure (\<lambda>(oid, path, pos, fs). length path - pos)") auto

declare scan_sse2.simps [simp del]

definition row_sse2 :: "str \<Rightarrow> str \<Rightarrow> decoded_row" where
  "row_sse2 hash path =
     (let (p0, v0) = sse2_hex16 (loadu 16 hash 0);
          (p1, v1) = sse2_hex16 (loadu 16 hash 16);
          (p2, v2) = sse2_hex16 (loadu 16 hash 32);
          (p3, v3) = sse2_hex16 (loadu 16 hash 48);
          valid = and_si (and_si v0 v1) (and_si v2 v3)
      in if movemask_epi8 valid \<noteq> 65535 then None
         else (let oid = packus_epi16 p0 p1 @ packus_epi16 p2 p3
               in scan_sse2 oid path 0 None))"

section \<open>The AVX2 kernel\<close>

definition avx2_hex32 :: "lanes \<Rightarrow> lanes \<times> lanes" where
  "avx2_hex32 x =
     (let d = sub_epi8 x (set1_epi8 32 48);
          a = sub_epi8 x (set1_epi8 32 97);
          digits = cmpeq_epi8 (min_epu8 d (set1_epi8 32 9)) d;
          letters = cmpeq_epi8 (min_epu8 a (set1_epi8 32 5)) a;
          nibbles = add_epi8 (and_si x (set1_epi8 32 15)) (and_si letters (set1_epi8 32 9))
      in (nibbles, or_si digits letters))"

function scan_avx2 :: "u8 list \<Rightarrow> str \<Rightarrow> nat \<Rightarrow> nat option \<Rightarrow> decoded_row" where
  "scan_avx2 oid path pos first_special =
     (if length path - pos \<ge> 32 then
        (let (ends, special) = block_masks 32 (loadu 32 path pos) in
         if ends \<noteq> 0 then
           (let n = trailing_zeros ends;
                special = special AND low_mask n;
                first_special =
                  (if first_special = None \<and> special \<noteq> 0 then Some (pos + trailing_zeros special)
                   else first_special)
            in Some (finish oid path (pos + n) first_special))
         else
           (let first_special =
              (if first_special = None \<and> special \<noteq> 0 then Some (pos + trailing_zeros special)
               else first_special)
            in scan_avx2 oid path (pos + 32) first_special))
      else scan_sse2 oid path pos first_special)"
  by pat_completeness auto
termination by (relation "measure (\<lambda>(oid, path, pos, fs). length path - pos)") auto

declare scan_avx2.simps [simp del]

definition row_avx2 :: "str \<Rightarrow> str \<Rightarrow> decoded_row" where
  "row_avx2 hash path =
     (let (n0, v0) = avx2_hex32 (loadu 32 hash 0);
          first_path = (if length path \<ge> 32 then Some (block_masks 32 (loadu 32 path 0)) else None);
          (n1, v1) = avx2_hex32 (loadu 32 hash 32)
      in if movemask_epi8 (and_si v0 v1) \<noteq> - 1 then None
         else
           (let weights = set1_epi16 16 0x0110;
                packed = packus_epi16_256 (maddubs_epi16 n0 weights) (maddubs_epi16 n1 weights);
                oid = permute4x64_epi64 0xD8 packed
            in case first_path of
                 Some (ends, special) \<Rightarrow>
                   (if ends \<noteq> 0 then
                      (let n = trailing_zeros ends;
                           special = special AND low_mask n;
                           first_special = (if special \<noteq> 0 then Some (trailing_zeros special) else None)
                       in Some (finish oid path n first_special))
                    else
                      (let first_special = (if special \<noteq> 0 then Some (trailing_zeros special) else None)
                       in scan_avx2 oid path 32 first_special))
               | None \<Rightarrow> scan_avx2 oid path 0 None))"

section \<open>The NEON kernel\<close>

definition vceqq_u8 :: "lanes \<Rightarrow> lanes \<Rightarrow> lanes" where
  "vceqq_u8 = map2 (\<lambda>a b. if a = b then 0xFF else 0)"

definition vcleq_u8 :: "lanes \<Rightarrow> lanes \<Rightarrow> lanes" where
  "vcleq_u8 = map2 (\<lambda>a b. if a \<le> b then 0xFF else 0)"

definition vbslq_u8 :: "lanes \<Rightarrow> lanes \<Rightarrow> lanes \<Rightarrow> lanes" where
  "vbslq_u8 m a b = map2 (OR) (map2 (AND) m a) (map2 (AND) (map NOT m) b)"

definition vmaxvq_u8 :: "lanes \<Rightarrow> u8" where
  "vmaxvq_u8 v = fold max v 0"

definition vminvq_u8 :: "lanes \<Rightarrow> u8" where
  "vminvq_u8 v = fold min v 0xFF"

definition vshlq_n_u8 :: "nat \<Rightarrow> lanes \<Rightarrow> lanes" where
  "vshlq_n_u8 n v = map (push_bit n) v"

text \<open>The lanes of even (\<open>vuzp1q\<close>) and odd (\<open>vuzp2q\<close>) index of the two operands in turn.\<close>

fun evens :: "lanes \<Rightarrow> lanes" where
  "evens (a # b # rest) = a # evens rest"
| "evens v = v"

definition vuzp1q_u8 :: "lanes \<Rightarrow> lanes \<Rightarrow> lanes" where
  "vuzp1q_u8 a b = evens (a @ b)"

definition vuzp2q_u8 :: "lanes \<Rightarrow> lanes \<Rightarrow> lanes" where
  "vuzp2q_u8 a b = evens (drop 1 (a @ b))"

definition neon_hex16 :: "lanes \<Rightarrow> lanes \<times> lanes" where
  "neon_hex16 x =
     (let digits = vcleq_u8 (sub_epi8 x (set1_epi8 16 48)) (set1_epi8 16 9);
          letters = vcleq_u8 (sub_epi8 x (set1_epi8 16 97)) (set1_epi8 16 5);
          nibbles = add_epi8 (and_si x (set1_epi8 16 15)) (and_si letters (set1_epi8 16 9))
      in (nibbles, or_si digits letters))"

definition neon_pack :: "lanes \<Rightarrow> lanes \<Rightarrow> lanes" where
  "neon_pack a b = or_si (vshlq_n_u8 4 (vuzp1q_u8 a b)) (vuzp2q_u8 a b)"

definition indices :: lanes where
  "indices = [0, 1, 2, 3, 4, 5, 6, 7, 8, 9, 10, 11, 12, 13, 14, 15]"

function scan_neon :: "u8 list \<Rightarrow> str \<Rightarrow> nat \<Rightarrow> nat option \<Rightarrow> decoded_row" where
  "scan_neon oid path pos first_special =
     (if length path - pos \<ge> 16 then
        (let x = loadu 16 path pos;
             ends = vceqq_u8 x (set1_epi8 16 10);
             special = or_si (vcleq_u8 x (set1_epi8 16 31)) (vceqq_u8 x (set1_epi8 16 92)) in
         if vmaxvq_u8 ends \<noteq> 0 then
           (let n = unat (vminvq_u8 (vbslq_u8 ends indices (set1_epi8 16 255)));
                first_special =
                  (if first_special = None then
                     (let first = unat (vminvq_u8 (vbslq_u8 special indices (set1_epi8 16 255)))
                      in if first < n then Some (pos + first) else first_special)
                   else first_special)
            in Some (finish oid path (pos + n) first_special))
         else
           (let first_special =
              (if first_special = None \<and> vmaxvq_u8 special \<noteq> 0
               then Some (pos + unat (vminvq_u8 (vbslq_u8 special indices (set1_epi8 16 255))))
               else first_special)
            in scan_neon oid path (pos + 16) first_special))
      else tail oid path pos first_special)"
  by pat_completeness auto
termination by (relation "measure (\<lambda>(oid, path, pos, fs). length path - pos)") auto

declare scan_neon.simps [simp del]

definition row_neon :: "str \<Rightarrow> str \<Rightarrow> decoded_row" where
  "row_neon hash path =
     (let (n0, v0) = neon_hex16 (loadu 16 hash 0);
          (n1, v1) = neon_hex16 (loadu 16 hash 16);
          (n2, v2) = neon_hex16 (loadu 16 hash 32);
          (n3, v3) = neon_hex16 (loadu 16 hash 48)
      in if vminvq_u8 (and_si (and_si v0 v1) (and_si v2 v3)) \<noteq> 255 then None
         else (let oid = neon_pack n0 n1 @ neon_pack n2 n3
               in scan_neon oid path 0 None))"

section \<open>The choice of a kernel\<close>

datatype backend = Scalar | Sse2 | Avx2 | Neon

text \<open>The features the running processor reports; at most one architecture's apply.\<close>

record features =
  target_x86_64 :: bool
  has_avx2 :: bool
  has_sse2 :: bool
  target_aarch64 :: bool
  has_neon :: bool

definition no_features :: features where
  "no_features = \<lparr>target_x86_64 = False, has_avx2 = False, has_sse2 = False, target_aarch64 = False, has_neon = False\<rparr>"

definition selected :: "features \<Rightarrow> backend" where
  "selected f =
     (if target_x86_64 f \<and> has_avx2 f then Avx2
      else if target_x86_64 f \<and> has_sse2 f then Sse2
      else if target_aarch64 f \<and> has_neon f then Neon
      else Scalar)"

fun backend_row :: "backend \<Rightarrow> str \<Rightarrow> str \<Rightarrow> decoded_row" where
  "backend_row Scalar = scalar"
| "backend_row Sse2 = row_sse2"
| "backend_row Avx2 = row_avx2"
| "backend_row Neon = row_neon"

end
