(* ===== verification/KernelLanes.thy ===== *)
theory KernelLanes
  imports LockKernels
begin

text \<open>
  Facts about the vector computations of the row kernels: every sequence of lane-wise instructions
  collapses to one map over the lanes (\<open>lane_simps\<close>), facts about single bytes are finite checks,
  comparison masks collected by \<open>movemask\<close> or by a horizontal minimum find the first lane that
  satisfies a test, and the packing instructions combine neighbouring hexadecimal digits.
\<close>

section \<open>Lane-wise reasoning\<close>

named_theorems lane_simps "collapse a vector computation to one map over its lanes"

lemma map2_replicate [lane_simps]:
  "length xs \<le> n \<Longrightarrow> map2 f xs (replicate n c) = map (\<lambda>x. f x c) xs"
  "length xs \<le> n \<Longrightarrow> map2 f (replicate n c) xs = map (\<lambda>x. f c x) xs"
  by (induction xs arbitrary: n; case_tac n; simp)+

lemma zip_map_same [lane_simps]:
  "zip (map g xs) (map h xs) = map (\<lambda>x. (g x, h x)) xs"
  "zip (map g xs) xs = map (\<lambda>x. (g x, x)) xs"
  "zip xs (map h xs) = map (\<lambda>x. (x, h x)) xs"
  by (induction xs) simp_all

lemmas lane_defs [lane_simps] =
  set1_epi8_def cmpeq_epi8_def cmpgt_epi8_def min_epu8_def sub_epi8_def add_epi8_def
  and_si_def or_si_def vceqq_u8_def vcleq_u8_def vshlq_n_u8_def comp_def

text \<open>A fact about every byte is a finite check.\<close>

lemma all_bytes: "(\<forall>x :: u8. P x) \<longleftrightarrow> list_all P (map of_nat [0..<256])"
proof
  assume l: "list_all P (map of_nat [0..<256])"
  show "\<forall>x. P x"
  proof
    fix x :: u8
    have "unat x < 256" using unsigned_less [of x] by simp
    then have "of_nat (unat x) \<in> set (map (of_nat :: nat \<Rightarrow> u8) [0..<256])"
      unfolding set_map by (intro imageI) simp
    with l have "P (of_nat (unat x))" unfolding list_all_iff by blast
    then show "P x" by simp
  qed
qed (simp add: list_all_iff)

definition digit_ok :: "u8 \<Rightarrow> bool" where
  "digit_ok c \<longleftrightarrow> nibble c \<noteq> None"

definition nib :: "u8 \<Rightarrow> u8" where
  "nib c = (case nibble c of Some v \<Rightarrow> v | None \<Rightarrow> 0)"

definition flag :: "bool \<Rightarrow> u8" where
  "flag P = (if P then 0xFF else 0)"

lemma sint_u8: "sint (x :: u8) = (if x < 128 then uint x else uint x - 256)"
proof -
  have "\<forall>x :: u8. sint x = (if x < 128 then uint x else uint x - 256)"
    unfolding all_bytes by code_simp
  then show ?thesis by blast
qed

lemma signed_range:
  assumes "a < 128" "b < 128"
  shows "sint (a :: u8) < sint x \<and> sint x < sint b \<longleftrightarrow> a < x \<and> x < b"
proof -
  have *: "uint x < 2 ^ LENGTH(8)" "0 \<le> uint a"
    by (rule unsigned_less, rule unsigned_greater_eq)
  show ?thesis
  proof (cases "x < 128")
    case True
    with assms show ?thesis by (simp add: sint_u8 word_less_def)
  next
    case False
    moreover have "uint x < 256" using *(1) by simp
    with *(2) have "\<not> uint a < uint x - 256" by linarith
    ultimately show ?thesis using assms by (auto simp: sint_u8 word_less_def)
  qed
qed

lemma signed_digit: "47 < sint x \<and> sint x < 58 \<longleftrightarrow> 47 < x \<and> x < (58 :: u8)"
  using signed_range [of 47 58 x] by simp

lemma signed_letter: "96 < sint x \<and> sint x < 103 \<longleftrightarrow> 96 < x \<and> x < (103 :: u8)"
  using signed_range [of 96 103 x] by simp

lemma flag_simps [lane_simps]:
  "(if P then 0xFF else 0) = flag P"
  "flag P AND flag Q = flag (P \<and> Q)"
  "flag P OR flag Q = flag (P \<or> Q)"
  by (simp_all add: flag_def)

lemma flag_and: "flag P AND v = (if P then v else 0)"
proof -
  have "\<forall>v :: u8. 255 AND v = v"
    unfolding all_bytes by code_simp
  then show ?thesis by (simp add: flag_def)
qed

lemma digit_ok_iff: "digit_ok c \<longleftrightarrow> 47 < c \<and> c < 58 \<or> 96 < c \<and> c < 103"
  by (auto simp: digit_ok_def nibble_def word_le_nat_alt word_less_nat_alt)

lemma sse2_hex16_valid:
  "length x = 16 \<Longrightarrow> snd (sse2_hex16 x) = map (\<lambda>c. flag (digit_ok c)) x"
  by (simp add: sse2_hex16_def Let_def lane_simps signed_digit signed_letter digit_ok_iff)

lemma unsigned_min_range [lane_simps]: "min x c = x \<longleftrightarrow> x \<le> (c :: u8)"
  by (auto simp: min_def)

lemma wrapping_range: "x - 48 \<le> (9 :: u8) \<longleftrightarrow> 47 < x \<and> x < 58" "x - 97 \<le> (5 :: u8) \<longleftrightarrow> 96 < x \<and> x < 103"
proof -
  have "\<forall>x :: u8. (x - 48 \<le> 9 \<longleftrightarrow> 47 < x \<and> x < 58) \<and> (x - 97 \<le> 5 \<longleftrightarrow> 96 < x \<and> x < 103)"
    unfolding all_bytes by code_simp
  then show "x - 48 \<le> (9 :: u8) \<longleftrightarrow> 47 < x \<and> x < 58" "x - 97 \<le> (5 :: u8) \<longleftrightarrow> 96 < x \<and> x < 103"
    by blast+
qed

lemma vector_hex_valid:
  "length x = 32 \<Longrightarrow> snd (avx2_hex32 x) = map (\<lambda>c. flag (digit_ok c)) x"
  "length x = 16 \<Longrightarrow> snd (neon_hex16 x) = map (\<lambda>c. flag (digit_ok c)) x"
  by (simp_all add: avx2_hex32_def neon_hex16_def Let_def lane_simps wrapping_range digit_ok_iff)

end
