(* ===== verification/KernelDigits.thy ===== *)
theory KernelDigits
  imports KernelLanes
begin

text \<open>
  Digits: the vector kernels recognise exactly the lowercase hexadecimal digits the scalar kernel
  accepts, and their packing sequences (shifts and saturation on SSE2, multiply-add and a group
  permutation on AVX2, unzipping on NEON) combine neighbouring digits into the same bytes.
\<close>

section \<open>Decoding digits\<close>

fun pair_bytes :: "u8 list \<Rightarrow> u8 list" where
  "pair_bytes (a # b # rest) = (push_bit 4 a OR b) # pair_bytes rest"
| "pair_bytes _ = []"

lemma even_list_induct [consumes 1, case_names Nil Cons]:
  assumes "even (length xs)" "P []" "\<And>a b xs. even (length xs) \<Longrightarrow> P xs \<Longrightarrow> P (a # b # xs)"
  shows "P xs"
  using assms(1) by (induction xs rule: induct_list012) (auto intro: assms(2,3))

lemma nibble_Some: "nibble c = Some v \<Longrightarrow> nib c = v \<and> digit_ok c"
  by (simp add: nib_def digit_ok_def)

lemma nibble_None: "nibble c = None \<Longrightarrow> \<not> digit_ok c"
  by (simp add: digit_ok_def)

lemma scalar_pairs_eq:
  "even (length h) \<Longrightarrow>
     scalar_pairs h = (if list_all digit_ok h then Some (pair_bytes (map nib h)) else None)"
  by (induction h rule: even_list_induct) (auto dest: nibble_Some nibble_None split: option.splits)

lemma pair_bytes_append:
  "even (length xs) \<Longrightarrow> pair_bytes (xs @ ys) = pair_bytes xs @ pair_bytes ys"
  by (induction xs rule: even_list_induct) simp_all

lemma length_pair_bytes: "even (length xs) \<Longrightarrow> length (pair_bytes xs) = length xs div 2"
  by (induction xs rule: even_list_induct) simp_all

lemma nib_bound [simp]: "nib c < 16"
proof -
  have "\<forall>c :: u8. nib c < 16" unfolding all_bytes by code_simp
  then show ?thesis by blast
qed

lemma sse2_nib: "(if 47 < c \<and> c < 58 then c - 48 else 0) OR (if 96 < c \<and> c < 103 then c - 87 else 0) = nib c"
proof -
  have "\<forall>c. (if 47 < c \<and> c < 58 then c - 48 else 0) OR (if 96 < c \<and> c < 103 then c - 87 else 0) = nib c"
    unfolding all_bytes by code_simp
  then show ?thesis by blast
qed

lemma mask_nib: "digit_ok c \<Longrightarrow> (c AND 15) + (if 96 < c \<and> c < 103 then 9 else 0) = nib c"
proof -
  have "\<forall>c. digit_ok c \<longrightarrow> (c AND 15) + (if 96 < c \<and> c < 103 then 9 else 0) = nib c"
    unfolding all_bytes by code_simp
  then show "digit_ok c \<Longrightarrow> ?thesis" by blast
qed

lemma vector_hex_nibbles:
  "length x = 32 \<Longrightarrow> list_all digit_ok x \<Longrightarrow> fst (avx2_hex32 x) = map nib x"
  "length x = 16 \<Longrightarrow> list_all digit_ok x \<Longrightarrow> fst (neon_hex16 x) = map nib x"
  by (simp_all add: avx2_hex32_def neon_hex16_def Let_def lane_simps wrapping_range flag_and
      mask_nib list_all_iff)

section \<open>Packing digit pairs\<close>

lemma epi16_of_epi16 [simp]: "epi16 (of_epi16 ws) = ws"
proof (induction ws)
  case (Cons w ws)
  have "push_bit 8 (ucast (ucast (drop_bit 8 w) :: u8)) OR ucast (ucast w :: u8) = (w :: 16 word)"
    by (rule bit_word_eqI) (auto simp: bit_simps)
  with Cons show ?case by simp
qed simp

lemma length_of_epi16 [simp]: "length (of_epi16 ws) = 2 * length ws"
  by (induction ws) simp_all

lemma or_of_epi16: "length us = length vs \<Longrightarrow> or_si (of_epi16 us) (of_epi16 vs) = of_epi16 (map2 (OR) us vs)"
proof (induction us vs rule: list_induct2)
  case (Cons u us v vs)
  have "(ucast u :: u8) OR ucast v = ucast (u OR v)"
    "(ucast (drop_bit 8 u) :: u8) OR ucast (drop_bit 8 v) = ucast (drop_bit 8 (u OR v))"
    by (rule bit_word_eqI; simp add: bit_simps; blast)+
  with Cons show ?case by (simp add: or_si_def)
qed (simp add: or_si_def)

lemma epi16_and: "length ns = 2 * length ws \<Longrightarrow> epi16 (and_si ns (of_epi16 ws)) = map2 (AND) (epi16 ns) ws"
proof (induction ws arbitrary: ns)
  case (Cons w ws)
  then obtain a b ns' where ns: "ns = a # b # ns'" "length ns' = 2 * length ws"
    by (auto simp: length_Suc_conv numeral_2_eq_2)
  have "push_bit 8 (ucast (b AND ucast (drop_bit 8 w))) OR ucast (a AND ucast w)
      = (push_bit 8 (ucast b) OR ucast a) AND (w :: 16 word)" for a b :: u8
    by (rule bit_word_eqI) (auto simp: bit_simps dest: bit_imp_le_length)
  with ns Cons.IH show ?case by (simp add: and_si_def)
qed (simp add: and_si_def)

lemma all_nibbles: "(\<forall>a :: u8. a < 16 \<longrightarrow> P a) \<longleftrightarrow> list_all P (map of_nat [0..<16])"
proof -
  have "{a :: u8. a < 16} = of_nat ` {0..<16}"
    by (auto simp: image_iff elim!: nibble_cases) (simp add: word_less_nat_alt unat_of_nat)
  then have "(\<forall>a \<in> {a :: u8. a < 16}. P a) \<longleftrightarrow> (\<forall>a \<in> of_nat ` {0..<16}. P a)"
    by (rule arg_cong)
  then show ?thesis by (simp add: list_all_iff)
qed

definition sse2_word :: "16 word \<Rightarrow> u8" where
  "sse2_word w = saturate_u8 (push_bit 4 (w AND 15) OR drop_bit 8 w)"

lemma sse2_pair:
  assumes "a < 16" "b < 16"
  shows "sse2_word (push_bit 8 (ucast b) OR ucast a) = push_bit 4 a OR (b :: u8)"
proof -
  have "\<forall>a :: u8. a < 16 \<longrightarrow> (\<forall>b :: u8. b < 16 \<longrightarrow>
      sse2_word (push_bit 8 (ucast b) OR ucast a) = push_bit 4 a OR b)"
    unfolding all_nibbles by code_simp
  with assms show ?thesis by blast
qed

lemma avx2_pair:
  assumes "a < 16" "b < 16"
  shows "saturate_u8 (saturate_i16 (uint a * sint (16 :: u8) + uint b * sint (1 :: u8))) = push_bit 4 a OR (b :: u8)"
proof -
  have "\<forall>a :: u8. a < 16 \<longrightarrow> (\<forall>b :: u8. b < 16 \<longrightarrow>
      saturate_u8 (saturate_i16 (uint a * sint (16 :: u8) + uint b * sint (1 :: u8))) = push_bit 4 a OR b)"
    unfolding all_nibbles by code_simp
  with assms show ?thesis by blast
qed

text \<open>SSE2: shift the even lanes, move the odd lanes down, saturate.\<close>

lemma epi16_pairs:
  "even (length ns) \<Longrightarrow> list_all (\<lambda>v. v < 16) ns \<Longrightarrow>
     map sse2_word (epi16 ns) = pair_bytes ns"
  by (induction ns rule: even_list_induct) (simp_all add: sse2_pair)

lemma length_epi16: "length (epi16 v) = length v div 2"
  by (induction v rule: epi16.induct) simp_all

lemma sse2_hex16_pairs:
  assumes "length x = 16"
  shows "map saturate_u8 (epi16 (fst (sse2_hex16 x))) = pair_bytes (map nib x)"
proof -
  let ?ns = "map nib x"
  have "or_si (and_si (and_si (cmpgt_epi8 x (set1_epi8 16 47)) (cmpgt_epi8 (set1_epi8 16 58) x)) (sub_epi8 x (set1_epi8 16 48)))
      (and_si (and_si (cmpgt_epi8 x (set1_epi8 16 96)) (cmpgt_epi8 (set1_epi8 16 103) x)) (sub_epi8 x (set1_epi8 16 87))) = ?ns"
    using assms
    by (simp add: lane_simps signed_digit signed_letter) (simp add: flag_and sse2_nib)
  then have "fst (sse2_hex16 x) = or_si (slli_epi16 4 (and_si ?ns (set1_epi16 8 15))) (srli_epi16 8 ?ns)"
    by (simp add: sse2_hex16_def Let_def)
  also have "\<dots> = of_epi16 (map (\<lambda>w. push_bit 4 (w AND 15) OR drop_bit 8 w) (epi16 ?ns))"
    using assms by (simp add: slli_epi16_def srli_epi16_def set1_epi16_def epi16_and or_of_epi16
        length_epi16 map2_replicate zip_map_same comp_def)
  finally show ?thesis
    using epi16_pairs [of ?ns] assms by (simp add: comp_def list_all_iff sse2_word_def [abs_def])
qed

text \<open>AVX2: multiply and add neighbours, pack within halves, restore the group order.\<close>

lemma maddubs_pairs:
  "even (length ns) \<Longrightarrow> length ns = 2 * n \<Longrightarrow> list_all (\<lambda>v. v < 16) ns \<Longrightarrow>
     map saturate_u8 (maddubs_lanes ns (set1_epi16 n 0x0110)) = pair_bytes ns"
proof (induction ns arbitrary: n rule: even_list_induct)
  case (Cons a b ns)
  then obtain m where m: "n = Suc m" by (cases n) auto
  have "ucast (272 :: 16 word) = (16 :: u8)" "ucast (drop_bit 8 (272 :: 16 word)) = (1 :: u8)"
    by code_simp+
  with Cons m show ?case by (simp add: set1_epi16_def avx2_pair [simplified])
qed simp

lemma take_of_epi16: "take (2 * n) (of_epi16 ws) = of_epi16 (take n ws)"
  "drop (2 * n) (of_epi16 ws) = of_epi16 (drop n ws)"
  by (induction ws arbitrary: n; case_tac n; simp)+

lemma avx2_pack:
  assumes "length n0 = 32" "length n1 = 32" "list_all (\<lambda>v. v < 16) n0" "list_all (\<lambda>v. v < 16) n1"
  shows "permute4x64_epi64 0xD8 (packus_epi16_256 (maddubs_epi16 n0 (set1_epi16 16 0x0110))
      (maddubs_epi16 n1 (set1_epi16 16 0x0110))) = pair_bytes n0 @ pair_bytes n1"
proof -
  let ?P0 = "pair_bytes n0" and ?P1 = "pair_bytes n1"
  have p: "map saturate_u8 (maddubs_lanes n0 (set1_epi16 16 0x0110)) = ?P0"
    "map saturate_u8 (maddubs_lanes n1 (set1_epi16 16 0x0110)) = ?P1"
    using assms by (simp_all add: maddubs_pairs)
  have l: "length ?P0 = 16" "length ?P1 = 16"
    using assms by (simp_all add: length_pair_bytes)
  have "packus_epi16_256 (maddubs_epi16 n0 (set1_epi16 16 0x0110)) (maddubs_epi16 n1 (set1_epi16 16 0x0110))
      = take 8 ?P0 @ take 8 ?P1 @ drop 8 ?P0 @ drop 8 ?P1" (is "?packed = _")
    using take_of_epi16 [of 8] by (simp add: packus_epi16_256_def packus_epi16_def maddubs_epi16_def
        flip: p take_map drop_map)
  moreover have "unat (drop_bit 0 (0xD8 :: u8) AND 3) = 0" "unat (drop_bit 2 (0xD8 :: u8) AND 3) = 2"
    "unat (drop_bit 4 (0xD8 :: u8) AND 3) = 1" "unat (drop_bit 6 (0xD8 :: u8) AND 3) = 3"
    by code_simp+
  ultimately show ?thesis
    using l by (simp add: permute4x64_epi64_def)
qed

text \<open>NEON: even lanes shifted, odd lanes below.\<close>

lemma neon_pairs:
  "even (length ns) \<Longrightarrow> or_si (vshlq_n_u8 4 (evens ns)) (evens (drop 1 ns)) = pair_bytes ns"
proof (induction ns rule: even_list_induct)
  case (Cons a b ns)
  have "evens (b # ns) = b # evens (drop 1 ns)" by (cases ns) simp_all
  with Cons show ?case by (simp add: or_si_def vshlq_n_u8_def)
qed (simp add: or_si_def vshlq_n_u8_def)

lemma neon_pack_eq: "even (length (a @ b)) \<Longrightarrow> neon_pack a b = pair_bytes (a @ b)"
  using neon_pairs [of "a @ b"] by (simp add: neon_pack_def vuzp1q_u8_def vuzp2q_u8_def)

end
