(* ===== verification/KernelCorrect.thy ===== *)
theory KernelCorrect
  imports KernelDigits
begin

text \<open>
  Every row kernel computes what the scalar kernel computes. The scan lemmas compare one block of a
  vector kernel with as many steps of the byte loop; the locale \<open>row_kernel\<close> is the contract the
  parser relies on, interpreted on all four backends.
\<close>

section \<open>Masks find the first lane\<close>

lemma movemask_bit_0: "bit (movemask_epi8 (x # v)) 0 \<longleftrightarrow> bit x 7"
proof -
  have m: "movemask_epi8 (x # v) = push_bit 1 (movemask_epi8 v) OR (if bit x 7 then 1 else 0)"
    by (simp add: movemask_epi8_def)
  show ?thesis unfolding m bit_or_iff bit_push_bit_iff by simp
qed

lemma movemask_bit_Suc: "bit (movemask_epi8 (x # v)) (Suc j) \<longleftrightarrow> Suc j < 32 \<and> bit (movemask_epi8 v) j"
proof -
  have m: "movemask_epi8 (x # v) = push_bit 1 (movemask_epi8 v) OR (if bit x 7 then 1 else 0)"
    by (simp add: movemask_epi8_def)
  show ?thesis unfolding m bit_or_iff bit_push_bit_iff by (cases "bit x 7") (simp_all only: bit_1_iff if_True if_False bit_0_eq, simp_all)
qed

lemma bit_movemask:
  "length v \<le> 32 \<Longrightarrow> bit (movemask_epi8 v) i \<longleftrightarrow> i < length v \<and> bit (v ! i) 7"
proof (induction v arbitrary: i)
  case (Cons x v)
  show ?case
  proof (cases i)
    case 0
    then show ?thesis by (simp only: movemask_bit_0 nth_Cons_0 list.size) simp
  next
    case (Suc j)
    have "j < length v \<Longrightarrow> Suc j < 32" using Cons.prems by simp
    then show ?thesis using Cons.IH [of j] Cons.prems unfolding Suc movemask_bit_Suc by auto
  qed
qed (simp add: movemask_epi8_def)

lemma bit_flag [simp]: "bit (flag P) 7 \<longleftrightarrow> P"
proof -
  have "bit (255 :: u8) 7" by code_simp
  then show ?thesis by (simp add: flag_def)
qed

lemma find_position_cong_nth:
  "length ys \<le> n \<Longrightarrow> (\<And>i. i < n \<Longrightarrow> Q i \<longleftrightarrow> i < length ys \<and> P (ys ! i)) \<Longrightarrow>
     find_position Q [0..<n] = find_position P ys"
proof (cases "find_position P ys")
  case None
  assume "length ys \<le> n" "\<And>i. i < n \<Longrightarrow> Q i \<longleftrightarrow> i < length ys \<and> P (ys ! i)"
  with None have "\<forall>i \<in> set [0..<n]. \<not> Q i" by (auto simp: find_position_None)
  with None show ?thesis by (metis find_position_None)
next
  case (Some k)
  assume n: "length ys \<le> n" and Q: "\<And>i. i < n \<Longrightarrow> Q i \<longleftrightarrow> i < length ys \<and> P (ys ! i)"
  from Some have k: "k < length ys" "P (ys ! k)" "\<forall>x \<in> set (take k ys). \<not> P x"
    by (auto simp: find_position_Some)
  have "\<not> Q i" if "i < k" for i
  proof -
    have "ys ! i \<in> set (take k ys)"
      using that k by (auto simp: in_set_conv_nth)
    with that k n Q [of i] show ?thesis by auto
  qed
  then have "find_position Q [0..<n] = Some k"
    using k n Q [of k] by (auto simp: find_position_Some take_upt)
  with Some show ?thesis by simp
qed

lemma trailing_zeros_movemask:
  assumes "length xs \<le> 32"
  shows "find_position (bit (movemask_epi8 (map (\<lambda>x. flag (P x)) xs))) [0..<32] = find_position P xs"
  using assms by (intro find_position_cong_nth) (auto simp: bit_movemask)

lemma trailing_zeros_movemask_below:
  assumes "length xs \<le> 32" "n < 32"
  shows "find_position (bit (movemask_epi8 (map (\<lambda>x. flag (P x)) xs) AND low_mask n)) [0..<32]
      = find_position P (take n xs)"
proof -
  have "low_mask n = mask n"
    by (simp add: low_mask_def mask_eq_exp_minus_1 push_bit_eq_mult)
  then show ?thesis
    using assms by (intro find_position_cong_nth) (auto simp: bit_movemask bit_simps)
qed

lemma zero_iff_no_bit: "(m :: 32 word) = 0 \<longleftrightarrow> find_position (bit m) [0..<32] = None"
  by (auto simp: find_position_None bit_eq_iff)

definition some_or :: "'a option \<Rightarrow> 'a option \<Rightarrow> 'a option" where
  "some_or a b = (if a = None then b else a)"

lemma some_or_simps [simp]: "some_or None b = b" "some_or (Some x) b = Some x" "some_or a None = a"
  by (simp_all add: some_or_def)

lemma first_special_update:
  "(if fs = None \<and> m \<noteq> 0 then Some (pos + trailing_zeros m) else fs)
     = some_or fs (map_option (\<lambda>i. pos + i) (find_position (bit m) [0..<32]))"
  by (cases "find_position (bit m) [0..<32]")
    (auto simp: some_or_def trailing_zeros_def zero_iff_no_bit)

section \<open>A block of the byte loop\<close>

lemma tail_block:
  "pos + length block \<le> length path \<Longrightarrow> take (length block) (drop pos path) = block \<Longrightarrow>
   tail oid path pos fs =
     (case find_position (\<lambda>b. b = LF) block of
        Some n \<Rightarrow>
          Some (finish oid path (pos + n)
            (some_or fs (map_option (\<lambda>i. pos + i) (find_position is_special (take n block)))))
      | None \<Rightarrow>
          tail oid path (pos + length block)
            (some_or fs (map_option (\<lambda>i. pos + i) (find_position is_special block))))"
proof (induction block arbitrary: pos fs)
  case (Cons b block)
  have pos: "pos < length path" "path ! pos = b" "take (length block) (drop (pos + 1) path) = block"
    using Cons.prems by (auto simp: Cons_nth_drop_Suc [symmetric] take_Cons' split: if_splits)
  let ?fs = "if fs = None \<and> (b < 32 \<or> b = BACKSLASH) then Some pos else fs"
  have comp: "map_option (\<lambda>i. Suc pos + i) x = map_option (\<lambda>i. pos + i) (map_option Suc x)" for x
    by (cases x) simp_all
  show ?case
  proof (cases "b = LF")
    case True
    then show ?thesis using pos by (simp add: tail.simps [of oid path pos])
  next
    case False
    then have "tail oid path pos fs = tail oid path (Suc pos) ?fs"
      using pos by (simp add: tail.simps [of oid path pos])
    also have "\<dots> = (case find_position (\<lambda>b. b = LF) block of
        Some n \<Rightarrow> Some (finish oid path (Suc pos + n)
            (some_or ?fs (map_option (\<lambda>i. Suc pos + i) (find_position is_special (take n block)))))
      | None \<Rightarrow> tail oid path (Suc pos + length block)
            (some_or ?fs (map_option (\<lambda>i. Suc pos + i) (find_position is_special block))))"
      using Cons.IH [of "Suc pos" ?fs] pos Cons.prems by simp
    finally show ?thesis
      using False
      by (cases fs; cases "find_position (\<lambda>b. b = LF) block"; cases "b < 32 \<or> b = BACKSLASH")
        (simp_all add: comp is_special_def some_or_def option.map_comp comp_def)
  qed
qed simp

section \<open>Scanning\<close>

lemma block_masks_eq:
  assumes "length x = n"
  shows "block_masks n x =
    (movemask_epi8 (map (\<lambda>b. flag (b = LF)) x), movemask_epi8 (map (\<lambda>b. flag (is_special b)) x))"
proof -
  have "b < 32 \<longleftrightarrow> b \<le> 31" for b :: u8
    by (simp add: word_less_nat_alt word_le_nat_alt, linarith)
  then show ?thesis
    using assms by (simp add: block_masks_def Let_def lane_simps is_special_def disj_commute)
qed

lemma length_loadu: "n \<le> length path - pos \<Longrightarrow> length (loadu n path pos) = n"
  by (simp add: loadu_def)

lemma tail_load:
  assumes "n \<le> length path - pos" "0 < n"
  shows "tail oid path pos fs =
     (case find_position (\<lambda>b. b = LF) (loadu n path pos) of
        Some k \<Rightarrow>
          Some (finish oid path (pos + k)
            (some_or fs (map_option (\<lambda>i. pos + i) (find_position is_special (take k (loadu n path pos))))))
      | None \<Rightarrow>
          tail oid path (pos + n)
            (some_or fs (map_option (\<lambda>i. pos + i) (find_position is_special (loadu n path pos)))))"
proof -
  have l: "length (loadu n path pos) = n" by (rule length_loadu [OF assms(1)])
  moreover have "pos + n \<le> length path" "take n (drop pos path) = loadu n path pos"
    using assms by (simp_all add: loadu_def)
  ultimately show ?thesis
    using tail_block [of pos "loadu n path pos" path oid fs] unfolding l by simp
qed

text \<open>What one block of a masked scan does, for both vector widths.\<close>

lemma masked_block:
  assumes n: "n \<le> length path - pos" "0 < n" "n \<le> 32"
    and masks: "block_masks n (loadu n path pos) = (ends, special)"
  shows "ends \<noteq> 0 \<Longrightarrow>
      Some (finish oid path (pos + trailing_zeros ends)
        (if fs = None \<and> special AND low_mask (trailing_zeros ends) \<noteq> 0
         then Some (pos + trailing_zeros (special AND low_mask (trailing_zeros ends))) else fs))
      = tail oid path pos fs"
    and "ends = 0 \<Longrightarrow>
      tail oid path (pos + n) (if fs = None \<and> special \<noteq> 0 then Some (pos + trailing_zeros special) else fs)
      = tail oid path pos fs"
proof -
  let ?x = "loadu n path pos"
  have l: "length ?x \<le> 32" using n by (simp add: length_loadu)
  have m: "ends = movemask_epi8 (map (\<lambda>b. flag (b = LF)) ?x)"
    "special = movemask_epi8 (map (\<lambda>b. flag (is_special b)) ?x)"
    using masks by (simp_all add: block_masks_eq [OF length_loadu [OF n(1)]])
  have e: "find_position (bit ends) [0..<32] = find_position (\<lambda>b. b = LF) ?x"
    unfolding m by (rule trailing_zeros_movemask [OF l])
  show "Some (finish oid path (pos + trailing_zeros ends)
        (if fs = None \<and> special AND low_mask (trailing_zeros ends) \<noteq> 0
         then Some (pos + trailing_zeros (special AND low_mask (trailing_zeros ends))) else fs))
      = tail oid path pos fs" if "ends \<noteq> 0"
  proof -
    from that e obtain k where k: "find_position (\<lambda>b. b = LF) ?x = Some k"
      by (auto simp: zero_iff_no_bit)
    then have "k < 32" using l by (auto simp: find_position_Some)
    moreover from k e have "trailing_zeros ends = k" by (simp add: trailing_zeros_def)
    ultimately show ?thesis
      unfolding first_special_update tail_load [OF n(1,2)]
      using k by (simp add: m(2) trailing_zeros_movemask_below [OF l])
  qed
  show "tail oid path (pos + n) (if fs = None \<and> special \<noteq> 0 then Some (pos + trailing_zeros special) else fs)
      = tail oid path pos fs" if "ends = 0"
  proof -
    from that e have "find_position (\<lambda>b. b = LF) ?x = None"
      by (simp add: zero_iff_no_bit)
    then show ?thesis
      unfolding first_special_update tail_load [OF n(1,2), of oid fs]
      by (simp add: m(2) trailing_zeros_movemask [OF l])
  qed
qed

lemma scan_sse2_eq: "scan_sse2 oid path pos fs = tail oid path pos fs"
proof (induction oid path pos fs rule: scan_sse2.induct)
  case (1 oid path pos fs)
  obtain ends special where m: "block_masks 16 (loadu 16 path pos) = (ends, special)"
    by (rule prod.exhaust)
  show ?case
    using 1 [OF _ m [symmetric]] masked_block [OF _ _ _ m, of oid fs] m
    by (simp add: scan_sse2.simps [of oid path pos fs] Let_def)
qed

lemma scan_avx2_eq: "scan_avx2 oid path pos fs = tail oid path pos fs"
proof (induction oid path pos fs rule: scan_avx2.induct)
  case (1 oid path pos fs)
  obtain ends special where m: "block_masks 32 (loadu 32 path pos) = (ends, special)"
    by (rule prod.exhaust)
  show ?case
    using 1 [OF _ m [symmetric]] masked_block [OF _ _ _ m, of oid fs] m
    by (simp add: scan_avx2.simps [of oid path pos fs] Let_def scan_sse2_eq)
qed

section \<open>Horizontal minima and maxima\<close>

lemma u8_le_255 [simp]: "(x :: u8) \<le> 255"
proof -
  have "(255 :: u8) = - 1" by simp
  then show ?thesis by (metis word_order.extremum)
qed

lemma vmaxvq_zero: "vmaxvq_u8 v = 0 \<longleftrightarrow> (\<forall>x \<in> set v. x = 0)"
proof -
  have "fold max v a = 0 \<longleftrightarrow> a = 0 \<and> (\<forall>x \<in> set v. x = 0)" for a :: u8
    by (induction v arbitrary: a) (auto simp: max_def)
  then show ?thesis by (simp add: vmaxvq_u8_def)
qed

lemma vminvq_full: "vminvq_u8 v = 255 \<longleftrightarrow> (\<forall>x \<in> set v. x = 255)"
proof -
  have "min a b = 255 \<longleftrightarrow> a = 255 \<and> b = 255" for a b :: u8
    using u8_le_255 [of a] u8_le_255 [of b] by (auto simp: min_def intro: order.antisym)
  then have "fold min v a = 255 \<longleftrightarrow> a = 255 \<and> (\<forall>x \<in> set v. x = 255)" for a :: u8
    by (induction v arbitrary: a) auto
  then show ?thesis by (simp add: vminvq_u8_def)
qed

lemma fold_min_least: "(\<forall>v \<in> set vs. a \<le> v) \<Longrightarrow> fold min vs a = (a :: u8)"
  by (induction vs) (simp_all add: min_absorb2)

lemma of_nat_u8_le: "k \<le> i \<Longrightarrow> i < 256 \<Longrightarrow> (of_nat k :: u8) \<le> of_nat i"
  by (simp add: word_le_nat_alt unat_of_nat)

lemma fold_min_first:
  "k + length xs \<le> 255 \<Longrightarrow>
     fold min (map2 (\<lambda>x i. if P x then of_nat i else 255) xs [k..<k + length xs]) 255
     = (case find_position P xs of Some j \<Rightarrow> of_nat (k + j) | None \<Rightarrow> (255 :: u8))"
proof (induction xs arbitrary: k)
  case (Cons x xs)
  have u: "[k..<k + length (x # xs)] = k # [Suc k..<Suc k + length xs]"
    by (simp add: upt_conv_Cons del: upt_Suc)
  have "fold min (map2 (\<lambda>x i. if P x then of_nat i else 255) xs [Suc k..<Suc k + length xs]) (of_nat k)
      = (of_nat k :: u8)"
    using Cons.prems
    by (intro fold_min_least) (auto intro!: of_nat_u8_le dest!: set_zip_rightD simp del: upt_Suc)
  moreover have "fold min (map2 (\<lambda>x i. if P x then of_nat i else 255) xs [Suc k..<Suc k + length xs]) 255
      = (case find_position P xs of Some j \<Rightarrow> of_nat (Suc k + j) | None \<Rightarrow> (255 :: u8))"
    using Cons.IH [of "Suc k"] Cons.prems by simp
  ultimately show ?case
    unfolding u by (simp add: min_absorb1 split: option.split)
qed simp

lemma select_lane: "(flag p AND i) OR (NOT (flag p) AND 255) = (if p then i else 255)"
proof -
  have "\<forall>i :: u8. (255 AND i) OR (NOT 255 AND 255) = i \<and> (0 AND i) OR (NOT 0 AND 255) = (255 :: u8)"
    unfolding all_bytes by code_simp
  then show ?thesis by (simp only: flag_def split: if_split) simp
qed

lemma vbsl_lanes:
  "length ns = length xs \<Longrightarrow>
     vbslq_u8 (map (\<lambda>x. flag (P x)) xs) (map of_nat ns) (replicate (length xs) 255)
       = map2 (\<lambda>x i. if P x then of_nat i else 255) xs ns"
proof (induction ns xs rule: list_induct2)
  case (Cons i ns x xs)
  have "vbslq_u8 (a # as) (b # bs) (c # cs) = ((a AND b) OR (NOT a AND c)) # vbslq_u8 as bs cs" for a b c as bs cs
    by (simp add: vbslq_u8_def)
  with Cons.IH show ?case by (simp only: list.map list.size replicate_Suc add_0_right add_Suc_right
        select_lane zip_Cons_Cons prod.case)
qed (simp add: vbslq_u8_def)

lemma indices_eq: "indices = map of_nat [0..<16]"
  by (simp add: indices_def upt_rec)

lemma first_lane:
  assumes "length xs = 16"
  shows "unat (vminvq_u8 (vbslq_u8 (map (\<lambda>x. flag (P x)) xs) indices (set1_epi8 16 255)))
      = (case find_position P xs of Some j \<Rightarrow> j | None \<Rightarrow> 255)"
proof -
  have "vminvq_u8 (vbslq_u8 (map (\<lambda>x. flag (P x)) xs) indices (set1_epi8 16 255))
      = (case find_position P xs of Some j \<Rightarrow> of_nat j | None \<Rightarrow> 255)"
    using fold_min_first [of 0 xs P] vbsl_lanes [of "[0..<16]" xs P] assms
    unfolding indices_eq set1_epi8_def vminvq_u8_def by (simp del: upt_Suc split: option.split)
  moreover have "unat (of_nat j :: u8) = j" if "find_position P xs = Some j" for j
    using that assms by (auto simp: find_position_Some unat_of_nat)
  ultimately show ?thesis by (simp split: option.split)
qed

lemma flag_zero [simp]: "flag P = 0 \<longleftrightarrow> \<not> P" "flag P = 255 \<longleftrightarrow> P"
  by (simp_all add: flag_def)

lemma find_position_take:
  "find_position P (take n xs) = (case find_position P xs of Some k \<Rightarrow> if k < n then Some k else None | None \<Rightarrow> None)"
proof (induction xs arbitrary: n)
  case (Cons x xs)
  then show ?case by (cases n) (auto split: option.splits)
qed simp

lemma scan_neon_eq: "scan_neon oid path pos fs = tail oid path pos fs"
proof (induction oid path pos fs rule: scan_neon.induct)
  case (1 oid path pos fs)
  show ?case
  proof (cases "length path - pos \<ge> 16")
    case False
    then show ?thesis by (simp add: scan_neon.simps [of oid path pos fs])
  next
    case True
    define x where "x = loadu 16 path pos"
    have x: "length x = 16" by (simp add: x_def length_loadu True)
    have le: "b < 32 \<longleftrightarrow> b \<le> 31" for b :: u8
      by (simp add: word_less_nat_alt word_le_nat_alt, linarith)
    have e: "vceqq_u8 x (set1_epi8 16 10) = map (\<lambda>b. flag (b = LF)) x"
      "or_si (vcleq_u8 x (set1_epi8 16 31)) (vceqq_u8 x (set1_epi8 16 92)) = map (\<lambda>b. flag (is_special b)) x"
      using x by (simp_all add: lane_simps is_special_def le)
    have nz: "vmaxvq_u8 (map (\<lambda>b. flag (P b)) x) \<noteq> 0 \<longleftrightarrow> find_position P x \<noteq> None" for P
      by (auto simp: vmaxvq_zero find_position_None)
    note fl = first_lane [OF x]
    note tl = tail_load [of 16 path pos oid fs, folded x_def, OF True zero_less_numeral]
    show ?thesis
    proof (cases "find_position (\<lambda>b. b = LF) x")
      case None
      define fs' where "fs' = (if fs = None \<and> vmaxvq_u8 (map (\<lambda>b. flag (is_special b)) x) \<noteq> 0
        then Some (pos + unat (vminvq_u8 (vbslq_u8 (map (\<lambda>b. flag (is_special b)) x) indices (set1_epi8 16 255))))
        else fs)"
      have "fs' = some_or fs (map_option (\<lambda>i. pos + i) (find_position is_special x))"
        by (cases "find_position is_special x") (auto simp: fs'_def some_or_def nz fl)
      moreover have "scan_neon oid path pos fs = scan_neon oid path (pos + 16) fs'"
        using True None
        by (simp add: scan_neon.simps [of oid path pos fs] Let_def e nz fs'_def flip: x_def)
      moreover have "scan_neon oid path (pos + 16) fs' = tail oid path (pos + 16) fs'"
        using 1 [OF True x_def refl refl] None unfolding e by (simp add: nz fs'_def)
      ultimately show ?thesis using tl None by simp
    next
      case (Some k)
      then have k: "k < 16" using x by (auto simp: find_position_Some)
      have "scan_neon oid path pos fs = Some (finish oid path (pos + k)
          (if fs = None then
             if (case find_position is_special x of Some j \<Rightarrow> j | None \<Rightarrow> 255) < k
             then Some (pos + (case find_position is_special x of Some j \<Rightarrow> j | None \<Rightarrow> 255)) else fs
           else fs))"
        using True Some
        by (simp add: scan_neon.simps [of oid path pos fs] Let_def e nz fl flip: x_def)
      with k Some tl show ?thesis
        by (cases fs; cases "find_position is_special x") (simp_all add: find_position_take)
    qed
  qed
qed

section \<open>The scalar field scan\<close>

lemma finish_scalar:
  assumes "n < length path"
  shows "finish oid path n (find_position is_special (take n path))
    = (oid, n, list_ex is_special (strip_cr (take n path)))"
proof (cases "find_position is_special (take n path)")
  case None
  then have "\<forall>b \<in> set (take n path). \<not> is_special b" by (simp add: find_position_None)
  moreover have "set (strip_cr s) \<subseteq> set s" for s
    by (auto simp: strip_cr_def str_simps split: option.splits)
  ultimately show ?thesis
    using None by (auto simp: finish_def list_ex_iff)
next
  case (Some i)
  then have i: "i < n" "is_special (path ! i)" "\<forall>b \<in> set (take i path). \<not> is_special b"
    using assms by (auto simp: find_position_Some min_def split: if_splits)
  let ?s = "take n path"
  have "list_ex is_special (strip_cr ?s) \<longleftrightarrow> i + 1 \<noteq> n \<or> path ! i \<noteq> CR"
  proof (cases "strip_suffix [CR] ?s")
    case None
    then have "strip_cr ?s = ?s" by (simp add: strip_cr_def)
    moreover have "path ! i \<in> set ?s" using i assms by (auto simp: in_set_conv_nth)
    moreover have "\<not> (i + 1 = n \<and> path ! i = CR)"
    proof
      assume "i + 1 = n \<and> path ! i = CR"
      then have "?s = take i path @ [CR]"
        using assms by (auto simp: take_Suc_conv_app_nth)
      then show False using None by (simp add: str_simps)
    qed
    ultimately show ?thesis using i(2) by (auto simp: list_ex_iff)
  next
    case (Some r)
    then have r: "?s = r @ [CR]" "strip_cr ?s = r" by (auto simp: strip_cr_def str_simps)
    then have "length r + 1 = n" using assms by (metis length_append_singleton length_take min.absorb2 less_imp_le Suc_eq_plus1)
    then have n: "n = length r + 1" "take (length r) path = r" "path ! length r = CR"
      using r(1) assms by (auto simp: take_Suc_conv_app_nth)
    show ?thesis
    proof (cases "i = length r")
      case True
      then show ?thesis using n r(2) i(3) by (auto simp: list_ex_iff)
    next
      case False
      then have "path ! i \<in> set r"
        using i(1) n by (metis less_Suc_eq Suc_eq_plus1 in_set_conv_nth nth_take)
      then show ?thesis using i(2) n(1) False r(2) by (auto simp: list_ex_iff)
    qed
  qed
  with Some show ?thesis by (simp add: finish_def)
qed

lemma tail_scalar:
  "tail oid path 0 None =
     (case find_position (\<lambda>b. b = LF) path of
        None \<Rightarrow> None
      | Some end \<Rightarrow> Some (oid, end, list_ex is_special (strip_cr (take end path))))"
proof -
  have "tail oid path (length path) fs = None" for fs
    by (simp add: tail.simps [of oid path "length path"])
  moreover have "n < length path" if "find_position (\<lambda>b. b = LF) path = Some n" for n
    using that by (simp add: find_position_Some)
  ultimately show ?thesis
    using tail_block [of 0 path path oid None]
    by (cases "find_position (\<lambda>b. b = LF) path") (simp_all add: finish_scalar)
qed

lemma find_LF_None: "find_position (\<lambda>b. b = LF) path = None \<longleftrightarrow> LF \<notin> set path"
  by (auto simp: find_position_None)

lemma scalar_eq:
  "length h = 64 \<Longrightarrow> scalar h path =
     (if list_all digit_ok h then tail (pair_bytes (map nib h)) path 0 None else None)"
  by (simp add: scalar_def scalar_pairs_eq tail_scalar Let_def split: option.split)

section \<open>The contract of a row kernel\<close>

locale row_kernel =
  fixes row :: "str \<Rightarrow> str \<Rightarrow> decoded_row"
  assumes row_eq: "length h = 64 \<Longrightarrow> row h path = scalar h path"
begin

lemma row_Some:
  assumes "length h = 64" "row h path = Some (oid, n, special)"
  shows "scalar_pairs h = Some oid" "find_position (\<lambda>b. b = LF) path = Some n"
    "special \<longleftrightarrow> list_ex is_special (strip_cr (take n path))"
  using assms by (auto simp: row_eq scalar_def Let_def split: option.splits)

lemma row_None:
  assumes "length h = 64"
  shows "row h path = None \<longleftrightarrow> scalar_pairs h = None \<or> LF \<notin> set path"
  using assms
  by (cases "find_position (\<lambda>b. b = LF) path")
    (auto simp: row_eq scalar_def Let_def find_LF_None [symmetric] split: option.splits)

end

interpretation scalar_kernel: row_kernel scalar
  by unfold_locales simp

section \<open>Every backend meets the contract\<close>

lemma movemask_full:
  assumes "length v = n" "n \<le> 32"
  shows "movemask_epi8 v = mask n \<longleftrightarrow> (\<forall>i < n. bit (v ! i) 7)"
proof -
  have "movemask_epi8 v = mask n \<longleftrightarrow> (\<forall>i < 32. i < n \<and> bit (v ! i) 7 \<longleftrightarrow> i < n)"
    unfolding bit_eq_iff using assms by (auto simp: bit_movemask bit_mask_iff)
  also have "\<dots> \<longleftrightarrow> (\<forall>i < n. bit (v ! i) 7)"
    using order_less_le_trans [OF _ assms(2)] by blast
  finally show ?thesis .
qed

lemma nth_and_si [simp]: "i < length a \<Longrightarrow> i < length b \<Longrightarrow> and_si a b ! i = a ! i AND b ! i"
  by (simp add: and_si_def)

lemma length_and_si [simp]: "length (and_si a b) = min (length a) (length b)"
  by (simp add: and_si_def)

lemma list_all_flags: "length x = n \<Longrightarrow> list_all P x \<longleftrightarrow> (\<forall>i < n. P (x ! i))"
  by (auto simp: list_all_length)

lemma loadu_step: "drop k h = loadu n h k @ drop (k + n) h"
  by (metis append_take_drop_id drop_drop loadu_def add.commute)

text \<open>Four 16-byte parts, all recognised.\<close>

lemma quarters:
  assumes h: "length h = 64"
  shows "h = loadu 16 h 0 @ loadu 16 h 16 @ loadu 16 h 32 @ loadu 16 h 48"
    and "length (loadu 16 h 0) = 16" "length (loadu 16 h 16) = 16"
      "length (loadu 16 h 32) = 16" "length (loadu 16 h 48) = 16"
proof -
  show "h = loadu 16 h 0 @ loadu 16 h 16 @ loadu 16 h 32 @ loadu 16 h 48"
    using loadu_step [of 0 h 16] loadu_step [of 16 h 16] loadu_step [of 32 h 16]
      loadu_step [of 48 h 16] h by simp
qed (use h in \<open>simp_all add: loadu_def\<close>)

lemma halves:
  assumes h: "length h = 64"
  shows "h = loadu 32 h 0 @ loadu 32 h 32" "length (loadu 32 h 0) = 32" "length (loadu 32 h 32) = 32"
proof -
  show "h = loadu 32 h 0 @ loadu 32 h 32"
    using loadu_step [of 0 h 32] loadu_step [of 32 h 32] h by simp
qed (use h in \<open>simp_all add: loadu_def\<close>)

lemma all_four:
  assumes "length a = 16" "length b = 16" "length c = 16" "length d = 16"
  shows "(\<forall>i < 16. P (a ! i) \<and> P (b ! i) \<and> P (c ! i) \<and> P (d ! i)) \<longleftrightarrow> list_all P (a @ b @ c @ d)"
  using assms by (auto simp: list_all_flags)

lemma row_sse2_eq:
  assumes h: "length h = 64"
  shows "row_sse2 h path = scalar h path"
proof -
  obtain a b c d where q: "loadu 16 h 0 = a" "loadu 16 h 16 = b" "loadu 16 h 32 = c" "loadu 16 h 48 = d"
    "h = a @ b @ c @ d" "length a = 16" "length b = 16" "length c = 16" "length d = 16"
    using quarters [OF h] by metis
  have m: "(65535 :: 32 word) = mask 16" by (simp add: mask_eq_exp_minus_1)
  have valid: "movemask_epi8 (and_si (and_si (snd (sse2_hex16 a)) (snd (sse2_hex16 b)))
        (and_si (snd (sse2_hex16 c)) (snd (sse2_hex16 d)))) = 65535 \<longleftrightarrow> list_all digit_ok h"
    using q all_four [OF q(6-9), of digit_ok]
    unfolding m by (subst movemask_full) (simp_all add: sse2_hex16_valid flag_simps(2))
  have oid: "packus_epi16 (fst (sse2_hex16 a)) (fst (sse2_hex16 b))
      @ packus_epi16 (fst (sse2_hex16 c)) (fst (sse2_hex16 d)) = pair_bytes (map nib h)"
    using q by (simp add: packus_epi16_def sse2_hex16_pairs pair_bytes_append)
  show ?thesis
    unfolding row_sse2_def q(1-4) scalar_eq [OF h] using valid oid
    by (simp add: Let_def case_prod_unfold scan_sse2_eq)
qed

lemma row_avx2_eq:
  assumes h: "length h = 64"
  shows "row_avx2 h path = scalar h path"
proof -
  obtain a b where q: "loadu 32 h 0 = a" "loadu 32 h 32 = b" "h = a @ b" "length a = 32" "length b = 32"
    using halves [OF h] by metis
  have m: "(- 1 :: 32 word) = mask 32" by (simp add: mask_eq_exp_minus_1)
  have valid: "movemask_epi8 (and_si (snd (avx2_hex32 a)) (snd (avx2_hex32 b))) = - 1 \<longleftrightarrow> list_all digit_ok h"
    using q unfolding m
    by (subst movemask_full) (auto simp: vector_hex_valid flag_simps(2) list_all_flags)
  have oid: "permute4x64_epi64 0xD8 (packus_epi16_256 (maddubs_epi16 (fst (avx2_hex32 a)) (set1_epi16 16 0x0110))
        (maddubs_epi16 (fst (avx2_hex32 b)) (set1_epi16 16 0x0110))) = pair_bytes (map nib h)"
    if "list_all digit_ok h"
    using q that by (simp add: vector_hex_nibbles avx2_pack pair_bytes_append list_all_iff)
  have "row_avx2 h path = (if list_all digit_ok h then scan_avx2 (pair_bytes (map nib h)) path 0 None else None)"
  proof (cases "length path \<ge> 32")
    case True
    obtain ends special where bm: "block_masks 32 (loadu 32 path 0) = (ends, special)"
      by (rule prod.exhaust)
    show ?thesis
      unfolding row_avx2_def q(1,2) using valid oid True bm
      by (simp add: Let_def case_prod_unfold scan_avx2.simps [of _ path 0 None])
  next
    case False
    then show ?thesis
      unfolding row_avx2_def q(1,2) using valid oid by (simp add: Let_def case_prod_unfold)
  qed
  then show ?thesis by (simp add: scalar_eq [OF h] scan_avx2_eq)
qed

lemma row_neon_eq:
  assumes h: "length h = 64"
  shows "row_neon h path = scalar h path"
proof -
  obtain a b c d where q: "loadu 16 h 0 = a" "loadu 16 h 16 = b" "loadu 16 h 32 = c" "loadu 16 h 48 = d"
    "h = a @ b @ c @ d" "length a = 16" "length b = 16" "length c = 16" "length d = 16"
    using quarters [OF h] by metis
  let ?v = "and_si (and_si (snd (neon_hex16 a)) (snd (neon_hex16 b)))
      (and_si (snd (neon_hex16 c)) (snd (neon_hex16 d)))"
  have "vminvq_u8 ?v = 255 \<longleftrightarrow> (\<forall>i < 16. ?v ! i = 255)"
    using q by (simp add: vminvq_full all_set_conv_all_nth vector_hex_valid)
  also have "\<dots> \<longleftrightarrow> list_all digit_ok h"
    using q all_four [OF q(6-9), of digit_ok] by (simp add: vector_hex_valid flag_simps(2))
  finally have valid: "vminvq_u8 ?v = 255 \<longleftrightarrow> list_all digit_ok h" .
  have oid: "neon_pack (fst (neon_hex16 a)) (fst (neon_hex16 b))
      @ neon_pack (fst (neon_hex16 c)) (fst (neon_hex16 d)) = pair_bytes (map nib h)"
    if "list_all digit_ok h"
    using q that by (simp add: vector_hex_nibbles neon_pack_eq pair_bytes_append list_all_iff)
  show ?thesis
    unfolding row_neon_def q(1-4) scalar_eq [OF h] using valid oid
    by (simp add: Let_def case_prod_unfold scan_neon_eq)
qed

interpretation sse2_kernel: row_kernel row_sse2
  by unfold_locales (rule row_sse2_eq)

interpretation avx2_kernel: row_kernel row_avx2
  by unfold_locales (rule row_avx2_eq)

interpretation neon_kernel: row_kernel row_neon
  by unfold_locales (rule row_neon_eq)

lemma backend_row_eq: "length h = 64 \<Longrightarrow> backend_row k h path = scalar h path"
  by (cases k) (simp_all add: row_sse2_eq row_avx2_eq row_neon_eq)

lemma nibble_hex_value: "nibble = hex_value"
  by (rule ext) (simp add: nibble_def hex_value_def)

lemma scalar_pairs_decode: "scalar_pairs hs = decode_pairs hs"
  by (induction hs rule: scalar_pairs.induct) (auto simp: hex_pair_def nibble_hex_value split: option.split)

lemma find_position_byte: "find_position (\<lambda>b. b = LF) s = find_byte LF s"
  by (induction s) simp_all

lemma scalar_spec:
  "length hash = 64 \<Longrightarrow> scalar hash path =
    (case (oid_from_hex hash, find_byte LF path) of
       (Inr o', Some n) \<Rightarrow> Some (oid_bytes o', n, list_ex is_special (strip_cr (take n path)))
     | _ \<Rightarrow> None)"
  by (simp add: scalar_def oid_from_hex_def Let_def scalar_pairs_decode find_position_byte split: option.split)

lemma bad_digit: "length hash = 64 \<Longrightarrow> list_ex (\<lambda>b. nibble b = None) hash \<longleftrightarrow> (\<exists>e. oid_from_hex hash = Inl e)"
  using scalar_pairs_eq [of hash]
  by (auto simp: oid_from_hex_def list_ex_iff list_all_iff digit_ok_def scalar_pairs_decode split: option.splits if_splits)

text \<open>
  C8: Whatever kernel the processor's features select, a row is decoded alike: the vector
  kernels return what the scalar one returns, namely nothing when a digit is not lowercase
  hexadecimal or the record has no LF, and otherwise the digest's bytes, the offset of the first
  LF, and whether the field before it (without one CR framing that LF) holds a control byte or a
  backslash.
\<close>

theorem kernels_agree:
  assumes "length hash = 64"
  shows "backend_row (selected f) hash path =
    (case (oid_from_hex hash, find_byte LF path) of
       (Inr o', Some n) \<Rightarrow> Some (oid_bytes o', n, list_ex is_special (strip_cr (take n path)))
     | _ \<Rightarrow> None)"
  using assms by (simp add: backend_row_eq scalar_spec)

lemma kernels_agree_witness:
  "backend_row (selected \<lparr>target_x86_64 = True, has_avx2 = True, has_sse2 = True,
       target_aarch64 = False, has_neon = False\<rparr>) (replicate 64 97) [120, CR, LF]
     = Some (replicate 32 0xAA, 2, False)"
proof -
  have "length (replicate 64 (97 :: u8)) = 64" by simp
  moreover have "oid_from_hex (replicate 64 97) = Inr (Oid (replicate 32 0xAA))"
    "find_byte LF [120, CR, LF] = Some 2"
    "list_ex is_special (strip_cr (take 2 [120, CR, LF])) = False"
    by code_simp+
  ultimately show ?thesis
    using kernels_agree [of "replicate 64 97"] by simp
qed

end
