(* ===== verification/LockReader.thy ===== *)
theory LockReader
  imports LockEncoding KernelCorrect
begin

text \<open>
  The single-pass decoder of \<open>gat.lock\<close> (\<open>gat-core/src/lock/reader.rs\<close>) and the row readers of
  \<open>gat-core/src/lock/codec.rs\<close> built on it. The decoder keeps the offsets, the arena of unescaped
  paths, the row table and the stack of row indices of the source; the row kernel is an argument,
  as in \<open>decode_with\<close>. The lemmas show that it accepts exactly the serialized locks, each line
  ended by LF or CRLF.
\<close>

section \<open>The decoded file\<close>

record row =
  row_start :: nat
  row_len :: nat
  row_arena :: bool
  row_oid :: oid

record lock_file =
  source :: str
  arena :: str
  rows :: "row list"

definition row_path :: "lock_file \<Rightarrow> row \<Rightarrow> str" where
  "row_path self r =
     slice (row_start r) (row_start r + row_len r) (if row_arena r then arena self else source self)"

section \<open>Unescaping\<close>

function decode_escaped_loop :: "str \<Rightarrow> nat \<Rightarrow> nat \<Rightarrow> str \<Rightarrow> str option" where
  "decode_escaped_loop bytes start pos arena' =
     (if pos < length bytes then
        (if bytes ! pos < 32 then None
         else if bytes ! pos \<noteq> BACKSLASH then decode_escaped_loop bytes start (pos + 1) arena'
         else
           (let arena' = arena' @ slice start pos bytes in
            if nth_opt bytes (pos + 1) \<noteq> Some 120 then None
            else
              (case Option.bind (nth_opt bytes (pos + 2)) nibble of
                 None \<Rightarrow> None
               | Some hi \<Rightarrow>
                   (case Option.bind (nth_opt bytes (pos + 3)) nibble of
                      None \<Rightarrow> None
                    | Some lo \<Rightarrow>
                        (let value = hi * 16 + lo in
                         if value \<ge> 32 then None
                         else decode_escaped_loop bytes (pos + 4) (pos + 4) (arena' @ [value]))))))
      else Some (arena' @ drop start bytes))"
  by pat_completeness auto
termination by (relation "measure (\<lambda>(bytes, start, pos, arena). length bytes - pos)") auto

declare decode_escaped_loop.simps [simp del]

definition decode_escaped :: "str \<Rightarrow> str \<Rightarrow> str option" where
  "decode_escaped field arena' = decode_escaped_loop field 0 0 arena'"

section \<open>One row\<close>

definition common_prefix_length :: "str \<Rightarrow> str \<Rightarrow> nat" where
  "common_prefix_length previous path = length (takeWhile (\<lambda>(a, b). a = b) (zip previous path))"

text \<open>The order and conflict checks; the result is the stack left after the pops.\<close>

definition check_order :: "lock_file \<Rightarrow> nat list \<Rightarrow> str \<Rightarrow> nat \<Rightarrow> lock_error + nat list" where
  "check_order result stack path line =
     (if rows result = [] then Ok stack
      else
        (let previous = row_path result (last (rows result)) in
         if previous = path then Err (Domain (DuplicatePath path (Some line)))
         else if previous > path then Err (Domain (MalformedRow line (UnorderedPath path)))
         else
           (let lcp = common_prefix_length previous path;
                stack = dropWhile (\<lambda>i. row_len (rows result ! i) > lcp) stack in
            case stack of
              [] \<Rightarrow> Ok stack
            | i # _ \<Rightarrow>
                (if nth_opt path (row_len (rows result ! i)) = Some SLASH
                 then Err (Domain (DirectoryPrefixConflict (row_path result (rows result ! i)) path))
                 else Ok stack))))"

text \<open>The path of a field, with the arena it may extend.\<close>

definition decode_path :: "lock_file \<Rightarrow> nat \<Rightarrow> str \<Rightarrow> bool \<Rightarrow> lock_error + (str \<times> bool \<times> str)" where
  "decode_path result line field has_special =
     (let in_arena = has_special \<and> BACKSLASH \<in> set field in
      if in_arena then
        (case decode_escaped field (arena result) of
           None \<Rightarrow> Err (Domain (NonCanonicalPath line field))
         | Some arena' \<Rightarrow> Ok (arena', True, drop (length (arena result)) arena'))
      else if has_special then Err (Domain (NonCanonicalPath line field))
      else Ok (arena result, False, field))"

definition decode_row ::
  "(str \<Rightarrow> str \<Rightarrow> decoded_row) \<Rightarrow> lock_file \<Rightarrow> nat list \<Rightarrow> nat
     \<Rightarrow> lock_error + (lock_file \<times> nat list \<times> nat)" where
  "decode_row kern result stack pos =
     (let line = length (rows result) + 2; bytes = source result in
      if nth_opt bytes (pos + 64) \<noteq> Some TAB then Err (Domain (MalformedRow line InvalidSeparator))
      else
        (let hash = slice pos (pos + 64) bytes; start = pos + 65 in
         case kern hash (drop start bytes) of
           None \<Rightarrow>
             (if list_ex (\<lambda>b. nibble b = None) hash
              then Err (Domain (InvalidOid line (hd (split_on LF (drop start bytes))) NotHexBlake3))
              else Err (Domain (MalformedRow line MissingLineFeed)))
         | Some (oid', len, has_special) \<Rightarrow>
             (let field = strip_cr (slice start (start + len) bytes); arena_start = length (arena result) in
              and_then (decode_path result line field has_special) (\<lambda>(arena', in_arena, path).
              (let result = result\<lparr>arena := arena'\<rparr> in
               and_then (validate_path path line) (\<lambda>_.
               and_then (check_order result stack path line) (\<lambda>stack.
               (let r = \<lparr>row_start = (if in_arena then arena_start else start), row_len = length path,
                         row_arena = in_arena, row_oid = Oid oid'\<rparr>
                in Ok (result\<lparr>rows := rows result @ [r]\<rparr>, length (rows result) # stack,
                       start + len + 1)))))))))"

lemma decode_row_advances:
  "decode_row kern result stack pos = Ok (result', stack', pos') \<Longrightarrow>
     pos < pos' \<and> source result' = source result"
  by (auto simp: decode_row_def Let_def and_then_eq_Inr split: if_splits option.splits prod.splits)

function decode_loop ::
  "(str \<Rightarrow> str \<Rightarrow> decoded_row) \<Rightarrow> lock_file \<Rightarrow> nat list \<Rightarrow> nat \<Rightarrow> lock_error + lock_file" where
  "decode_loop kern result stack pos =
     (if pos < length (source result) then
        (case decode_row kern result stack pos of
           Inl e \<Rightarrow> Err e
         | Inr (result', stack', pos') \<Rightarrow> decode_loop kern result' stack' pos')
      else Ok result)"
  by pat_completeness auto
termination
  by (relation "measure (\<lambda>(kern, result, stack, pos). length (source result) - pos)")
    (auto dest!: decode_row_advances)

declare decode_loop.simps [simp del]

section \<open>The file\<close>

text \<open>\<open>str::lines().next()\<close>: the first line without its LF or CRLF.\<close>

definition first_line :: "str \<Rightarrow> str" where
  "first_line s =
     (case find_byte LF s of
        None \<Rightarrow> s
      | Some i \<Rightarrow> strip_cr (take i s))"

definition strip_header :: "str \<Rightarrow> str option" where
  "strip_header src =
     (case strip_prefix VERSION src of
        None \<Rightarrow> None
      | Some s \<Rightarrow>
          (case strip_prefix [CR, LF] s of
             Some rest \<Rightarrow> Some rest
           | None \<Rightarrow> strip_prefix [LF] s))"

definition decode_with :: "(str \<Rightarrow> str \<Rightarrow> decoded_row) \<Rightarrow> str \<Rightarrow> lock_error + lock_file" where
  "decode_with kern src =
     (if src = [] then Err (Domain Empty)
      else
        (case strip_header src of
           None \<Rightarrow> Err (Domain (UnsupportedVersion VERSION (first_line src)))
         | Some header \<Rightarrow>
             decode_loop kern \<lparr>source = src, arena = [], rows = []\<rparr> [] (length src - length header)))"

definition parse_lock_file :: "features \<Rightarrow> str \<Rightarrow> lock_error + lock_file" where
  "parse_lock_file f src = decode_with (backend_row (selected f)) src"

definition view_rows :: "lock_file \<Rightarrow> (gat_path \<times> oid) list" where
  "view_rows self = map (\<lambda>r. (GatPath (row_path self r), row_oid r)) (rows self)"

definition view_row :: "lock_file \<Rightarrow> nat \<Rightarrow> (gat_path \<times> oid) option" where
  "view_row self index = map_option (\<lambda>r. (GatPath (row_path self r), row_oid r)) (nth_opt (rows self) index)"

definition view_find :: "lock_file \<Rightarrow> str \<Rightarrow> (gat_path \<times> oid) option" where
  "view_find self path =
     (case binary_search_by (\<lambda>r. cmp (row_path self r) path) (rows self) of
        Inl _ \<Rightarrow> None
      | Inr index \<Rightarrow> view_row self index)"

section \<open>Readers of a certified file\<close>

definition lock_parse :: "features \<Rightarrow> str \<Rightarrow> lock_error + lock" where
  "lock_parse f text =
     and_then (parse_lock_file f text) (\<lambda>view.
       Ok \<lparr>lock_entries = map (\<lambda>(path, oid'). entry_from_validated_parts path oid') (view_rows view)\<rparr>)"

text \<open>
  The callbacks are \<open>FnMut\<close> closures: they take and return the state they capture.
\<close>

fun visit_rows_loop ::
  "('s \<Rightarrow> str \<Rightarrow> oid \<Rightarrow> 's \<times> (lock_error + bool)) \<Rightarrow> ('s \<Rightarrow> entry \<Rightarrow> 's \<times> (lock_error + unit))
     \<Rightarrow> 's \<Rightarrow> (gat_path \<times> oid) list \<Rightarrow> 's \<times> (lock_error + unit)" where
  "visit_rows_loop select visit st [] = (st, Ok ())"
| "visit_rows_loop select visit st ((path, oid') # rest) =
     (case select st (as_str path) oid' of
        (st, Inl e) \<Rightarrow> (st, Err e)
      | (st, Inr False) \<Rightarrow> visit_rows_loop select visit st rest
      | (st, Inr True) \<Rightarrow>
          (case visit st (entry_from_validated_parts path oid') of
             (st, Inl e) \<Rightarrow> (st, Err e)
           | (st, Inr _) \<Rightarrow> visit_rows_loop select visit st rest))"

definition visit_rows_validated ::
  "features \<Rightarrow> str \<Rightarrow> ('s \<Rightarrow> str \<Rightarrow> oid \<Rightarrow> 's \<times> (lock_error + bool))
     \<Rightarrow> ('s \<Rightarrow> entry \<Rightarrow> 's \<times> (lock_error + unit)) \<Rightarrow> 's \<Rightarrow> 's \<times> (lock_error + unit)" where
  "visit_rows_validated f text select visit st =
     (case parse_lock_file f text of
        Inl e \<Rightarrow> (st, Err e)
      | Inr view \<Rightarrow> visit_rows_loop select visit st (view_rows view))"

definition visit_filtered_matching ::
  "features \<Rightarrow> str \<Rightarrow> ('s \<Rightarrow> str \<Rightarrow> 's \<times> bool) \<Rightarrow> ('s \<Rightarrow> entry \<Rightarrow> 's \<times> (lock_error + unit))
     \<Rightarrow> 's \<Rightarrow> 's \<times> (lock_error + unit)" where
  "visit_filtered_matching f text keep visit st =
     visit_rows_validated f text (\<lambda>st path _. (case keep st path of (st, k) \<Rightarrow> (st, Ok k))) visit st"

record 's filtered_row_cursor =
  view :: lock_file
  next_row :: nat
  keep_state :: 's

definition cursor_new :: "features \<Rightarrow> str \<Rightarrow> 's \<Rightarrow> lock_error + 's filtered_row_cursor" where
  "cursor_new f text st =
     map_ok (\<lambda>v. \<lparr>view = v, next_row = 0, keep_state = st\<rparr>) (parse_lock_file f text)"

function cursor_next ::
  "('s \<Rightarrow> str \<Rightarrow> 's \<times> bool) \<Rightarrow> 's filtered_row_cursor \<Rightarrow> 's filtered_row_cursor \<times> entry option" where
  "cursor_next keep self =
     (case view_row (view self) (next_row self) of
        None \<Rightarrow> (self, None)
      | Some (path, oid') \<Rightarrow>
          (case keep (keep_state self) (as_str path) of
             (st, wanted) \<Rightarrow>
               (let self = self\<lparr>next_row := next_row self + 1, keep_state := st\<rparr> in
                if wanted then (self, Some (entry_from_validated_parts path oid'))
                else cursor_next keep self)))"
  by pat_completeness auto
termination
  by (relation "measure (\<lambda>(keep, self). length (rows (view self)) - next_row self)")
    (auto simp: view_row_def nth_opt_Some)

declare cursor_next.simps [simp del]

text \<open>What a consumer that exhausts the cursor receives: at most one entry per row.\<close>

fun cursor_drain ::
  "nat \<Rightarrow> ('s \<Rightarrow> str \<Rightarrow> 's \<times> bool) \<Rightarrow> 's filtered_row_cursor \<Rightarrow> 's filtered_row_cursor \<times> entry list" where
  "cursor_drain 0 keep self = (self, [])"
| "cursor_drain (Suc n) keep self =
     (case cursor_next keep self of
        (self, None) \<Rightarrow> (self, [])
      | (self, Some e) \<Rightarrow>
          (case cursor_drain n keep self of (self, es) \<Rightarrow> (self, e # es)))"

end
