(* ===== verification/LockParse.thy ===== *)
theory LockParse
  imports LockReader
begin

text \<open>
  What the decoder of \<open>gat.lock\<close> computes. A reference parser works on the remaining text and the
  entries read so far, with no offsets, arena, stack or kernel; the decoder refines it, errors and
  line numbers included, for every kernel that meets the contract. From the reference parser
  follow the grammar of accepted files and the round trips with the serializer.
\<close>

section \<open>Escaped fields\<close>

fun unescape :: "str \<Rightarrow> str option" where
  "unescape [] = Some []"
| "unescape (b # s) =
     (if b < 32 then None
      else if b \<noteq> BACKSLASH then map_option ((#) b) (unescape s)
      else
        (case s of
           x # h # l # rest \<Rightarrow>
             (if x \<noteq> 120 then None
              else
                (case (nibble h, nibble l) of
                   (Some hi, Some lo) \<Rightarrow>
                     (if hi * 16 + lo \<ge> 32 then None
                      else map_option ((#) (hi * 16 + lo)) (unescape rest))
                 | _ \<Rightarrow> None))
         | _ \<Rightarrow> None))"

lemma recombine_times: "drop_bit 4 b * 16 + (b AND 15) = (b :: u8)"
proof -
  have "\<forall>b :: u8. drop_bit 4 b * 16 + (b AND 15) = b"
    unfolding all_bytes by code_simp
  then show ?thesis by blast
qed

lemma byte_hex_times:
  assumes "nibble h = Some hi" "nibble l = Some lo"
  shows "byte_hex (hi * 16 + lo) = [h, l]"
proof -
  have "\<forall>hi :: u8. hi < 16 \<longrightarrow> (\<forall>lo :: u8. lo < 16 \<longrightarrow>
      drop_bit 4 (hi * 16 + lo) = hi \<and> (hi * 16 + lo) AND 15 = lo)"
    unfolding all_nibbles by code_simp
  then show ?thesis
    using assms hex_value_Some by (simp add: nibble_hex_value byte_hex_def)
qed

lemma unescape_escape: "BACKSLASH \<notin> set p \<Longrightarrow> unescape (escape p) = Some p"
proof (induction p)
  case (Cons b p)
  have n: "nibble (hex_digit (drop_bit 4 b)) = Some (drop_bit 4 b)" "nibble (hex_digit (b AND 15)) = Some (b AND 15)"
    by (simp_all add: nibble_hex_value)
  show ?case
    using Cons n recombine_times [of b] by (simp add: escape_byte_def byte_hex_def not_less)
qed simp

lemma unescape_Some:
  "unescape s = Some p \<Longrightarrow> s = escape p \<and> BACKSLASH \<notin> set p"
proof (induction s arbitrary: p rule: unescape.induct)
  case (2 b s)
  show ?case
  proof (cases "b < 32 \<or> b \<noteq> BACKSLASH")
    case True
    with 2 show ?thesis by (cases "b < 32") (auto simp: escape_byte_def)
  next
    case False
    with 2(3) obtain h l rest hi lo q where s: "s = 120 # h # l # rest" "nibble h = Some hi" "nibble l = Some lo"
      "hi * 16 + lo < 32" "unescape rest = Some q" "p = (hi * 16 + lo) # q"
      by (auto split: list.splits option.splits if_splits)
    then have "rest = escape q \<and> BACKSLASH \<notin> set q"
      using 2(2) False by auto
    then show ?thesis
      using s False byte_hex_times [OF s(2,3)] by (auto simp: escape_byte_def)
  qed
qed simp

lemma unescape_iff: "unescape s = Some p \<longleftrightarrow> s = escape p \<and> BACKSLASH \<notin> set p"
  using unescape_escape unescape_Some by blast

lemma unescape_plain: "\<forall>b \<in> set s. \<not> is_special b \<Longrightarrow> unescape s = Some s"
  by (induction s) (auto simp: is_special_def)

lemma unescape_control: "b \<in> set s \<Longrightarrow> b < 32 \<Longrightarrow> BACKSLASH \<notin> set s \<Longrightarrow> unescape s = None"
  by (induction s) auto

lemma decode_escaped_loop_eq:
  "start \<le> pos \<Longrightarrow> pos \<le> length bytes \<Longrightarrow>
     decode_escaped_loop bytes start pos ar
       = map_option (\<lambda>p. ar @ slice start pos bytes @ p) (unescape (drop pos bytes))"
proof (induction bytes start pos ar rule: decode_escaped_loop.induct)
  case (1 bytes start pos ar)
  show ?case
  proof (cases "pos < length bytes")
    case False
    then have "decode_escaped_loop bytes start pos ar = Some (ar @ drop start bytes)"
      by (subst decode_escaped_loop.simps) simp
    with False 1 show ?thesis by (simp add: slice_def)
  next
    case True
    then have d: "drop pos bytes = bytes ! pos # drop (pos + 1) bytes"
      by (simp add: Cons_nth_drop_Suc)
    consider "bytes ! pos < 32" | "\<not> bytes ! pos < 32" "bytes ! pos \<noteq> BACKSLASH" | "bytes ! pos = BACKSLASH"
      by blast
    then show ?thesis
    proof cases
      case 1
      with True d show ?thesis by (simp add: decode_escaped_loop.simps [of bytes start pos])
    next
      case 2
      with True d "1.IH"(1) "1.prems" show ?thesis
        by (simp add: decode_escaped_loop.simps [of bytes start pos] slice_snoc option.map_comp comp_def)
    next
      case 3
      define r where "r = drop (Suc pos) bytes"
      have n: "nth_opt bytes (Suc pos) = nth_opt r 0" "nth_opt bytes (pos + 2) = nth_opt r 1"
        "nth_opt bytes (Suc (Suc pos)) = nth_opt r 1"
        "nth_opt bytes (pos + 3) = nth_opt r 2" "drop (pos + 4) bytes = drop 3 r"
        by (simp_all add: r_def add.commute numeral_eq_Suc)
      note eq = decode_escaped_loop.simps [of bytes start pos ar] n
      show ?thesis
      proof (cases "\<exists>x h l rest. r = x # h # l # rest")
        case False
        then have "nth_opt r 2 = None" "unescape (BACKSLASH # r) = None"
          by (cases r; cases "tl r"; cases "tl (tl r)"; auto simp: nth_opt_None)+
        with True 3 d show ?thesis
          by (simp add: eq Let_def flip: r_def split: option.split bind_splits)
      next
        case True
        then obtain x h l rest where r: "r = x # h # l # rest" by blast
        then have len: "pos + 4 \<le> length bytes" "drop (pos + 4) bytes = rest"
        proof -
          show "drop (pos + 4) bytes = rest" using n(5) by (simp add: r)
          have "length (drop (Suc pos) bytes) = length rest + 3" using r by (simp add: r_def)
          then show "pos + 4 \<le> length bytes" by simp
        qed
        show ?thesis
          using \<open>pos < length bytes\<close> 3 d r len "1.IH"(2)
          by (auto simp: eq Let_def numeral_2_eq_2 option.map_comp comp_def simp flip: r_def split: option.splits)
      qed
    qed
  qed
qed

section \<open>The stack of row indices\<close>

definition lcp_step :: "str list \<Rightarrow> str \<Rightarrow> str \<Rightarrow> str list" where
  "lcp_step st previous path = dropWhile (\<lambda>p. length p > common_prefix_length previous path) (previous # st)"

lemma common_prefix_prefix: "prefix p previous \<Longrightarrow> length p \<le> common_prefix_length previous path \<longleftrightarrow> prefix p path"
proof (induction p arbitrary: previous path)
  case (Cons a p)
  then obtain previous' where "previous = a # previous'" "prefix p previous'"
    by (auto simp: prefix_def)
  with Cons.IH show ?case
    by (cases path) (auto simp: common_prefix_length_def)
qed simp

lemma lcp_step_retains:
  assumes "chain (previous # st)"
  shows "lcp_step st previous path = dropWhile (\<lambda>p. \<not> prefix p path) (previous # st)"
proof -
  have "prefix p previous" if "p \<in> set (previous # st)" for p
    using assms that by (auto simp: chain_def strict_prefix_def)
  then show ?thesis
    unfolding lcp_step_def
    by (intro dropWhile_cong refl) (metis common_prefix_prefix not_le)
qed

interpretation lcp: prefix_stack lcp_step
  by unfold_locales (rule lcp_step_retains)

section \<open>The reference parser\<close>

definition admit :: "(str \<times> oid) list \<Rightarrow> str \<Rightarrow> nat \<Rightarrow> lock_error + unit" where
  "admit es p line =
     (if es = [] then Ok ()
      else if fst (last es) = p then Err (Domain (DuplicatePath p (Some line)))
      else if fst (last es) > p then Err (Domain (MalformedRow line (UnorderedPath p)))
      else
        (case find (\<lambda>(a, _). is_directory_prefix a p) es of
           Some (a, _) \<Rightarrow> Err (Domain (DirectoryPrefixConflict a p))
         | None \<Rightarrow> Ok ()))"

definition reference_row :: "(str \<times> oid) list \<Rightarrow> str \<Rightarrow> lock_error + ((str \<times> oid) \<times> str)" where
  "reference_row es s =
     (let line = length es + 2; rest = drop 65 s in
      if nth_opt s 64 \<noteq> Some TAB then Err (Domain (MalformedRow line InvalidSeparator))
      else
        (case oid_from_hex (take 64 s) of
           Inl _ \<Rightarrow> Err (Domain (InvalidOid line (hd (split_on LF rest)) NotHexBlake3))
         | Inr o' \<Rightarrow>
             (case find_byte LF rest of
                None \<Rightarrow> Err (Domain (MalformedRow line MissingLineFeed))
              | Some n \<Rightarrow>
                  (case unescape (strip_cr (take n rest)) of
                     None \<Rightarrow> Err (Domain (NonCanonicalPath line (strip_cr (take n rest))))
                   | Some p \<Rightarrow>
                       and_then (validate_path p line) (\<lambda>_.
                       and_then (admit es p line) (\<lambda>_. Ok ((p, o'), drop (n + 1) rest)))))))"

lemma reference_row_shorter: "reference_row es s = Ok (e, s') \<Longrightarrow> length s' < length s"
  by (auto simp: reference_row_def Let_def and_then_eq_Inr nth_opt_Some split: if_splits sum.splits option.splits)

function reference_rows :: "(str \<times> oid) list \<Rightarrow> str \<Rightarrow> lock_error + (str \<times> oid) list" where
  "reference_rows es s =
     (if s = [] then Ok es
      else
        (case reference_row es s of
           Inl e \<Rightarrow> Err e
         | Inr (e, s') \<Rightarrow> reference_rows (es @ [e]) s'))"
  by pat_completeness auto
termination
  by (relation "measure (\<lambda>(es, s). length s)") (auto dest: reference_row_shorter)

declare reference_rows.simps [simp del]

definition reference_parse :: "str \<Rightarrow> lock_error + (str \<times> oid) list" where
  "reference_parse text =
     (if text = [] then Err (Domain Empty)
      else
        (case strip_header text of
           None \<Rightarrow> Err (Domain (UnsupportedVersion VERSION (first_line text)))
         | Some body \<Rightarrow> reference_rows [] body))"

section \<open>The decoder's state represents the entries read\<close>

definition abs_rows :: "lock_file \<Rightarrow> (str \<times> oid) list" where
  "abs_rows v = map (\<lambda>r. (row_path v r, row_oid r)) (rows v)"

definition row_fits :: "lock_file \<Rightarrow> row \<Rightarrow> bool" where
  "row_fits v r \<longleftrightarrow> row_start r + row_len r \<le> length (if row_arena r then arena v else source v)"

definition stack_of :: "str list \<Rightarrow> str list" where
  "stack_of ps = (if ps = [] then [] else last ps # prefixes_of (last ps) (butlast ps))"

definition represents :: "lock_file \<Rightarrow> nat list \<Rightarrow> (str \<times> oid) list \<Rightarrow> bool" where
  "represents v stack es \<longleftrightarrow>
     abs_rows v = es \<and> list_all (row_fits v) (rows v)
     \<and> map (\<lambda>i. row_path v (rows v ! i)) stack = stack_of (map fst es)
     \<and> (\<forall>i \<in> set stack. i < length (rows v))
     \<and> sorted_wrt (<) (map fst es) \<and> conflict_free (fst ` set es)"

lemma length_row_path: "row_fits v r \<Longrightarrow> length (row_path v r) = row_len r"
  by (auto simp: row_fits_def row_path_def length_slice)

text \<open>Extending the arena leaves the paths already read as they are.\<close>

lemma row_path_arena: "row_fits v r \<Longrightarrow> row_path (v\<lparr>arena := arena v @ x\<rparr>) r = row_path v r"
  by (auto simp: row_fits_def row_path_def)

lemma represents_arena:
  "represents v stack es \<Longrightarrow> represents (v\<lparr>arena := arena v @ x\<rparr>) stack es"
proof -
  assume r: "represents v stack es"
  then have f: "row_fits v r" if "r \<in> set (rows v)" for r
    using that by (simp add: represents_def list_all_iff)
  then have "row_fits (v\<lparr>arena := arena v @ x\<rparr>) r" if "r \<in> set (rows v)" for r
    using f [OF that] by (auto simp: row_fits_def)
  moreover have "map (\<lambda>r. (row_path (v\<lparr>arena := arena v @ x\<rparr>) r, row_oid r)) (rows v)
      = map (\<lambda>r. (row_path v r, row_oid r)) (rows v)"
    by (rule map_cong [OF refl]) (simp add: row_path_arena f)
  moreover have "map (\<lambda>i. row_path (v\<lparr>arena := arena v @ x\<rparr>) (rows v ! i)) stack
      = map (\<lambda>i. row_path v (rows v ! i)) stack"
    using r by (intro map_cong [OF refl]) (simp add: row_path_arena f represents_def)
  ultimately show ?thesis
    using r by (simp add: represents_def abs_rows_def list_all_iff del: map_eq_conv)
qed

section \<open>One row of the decoder against the reference\<close>

lemma decode_path_eq:
  "decode_path v line field (list_ex is_special field) =
     (case unescape field of
        None \<Rightarrow> Err (Domain (NonCanonicalPath line field))
      | Some p \<Rightarrow>
          Ok (if BACKSLASH \<in> set field then (arena v @ p, True, p) else (arena v, False, p)))"
proof (cases "BACKSLASH \<in> set field")
  case True
  then have "list_ex is_special field"
    by (auto simp: list_ex_iff is_special_def)
  with True show ?thesis
    by (simp add: decode_path_def decode_escaped_def decode_escaped_loop_eq Let_def split: option.split)
next
  case False
  show ?thesis
  proof (cases "list_ex is_special field")
    case True
    then obtain b where "b \<in> set field" "b < 32"
      using False by (auto simp: list_ex_iff is_special_def)
    with unescape_control [of b field] False True show ?thesis
      by (simp add: decode_path_def Let_def)
  next
    case no_special: False
    then have "unescape field = Some field"
      by (intro unescape_plain) (auto simp: list_ex_iff)
    with False no_special show ?thesis by (simp add: decode_path_def Let_def)
  qed
qed

lemma find_conflict:
  assumes "\<And>a. conflict_on_top st p = Some a \<longleftrightarrow> a \<in> fst ` set es \<and> is_directory_prefix a p"
  shows "conflict_on_top st p = map_option fst (find (\<lambda>(a, _). is_directory_prefix a p) es)"
proof (cases "find (\<lambda>(a, _). is_directory_prefix a p) es")
  case None
  then have "\<not> is_directory_prefix a p" if "a \<in> fst ` set es" for a
    using that by (auto simp: find_None_iff)
  with assms have "\<nexists>a. conflict_on_top st p = Some a" by metis
  then have "conflict_on_top st p = None" by (metis option.exhaust)
  with None show ?thesis by simp
next
  case (Some x)
  then have "fst x \<in> fst ` set es \<and> is_directory_prefix (fst x) p"
    by (auto simp: find_Some_iff) (metis fst_conv imageI nth_mem)
  with assms [of "fst x"] Some show ?thesis by simp
qed

lemma sorted_snoc:
  "xs \<noteq> [] \<Longrightarrow> sorted_wrt (<) xs \<Longrightarrow> sorted_wrt (<) (xs @ [p]) \<longleftrightarrow> last xs < (p :: 'a :: linorder)"
  by (cases xs rule: rev_cases) (auto simp: sorted_wrt_append intro: order.strict_trans)

lemma admit_Ok:
  assumes "sorted_wrt (<) (map fst es)" "conflict_free (fst ` set es)"
  shows "admit es p line = Ok () \<longleftrightarrow>
    sorted_wrt (<) (map fst es @ [p]) \<and> conflict_free (insert p (fst ` set es))"
proof (cases "es = []")
  case True
  then show ?thesis by (simp add: admit_def conflict_free_def)
next
  case False
  have s: "sorted_wrt (<) (map fst es @ [p]) \<longleftrightarrow> fst (last es) < p"
    using sorted_snoc [of "map fst es" p] False assms(1) by (simp add: last_map)
  have "conflict_free (insert p (fst ` set es)) \<longleftrightarrow> (\<forall>a \<in> fst ` set es. \<not> is_directory_prefix a p)"
    if "sorted_wrt (<) (map fst es @ [p])"
    using conflict_free_snoc [of "map fst es" p] that assms(2) by (auto simp: conflict_free_def)
  moreover have "(\<forall>a \<in> fst ` set es. \<not> is_directory_prefix a p)
      \<longleftrightarrow> find (\<lambda>(a, _). is_directory_prefix a p) es = None"
    by (auto simp: find_None_iff)
  ultimately show ?thesis
    using False s by (auto simp: admit_def split: option.split)
qed

lemma check_order_eq:
  assumes r: "represents v stack es"
  shows "(case check_order v stack p line of
      Inl e \<Rightarrow> admit es p line = Inl e
    | Inr stack' \<Rightarrow> admit es p line = Inr () \<and>
        map (\<lambda>i. row_path v (rows v ! i)) stack' = prefixes_of p (map fst es)
        \<and> set stack' \<subseteq> set stack)"
proof (cases "rows v = []")
  case True
  then have "es = []" "stack = []" using r by (auto simp: represents_def abs_rows_def stack_of_def)
  with True show ?thesis by (simp add: check_order_def admit_def prefixes_of_def)
next
  case False
  let ?path = "\<lambda>i. row_path v (rows v ! i)" and ?ps = "map fst es"
  let ?prev = "row_path v (last (rows v))"
  have es: "es \<noteq> []" "fst (last es) = ?prev" "last ?ps = ?prev" "?ps \<noteq> []"
    using r False by (auto simp: represents_def abs_rows_def last_map)
  have st: "map ?path stack = ?prev # prefixes_of ?prev (butlast ?ps)"
    using r es by (simp add: represents_def stack_of_def)
  define stack' where "stack' = dropWhile (\<lambda>i. row_len (rows v ! i) > common_prefix_length ?prev p) stack"
  have len: "row_len (rows v ! i) = length (?path i)" if "i \<in> set stack" for i
    using r that by (simp add: represents_def list_all_iff length_row_path)
  have sub: "set stack' \<subseteq> set stack" by (auto simp: stack'_def dest: set_dropWhileD)
  have "map ?path stack' = dropWhile (\<lambda>q. length q > common_prefix_length ?prev p) (map ?path stack)"
    unfolding stack'_def dropWhile_map comp_def
    by (rule arg_cong [where f = "map ?path"], rule dropWhile_cong) (simp_all add: len)
  then have m: "map ?path stack' = lcp_step (prefixes_of ?prev (butlast ?ps)) ?prev p"
    by (simp add: lcp_step_def st)
  show ?thesis
  proof (cases "?prev < p")
    case less: True
    have snoc: "butlast ?ps @ [?prev] = ?ps" using es by (metis append_butlast_last_id)
    have sp: "sorted_wrt (<) (?ps @ [p])"
      using sorted_snoc [of ?ps p] es less r by (simp add: represents_def)
    then have sorted: "sorted_wrt (<) (butlast ?ps @ [?prev, p])"
      by (metis append.assoc append_Cons append_Nil snoc)
    from m have m': "map ?path stack' = prefixes_of p ?ps"
      using lcp.step_prefixes_of [OF sorted] snoc by simp
    have "conflict_on_top (prefixes_of p ?ps) p = Some a \<longleftrightarrow> a \<in> fst ` set es \<and> is_directory_prefix a p" for a
      using conflict_on_top_prefixes [OF sp, of a] r by (simp add: represents_def)
    from find_conflict [OF this] have top: "conflict_on_top (map ?path stack') p
        = map_option fst (find (\<lambda>(a, _). is_directory_prefix a p) es)"
      by (simp add: m')
    have "check_order v stack p line =
        (case conflict_on_top (map ?path stack') p of
           Some a \<Rightarrow> Err (Domain (DirectoryPrefixConflict a p)) | None \<Rightarrow> Ok stack')"
      using False less len sub
      by (cases stack') (auto simp: check_order_def Let_def stack'_def [symmetric])
    then show ?thesis
      using less es m' sub unfolding top
      by (auto simp: admit_def split: option.split)
  next
    case False
    with es \<open>rows v \<noteq> []\<close> show ?thesis
      by (auto simp: check_order_def admit_def Let_def)
  qed
qed

lemma unescape_no_backslash: "unescape s = Some p \<Longrightarrow> BACKSLASH \<notin> set s \<Longrightarrow> p = s"
  by (induction s arbitrary: p) (auto split: if_splits)

lemma strip_cr_prefix: "prefix (strip_cr s) s"
  by (auto simp: strip_cr_def str_simps split: option.splits)

lemma represents_push:
  assumes r: "represents v stack es"
    and path: "row_path (v\<lparr>rows := rows v @ [x]\<rparr>) x = p" "row_fits v x" "row_oid x = o'"
    and st: "map (\<lambda>i. row_path v (rows v ! i)) stack' = prefixes_of p (map fst es)" "set stack' \<subseteq> set stack"
    and ok: "admit es p line = Ok ()"
  shows "represents (v\<lparr>rows := rows v @ [x]\<rparr>) (length (rows v) # stack') (es @ [(p, o')])"
proof -
  have same: "row_path (v\<lparr>rows := rs\<rparr>) y = row_path v y" "row_fits (v\<lparr>rows := rs\<rparr>) y = row_fits v y" for rs y
    by (simp_all add: row_path_def row_fits_def)
  have lt: "i < length (rows v)" if "i \<in> set stack'" for i
    using that st(2) r by (auto simp: represents_def)
  have "map (\<lambda>i. row_path v ((rows v @ [x]) ! i)) stack' = map (\<lambda>i. row_path v (rows v ! i)) stack'"
    by (rule map_cong [OF refl]) (simp add: lt nth_append)
  then have stack: "map (\<lambda>i. row_path (v\<lparr>rows := rows v @ [x]\<rparr>) ((rows v @ [x]) ! i)) (length (rows v) # stack')
      = stack_of (map fst (es @ [(p, o')]))"
    using path st(1) by (simp add: stack_of_def same del: map_eq_conv)
  have es: "abs_rows v = es" "sorted_wrt (<) (map fst es)" "conflict_free (fst ` set es)"
    "list_all (row_fits v) (rows v)"
    using r by (simp_all add: represents_def)
  have abs: "abs_rows (v\<lparr>rows := rows v @ [x]\<rparr>) = es @ [(p, o')]"
    using es(1) path by (simp add: abs_rows_def same)
  have "sorted_wrt (<) (map fst es @ [p]) \<and> conflict_free (insert p (fst ` set es))"
    using admit_Ok [OF es(2,3)] ok by blast
  then show ?thesis
    unfolding represents_def using stack abs es(4) path(2) lt
    by (auto simp: same list_all_iff less_Suc_eq)
qed

lemma strip_header_Some:
  "strip_header text = Some body \<Longrightarrow> \<exists>nl. text = VERSION @ nl @ body \<and> (nl = [LF] \<or> nl = [CR, LF])"
  by (auto simp: strip_header_def str_simps split: option.splits)

context row_kernel
begin

lemma decode_row_refines:
  assumes r: "represents v stack es" and pos: "pos \<le> length (source v)"
  shows "case decode_row row v stack pos of
      Inl e \<Rightarrow> reference_row es (drop pos (source v)) = Inl e
    | Inr (v', stack', pos') \<Rightarrow>
        \<exists>e. reference_row es (drop pos (source v)) = Inr (e, drop pos' (source v'))
          \<and> represents v' stack' (es @ [e]) \<and> pos' \<le> length (source v')"
proof (cases "nth_opt (source v) (pos + 64) = Some TAB")
  case False
  have "length (rows v) = length es" using r by (auto simp: represents_def abs_rows_def)
  with False show ?thesis by (simp add: decode_row_def reference_row_def Let_def)
next
  case True
  let ?src = "source v" and ?start = "pos + 65"
  let ?hash = "slice pos (pos + 64) ?src" and ?rest = "drop ?start ?src"
  have lens: "length (rows v) = length es" using r by (auto simp: represents_def abs_rows_def)
  have hash: "length ?hash = 64" "take 64 (drop pos ?src) = ?hash"
    using True by (auto simp: nth_opt_Some slice_def)
  have rest: "drop 65 (drop pos ?src) = ?rest" by (simp add: add.commute)
  show ?thesis
  proof (cases "oid_from_hex ?hash")
    case (Inl e)
    then show ?thesis
      using True hash rest bad_digit [OF hash(1)]
      by (simp add: decode_row_def reference_row_def Let_def row_eq scalar_spec lens)
  next
    case (Inr o')
    note o' = this
    then have digits: "\<not> list_ex (\<lambda>b. nibble b = None) ?hash" using bad_digit [OF hash(1)] by auto
    show ?thesis
    proof (cases "find_byte LF ?rest")
      case None
      then show ?thesis
        using True hash rest digits o'
        by (simp add: decode_row_def reference_row_def Let_def row_eq scalar_spec lens)
    next
      case (Some n)
      let ?field = "strip_cr (take n ?rest)" and ?line = "length es + 2"
      have n: "n < length ?rest" using Some by (simp add: find_byte_Some)
      have field: "slice ?start (?start + n) ?src = take n ?rest" by (simp add: slice_def)
      have "length (take n ?rest) = n" using n by simp
      then have flen: "length ?field \<le> n" using prefix_length_le [OF strip_cr_prefix] by metis
      have kern: "row ?hash ?rest = Some (oid_bytes o', n, list_ex is_special ?field)"
        using hash o' Some by (simp add: row_eq scalar_spec)
      have dr: "decode_row row v stack pos =
        (case unescape ?field of
           None \<Rightarrow> Err (Domain (NonCanonicalPath ?line ?field))
         | Some p \<Rightarrow>
             (let in_arena = BACKSLASH \<in> set ?field;
                  v = v\<lparr>arena := arena v @ (if in_arena then p else [])\<rparr> in
              and_then (validate_path p ?line) (\<lambda>_.
              and_then (check_order v stack p ?line) (\<lambda>stack.
                Ok (v\<lparr>rows := rows v @ [\<lparr>row_start = (if in_arena then length (arena v) - length p else ?start),
                      row_len = length p, row_arena = in_arena, row_oid = Oid (oid_bytes o')\<rparr>]\<rparr>,
                    length (rows v) # stack, ?start + n + 1)))))"
        using True hash kern field
        by (auto simp: decode_row_def decode_path_eq Let_def lens split: option.split)
      have rr: "reference_row es (drop pos ?src) =
        (case unescape ?field of
           None \<Rightarrow> Err (Domain (NonCanonicalPath ?line ?field))
         | Some p \<Rightarrow> and_then (validate_path p ?line) (\<lambda>_.
             and_then (admit es p ?line) (\<lambda>_. Ok ((p, o'), drop (?start + n + 1) ?src))))"
        using True hash rest o' Some
        by (simp add: reference_row_def Let_def add.commute add.left_commute split: option.split)
      show ?thesis
      proof (cases "unescape ?field")
        case None
        with dr rr show ?thesis by simp
      next
        case p: (Some p)
        define a where "a = (BACKSLASH \<in> set ?field)"
        define w where "w = v\<lparr>arena := arena v @ (if a then p else [])\<rparr>"
        define x where "x = \<lparr>row_start = (if a then length (arena w) - length p else ?start),
            row_len = length p, row_arena = a, row_oid = Oid (oid_bytes o')\<rparr>"
        have w: "represents w stack es" unfolding w_def by (rule represents_arena [OF r])
        have wsrc: "source w = ?src" "rows w = rows v" by (simp_all add: w_def)
        have plain: "p = ?field" if "\<not> a"
          using unescape_no_backslash [OF p] that by (simp add: a_def)
        have x: "row_path (w\<lparr>rows := rs\<rparr>) x = p" "row_fits w x" "row_oid x = o'" for rs
        proof -
          show "row_path (w\<lparr>rows := rs\<rparr>) x = p"
          proof (cases a)
            case True
            then show ?thesis by (simp add: row_path_def x_def w_def slice_def)
          next
            case False
            then have "row_path (w\<lparr>rows := rs\<rparr>) x = take (length p) ?rest"
              by (simp add: row_path_def x_def w_def slice_def)
            also have "\<dots> = take (length p) (take n ?rest)"
              using flen plain [OF False] by (simp add: min_absorb1)
            also have "\<dots> = p"
            proof -
              have "prefix p (take n ?rest)" using strip_cr_prefix plain [OF False] by simp
              then obtain zs where "take n ?rest = p @ zs" by (auto simp: prefix_def)
              then show ?thesis by (simp del: take_take)
            qed
            finally show ?thesis .
          qed
          show "row_fits w x"
            using n flen plain by (cases a) (auto simp: row_fits_def x_def w_def)
        qed (simp add: x_def)
        show ?thesis
        proof (cases "validate_path p ?line")
          case (Inl e)
          with dr rr p show ?thesis by (simp add: Let_def)
        next
          case vp: (Inr u)
          have dr': "decode_row row v stack pos = and_then (check_order w stack p ?line) (\<lambda>stack.
              Ok (w\<lparr>rows := rows w @ [x]\<rparr>, length (rows w) # stack, ?start + n + 1))"
            using dr p vp by (simp add: Let_def x_def w_def flip: a_def)
          have rr': "reference_row es (drop pos ?src) =
              and_then (admit es p ?line) (\<lambda>_. Ok ((p, o'), drop (?start + n + 1) ?src))"
            using rr p vp by simp
          show ?thesis
          proof (cases "check_order w stack p ?line")
            case (Inl e)
            with check_order_eq [OF w, of p ?line] show ?thesis by (simp add: dr' rr')
          next
            case (Inr stack')
            with check_order_eq [OF w, of p ?line]
            have c: "admit es p ?line = Inr ()" "map (\<lambda>i. row_path w (rows w ! i)) stack' = prefixes_of p (map fst es)"
              "set stack' \<subseteq> set stack" by auto
            have "represents (w\<lparr>rows := rows w @ [x]\<rparr>) (length (rows w) # stack') (es @ [(p, o')])"
              by (rule represents_push [OF w x c(2,3,1)])
            then show ?thesis
              using Inr c n wsrc by (simp add: dr' rr')
          qed
        qed
      qed
    qed
  qed
qed

lemma decode_loop_refines:
  "represents v stack es \<Longrightarrow> pos \<le> length (source v) \<Longrightarrow>
     map_ok abs_rows (decode_loop row v stack pos) = reference_rows es (drop pos (source v))
     \<and> (\<forall>v'. decode_loop row v stack pos = Ok v' \<longrightarrow> (\<exists>stack'. represents v' stack' (abs_rows v')))"
proof (induction "length (source v) - pos" arbitrary: v stack es pos rule: less_induct)
  case less
  note step = decode_row_refines [OF less.prems]
  show ?case
  proof (cases "pos < length (source v)")
    case False
    then have "decode_loop row v stack pos = Ok v" "reference_rows es (drop pos (source v)) = Ok es"
      by (simp_all add: decode_loop.simps [of row v stack pos] reference_rows.simps [of es "[]"])
    with less.prems show ?thesis by (auto simp: represents_def)
  next
    case True
    note simps = decode_loop.simps [of row v stack pos] reference_rows.simps [of es "drop pos (source v)"]
    show ?thesis
    proof (cases "decode_row row v stack pos")
      case (Inl e)
      with step True show ?thesis by (simp add: simps)
    next
      case (Inr y)
      then obtain v' stack' pos' where y: "y = (v', stack', pos')" by (cases y)
      with Inr step obtain e where e: "reference_row es (drop pos (source v)) = Inr (e, drop pos' (source v'))"
        "represents v' stack' (es @ [e])" "pos' \<le> length (source v')" by auto
      have adv: "pos < pos'" "source v' = source v"
        using decode_row_advances [of row v stack pos] Inr y by auto
      have "decode_loop row v stack pos = decode_loop row v' stack' pos'"
        "reference_rows es (drop pos (source v)) = reference_rows (es @ [e]) (drop pos' (source v'))"
        using True Inr y e by (simp_all add: simps)
      moreover have "length (source v') - pos' < length (source v) - pos"
        using adv True by simp
      ultimately show ?thesis using less.hyps [OF _ e(2,3)] by simp
    qed
  qed
qed

lemma decode_with_refines:
  "map_ok abs_rows (decode_with row text) = reference_parse text
   \<and> (\<forall>v. decode_with row text = Ok v \<longrightarrow> (\<exists>stack. represents v stack (abs_rows v)))"
proof (cases "strip_header text")
  case None
  then show ?thesis by (simp add: decode_with_def reference_parse_def)
next
  case (Some body)
  let ?v = "\<lparr>source = text, arena = [], rows = []\<rparr>"
  obtain pre where pre: "text = pre @ body"
    using strip_header_Some [OF Some] by (metis append.assoc)
  have "represents ?v [] []"
    by (simp add: represents_def abs_rows_def stack_of_def conflict_free_def)
  from decode_loop_refines [OF this, of "length text - length body"]
  show ?thesis
    using Some pre by (auto simp: decode_with_def reference_parse_def)
qed

end

interpretation backend: row_kernel "backend_row k" for k
  by unfold_locales (rule backend_row_eq)

text \<open>
  C9: On every processor the single-pass decoder, with its byte offsets, shared arena, row table
  and stack of row indices, returns what the reference parser returns on the plain text: the same
  rows in the same order, or the same error at the same line.
\<close>

theorem decoder_refines_reference:
  "map_ok (map (\<lambda>(p, o'). (as_str p, o'))) (map_ok view_rows (parse_lock_file f text)) = reference_parse text"
proof -
  have "map (\<lambda>(p, o'). (as_str p, o')) (view_rows v) = abs_rows v" for v
    by (simp add: view_rows_def abs_rows_def)
  then show ?thesis
    using backend.decode_with_refines [of "selected f" "text"]
    by (cases "parse_lock_file f text") (auto simp: parse_lock_file_def)
qed

section \<open>The grammar of accepted files\<close>

definition line_end :: "str \<Rightarrow> bool" where
  "line_end t \<longleftrightarrow> t = [LF] \<or> t = [CR, LF]"

definition row_line :: "str \<times> oid \<Rightarrow> str \<Rightarrow> str" where
  "row_line e t = to_hex (snd e) @ TAB # escape (fst e) @ t"

definition rows_text :: "(str \<times> oid) list \<Rightarrow> str list \<Rightarrow> str" where
  "rows_text es ts = concat (map2 row_line es ts)"

definition valid_rows :: "(str \<times> oid) list \<Rightarrow> bool" where
  "valid_rows es \<longleftrightarrow>
     sorted_wrt (<) (map fst es) \<and> conflict_free (fst ` set es)
     \<and> (\<forall>(p, o') \<in> set es. canonical p \<and> wf_oid o')"

lemma validate_path_Ok: "validate_path p line = Ok () \<longleftrightarrow> canonical p"
  using validate_canonical_str_Ok [of p]
  by (cases "validate_canonical_str p"; cases "gat_path_normalize (Unicode p)")
    (simp_all add: validate_path_def)

lemma byte_hex_ge: "x \<in> set (byte_hex b) \<Longrightarrow> \<not> x < 32"
proof -
  have "\<forall>b. list_all (\<lambda>x. \<not> x < 32) (byte_hex b)"
    unfolding all_bytes by code_simp
  then show "x \<in> set (byte_hex b) \<Longrightarrow> \<not> x < 32" by (auto simp: list_all_iff)
qed

lemma escape_no_control: "x \<in> set (escape p) \<Longrightarrow> \<not> x < 32"
  by (induction p) (auto simp: escape_byte_def dest: byte_hex_ge split: if_splits)

lemma find_LF: "LF \<notin> set a \<Longrightarrow> find_byte LF (a @ LF # b) = Some (length a)"
  by (simp add: find_byte_Some)

lemma strip_cr_cases: "s = strip_cr s \<or> s = strip_cr s @ [CR]"
  by (auto simp: strip_cr_def str_simps split: option.splits)

lemma strip_cr_escape:
  "strip_cr (escape p) = escape p" "strip_cr (escape p @ [CR]) = escape p"
proof -
  have "\<not> suffix [CR] (escape p)"
    using escape_no_control [of CR p] by (auto simp: suffix_def)
  then show "strip_cr (escape p) = escape p"
    by (simp add: strip_cr_def strip_suffix_def)
qed (simp add: strip_cr_def)

lemma reference_row_Ok:
  "reference_row es s = Ok ((p, o'), s') \<longleftrightarrow>
     (\<exists>t. line_end t \<and> s = row_line (p, o') t @ s') \<and> wf_oid o' \<and> canonical p
     \<and> admit es p (length es + 2) = Ok ()" (is "?L \<longleftrightarrow> ?R")
proof
  assume ?L
  then obtain n where *: "nth_opt s 64 = Some TAB" "oid_from_hex (take 64 s) = Inr o'"
    "find_byte LF (drop 65 s) = Some n" "unescape (strip_cr (take n (drop 65 s))) = Some p"
    "validate_path p (length es + 2) = Ok ()" "admit es p (length es + 2) = Ok ()"
    "s' = drop (n + 1) (drop 65 s)"
    by (auto simp: reference_row_def Let_def and_then_eq_Inr split: if_splits sum.splits option.splits)
  let ?rest = "drop 65 s"
  have s: "s = take 64 s @ TAB # ?rest"
    using *(1) id_take_nth_drop [of 64 s] by (simp add: nth_opt_Some)
  have rest: "?rest = take n ?rest @ LF # s'"
    using *(3,7) id_take_nth_drop [of n ?rest] by (simp add: find_byte_Some)
  have f: "strip_cr (take n ?rest) = escape p" using *(4) unescape_Some by blast
  obtain t where t: "line_end t" "take n ?rest @ [LF] = escape p @ t"
    using strip_cr_cases [of "take n ?rest"] unfolding f line_end_def
    by (metis append.assoc append_Cons append_Nil)
  then have "?rest = escape p @ t @ s'"
    using rest by (metis append.assoc append_Cons append_Nil)
  then have "s = row_line (p, o') t @ s'"
    using s *(2) by (simp add: row_line_def oid_from_hex_Ok)
  then show ?R
    using * t by (auto simp: validate_path_Ok oid_from_hex_Ok)
next
  assume ?R
  then obtain t where *: "line_end t" "s = row_line (p, o') t @ s'" "wf_oid o'" "canonical p"
    "admit es p (length es + 2) = Ok ()" by blast
  have hex: "length (to_hex o') = 64" using *(3) by (rule length_to_hex)
  have s: "nth_opt s 64 = Some TAB" "take 64 s = to_hex o'" "drop 65 s = escape p @ t @ s'"
    using hex *(2) by (simp_all add: row_line_def nth_opt_Some nth_append)
  have "LF \<notin> set (escape p)" "LF \<notin> set (escape p @ [CR])"
    using escape_no_control [of LF p] by auto
  then have "\<exists>n. find_byte LF (drop 65 s) = Some n \<and> strip_cr (take n (drop 65 s)) = escape p
      \<and> drop (n + 1) (drop 65 s) = s'"
    using *(1) find_LF [of "escape p" s'] find_LF [of "escape p @ [CR]" s'] unfolding s(3)
    by (auto simp: line_end_def strip_cr_escape)
  then obtain n where n: "find_byte LF (drop 65 s) = Some n" "strip_cr (take n (drop 65 s)) = escape p"
      "drop (n + 1) (drop 65 s) = s'" by blast
  then show ?L
    using * s(1,2) unescape_escape [OF canonical_no_backslash, of p]
    by (simp add: reference_row_def Let_def oid_from_hex_Ok [THEN iffD2] validate_path_Ok [THEN iffD2])
qed

lemma valid_rows_snoc:
  "valid_rows (es @ [(p, o')]) \<longleftrightarrow>
     valid_rows es \<and> admit es p line = Ok () \<and> canonical p \<and> wf_oid o'"
proof (cases "valid_rows es")
  case True
  then show ?thesis
    using admit_Ok [of es p line] by (auto simp: valid_rows_def)
next
  case False
  then show ?thesis
    using conflict_free_subset [of "fst ` set (es @ [(p, o')])" "fst ` set es"]
    by (auto simp: valid_rows_def sorted_wrt_append)
qed

lemma valid_rows_append: "valid_rows (es @ fs) \<Longrightarrow> valid_rows es"
  using conflict_free_subset [of "fst ` set (es @ fs)" "fst ` set es"]
  by (auto simp: valid_rows_def sorted_wrt_append)

lemma reference_rows_Ok:
  "valid_rows es \<Longrightarrow> reference_rows es s = Ok es' \<longleftrightarrow>
     (\<exists>more ts. es' = es @ more \<and> length ts = length more \<and> list_all line_end ts
        \<and> s = rows_text more ts \<and> valid_rows es')"
proof (induction "length s" arbitrary: s es rule: less_induct)
  case less
  have nonempty: "rows_text (e # more) (t # ts) \<noteq> []" for e more t ts
    by (simp add: rows_text_def row_line_def)
  show ?case
  proof (cases "s = []")
    case True
    then have "reference_rows es s = Ok es" by (simp add: reference_rows.simps [of es "[]"])
    moreover have "more = []" if "length ts = length more" "rows_text more ts = []" for more ts
      using that nonempty by (cases more; cases ts) auto
    ultimately show ?thesis using True less.prems by (auto simp: rows_text_def)
  next
    case False
    have IH: "reference_rows (es @ [e]) s' = Ok es' \<longleftrightarrow>
        (\<exists>more ts. es' = (es @ [e]) @ more \<and> length ts = length more \<and> list_all line_end ts
          \<and> s' = rows_text more ts \<and> valid_rows es')" if "reference_row es s = Ok (e, s')" for e s'
    proof -
      obtain p o' where e: "e = (p, o')" by (cases e)
      have "valid_rows (es @ [e])"
        using that less.prems valid_rows_snoc [of es p o' "length es + 2"]
        by (simp add: e reference_row_Ok)
      then show ?thesis using less.hyps [of s' "es @ [e]"] reference_row_shorter [OF that] by blast
    qed
    show ?thesis
    proof
      assume "reference_rows es s = Ok es'"
      with False obtain e s' where e: "reference_row es s = Ok (e, s')" "reference_rows (es @ [e]) s' = Ok es'"
        by (auto simp: reference_rows.simps [of es s] split: sum.splits)
      with IH obtain more ts where m: "es' = es @ (e # more)" "length ts = length more" "list_all line_end ts"
        "s' = rows_text more ts" "valid_rows es'" by auto
      moreover obtain p o' where "e = (p, o')" by (cases e)
      then obtain t where "line_end t" "s = row_line e t @ s'" using e(1) by (auto simp: reference_row_Ok)
      ultimately show "\<exists>more ts. es' = es @ more \<and> length ts = length more \<and> list_all line_end ts
        \<and> s = rows_text more ts \<and> valid_rows es'"
        by (intro exI [of _ "e # more"] exI [of _ "t # ts"]) (simp add: rows_text_def)
    next
      assume "\<exists>more ts. es' = es @ more \<and> length ts = length more \<and> list_all line_end ts
        \<and> s = rows_text more ts \<and> valid_rows es'"
      then obtain more ts where m: "es' = es @ more" "length ts = length more" "list_all line_end ts"
        "s = rows_text more ts" "valid_rows es'" by blast
      with False obtain p o' more' t ts' where c: "more = (p, o') # more'" "ts = t # ts'"
        by (cases more; cases ts) (auto simp: rows_text_def)
      then have s: "s = row_line (p, o') t @ rows_text more' ts'" using m by (simp add: rows_text_def)
      have "valid_rows (es @ [(p, o')])" using m(1,5) c valid_rows_append [of "es @ [(p, o')]" more'] by simp
      then have row: "reference_row es s = Ok ((p, o'), rows_text more' ts')"
        using s m(3) c valid_rows_snoc [of es p o' "length es + 2"] by (auto simp: reference_row_Ok)
      with IH [OF row] m c have "reference_rows (es @ [(p, o')]) (rows_text more' ts') = Ok es'" by auto
      with row False show "reference_rows es s = Ok es'"
        by (simp add: reference_rows.simps [of es s])
    qed
  qed
qed

definition entry_rows :: "entry list \<Rightarrow> (str \<times> oid) list" where
  "entry_rows es = map (\<lambda>e. (as_str (entry_path e), entry_oid e)) es"

lemma VERSION_not_Nil [simp]: "VERSION \<noteq> []"
  by (simp add: VERSION_def)

lemma strip_header_iff: "strip_header text = Some body \<longleftrightarrow> (\<exists>nl. line_end nl \<and> text = VERSION @ nl @ body)"
proof
  assume "\<exists>nl. line_end nl \<and> text = VERSION @ nl @ body"
  then have "text = VERSION @ LF # body \<or> text = VERSION @ CR # LF # body"
    by (auto simp: line_end_def)
  moreover have "strip_prefix [CR, LF] (LF # body) = None" "strip_prefix [LF] (LF # body) = Some body"
    "strip_prefix [CR, LF] (CR # LF # body) = Some body"
    by (simp_all add: strip_prefix_def)
  ultimately show "strip_header text = Some body" by (auto simp: strip_header_def)
qed (auto simp: line_end_def dest: strip_header_Some)

lemma reference_parse_Ok:
  "reference_parse text = Ok es \<longleftrightarrow>
     (\<exists>nl ts. line_end nl \<and> length ts = length es \<and> list_all line_end ts
        \<and> text = VERSION @ nl @ rows_text es ts \<and> valid_rows es)"
proof -
  have v: "valid_rows []" by (simp add: valid_rows_def conflict_free_def)
  have "reference_parse text = Ok es \<longleftrightarrow> (\<exists>body. strip_header text = Some body \<and> reference_rows [] body = Ok es)"
  proof (cases "strip_header text")
    case (Some body)
    then have "text \<noteq> []" by (auto simp: strip_header_iff)
    with Some show ?thesis by (simp add: reference_parse_def)
  qed (simp add: reference_parse_def)
  also have "\<dots> \<longleftrightarrow> (\<exists>body nl. line_end nl \<and> text = VERSION @ nl @ body \<and> reference_rows [] body = Ok es)"
    unfolding strip_header_iff by blast
  finally show ?thesis
    unfolding reference_rows_Ok [OF v] append_Nil by blast
qed

lemma lock_parse_reference:
  "lock_parse f text = Ok l \<longleftrightarrow> reference_parse text = Ok (entry_rows (lock_entries l))"
proof -
  have rows: "entry_rows (map (\<lambda>(path, oid'). entry_from_validated_parts path oid') vs)
      = map (\<lambda>(p, o'). (as_str p, o')) vs" for vs
    by (auto simp: entry_rows_def entry_from_validated_parts_def)
  have inj: "entry_rows es = entry_rows fs \<longleftrightarrow> es = fs" for es fs
    by (induction es arbitrary: fs; case_tac fs)
      (auto simp: entry_rows_def entry_equality gat_path_eq_iff)
  have abs: "abs_rows v = map (\<lambda>(p, o'). (as_str p, o')) (view_rows v)" for v
    by (simp add: view_rows_def abs_rows_def)
  show ?thesis
    using backend.decode_with_refines [of "selected f" "text"]
    by (cases "parse_lock_file f text"; cases l)
      (auto simp: lock_parse_def parse_lock_file_def abs rows simp flip: rows dest: inj [THEN iffD1])
qed

lemma lock_parse_iff:
  "lock_parse f text = Ok l \<longleftrightarrow>
     (\<exists>nl ts. line_end nl \<and> length ts = length (lock_entries l) \<and> list_all line_end ts
        \<and> text = VERSION @ nl @ rows_text (entry_rows (lock_entries l)) ts
        \<and> valid_rows (entry_rows (lock_entries l)))"
  unfolding lock_parse_reference reference_parse_Ok by (simp add: entry_rows_def)

text \<open>
  C10: The accepted files are exactly those of the lock-v1 grammar: the version line, then per
  entry 64 lowercase hexadecimal digits, a TAB and the path with precisely its control bytes
  escaped, every line ended by LF or CRLF; the paths are canonical, strictly ascending, and none is
  a directory of another. Each such file parses to its entries, and nothing else parses.
\<close>

theorem lock_parse_grammar:
  "lock_parse f text = Ok l \<longleftrightarrow>
     (\<exists>nl ts. line_end nl \<and> length ts = length (lock_entries l) \<and> list_all line_end ts
        \<and> text = VERSION @ nl @ concat (map2 (\<lambda>e t. to_hex (entry_oid e) @ [TAB] @ escape (as_str (entry_path e)) @ t)
             (lock_entries l) ts))
     \<and> sorted_wrt (<) (lock_paths l) \<and> conflict_free (set (lock_paths l))
     \<and> (\<forall>e \<in> set (lock_entries l). wf_path (entry_path e) \<and> wf_oid (entry_oid e))"
proof -
  have "rows_text (entry_rows es) ts = concat (map2 (\<lambda>e t. to_hex (entry_oid e) @ [TAB] @ escape (as_str (entry_path e)) @ t) es ts)" for es ts
    by (simp add: rows_text_def entry_rows_def zip_map1 row_line_def case_prod_unfold comp_def)
  moreover have "valid_rows (entry_rows (lock_entries l)) \<longleftrightarrow>
      sorted_wrt (<) (lock_paths l) \<and> conflict_free (set (lock_paths l))
      \<and> (\<forall>e \<in> set (lock_entries l). wf_path (entry_path e) \<and> wf_oid (entry_oid e))"
    by (simp add: valid_rows_def entry_rows_def lock_paths_def wf_path_def image_image comp_def)
  ultimately show ?thesis unfolding lock_parse_iff by auto
qed

lemma lock_parse_grammar_witness:
  "lock_parse no_features (VERSION @ [LF] @ (replicate 64 97 @ [TAB] @ lit ''a/b'' @ [CR, LF]))
     = Ok \<lparr>lock_entries = [\<lparr>entry_path = GatPath (lit ''a/b''), entry_oid = Oid (replicate 32 0xAA)\<rparr>]\<rparr>"
proof -
  define e where "e = \<lparr>entry_path = GatPath (lit ''a/b''), entry_oid = Oid (replicate 32 0xAA)\<rparr>"
  have "to_hex (entry_oid e) = replicate 64 97" "escape (as_str (entry_path e)) = lit ''a/b''"
    "wf_path (entry_path e)" "wf_oid (entry_oid e)"
    unfolding e_def by code_simp+
  then have "lock_parse no_features (VERSION @ [LF] @ (replicate 64 97 @ [TAB] @ lit ''a/b'' @ [CR, LF])) = Ok \<lparr>lock_entries = [e]\<rparr>"
    unfolding lock_parse_grammar
    by (intro conjI exI [of _ "[LF]"] exI [of _ "[[CR, LF]]"])
      (simp_all add: line_end_def lock_paths_def conflict_free_def del: lit_simps)
  then show ?thesis by (simp add: e_def)
qed

end
