(* ===== verification/LockRoundtrip.thy ===== *)
theory LockRoundtrip
  imports LockParse
begin

text \<open>
  Consequences of the grammar of \<open>gat.lock\<close>: parsing and serializing are inverse up to line
  endings, and the readers of a certified file (exact lookup, filtering cursor, visitor) deliver
  what a plain traversal of the parsed entries delivers, and nothing before certification.
\<close>

section \<open>Round trips\<close>

lemma rows_text_LF:
  "rows_text (entry_rows es) (replicate (length es) [LF]) = concat (map row_text es)"
  by (induction es) (simp_all add: rows_text_def entry_rows_def row_line_def row_text_def)

lemma set_sort_key_entries: "set (lock_paths \<lparr>lock_entries = sort_key entry_path es\<rparr>) = set (lock_paths \<lparr>lock_entries = es\<rparr>)"
  by (simp add: lock_paths_def)

lemma sorted_display_order:
  assumes "distinct (map (\<lambda>e. as_str (entry_path e)) es)"
  shows "sorted_wrt (<) (map (\<lambda>e. as_str (entry_path e)) (sort_key entry_path es))"
  using assms unfolding sort_key_paths by (simp add: strict_sorted_iff)

lemma no_CR: "wf_oid o' \<Longrightarrow> CR \<notin> set (to_hex o')" "CR \<notin> set (escape p)" "CR \<notin> set VERSION"
proof -
  show "CR \<notin> set (escape p)" using escape_no_control [of CR p] by auto
  show "CR \<notin> set (to_hex o')" using byte_hex_ge [of CR] by (auto simp: to_hex_def encode_hex_eq)
  show "CR \<notin> set VERSION" by code_simp
qed

lemma filter_no_CR: "CR \<notin> set s \<Longrightarrow> filter (\<lambda>b. b \<noteq> CR) s = s"
  by (simp add: filter_id_conv) blast

lemma filter_rows_text:
  "length ts = length es \<Longrightarrow> list_all line_end ts \<Longrightarrow> \<forall>e \<in> set es. wf_oid (entry_oid e) \<Longrightarrow>
     filter (\<lambda>b. b \<noteq> CR) (rows_text (entry_rows es) ts) = concat (map row_text es)"
proof (induction ts es rule: list_induct2)
  case (Cons t ts e es)
  then show ?case
    by (auto simp: rows_text_def entry_rows_def row_line_def row_text_def line_end_def filter_no_CR no_CR)
qed (simp add: rows_text_def entry_rows_def)

text \<open>
  C11: Parsing and serializing are inverse: a valid lock, in whatever order its entries are,
  serializes to a file that parses to the same entries in path order; and every file that parses
  yields a valid, path-ordered lock whose serialization is that file with its carriage returns
  dropped, so a file already written with LF is reproduced byte for byte.
\<close>

theorem lock_roundtrip:
  "(lock_validate l = Ok () \<and> (\<forall>e \<in> set (lock_entries l). wf_path (entry_path e) \<and> wf_oid (entry_oid e)) \<longrightarrow>
      lock_parse f (lock_display l) = Ok \<lparr>lock_entries = sort_key entry_path (lock_entries l)\<rparr>)
   \<and> (lock_parse f text = Ok m \<longrightarrow>
      lock_validate m = Ok () \<and> sorted (map entry_path (lock_entries m))
      \<and> lock_display m = filter (\<lambda>b. b \<noteq> CR) text)"
proof (intro conjI impI; (elim conjE)?)
  let ?es = "sort_key entry_path (lock_entries l)"
  assume v: "lock_validate l = Ok ()" and wf: "\<forall>e \<in> set (lock_entries l). wf_path (entry_path e) \<and> wf_oid (entry_oid e)"
  have d: "distinct (lock_paths l)" "conflict_free (set (lock_paths l))"
    using v lock_validate_outcome [of l] by blast+
  have "valid_rows (entry_rows ?es)"
    using d wf sorted_display_order [of "lock_entries l"]
    by (auto simp: valid_rows_def entry_rows_def lock_paths_def comp_def image_image wf_path_def)
  then show "lock_parse f (lock_display l) = Ok \<lparr>lock_entries = ?es\<rparr>"
    unfolding lock_parse_iff
    by (intro exI [of _ "[LF]"] exI [of _ "replicate (length ?es) [LF]"])
      (simp add: line_end_def list_all_iff lock_display_eq file_text_def
        rows_text_LF [of ?es, simplified])
next
  assume "lock_parse f text = Ok m"
  then obtain nl ts where p: "line_end nl" "length ts = length (lock_entries m)" "list_all line_end ts"
    "text = VERSION @ nl @ rows_text (entry_rows (lock_entries m)) ts" "valid_rows (entry_rows (lock_entries m))"
    unfolding lock_parse_iff by blast
  have s: "sorted_wrt (<) (lock_paths m)" "conflict_free (set (lock_paths m))"
    using p(5) by (simp_all add: valid_rows_def entry_rows_def lock_paths_def comp_def image_image)
  then show "lock_validate m = Ok ()"
    using lock_validate_outcome [of m] sorted_wrt_less_distinct by blast
  show sorted: "sorted (map entry_path (lock_entries m))"
    using s(1) by (auto simp: lock_paths_def sorted_wrt_map less_eq_gat_path_def intro: sorted_wrt_mono_rel [rotated])
  have "wf_oid (entry_oid e)" if "e \<in> set (lock_entries m)" for e
    using p(5) that by (auto simp: valid_rows_def entry_rows_def)
  then show "lock_display m = filter (\<lambda>b. b \<noteq> CR) text"
    using p(1-4) sorted filter_rows_text [of ts "lock_entries m"]
    by (auto simp: lock_display_eq file_text_def sort_key_id_if_sorted line_end_def filter_no_CR no_CR)
qed

lemma lock_roundtrip_witness:
  "let l = \<lparr>lock_entries = [\<lparr>entry_path = GatPath (lit ''b''), entry_oid = Oid (replicate 32 1)\<rparr>,
                          \<lparr>entry_path = GatPath (lit ''a/c''), entry_oid = Oid (replicate 32 2)\<rparr>]\<rparr>
   in lock_parse no_features (lock_display l) = Ok \<lparr>lock_entries = rev (lock_entries l)\<rparr>"
proof -
  define l where "l = \<lparr>lock_entries = [\<lparr>entry_path = GatPath (lit ''b''), entry_oid = Oid (replicate 32 1)\<rparr>,
      \<lparr>entry_path = GatPath (lit ''a/c''), entry_oid = Oid (replicate 32 2)\<rparr>]\<rparr>"
  have "lock_validate l = Ok ()"
    unfolding l_def by code_simp
  moreover have "\<forall>e \<in> set (lock_entries l). wf_path (entry_path e) \<and> wf_oid (entry_oid e)"
    unfolding l_def by code_simp
  moreover have "sort_key entry_path (lock_entries l) = rev (lock_entries l)"
    unfolding l_def by code_simp
  ultimately have "lock_parse no_features (lock_display l) = Ok \<lparr>lock_entries = rev (lock_entries l)\<rparr>"
    using lock_roundtrip [of l no_features] by simp
  then show ?thesis by (simp add: l_def Let_def)
qed

section \<open>Readers of a certified file\<close>

fun filter_state :: "('s \<Rightarrow> str \<Rightarrow> 's \<times> bool) \<Rightarrow> 's \<Rightarrow> entry list \<Rightarrow> 's \<times> entry list" where
  "filter_state keep st [] = (st, [])"
| "filter_state keep st (e # es) =
     (case keep st (as_str (entry_path e)) of
        (st, k) \<Rightarrow>
          (case filter_state keep st es of (st, fs) \<Rightarrow> (st, if k then e # fs else fs)))"

definition to_entries :: "lock_file \<Rightarrow> entry list" where
  "to_entries v = map (\<lambda>(path, oid'). entry_from_validated_parts path oid') (view_rows v)"

lemma lock_parse_view:
  "lock_parse f text = map_ok (\<lambda>v. \<lparr>lock_entries = to_entries v\<rparr>) (parse_lock_file f text)"
  by (cases "parse_lock_file f text") (simp_all add: lock_parse_def to_entries_def)

lemma view_row_nth: "view_row v i = map_option (\<lambda>e. (entry_path e, entry_oid e)) (nth_opt (to_entries v) i)"
  by (auto simp: view_row_def to_entries_def view_rows_def nth_opt_def entry_from_validated_parts_def)

lemma drop_to_entries:
  "nth_opt (to_entries v) i = Some e \<Longrightarrow> drop i (to_entries v) = e # drop (Suc i) (to_entries v)"
  by (auto simp: nth_opt_Some Cons_nth_drop_Suc)

lemma cursor_next_filter:
  "cursor_next keep c =
     (case filter_state keep (keep_state c) (drop (next_row c) (to_entries (view c))) of
        (st, []) \<Rightarrow> (c\<lparr>next_row := max (next_row c) (length (to_entries (view c))), keep_state := st\<rparr>, None)
      | (st, e # fs) \<Rightarrow> (fst (cursor_next keep c), Some e))
   \<and> (case cursor_next keep c of
        (c', None) \<Rightarrow> True
      | (c', Some e) \<Rightarrow> view c' = view c \<and>
          (case filter_state keep (keep_state c') (drop (next_row c') (to_entries (view c))) of
             (st, fs) \<Rightarrow> filter_state keep (keep_state c) (drop (next_row c) (to_entries (view c))) = (st, e # fs)))"
proof (induction keep c rule: cursor_next.induct)
  case (1 keep c)
  show ?case
  proof (cases "nth_opt (to_entries (view c)) (next_row c)")
    case None
    then have "view_row (view c) (next_row c) = None" by (simp add: view_row_nth)
    then have "cursor_next keep c = (c, None)" by (simp add: cursor_next.simps [of keep c])
    then show ?thesis using None by (auto simp: nth_opt_None max_def)
  next
    case (Some e)
    obtain st k where k: "keep (keep_state c) (as_str (entry_path e)) = (st, k)" by (rule prod.exhaust)
    have row: "view_row (view c) (next_row c) = Some (entry_path e, entry_oid e)"
      using Some by (simp add: view_row_nth)
    have e: "entry_from_validated_parts (entry_path e) (entry_oid e) = e"
      by (simp add: entry_from_validated_parts_def)
    have len: "next_row c < length (to_entries (view c))" using Some by (simp add: nth_opt_Some)
    show ?thesis
    proof (cases k)
      case True
      then show ?thesis
        using k e row drop_to_entries [OF Some]
        by (simp add: cursor_next.simps [of keep c] split: prod.split)
    next
      case False
      define c' where "c' = c\<lparr>next_row := next_row c + 1, keep_state := st\<rparr>"
      have "cursor_next keep c = cursor_next keep c'"
        using k False row by (simp add: cursor_next.simps [of keep c] c'_def)
      moreover have "filter_state keep (keep_state c) (drop (next_row c) (to_entries (view c)))
          = filter_state keep (keep_state c') (drop (next_row c') (to_entries (view c')))"
        using k False drop_to_entries [OF Some] by (simp add: c'_def split: prod.split)
      moreover note 1 [OF row refl k [symmetric], folded c'_def]
      ultimately show ?thesis
        using False len by (auto simp: c'_def split: prod.splits list.splits option.splits)
    qed
  qed
qed

lemma cursor_drain_filter:
  "length (snd (filter_state keep (keep_state c) (drop (next_row c) (to_entries (view c))))) < n \<Longrightarrow>
     (case cursor_drain n keep c of
        (c', es) \<Rightarrow> filter_state keep (keep_state c) (drop (next_row c) (to_entries (view c))) = (keep_state c', es))"
proof (induction n arbitrary: c)
  case (Suc n)
  obtain st fs where f: "filter_state keep (keep_state c) (drop (next_row c) (to_entries (view c))) = (st, fs)"
    by (rule prod.exhaust)
  note nxt = cursor_next_filter [of keep c, unfolded f]
  show ?case
  proof (cases fs)
    case Nil
    with nxt show ?thesis by (simp add: f)
  next
    case (Cons e gs)
    then obtain c' where c': "cursor_next keep c = (c', Some e)"
      using nxt by (cases "cursor_next keep c") auto
    with nxt have "view c' = view c"
      "filter_state keep (keep_state c') (drop (next_row c') (to_entries (view c))) = (st, gs)"
      using Cons by (auto split: prod.splits)
    with Suc.IH [of c'] Suc.prems c' Cons show ?thesis
      by (simp add: f split: prod.splits)
  qed
qed simp

text \<open>Collecting what a filtered visit delivers.\<close>

definition keep_with :: "('s \<Rightarrow> str \<Rightarrow> 's \<times> bool) \<Rightarrow> 's \<times> entry list \<Rightarrow> str \<Rightarrow> ('s \<times> entry list) \<times> bool" where
  "keep_with keep s path = (case keep (fst s) path of (st, k) \<Rightarrow> ((st, snd s), k))"

definition collect :: "'s \<times> entry list \<Rightarrow> entry \<Rightarrow> ('s \<times> entry list) \<times> (lock_error + unit)" where
  "collect s e = ((fst s, snd s @ [e]), Ok ())"

lemma visit_rows_loop_filter:
  "visit_rows_loop (\<lambda>st path _. (case keep_with keep st path of (st, k) \<Rightarrow> (st, Ok k))) collect (st, acc)
     (map (\<lambda>e. (entry_path e, entry_oid e)) es)
   = (case filter_state keep st es of (st, fs) \<Rightarrow> ((st, acc @ fs), Ok ()))"
proof (induction es arbitrary: st acc)
  case (Cons e es)
  obtain st' k where "keep st (as_str (entry_path e)) = (st', k)" by (rule prod.exhaust)
  moreover have "entry_from_validated_parts (entry_path e) (entry_oid e) = e"
    by (simp add: entry_from_validated_parts_def)
  ultimately show ?case
    using Cons by (cases k) (auto simp: keep_with_def collect_def split: prod.splits)
qed simp

lemma view_rows_entries: "view_rows v = map (\<lambda>e. (entry_path e, entry_oid e)) (to_entries v)"
  by (simp add: to_entries_def view_rows_def entry_from_validated_parts_def)

lemma lock_map_nth:
  "distinct (entry_paths es) \<Longrightarrow> i < length es \<Longrightarrow> lock_map es (entry_path (es ! i)) = Some (entry_oid (es ! i))"
proof (induction es arbitrary: i)
  case (Cons e es)
  show ?case
  proof (cases i)
    case (Suc j)
    then have "entry_path (es ! j) \<noteq> entry_path e"
      using Cons.prems nth_entry_path_in [of j es] by auto
    with Suc Cons show ?thesis by simp
  qed simp
qed simp

lemma view_find_lookup:
  assumes "parse_lock_file f text = Ok v"
  shows "view_find v path = map_option (\<lambda>o'. (GatPath path, o')) (lock_map (to_entries v) (GatPath path))"
proof -
  obtain stack where "represents v stack (abs_rows v)"
    using assms backend.decode_with_refines [of "selected f" "text"] by (auto simp: parse_lock_file_def)
  then have s: "sorted_wrt (<) (map (row_path v) (rows v))"
    by (simp add: represents_def abs_rows_def comp_def)
  have paths: "entry_paths (to_entries v) = map GatPath (map (row_path v) (rows v))"
    by (simp add: entry_paths_def to_entries_def view_rows_def entry_from_validated_parts_def)
  then have d: "distinct (entry_paths (to_entries v))"
    using sorted_wrt_less_distinct [OF s] by (simp add: distinct_map inj_on_def)
  have len: "length (to_entries v) = length (rows v)"
    by (simp add: to_entries_def view_rows_def)
  note bs = binary_search_by_spec [OF s, of path]
  show ?thesis
  proof (cases "binary_search_by (\<lambda>r. cmp (row_path v r) path) (rows v)")
    case (Inl i)
    then have "GatPath path \<notin> set (entry_paths (to_entries v))"
      using bs(2) paths by auto
    with Inl show ?thesis by (simp add: view_find_def)
  next
    case (Inr i)
    then have i: "i < length (rows v)" "row_path v (rows v ! i) = path" using bs(1) by auto
    then have "entry_path (to_entries v ! i) = GatPath path"
      by (simp add: to_entries_def view_rows_def entry_from_validated_parts_def)
    with i Inr lock_map_nth [OF d, of i] show ?thesis
      by (simp add: view_find_def view_row_nth nth_opt_def len)
  qed
qed

text \<open>
  C12: All readers of a file agree, whatever stateful filter the caller supplies: no callback
  runs before the whole file is certified; the pull cursor delivers the very entries, in order, and
  leaves the filter in the very state that the filtered visitor and a plain filter over the parsed
  lock do; and the binary search finds exactly the parsed lock's entry for a path.
\<close>

theorem readers_agree:
  "case lock_parse f text of
     Inl e \<Rightarrow>
       cursor_new f text st = Err e \<and> visit_rows_validated f text select visit st = (st, Err e)
   | Inr l \<Rightarrow>
       (\<exists>v c. parse_lock_file f text = Ok v \<and> cursor_new f text st = Ok c
          \<and> (case cursor_drain (length (lock_entries l) + 1) keep c of
               (c', es) \<Rightarrow> filter_state keep st (lock_entries l) = (keep_state c', es))
          \<and> visit_filtered_matching f text (keep_with keep) collect (st, [])
              = (filter_state keep st (lock_entries l), Ok ())
          \<and> view_find v path
              = map_option (\<lambda>o'. (GatPath path, o')) (lock_map (lock_entries l) (GatPath path)))"
proof (cases "parse_lock_file f text")
  case (Inl e)
  then show ?thesis by (simp add: lock_parse_view cursor_new_def visit_rows_validated_def)
next
  case (Inr v)
  have short: "length (snd (filter_state keep s es)) \<le> length es" for s es
  proof (induction es arbitrary: s)
    case (Cons e es)
    obtain s' k where "keep s (as_str (entry_path e)) = (s', k)" by (rule prod.exhaust)
    with Cons.IH [of s'] show ?case by (simp add: case_prod_unfold)
  qed simp
  have "filter_state keep st (to_entries v) = (fst (filter_state keep st (to_entries v)), snd (filter_state keep st (to_entries v)))"
    by simp
  then show ?thesis
    using Inr cursor_drain_filter [of keep "\<lparr>view = v, next_row = 0, keep_state = st\<rparr>" "length (to_entries v) + 1"]
      short [of st "to_entries v"] view_find_lookup [OF Inr, of path]
      visit_rows_loop_filter [of keep st "[]" "to_entries v"]
    by (simp add: lock_parse_view cursor_new_def visit_filtered_matching_def visit_rows_validated_def
        view_rows_entries split: prod.splits)
qed

end
