(* ===== verification/OrderedMap.thy ===== *)
theory OrderedMap
  imports Prelude
begin

text \<open>
  \<open>BTreeMap\<close> as the list of its entries in key order: the entry operation, insertion, lookup and
  iteration, with the facts the components use (order kept, content as a map, equal content means
  equal maps).
\<close>

fun bt_alter :: "'k :: linorder \<Rightarrow> ('v option \<Rightarrow> 'v) \<Rightarrow> ('k \<times> 'v) list \<Rightarrow> ('k \<times> 'v) list" where
  "bt_alter k f [] = [(k, f None)]"
| "bt_alter k f ((j, v) # m) =
     (if k < j then (k, f None) # (j, v) # m
      else if k = j then (k, f (Some v)) # m
      else (j, v) # bt_alter k f m)"

definition bt_insert :: "'k :: linorder \<Rightarrow> 'v \<Rightarrow> ('k \<times> 'v) list \<Rightarrow> ('k \<times> 'v) list" where
  "bt_insert k v m = bt_alter k (\<lambda>_. v) m"

definition bt_get :: "('k :: linorder \<times> 'v) list \<Rightarrow> 'k \<Rightarrow> 'v option" where
  "bt_get m k = map_of m k"

definition bt_extend :: "('k :: linorder \<times> 'v) list \<Rightarrow> ('k \<times> 'v) list \<Rightarrow> ('k \<times> 'v) list" where
  "bt_extend m xs = foldl (\<lambda>m (k, v). bt_insert k v m) m xs"

definition bt_ok :: "('k :: linorder \<times> 'v) list \<Rightarrow> bool" where
  "bt_ok m \<longleftrightarrow> sorted_wrt (<) (map fst m)"

lemma bt_ok_Nil [simp]: "bt_ok []"
  by (simp add: bt_ok_def)

lemma bt_ok_Cons: "bt_ok ((k, v) # m) \<longleftrightarrow> (\<forall>j \<in> fst ` set m. k < j) \<and> bt_ok m"
  by (auto simp: bt_ok_def)

lemma fst_bt_alter: "fst ` set (bt_alter k f m) = insert k (fst ` set m)"
  by (induction k f m rule: bt_alter.induct) auto

lemma bt_alter_ok [simp]: "bt_ok m \<Longrightarrow> bt_ok (bt_alter k f m)"
  by (induction k f m rule: bt_alter.induct) (auto simp: bt_ok_Cons fst_bt_alter image_iff dest: order.strict_trans)

lemma bt_get_alter:
  "bt_ok m \<Longrightarrow> bt_get (bt_alter k f m) = (bt_get m)(k \<mapsto> f (bt_get m k))"
proof (induction k f m rule: bt_alter.induct)
  case (2 k f j v m)
  have "map_of m k = None" if "k < j"
    using that 2(2) by (auto simp: bt_ok_Cons map_of_eq_None_iff)
  with 2 show ?case
    by (auto simp: bt_get_def bt_ok_Cons fun_eq_iff)
qed (simp add: bt_get_def fun_eq_iff)

lemma bt_insert_ok [simp]: "bt_ok m \<Longrightarrow> bt_ok (bt_insert k v m)"
  by (simp add: bt_insert_def)

lemma bt_get_insert [simp]: "bt_ok m \<Longrightarrow> bt_get (bt_insert k v m) = (bt_get m)(k \<mapsto> v)"
  by (simp add: bt_insert_def bt_get_alter)

lemma bt_extend_ok: "bt_ok m \<Longrightarrow> bt_ok (bt_extend m xs)"
  unfolding bt_extend_def by (induction xs arbitrary: m) auto

lemma bt_get_extend: "bt_ok m \<Longrightarrow> bt_get (bt_extend m xs) = bt_get m ++ map_of (rev xs)"
  unfolding bt_extend_def
proof (induction xs arbitrary: m)
  case (Cons x xs)
  obtain k v where "x = (k, v)" by (cases x)
  with Cons show ?case by (simp add: map_add_assoc [symmetric] del: fun_upd_apply)
qed simp

lemma bt_get_Some: "bt_ok m \<Longrightarrow> bt_get m k = Some v \<longleftrightarrow> (k, v) \<in> set m"
  unfolding bt_get_def bt_ok_def by (rule map_of_eq_Some_iff [OF sorted_wrt_less_distinct])

lemma bt_get_None: "bt_get m k = None \<longleftrightarrow> k \<notin> fst ` set m"
  by (simp add: bt_get_def map_of_eq_None_iff)

text \<open>The content determines the map.\<close>

lemma bt_ext:
  "bt_ok m \<Longrightarrow> bt_ok n \<Longrightarrow> bt_get m = bt_get n \<Longrightarrow> m = n"
proof (induction m arbitrary: n)
  case Nil
  then show ?case by (cases n) (auto simp: bt_get_def fun_eq_iff split: if_splits)
next
  case (Cons x m)
  obtain k v where x: "x = (k, v)" by (cases x)
  have n: "n \<noteq> []" using Cons.prems(3) x by (auto simp: bt_get_def fun_eq_iff split: if_splits)
  then obtain j w n' where n: "n = (j, w) # n'" by (cases n) auto
  have mem: "(a, b) \<in> set ((k, v) # m) \<longleftrightarrow> (a, b) \<in> set n" for a b
    using bt_get_Some [OF Cons.prems(1)] bt_get_Some [OF Cons.prems(2)] Cons.prems(3) x by metis
  have "k \<le> j" "j \<le> k"
    using mem [of j w] mem [of k v] Cons.prems(1,2) unfolding x n bt_ok_Cons by force+
  then have kj: "k = j" by simp
  with mem [of k v] have "v = w"
    using Cons.prems(2) unfolding n bt_ok_Cons by force
  moreover have "bt_get m = bt_get n'"
  proof
    fix a
    have "bt_get m k = None" "bt_get n' k = None"
      using Cons.prems(1,2) kj unfolding x n bt_ok_Cons bt_get_None by auto
    then show "bt_get m a = bt_get n' a"
      using fun_cong [OF Cons.prems(3), of a] kj x n by (cases "a = k") (auto simp: bt_get_def)
  qed
  then have "m = n'"
    using Cons.IH [of n'] Cons.prems(1,2) by (simp add: x n bt_ok_Cons)
  ultimately show ?case using kj x n by simp
qed

end
