(* ===== verification/LockMerge.thy ===== *)
theory LockMerge
  imports LockModel OrderedMap
begin

text \<open>
  The three-way semantic merge of locks (\<open>gat-core/src/lock/merge.rs\<close>): the ordered union of the
  three versions, the per-path rule, and the prefix-conflict search over the ordered result, which
  looks only at the successor of a path and at the partition point of its descendants. The lemmas
  show the result is Git's rule per path, and that the search finds the first conflict in order.
\<close>

section \<open>The merge\<close>

record conflict =
  c_path :: gat_path
  c_ancestor :: "oid option"
  c_ours :: "oid option"
  c_theirs :: "oid option"

datatype merge_conflict = Paths "conflict list" | DirectoryPrefix str str

type_synonym versions = "oid option \<times> oid option \<times> oid option"

fun set_side :: "nat \<Rightarrow> oid option \<Rightarrow> versions \<Rightarrow> versions" where
  "set_side side v (a, b, c) = (if side = 0 then (v, b, c) else if side = 1 then (a, v, c) else (a, b, v))"

definition add_side :: "(gat_path \<times> versions) list \<Rightarrow> nat \<times> lock \<Rightarrow> (gat_path \<times> versions) list" where
  "add_side paths sl =
     foldl (\<lambda>paths entry.
         bt_alter (entry_path entry)
           (\<lambda>v. set_side (fst sl) (Some (entry_oid entry)) (case v of None \<Rightarrow> (None, None, None) | Some t \<Rightarrow> t))
           paths)
       paths (lock_entries (snd sl))"

definition version_union :: "lock \<Rightarrow> lock \<Rightarrow> lock \<Rightarrow> (gat_path \<times> versions) list" where
  "version_union ancestor ours theirs = foldl add_side [] [(0, ancestor), (1, ours), (2, theirs)]"

fun resolve_paths :: "(gat_path \<times> versions) list \<Rightarrow> entry list \<times> conflict list" where
  "resolve_paths [] = ([], [])"
| "resolve_paths ((path, av, ov, tv) # rest) =
     (case resolve_paths rest of (entries, conflicts) \<Rightarrow>
        (let keep = (\<lambda>resolved.
               (case resolved of
                  Some oid' \<Rightarrow> (\<lparr>entry_path = path, entry_oid = oid'\<rparr> # entries, conflicts)
                | None \<Rightarrow> (entries, conflicts)))
         in if ov = tv then keep ov
            else if ov = av then keep tv
            else if tv = av then keep ov
            else (entries, \<lparr>c_path = path, c_ancestor = av, c_ours = ov, c_theirs = tv\<rparr> # conflicts)))"

fun directory_prefix_conflict :: "entry list \<Rightarrow> (str \<times> str) option" where
  "directory_prefix_conflict [] = None"
| "directory_prefix_conflict (entry # remaining) =
     (let path = as_str (entry_path entry) in
      if \<not> (case remaining of [] \<Rightarrow> False | next # _ \<Rightarrow> prefix path (as_str (entry_path next)))
      then directory_prefix_conflict remaining
      else
        (let n = partition_point (\<lambda>candidate. as_str (entry_path candidate) < path @ [SLASH]) remaining in
         case nth_opt remaining n of
           Some candidate \<Rightarrow>
             (let descendant = as_str (entry_path candidate) in
              if is_directory_prefix path descendant then Some (path, descendant)
              else directory_prefix_conflict remaining)
         | None \<Rightarrow> directory_prefix_conflict remaining))"

definition merge_three_way :: "lock \<Rightarrow> lock \<Rightarrow> lock \<Rightarrow> merge_conflict + lock" where
  "merge_three_way ancestor ours theirs =
     (case resolve_paths (version_union ancestor ours theirs) of (entries, conflicts) \<Rightarrow>
        if conflicts \<noteq> [] then Err (Paths conflicts)
        else
          (case directory_prefix_conflict entries of
             Some (anc, descendant) \<Rightarrow> Err (DirectoryPrefix anc descendant)
           | None \<Rightarrow> Ok \<lparr>lock_entries = entries\<rparr>))"

declare lock_map_None [simp del]

section \<open>The union of versions\<close>

definition versions_of :: "(gat_path \<times> versions) list \<Rightarrow> gat_path \<Rightarrow> versions" where
  "versions_of m p = (case bt_get m p of None \<Rightarrow> (None, None, None) | Some v \<Rightarrow> v)"

lemma versions_of_alter:
  "bt_ok m \<Longrightarrow> versions_of (bt_alter k (\<lambda>v. f (case v of None \<Rightarrow> (None, None, None) | Some t \<Rightarrow> t)) m)
     = (versions_of m)(k := f (versions_of m k))"
  by (rule ext) (simp add: versions_of_def bt_get_alter)

lemma add_side_spec:
  "bt_ok m \<Longrightarrow> distinct (entry_paths es) \<Longrightarrow>
     bt_ok (add_side m (n, \<lparr>lock_entries = es\<rparr>))
     \<and> versions_of (add_side m (n, \<lparr>lock_entries = es\<rparr>)) p =
         (case lock_map es p of None \<Rightarrow> versions_of m p | Some o' \<Rightarrow> set_side n (Some o') (versions_of m p))
     \<and> fst ` set (add_side m (n, \<lparr>lock_entries = es\<rparr>)) = fst ` set m \<union> set (entry_paths es)"
proof (induction es arbitrary: m)
  case (Cons e es)
  define m' where "m' = bt_alter (entry_path e)
      (\<lambda>v. set_side n (Some (entry_oid e)) (case v of None \<Rightarrow> (None, None, None) | Some t \<Rightarrow> t)) m"
  have m': "bt_ok m'" "add_side m (n, \<lparr>lock_entries = e # es\<rparr>) = add_side m' (n, \<lparr>lock_entries = es\<rparr>)"
    "versions_of m' = (versions_of m)(entry_path e := set_side n (Some (entry_oid e)) (versions_of m (entry_path e)))"
    "fst ` set m' = insert (entry_path e) (fst ` set m)"
    using Cons.prems by (simp_all add: m'_def add_side_def versions_of_alter fst_bt_alter)
  have "distinct (entry_paths es)" "lock_map es (entry_path e) = None"
    using Cons.prems by (simp_all add: lock_map_None)
  with Cons.IH [OF m'(1)] m' show ?case by (auto split: option.splits)
qed (simp add: add_side_def)

definition tracked :: "lock \<Rightarrow> gat_path \<Rightarrow> oid option" where
  "tracked l = lock_map (lock_entries l)"

lemma version_union_spec:
  assumes "distinct (entry_paths (lock_entries a))" "distinct (entry_paths (lock_entries b))"
    "distinct (entry_paths (lock_entries c))"
  shows "bt_ok (version_union a b c)"
    "versions_of (version_union a b c) p = (tracked a p, tracked b p, tracked c p)"
    "fst ` set (version_union a b c) = {p. \<not> (tracked a p = None \<and> tracked b p = None \<and> tracked c p = None)}"
proof -
  obtain as bs cs where l: "a = \<lparr>lock_entries = as\<rparr>" "b = \<lparr>lock_entries = bs\<rparr>" "c = \<lparr>lock_entries = cs\<rparr>"
    by (cases a; cases b; cases c) auto
  let ?ma = "add_side [] (0, a)" let ?mb = "add_side ?ma (1, b)"
  have u: "version_union a b c = add_side ?mb (2, c)"
    by (simp add: version_union_def)
  have a: "bt_ok ?ma" "versions_of ?ma p = (tracked a p, None, None)" "fst ` set ?ma = set (entry_paths as)" for p
    using add_side_spec [of "[]" as 0 p] assms(1)
    by (auto simp: l tracked_def versions_of_def bt_get_def split: option.splits)
  have b: "bt_ok ?mb" "versions_of ?mb p = (tracked a p, tracked b p, None)"
    "fst ` set ?mb = set (entry_paths as) \<union> set (entry_paths bs)" for p
    using add_side_spec [OF a(1), of bs 1 p] assms(2) a
    by (auto simp: l tracked_def split: option.splits)
  have c: "c = \<lparr>lock_entries = cs\<rparr>" by (rule l)
  note s = add_side_spec [OF b(1), of cs 2 p, folded c]
  show "bt_ok (version_union a b c)"
    "versions_of (version_union a b c) p = (tracked a p, tracked b p, tracked c p)"
    unfolding u using s assms(3) b(2) [of p] by (auto simp: c tracked_def split: option.splits)
  show "fst ` set (version_union a b c) = {p. \<not> (tracked a p = None \<and> tracked b p = None \<and> tracked c p = None)}"
    unfolding u using s assms(3) b(3) by (auto simp: l tracked_def lock_map_None)
qed

section \<open>The per-path rule\<close>

definition merge_value :: "oid option \<Rightarrow> oid option \<Rightarrow> oid option \<Rightarrow> oid option option" where
  "merge_value av ov tv =
     (if ov = tv then Some ov else if ov = av then Some tv else if tv = av then Some ov else None)"

lemma resolve_paths_Cons:
  "resolve_paths ((p, av, ov, tv) # m) =
     (case resolve_paths m of (es, cs) \<Rightarrow>
        (case merge_value av ov tv of
           None \<Rightarrow> (es, \<lparr>c_path = p, c_ancestor = av, c_ours = ov, c_theirs = tv\<rparr> # cs)
         | Some None \<Rightarrow> (es, cs)
         | Some (Some o') \<Rightarrow> (\<lparr>entry_path = p, entry_oid = o'\<rparr> # es, cs)))"
  by (cases av; cases ov; cases tv) (simp_all add: merge_value_def split: prod.split)

declare resolve_paths.simps(2) [simp del]

lemma resolve_paths_spec:
  "bt_ok m \<Longrightarrow> resolve_paths m = (es, cs) \<Longrightarrow>
     sorted_wrt (<) (entry_paths es) \<and> set (entry_paths es) \<subseteq> fst ` set m
     \<and> (\<forall>p. lock_map es p = (case versions_of m p of (av, ov, tv) \<Rightarrow>
            (case merge_value av ov tv of None \<Rightarrow> None | Some v \<Rightarrow> v)))
     \<and> cs = concat (map (\<lambda>(p, av, ov, tv).
            if merge_value av ov tv = None
            then [\<lparr>c_path = p, c_ancestor = av, c_ours = ov, c_theirs = tv\<rparr>] else []) m)"
proof (induction m arbitrary: es cs)
  case Nil
  then show ?case by (simp add: versions_of_def bt_get_def merge_value_def)
next
  case (Cons x m)
  obtain p av ov tv where x: "x = (p, av, ov, tv)" by (cases x)
  obtain es' cs' where r: "resolve_paths m = (es', cs')" by (rule prod.exhaust)
  have m: "bt_ok m" "\<forall>q \<in> fst ` set m. p < q" using Cons.prems(1) by (auto simp: x bt_ok_Cons)
  note IH = Cons.IH [OF m(1) r]
  have none: "bt_get m p = None" using m(2) by (auto simp: bt_get_None)
  then have "p \<notin> set (entry_paths es')" using IH bt_get_None [of m p] by auto
  then have l: "lock_map es' p = None" by (simp add: lock_map_None)
  have v: "versions_of (x # m) q = (if q = p then (av, ov, tv) else versions_of m q)" for q
    by (simp add: x versions_of_def bt_get_def)
  have res: "(es, cs) =
      (case merge_value av ov tv of
         None \<Rightarrow> (es', \<lparr>c_path = p, c_ancestor = av, c_ours = ov, c_theirs = tv\<rparr> # cs')
       | Some None \<Rightarrow> (es', cs')
       | Some (Some o') \<Rightarrow> (\<lparr>entry_path = p, entry_oid = o'\<rparr> # es', cs'))"
    using Cons.prems(2) r by (simp add: x resolve_paths_Cons)
  have content: "lock_map es q = (case versions_of (x # m) q of (av, ov, tv) \<Rightarrow>
      (case merge_value av ov tv of None \<Rightarrow> None | Some v \<Rightarrow> v))" for q
    using res IH l unfolding v by (cases "q = p") (auto split: option.splits)
  show ?case
    using res IH m(2) content by (auto simp: x split: option.splits)
qed

section \<open>The prefix-conflict search\<close>

text \<open>The pairwise reference: the first path with a later descendant, and its first descendant.\<close>

fun first_conflict :: "str list \<Rightarrow> (str \<times> str) option" where
  "first_conflict [] = None"
| "first_conflict (p # ps) =
     (case find (is_directory_prefix p) ps of
        Some d \<Rightarrow> Some (p, d)
      | None \<Rightarrow> first_conflict ps)"

lemma find_at:
  "i < length xs \<Longrightarrow> P (xs ! i) \<Longrightarrow> (\<And>j. j < i \<Longrightarrow> \<not> P (xs ! j)) \<Longrightarrow> find P xs = Some (xs ! i)"
  by (auto simp: find_Some_iff)

lemma search_step:
  assumes s: "sorted_wrt (<) (p # ps)"
  shows "find (is_directory_prefix p) ps =
    (if \<not> (case ps of [] \<Rightarrow> False | q # _ \<Rightarrow> prefix p q) then None
     else (case nth_opt ps (partition_point (\<lambda>c. c < p @ [SLASH]) ps) of
             Some c \<Rightarrow> if is_directory_prefix p c then Some c else None
           | None \<Rightarrow> None))"
proof -
  let ?n = "partition_point (\<lambda>c. c < p @ [SLASH]) ps"
  have "sorted_wrt (<) ps" using s by simp
  then have less: "ps ! i < ps ! j" if "i < j" "j < length ps" for i j
    using that by (simp add: sorted_wrt_iff_nth_less)
  have "partitioned (\<lambda>c. c < p @ [SLASH]) ps"
    unfolding partitioned_def using less order.strict_trans by blast
  note pp = partition_point_spec [OF this]
  have before: "\<not> is_directory_prefix p (ps ! j)" if "j < ?n" for j
    using pp(2) [OF that] by (auto simp: directory_interval)
  show ?thesis
  proof (cases "find (is_directory_prefix p) ps")
    case None
    then have no: "\<not> is_directory_prefix p (ps ! j)" if "j < length ps" for j
      using that by (simp add: find_None_iff)
    then show ?thesis
      using None by (auto simp: nth_opt_def)
  next
    case (Some d)
    then obtain j where j: "j < length ps" "d = ps ! j" "is_directory_prefix p d"
      by (auto simp: find_Some_iff)
    obtain q qs where ps: "ps = q # qs" using j(1) by (cases ps) auto
    have "p < q" using s ps by simp
    moreover have "q \<le> d" using less [of 0 j] j ps by (cases "j = 0") auto
    ultimately have q: "prefix p q"
      using prefix_between [of p d q] is_directory_prefix_strict [OF j(3)] by (simp add: strict_prefix_def less_imp_le)
    have n: "?n \<le> j" using before [of j] j by (meson not_le)
    then have "?n < length ps" using j(1) by simp
    moreover have "ps ! ?n \<le> d" using less [of ?n j] j n by (cases "?n = j") (auto intro: less_imp_le)
    ultimately have c: "is_directory_prefix p (ps ! ?n)"
      using pp(3) [of ?n] j(3) by (auto simp: directory_interval not_less)
    have "find (is_directory_prefix p) ps = Some (ps ! ?n)"
      by (rule find_at [OF \<open>?n < length ps\<close>]) (use c before in simp_all)
    moreover have "(case ps of [] \<Rightarrow> False | q # _ \<Rightarrow> prefix p q)" using q ps by simp
    ultimately show ?thesis
      using c \<open>?n < length ps\<close> by (simp add: nth_opt_def)
  qed
qed

definition path_texts :: "entry list \<Rightarrow> str list" where
  "path_texts es = map (\<lambda>e. as_str (entry_path e)) es"

lemma partition_loop_map: "partition_loop P (map f xs) lo hi = partition_loop (\<lambda>x. P (f x)) xs lo hi"
  if "hi \<le> length xs"
  using that
proof (induction "\<lambda>x. P (f x)" xs lo hi rule: partition_loop.induct)
  case (1 xs lo hi)
  then show ?case
    by (subst (1 2) partition_loop.simps) (auto simp: Let_def)
qed

lemma partition_point_map: "partition_point P (map f xs) = partition_point (\<lambda>x. P (f x)) xs"
  by (simp add: partition_point_def partition_loop_map)

lemma nth_opt_map: "nth_opt (map f xs) i = map_option f (nth_opt xs i)"
  by (simp add: nth_opt_def)

lemma path_texts_simps [simp]:
  "path_texts [] = []" "path_texts (e # es) = as_str (entry_path e) # path_texts es"
  by (simp_all add: path_texts_def)

lemma directory_prefix_conflict_eq:
  "sorted_wrt (<) (path_texts es) \<Longrightarrow> directory_prefix_conflict es = first_conflict (path_texts es)"
proof (induction es)
  case (Cons e es)
  let ?p = "as_str (entry_path e)"
  have pp: "partition_point (\<lambda>c. c < ?p @ [SLASH]) (path_texts es)
      = partition_point (\<lambda>c. as_str (entry_path c) < ?p @ [SLASH]) es" (is "_ = ?n")
    by (simp add: path_texts_def partition_point_map)
  have head: "(case path_texts es of [] \<Rightarrow> False | q # _ \<Rightarrow> prefix ?p q)
      = (case es of [] \<Rightarrow> False | q # _ \<Rightarrow> prefix ?p (as_str (entry_path q)))"
    by (cases es) simp_all
  have at: "nth_opt (path_texts es) ?n = map_option (\<lambda>c. as_str (entry_path c)) (nth_opt es ?n)"
    by (simp add: path_texts_def nth_opt_map)
  have IH: "directory_prefix_conflict es = first_conflict (path_texts es)"
    using Cons by simp
  have step: "find (is_directory_prefix ?p) (path_texts es) =
      (if \<not> (case es of [] \<Rightarrow> False | q # _ \<Rightarrow> prefix ?p (as_str (entry_path q))) then None
       else (case nth_opt es ?n of
               Some c \<Rightarrow> if is_directory_prefix ?p (as_str (entry_path c)) then Some (as_str (entry_path c)) else None
             | None \<Rightarrow> None))"
    using search_step [of ?p "path_texts es"] Cons.prems unfolding pp head at
    by (simp split: option.splits)
  show ?case
    unfolding directory_prefix_conflict.simps path_texts_simps first_conflict.simps step IH Let_def
    by (simp split: option.splits)
qed simp

lemma first_conflict_None:
  "sorted_wrt (<) ps \<Longrightarrow> first_conflict ps = None \<longleftrightarrow> conflict_free (set ps)"
proof (induction ps)
  case (Cons p ps)
  have "\<not> is_directory_prefix q p" if "q \<in> set ps" for q
    using that Cons.prems is_directory_prefix_less [of q p] by auto
  moreover have "\<not> is_directory_prefix p p"
    using is_directory_prefix_less [of p p] by auto
  ultimately have "conflict_free (set (p # ps)) \<longleftrightarrow>
      find (is_directory_prefix p) ps = None \<and> conflict_free (set ps)"
    by (auto simp: conflict_free_def find_None_iff)
  with Cons show ?case
    by (auto split: option.splits)
qed (simp add: conflict_free_def)

lemma first_conflict_Some:
  "first_conflict ps = Some (a, d) \<Longrightarrow> a \<in> set ps \<and> d \<in> set ps \<and> is_directory_prefix a d"
  by (induction ps) (auto simp: find_Some_iff split: option.splits)

section \<open>The merge as a whole\<close>

definition distinct_lock :: "lock \<Rightarrow> bool" where
  "distinct_lock l \<longleftrightarrow> distinct (entry_paths (lock_entries l))"

definition conflict_at :: "lock \<Rightarrow> lock \<Rightarrow> lock \<Rightarrow> gat_path \<Rightarrow> conflict" where
  "conflict_at a b c p =
     \<lparr>c_path = p, c_ancestor = tracked a p, c_ours = tracked b p, c_theirs = tracked c p\<rparr>"

definition clashing :: "lock \<Rightarrow> lock \<Rightarrow> lock \<Rightarrow> gat_path set" where
  "clashing a b c = {p. merge_value (tracked a p) (tracked b p) (tracked c p) = None}"

lemma path_texts_lock_paths: "path_texts (lock_entries l) = lock_paths l"
  by (simp add: path_texts_def lock_paths_def)

lemma sorted_path_texts: "sorted_wrt (<) (path_texts es) \<longleftrightarrow> sorted_wrt (<) (entry_paths es)"
  by (simp add: path_texts_def entry_paths_def sorted_wrt_map less_gat_path_def)

lemma resolve_union:
  assumes d: "distinct_lock a" "distinct_lock b" "distinct_lock c"
    and r: "resolve_paths (version_union a b c) = (es, cs)"
  shows "sorted_wrt (<) (entry_paths es)"
    "lock_map es p = (case merge_value (tracked a p) (tracked b p) (tracked c p) of None \<Rightarrow> None | Some v \<Rightarrow> v)"
    "sorted_wrt (<) (map c_path cs)"
    "set cs = conflict_at a b c ` clashing a b c"
proof -
  let ?u = "version_union a b c"
  note u = version_union_spec [OF d [unfolded distinct_lock_def]]
  note s = resolve_paths_spec [OF u(1) r]
  show "sorted_wrt (<) (entry_paths es)" using s by simp
  show "lock_map es p = (case merge_value (tracked a p) (tracked b p) (tracked c p) of None \<Rightarrow> None | Some v \<Rightarrow> v)"
    using s u(2) [of p] by simp
  define g where "g = (\<lambda>(p, av, ov, tv). if merge_value av ov tv = None
            then [\<lparr>c_path = p, c_ancestor = av, c_ours = ov, c_theirs = tv\<rparr>] else [])"
  have cs: "cs = concat (map g ?u)" using s by (simp add: g_def)
  have paths: "map c_path (concat (map g m)) = filter (\<lambda>p. g (p, versions_of m p) \<noteq> []) (map fst m)" if "bt_ok m" for m
    using that
  proof (induction m)
    case (Cons x m)
    obtain p v where x: "x = (p, v)" by (cases x)
    have v: "versions_of (x # m) q = (if q = p then v else versions_of m q)" for q
      by (simp add: x versions_of_def bt_get_def)
    have p: "p \<notin> fst ` set m" using Cons.prems by (auto simp: x bt_ok_Cons)
    have rest: "filter (\<lambda>q. g (q, if q = p then v else versions_of m q) \<noteq> []) (map fst m)
        = filter (\<lambda>q. g (q, versions_of m q) \<noteq> []) (map fst m)"
      using p by (intro filter_cong) auto
    have "map c_path (g (p, v)) = (if g (p, v) \<noteq> [] then [p] else [])"
      by (cases v) (simp add: g_def)
    then show ?case
      using Cons rest unfolding v by (simp add: x bt_ok_Cons)
  qed simp
  have "sorted_wrt (<) (map fst ?u)" using u(1) by (simp add: bt_ok_def)
  then show "sorted_wrt (<) (map c_path cs)"
    unfolding cs paths [OF u(1)] by (rule sorted_wrt_filter)
  have mem: "(p, v) \<in> set ?u \<longleftrightarrow> p \<in> fst ` set ?u \<and> v = (tracked a p, tracked b p, tracked c p)" for p v
    using u(2) [of p] bt_get_Some [OF u(1), of p v] bt_get_None [of ?u p]
    by (auto simp: versions_of_def split: option.splits)
  have dom: "p \<in> fst ` set ?u" if "p \<in> clashing a b c" for p
    using that unfolding u(3) by (auto simp: clashing_def merge_value_def split: if_splits)
  show "set cs = conflict_at a b c ` clashing a b c" (is "_ = ?C")
  proof
    show "set cs \<subseteq> ?C"
      using mem by (auto simp: cs g_def clashing_def conflict_at_def split: if_splits)
    show "?C \<subseteq> set cs"
    proof
      fix x assume "x \<in> ?C"
      then obtain p where p: "p \<in> clashing a b c" "x = conflict_at a b c p" by blast
      then have "(p, tracked a p, tracked b p, tracked c p) \<in> set ?u" using mem dom by blast
      moreover have "x \<in> set (g (p, tracked a p, tracked b p, tracked c p))"
        using p by (simp add: g_def conflict_at_def clashing_def)
      ultimately show "x \<in> set cs" unfolding cs by auto
    qed
  qed
qed

text \<open>The outcome of a merge, by cases.\<close>

lemma merge_outcome:
  assumes d: "distinct_lock a" "distinct_lock b" "distinct_lock c"
  shows "case merge_three_way a b c of
      Inl (Paths cs) \<Rightarrow> clashing a b c \<noteq> {} \<and> sorted_wrt (<) (map c_path cs)
        \<and> set cs = conflict_at a b c ` clashing a b c
    | Inl (DirectoryPrefix x y) \<Rightarrow> clashing a b c = {}
        \<and> (\<exists>l. sorted_wrt (<) (lock_paths l) \<and> first_conflict (lock_paths l) = Some (x, y)
            \<and> (\<forall>p. merge_value (tracked a p) (tracked b p) (tracked c p) = Some (tracked l p)))
    | Inr l \<Rightarrow> sorted_wrt (<) (lock_paths l) \<and> conflict_free (set (lock_paths l))
        \<and> (\<forall>p. merge_value (tracked a p) (tracked b p) (tracked c p) = Some (tracked l p))"
proof -
  obtain es cs where r: "resolve_paths (version_union a b c) = (es, cs)" by (rule prod.exhaust)
  note u = resolve_union [OF d r]
  let ?l = "\<lparr>lock_entries = es\<rparr>"
  have sorted: "sorted_wrt (<) (lock_paths ?l)"
    using u(1) by (simp add: sorted_path_texts flip: path_texts_lock_paths)
  have dp: "directory_prefix_conflict es = first_conflict (lock_paths ?l)"
    using directory_prefix_conflict_eq [of es] sorted path_texts_lock_paths [of ?l] by simp
  have vals: "merge_value (tracked a p) (tracked b p) (tracked c p) = Some (tracked ?l p)"
    if "clashing a b c = {}" for p
    using u(2) [of p] that by (auto simp: clashing_def tracked_def split: option.splits)
  have m: "merge_three_way a b c = (if cs \<noteq> [] then Err (Paths cs) else
      (case first_conflict (lock_paths ?l) of Some (x, y) \<Rightarrow> Err (DirectoryPrefix x y) | None \<Rightarrow> Ok ?l))"
    by (simp add: merge_three_way_def r dp)
  show ?thesis
  proof (cases "cs = []")
    case True
    then have c: "clashing a b c = {}" using u(4) by simp
    with True sorted vals first_conflict_None [OF sorted] show ?thesis
      unfolding m by (cases "first_conflict (lock_paths ?l)") auto
  next
    case False
    with u(3,4) show ?thesis unfolding m by auto
  qed
qed

lemma lock_ext:
  assumes "sorted_wrt (<) (lock_paths l)" "sorted_wrt (<) (lock_paths k)" "tracked l = tracked k"
  shows "l = k"
proof -
  let ?f = "\<lambda>es. map (\<lambda>e. (entry_path e, entry_oid e)) es"
  have ok: "bt_ok (?f (lock_entries x))" if "sorted_wrt (<) (lock_paths x)" for x
    using that by (simp add: bt_ok_def sorted_path_texts flip: path_texts_lock_paths)
      (simp add: entry_paths_def comp_def)
  have "?f (lock_entries l) = ?f (lock_entries k)"
    using bt_ext [OF ok ok] assms by (simp add: tracked_def lock_map_def bt_get_def fun_eq_iff)
  moreover have "inj (\<lambda>e :: entry. (entry_path e, entry_oid e))" 
  proof (rule injI)
    fix x y :: entry
    assume "(entry_path x, entry_oid x) = (entry_path y, entry_oid y)"
    then show "x = y" by (cases x; cases y) simp
  qed
  ultimately have "lock_entries l = lock_entries k" by (metis inj_map_eq_map)
  then show ?thesis by simp
qed

lemma merge_accepts:
  assumes d: "distinct_lock a" "distinct_lock b" "distinct_lock c"
    and s: "sorted_wrt (<) (lock_paths l)" "conflict_free (set (lock_paths l))"
    and v: "\<And>p. merge_value (tracked a p) (tracked b p) (tracked c p) = Some (tracked l p)"
  shows "merge_three_way a b c = Ok l"
proof (cases "merge_three_way a b c")
  case (Inr k)
  then have k: "sorted_wrt (<) (lock_paths k)" "\<And>p. tracked k p = tracked l p"
    using merge_outcome [OF d] v by auto
  then have "k = l" using lock_ext [OF k(1) s(1)] by auto
  with Inr show ?thesis by simp
next
  case (Inl e)
  have c: "clashing a b c = {}" using v by (simp add: clashing_def)
  show ?thesis
  proof (cases e)
    case (Paths cs)
    then show ?thesis using merge_outcome [OF d] Inl c by simp
  next
    case (DirectoryPrefix x y)
    then obtain k where k: "sorted_wrt (<) (lock_paths k)" "first_conflict (lock_paths k) = Some (x, y)"
      "\<And>p. tracked k p = tracked l p"
      using merge_outcome [OF d] Inl v by auto
    then have "k = l" using lock_ext [OF k(1) s(1)] by auto
    with k(2) s first_conflict_None [OF s(1)] show ?thesis by simp
  qed
qed

lemma lock_map_sorted:
  assumes "distinct (entry_paths es)"
  shows "lock_map (sort_key entry_path es) = lock_map es"
proof -
  have "distinct (entry_paths (sort_key entry_path es))"
    using assms by (simp add: entry_paths_def distinct_map)
  then have "set (map (\<lambda>e. (entry_path e, entry_oid e)) (sort_key entry_path es))
      = set (map (\<lambda>e. (entry_path e, entry_oid e)) es)" by simp
  then show ?thesis
    unfolding lock_map_def
    by (intro map_of_inject_set [THEN iffD2])
      (use assms \<open>distinct (entry_paths (sort_key entry_path es))\<close> in \<open>simp_all add: entry_paths_def comp_def\<close>)
qed

lemma merge_value_swap: "merge_value a b c = merge_value a c b"
  by (simp add: merge_value_def)

lemma merge_value_same:
  "merge_value a a c = Some c" "merge_value a b a = Some b" "merge_value a b b = Some b"
  by (simp_all add: merge_value_def)

text \<open>
  C13: for inputs with distinct paths, the merge succeeds with a lock exactly when that lock is
  strictly ordered, free of file/directory conflicts, and holds at every path the value Git's
  three-way rule gives there: the side that changed, or the common value.
\<close>

theorem merge_three_way_spec:
  assumes "distinct_lock a" "distinct_lock b" "distinct_lock c"
  shows "merge_three_way a b c = Ok l \<longleftrightarrow>
    sorted_wrt (<) (lock_paths l) \<and> conflict_free (set (lock_paths l))
    \<and> (\<forall>p. merge_value (tracked a p) (tracked b p) (tracked c p) = Some (tracked l p))"
  using merge_outcome [OF assms] merge_accepts [OF assms] by fastforce

definition sample :: "(string \<times> nat) list \<Rightarrow> lock" where
  "sample xs = \<lparr>lock_entries = map (\<lambda>(p, n). \<lparr>entry_path = GatPath (lit p), entry_oid = Oid (replicate 32 (of_nat n))\<rparr>) xs\<rparr>"

lemma sample_distinct:
  "distinct_lock (sample [(''b'', 1), (''a'', 1)])"
  "distinct_lock (sample [(''b'', 2), (''a'', 1)])"
  "distinct_lock (sample [(''c'', 3), (''b'', 1)])"
  "distinct_lock (sample [(''b'', 3)])"
  by code_simp+

lemma merge_three_way_spec_witness:
  "sorted_wrt (<) (lock_paths (sample [(''b'', 2), (''c'', 3)]))
   \<and> (\<forall>p. merge_value (tracked (sample [(''b'', 1), (''a'', 1)]) p) (tracked (sample [(''b'', 2), (''a'', 1)]) p)
         (tracked (sample [(''c'', 3), (''b'', 1)]) p) = Some (tracked (sample [(''b'', 2), (''c'', 3)]) p))"
proof -
  have "merge_three_way (sample [(''b'', 1), (''a'', 1)]) (sample [(''b'', 2), (''a'', 1)]) (sample [(''c'', 3), (''b'', 1)])
    = Ok (sample [(''b'', 2), (''c'', 3)])"
    by code_simp
  then show ?thesis
    unfolding merge_three_way_spec [OF sample_distinct(1-3)] by blast
qed

text \<open>
  C14: a failed merge names its reason. The same-path conflicts are reported first: all of them,
  in path order, each with the three versions. Only when there is none is a prefix conflict
  reported, and it is the first pair in path order of the merged map.
\<close>

theorem merge_three_way_errors:
  assumes "distinct_lock a" "distinct_lock b" "distinct_lock c"
  shows "(merge_three_way a b c = Err (Paths cs) \<longleftrightarrow>
      cs \<noteq> [] \<and> sorted_wrt (<) (map c_path cs) \<and> set cs = conflict_at a b c ` clashing a b c)
    \<and> (merge_three_way a b c = Err (DirectoryPrefix x y) \<longleftrightarrow>
      (\<exists>l. sorted_wrt (<) (lock_paths l)
         \<and> (\<forall>p. merge_value (tracked a p) (tracked b p) (tracked c p) = Some (tracked l p))
         \<and> first_conflict (lock_paths l) = Some (x, y)))"
proof (rule conjI)
  note out = merge_outcome [OF assms]
  show "merge_three_way a b c = Err (Paths cs) \<longleftrightarrow>
      cs \<noteq> [] \<and> sorted_wrt (<) (map c_path cs) \<and> set cs = conflict_at a b c ` clashing a b c"
    (is "?L \<longleftrightarrow> ?R")
  proof
    assume ?L with out show ?R by auto
  next
    assume r: ?R
    then have "clashing a b c \<noteq> {}" by auto
    then obtain ds where m: "merge_three_way a b c = Err (Paths ds)"
      and ds: "sorted_wrt (<) (map c_path ds)" "set ds = conflict_at a b c ` clashing a b c"
      using out by (auto simp: clashing_def split: sum.splits merge_conflict.splits)
    have "inj_on c_path (set cs)" using r by (auto simp: inj_on_def conflict_at_def)
    moreover have "map c_path cs = map c_path ds"
      using r ds by (intro strict_sorted_equal) auto
    ultimately have "cs = ds"
      using r ds(2) by (metis inj_on_map_eq_map sup.idem)
    with m show ?L by simp
  qed
  show "merge_three_way a b c = Err (DirectoryPrefix x y) \<longleftrightarrow>
      (\<exists>l. sorted_wrt (<) (lock_paths l)
         \<and> (\<forall>p. merge_value (tracked a p) (tracked b p) (tracked c p) = Some (tracked l p))
         \<and> first_conflict (lock_paths l) = Some (x, y))" (is "?L \<longleftrightarrow> ?R")
  proof
    assume ?L with out show ?R by auto
  next
    assume ?R
    then obtain l where l: "sorted_wrt (<) (lock_paths l)" "first_conflict (lock_paths l) = Some (x, y)"
      and v: "\<And>p. merge_value (tracked a p) (tracked b p) (tracked c p) = Some (tracked l p)" by blast
    have same: "k = l" if "sorted_wrt (<) (lock_paths k)"
      "\<forall>p. merge_value (tracked a p) (tracked b p) (tracked c p) = Some (tracked k p)" for k
    proof (rule lock_ext [OF that(1) l(1)], rule ext)
      fix p show "tracked k p = tracked l p" using that(2) [rule_format, of p] v [of p] by simp
    qed
    have "clashing a b c = {}" using v by (simp add: clashing_def)
    moreover have "\<not> conflict_free (set (lock_paths l))"
      using l(2) first_conflict_None [OF l(1)] by simp
    ultimately show ?L
      using out l(2) by (auto dest!: same split: sum.splits merge_conflict.splits)
  qed
qed

lemma merge_three_way_errors_witness:
  "conflict_at (sample [(''b'', 1), (''a'', 1)]) (sample [(''b'', 2), (''a'', 1)]) (sample [(''b'', 3)]) `
       clashing (sample [(''b'', 1), (''a'', 1)]) (sample [(''b'', 2), (''a'', 1)]) (sample [(''b'', 3)])
     = {conflict_at (sample [(''b'', 1), (''a'', 1)]) (sample [(''b'', 2), (''a'', 1)]) (sample [(''b'', 3)]) (GatPath (lit ''b''))}"
proof -
  have "merge_three_way (sample [(''b'', 1), (''a'', 1)]) (sample [(''b'', 2), (''a'', 1)]) (sample [(''b'', 3)])
    = Err (Paths [conflict_at (sample [(''b'', 1), (''a'', 1)]) (sample [(''b'', 2), (''a'', 1)]) (sample [(''b'', 3)]) (GatPath (lit ''b''))])"
    by code_simp
  then show ?thesis
    unfolding conjunct1 [OF merge_three_way_errors [OF sample_distinct(1,2,4)]] by simp
qed

definition swap_conflict :: "conflict \<Rightarrow> conflict" where
  "swap_conflict x = x\<lparr>c_ours := c_theirs x, c_theirs := c_ours x\<rparr>"

text \<open>
  The merge does not depend on which side is called ours: exchanging the sides gives the same
  lock, the same prefix conflict, and the same conflicts with their sides exchanged.
\<close>

theorem merge_three_way_symmetric:
  assumes "distinct_lock a" "distinct_lock b" "distinct_lock c"
  shows "merge_three_way a c b =
    (case merge_three_way a b c of
       Inr l \<Rightarrow> Ok l
     | Inl (Paths cs) \<Rightarrow> Err (Paths (map swap_conflict cs))
     | Inl (DirectoryPrefix x y) \<Rightarrow> Err (DirectoryPrefix x y))"
proof -
  let ?sw = "\<lambda>(p, av, ov, tv). (p, av, tv, ov)"
  have u: "version_union a c b = map ?sw (version_union a b c)"
  proof (rule bt_ext)
    note u1 = version_union_spec [OF assms [unfolded distinct_lock_def]]
    note u2 = version_union_spec [OF assms(1,3,2) [unfolded distinct_lock_def]]
    show "bt_ok (version_union a c b)" by (rule u2(1))
    show "bt_ok (map ?sw (version_union a b c))"
      using u1(1) by (simp add: bt_ok_def comp_def case_prod_unfold)
    have sw: "bt_get (map ?sw m) p = map_option (\<lambda>(av, ov, tv). (av, tv, ov)) (bt_get m p)" for m p
      by (induction m) (auto simp: bt_get_def)
    have get: "bt_get m p = (if p \<in> fst ` set m then Some (versions_of m p) else None)" for m p
      using bt_get_None [of m p] by (auto simp: versions_of_def)
    show "bt_get (version_union a c b) = bt_get (map ?sw (version_union a b c))"
    proof
      fix p
      show "bt_get (version_union a c b) p = bt_get (map ?sw (version_union a b c)) p"
        unfolding sw get [of "version_union a b c"] get [of "version_union a c b"] u1(2,3) u2(2,3) by auto
    qed
  qed
  have r: "resolve_paths (map ?sw m) = (fst (resolve_paths m), map swap_conflict (snd (resolve_paths m)))" for m
  proof (induction m)
    case (Cons x m)
    obtain p av ov tv where x: "x = (p, av, ov, tv)" by (cases x)
    have "merge_value av tv ov = merge_value av ov tv" by (rule merge_value_swap)
    with Cons show ?case
      by (simp add: x resolve_paths_Cons case_prod_unfold swap_conflict_def split: option.split)
  qed simp
  show ?thesis
    unfolding merge_three_way_def u r
    by (cases "resolve_paths (version_union a b c)") (simp split: option.split)
qed

lemma merge_three_way_symmetric_witness:
  "merge_three_way (sample [(''b'', 1), (''a'', 1)]) (sample [(''b'', 3)]) (sample [(''b'', 2), (''a'', 1)])
    = Err (Paths [swap_conflict (conflict_at (sample [(''b'', 1), (''a'', 1)]) (sample [(''b'', 2), (''a'', 1)]) (sample [(''b'', 3)]) (GatPath (lit ''b'')))])"
proof -
  have "merge_three_way (sample [(''b'', 1), (''a'', 1)]) (sample [(''b'', 2), (''a'', 1)]) (sample [(''b'', 3)])
    = Err (Paths [conflict_at (sample [(''b'', 1), (''a'', 1)]) (sample [(''b'', 2), (''a'', 1)]) (sample [(''b'', 3)]) (GatPath (lit ''b''))])"
    by code_simp
  then show ?thesis
    unfolding merge_three_way_symmetric [OF sample_distinct(1,2,4)] by (simp only: sum.case merge_conflict.case list.map)
qed

end
