(* ===== verification/PathSelection.thy ===== *)
theory PathSelection
  imports LexicalPath
begin

text \<open>
  Include/exclude patterns and resolved selections (\<open>gat-core/src/globs.rs\<close>,
  \<open>gat-core/src/selection.rs\<close>). The glob engine is a third-party package and a parameter:
  \<open>compile\<close> (\<open>glob::Pattern::new\<close>) and \<open>matches_with\<close> (with the fixed match options). The lemmas show
  what a selection selects, and that the candidate bounds read off a pattern lose nothing.
\<close>

section \<open>Patterns\<close>

datatype 'e glob_error = InvalidLexicalSyntax str lexical_path_error | InvalidGlobSyntax str 'e

datatype glob_bound = Any | PrefixBound str | Exact str

record 'p gat_glob_pattern =
  normalized :: str
  glob_first_meta :: "nat option"
  compiled :: 'p

definition first_meta_index :: "str \<Rightarrow> nat option" where
  "first_meta_index pat = find_position is_glob_meta pat"

definition from_normalized ::
  "(str \<Rightarrow> 'e + 'p) \<Rightarrow> str \<Rightarrow> nat option \<Rightarrow> 'e glob_error + 'p gat_glob_pattern" where
  "from_normalized compile text meta =
     map_ok (\<lambda>c. \<lparr>normalized = text, glob_first_meta = meta, compiled = c\<rparr>)
       (map_err (InvalidGlobSyntax text) (compile text))"

definition glob_parse :: "(str \<Rightarrow> 'e + 'p) \<Rightarrow> str \<Rightarrow> 'e glob_error + 'p gat_glob_pattern" where
  "glob_parse compile pat =
     and_then (map_err (InvalidLexicalSyntax pat) (normalize_glob_pattern_with_meta pat)) (\<lambda>n.
       from_normalized compile (pattern n) (first_meta n))"

definition glob_from_path :: "(str \<Rightarrow> 'e + 'p) \<Rightarrow> gat_path \<Rightarrow> 'e glob_error + 'p gat_glob_pattern" where
  "glob_from_path compile path = from_normalized compile (as_str path) (first_meta_index (as_str path))"

definition glob_matches :: "('p \<Rightarrow> str \<Rightarrow> bool) \<Rightarrow> 'p gat_glob_pattern \<Rightarrow> str \<Rightarrow> bool" where
  "glob_matches matches_with self path = matches_with (compiled self) path"

text \<open>The indices of the separators, \<open>match_indices('/')\<close>.\<close>

definition slash_indices :: "str \<Rightarrow> nat list" where
  "slash_indices s = filter (\<lambda>i. s ! i = SLASH) [0..<length s]"

definition can_match_descendant ::
  "(str \<Rightarrow> 'e + 'p) \<Rightarrow> ('p \<Rightarrow> str \<Rightarrow> bool) \<Rightarrow> 'p gat_glob_pattern \<Rightarrow> str \<Rightarrow> bool" where
  "can_match_descendant compile matches_with self directory \<longleftrightarrow>
     directory = []
     \<or> (let prefixes = List.map_filter
              (\<lambda>i. case compile (take i (normalized self)) of Inl _ \<Rightarrow> None | Inr p \<Rightarrow> Some p)
              (slash_indices (normalized self))
        in list_ex (\<lambda>p. matches_with p directory) prefixes
          \<or> last (split_on SLASH (normalized self)) = lit ''**'' \<and> glob_matches matches_with self directory)"

definition bound :: "'p gat_glob_pattern \<Rightarrow> glob_bound" where
  "bound self =
     (case glob_first_meta self of
        None \<Rightarrow> Exact (normalized self)
      | Some n \<Rightarrow> if n = 0 then Any else PrefixBound (take n (normalized self)))"

text \<open>Equality and order look at the normalized text alone.\<close>

definition glob_eq :: "'p gat_glob_pattern \<Rightarrow> 'p gat_glob_pattern \<Rightarrow> bool" where
  "glob_eq self other \<longleftrightarrow> normalized self = normalized other"

definition glob_cmp :: "'p gat_glob_pattern \<Rightarrow> 'p gat_glob_pattern \<Rightarrow> ordering" where
  "glob_cmp self other = cmp (normalized self) (normalized other)"

section \<open>Filters and selections\<close>

record 'p glob_filter =
  f_include :: "'p gat_glob_pattern list"
  f_exclude :: "'p gat_glob_pattern list"

definition any_match :: "('p \<Rightarrow> str \<Rightarrow> bool) \<Rightarrow> 'p gat_glob_pattern list \<Rightarrow> str \<Rightarrow> bool" where
  "any_match matches_with patterns rel_path = list_ex (\<lambda>pat. glob_matches matches_with pat rel_path) patterns"

definition filter_matches :: "('p \<Rightarrow> str \<Rightarrow> bool) \<Rightarrow> 'p glob_filter \<Rightarrow> str \<Rightarrow> bool" where
  "filter_matches matches_with self rel_path =
     (if f_include self \<noteq> [] \<and> \<not> any_match matches_with (f_include self) rel_path then False
      else \<not> any_match matches_with (f_exclude self) rel_path)"

definition filter_is_unrestricted :: "'p glob_filter \<Rightarrow> bool" where
  "filter_is_unrestricted self \<longleftrightarrow> f_include self = [] \<and> f_exclude self = []"

record 'p selection =
  sel_scope :: path_scope
  sel_filter :: "'p glob_filter"

definition from_scope_patterns ::
  "path_scope \<Rightarrow> 'p gat_glob_pattern list \<Rightarrow> 'p gat_glob_pattern list \<Rightarrow> 'p selection" where
  "from_scope_patterns scope inc exc = \<lparr>sel_scope = scope, sel_filter = \<lparr>f_include = inc, f_exclude = exc\<rparr>\<rparr>"

definition selection_root :: "'p selection" where
  "selection_root = from_scope_patterns ScopeRoot [] []"

definition scope_path :: "'p selection \<Rightarrow> gat_path option" where
  "scope_path self = (case sel_scope self of ScopeRoot \<Rightarrow> None | ScopePath s \<Rightarrow> Some s)"

definition is_unrestricted :: "'p selection \<Rightarrow> bool" where
  "is_unrestricted self \<longleftrightarrow> sel_scope self = ScopeRoot \<and> filter_is_unrestricted (sel_filter self)"

definition include_globs :: "'p selection \<Rightarrow> 'p gat_glob_pattern list" where
  "include_globs self = f_include (sel_filter self)"

definition has_no_glob_filter :: "'p selection \<Rightarrow> bool" where
  "has_no_glob_filter self \<longleftrightarrow> filter_is_unrestricted (sel_filter self)"

definition selection_relative :: "'p selection \<Rightarrow> str \<Rightarrow> str option" where
  "selection_relative self candidate =
     (case sel_scope self of ScopeRoot \<Rightarrow> Some candidate
      | ScopePath scope \<Rightarrow> relative_path candidate (as_str scope))"

definition matches_str :: "('p \<Rightarrow> str \<Rightarrow> bool) \<Rightarrow> 'p selection \<Rightarrow> str \<Rightarrow> bool" where
  "matches_str matches_with self candidate =
     (case selection_relative self candidate of
        Some rel \<Rightarrow> filter_matches matches_with (sel_filter self) rel
      | None \<Rightarrow> False)"

definition selection_matches :: "('p \<Rightarrow> str \<Rightarrow> bool) \<Rightarrow> 'p selection \<Rightarrow> gat_path \<Rightarrow> bool" where
  "selection_matches matches_with self candidate = matches_str matches_with self (as_str candidate)"

definition reparent_relative :: "'p selection \<Rightarrow> gat_path \<Rightarrow> gat_subpath_ref option" where
  "reparent_relative self candidate =
     (case sel_scope self of ScopeRoot \<Rightarrow> Some (RefPath candidate)
      | ScopePath scope \<Rightarrow> gat_path_strip_prefix candidate scope)"

section \<open>Properties\<close>

text \<open>The text of a relative path, as the filter sees it.\<close>

fun ref_text :: "gat_subpath_ref \<Rightarrow> str" where
  "ref_text RefRoot = []"
| "ref_text (RefPath p) = as_str p"

lemma selection_relative_ref:
  "selection_relative self (as_str c) = map_option ref_text (reparent_relative self c)"
proof -
  have "map_option ref_text (map_option (\<lambda>r. if r = [] then RefRoot else RefPath (GatPath r)) x) = x" for x
    by (cases x) simp_all
  then show ?thesis
    by (simp add: selection_relative_def reparent_relative_def gat_path_strip_prefix_def split: path_scope.split)
qed

lemma reparent_scope: "reparent_relative self c \<noteq> None \<longleftrightarrow> matches_scope c (sel_scope self)"
  by (cases "sel_scope self") (simp_all add: reparent_relative_def is_or_under_def)

lemma filter_matches_iff:
  "filter_matches m f r \<longleftrightarrow>
     (f_include f = [] \<or> (\<exists>p \<in> set (f_include f). m (compiled p) r)) \<and> (\<forall>p \<in> set (f_exclude f). \<not> m (compiled p) r)"
  by (auto simp: filter_matches_def any_match_def glob_matches_def list_ex_iff)

lemma selection_matches_iff:
  "selection_matches m self c \<longleftrightarrow>
     (\<exists>r. reparent_relative self c = Some r \<and> filter_matches m (sel_filter self) (ref_text r))"
  by (auto simp: selection_matches_def matches_str_def selection_relative_ref split: option.splits)

lemma glob_first_meta_parse:
  assumes "glob_parse compile pat = Ok g"
  shows "compile (normalized g) = Ok (compiled g) \<and> glob_first_meta g = find_position is_glob_meta (normalized g)"
proof -
  obtain n where n: "normalize_lexical pat pat True = Ok n" "from_normalized compile (pattern n) (first_meta n) = Ok g"
    using assms by (auto simp: glob_parse_def normalize_glob_pattern_with_meta_def result_elims)
  then have "meta_ok True n"
    by (auto simp: normalize_lexical_spec split: if_splits)
  with n(2) show ?thesis
    by (auto simp: from_normalized_def meta_ok_def result_elims)
qed

lemma glob_first_meta_path:
  "glob_from_path compile p = Ok g \<Longrightarrow>
     compile (normalized g) = Ok (compiled g) \<and> glob_first_meta g = find_position is_glob_meta (normalized g)"
  by (auto simp: glob_from_path_def from_normalized_def first_meta_index_def result_elims)

fun admits :: "glob_bound \<Rightarrow> str \<Rightarrow> bool" where
  "admits Any s = True"
| "admits (PrefixBound p) s = prefix p s"
| "admits (Exact p) s = (s = p)"

lemma bound_sound:
  assumes law: "\<And>l r c s. list_all (\<lambda>b. \<not> is_glob_meta b) l \<Longrightarrow> compile (l @ r) = Ok c \<Longrightarrow> matches_with c s \<Longrightarrow>
      prefix l s \<and> (r = [] \<longrightarrow> s = l)"
    and g: "compile (normalized g) = Ok (compiled g)" "glob_first_meta g = find_position is_glob_meta (normalized g)"
    and m: "glob_matches matches_with g s"
  shows "admits (bound g) s"
proof (cases "glob_first_meta g")
  case None
  then have "list_all (\<lambda>b. \<not> is_glob_meta b) (normalized g)"
    using g(2) by (simp add: find_position_None list_all_iff)
  with law [of "normalized g" "[]"] g(1) m None show ?thesis
    by (simp add: bound_def glob_matches_def)
next
  case (Some n)
  then have "list_all (\<lambda>b. \<not> is_glob_meta b) (take n (normalized g))"
    using g(2) by (simp add: find_position_Some list_all_iff)
  with law [of "take n (normalized g)" "drop n (normalized g)"] g(1) m Some show ?thesis
    by (simp add: bound_def glob_matches_def)
qed

text \<open>
  A selection selects a path exactly when the path lies in the scope and its part below the
  scope is matched by some include pattern, if there is one, and by no exclude pattern. The
  relative part is the one used to move the path elsewhere. An unrestricted selection selects all.
\<close>

theorem selection_semantics:
  "(selection_matches m (from_scope_patterns scope inc exc) c \<longleftrightarrow>
      (case reparent_relative (from_scope_patterns scope inc exc) c of
         None \<Rightarrow> False
       | Some r \<Rightarrow> (inc = [] \<or> (\<exists>p \<in> set inc. m (compiled p) (ref_text r))) \<and> \<not> (\<exists>p \<in> set exc. m (compiled p) (ref_text r))))
   \<and> (reparent_relative (from_scope_patterns scope inc exc) c = None \<longleftrightarrow> \<not> matches_scope c scope)
   \<and> (is_unrestricted (from_scope_patterns scope inc exc) \<longleftrightarrow> from_scope_patterns scope inc exc = selection_root)
   \<and> selection_matches m selection_root c"
proof -
  have s: "sel_scope (from_scope_patterns scope inc exc) = scope"
    "f_include (sel_filter (from_scope_patterns scope inc exc)) = inc"
    "f_exclude (sel_filter (from_scope_patterns scope inc exc)) = exc"
    for scope inc exc by (simp_all add: from_scope_patterns_def)
  have "reparent_relative (from_scope_patterns scope inc exc) c = None \<longleftrightarrow> \<not> matches_scope c scope"
    using reparent_scope [of "from_scope_patterns scope inc exc" c] unfolding s by blast
  moreover have "is_unrestricted (from_scope_patterns scope inc exc) \<longleftrightarrow> from_scope_patterns scope inc exc = selection_root"
    by (auto simp: is_unrestricted_def filter_is_unrestricted_def from_scope_patterns_def selection_root_def)
  moreover have "selection_matches m selection_root c"
    unfolding selection_matches_iff filter_matches_iff selection_root_def s by (simp add: reparent_relative_def s)
  moreover have "selection_matches m (from_scope_patterns scope inc exc) c \<longleftrightarrow>
      (case reparent_relative (from_scope_patterns scope inc exc) c of
         None \<Rightarrow> False
       | Some r \<Rightarrow> (inc = [] \<or> (\<exists>p \<in> set inc. m (compiled p) (ref_text r))) \<and> \<not> (\<exists>p \<in> set exc. m (compiled p) (ref_text r)))"
    unfolding selection_matches_iff filter_matches_iff s by (auto split: option.split)
  ultimately show ?thesis by blast
qed

text \<open>
  Candidate bounds are safe. With a glob engine that matches fixed text literally, a path
  matched by a parsed pattern lies in the pattern's bound: it starts with the text before the
  first metacharacter, and is the pattern itself when there is none. So a search restricted to the
  bounds of the include patterns misses nothing the selection selects.
\<close>

theorem glob_bounds_sound:
  assumes "\<And>l r c s. list_all (\<lambda>b. \<not> is_glob_meta b) l \<Longrightarrow> compile (l @ r) = Ok c \<Longrightarrow> matches_with c s \<Longrightarrow>
      prefix l s \<and> (r = [] \<longrightarrow> s = l)"
    and "\<And>g. g \<in> set (include_globs self) \<Longrightarrow> \<exists>pat. glob_parse compile pat = Ok g"
    and "selection_matches matches_with self c" "include_globs self \<noteq> []"
  shows "\<exists>g \<in> set (include_globs self). \<exists>r. reparent_relative self c = Some r \<and> admits (bound g) (ref_text r)"
proof -
  obtain r where r: "reparent_relative self c = Some r" "filter_matches matches_with (sel_filter self) (ref_text r)"
    using assms(3) by (auto simp: selection_matches_iff)
  then obtain g where g: "g \<in> set (include_globs self)" "matches_with (compiled g) (ref_text r)"
    using assms(4) by (auto simp: filter_matches_iff include_globs_def)
  obtain pat where "glob_parse compile pat = Ok g" using assms(2) [OF g(1)] by blast
  note f = glob_first_meta_parse [OF this]
  have "admits (bound g) (ref_text r)"
    by (rule bound_sound [where compile = compile and matches_with = matches_with, OF assms(1) conjunct1 [OF f] conjunct2 [OF f]])
      (use g(2) in \<open>simp_all add: glob_matches_def\<close>)
  with g(1) r(1) show ?thesis by blast
qed

text \<open>An engine for the witness: a pattern is fixed text, optionally followed by one star.\<close>

definition star_compile :: "str \<Rightarrow> unit + (str \<times> bool)" where
  "star_compile pat =
     (if list_all (\<lambda>b. \<not> is_glob_meta b) pat then Ok (pat, False)
      else if pat \<noteq> [] \<and> last pat = 42 \<and> list_all (\<lambda>b. \<not> is_glob_meta b) (butlast pat) then Ok (butlast pat, True)
      else Err ())"

definition star_matches :: "str \<times> bool \<Rightarrow> str \<Rightarrow> bool" where
  "star_matches p s = (if snd p then prefix (fst p) s \<and> SLASH \<notin> set (drop (length (fst p)) s) else s = fst p)"

lemma star_law:
  assumes "list_all (\<lambda>b. \<not> is_glob_meta b) l" "star_compile (l @ r) = Ok c" "star_matches c s"
  shows "prefix l s \<and> (r = [] \<longrightarrow> s = l)"
proof (cases "r = []")
  case True
  with assms show ?thesis by (auto simp: star_compile_def star_matches_def)
next
  case False
  with assms show ?thesis
    by (auto simp: star_compile_def star_matches_def butlast_append prefix_def split: if_splits)
qed

lemma glob_bounds_sound_witness:
  "\<exists>g. glob_parse star_compile (lit ''models//*'') = Ok g
     \<and> selection_matches star_matches (from_scope_patterns ScopeRoot [g] []) (GatPath (lit ''models/a''))
     \<and> admits (bound g) (lit ''models/a'')"
proof -
  define g where "g = \<lparr>normalized = lit ''models/*'', glob_first_meta = Some 7, compiled = (lit ''models/'', True)\<rparr>"
  have parse: "glob_parse star_compile (lit ''models//*'') = Ok g"
    unfolding g_def by code_simp
  let ?s = "from_scope_patterns ScopeRoot [g] []"
  have inc: "include_globs ?s = [g]" by (simp add: include_globs_def from_scope_patterns_def)
  have m: "selection_matches star_matches ?s (GatPath (lit ''models/a''))"
    unfolding g_def by code_simp
  have "\<exists>g' \<in> set (include_globs ?s). \<exists>r. reparent_relative ?s (GatPath (lit ''models/a'')) = Some r
      \<and> admits (bound g') (ref_text r)"
    by (rule glob_bounds_sound [where compile = star_compile and matches_with = star_matches])
      (use star_law parse m inc in auto)
  then have "admits (bound g) (lit ''models/a'')"
    unfolding inc by (simp add: reparent_relative_def from_scope_patterns_def)
  with parse m show ?thesis by blast
qed

end
