(* ===== verification/ShardId.thy ===== *)
theory ShardId
  imports ObjectId
begin

unbundle bit_operations_syntax

text \<open>
  Shard identifiers (\<open>gat-core/src/lock/shard.rs\<close>): the fan-out depth, the compact id with its four
  prefix bytes, its order, and the canonical spelling written into a 32-byte buffer and parsed back.
  A slice write that would leave the buffer is a panic in the source and \<open>None\<close> here. The lemmas
  show the spelling is a bijection with the well-formed ids, that the buffer is never left, and that
  the order without texts is the order of the texts.
\<close>

section \<open>Depths and ids\<close>

datatype lock_shard_levels = Levels (levels_get: u8)

record lock_shard_levels_error =
  le_depth :: u8
  le_max :: u8

definition LEVELS_MAX :: u8 where "LEVELS_MAX = 4"
definition LEVELS_FLAT :: lock_shard_levels where "LEVELS_FLAT = Levels 0"

definition levels_new :: "u8 \<Rightarrow> lock_shard_levels_error + lock_shard_levels" where
  "levels_new depth =
     (if depth > LEVELS_MAX then Err \<lparr>le_depth = depth, le_max = LEVELS_MAX\<rparr> else Ok (Levels depth))"

definition levels_is_flat :: "lock_shard_levels \<Rightarrow> bool" where
  "levels_is_flat self \<longleftrightarrow> levels_get self = 0"

text \<open>Serialization is the depth as \<open>u8\<close>; deserialization validates it.\<close>

definition levels_serialize :: "lock_shard_levels \<Rightarrow> u8" where
  "levels_serialize self = levels_get self"

definition levels_deserialize :: "u8 \<Rightarrow> lock_shard_levels_error + lock_shard_levels" where
  "levels_deserialize depth = levels_new depth"

record lock_shard_id =
  sid_depth :: lock_shard_levels
  sid_prefix :: "u8 list"

text \<open>The order: \<open>then_with\<close> on the shared prefix bytes and the depths.\<close>

definition shard_cmp :: "lock_shard_id \<Rightarrow> lock_shard_id \<Rightarrow> ordering" where
  "shard_cmp self other =
     (let shared = unat (min (levels_get (sid_depth self)) (levels_get (sid_depth other))) in
      case cmp (take shared (sid_prefix self)) (take shared (sid_prefix other)) of
        Equal \<Rightarrow> cmp (levels_get (sid_depth self)) (levels_get (sid_depth other))
      | decided \<Rightarrow> decided)"

definition shard_flat :: lock_shard_id where
  "shard_flat = \<lparr>sid_depth = LEVELS_FLAT, sid_prefix = replicate 4 0\<rparr>"

definition shard_is_flat :: "lock_shard_id \<Rightarrow> bool" where
  "shard_is_flat self \<longleftrightarrow> levels_is_flat (sid_depth self)"

definition sid_levels :: "lock_shard_id \<Rightarrow> lock_shard_levels" where
  "sid_levels self = sid_depth self"

definition prefix_bytes :: "lock_shard_id \<Rightarrow> u8 list" where
  "prefix_bytes self = take (unat (levels_get (sid_depth self))) (sid_prefix self)"

text \<open>\<open>buf[at..at + src.len()].copy_from_slice(src)\<close>: a panic (\<open>None\<close>) out of range.\<close>

definition copy_at :: "nat \<Rightarrow> 'a list \<Rightarrow> 'a list \<Rightarrow> 'a list option" where
  "copy_at at src buf =
     (if at + length src \<le> length buf then Some (take at buf @ src @ drop (at + length src) buf) else None)"

text \<open>Placement: \<open>hash\<close> is \<open>blake3::hash\<close>, a parameter.\<close>

definition for_validated_path :: "(str \<Rightarrow> u8 list) \<Rightarrow> str \<Rightarrow> lock_shard_levels \<Rightarrow> lock_shard_id option" where
  "for_validated_path hash path shard_levels =
     (if levels_is_flat shard_levels then Some shard_flat
      else
        (let levels = unat (levels_get shard_levels) in
         map_option (\<lambda>bytes. \<lparr>sid_depth = shard_levels, sid_prefix = bytes\<rparr>)
           (copy_at 0 (take levels (hash path)) (replicate 4 0))))"

definition for_path :: "(str \<Rightarrow> u8 list) \<Rightarrow> gat_path \<Rightarrow> lock_shard_levels \<Rightarrow> lock_shard_id option" where
  "for_path hash path shard_levels = for_validated_path hash (as_str path) shard_levels"

section \<open>The canonical spelling\<close>

record canonical_id_buf =
  cb_buf :: "u8 list"
  cb_len :: nat

definition buf_new :: canonical_id_buf where
  "buf_new = \<lparr>cb_buf = replicate 32 0, cb_len = 0\<rparr>"

definition buf_as_bytes :: "canonical_id_buf \<Rightarrow> str" where
  "buf_as_bytes self = take (cb_len self) (cb_buf self)"

text \<open>\<open>from_utf8(..).expect(..)\<close>, on bytes that are always ASCII.\<close>

definition buf_as_str :: "canonical_id_buf \<Rightarrow> str option" where
  "buf_as_str self = (let bytes = buf_as_bytes self in if \<forall>b \<in> set bytes. b < 128 then Some bytes else None)"

definition buf_push :: "str \<Rightarrow> canonical_id_buf \<Rightarrow> canonical_id_buf option" where
  "buf_push src out =
     map_option (\<lambda>buf. \<lparr>cb_buf = buf, cb_len = cb_len out + length src\<rparr>) (copy_at (cb_len out) src (cb_buf out))"

fun push_prefix_bytes :: "u8 list \<Rightarrow> canonical_id_buf \<Rightarrow> canonical_id_buf option" where
  "push_prefix_bytes [] out = Some out"
| "push_prefix_bytes (byte # bytes) out =
     Option.bind
       (buf_push [SLASH, HEX_DIGITS ! unat (drop_bit 4 byte), HEX_DIGITS ! unat (byte AND 15)] out)
       (push_prefix_bytes bytes)"

definition canonical_buffer :: "lock_shard_id \<Rightarrow> canonical_id_buf option" where
  "canonical_buffer self =
     Option.bind (buf_push (lit ''gat.lock'') buf_new) (\<lambda>out.
     Option.bind (push_prefix_bytes (prefix_bytes self) out) (\<lambda>out.
       if \<not> shard_is_flat self then buf_push (lit ''.tsv'') out else Some out))"

definition to_canonical_string :: "lock_shard_id \<Rightarrow> str option" where
  "to_canonical_string self = Option.bind (canonical_buffer self) buf_as_str"

definition shard_eq_str :: "lock_shard_id \<Rightarrow> str \<Rightarrow> bool option" where
  "shard_eq_str self other =
     Option.bind (canonical_buffer self) (\<lambda>buf. map_option (\<lambda>s. s = other) (buf_as_str buf))"

section \<open>Parsing\<close>

datatype lock_shard_id_error = LockShardIdError str

text \<open>\<open>char::to_digit(16)\<close>, both cases.\<close>

definition to_digit16 :: "u8 \<Rightarrow> 32 word option" where
  "to_digit16 c =
     (if 48 \<le> c \<and> c \<le> 57 then Some (ucast (c - 48))
      else if 97 \<le> c \<and> c \<le> 102 then Some (ucast (c - 97 + 10))
      else if 65 \<le> c \<and> c \<le> 70 then Some (ucast (c - 65 + 10))
      else None)"

definition is_ascii_digit :: "u8 \<Rightarrow> bool" where "is_ascii_digit b \<longleftrightarrow> 48 \<le> b \<and> b \<le> 57"
definition is_ascii_lowercase :: "u8 \<Rightarrow> bool" where "is_ascii_lowercase b \<longleftrightarrow> 97 \<le> b \<and> b \<le> 122"

definition parse_hex_byte :: "str \<Rightarrow> u8 option" where
  "parse_hex_byte b =
     (case b of
        [b0, b1] \<Rightarrow>
          Option.bind (to_digit16 b0) (\<lambda>hi.
          Option.bind (to_digit16 b1) (\<lambda>lo.
            if \<not> is_ascii_digit b0 \<and> \<not> is_ascii_lowercase b0 then None
            else if \<not> is_ascii_digit b1 \<and> \<not> is_ascii_lowercase b1 then None
            else if push_bit 4 hi OR lo \<le> 255 then Some (ucast (push_bit 4 hi OR lo)) else None))
      | _ \<Rightarrow> None)"

fun parse_shard_components :: "str list \<Rightarrow> u8 list \<Rightarrow> nat \<Rightarrow> (u8 list \<times> nat) option" where
  "parse_shard_components [] bytes depth = Some (bytes, depth)"
| "parse_shard_components (component # components) bytes depth =
     (if depth \<ge> unat LEVELS_MAX then None
      else
        (case parse_hex_byte component of
           None \<Rightarrow> None
         | Some byte \<Rightarrow> parse_shard_components components (bytes[depth := byte]) (depth + 1)))"

definition shard_parse_canonical :: "str \<Rightarrow> lock_shard_id_error + lock_shard_id" where
  "shard_parse_canonical raw =
     (if raw = lit ''gat.lock'' then Ok shard_flat
      else
        (case strip_prefix (lit ''gat.lock/'') raw of
           None \<Rightarrow> Err (LockShardIdError raw)
         | Some rel \<Rightarrow>
             (case strip_suffix (lit ''.tsv'') rel of
                None \<Rightarrow> Err (LockShardIdError raw)
              | Some rel \<Rightarrow>
                  (case parse_shard_components (split_on SLASH rel) (replicate 4 0) 0 of
                     None \<Rightarrow> Err (LockShardIdError raw)
                   | Some (bytes, depth) \<Rightarrow>
                       if depth = 0 then Err (LockShardIdError raw)
                       else if depth > 255 then Err (LockShardIdError raw)
                       else
                         (case levels_new (of_nat depth) of
                            Inl _ \<Rightarrow> Err (LockShardIdError raw)
                          | Inr levels \<Rightarrow> Ok \<lparr>sid_depth = levels, sid_prefix = bytes\<rparr>)))))"

section \<open>Well-formed ids and their texts\<close>

text \<open>The invariant of the type: four bytes, zero beyond the depth, which is at most four.\<close>

definition wf_shard :: "lock_shard_id \<Rightarrow> bool" where
  "wf_shard i \<longleftrightarrow> levels_get (sid_depth i) \<le> LEVELS_MAX
     \<and> (\<exists>bs. length bs = unat (levels_get (sid_depth i)) \<and> sid_prefix i = bs @ replicate (4 - length bs) 0)"

definition component_text :: "u8 \<Rightarrow> str" where
  "component_text b = SLASH # byte_hex b"

definition shard_text :: "lock_shard_id \<Rightarrow> str" where
  "shard_text i = lit ''gat.lock'' @ concat (map component_text (prefix_bytes i))
     @ (if shard_is_flat i then [] else lit ''.tsv'')"

text \<open>The id with given prefix bytes.\<close>

definition shard_of :: "u8 list \<Rightarrow> lock_shard_id" where
  "shard_of bs = \<lparr>sid_depth = Levels (of_nat (length bs)), sid_prefix = bs @ replicate (4 - length bs) 0\<rparr>"

lemma unat_of_small: "n \<le> 4 \<Longrightarrow> unat (of_nat n :: u8) = n"
  by (simp add: unat_of_nat)

lemma wf_shard_iff: "wf_shard i \<longleftrightarrow> (\<exists>bs. length bs \<le> 4 \<and> i = shard_of bs)"
proof
  assume "wf_shard i"
  then obtain bs where bs: "levels_get (sid_depth i) \<le> 4" "length bs = unat (levels_get (sid_depth i))"
    "sid_prefix i = bs @ replicate (4 - length bs) 0"
    by (auto simp: wf_shard_def LEVELS_MAX_def)
  then have "length bs \<le> 4" by (simp add: word_le_nat_alt)
  moreover have "i = shard_of bs"
    using bs(2,3) by (cases i; cases "sid_depth i") (simp add: shard_of_def)
  ultimately show "\<exists>bs. length bs \<le> 4 \<and> i = shard_of bs" by blast
next
  assume "\<exists>bs. length bs \<le> 4 \<and> i = shard_of bs"
  then obtain bs where "length bs \<le> 4" "i = shard_of bs" by blast
  then show "wf_shard i"
    by (auto simp: wf_shard_def shard_of_def LEVELS_MAX_def word_le_nat_alt unat_of_small intro!: exI [of _ bs])
qed

lemma shard_of_simps:
  assumes "length bs \<le> 4"
  shows "prefix_bytes (shard_of bs) = bs" "shard_is_flat (shard_of bs) \<longleftrightarrow> bs = []"
    "unat (levels_get (sid_depth (shard_of bs))) = length bs"
  using assms unat_of_small [OF assms]
  by (auto simp: prefix_bytes_def shard_of_def shard_is_flat_def levels_is_flat_def unat_eq_zero [symmetric] simp del: unat_eq_zero)

lemma shard_of_inject: "length bs \<le> 4 \<Longrightarrow> length cs \<le> 4 \<Longrightarrow> shard_of bs = shard_of cs \<longleftrightarrow> bs = cs"
  using shard_of_simps(1) by metis

lemma shard_of_Nil: "shard_of [] = shard_flat"
  by (simp add: shard_of_def shard_flat_def LEVELS_FLAT_def)

subsection \<open>Writing into the buffer\<close>

text \<open>What a buffer holds: a text of at most 32 bytes, the rest zero.\<close>

definition holds :: "canonical_id_buf \<Rightarrow> str \<Rightarrow> bool" where
  "holds out s \<longleftrightarrow> length (cb_buf out) = 32 \<and> cb_len out = length s \<and> take (cb_len out) (cb_buf out) = s"

lemma holds_new: "holds buf_new []"
  by (simp add: holds_def buf_new_def)

lemma buf_push_holds:
  "holds out s \<Longrightarrow> length s + length t \<le> 32 \<Longrightarrow> \<exists>out'. buf_push t out = Some out' \<and> holds out' (s @ t)"
  by (auto simp: holds_def buf_push_def copy_at_def)

lemma hex_digit_nth: "HEX_DIGITS ! unat n = hex_digit n"
  by (simp add: hex_digit_def)

lemma push_prefix_bytes_holds:
  "holds out s \<Longrightarrow> length s + 3 * length bs \<le> 32 \<Longrightarrow>
     \<exists>out'. push_prefix_bytes bs out = Some out' \<and> holds out' (s @ concat (map component_text bs))"
proof (induction bs arbitrary: out s)
  case (Cons b bs)
  let ?t = "component_text b"
  have t: "[SLASH, HEX_DIGITS ! unat (drop_bit 4 b), HEX_DIGITS ! unat (b AND 15)] = ?t"
    by (simp add: component_text_def byte_hex_def hex_digit_nth)
  have len: "length ?t = 3" by (simp add: component_text_def byte_hex_def)
  then obtain out1 where o1: "buf_push ?t out = Some out1" "holds out1 (s @ ?t)"
    using buf_push_holds [OF Cons.prems(1), of ?t] Cons.prems(2) by auto
  obtain out2 where "push_prefix_bytes bs out1 = Some out2"
    "holds out2 ((s @ ?t) @ concat (map component_text bs))"
    using Cons.IH [OF o1(2)] Cons.prems(2) len by auto
  then show ?case using o1(1) by (simp add: t)
qed simp

lemma canonical_buffer_holds:
  assumes "wf_shard i"
  obtains out where "canonical_buffer i = Some out" "holds out (shard_text i)"
proof -
  obtain bs where bs: "length bs \<le> 4" "i = shard_of bs" using assms wf_shard_iff by blast
  note s = shard_of_simps [OF bs(1), folded bs(2)]
  obtain o1 where o1: "buf_push (lit ''gat.lock'') buf_new = Some o1" "holds o1 (lit ''gat.lock'')"
    using buf_push_holds [OF holds_new, of "lit ''gat.lock''"] by auto
  obtain o2 where o2: "push_prefix_bytes bs o1 = Some o2"
    "holds o2 (lit ''gat.lock'' @ concat (map component_text bs))"
    using push_prefix_bytes_holds [OF o1(2), of bs] bs(1) by auto
  have len: "length (concat (map component_text bs)) = 3 * length bs"
    by (induction bs) (simp_all add: component_text_def byte_hex_def)
  obtain o3 where o3: "buf_push (lit ''.tsv'') o2 = Some o3"
    "holds o3 ((lit ''gat.lock'' @ concat (map component_text bs)) @ lit ''.tsv'')"
    using buf_push_holds [OF o2(2), of "lit ''.tsv''"] bs(1) len by auto
  have "canonical_buffer i = Some (if bs = [] then o2 else o3)"
    using o1(1) o2(1) o3(1) s by (simp add: canonical_buffer_def)
  moreover have "holds (if bs = [] then o2 else o3) (shard_text i)"
    using o2(2) o3(2) s by (cases "bs = []") (simp_all add: shard_text_def del: lit_simps)
  ultimately show ?thesis by (rule that)
qed

lemma byte_hex_ascii: "c \<in> set (byte_hex b) \<Longrightarrow> c < 128"
proof -
  assume "c \<in> set (byte_hex b)"
  then obtain n where n: "c = hex_digit n" "n < (16 :: u8)" by (auto simp: byte_hex_def)
  then have "unat c < 128" using unat_hex_digit [of n] by (auto simp: word_less_nat_alt split: if_splits)
  then show ?thesis by (simp add: word_less_nat_alt)
qed

lemma shard_text_ascii: "\<forall>c \<in> set (shard_text i). c < 128"
  by (auto simp: shard_text_def component_text_def dest: byte_hex_ascii)

lemma buf_as_str_holds: "holds out (shard_text i) \<Longrightarrow> buf_as_str out = Some (shard_text i)"
proof -
  assume "holds out (shard_text i)"
  then have "buf_as_bytes out = shard_text i" unfolding buf_as_bytes_def holds_def by metis
  with shard_text_ascii [of i] show ?thesis by (simp add: buf_as_str_def)
qed

lemma to_canonical_string_eq: "wf_shard i \<Longrightarrow> to_canonical_string i = Some (shard_text i)"
  by (erule canonical_buffer_holds) (simp add: to_canonical_string_def buf_as_str_holds)

subsection \<open>Reading it back\<close>

lemma wide_nibbles:
  assumes "hi < 16"
  shows "push_bit 4 (ucast hi) OR ucast lo = (ucast (push_bit 4 hi OR lo :: u8) :: 32 word)"
proof (rule bit_word_eqI)
  fix n
  assume n: "n < LENGTH(32)"
  have hi: "bit hi (n - 4) \<Longrightarrow> n < 8" using nibble_bit [OF assms, of "n - 4"] by linarith
  have lo: "bit lo n \<Longrightarrow> n < 8" using bit_imp_le_length [of lo n] by simp
  have l: "bit (push_bit 4 (ucast hi) OR ucast lo :: 32 word) n \<longleftrightarrow> 4 \<le> n \<and> bit hi (n - 4) \<or> bit lo n"
    using n unfolding bit_or_iff bit_push_bit_iff bit_ucast_iff by auto
  have r: "bit (ucast (push_bit 4 hi OR lo :: u8) :: 32 word) n \<longleftrightarrow> (4 \<le> n \<and> n < 8 \<and> bit hi (n - 4) \<or> bit lo n)"
    using n lo unfolding bit_or_iff bit_push_bit_iff bit_ucast_iff by auto
  show "bit (push_bit 4 (ucast hi) OR ucast lo :: 32 word) n = bit (ucast (push_bit 4 hi OR lo :: u8) :: 32 word) n"
    using l r hi by blast
qed

lemma wide_byte: "(ucast (b :: u8) :: 32 word) \<le> 255" "ucast (ucast (b :: u8) :: 32 word) = b"
proof -
  have "uint b < 256" using uint_lt2p [of b] by simp
  then show "(ucast b :: 32 word) \<le> 255"
    by (simp add: word_le_def uint_up_ucast is_up)
  show "ucast (ucast b :: 32 word) = b" by (rule bit_word_eqI) (simp add: bit_ucast_iff)
qed

lemma to_digit16_lower:
  "is_ascii_digit a \<or> is_ascii_lowercase a \<Longrightarrow> to_digit16 a = map_option ucast (hex_value a)"
proof -
  assume "is_ascii_digit a \<or> is_ascii_lowercase a"
  then have "\<not> (65 \<le> a \<and> a \<le> 70)"
    unfolding is_ascii_digit_def is_ascii_lowercase_def by unat_arith
  then show ?thesis by (auto simp: to_digit16_def hex_value_def)
qed

lemma hex_value_ascii: "hex_value a \<noteq> None \<Longrightarrow> is_ascii_digit a \<or> is_ascii_lowercase a"
proof -
  assume "hex_value a \<noteq> None"
  then have "48 \<le> a \<and> a \<le> 57 \<or> 97 \<le> a \<and> a \<le> 102" by (auto simp: hex_value_def split: if_splits)
  then show ?thesis unfolding is_ascii_digit_def is_ascii_lowercase_def by unat_arith
qed

lemma parse_hex_byte_pair: "parse_hex_byte [a, c] = hex_pair a c"
proof (cases "(is_ascii_digit a \<or> is_ascii_lowercase a) \<and> (is_ascii_digit c \<or> is_ascii_lowercase c)")
  case True
  then have d: "to_digit16 a = map_option ucast (hex_value a)" "to_digit16 c = map_option ucast (hex_value c)"
    by (auto intro: to_digit16_lower)
  show ?thesis
  proof (cases "hex_value a")
    case None
    then show ?thesis by (simp add: parse_hex_byte_def hex_pair_def d)
  next
    case (Some hi)
    then have hi: "hi < 16" using hex_value_Some by blast
    show ?thesis
      using True Some
      by (cases "hex_value c") (auto simp: parse_hex_byte_def hex_pair_def d wide_nibbles [OF hi] wide_byte)
  qed
next
  case False
  then have "hex_value a = None \<or> hex_value c = None" using hex_value_ascii by blast
  with False show ?thesis
    by (auto simp: parse_hex_byte_def hex_pair_def bind_eq_None_conv split: option.splits)
qed

lemma parse_hex_byte_Some: "parse_hex_byte w = Some b \<longleftrightarrow> w = byte_hex b"
proof -
  consider (pair) a c where "w = [a, c]" | (other) "length w \<noteq> 2"
    by (cases w; cases "tl w"; cases "tl (tl w)") auto
  then show ?thesis
  proof cases
    case pair
    then show ?thesis by (auto simp: parse_hex_byte_pair hex_pair_Some)
  next
    case other
    then have "parse_hex_byte w = None" "length (byte_hex b) \<noteq> length w"
      by (auto simp: parse_hex_byte_def byte_hex_def split: list.splits)
    then show ?thesis by auto
  qed
qed

lemma parse_shard_components_Some:
  assumes "length p + length z = 4"
  shows "parse_shard_components ws (p @ z) (length p) = Some (q, d) \<longleftrightarrow>
    (\<exists>bs. ws = map byte_hex bs \<and> length bs \<le> length z \<and> q = p @ bs @ drop (length bs) z \<and> d = length p + length bs)"
  using assms
proof (induction ws arbitrary: p z)
  case Nil
  then show ?case by auto
next
  case (Cons w ws)
  have max: "unat LEVELS_MAX = 4" by (simp add: LEVELS_MAX_def)
  show ?case
  proof (cases z)
    case Nil
    with Cons.prems show ?thesis by (auto simp: max)
  next
    case (Cons x z')
    have lt: "length p < 4" using Cons.prems Cons by simp
    show ?thesis
    proof (cases "parse_hex_byte w")
      case None
      then have "w \<noteq> byte_hex b" for b using parse_hex_byte_Some [of w b] by auto
      with None lt show ?thesis by (auto simp: max Cons_eq_map_conv)
    next
      case (Some b)
      then have w: "w = byte_hex b" by (simp add: parse_hex_byte_Some)
      have inj: "byte_hex b = byte_hex c \<longleftrightarrow> b = c" for c
        using parse_hex_byte_Some [of w] Some w by (metis option.inject)
      have "parse_shard_components (w # ws) (p @ z) (length p)
          = parse_shard_components ws ((p @ [b]) @ z') (length (p @ [b]))"
        using Some lt by (simp add: max Cons list_update_append)
      also have "\<dots> = Some (q, d) \<longleftrightarrow>
          (\<exists>bs. ws = map byte_hex bs \<and> length bs \<le> length z' \<and> q = (p @ [b]) @ bs @ drop (length bs) z'
             \<and> d = length (p @ [b]) + length bs)"
        by (rule Cons.IH) (use Cons.prems Cons in simp)
      also have "\<dots> \<longleftrightarrow> (\<exists>bs. w # ws = map byte_hex bs \<and> length bs \<le> length z
          \<and> q = p @ bs @ drop (length bs) z \<and> d = length p + length bs)"
      proof
        assume "\<exists>bs. ws = map byte_hex bs \<and> length bs \<le> length z' \<and> q = (p @ [b]) @ bs @ drop (length bs) z'
             \<and> d = length (p @ [b]) + length bs"
        then obtain bs where "ws = map byte_hex bs" "length bs \<le> length z'"
          "q = (p @ [b]) @ bs @ drop (length bs) z'" "d = length (p @ [b]) + length bs" by blast
        then show "\<exists>bs. w # ws = map byte_hex bs \<and> length bs \<le> length z
          \<and> q = p @ bs @ drop (length bs) z \<and> d = length p + length bs"
          by (intro exI [of _ "b # bs"]) (simp add: w Cons)
      qed (auto simp: Cons_eq_map_conv w inj Cons)
      finally show ?thesis .
    qed
  qed
qed

lemma slash_free_hex: "SLASH \<notin> set (byte_hex b)"
proof
  assume "SLASH \<in> set (byte_hex b)"
  then obtain n where "SLASH = hex_digit n" "n < (16 :: u8)" by (auto simp: byte_hex_def)
  then show False using unat_hex_digit [of n] by (auto dest: arg_cong [of _ _ unat] split: if_splits)
qed

lemma split_components:
  "split_on SLASH rel = map byte_hex bs \<longleftrightarrow> bs \<noteq> [] \<and> SLASH # rel = concat (map component_text bs)"
proof -
  have join: "SLASH # join_with SLASH (map byte_hex bs) = concat (map component_text bs)" if "bs \<noteq> []"
    using that
  proof (induction bs)
    case (Cons b bs)
    then show ?case by (cases bs) (simp_all add: component_text_def)
  qed simp
  show ?thesis
  proof
    assume s: "split_on SLASH rel = map byte_hex bs"
    then have "bs \<noteq> []" by (metis list.map_disc_iff split_on_neq_Nil)
    moreover have "rel = join_with SLASH (map byte_hex bs)" using s join_split_on by metis
    ultimately show "bs \<noteq> [] \<and> SLASH # rel = concat (map component_text bs)" using join by simp
  next
    assume a: "bs \<noteq> [] \<and> SLASH # rel = concat (map component_text bs)"
    then have "rel = join_with SLASH (map byte_hex bs)" using join by (metis list.inject)
    then show "split_on SLASH rel = map byte_hex bs"
      using a split_join [of "map byte_hex bs" SLASH] slash_free_hex by auto
  qed
qed

lemma shard_parse_Ok:
  "shard_parse_canonical raw = Ok i \<longleftrightarrow> wf_shard i \<and> raw = shard_text i"
proof (cases "raw = lit ''gat.lock''")
  case True
  have "shard_text (shard_of []) = lit ''gat.lock''" by (simp add: shard_text_def shard_of_simps)
  moreover have "raw = shard_text i \<and> wf_shard i \<Longrightarrow> i = shard_of []"
  proof -
    assume a: "raw = shard_text i \<and> wf_shard i"
    then obtain bs where bs: "length bs \<le> 4" "i = shard_of bs" using wf_shard_iff by blast
    with a True have "bs = []" by (simp add: shard_text_def shard_of_simps split: if_splits)
    with bs show ?thesis by simp
  qed
  moreover have "wf_shard (shard_of [])" using wf_shard_iff [of "shard_of []"] by (metis le0 list.size(3))
  ultimately show ?thesis
    using True by (auto simp: shard_parse_canonical_def shard_of_Nil)
next
  case False
  have max: "LEVELS_MAX = 4" by (rule LEVELS_MAX_def)
  have comps: "parse_shard_components ws (replicate 4 0) 0 = Some (q, d) \<longleftrightarrow>
      (\<exists>bs. ws = map byte_hex bs \<and> length bs \<le> 4 \<and> q = bs @ replicate (4 - length bs) 0 \<and> d = length bs)" for ws q d
    using parse_shard_components_Some [of "[]" "replicate 4 0" ws q d] by (simp add: drop_replicate)
  show ?thesis
  proof
    assume "shard_parse_canonical raw = Ok i"
    then obtain rel0 rel q d l where p: "strip_prefix (lit ''gat.lock/'') raw = Some rel0"
      "strip_suffix (lit ''.tsv'') rel0 = Some rel"
      "parse_shard_components (split_on SLASH rel) (replicate 4 0) 0 = Some (q, d)"
      "d \<noteq> 0" "levels_new (of_nat d) = Ok l" "i = \<lparr>sid_depth = l, sid_prefix = q\<rparr>"
      using False unfolding shard_parse_canonical_def
      by (auto split: option.splits sum.splits if_splits prod.splits)
    obtain bs where bs: "split_on SLASH rel = map byte_hex bs" "length bs \<le> 4"
      "q = bs @ replicate (4 - length bs) 0" "d = length bs"
      using p(3) comps by blast
    have i: "i = shard_of bs"
      using p(5,6) bs(3,4) by (simp add: levels_new_def shard_of_def split: if_splits)
    have "raw = lit ''gat.lock'' @ SLASH # rel @ lit ''.tsv''"
      using p(1,2) by (simp add: strip_prefix_Some strip_suffix_Some)
    moreover have "SLASH # rel = concat (map component_text bs)" "bs \<noteq> []"
      using bs(1) split_components by blast+
    ultimately have "raw = shard_text i"
      using bs(2) by (simp add: i shard_text_def shard_of_simps)
    with i bs(2) show "wf_shard i \<and> raw = shard_text i" using wf_shard_iff by blast
  next
    assume "wf_shard i \<and> raw = shard_text i"
    then obtain bs where bs: "length bs \<le> 4" "i = shard_of bs" "raw = shard_text i" using wf_shard_iff by blast
    with False have ne: "bs \<noteq> []" by (auto simp: shard_text_def shard_of_simps)
    obtain rel where rel: "SLASH # rel = concat (map component_text bs)"
      using ne by (cases bs) (auto simp: component_text_def)
    have raw: "raw = lit ''gat.lock/'' @ (rel @ lit ''.tsv'')"
      using bs ne rel [symmetric] by (simp add: shard_text_def shard_of_simps)
    have sp: "split_on SLASH rel = map byte_hex bs" using ne rel split_components by blast
    have ps: "parse_shard_components (map byte_hex bs) (replicate 4 0) 0 = Some (bs @ replicate (4 - length bs) 0, length bs)"
      using comps bs(1) by blast
    have lev: "levels_new (of_nat (length bs)) = Ok (Levels (of_nat (length bs)))"
      using bs(1) by (simp add: levels_new_def max word_less_nat_alt unat_of_small)
    show "shard_parse_canonical raw = Ok i"
      unfolding shard_parse_canonical_def raw strip_prefix_append strip_suffix_append option.case sp ps prod.case lev sum.case
      using False raw ne bs(1,2) by (simp add: shard_of_def)
  qed
qed

section \<open>The order of the spellings\<close>

lemma component_text_less: "component_text a @ s < component_text b @ t \<longleftrightarrow> a < b \<or> a = b \<and> s < t"
  by (simp add: component_text_def byte_hex_less)

text \<open>
  The spelling after \<open>gat.lock\<close>: the shorter of two nested ids ends in a dot, which is below the
  slash the longer one goes on with.
\<close>

definition tail_text :: "u8 list \<Rightarrow> str" where
  "tail_text bs = concat (map component_text bs) @ lit ''.tsv''"

lemma tail_text_Cons: "tail_text (b # bs) = component_text b @ tail_text bs"
  by (simp add: tail_text_def)

lemma tail_nonempty: "tail_text bs \<noteq> []"
  by (simp add: tail_text_def)

lemma tail_less:
  "tail_text as < tail_text bs \<longleftrightarrow>
     take (min (length as) (length bs)) as < take (min (length as) (length bs)) bs
     \<or> take (min (length as) (length bs)) as = take (min (length as) (length bs)) bs \<and> length as < length bs"
proof (induction as arbitrary: bs)
  case Nil
  have "tail_text [] < tail_text (b # bs')" for b bs'
    by (simp add: tail_text_def component_text_def word_less_nat_alt)
  then show ?case by (cases bs) simp_all
next
  case (Cons a as)
  show ?case
  proof (cases bs)
    case Nil
    have "\<not> tail_text (a # as) < tail_text []"
      by (simp add: tail_text_def component_text_def word_less_nat_alt)
    with Nil show ?thesis by simp
  next
    case (Cons b bs')
    then show ?thesis
      unfolding Cons tail_text_Cons component_text_less Cons.IH by auto
  qed
qed

lemma tail_inject: "tail_text as = tail_text bs \<longleftrightarrow> as = bs"
proof
  assume eq: "tail_text as = tail_text bs"
  show "as = bs"
    using eq
  proof (induction as arbitrary: bs)
    case Nil
    then show ?case by (cases bs) (auto simp: tail_text_def component_text_def)
  next
    case (Cons a as)
    then obtain b bs' where bs: "bs = b # bs'"
      by (cases bs) (auto simp: tail_text_def component_text_def)
    have "byte_hex a = byte_hex b" "tail_text as = tail_text bs'"
      using Cons.prems unfolding bs tail_text_Cons by (simp_all add: component_text_def byte_hex_def)
    moreover from this have "a = b" using parse_hex_byte_Some [of "byte_hex a"] by (metis option.inject)
    ultimately show ?case using Cons.IH bs by simp
  qed
qed simp

lemma shard_text_tail:
  "length bs \<le> 4 \<Longrightarrow> shard_text (shard_of bs) = lit ''gat.lock'' @ (if bs = [] then [] else tail_text bs)"
  by (simp add: shard_text_def shard_of_simps tail_text_def)

lemma cmp_unfold: "cmp a b = (if a < b then Less else if a = b then Equal else Greater)"
  by (simp add: cmp_def)

text \<open>The order of the source, on the prefix bytes.\<close>

definition bytes_cmp :: "u8 list \<Rightarrow> u8 list \<Rightarrow> ordering" where
  "bytes_cmp as bs =
     (let n = min (length as) (length bs) in
      case cmp (take n as) (take n bs) of Equal \<Rightarrow> cmp (length as) (length bs) | decided \<Rightarrow> decided)"

lemma shard_cmp_bytes:
  assumes "length as \<le> 4" "length bs \<le> 4"
  shows "shard_cmp (shard_of as) (shard_of bs) = bytes_cmp as bs"
proof -
  let ?i = "levels_get (sid_depth (shard_of as))" and ?j = "levels_get (sid_depth (shard_of bs))"
  have l: "unat ?i = length as" "unat ?j = length bs" using shard_of_simps(3) assms by auto
  have n: "unat (min ?i ?j) = min (length as) (length bs)"
    using l by (simp add: min_def word_le_nat_alt)
  have p: "take (min (length as) (length bs)) (sid_prefix (shard_of as)) = take (min (length as) (length bs)) as"
    "take (min (length as) (length bs)) (sid_prefix (shard_of bs)) = take (min (length as) (length bs)) bs"
    by (simp_all add: shard_of_def)
  have d: "cmp ?i ?j = cmp (length as) (length bs)"
    unfolding cmp_unfold word_less_nat_alt l word_unat_eq_iff [of ?i ?j] by (rule refl)
  show ?thesis
    unfolding shard_cmp_def bytes_cmp_def Let_def n p d by (rule refl)
qed

lemma bytes_cmp_tail: "bytes_cmp as bs = cmp (tail_text as) (tail_text bs)"
proof -
  let ?n = "min (length as) (length bs)"
  have whole: "take ?n as = take ?n bs \<and> length as = length bs \<longleftrightarrow> as = bs"
    by (metis min.idem take_all order_refl)
  consider "take ?n as < take ?n bs" | "take ?n as = take ?n bs" | "take ?n bs < take ?n as"
    by (meson linorder_neqE)
  then show ?thesis
  proof cases
    case 1
    then show ?thesis by (simp add: bytes_cmp_def cmp_unfold tail_less)
  next
    case 2
    then have "as = bs \<longleftrightarrow> length as = length bs" using whole by blast
    with 2 show ?thesis by (simp add: bytes_cmp_def cmp_unfold tail_less tail_inject)
  next
    case 3
    then have "\<not> take ?n as < take ?n bs" "take ?n as \<noteq> take ?n bs" "as \<noteq> bs" by auto
    then show ?thesis by (simp add: bytes_cmp_def cmp_unfold tail_less tail_inject)
  qed
qed

lemma cmp_append: "cmp (p @ s) (p @ t) = cmp s (t :: str)"
  by (simp add: cmp_unfold)

lemma shard_cmp_text:
  assumes "wf_shard i" "wf_shard j"
  shows "shard_cmp i j = cmp (shard_text i) (shard_text j)"
proof -
  obtain as bs where i: "length as \<le> 4" "i = shard_of as" and j: "length bs \<le> 4" "j = shard_of bs"
    using assms wf_shard_iff by blast
  have nil: "cmp (tail_text []) (tail_text cs) = cmp [] (if cs = [] then [] else tail_text cs)"
    "cmp (tail_text cs) (tail_text []) = cmp (if cs = [] then [] else tail_text cs) []" for cs
    using tail_less [of "[]" cs] tail_less [of cs "[]"] tail_inject [of "[]" cs] tail_nonempty [of cs]
    by (auto simp: cmp_unfold)
  have "cmp (tail_text as) (tail_text bs)
      = cmp (if as = [] then [] else tail_text as) (if bs = [] then [] else tail_text bs)"
    using nil [of as] nil [of bs] by (cases "as = []"; cases "bs = []") simp_all
  then show ?thesis
    unfolding i(2) j(2) shard_cmp_bytes [OF i(1) j(1)] bytes_cmp_tail
      shard_text_tail [OF i(1)] shard_text_tail [OF j(1)] cmp_append .
qed

section \<open>Properties\<close>

text \<open>
  C15: parsing accepts exactly the canonical spellings of the well-formed ids and gives the id back;
  printing one never panics. In particular uppercase digits, a missing suffix, an empty component
  and a fifth level are refused.
\<close>

theorem shard_id_roundtrip:
  "shard_parse_canonical raw = Ok i \<longleftrightarrow> wf_shard i \<and> to_canonical_string i = Some raw"
  using to_canonical_string_eq [of i] shard_parse_Ok [of raw i] by auto

text \<open>
  The order computed from the prefix bytes and depths is the order of the canonical texts.
\<close>

theorem shard_order_is_text_order:
  assumes "wf_shard i" "wf_shard j" "to_canonical_string i = Some s" "to_canonical_string j = Some t"
  shows "shard_cmp i j = cmp s t"
  using assms by (simp add: shard_cmp_text to_canonical_string_eq)

lemma shard_order_is_text_order_witness:
  "shard_cmp (shard_of [0xAB]) (shard_of [0xAB, 0x01]) = cmp (lit ''gat.lock/ab.tsv'') (lit ''gat.lock/ab/01.tsv'')"
proof (rule shard_order_is_text_order)
  show "wf_shard (shard_of [0xAB])" "wf_shard (shard_of [0xAB, 0x01])"
    using wf_shard_iff by force+
qed code_simp+

text \<open>
  C16: writing the spelling of a well-formed id stays inside the 32-byte buffer, for every
  depth: eight bytes, three per level and the suffix, at most 24, all ASCII.
\<close>

theorem canonical_buffer_bounds:
  assumes "wf_shard i"
  shows "\<exists>out. canonical_buffer i = Some out \<and> length (cb_buf out) = 32
    \<and> cb_len out = 8 + 3 * length (prefix_bytes i) + (if shard_is_flat i then 0 else 4)
    \<and> cb_len out \<le> 24 \<and> buf_as_str out = Some (buf_as_bytes out)"
proof -
  obtain bs where bs: "length bs \<le> 4" "i = shard_of bs" using assms wf_shard_iff by blast
  obtain out where out: "canonical_buffer i = Some out" "holds out (shard_text i)"
    using canonical_buffer_holds [OF assms] .
  have "length (concat (map component_text bs)) = 3 * length bs"
    by (induction bs) (simp_all add: component_text_def byte_hex_def)
  then have "length (shard_text i) = 8 + 3 * length bs + (if bs = [] then 0 else 4)"
    using bs by (simp add: shard_text_def shard_of_simps)
  moreover have "buf_as_str out = Some (buf_as_bytes out)"
    using buf_as_str_holds [OF out(2)] out(2) unfolding buf_as_bytes_def holds_def by metis
  ultimately show ?thesis
    using out bs by (auto simp: holds_def shard_of_simps)
qed

lemma canonical_buffer_bounds_witness: "wf_shard (shard_of [1, 2, 3, 4]) \<and> (\<exists>out. canonical_buffer (shard_of [1, 2, 3, 4]) = Some out \<and> cb_len out = 24)"
proof -
  have wf: "wf_shard (shard_of [1, 2, 3, 4])"
    unfolding wf_shard_iff by (rule exI [of _ "[1, 2, 3, 4]"]) simp
  have "length (prefix_bytes (shard_of [1, 2, 3, 4])) = 4" "\<not> shard_is_flat (shard_of [1, 2, 3, 4])"
    by (simp_all add: shard_of_simps)
  with wf canonical_buffer_bounds [OF wf] show ?thesis by auto
qed

text \<open>
  Every way to obtain an id gives a well-formed one: the flat id, parsing, and placing a path
  under a validated depth, which is the id of the leading bytes of its hash and never panics
  when the hash has 32 bytes.
\<close>

theorem shard_ids_are_wellformed:
  assumes "\<And>p. length (hash p) = 32"
  shows "wf_shard shard_flat
    \<and> (shard_parse_canonical raw = Ok i \<longrightarrow> wf_shard i)
    \<and> (levels_new depth = Ok levels \<longrightarrow>
        (\<exists>j. for_path hash path levels = Some j \<and> wf_shard j \<and> sid_levels j = levels
           \<and> prefix_bytes j = take (unat depth) (hash (as_str path))))"
proof (intro conjI impI)
  show "wf_shard shard_flat"
    unfolding wf_shard_iff by (rule exI [of _ "[]"]) (simp add: shard_of_Nil)
next
  assume "shard_parse_canonical raw = Ok i"
  then show "wf_shard i" by (simp add: shard_parse_Ok)
next
  assume "levels_new depth = Ok levels"
  then have d: "depth \<le> 4" "levels = Levels depth"
    by (auto simp: levels_new_def LEVELS_MAX_def split: if_splits)
  then have n: "unat depth \<le> 4" by (simp add: word_le_nat_alt)
  let ?bs = "take (unat depth) (hash (as_str path))"
  have len: "length ?bs = unat depth" using assms n by simp
  have "for_path hash path levels = Some (shard_of ?bs)"
  proof (cases "depth = 0")
    case True
    then show ?thesis
      by (simp add: for_path_def for_validated_path_def d levels_is_flat_def flip: shard_of_Nil)
  next
    case False
    then show ?thesis
      using n len
      by (simp add: for_path_def for_validated_path_def d levels_is_flat_def copy_at_def shard_of_def Let_def
          del: length_take)
  qed
  moreover have "sid_levels (shard_of ?bs) = levels"
    using len by (simp add: sid_levels_def shard_of_def d)
  moreover have "wf_shard (shard_of ?bs)" unfolding wf_shard_iff using len n by (intro exI [of _ ?bs]) simp
  ultimately show "\<exists>j. for_path hash path levels = Some j \<and> wf_shard j \<and> sid_levels j = levels \<and> prefix_bytes j = ?bs"
    using len n by (simp add: shard_of_simps)
qed

lemma shard_ids_are_wellformed_witness:
  "\<exists>j. for_path (\<lambda>p. replicate 32 (of_nat (length p))) (GatPath (lit ''abc'')) (Levels 2) = Some j
     \<and> wf_shard j \<and> prefix_bytes j = [3, 3]"
proof -
  let ?h = "\<lambda>p :: str. replicate 32 (of_nat (length p)) :: u8 list"
  have "levels_new 2 = Ok (Levels 2)" by code_simp
  moreover have "length (?h p) = 32" for p by (rule length_replicate)
  ultimately obtain j where "for_path ?h (GatPath (lit ''abc'')) (Levels 2) = Some j" "wf_shard j"
    "prefix_bytes j = take (unat (2 :: u8)) (?h (as_str (GatPath (lit ''abc''))))"
    using shard_ids_are_wellformed [of ?h] by blast
  moreover have "take (unat (2 :: u8)) (?h (as_str (GatPath (lit ''abc'')))) = [3, 3]"
    by code_simp
  ultimately show ?thesis by metis
qed

end
