(* ===== verification/ConfigModel.thy ===== *)
theory ConfigModel
  imports PathSelection ShardId OrderedMap
begin

text \<open>
  The configuration model (\<open>gat-core/src/config.rs\<close>, with the value types of \<open>git_ignore.rs\<close>,
  \<open>cache_location.rs\<close>, \<open>git.rs\<close>, \<open>endpoint.rs\<close>, \<open>git_location.rs\<close> and \<open>name.rs\<close>): sections,
  value parsers and validation. A name, a revision, a location and a URL template are opaque text
  in the source, and strings here.
\<close>

section \<open>Opaque text\<close>

type_synonym remote_name = str
type_synonym route_name = str
type_synonym mount_name = str
type_synonym selection_name = str
type_synonym git_revision_spec = str
type_synonym git_location_spec = str
type_synonym remote_url_template = str

datatype setting_value_error = ScalarRequired | InvalidValue | OutOfRange | InvalidBoolean | EmptyPathValue

datatype cache_location = CacheLocation os_path

definition cache_location_try_from_path :: "os_path \<Rightarrow> setting_value_error + cache_location" where
  "cache_location_try_from_path path =
     (case path of Unicode [] \<Rightarrow> Err EmptyPathValue | _ \<Rightarrow> Ok (CacheLocation path))"

definition cache_location_serialize :: "cache_location \<Rightarrow> str option" where
  "cache_location_serialize self =
     (case self of CacheLocation (Unicode s) \<Rightarrow> Some s | CacheLocation (NonUnicode _) \<Rightarrow> None)"

datatype git_ignore_pattern_error = Negated str | Multiline str

datatype git_ignore_pattern = GitIgnorePattern str

definition git_ignore_parse :: "str \<Rightarrow> git_ignore_pattern_error + git_ignore_pattern" where
  "git_ignore_parse pat =
     (if CR \<in> set pat \<or> LF \<in> set pat then Err (Multiline pat)
      else if prefix (lit ''!'') pat then Err (Negated pat)
      else Ok (GitIgnorePattern pat))"

datatype git_commit_id_error = InvalidLength str nat | InvalidHexDigit str

datatype git_commit_id = Sha1 "u8 list" | Sha256 "u8 list"

fun commit_bytes :: "git_commit_id \<Rightarrow> u8 list" where
  "commit_bytes (Sha1 bytes) = bytes"
| "commit_bytes (Sha256 bytes) = bytes"

definition commit_decode :: "str \<Rightarrow> git_commit_id_error + u8 list" where
  "commit_decode raw = ok_or (InvalidHexDigit raw) (decode_pairs raw)"

definition commit_parse_hex :: "str \<Rightarrow> git_commit_id_error + git_commit_id" where
  "commit_parse_hex raw =
     (if length raw = 40 then map_ok Sha1 (commit_decode raw)
      else if length raw = 64 then map_ok Sha256 (commit_decode raw)
      else Err (InvalidLength raw (length raw)))"

text \<open>
  The 64-byte buffer and the two-byte chunks it is filled in; chunks beyond the hash stay zero and
  are not read.
\<close>

fun fill_pairs :: "u8 list \<Rightarrow> u8 list \<Rightarrow> u8 list" where
  "fill_pairs (byte # bytes) (a # b # buf) =
     HEX_DIGITS ! unat (drop_bit 4 byte) # HEX_DIGITS ! unat (byte AND 15) # fill_pairs bytes buf"
| "fill_pairs _ buf = buf"

definition commit_display :: "git_commit_id \<Rightarrow> str" where
  "commit_display self =
     (let bytes = commit_bytes self in take (2 * length bytes) (fill_pairs bytes (replicate 64 0)))"

definition wf_commit :: "git_commit_id \<Rightarrow> bool" where
  "wf_commit c \<longleftrightarrow> (case c of Sha1 bs \<Rightarrow> length bs = 20 | Sha256 bs \<Rightarrow> length bs = 32)"

lemma fill_pairs_take:
  "2 * length bs \<le> length buf \<Longrightarrow> take (2 * length bs) (fill_pairs bs buf) = concat (map byte_hex bs)"
proof (induction bs arbitrary: buf)
  case (Cons b bs)
  then obtain x y buf' where "buf = x # y # buf'"
    by (cases buf; cases "tl buf") auto
  with Cons show ?case by (simp add: byte_hex_def hex_digit_nth)
qed simp

lemma commit_id_roundtrip:
  "commit_parse_hex raw = Ok c \<longleftrightarrow> wf_commit c \<and> commit_display c = raw"
proof -
  have d: "commit_display c = concat (map byte_hex (commit_bytes c))" if "wf_commit c"
    using that fill_pairs_take [of "commit_bytes c" "replicate 64 0"]
    by (cases c) (simp_all add: commit_display_def wf_commit_def)
  have dec: "commit_decode raw = Ok bs \<longleftrightarrow> raw = concat (map byte_hex bs)" if "even (length raw)" for bs
    using decode_pairs_Some [OF that, of bs]
    by (cases "decode_pairs raw") (auto simp: commit_decode_def)
  show ?thesis
  proof
    assume "commit_parse_hex raw = Ok c"
    then show "wf_commit c \<and> commit_display c = raw"
      using dec d by (auto simp: commit_parse_hex_def map_ok_eq_Inr wf_commit_def split: if_splits)
  next
    assume "wf_commit c \<and> commit_display c = raw"
    then show "commit_parse_hex raw = Ok c"
      using dec d by (cases c) (auto simp: commit_parse_hex_def map_ok_eq_Inr wf_commit_def)
  qed
qed

section \<open>Errors\<close>

text \<open>The error of the glob engine is opaque (\<open>unit\<close>).\<close>

datatype parse_int_error = EmptyInt | InvalidDigit | PosOverflow

datatype setting_key =
    CacheLocationKey | CacheMaterializationStrategy | CacheIngestStrategy
  | SyncTrustState | SyncAutoFetch | SyncAutoRepair
  | LockShardLevelsKey | GitIgnorePatterns
  | NetworkReadinessTimeout | NetworkOperationTimeout | NetworkIoTimeout | NetworkRequestConcurrency

datatype config_error =
    InvalidSettingValue setting_key setting_value_error
  | UnknownSelection selection_name
  | InvalidPath str lexical_path_error
  | InvalidRoutePath str str lexical_path_error
  | InvalidMountSourcePath str str lexical_path_error
  | ReservedRouteName
  | RouteConflict route_name route_name str
  | MountTargetIsRoot "str option"
  | MountTargetOverlap "mount_name option" str mount_name str
  | InvalidLinkMode str
  | DuplicateLinkMode str
  | EmptyLinkModeList
  | InvalidIngestStrategy str
  | InvalidShardLevels str parse_int_error
  | ShardLevelsExceedsMaximum u8 u8
  | InvalidGitIgnorePattern str
  | MultilineGitIgnorePattern str
  | InvalidMountGlobPattern str str str "unit glob_error"
  | UnknownRemote str
  | InvalidBooleanValue str str

fun config_error_from_ignore :: "git_ignore_pattern_error \<Rightarrow> config_error" where
  "config_error_from_ignore (Negated pat) = InvalidGitIgnorePattern pat"
| "config_error_from_ignore (Multiline pat) = MultilineGitIgnorePattern pat"

section \<open>Scopes\<close>

datatype config_scope = Global | Project | Local

fun precedence :: "config_scope \<Rightarrow> u8" where
  "precedence Global = 0"
| "precedence Project = 1"
| "precedence Local = 2"

fun scope_display :: "config_scope \<Rightarrow> str" where
  "scope_display Global = lit ''global''"
| "scope_display Project = lit ''project''"
| "scope_display Local = lit ''local''"

definition SCOPES :: "config_scope list" where
  "SCOPES = [Global, Project, Local]"

section \<open>Strategies\<close>

datatype materialization_mode = Reflink | Hardlink | Symlink | Copy

fun mode_as_str :: "materialization_mode \<Rightarrow> str" where
  "mode_as_str Reflink = lit ''reflink''"
| "mode_as_str Hardlink = lit ''hardlink''"
| "mode_as_str Symlink = lit ''symlink''"
| "mode_as_str Copy = lit ''copy''"

definition mode_from_str :: "str \<Rightarrow> config_error + materialization_mode" where
  "mode_from_str s =
     (if s = lit ''reflink'' then Ok Reflink
      else if s = lit ''hardlink'' then Ok Hardlink
      else if s = lit ''symlink'' then Ok Symlink
      else if s = lit ''copy'' then Ok Copy
      else Err (InvalidLinkMode s))"

datatype materialization_strategy = MaterializationStrategy (modes: "materialization_mode list")

text \<open>The loop over positions; \<open>seen\<close> is \<open>modes[..i]\<close>.\<close>

fun validate_modes :: "materialization_mode list \<Rightarrow> materialization_mode list \<Rightarrow> config_error + unit" where
  "validate_modes seen [] = Ok ()"
| "validate_modes seen (mode # rest) =
     (if mode \<in> set seen then Err (DuplicateLinkMode (mode_as_str mode)) else validate_modes (seen @ [mode]) rest)"

definition strategy_validate :: "materialization_mode list \<Rightarrow> config_error + materialization_strategy" where
  "strategy_validate ms =
     (if ms = [] then Err EmptyLinkModeList
      else and_then (validate_modes [] ms) (\<lambda>_. Ok (MaterializationStrategy ms)))"

definition strategy_from_values :: "str list \<Rightarrow> config_error + materialization_strategy" where
  "strategy_from_values values = and_then (try_map mode_from_str values) strategy_validate"

definition strategy_from_mode :: "materialization_mode \<Rightarrow> materialization_strategy" where
  "strategy_from_mode mode = MaterializationStrategy [mode]"

definition strategy_default :: materialization_strategy where
  "strategy_default = strategy_from_mode Copy"

definition strategy_from_str :: "str \<Rightarrow> config_error + materialization_strategy" where
  "strategy_from_str s = and_then (mode_from_str s) (\<lambda>mode. Ok (strategy_from_mode mode))"

datatype ingest_strategy = Safe | Hybrid | Mmap

definition INGEST_ALL :: "ingest_strategy list" where
  "INGEST_ALL = [Safe, Hybrid, Mmap]"

fun ingest_as_str :: "ingest_strategy \<Rightarrow> str" where
  "ingest_as_str Safe = lit ''safe''"
| "ingest_as_str Hybrid = lit ''hybrid''"
| "ingest_as_str Mmap = lit ''mmap''"

definition INGEST_STRATEGIES :: "str list" where
  "INGEST_STRATEGIES = map ingest_as_str INGEST_ALL"

definition DEFAULT_INGEST_STRATEGY :: ingest_strategy where
  "DEFAULT_INGEST_STRATEGY = Safe"

definition ingest_from_str :: "str \<Rightarrow> config_error + ingest_strategy" where
  "ingest_from_str s = ok_or (InvalidIngestStrategy s) (find (\<lambda>strategy. ingest_as_str strategy = s) INGEST_ALL)"

section \<open>Numbers and booleans\<close>

text \<open>
  \<open>str::parse\<close> for an unsigned type with maximum \<open>m\<close>: an optional plus sign, at least one digit, a
  digit checked before the product and the sum can overflow.
\<close>

fun parse_digits :: "nat \<Rightarrow> nat \<Rightarrow> str \<Rightarrow> parse_int_error + nat" where
  "parse_digits m acc [] = Ok acc"
| "parse_digits m acc (c # cs) =
     (if \<not> is_ascii_digit c then Err InvalidDigit
      else if acc * 10 > m then Err PosOverflow
      else if acc * 10 + unat (c - 48) > m then Err PosOverflow
      else parse_digits m (acc * 10 + unat (c - 48)) cs)"

definition parse_unsigned :: "nat \<Rightarrow> str \<Rightarrow> parse_int_error + nat" where
  "parse_unsigned m s =
     (if s = [] then Err EmptyInt
      else if s = lit ''+'' \<or> s = lit ''-'' then Err InvalidDigit
      else if hd s = 43 then parse_digits m 0 (tl s)
      else parse_digits m 0 s)"

definition MAX_SHARD_LEVELS :: u8 where "MAX_SHARD_LEVELS = 2"

definition validate_shard_levels :: "u8 \<Rightarrow> config_error + lock_shard_levels" where
  "validate_shard_levels levels =
     (if levels > MAX_SHARD_LEVELS then Err (ShardLevelsExceedsMaximum levels MAX_SHARD_LEVELS)
      else map_err (\<lambda>e. ShardLevelsExceedsMaximum (le_depth e) (le_max e)) (levels_new levels))"

definition parse_shard_levels :: "str \<Rightarrow> config_error + lock_shard_levels" where
  "parse_shard_levels s =
     and_then (map_err (InvalidShardLevels s) (parse_unsigned 255 s)) (\<lambda>levels. validate_shard_levels (of_nat levels))"

definition parse_sync_bool_setting :: "str \<Rightarrow> str \<Rightarrow> config_error + bool" where
  "parse_sync_bool_setting field value =
     (if value = lit ''true'' then Ok True
      else if value = lit ''false'' then Ok False
      else Err (InvalidBooleanValue field value))"

definition validate_ignore_patterns :: "str list \<Rightarrow> config_error + git_ignore_pattern list" where
  "validate_ignore_patterns patterns = map_err config_error_from_ignore (try_map git_ignore_parse patterns)"

section \<open>Sections of a layer\<close>

text \<open>A setting that may be unset in a layer; the members of the plain sections.\<close>

record remotes_config =
  r_default :: "remote_name option"
  r_by_name :: "(remote_name \<times> remote_url_template) list"

record cache_config =
  location :: "cache_location option"
  materialization_strategy :: "materialization_strategy option"
  ingest_strategy :: "ingest_strategy option"

record 'p selection_config =
  sc_path :: gat_subpath
  sc_include :: "'p gat_glob_pattern list"
  sc_exclude :: "'p gat_glob_pattern list"

record 'p selections_config =
  s_default :: "selection_name option"
  s_by_name :: "(selection_name \<times> 'p selection_config) list"

record sync_config =
  trust_state :: "bool option"
  auto_fetch :: "bool option"
  auto_repair :: "bool option"

record lock_config =
  l_shard_levels :: "lock_shard_levels option"

record git_config =
  ignore_patterns :: "git_ignore_pattern list option"

record 'p mount_config =
  m_url :: git_location_spec
  m_target :: gat_path
  m_path :: gat_subpath
  m_rev :: "git_revision_spec option"
  m_rev_lock :: "git_commit_id option"
  m_include :: "'p gat_glob_pattern list"
  m_exclude :: "'p gat_glob_pattern list"

record route_config =
  rt_path :: gat_path
  rt_remote :: remote_name

record network_config =
  readiness_timeout_seconds :: "32 word option"
  operation_timeout_seconds :: "32 word option"
  io_timeout_seconds :: "32 word option"
  request_concurrency :: "32 word option"

record 'p config =
  network :: network_config
  remotes :: remotes_config
  cache :: cache_config
  sync :: sync_config
  selections :: "'p selections_config"
  lock_section :: lock_config
  mounts :: "(mount_name \<times> 'p mount_config) list"
  routes :: "(route_name \<times> route_config) list"
  git :: git_config

definition option_or :: "'a option \<Rightarrow> 'a option \<Rightarrow> 'a option" where
  "option_or a b = (case a of Some v \<Rightarrow> Some v | None \<Rightarrow> b)"

definition remotes_is_empty :: "remotes_config \<Rightarrow> bool" where
  "remotes_is_empty self \<longleftrightarrow> r_default self = None \<and> r_by_name self = []"

definition remotes_merged_with :: "remotes_config \<Rightarrow> remotes_config \<Rightarrow> remotes_config" where
  "remotes_merged_with self override =
     \<lparr>r_default = option_or (r_default override) (r_default self),
      r_by_name = bt_extend (r_by_name self) (r_by_name override)\<rparr>"

definition selections_is_empty :: "'p selections_config \<Rightarrow> bool" where
  "selections_is_empty self \<longleftrightarrow> s_default self = None \<and> s_by_name self = []"

definition selections_merged_with :: "'p selections_config \<Rightarrow> 'p selections_config \<Rightarrow> 'p selections_config" where
  "selections_merged_with self override =
     \<lparr>s_default = option_or (s_default override) (s_default self),
      s_by_name = bt_extend (s_by_name self) (s_by_name override)\<rparr>"

definition selections_validate_effective :: "'p selections_config \<Rightarrow> config_error + unit" where
  "selections_validate_effective self =
     (case s_default self of
        Some name \<Rightarrow> if bt_get (s_by_name self) name = None then Err (UnknownSelection name) else Ok ()
      | None \<Rightarrow> Ok ())"

definition selection_config_is_unrestricted :: "'p selection_config \<Rightarrow> bool" where
  "selection_config_is_unrestricted self \<longleftrightarrow> is_root (sc_path self) \<and> sc_include self = [] \<and> sc_exclude self = []"

definition selection_from_config :: "'p selection_config \<Rightarrow> 'p selection" where
  "selection_from_config d = from_scope_patterns (into_path_scope (sc_path d)) (sc_include d) (sc_exclude d)"

definition effective_auto_fetch :: "sync_config \<Rightarrow> bool" where
  "effective_auto_fetch self = (case auto_fetch self of Some b \<Rightarrow> b | None \<Rightarrow> False)"

definition effective_auto_repair :: "sync_config \<Rightarrow> bool" where
  "effective_auto_repair self = (case auto_repair self of Some b \<Rightarrow> b | None \<Rightarrow> False)"

definition effective_shard_levels :: "lock_config \<Rightarrow> lock_shard_levels" where
  "effective_shard_levels self = (case l_shard_levels self of Some l \<Rightarrow> l | None \<Rightarrow> LEVELS_FLAT)"

definition effective_ignore_patterns :: "git_config \<Rightarrow> git_ignore_pattern list" where
  "effective_ignore_patterns self = (case ignore_patterns self of Some ps \<Rightarrow> ps | None \<Rightarrow> [])"

text \<open>
  Decoding the \<open>git\<close> section from its two keys, each present or missing: setting both spellings is
  an error. The message texts of the deserializer are not modelled.
\<close>

datatype git_decode_error = BothSpellings | BadPattern git_ignore_pattern_error

definition git_config_deserialize :: "str list option \<Rightarrow> str list option \<Rightarrow> git_decode_error + git_config" where
  "git_config_deserialize ignore_key exclude_key =
     and_then
       (case (ignore_key, exclude_key) of
          (Some _, Some _) \<Rightarrow> Err BothSpellings
        | (Some ignore, None) \<Rightarrow> Ok (Some ignore)
        | (None, Some exclude) \<Rightarrow> Ok (Some exclude)
        | (None, None) \<Rightarrow> Ok None)
       (\<lambda>raw. case raw of
          Some patterns \<Rightarrow>
            map_ok (\<lambda>ps. \<lparr>ignore_patterns = Some ps\<rparr>) (map_err BadPattern (try_map git_ignore_parse patterns))
        | None \<Rightarrow> Ok \<lparr>ignore_patterns = None\<rparr>)"

section \<open>Mounts\<close>

definition mounts_owner_of :: "(mount_name \<times> 'p mount_config) list \<Rightarrow> gat_path \<Rightarrow> (mount_name \<times> gat_path) option" where
  "mounts_owner_of self path =
     map_option (\<lambda>(name, src). (name, m_target src))
       (find (\<lambda>(_, src). is_or_under path (m_target src)) self)"

fun check_target_loop ::
  "(mount_name \<times> 'p mount_config) list \<Rightarrow> gat_path \<Rightarrow> mount_name option \<Rightarrow> config_error + unit" where
  "check_target_loop [] target exclude_name = Ok ()"
| "check_target_loop ((other_name, other) # rest) target exclude_name =
     (if Some other_name = exclude_name then check_target_loop rest target exclude_name
      else if is_or_under target (m_target other) \<or> is_or_under (m_target other) target then
        Err (MountTargetOverlap exclude_name (as_str target) other_name (as_str (m_target other)))
      else check_target_loop rest target exclude_name)"

definition check_target ::
  "(mount_name \<times> 'p mount_config) list \<Rightarrow> gat_path \<Rightarrow> mount_name option \<Rightarrow> config_error + unit" where
  "check_target self target exclude_name = check_target_loop self target exclude_name"

text \<open>The candidates are a stack, its top first.\<close>

fun scan_mounts ::
  "(mount_name \<times> 'p mount_config) list \<Rightarrow> (mount_name \<times> 'p mount_config) list \<Rightarrow> config_error + unit" where
  "scan_mounts candidates [] = Ok ()"
| "scan_mounts candidates ((name, mount) # rest) =
     (let candidates = dropWhile (\<lambda>(_, prior). \<not> prefix (as_str (m_target prior)) (as_str (m_target mount))) candidates
      in case candidates of
           (other_name, other) # _ \<Rightarrow>
             if is_or_under (m_target mount) (m_target other) then
               Err (MountTargetOverlap (Some name) (as_str (m_target mount)) other_name (as_str (m_target other)))
             else scan_mounts ((name, mount) # candidates) rest
         | [] \<Rightarrow> scan_mounts ((name, mount) # candidates) rest)"

text \<open>
  The keys are unique, so the unstable sort by target and then name has one result: the one of the
  stable sort by name followed by the stable sort by target.
\<close>

definition mounts_validate_effective :: "(mount_name \<times> 'p mount_config) list \<Rightarrow> config_error + unit" where
  "mounts_validate_effective self = scan_mounts [] (sort_key (\<lambda>(_, m). m_target m) (sort_key fst self))"

section \<open>Routes\<close>

definition normalize_route_path :: "os_path \<Rightarrow> config_error + gat_path" where
  "normalize_route_path path = map_err (InvalidPath (to_string_lossy path)) (gat_path_normalize path)"

definition RESERVED_DEFAULT_ROUTE_NAME :: route_name where
  "RESERVED_DEFAULT_ROUTE_NAME = lit ''*''"

record route_match =
  rm_name :: route_name
  rm_route :: gat_path
  rm_remote :: remote_name

text \<open>\<open>Iterator::max_by_key\<close>: the last of the elements with the greatest key.\<close>

fun max_by_key :: "('a \<Rightarrow> nat) \<Rightarrow> 'a option \<Rightarrow> 'a list \<Rightarrow> 'a option" where
  "max_by_key key best [] = best"
| "max_by_key key best (x # xs) =
     max_by_key key (case best of None \<Rightarrow> Some x | Some b \<Rightarrow> if key b \<le> key x then Some x else Some b) xs"

definition route_for :: "(route_name \<times> route_config) list \<Rightarrow> gat_path \<Rightarrow> route_match option" where
  "route_for self path =
     map_option (\<lambda>(name, route). \<lparr>rm_name = name, rm_route = rt_path route, rm_remote = rt_remote route\<rparr>)
       (max_by_key (\<lambda>(_, route). length (as_str (rt_path route))) None
         (filter (\<lambda>(_, route). is_or_under path (rt_path route)) self))"

fun scan_routes :: "(str \<times> route_name) list \<Rightarrow> (route_name \<times> route_config) list \<Rightarrow> config_error + unit" where
  "scan_routes seen [] = Ok ()"
| "scan_routes seen ((name, route) # rest) =
     (case bt_get seen (as_str (rt_path route)) of
        Some other_name \<Rightarrow> Err (RouteConflict other_name name (as_str (rt_path route)))
      | None \<Rightarrow> scan_routes (bt_insert (as_str (rt_path route)) name seen) rest)"

definition routes_validate_effective :: "(route_name \<times> route_config) list \<Rightarrow> config_error + unit" where
  "routes_validate_effective self =
     (if bt_get self RESERVED_DEFAULT_ROUTE_NAME \<noteq> None then Err ReservedRouteName else scan_routes [] self)"

end
