(* ===== verification/ConfigRules.thy ===== *)
theory ConfigRules
  imports ConfigModel LockModel
begin

text \<open>
  What the validation of mounts and routes decides, and how paths resolve to owners and routes. The
  stack scan over the ordered targets is an instance of the prefix stacks of the lock
  (interpretation \<open>pop\<close>).
\<close>

section \<open>The scan of mount targets\<close>

definition target_text :: "mount_name \<times> 'p mount_config \<Rightarrow> str" where
  "target_text nm = as_str (m_target (snd nm))"

definition overlap :: "gat_path \<Rightarrow> gat_path \<Rightarrow> bool" where
  "overlap a b \<longleftrightarrow> is_or_under a b \<or> is_or_under b a"

interpretation pop: prefix_stack "\<lambda>st previous path. dropWhile (\<lambda>p. \<not> prefix p path) (previous # st)"
  by unfold_locales (rule refl)

lemma is_or_under_text: "is_or_under f d \<longleftrightarrow> as_str f = as_str d \<or> is_directory_prefix (as_str d) (as_str f)"
  using is_or_under_directory_prefix [of f d] by (auto simp: gat_path_eq_iff)

lemma dropWhile_target:
  "map target_text (dropWhile (\<lambda>(_, prior). \<not> prefix (as_str (m_target prior)) path) cs)
     = dropWhile (\<lambda>p. \<not> prefix p path) (map target_text cs)"
  by (simp add: dropWhile_map target_text_def comp_def case_prod_unfold)

text \<open>The candidates after the entries \<open>seen\<close>, by target.\<close>

definition candidates_of :: "str list \<Rightarrow> str list" where
  "candidates_of seen = (if seen = [] then [] else last seen # prefixes_of (last seen) (butlast seen))"

lemma candidates_step:
  assumes "sorted_wrt (<) (seen @ [path])"
  shows "dropWhile (\<lambda>p. \<not> prefix p path) (candidates_of seen) = prefixes_of path seen"
proof (cases seen rule: rev_cases)
  case Nil
  then show ?thesis by (simp add: candidates_of_def prefixes_of_def)
next
  case (snoc before previous)
  then show ?thesis
    using pop.step_prefixes_of [of before previous path] assms by (simp add: candidates_of_def)
qed

lemma prefixes_top:
  assumes "sorted_wrt (<) (seen @ [path])" "conflict_free (set seen)"
  shows "(case prefixes_of path seen of [] \<Rightarrow> False | t # _ \<Rightarrow> is_directory_prefix t path)
    \<longleftrightarrow> (\<exists>q \<in> set seen. is_directory_prefix q path)"
proof (cases "prefixes_of path seen")
  case Nil
  then show ?thesis
    using is_directory_prefix_strict by (auto simp: prefixes_of_def filter_empty_conv)
next
  case (Cons t ts)
  have "t \<in> set (prefixes_of path seen)" using Cons by simp
  then have t: "strict_prefix t path" "t \<in> set seen" by (auto simp: prefixes_of_def)
  then have "conflict_on_top (t # ts) path = (if is_directory_prefix t path then Some t else None)"
    using nth_opt_directory [of t path] by (simp add: strict_prefix_def)
  then have "is_directory_prefix t path \<longleftrightarrow> (\<exists>q. q \<in> set seen \<and> is_directory_prefix q path)"
    using conflict_on_top_prefixes [OF assms] Cons t(2) by (metis option.distinct(1))
  then show ?thesis using Cons by auto
qed

lemma scan_mounts_outcome:
  assumes "map target_text cs = candidates_of (map target_text seen)" "set cs \<subseteq> set seen"
    and "sorted (map target_text (seen @ rest))" "distinct (map fst (seen @ rest))"
    and "sorted_wrt (<) (map target_text seen)" "conflict_free (set (map target_text seen))"
  shows "case scan_mounts cs rest of
      Inr _ \<Rightarrow> sorted_wrt (<) (map target_text (seen @ rest)) \<and> conflict_free (set (map target_text (seen @ rest)))
    | Inl e \<Rightarrow> (\<exists>n m n' m'. e = MountTargetOverlap (Some n) (as_str (m_target m)) n' (as_str (m_target m'))
        \<and> (n, m) \<in> set (seen @ rest) \<and> (n', m') \<in> set (seen @ rest) \<and> n \<noteq> n' \<and> is_or_under (m_target m) (m_target m'))"
  using assms
proof (induction rest arbitrary: cs seen)
  case Nil
  then show ?case by simp
next
  case (Cons x rest)
  obtain name mount where x: "x = (name, mount)" by (cases x)
  let ?path = "as_str (m_target mount)" and ?seen = "map target_text seen"
  define ds where "ds = dropWhile (\<lambda>(_, prior). \<not> prefix (as_str (m_target prior)) ?path) cs"
  have tx: "target_text x = ?path" by (simp add: x target_text_def)
  have ds: "map target_text ds = dropWhile (\<lambda>p. \<not> prefix p ?path) (candidates_of ?seen)" "set ds \<subseteq> set seen"
    using Cons.prems(1,2) set_dropWhileD by (fastforce simp: ds_def dropWhile_target)+
  have scan: "scan_mounts cs (x # rest) =
      (case ds of
         (other_name, other) # _ \<Rightarrow>
           if is_or_under (m_target mount) (m_target other) then
             Err (MountTargetOverlap (Some name) ?path other_name (as_str (m_target other)))
           else scan_mounts (x # ds) rest
       | [] \<Rightarrow> scan_mounts (x # ds) rest)"
    unfolding x ds_def scan_mounts.simps Let_def by (rule refl)
  show ?case
  proof (cases "case ds of [] \<Rightarrow> False | o' # _ \<Rightarrow> is_or_under (m_target mount) (m_target (snd o'))")
    case True
    then obtain n' m' ds' where d: "ds = (n', m') # ds'" "is_or_under (m_target mount) (m_target m')"
      by (cases ds) auto
    have "(n', m') \<in> set seen" using ds(2) d(1) by auto
    moreover from this have "name \<noteq> n'" using Cons.prems(4) by (auto simp: x image_iff)
    moreover have "scan_mounts cs (x # rest)
        = Err (MountTargetOverlap (Some name) ?path n' (as_str (m_target m')))"
      unfolding scan using d by simp
    ultimately show ?thesis
      using d(2) unfolding x by auto
  next
    case False
    then have go: "scan_mounts cs (x # rest) = scan_mounts (x # ds) rest"
      by (auto simp: scan split: list.splits)
    have le: "\<forall>p \<in> set ?seen. p \<le> ?path"
      using Cons.prems(3) by (auto simp: sorted_append tx)
    have "?path \<notin> set ?seen"
    proof
      assume "?path \<in> set ?seen"
      then obtain before where "?seen = before @ [?path]"
        using Cons.prems(5) le
        by (cases ?seen rule: rev_cases) (auto simp: sorted_wrt_append dest: order.strict_trans2)
      then have "map target_text ds = ?path # prefixes_of ?path before"
        using ds(1) by (simp add: candidates_of_def)
      then show False using False by (cases ds) (auto simp: target_text_def is_or_under_text)
    qed
    then have "\<forall>p \<in> set ?seen. p < ?path" using le order.not_eq_order_implies_strict by metis
    then have s: "sorted_wrt (<) (?seen @ [?path])" using Cons.prems(5) by (simp add: sorted_wrt_append)
    have pf: "map target_text ds = prefixes_of ?path ?seen"
      unfolding ds(1) by (rule candidates_step [OF s])
    have "\<not> (case prefixes_of ?path ?seen of [] \<Rightarrow> False | t # _ \<Rightarrow> is_directory_prefix t ?path)"
      using False unfolding pf [symmetric] by (cases ds) (auto simp: target_text_def is_or_under_text)
    then have "\<forall>q \<in> set ?seen. \<not> is_directory_prefix q ?path"
      using prefixes_top [OF s Cons.prems(6)] by blast
    then have cf: "conflict_free (set (?seen @ [?path]))"
      by (rule conflict_free_snoc [OF s Cons.prems(6)])
    have "case scan_mounts (x # ds) rest of
      Inr _ \<Rightarrow> sorted_wrt (<) (map target_text ((seen @ [x]) @ rest)) \<and> conflict_free (set (map target_text ((seen @ [x]) @ rest)))
    | Inl e \<Rightarrow> (\<exists>n m n' m'. e = MountTargetOverlap (Some n) (as_str (m_target m)) n' (as_str (m_target m'))
        \<and> (n, m) \<in> set ((seen @ [x]) @ rest) \<and> (n', m') \<in> set ((seen @ [x]) @ rest) \<and> n \<noteq> n'
        \<and> is_or_under (m_target m) (m_target m'))"
    proof (rule Cons.IH)
      show "map target_text (x # ds) = candidates_of (map target_text (seen @ [x]))"
        using pf by (simp add: candidates_of_def tx)
      show "set (x # ds) \<subseteq> set (seen @ [x])" using ds(2) by auto
      show "sorted (map target_text ((seen @ [x]) @ rest))" "distinct (map fst ((seen @ [x]) @ rest))"
        using Cons.prems(3,4) by simp_all
      show "sorted_wrt (<) (map target_text (seen @ [x]))" "conflict_free (set (map target_text (seen @ [x])))"
        using s cf by (simp_all add: tx)
    qed
    then show ?thesis unfolding go by (simp only: append_assoc append_Cons append_Nil)
  qed
qed

definition overlap_free :: "(mount_name \<times> 'p mount_config) list \<Rightarrow> bool" where
  "overlap_free ms \<longleftrightarrow>
     (\<forall>(n, m) \<in> set ms. \<forall>(n', m') \<in> set ms. n \<noteq> n' \<longrightarrow> \<not> overlap (m_target m) (m_target m'))"

lemma mounts_validate_outcome:
  assumes "distinct (map fst ms)"
  shows "(mounts_validate_effective ms = Ok () \<longleftrightarrow> overlap_free ms)
    \<and> (\<forall>e. mounts_validate_effective ms = Err e \<longrightarrow>
        (\<exists>n m n' m'. e = MountTargetOverlap (Some n) (as_str (m_target m)) n' (as_str (m_target m'))
          \<and> (n, m) \<in> set ms \<and> (n', m') \<in> set ms \<and> n \<noteq> n' \<and> is_or_under (m_target m) (m_target m')))"
proof -
  let ?o = "sort_key (\<lambda>(_, m). m_target m) (sort_key fst ms)"
  have set: "set ?o = set ms" by simp
  have "mset (map fst ?o) = mset (map fst ms)" by simp
  then have d: "distinct (map fst ?o)" using assms mset_eq_imp_distinct_iff by metis
  have s: "sorted (map target_text ?o)"
    using sorted_sort_key [of "\<lambda>(_, m). m_target m" "sort_key fst ms"]
    by (simp add: sorted_map target_text_def less_eq_gat_path_def case_prod_unfold)
  have out: "case mounts_validate_effective ms of
      Inr _ \<Rightarrow> sorted_wrt (<) (map target_text ?o) \<and> conflict_free (set (map target_text ?o))
    | Inl e \<Rightarrow> (\<exists>n m n' m'. e = MountTargetOverlap (Some n) (as_str (m_target m)) n' (as_str (m_target m'))
        \<and> (n, m) \<in> set ms \<and> (n', m') \<in> set ms \<and> n \<noteq> n' \<and> is_or_under (m_target m) (m_target m'))"
    using scan_mounts_outcome [of "[]" "[]" ?o] s d
    unfolding mounts_validate_effective_def append_Nil set by (simp add: candidates_of_def conflict_free_def)
  have good: "overlap_free ms" if "sorted_wrt (<) (map target_text ?o)" "conflict_free (set (map target_text ?o))"
    unfolding overlap_free_def
  proof (intro ballI, clarify)
    fix n m n' m'
    assume nm: "(n, m) \<in> set ms" "(n', m') \<in> set ms" "n \<noteq> n'" "overlap (m_target m) (m_target m')"
    have "distinct (map target_text ?o)" using that(1) by (rule sorted_wrt_less_distinct)
    then have "target_text (n, m) \<noteq> target_text (n', m')"
      using nm(1-3) set by (metis distinct_map inj_onD Pair_inject)
    moreover have "target_text (n, m) \<in> set (map target_text ?o)" "target_text (n', m') \<in> set (map target_text ?o)"
      using nm(1,2) by auto
    ultimately have "\<not> is_directory_prefix (target_text (n, m)) (target_text (n', m'))"
      "\<not> is_directory_prefix (target_text (n', m')) (target_text (n, m))"
      "target_text (n, m) \<noteq> target_text (n', m')"
      using that(2) unfolding conflict_free_def by blast+
    then show False
      using nm(4) by (auto simp: overlap_def is_or_under_text target_text_def)
  qed
  have bad: "\<not> overlap_free ms" if "mounts_validate_effective ms = Err e" for e
    using out that by (fastforce simp: overlap_free_def overlap_def)
  show ?thesis
    using out good bad by (cases "mounts_validate_effective ms") auto
qed

lemma check_target_loop_Ok:
  "check_target_loop ms t x = Ok () \<longleftrightarrow> (\<forall>(n, m) \<in> set ms. Some n \<noteq> x \<longrightarrow> \<not> overlap t (m_target m))"
  by (induction ms t x rule: check_target_loop.induct) (auto simp: overlap_def)

lemma check_target_loop_Err:
  "check_target_loop ms t x = Err e \<Longrightarrow>
     \<exists>n m. (n, m) \<in> set ms \<and> Some n \<noteq> x \<and> overlap t (m_target m)
       \<and> e = MountTargetOverlap x (as_str t) n (as_str (m_target m))"
  by (induction ms t x rule: check_target_loop.induct) (auto simp: overlap_def split: if_splits)

section \<open>Routes\<close>

lemma max_by_key_spec:
  "(case max_by_key key best xs of
      None \<Rightarrow> best = None \<and> xs = []
    | Some m \<Rightarrow> (m \<in> set xs \<or> best = Some m) \<and> (\<forall>x \<in> set xs. key x \<le> key m) \<and> (\<forall>b. best = Some b \<longrightarrow> key b \<le> key m))"
proof (induction xs arbitrary: best)
  case Nil
  then show ?case by (simp split: option.split)
next
  case (Cons x xs)
  show ?case
    using Cons.IH [of "case best of None \<Rightarrow> Some x | Some b \<Rightarrow> if key b \<le> key x then Some x else Some b"]
    by (auto split: option.splits if_splits)
qed

lemma common_ancestors:
  assumes "is_or_under p a" "is_or_under p b" "length (as_str b) \<le> length (as_str a)"
  shows "is_or_under a b"
proof -
  have "prefix (as_str a) (as_str p)" "prefix (as_str b) (as_str p)"
    using assms(1,2) by (auto dest: is_or_under_prefix)
  then have ba: "prefix (as_str b) (as_str a)"
    using assms(3) prefix_length_prefix by blast
  show ?thesis
  proof (cases "as_str b = as_str a")
    case True
    then show ?thesis by (simp add: is_or_under_text)
  next
    case False
    then have l: "length (as_str b) < length (as_str a)"
      using ba prefix_length_less [of "as_str b" "as_str a"] by (simp add: strict_prefix_def)
    then have "is_directory_prefix (as_str b) (as_str p)"
      using assms \<open>prefix (as_str a) (as_str p)\<close> prefix_length_le [of "as_str a" "as_str p"]
      by (auto simp: is_or_under_text)
    then have "is_directory_prefix (as_str b) (as_str a)"
      using is_directory_prefix_via_longer [OF _ \<open>prefix (as_str a) (as_str p)\<close>] l by blast
    then show ?thesis by (simp add: is_or_under_text)
  qed
qed

definition unique_paths :: "(route_name \<times> route_config) list \<Rightarrow> bool" where
  "unique_paths rs \<longleftrightarrow> (\<forall>(n, r) \<in> set rs. \<forall>(n', r') \<in> set rs. rt_path r = rt_path r' \<longrightarrow> n = n')"

lemma scan_routes_Ok:
  "bt_ok seen \<Longrightarrow> scan_routes seen rs = Ok () \<longleftrightarrow>
      distinct (map (\<lambda>(_, r). as_str (rt_path r)) rs) \<and> (\<forall>(_, r) \<in> set rs. bt_get seen (as_str (rt_path r)) = None)"
proof (induction rs arbitrary: seen)
  case (Cons x rs)
  obtain name route where x: "x = (name, route)" by (cases x)
  let ?p = "as_str (rt_path route)"
  show ?case
  proof (cases "bt_get seen ?p")
    case None
    have "bt_get (bt_insert ?p name seen) q = None \<longleftrightarrow> q \<noteq> ?p \<and> bt_get seen q = None" for q
      using Cons.prems by simp
    then show ?thesis
      using None Cons.IH [OF bt_insert_ok [OF Cons.prems, of ?p name]] unfolding x
      by (auto simp: image_iff)
  qed (simp add: x)
qed simp

lemma unique_paths_iff:
  "unique_paths rs \<longleftrightarrow>
     (\<forall>n r n' r'. (n, r) \<in> set rs \<longrightarrow> (n', r') \<in> set rs \<longrightarrow> rt_path r = rt_path r' \<longrightarrow> n = n')"
  by (fastforce simp: unique_paths_def)

lemma routes_distinct: "bt_ok rs \<Longrightarrow> distinct (map fst rs)"
  by (simp add: bt_ok_def sorted_wrt_less_distinct)

lemma distinct_paths: "distinct (map fst rs) \<Longrightarrow> distinct (map (\<lambda>(_, r). as_str (rt_path r)) rs) \<longleftrightarrow> unique_paths rs"
proof (induction rs)
  case Nil
  then show ?case by (simp add: unique_paths_def)
next
  case (Cons x rs)
  obtain n r where x: "x = (n, r)" by (cases x)
  have n: "n \<notin> fst ` set rs" "distinct (map fst rs)" using Cons.prems by (simp_all add: x)
  have "unique_paths (x # rs) \<longleftrightarrow> unique_paths rs \<and> (\<forall>n' r'. (n', r') \<in> set rs \<longrightarrow> rt_path r' \<noteq> rt_path r)"
  proof -
    have "n' \<noteq> n" if "(n', r') \<in> set rs" for n' r' using n(1) that by force
    then show ?thesis unfolding unique_paths_iff x list.set insert_iff prod.inject by metis
  qed
  moreover have "as_str (rt_path r) \<notin> (\<lambda>(_, r). as_str (rt_path r)) ` set rs \<longleftrightarrow>
      (\<forall>n' r'. (n', r') \<in> set rs \<longrightarrow> rt_path r' \<noteq> rt_path r)"
    by (force simp: gat_path_eq_iff)
  ultimately show ?case using Cons.IH [OF n(2)] by (auto simp: x)
qed

lemma routes_validate_Ok:
  assumes "bt_ok rs"
  shows "routes_validate_effective rs = Ok () \<longleftrightarrow> RESERVED_DEFAULT_ROUTE_NAME \<notin> fst ` set rs \<and> unique_paths rs"
  using scan_routes_Ok [of "[]" rs] bt_get_None [of rs RESERVED_DEFAULT_ROUTE_NAME]
    distinct_paths [OF routes_distinct [OF assms]]
  by (simp add: routes_validate_effective_def bt_get_def case_prod_unfold)

text \<open>The chosen route, as an element of the map.\<close>

lemma route_for_cases:
  fixes rs :: "(route_name \<times> route_config) list"
  obtains (none) "route_for rs path = None" "\<And>n r. (n, r) \<in> set rs \<Longrightarrow> \<not> is_or_under path (rt_path r)"
  | (some) n r where "route_for rs path = Some \<lparr>rm_name = n, rm_route = rt_path r, rm_remote = rt_remote r\<rparr>"
      "(n, r) \<in> set rs" "is_or_under path (rt_path r)"
      "\<And>n' r'. (n', r') \<in> set rs \<Longrightarrow> is_or_under path (rt_path r') \<Longrightarrow> is_or_under (rt_path r) (rt_path r')"
proof -
  define ms where "ms = filter (\<lambda>(_, route). is_or_under path (rt_path route)) rs"
  define key where "key = (\<lambda>(_ :: route_name, route :: route_config). length (as_str (rt_path route)))"
  note mx = max_by_key_spec [where key = key and best = None and xs = ms]
  have r: "route_for rs path = map_option (\<lambda>(name, route). \<lparr>rm_name = name, rm_route = rt_path route, rm_remote = rt_remote route\<rparr>)
       (max_by_key key None ms)"
    by (simp add: route_for_def ms_def key_def)
  have ms: "(n, r) \<in> set ms \<longleftrightarrow> (n, r) \<in> set rs \<and> is_or_under path (rt_path r)" for n r
    by (simp add: ms_def)
  show ?thesis
  proof (cases "max_by_key key None ms")
    case None
    then have "ms = []" using mx by simp
    then show ?thesis using None none r ms by (metis list.set(1) empty_iff option.map_disc_iff)
  next
    case (Some m)
    obtain n r' where m: "m = (n, r')" by (cases m)
    have mem: "(n, r') \<in> set ms" "\<And>x. x \<in> set ms \<Longrightarrow> key x \<le> key (n, r')" using mx Some m by auto
    show ?thesis
    proof (rule some)
      show "route_for rs path = Some \<lparr>rm_name = n, rm_route = rt_path r', rm_remote = rt_remote r'\<rparr>"
        by (simp add: r Some m)
      show in_rs: "(n, r') \<in> set rs" "is_or_under path (rt_path r')" using mem(1) ms by auto
      show "is_or_under (rt_path r') (rt_path r'')" if "(n', r'') \<in> set rs" "is_or_under path (rt_path r'')" for n' r''
        using common_ancestors [OF in_rs(2) that(2)] mem(2) [of "(n', r'')"] ms that by (simp add: key_def)
    qed
  qed
qed

lemma is_or_under_antisym: "is_or_under a b \<Longrightarrow> is_or_under b a \<Longrightarrow> a = b"
  using is_or_under_prefix prefix_order.antisym gat_path_eq_iff by metis

lemma overlap_free_iff:
  "overlap_free ms \<longleftrightarrow>
     (\<forall>n m n' m'. (n, m) \<in> set ms \<longrightarrow> (n', m') \<in> set ms \<longrightarrow> n \<noteq> n' \<longrightarrow> \<not> overlap (m_target m) (m_target m'))"
  by (fastforce simp: overlap_free_def)

section \<open>Properties\<close>

text \<open>
  C19: the mount invariant. Validation accepts exactly the mount sets whose targets do not overlap,
  and an error names two real mounts that do. A target accepted by \<open>check_target\<close> can be added or
  moved to without breaking the invariant, and one it rejects would break it.
\<close>

theorem mount_targets_invariant:
  assumes "bt_ok ms"
  shows "(mounts_validate_effective ms = Ok () \<longleftrightarrow> overlap_free ms)
    \<and> (mounts_validate_effective ms = Err e \<longrightarrow>
        (\<exists>n m n' m'. e = MountTargetOverlap (Some n) (as_str (m_target m)) n' (as_str (m_target m'))
          \<and> (n, m) \<in> set ms \<and> (n', m') \<in> set ms \<and> n \<noteq> n' \<and> is_or_under (m_target m) (m_target m')))
    \<and> (mounts_validate_effective ms = Ok () \<and> m_target cfg = target \<longrightarrow>
        (mounts_validate_effective (bt_insert name cfg ms) = Ok () \<longleftrightarrow> check_target ms target (Some name) = Ok ()))"
proof -
  have d: "distinct (map fst xs)" if "bt_ok xs" for xs :: "(mount_name \<times> 'a mount_config) list"
    using that by (simp add: bt_ok_def sorted_wrt_less_distinct)
  note out = mounts_validate_outcome [OF d [OF assms]]
  have ok: "bt_ok (bt_insert name cfg ms)" using assms by simp
  have mem: "(n, m) \<in> set (bt_insert name cfg ms) \<longleftrightarrow> n = name \<and> m = cfg \<or> n \<noteq> name \<and> (n, m) \<in> set ms" for n m
    using bt_get_Some [OF ok, of n m] bt_get_Some [OF assms, of n m] bt_get_insert [OF assms, of name cfg]
    by (cases "n = name") auto
  have sym: "overlap a b \<longleftrightarrow> overlap b a" for a b by (auto simp: overlap_def)
  have grow: "overlap_free (bt_insert name cfg ms) \<longleftrightarrow> (\<forall>n m. (n, m) \<in> set ms \<longrightarrow> n \<noteq> name \<longrightarrow> \<not> overlap target (m_target m))"
    if "overlap_free ms" "m_target cfg = target"
    using that sym unfolding overlap_free_iff mem by blast
  have "check_target ms target (Some name) = Ok () \<longleftrightarrow> (\<forall>n m. (n, m) \<in> set ms \<longrightarrow> n \<noteq> name \<longrightarrow> \<not> overlap target (m_target m))"
    unfolding check_target_def check_target_loop_Ok by fastforce
  with out mounts_validate_outcome [OF d [OF ok]] grow show ?thesis by blast
qed

text \<open>
  C20: routing is well defined. Validation accepts exactly the route sets without the reserved name
  in which no two names share a path. For such a set the route of a path is the one matching route
  whose path lies under every other matching one's; there is none exactly when no route matches.
\<close>

theorem routes_most_specific:
  assumes "bt_ok rs"
  shows "(routes_validate_effective rs = Ok () \<longleftrightarrow> RESERVED_DEFAULT_ROUTE_NAME \<notin> fst ` set rs \<and> unique_paths rs)
    \<and> (route_for rs path = None \<longleftrightarrow> (\<forall>n r. (n, r) \<in> set rs \<longrightarrow> \<not> is_or_under path (rt_path r)))
    \<and> (routes_validate_effective rs = Ok () \<longrightarrow>
        (route_for rs path = Some \<lparr>rm_name = n, rm_route = p, rm_remote = remote\<rparr> \<longleftrightarrow>
           (n, \<lparr>rt_path = p, rt_remote = remote\<rparr>) \<in> set rs \<and> is_or_under path p
           \<and> (\<forall>n' r'. (n', r') \<in> set rs \<longrightarrow> is_or_under path (rt_path r') \<longrightarrow> is_or_under p (rt_path r'))))"
proof -
  have none: "route_for rs path = None \<longleftrightarrow> (\<forall>n r. (n, r) \<in> set rs \<longrightarrow> \<not> is_or_under path (rt_path r))"
    by (cases rs path rule: route_for_cases) auto
  have some: "route_for rs path = Some \<lparr>rm_name = n, rm_route = p, rm_remote = remote\<rparr> \<longleftrightarrow>
           (n, \<lparr>rt_path = p, rt_remote = remote\<rparr>) \<in> set rs \<and> is_or_under path p
           \<and> (\<forall>n' r'. (n', r') \<in> set rs \<longrightarrow> is_or_under path (rt_path r') \<longrightarrow> is_or_under p (rt_path r'))"
    (is "?L \<longleftrightarrow> ?R") if u: "unique_paths rs"
  proof (cases rs path rule: route_for_cases)
    case none
    then show ?thesis using none(2) [of n "\<lparr>rt_path = p, rt_remote = remote\<rparr>"] by auto
  next
    case (some n1 r1)
    show ?thesis
    proof
      assume ?L
      then have "n1 = n" "r1 = \<lparr>rt_path = p, rt_remote = remote\<rparr>" using some(1) by auto
      with some(2-4) show ?R by auto
    next
      assume r: ?R
      then have "is_or_under (rt_path r1) p" using some(4) [of n "\<lparr>rt_path = p, rt_remote = remote\<rparr>"] by simp
      moreover have "is_or_under p (rt_path r1)" using r some(2,3) by blast
      ultimately have p: "rt_path r1 = p" by (rule is_or_under_antisym)
      then have n: "n1 = n"
        using u some(2) r unfolding unique_paths_iff by (metis route_config.select_convs(1))
      then have "r1 = \<lparr>rt_path = p, rt_remote = remote\<rparr>"
        using some(2) r eq_key_imp_eq_value [OF routes_distinct [OF assms]] by blast
      with some(1) n show ?L by simp
    qed
  qed
  show ?thesis using none some routes_validate_Ok [OF assms] by blast
qed

definition sample_route :: "string \<Rightarrow> string \<Rightarrow> string \<Rightarrow> route_name \<times> route_config" where
  "sample_route name path remote = (lit name, \<lparr>rt_path = GatPath (lit path), rt_remote = lit remote\<rparr>)"

lemma routes_most_specific_witness:
  "route_for [sample_route ''all'' ''models'' ''cold'', sample_route ''big'' ''models/xl'' ''warm''] (GatPath (lit ''models/xl/a''))
     = Some \<lparr>rm_name = lit ''big'', rm_route = GatPath (lit ''models/xl''), rm_remote = lit ''warm''\<rparr>"
proof -
  let ?rs = "[sample_route ''all'' ''models'' ''cold'', sample_route ''big'' ''models/xl'' ''warm'']"
  have "bt_ok ?rs" "routes_validate_effective ?rs = Ok ()" by code_simp+
  moreover have "(lit ''big'', \<lparr>rt_path = GatPath (lit ''models/xl''), rt_remote = lit ''warm''\<rparr>) \<in> set ?rs"
    by (simp add: sample_route_def)
  moreover have "is_or_under (GatPath (lit ''models/xl/a'')) (GatPath (lit ''models/xl''))" by code_simp
  moreover have "is_or_under (GatPath (lit ''models/xl'')) (GatPath (lit ''models''))" by code_simp
  then have "\<forall>n' r'. (n', r') \<in> set ?rs \<longrightarrow> is_or_under (GatPath (lit ''models/xl/a'')) (rt_path r')
      \<longrightarrow> is_or_under (GatPath (lit ''models/xl'')) (rt_path r')"
    by (auto simp: sample_route_def simp del: lit_simps)
  ultimately show ?thesis
    using routes_most_specific [of ?rs "GatPath (lit ''models/xl/a'')"] by blast
qed

definition sample_mount :: "string \<Rightarrow> string \<Rightarrow> mount_name \<times> unit mount_config" where
  "sample_mount name target =
     (lit name, \<lparr>m_url = [], m_target = GatPath (lit target), m_path = Root, m_rev = None, m_rev_lock = None,
        m_include = [], m_exclude = []\<rparr>)"

lemma mount_targets_invariant_witness:
  "mounts_validate_effective [sample_mount ''a'' ''x'', sample_mount ''b'' ''x.y''] = Ok ()
   \<and> mounts_validate_effective (bt_insert (lit ''c'') (snd (sample_mount ''c'' ''x/z'')) [sample_mount ''a'' ''x'', sample_mount ''b'' ''x.y'']) \<noteq> Ok ()"
proof -
  let ?ms = "[sample_mount ''a'' ''x'', sample_mount ''b'' ''x.y'']" and ?c = "snd (sample_mount ''c'' ''x/z'')"
  have "bt_ok ?ms" "mounts_validate_effective ?ms = Ok ()"
    "check_target ?ms (m_target ?c) (Some (lit ''c'')) \<noteq> Ok ()"
    by code_simp+
  then show ?thesis
    using mount_targets_invariant [of ?ms _ ?c "m_target ?c" "lit ''c''"] by blast
qed

end
