(* ===== verification/Settings.thy ===== *)
theory Settings
  imports ConfigRules
begin

text \<open>
  General settings and the layering of configurations (\<open>gat-core/src/settings.rs\<close> and
  \<open>Config::merge_layers\<close>). The \<open>settings!\<close> macro generates one branch per setting; the definitions
  here are its expansion. Two interfaces are stated as locales: \<open>settings_store\<close> (what reading
  returns after writing) and \<open>layered\<close> (what a merge of two layers looks up).
\<close>

section \<open>Values\<close>

text \<open>The \<open>bounded!\<close> numbers: a nonzero \<open>u32\<close> up to a maximum.\<close>

definition TIMEOUT_MAX :: "32 word" where "TIMEOUT_MAX = 86400"
definition CONCURRENCY_MAX :: "32 word" where "CONCURRENCY_MAX = 65535"

definition bounded_new :: "32 word \<Rightarrow> 32 word \<Rightarrow> setting_value_error + 32 word" where
  "bounded_new max_value value =
     (if value = 0 \<or> value > max_value then Err OutOfRange else Ok value)"

datatype setting_assignment =
    SetCacheLocation cache_location
  | SetMaterialization materialization_strategy
  | SetIngest ingest_strategy
  | SetTrustState bool
  | SetAutoFetch bool
  | SetAutoRepair bool
  | SetShardLevels lock_shard_levels
  | SetIgnorePatterns "git_ignore_pattern list"
  | SetReadiness "32 word"
  | SetOperation "32 word"
  | SetIo "32 word"
  | SetRequests "32 word"

definition CANONICAL :: "setting_key list" where
  "CANONICAL =
     [CacheLocationKey, CacheMaterializationStrategy, CacheIngestStrategy, SyncTrustState, SyncAutoFetch,
      SyncAutoRepair, LockShardLevelsKey, GitIgnorePatterns, NetworkReadinessTimeout,
      NetworkOperationTimeout, NetworkIoTimeout, NetworkRequestConcurrency]"

fun key_as_str :: "setting_key \<Rightarrow> str" where
  "key_as_str CacheLocationKey = lit ''cache.location''"
| "key_as_str CacheMaterializationStrategy = lit ''cache.materialization_strategy''"
| "key_as_str CacheIngestStrategy = lit ''cache.ingest_strategy''"
| "key_as_str SyncTrustState = lit ''sync.trust_state''"
| "key_as_str SyncAutoFetch = lit ''sync.auto_fetch''"
| "key_as_str SyncAutoRepair = lit ''sync.auto_repair''"
| "key_as_str LockShardLevelsKey = lit ''lock.shard_levels''"
| "key_as_str GitIgnorePatterns = lit ''git.ignore_patterns''"
| "key_as_str NetworkReadinessTimeout = lit ''network.readiness_timeout_seconds''"
| "key_as_str NetworkOperationTimeout = lit ''network.operation_timeout_seconds''"
| "key_as_str NetworkIoTimeout = lit ''network.io_timeout_seconds''"
| "key_as_str NetworkRequestConcurrency = lit ''network.request_concurrency''"

definition key_parse :: "str \<Rightarrow> setting_key option" where
  "key_parse value = find (\<lambda>key. key_as_str key = value) CANONICAL"

definition to_ascii_uppercase :: "u8 \<Rightarrow> u8" where
  "to_ascii_uppercase b = (if is_ascii_lowercase b then b - 32 else b)"

definition environment_name :: "setting_key \<Rightarrow> str" where
  "environment_name key =
     lit ''GAT_'' @ map (\<lambda>b. to_ascii_uppercase (if b = DOT then 95 else b)) (key_as_str key)"

datatype value_cardinality = Scalar | List

fun cardinality :: "setting_key \<Rightarrow> value_cardinality" where
  "cardinality CacheMaterializationStrategy = List"
| "cardinality GitIgnorePatterns = List"
| "cardinality _ = Scalar"

section \<open>Parsing values\<close>

definition scalar_value :: "setting_key \<Rightarrow> str list \<Rightarrow> config_error + str" where
  "scalar_value key values =
     (case values of [value] \<Rightarrow> Ok value | _ \<Rightarrow> Err (InvalidSettingValue key ScalarRequired))"

definition bool_parse :: "setting_key \<Rightarrow> str list \<Rightarrow> config_error + bool" where
  "bool_parse key values =
     and_then (scalar_value key values) (\<lambda>text.
       if text = lit ''true'' then Ok True
       else if text = lit ''false'' then Ok False
       else Err (InvalidSettingValue key InvalidBoolean))"

definition bounded_parse :: "32 word \<Rightarrow> setting_key \<Rightarrow> str list \<Rightarrow> config_error + 32 word" where
  "bounded_parse max_value key values =
     and_then (scalar_value key values) (\<lambda>s.
       let value = (if s \<noteq> [] \<and> list_all is_ascii_digit s then
                      (case parse_unsigned (2 ^ 32 - 1) s of Inl _ \<Rightarrow> None | Inr n \<Rightarrow> Some (of_nat n :: 32 word))
                    else None)
       in ok_or (InvalidSettingValue key OutOfRange)
            (Option.bind value (\<lambda>n. case bounded_new max_value n of Inl _ \<Rightarrow> None | Inr v \<Rightarrow> Some v)))"

text \<open>
  A cache location from the command line is a path made of the text.
\<close>

definition cache_location_parse :: "setting_key \<Rightarrow> str list \<Rightarrow> config_error + cache_location" where
  "cache_location_parse key values =
     and_then (scalar_value key values) (\<lambda>s.
       map_err (InvalidSettingValue key) (cache_location_try_from_path (Unicode s)))"

definition ingest_parse :: "setting_key \<Rightarrow> str list \<Rightarrow> config_error + ingest_strategy" where
  "ingest_parse key values = and_then (scalar_value key values) ingest_from_str"

definition shard_levels_parse :: "setting_key \<Rightarrow> str list \<Rightarrow> config_error + lock_shard_levels" where
  "shard_levels_parse key values = and_then (scalar_value key values) parse_shard_levels"

fun parse_values :: "setting_key \<Rightarrow> str list \<Rightarrow> config_error + setting_assignment" where
  "parse_values CacheLocationKey values = map_ok SetCacheLocation (cache_location_parse CacheLocationKey values)"
| "parse_values CacheMaterializationStrategy values = map_ok SetMaterialization (strategy_from_values values)"
| "parse_values CacheIngestStrategy values = map_ok SetIngest (ingest_parse CacheIngestStrategy values)"
| "parse_values SyncTrustState values = map_ok SetTrustState (bool_parse SyncTrustState values)"
| "parse_values SyncAutoFetch values = map_ok SetAutoFetch (bool_parse SyncAutoFetch values)"
| "parse_values SyncAutoRepair values = map_ok SetAutoRepair (bool_parse SyncAutoRepair values)"
| "parse_values LockShardLevelsKey values = map_ok SetShardLevels (shard_levels_parse LockShardLevelsKey values)"
| "parse_values GitIgnorePatterns values = map_ok SetIgnorePatterns (validate_ignore_patterns values)"
| "parse_values NetworkReadinessTimeout values = map_ok SetReadiness (bounded_parse TIMEOUT_MAX NetworkReadinessTimeout values)"
| "parse_values NetworkOperationTimeout values = map_ok SetOperation (bounded_parse TIMEOUT_MAX NetworkOperationTimeout values)"
| "parse_values NetworkIoTimeout values = map_ok SetIo (bounded_parse TIMEOUT_MAX NetworkIoTimeout values)"
| "parse_values NetworkRequestConcurrency values = map_ok SetRequests (bounded_parse CONCURRENCY_MAX NetworkRequestConcurrency values)"

section \<open>Reading and writing a configuration\<close>

fun read :: "setting_key \<Rightarrow> 'p config \<Rightarrow> setting_assignment option" where
  "read CacheLocationKey c = map_option SetCacheLocation (location (cache c))"
| "read CacheMaterializationStrategy c = map_option SetMaterialization (materialization_strategy (cache c))"
| "read CacheIngestStrategy c = map_option SetIngest (ingest_strategy (cache c))"
| "read SyncTrustState c = map_option SetTrustState (trust_state (sync c))"
| "read SyncAutoFetch c = map_option SetAutoFetch (auto_fetch (sync c))"
| "read SyncAutoRepair c = map_option SetAutoRepair (auto_repair (sync c))"
| "read LockShardLevelsKey c = map_option SetShardLevels (l_shard_levels (lock_section c))"
| "read GitIgnorePatterns c = map_option SetIgnorePatterns (ignore_patterns (git c))"
| "read NetworkReadinessTimeout c = map_option SetReadiness (readiness_timeout_seconds (network c))"
| "read NetworkOperationTimeout c = map_option SetOperation (operation_timeout_seconds (network c))"
| "read NetworkIoTimeout c = map_option SetIo (io_timeout_seconds (network c))"
| "read NetworkRequestConcurrency c = map_option SetRequests (request_concurrency (network c))"

definition is_set :: "setting_key \<Rightarrow> 'p config \<Rightarrow> bool" where
  "is_set key c \<longleftrightarrow> read key c \<noteq> None"

fun unset :: "setting_key \<Rightarrow> 'p config \<Rightarrow> 'p config" where
  "unset CacheLocationKey c = c\<lparr>cache := (cache c)\<lparr>location := None\<rparr>\<rparr>"
| "unset CacheMaterializationStrategy c = c\<lparr>cache := (cache c)\<lparr>materialization_strategy := None\<rparr>\<rparr>"
| "unset CacheIngestStrategy c = c\<lparr>cache := (cache c)\<lparr>ingest_strategy := None\<rparr>\<rparr>"
| "unset SyncTrustState c = c\<lparr>sync := (sync c)\<lparr>trust_state := None\<rparr>\<rparr>"
| "unset SyncAutoFetch c = c\<lparr>sync := (sync c)\<lparr>auto_fetch := None\<rparr>\<rparr>"
| "unset SyncAutoRepair c = c\<lparr>sync := (sync c)\<lparr>auto_repair := None\<rparr>\<rparr>"
| "unset LockShardLevelsKey c = c\<lparr>lock_section := (lock_section c)\<lparr>l_shard_levels := None\<rparr>\<rparr>"
| "unset GitIgnorePatterns c = c\<lparr>git := (git c)\<lparr>ignore_patterns := None\<rparr>\<rparr>"
| "unset NetworkReadinessTimeout c = c\<lparr>network := (network c)\<lparr>readiness_timeout_seconds := None\<rparr>\<rparr>"
| "unset NetworkOperationTimeout c = c\<lparr>network := (network c)\<lparr>operation_timeout_seconds := None\<rparr>\<rparr>"
| "unset NetworkIoTimeout c = c\<lparr>network := (network c)\<lparr>io_timeout_seconds := None\<rparr>\<rparr>"
| "unset NetworkRequestConcurrency c = c\<lparr>network := (network c)\<lparr>request_concurrency := None\<rparr>\<rparr>"

fun assignment_key :: "setting_assignment \<Rightarrow> setting_key" where
  "assignment_key (SetCacheLocation _) = CacheLocationKey"
| "assignment_key (SetMaterialization _) = CacheMaterializationStrategy"
| "assignment_key (SetIngest _) = CacheIngestStrategy"
| "assignment_key (SetTrustState _) = SyncTrustState"
| "assignment_key (SetAutoFetch _) = SyncAutoFetch"
| "assignment_key (SetAutoRepair _) = SyncAutoRepair"
| "assignment_key (SetShardLevels _) = LockShardLevelsKey"
| "assignment_key (SetIgnorePatterns _) = GitIgnorePatterns"
| "assignment_key (SetReadiness _) = NetworkReadinessTimeout"
| "assignment_key (SetOperation _) = NetworkOperationTimeout"
| "assignment_key (SetIo _) = NetworkIoTimeout"
| "assignment_key (SetRequests _) = NetworkRequestConcurrency"

fun assignment_apply :: "setting_assignment \<Rightarrow> 'p config \<Rightarrow> 'p config" where
  "assignment_apply (SetCacheLocation v) c = c\<lparr>cache := (cache c)\<lparr>location := Some v\<rparr>\<rparr>"
| "assignment_apply (SetMaterialization v) c = c\<lparr>cache := (cache c)\<lparr>materialization_strategy := Some v\<rparr>\<rparr>"
| "assignment_apply (SetIngest v) c = c\<lparr>cache := (cache c)\<lparr>ingest_strategy := Some v\<rparr>\<rparr>"
| "assignment_apply (SetTrustState v) c = c\<lparr>sync := (sync c)\<lparr>trust_state := Some v\<rparr>\<rparr>"
| "assignment_apply (SetAutoFetch v) c = c\<lparr>sync := (sync c)\<lparr>auto_fetch := Some v\<rparr>\<rparr>"
| "assignment_apply (SetAutoRepair v) c = c\<lparr>sync := (sync c)\<lparr>auto_repair := Some v\<rparr>\<rparr>"
| "assignment_apply (SetShardLevels v) c = c\<lparr>lock_section := (lock_section c)\<lparr>l_shard_levels := Some v\<rparr>\<rparr>"
| "assignment_apply (SetIgnorePatterns v) c = c\<lparr>git := (git c)\<lparr>ignore_patterns := Some v\<rparr>\<rparr>"
| "assignment_apply (SetReadiness v) c = c\<lparr>network := (network c)\<lparr>readiness_timeout_seconds := Some v\<rparr>\<rparr>"
| "assignment_apply (SetOperation v) c = c\<lparr>network := (network c)\<lparr>operation_timeout_seconds := Some v\<rparr>\<rparr>"
| "assignment_apply (SetIo v) c = c\<lparr>network := (network c)\<lparr>io_timeout_seconds := Some v\<rparr>\<rparr>"
| "assignment_apply (SetRequests v) c = c\<lparr>network := (network c)\<lparr>request_concurrency := Some v\<rparr>\<rparr>"

fun default_value :: "setting_key \<Rightarrow> setting_assignment option" where
  "default_value CacheLocationKey = None"
| "default_value CacheMaterializationStrategy = Some (SetMaterialization strategy_default)"
| "default_value CacheIngestStrategy = Some (SetIngest DEFAULT_INGEST_STRATEGY)"
| "default_value SyncTrustState = Some (SetTrustState False)"
| "default_value SyncAutoFetch = Some (SetAutoFetch False)"
| "default_value SyncAutoRepair = Some (SetAutoRepair False)"
| "default_value LockShardLevelsKey = Some (SetShardLevels LEVELS_FLAT)"
| "default_value GitIgnorePatterns = Some (SetIgnorePatterns [])"
| "default_value NetworkReadinessTimeout = Some (SetReadiness 5)"
| "default_value NetworkOperationTimeout = Some (SetOperation 30)"
| "default_value NetworkIoTimeout = Some (SetIo 60)"
| "default_value NetworkRequestConcurrency = Some (SetRequests 256)"

section \<open>Partial and resolved settings\<close>

record settings_layer =
  sl_cache_location :: "cache_location option"
  sl_materialization :: "materialization_strategy option"
  sl_ingest :: "ingest_strategy option"
  sl_trust_state :: "bool option"
  sl_auto_fetch :: "bool option"
  sl_auto_repair :: "bool option"
  sl_shard_levels :: "lock_shard_levels option"
  sl_ignore_patterns :: "(git_ignore_pattern list) option"
  sl_readiness :: "(32 word) option"
  sl_operation :: "(32 word) option"
  sl_io :: "(32 word) option"
  sl_requests :: "(32 word) option"

definition settings_layer_default :: settings_layer where
  "settings_layer_default =
     \<lparr>sl_cache_location = None, sl_materialization = None, sl_ingest = None, sl_trust_state = None, sl_auto_fetch = None, sl_auto_repair = None, sl_shard_levels = None, sl_ignore_patterns = None, sl_readiness = None, sl_operation = None, sl_io = None, sl_requests = None\<rparr>"

definition layer_from_config :: "'p config \<Rightarrow> settings_layer" where
  "layer_from_config c =
     \<lparr>sl_cache_location = location (cache c),
      sl_materialization = materialization_strategy (cache c),
      sl_ingest = ingest_strategy (cache c),
      sl_trust_state = trust_state (sync c),
      sl_auto_fetch = auto_fetch (sync c),
      sl_auto_repair = auto_repair (sync c),
      sl_shard_levels = l_shard_levels (lock_section c),
      sl_ignore_patterns = ignore_patterns (git c),
      sl_readiness = readiness_timeout_seconds (network c),
      sl_operation = operation_timeout_seconds (network c),
      sl_io = io_timeout_seconds (network c),
      sl_requests = request_concurrency (network c)\<rparr>"

fun layer_get :: "setting_key \<Rightarrow> settings_layer \<Rightarrow> setting_assignment option" where
  "layer_get CacheLocationKey l = map_option SetCacheLocation (sl_cache_location l)"
| "layer_get CacheMaterializationStrategy l = map_option SetMaterialization (sl_materialization l)"
| "layer_get CacheIngestStrategy l = map_option SetIngest (sl_ingest l)"
| "layer_get SyncTrustState l = map_option SetTrustState (sl_trust_state l)"
| "layer_get SyncAutoFetch l = map_option SetAutoFetch (sl_auto_fetch l)"
| "layer_get SyncAutoRepair l = map_option SetAutoRepair (sl_auto_repair l)"
| "layer_get LockShardLevelsKey l = map_option SetShardLevels (sl_shard_levels l)"
| "layer_get GitIgnorePatterns l = map_option SetIgnorePatterns (sl_ignore_patterns l)"
| "layer_get NetworkReadinessTimeout l = map_option SetReadiness (sl_readiness l)"
| "layer_get NetworkOperationTimeout l = map_option SetOperation (sl_operation l)"
| "layer_get NetworkIoTimeout l = map_option SetIo (sl_io l)"
| "layer_get NetworkRequestConcurrency l = map_option SetRequests (sl_requests l)"

fun layer_set :: "setting_assignment \<Rightarrow> settings_layer \<Rightarrow> settings_layer" where
  "layer_set (SetCacheLocation v) l = l\<lparr>sl_cache_location := Some v\<rparr>"
| "layer_set (SetMaterialization v) l = l\<lparr>sl_materialization := Some v\<rparr>"
| "layer_set (SetIngest v) l = l\<lparr>sl_ingest := Some v\<rparr>"
| "layer_set (SetTrustState v) l = l\<lparr>sl_trust_state := Some v\<rparr>"
| "layer_set (SetAutoFetch v) l = l\<lparr>sl_auto_fetch := Some v\<rparr>"
| "layer_set (SetAutoRepair v) l = l\<lparr>sl_auto_repair := Some v\<rparr>"
| "layer_set (SetShardLevels v) l = l\<lparr>sl_shard_levels := Some v\<rparr>"
| "layer_set (SetIgnorePatterns v) l = l\<lparr>sl_ignore_patterns := Some v\<rparr>"
| "layer_set (SetReadiness v) l = l\<lparr>sl_readiness := Some v\<rparr>"
| "layer_set (SetOperation v) l = l\<lparr>sl_operation := Some v\<rparr>"
| "layer_set (SetIo v) l = l\<lparr>sl_io := Some v\<rparr>"
| "layer_set (SetRequests v) l = l\<lparr>sl_requests := Some v\<rparr>"

definition layer_contains :: "setting_key \<Rightarrow> settings_layer \<Rightarrow> bool" where
  "layer_contains key l \<longleftrightarrow> layer_get key l \<noteq> None"

text \<open>Applying a layer overwrites the settings it has, one after the other.\<close>

definition apply_optional :: "('v \<Rightarrow> setting_assignment) \<Rightarrow> 'v option \<Rightarrow> 'p config \<Rightarrow> 'p config" where
  "apply_optional set_value v c = (case v of Some x \<Rightarrow> assignment_apply (set_value x) c | None \<Rightarrow> c)"

definition layer_apply_to :: "settings_layer \<Rightarrow> 'p config \<Rightarrow> 'p config" where
  "layer_apply_to l c0 =
     (let c1 = apply_optional SetCacheLocation (sl_cache_location l) c0;
          c2 = apply_optional SetMaterialization (sl_materialization l) c1;
          c3 = apply_optional SetIngest (sl_ingest l) c2;
          c4 = apply_optional SetTrustState (sl_trust_state l) c3;
          c5 = apply_optional SetAutoFetch (sl_auto_fetch l) c4;
          c6 = apply_optional SetAutoRepair (sl_auto_repair l) c5;
          c7 = apply_optional SetShardLevels (sl_shard_levels l) c6;
          c8 = apply_optional SetIgnorePatterns (sl_ignore_patterns l) c7;
          c9 = apply_optional SetReadiness (sl_readiness l) c8;
          c10 = apply_optional SetOperation (sl_operation l) c9;
          c11 = apply_optional SetIo (sl_io l) c10;
          c12 = apply_optional SetRequests (sl_requests l) c11
      in c12)"

record network_options =
  readiness_timeout :: "32 word"
  operation_timeout :: "32 word"
  io_timeout :: "32 word"
  request_limit :: "32 word"

record effective_settings =
  es_cache_location :: "cache_location option"
  es_materialization :: "materialization_strategy"
  es_ingest :: "ingest_strategy"
  es_trust_state :: "bool"
  es_auto_fetch :: "bool"
  es_auto_repair :: "bool"
  es_shard_levels :: "lock_shard_levels"
  es_ignore_patterns :: "git_ignore_pattern list"
  es_readiness :: "32 word"
  es_operation :: "32 word"
  es_io :: "32 word"
  es_requests :: "32 word"

definition unwrap_or :: "'a \<Rightarrow> 'a option \<Rightarrow> 'a" where
  "unwrap_or d v = (case v of Some x \<Rightarrow> x | None \<Rightarrow> d)"

definition effective_from_config :: "'p config \<Rightarrow> effective_settings" where
  "effective_from_config c =
     \<lparr>es_cache_location = option_or (location (cache c)) None,
      es_materialization = unwrap_or strategy_default (materialization_strategy (cache c)),
      es_ingest = unwrap_or DEFAULT_INGEST_STRATEGY (ingest_strategy (cache c)),
      es_trust_state = unwrap_or False (trust_state (sync c)),
      es_auto_fetch = unwrap_or False (auto_fetch (sync c)),
      es_auto_repair = unwrap_or False (auto_repair (sync c)),
      es_shard_levels = unwrap_or LEVELS_FLAT (l_shard_levels (lock_section c)),
      es_ignore_patterns = unwrap_or [] (ignore_patterns (git c)),
      es_readiness = unwrap_or 5 (readiness_timeout_seconds (network c)),
      es_operation = unwrap_or 30 (operation_timeout_seconds (network c)),
      es_io = unwrap_or 60 (io_timeout_seconds (network c)),
      es_requests = unwrap_or 256 (request_concurrency (network c))\<rparr>"

definition effective_network :: "effective_settings \<Rightarrow> network_options" where
  "effective_network self =
     \<lparr>readiness_timeout = es_readiness self, operation_timeout = es_operation self,
      io_timeout = es_io self, request_limit = es_requests self\<rparr>"

definition network_resolve :: "network_config \<Rightarrow> network_options" where
  "network_resolve self =
     \<lparr>readiness_timeout = unwrap_or 5 (readiness_timeout_seconds self),
      operation_timeout = unwrap_or 30 (operation_timeout_seconds self),
      io_timeout = unwrap_or 60 (io_timeout_seconds self),
      request_limit = unwrap_or 256 (request_concurrency self)\<rparr>"

fun effective_get :: "setting_key \<Rightarrow> effective_settings \<Rightarrow> setting_assignment option" where
  "effective_get CacheLocationKey e = map_option SetCacheLocation (es_cache_location e)"
| "effective_get CacheMaterializationStrategy e = Some (SetMaterialization (es_materialization e))"
| "effective_get CacheIngestStrategy e = Some (SetIngest (es_ingest e))"
| "effective_get SyncTrustState e = Some (SetTrustState (es_trust_state e))"
| "effective_get SyncAutoFetch e = Some (SetAutoFetch (es_auto_fetch e))"
| "effective_get SyncAutoRepair e = Some (SetAutoRepair (es_auto_repair e))"
| "effective_get LockShardLevelsKey e = Some (SetShardLevels (es_shard_levels e))"
| "effective_get GitIgnorePatterns e = Some (SetIgnorePatterns (es_ignore_patterns e))"
| "effective_get NetworkReadinessTimeout e = Some (SetReadiness (es_readiness e))"
| "effective_get NetworkOperationTimeout e = Some (SetOperation (es_operation e))"
| "effective_get NetworkIoTimeout e = Some (SetIo (es_io e))"
| "effective_get NetworkRequestConcurrency e = Some (SetRequests (es_requests e))"

section \<open>Layering\<close>

text \<open>\<open>take\<close> and overwrite: the value of the overriding layer, if it has one.\<close>

definition merge_config :: "'p config \<Rightarrow> 'p config \<Rightarrow> 'p config" where
  "merge_config target override =
     target
       \<lparr>cache := \<lparr>location = option_or (location (cache override)) (location (cache target)),
                  materialization_strategy =
                    option_or (materialization_strategy (cache override)) (materialization_strategy (cache target)),
                  ingest_strategy = option_or (ingest_strategy (cache override)) (ingest_strategy (cache target))\<rparr>,
        sync := \<lparr>trust_state = option_or (trust_state (sync override)) (trust_state (sync target)),
                 auto_fetch = option_or (auto_fetch (sync override)) (auto_fetch (sync target)),
                 auto_repair = option_or (auto_repair (sync override)) (auto_repair (sync target))\<rparr>,
        lock_section := \<lparr>l_shard_levels =
                 option_or (l_shard_levels (lock_section override)) (l_shard_levels (lock_section target))\<rparr>,
        git := \<lparr>ignore_patterns = option_or (ignore_patterns (git override)) (ignore_patterns (git target))\<rparr>,
        network :=
          \<lparr>readiness_timeout_seconds =
             option_or (readiness_timeout_seconds (network override)) (readiness_timeout_seconds (network target)),
           operation_timeout_seconds =
             option_or (operation_timeout_seconds (network override)) (operation_timeout_seconds (network target)),
           io_timeout_seconds = option_or (io_timeout_seconds (network override)) (io_timeout_seconds (network target)),
           request_concurrency =
             option_or (request_concurrency (network override)) (request_concurrency (network target))\<rparr>\<rparr>"

definition config_default :: "'p config" where
  "config_default =
     \<lparr>network = \<lparr>readiness_timeout_seconds = None, operation_timeout_seconds = None, io_timeout_seconds = None,
                  request_concurrency = None\<rparr>,
      remotes = \<lparr>r_default = None, r_by_name = []\<rparr>,
      cache = \<lparr>location = None, materialization_strategy = None, ingest_strategy = None\<rparr>,
      sync = \<lparr>trust_state = None, auto_fetch = None, auto_repair = None\<rparr>,
      selections = \<lparr>s_default = None, s_by_name = []\<rparr>,
      lock_section = \<lparr>l_shard_levels = None\<rparr>,
      mounts = [], routes = [], git = \<lparr>ignore_patterns = None\<rparr>\<rparr>"

definition config_merged_with :: "'p config \<Rightarrow> 'p config \<Rightarrow> 'p config" where
  "config_merged_with self override =
     (let self = merge_config self override in
      self\<lparr>remotes := remotes_merged_with (remotes self) (remotes override),
           selections := selections_merged_with (selections self) (selections override),
           mounts := bt_extend (mounts self) (mounts override),
           routes := bt_extend (routes self) (routes override)\<rparr>)"

definition merge_layers :: "'p config list \<Rightarrow> 'p config" where
  "merge_layers layers = foldl config_merged_with config_default layers"

section \<open>Stores of settings\<close>

locale settings_store =
  fixes get :: "setting_key \<Rightarrow> 's \<Rightarrow> setting_assignment option" and put :: "setting_assignment \<Rightarrow> 's \<Rightarrow> 's"
  assumes get_put: "get k (put a s) = (if k = assignment_key a then Some a else get k s)"
begin

lemma get_put_all:
  "get k (foldl (\<lambda>s a. put a s) s as) =
     (case find (\<lambda>a. assignment_key a = k) (rev as) of Some a \<Rightarrow> Some a | None \<Rightarrow> get k s)"
  by (induction as rule: rev_induct) (auto simp: get_put split: option.split)

end

lemma read_apply: "read k (assignment_apply a c) = (if k = assignment_key a then Some a else read k c)"
  by (cases a; cases k) simp_all

lemma layer_get_set: "layer_get k (layer_set a l) = (if k = assignment_key a then Some a else layer_get k l)"
  by (cases a; cases k) simp_all

interpretation cfg: settings_store read assignment_apply
  by unfold_locales (rule read_apply)

interpretation layer: settings_store layer_get layer_set
  by unfold_locales (rule layer_get_set)

lemma read_unset: "read k (unset j c) = (if k = j then None else read k c)"
  by (cases j; cases k) simp_all

lemma layer_get_from_config: "layer_get k (layer_from_config c) = read k c"
  by (cases k) (simp_all add: layer_from_config_def)

lemma option_or_simps [simp]:
  "option_or None b = b" "option_or (Some v) b = Some v" "option_or a None = a"
  by (simp_all add: option_or_def split: option.split)

lemma option_or_Some: "option_or a b = Some v \<longleftrightarrow> a = Some v \<or> a = None \<and> b = Some v"
  by (cases a) simp_all

lemma map_option_or: "map_option f (option_or a b) = option_or (map_option f a) (map_option f b)"
  by (cases a) simp_all

lemma read_apply_optional:
  assumes "\<And>v. assignment_key (f v) = j"
  shows "read k (apply_optional f v c) = (if k = j then option_or (map_option f v) (read k c) else read k c)"
  by (simp add: apply_optional_def read_apply assms split: option.split)

lemma layer_apply_to_read: "read k (layer_apply_to l c) = option_or (layer_get k l) (read k c)"
  unfolding layer_apply_to_def Let_def
  by (cases k)
    (simp_all only: read_apply_optional [of SetCacheLocation] read_apply_optional [of SetMaterialization]
      read_apply_optional [of SetIngest] read_apply_optional [of SetTrustState] read_apply_optional [of SetAutoFetch]
      read_apply_optional [of SetAutoRepair] read_apply_optional [of SetShardLevels]
      read_apply_optional [of SetIgnorePatterns] read_apply_optional [of SetReadiness]
      read_apply_optional [of SetOperation] read_apply_optional [of SetIo] read_apply_optional [of SetRequests]
      assignment_key.simps setting_key.distinct if_False if_True refl layer_get.simps simp_thms)

lemma effective_get_eq: "effective_get k (effective_from_config c) = option_or (read k c) (default_value k)"
  by (cases k) (simp_all add: effective_from_config_def unwrap_or_def option_or_def split: option.split)

section \<open>Looking a layer up\<close>

datatype config_item =
    ISetting setting_key | IDefaultRemote | IRemote remote_name | IDefaultSelection
  | ISelection selection_name | IMount mount_name | IRoute route_name

datatype 'p config_value =
    VSetting setting_assignment | VName str | VRemote remote_url_template
  | VSelection "'p selection_config" | VMount "'p mount_config" | VRoute route_config

fun config_look :: "'p config \<Rightarrow> config_item \<Rightarrow> 'p config_value option" where
  "config_look c (ISetting k) = map_option VSetting (read k c)"
| "config_look c IDefaultRemote = map_option VName (r_default (remotes c))"
| "config_look c (IRemote n) = map_option VRemote (bt_get (r_by_name (remotes c)) n)"
| "config_look c IDefaultSelection = map_option VName (s_default (selections c))"
| "config_look c (ISelection n) = map_option VSelection (bt_get (s_by_name (selections c)) n)"
| "config_look c (IMount n) = map_option VMount (bt_get (mounts c) n)"
| "config_look c (IRoute n) = map_option VRoute (bt_get (routes c) n)"

text \<open>The invariant of the \<open>BTreeMap\<close> fields.\<close>

definition config_ok :: "'p config \<Rightarrow> bool" where
  "config_ok c \<longleftrightarrow> bt_ok (r_by_name (remotes c)) \<and> bt_ok (s_by_name (selections c))
     \<and> bt_ok (mounts c) \<and> bt_ok (routes c)"

locale layered =
  fixes ok :: "'a \<Rightarrow> bool" and merge :: "'a \<Rightarrow> 'a \<Rightarrow> 'a" and empty :: 'a
    and look :: "'a \<Rightarrow> 'i \<Rightarrow> 'v option"
  assumes empty_ok: "ok empty" and look_empty: "look empty i = None"
    and merge_ok: "ok a \<Longrightarrow> ok b \<Longrightarrow> ok (merge a b)"
    and look_merge: "ok a \<Longrightarrow> ok b \<Longrightarrow> look (merge a b) i = (case look b i of Some v \<Rightarrow> Some v | None \<Rightarrow> look a i)"
begin

lemma fold_ok: "list_all ok layers \<Longrightarrow> ok (foldl merge empty layers)"
  by (induction layers rule: rev_induct) (auto simp: empty_ok merge_ok)

lemma look_fold:
  "list_all ok layers \<Longrightarrow>
     look (foldl merge empty layers) i = Some v \<longleftrightarrow>
       (\<exists>before c after. layers = before @ c # after \<and> look c i = Some v \<and> (\<forall>d \<in> set after. look d i = None))"
proof (induction layers rule: rev_induct)
  case Nil
  then show ?case by (simp add: look_empty)
next
  case (snoc l layers)
  then have ok: "ok (foldl merge empty layers)" "ok l" "list_all ok layers"
    by (auto simp: fold_ok)
  have m: "look (foldl merge empty (layers @ [l])) i =
      (case look l i of Some w \<Rightarrow> Some w | None \<Rightarrow> look (foldl merge empty layers) i)"
    using look_merge [OF ok(1,2)] by simp
  show ?case
  proof (cases "look l i")
    case None
    have "(\<exists>before c after. layers @ [l] = before @ c # after \<and> look c i = Some v \<and> (\<forall>d \<in> set after. look d i = None))
        \<longleftrightarrow> (\<exists>before c after. layers = before @ c # after \<and> look c i = Some v \<and> (\<forall>d \<in> set after. look d i = None))"
    proof
      assume "\<exists>before c after. layers @ [l] = before @ c # after \<and> look c i = Some v \<and> (\<forall>d \<in> set after. look d i = None)"
      then obtain before c after where a: "layers @ [l] = before @ c # after" "look c i = Some v"
        "\<forall>d \<in> set after. look d i = None" by blast
      have "after \<noteq> []" using a(1,2) None by auto
      then obtain rest x where r: "after = rest @ [x]" by (metis append_butlast_last_id)
      with a(1) have "layers = before @ c # rest" by simp
      with a(2,3) r show "\<exists>before c after. layers = before @ c # after \<and> look c i = Some v \<and> (\<forall>d \<in> set after. look d i = None)"
        by auto
    next
      assume "\<exists>before c after. layers = before @ c # after \<and> look c i = Some v \<and> (\<forall>d \<in> set after. look d i = None)"
      then obtain before c after where a: "layers = before @ c # after" "look c i = Some v"
        "\<forall>d \<in> set after. look d i = None" by blast
      then show "\<exists>before c after. layers @ [l] = before @ c # after \<and> look c i = Some v \<and> (\<forall>d \<in> set after. look d i = None)"
        using None by (intro exI [of _ before] exI [of _ c] exI [of _ "after @ [l]"]) simp
    qed
    then show ?thesis
      using snoc.IH [OF ok(3)] None unfolding m by simp
  next
    case (Some w)
    have "(\<exists>before c after. layers @ [l] = before @ c # after \<and> look c i = Some v \<and> (\<forall>d \<in> set after. look d i = None))
        \<longleftrightarrow> w = v"
    proof
      assume "\<exists>before c after. layers @ [l] = before @ c # after \<and> look c i = Some v \<and> (\<forall>d \<in> set after. look d i = None)"
      then obtain before c after where a: "layers @ [l] = before @ c # after" "look c i = Some v"
        "\<forall>d \<in> set after. look d i = None" by blast
      have "after = []"
      proof (rule ccontr)
        assume "after \<noteq> []"
        then have "last (layers @ [l]) \<in> set after" using a(1) by (metis last_ConsR last_append last_in_set list.distinct(1))
        with a(3) Some show False by simp
      qed
      with a(1,2) Some show "w = v" by simp
    next
      assume "w = v"
      with Some show "\<exists>before c after. layers @ [l] = before @ c # after \<and> look c i = Some v \<and> (\<forall>d \<in> set after. look d i = None)"
        by (intro exI [of _ layers] exI [of _ l] exI [of _ "[]"]) simp
    qed
    then show ?thesis unfolding m Some by auto
  qed
qed

end

lemma bt_get_extend_ok: "bt_ok m \<Longrightarrow> bt_ok xs \<Longrightarrow> bt_get (bt_extend m xs) k = option_or (bt_get xs k) (bt_get m k)"
proof -
  assume "bt_ok m" "bt_ok xs"
  then have "distinct (map fst xs)" by (simp add: bt_ok_def sorted_wrt_less_distinct)
  then have "map_of (rev xs) = map_of xs" by (intro map_of_inject_set [THEN iffD2]) (simp_all add: rev_map [symmetric])
  with \<open>bt_ok m\<close> show ?thesis
    by (simp add: bt_get_extend map_add_def option_or_def) (simp add: bt_get_def)
qed

lemma read_merge_config: "read k (merge_config a b) = option_or (read k b) (read k a)"
  by (cases k) (simp_all add: merge_config_def map_option_or)

lemma read_config_merged: "read k (config_merged_with a b) = option_or (read k b) (read k a)"
proof -
  have "read k (config_merged_with a b) = read k (merge_config a b)"
    by (cases k) (simp_all add: config_merged_with_def Let_def)
  then show ?thesis by (simp add: read_merge_config)
qed

lemma look_config_merged:
  assumes "config_ok a" "config_ok b"
  shows "config_look (config_merged_with a b) i = (case config_look b i of Some v \<Rightarrow> Some v | None \<Rightarrow> config_look a i)"
proof -
  have fields: "remotes (config_merged_with a b) = remotes_merged_with (remotes a) (remotes b)"
    "selections (config_merged_with a b) = selections_merged_with (selections a) (selections b)"
    "mounts (config_merged_with a b) = bt_extend (mounts a) (mounts b)"
    "routes (config_merged_with a b) = bt_extend (routes a) (routes b)"
    by (simp_all add: config_merged_with_def merge_config_def Let_def)
  have "config_look (config_merged_with a b) i = option_or (config_look b i) (config_look a i)"
    using assms
    by (cases i) (simp_all add: fields read_config_merged remotes_merged_with_def selections_merged_with_def
        bt_get_extend_ok config_ok_def map_option_or)
  then show ?thesis by (simp add: option_or_def)
qed

interpretation layers: layered config_ok config_merged_with config_default config_look
proof
  show "config_ok config_default" by (simp add: config_ok_def config_default_def)
  show "config_look config_default i = None" for i
  proof (cases i)
    case (ISetting k)
    then show ?thesis by (cases k) (simp_all add: config_default_def)
  qed (simp_all add: config_default_def bt_get_def)
  show "config_ok (config_merged_with a b)" if "config_ok a" "config_ok b" for a b :: "'a config"
    using that by (simp add: config_ok_def config_merged_with_def merge_config_def Let_def bt_extend_ok
        remotes_merged_with_def selections_merged_with_def)
  show "config_look (config_merged_with a b) i = (case config_look b i of Some v \<Rightarrow> Some v | None \<Rightarrow> config_look a i)"
    if "config_ok a" "config_ok b" for a b :: "'a config" and i
    using that by (rule look_config_merged)
qed

section \<open>Valid values\<close>

definition decimal :: "str \<Rightarrow> nat" where
  "decimal s = foldl (\<lambda>n c. n * 10 + unat (c - 48)) 0 s"

lemma decimal_grows: "n \<le> foldl (\<lambda>n c. n * 10 + unat (c - 48)) n s"
proof (induction s arbitrary: n)
  case (Cons c s)
  show ?case using Cons [of "n * 10 + unat (c - 48)"] by simp
qed simp

lemma parse_digits_Ok:
  "acc \<le> m \<Longrightarrow> parse_digits m acc s = Ok n \<longleftrightarrow>
     list_all is_ascii_digit s \<and> n = foldl (\<lambda>n c. n * 10 + unat (c - 48)) acc s \<and> n \<le> m"
proof (induction s arbitrary: acc)
  case Nil
  then show ?case by auto
next
  case (Cons c s)
  let ?a = "acc * 10 + unat (c - 48)"
  show ?case
  proof (cases "?a \<le> m")
    case True
    then show ?thesis using Cons.IH [OF True] by auto
  next
    case False
    then have "\<not> foldl (\<lambda>n c. n * 10 + unat (c - 48)) ?a s \<le> m"
      using decimal_grows [of ?a s] by simp
    with False show ?thesis by auto
  qed
qed

lemma parse_unsigned_digits:
  assumes "s \<noteq> []" "list_all is_ascii_digit s"
  shows "parse_unsigned m s = Ok n \<longleftrightarrow> n = decimal s \<and> n \<le> m"
proof -
  have "hd s \<noteq> 43" "hd s \<noteq> 45"
    using assms by (cases s; auto simp: is_ascii_digit_def)+
  then have "parse_unsigned m s = parse_digits m 0 s"
    using assms(1) by (auto simp: parse_unsigned_def)
  then show ?thesis using assms(2) parse_digits_Ok [of 0 m s n] by (simp add: decimal_def)
qed

lemma bounded_parse_Ok:
  "bounded_parse mx key [s] = Ok w \<longleftrightarrow>
     s \<noteq> [] \<and> list_all is_ascii_digit s \<and> decimal s = unat w \<and> 1 \<le> unat w \<and> unat w \<le> unat mx"
proof (cases "s \<noteq> [] \<and> list_all is_ascii_digit s")
  case False
  then show ?thesis by (auto simp: bounded_parse_def scalar_value_def Let_def)
next
  case True
  show ?thesis
  proof (cases "parse_unsigned (2 ^ 32 - 1) s")
    case (Inl e)
    then have big: "\<not> decimal s \<le> 2 ^ 32 - 1" using True parse_unsigned_digits [of s "2 ^ 32 - 1" "decimal s"] by auto
    have "unat w < 2 ^ 32" using unsigned_less [of w] by simp
    with big Inl True show ?thesis by (auto simp: bounded_parse_def scalar_value_def Let_def)
  next
    case (Inr n)
    then have n: "n = decimal s" "n \<le> 2 ^ 32 - 1" using True parse_unsigned_digits by blast+
    then have u: "unat (of_nat n :: 32 word) = n" by (simp add: unat_of_nat)
    have "bounded_parse mx key [s] = ok_or (InvalidSettingValue key OutOfRange)
        (case bounded_new mx (of_nat n) of Inl _ \<Rightarrow> None | Inr v \<Rightarrow> Some v)"
      using True Inr by (simp add: bounded_parse_def scalar_value_def Let_def)
    moreover have "(of_nat n :: 32 word) = 0 \<longleftrightarrow> n = 0" using u unat_eq_zero by metis
    moreover have "(of_nat n > mx) = (n > unat mx)" using u by (simp add: word_less_nat_alt)
    moreover have "w = of_nat n \<longleftrightarrow> unat w = n" using u word_unat_eq_iff by metis
    ultimately show ?thesis using True n(1) by (auto simp: bounded_new_def)
  qed
qed

fun valid_assignment :: "setting_assignment \<Rightarrow> bool" where
  "valid_assignment (SetCacheLocation l) = (l \<noteq> CacheLocation (Unicode []))"
| "valid_assignment (SetMaterialization s) = (modes s \<noteq> [] \<and> distinct (modes s))"
| "valid_assignment (SetShardLevels l) = (levels_get l \<le> 2)"
| "valid_assignment (SetIgnorePatterns ps) =
     list_all (\<lambda>p. case p of GitIgnorePattern t \<Rightarrow> CR \<notin> set t \<and> LF \<notin> set t \<and> \<not> prefix (lit ''!'') t) ps"
| "valid_assignment (SetReadiness w) = (1 \<le> unat w \<and> unat w \<le> 86400)"
| "valid_assignment (SetOperation w) = (1 \<le> unat w \<and> unat w \<le> 86400)"
| "valid_assignment (SetIo w) = (1 \<le> unat w \<and> unat w \<le> 86400)"
| "valid_assignment (SetRequests w) = (1 \<le> unat w \<and> unat w \<le> 65535)"
| "valid_assignment _ = True"

text \<open>
  The texts that spell a value: a number is spelled in decimal digits, leading zeros allowed, and a
  shard depth may have a plus sign.
\<close>

definition digits_of :: "nat \<Rightarrow> str \<Rightarrow> bool" where
  "digits_of n s \<longleftrightarrow> s \<noteq> [] \<and> list_all is_ascii_digit s \<and> decimal s = n"

definition only_text :: "(str \<Rightarrow> bool) \<Rightarrow> str list \<Rightarrow> bool" where
  "only_text P vs = (case vs of [s] \<Rightarrow> P s | _ \<Rightarrow> False)"

definition bool_text :: "bool \<Rightarrow> str" where
  "bool_text b = (if b then lit ''true'' else lit ''false'')"

fun spelled :: "setting_assignment \<Rightarrow> str list \<Rightarrow> bool" where
  "spelled (SetCacheLocation l) vs = only_text (\<lambda>s. l = CacheLocation (Unicode s)) vs"
| "spelled (SetMaterialization st) vs = (vs = map mode_as_str (modes st))"
| "spelled (SetIngest i) vs = (vs = [ingest_as_str i])"
| "spelled (SetTrustState b) vs = (vs = [bool_text b])"
| "spelled (SetAutoFetch b) vs = (vs = [bool_text b])"
| "spelled (SetAutoRepair b) vs = (vs = [bool_text b])"
| "spelled (SetShardLevels l) vs =
     only_text (\<lambda>s. digits_of (unat (levels_get l)) (if prefix (lit ''+'') s then tl s else s)) vs"
| "spelled (SetIgnorePatterns ps) vs = (ps = map GitIgnorePattern vs)"
| "spelled (SetReadiness w) vs = only_text (digits_of (unat w)) vs"
| "spelled (SetOperation w) vs = only_text (digits_of (unat w)) vs"
| "spelled (SetIo w) vs = only_text (digits_of (unat w)) vs"
| "spelled (SetRequests w) vs = only_text (digits_of (unat w)) vs"

lemma only_text_iff: "only_text P vs \<longleftrightarrow> (\<exists>s. vs = [s] \<and> P s)"
  by (auto simp: only_text_def split: list.splits)

lemma scalar_value_Ok: "scalar_value key vs = Ok s \<longleftrightarrow> vs = [s]"
  by (auto simp: scalar_value_def split: list.splits)

lemma scalar_then: "and_then (scalar_value key vs) f = Ok y \<longleftrightarrow> only_text (\<lambda>s. f s = Ok y) vs"
  by (auto simp: result_elims scalar_value_Ok only_text_iff)

lemma either_text:
  "T \<noteq> F \<Longrightarrow> (if s = T then Ok True else if s = F then Ok False else Err e) = Ok b \<longleftrightarrow> s = (if b then T else F)"
  by auto

lemma bool_parse_spelled: "bool_parse key vs = Ok b \<longleftrightarrow> vs = [bool_text b]"
proof -
  have ne: "lit ''true'' \<noteq> lit ''false''" by simp
  show ?thesis
    unfolding bool_parse_def scalar_then only_text_iff either_text [OF ne] bool_text_def by blast
qed

lemma bounded_parse_spelled:
  "bounded_parse mx key vs = Ok w \<longleftrightarrow> 1 \<le> unat w \<and> unat w \<le> unat mx \<and> only_text (digits_of (unat w)) vs"
proof (cases "\<exists>s. vs = [s]")
  case True
  then show ?thesis using bounded_parse_Ok [of mx key _ w] by (auto simp: only_text_iff digits_of_def)
next
  case False
  then show ?thesis by (auto simp: bounded_parse_def result_elims scalar_value_Ok only_text_iff)
qed

lemma parse_unsigned_Ok:
  "parse_unsigned m s = Ok n \<longleftrightarrow> n \<le> m \<and> digits_of n (if prefix (lit ''+'') s then tl s else s)"
proof (cases "prefix (lit ''+'') s")
  case True
  then obtain r where "s = 43 # r" by (cases s) auto
  then show ?thesis using parse_digits_Ok [of 0 m r n] by (auto simp: parse_unsigned_def digits_of_def decimal_def)
next
  case False
  then have "hd s \<noteq> 43" if "s \<noteq> []" using that by (cases s) auto
  then show ?thesis
    using False parse_digits_Ok [of 0 m s n]
    by (auto simp: parse_unsigned_def digits_of_def decimal_def is_ascii_digit_def)
qed

lemma validate_shard_levels_Ok: "validate_shard_levels n = Ok l \<longleftrightarrow> l = Levels n \<and> n \<le> 2"
proof -
  have "n \<le> 4" if "n \<le> 2" using that by (rule order_trans) simp
  then show ?thesis
    by (auto simp: validate_shard_levels_def levels_new_def MAX_SHARD_LEVELS_def LEVELS_MAX_def result_elims
        not_le [symmetric] split: if_splits)
qed

lemma parse_shard_levels_Ok:
  "parse_shard_levels s = Ok l \<longleftrightarrow>
     levels_get l \<le> 2 \<and> digits_of (unat (levels_get l)) (if prefix (lit ''+'') s then tl s else s)"
proof
  assume "parse_shard_levels s = Ok l"
  then show "levels_get l \<le> 2 \<and> digits_of (unat (levels_get l)) (if prefix (lit ''+'') s then tl s else s)"
    by (auto simp: parse_shard_levels_def result_elims parse_unsigned_Ok validate_shard_levels_Ok unat_of_nat)
  next
  assume h: "levels_get l \<le> 2 \<and> digits_of (unat (levels_get l)) (if prefix (lit ''+'') s then tl s else s)"
  have "unat (levels_get l) < 2 ^ 8" using unsigned_less [of "levels_get l"] by simp
  then have "unat (levels_get l) \<le> 255" by simp
  with h have "parse_unsigned 255 s = Ok (unat (levels_get l))" by (simp add: parse_unsigned_Ok)
  then show "parse_shard_levels s = Ok l"
    using h by (simp add: parse_shard_levels_def validate_shard_levels_Ok)
qed

lemma mode_from_str_Ok: "mode_from_str s = Ok m \<longleftrightarrow> s = mode_as_str m"
  by (cases m) (auto simp: mode_from_str_def)

lemma ingest_from_str_Ok: "ingest_from_str s = Ok i \<longleftrightarrow> s = ingest_as_str i"
  by (cases i) (auto simp: ingest_from_str_def INGEST_ALL_def)

lemma try_map_inverse:
  assumes "\<And>x y. f x = Ok y \<longleftrightarrow> x = g y"
  shows "try_map f xs = Ok ys \<longleftrightarrow> xs = map g ys"
  unfolding try_map_Inr assms by (auto simp: list_all2_conv_all_nth list_eq_iff_nth_eq)

lemma validate_modes_Ok: "validate_modes seen ms = Ok () \<longleftrightarrow> distinct ms \<and> set seen \<inter> set ms = {}"
  by (induction seen ms rule: validate_modes.induct) auto

lemma strategy_from_values_Ok:
  "strategy_from_values vs = Ok st \<longleftrightarrow> modes st \<noteq> [] \<and> distinct (modes st) \<and> vs = map mode_as_str (modes st)"
  by (cases st) (auto simp: strategy_from_values_def strategy_validate_def validate_modes_Ok result_elims
      try_map_inverse [OF mode_from_str_Ok] split: if_splits)

lemma git_ignore_parse_Ok:
  "git_ignore_parse s = Ok p \<longleftrightarrow> p = GitIgnorePattern s \<and> CR \<notin> set s \<and> LF \<notin> set s \<and> \<not> prefix (lit ''!'') s"
  by (auto simp: git_ignore_parse_def)

lemma ignore_patterns_Ok:
  "validate_ignore_patterns vs = Ok ps \<longleftrightarrow> ps = map GitIgnorePattern vs \<and> valid_assignment (SetIgnorePatterns ps)"
  unfolding validate_ignore_patterns_def map_err_eq_Inr try_map_Inr git_ignore_parse_Ok
  by (auto simp: list_all2_conv_all_nth list_eq_iff_nth_eq list_all_length)

lemma cache_location_Ok:
  "cache_location_parse key vs = Ok l \<longleftrightarrow>
     l \<noteq> CacheLocation (Unicode []) \<and> only_text (\<lambda>s. l = CacheLocation (Unicode s)) vs"
proof -
  have "cache_location_try_from_path (Unicode s) = Ok l \<longleftrightarrow> s \<noteq> [] \<and> l = CacheLocation (Unicode s)" for s
    by (cases s) (auto simp: cache_location_try_from_path_def)
  then show ?thesis
    unfolding cache_location_parse_def scalar_then only_text_iff by (auto simp: result_elims)
qed

lemmas parsed_values = map_ok_eq_Inr cache_location_Ok strategy_from_values_Ok bool_parse_spelled bounded_parse_spelled
  ignore_patterns_Ok ingest_parse_def shard_levels_parse_def scalar_then parse_shard_levels_Ok ingest_from_str_Ok only_text_iff

section \<open>Properties\<close>

text \<open>
  Layering. In the merge of any number of layers, lowest precedence first, every setting, every
  default choice and every named definition has the value of the last layer that has one, and
  none when no layer has one; named definitions are taken whole. The merge keeps the maps ordered.
\<close>

theorem merge_layers_latest:
  assumes "list_all config_ok layers"
  shows "config_ok (merge_layers layers)
    \<and> (config_look (merge_layers layers) item = Some v \<longleftrightarrow>
        (\<exists>before c after. layers = before @ c # after \<and> config_look c item = Some v
           \<and> (\<forall>d \<in> set after. config_look d item = None)))"
  unfolding merge_layers_def using layers.fold_ok [OF assms] layers.look_fold [OF assms] by blast

definition sample_layer :: "bool option \<Rightarrow> (string \<times> string) list \<Rightarrow> unit config" where
  "sample_layer trust rs = config_default\<lparr>sync := \<lparr>trust_state = trust, auto_fetch = None, auto_repair = None\<rparr>,
     remotes := \<lparr>r_default = None, r_by_name = map (\<lambda>(n, u). (lit n, lit u)) rs\<rparr>\<rparr>"

lemma merge_layers_latest_witness:
  "config_look (merge_layers [sample_layer (Some True) [(''r'', ''s3'')], sample_layer (Some False) [], sample_layer None [(''q'', ''fs'')]])
     (ISetting SyncTrustState) = Some (VSetting (SetTrustState False))"
proof -
  let ?ls = "[sample_layer (Some True) [(''r'', ''s3'')], sample_layer (Some False) [], sample_layer None [(''q'', ''fs'')]]"
  have "list_all config_ok ?ls"
    by (simp add: config_ok_def sample_layer_def config_default_def bt_ok_def)
  from conjunct2 [OF merge_layers_latest [OF this]] show ?thesis
    by (rule iffD2) (rule exI [of _ "[sample_layer (Some True) [(''r'', ''s3'')]]"], rule exI [of _ "sample_layer (Some False) []"],
        rule exI [of _ "[sample_layer None [(''q'', ''fs'')]]"], simp add: sample_layer_def)
qed

text \<open>
  Reading after writing, for a configuration and for a partial layer alike: after any sequence
  of assignments a key reads the last assignment to it, else what it read before; unsetting clears
  one key. A layer taken from a configuration reads the same, applying a layer overrides exactly
  the keys it has, and the resolved settings are the configured values over the defaults.
\<close>

theorem settings_read_after_write:
  "read k (foldl (\<lambda>s a. assignment_apply a s) c as) =
      (case find (\<lambda>a. assignment_key a = k) (rev as) of Some a \<Rightarrow> Some a | None \<Rightarrow> read k c)
   \<and> layer_get k (foldl (\<lambda>s a. layer_set a s) l as) =
      (case find (\<lambda>a. assignment_key a = k) (rev as) of Some a \<Rightarrow> Some a | None \<Rightarrow> layer_get k l)
   \<and> read k (unset j c) = (if k = j then None else read k c)
   \<and> layer_get k (layer_from_config c) = read k c
   \<and> read k (layer_apply_to l c) = (case layer_get k l of Some a \<Rightarrow> Some a | None \<Rightarrow> read k c)
   \<and> effective_get k (effective_from_config c) = (case read k c of Some a \<Rightarrow> Some a | None \<Rightarrow> default_value k)
   \<and> effective_network (effective_from_config c) = network_resolve (network c)"
  using cfg.get_put_all [where k = k and as = as and s = c] layer.get_put_all [where k = k and as = as and s = l] read_unset [of k j c]
    layer_get_from_config [of k c] layer_apply_to_read [of k l c] effective_get_eq [of k c]
  by (simp add: option_or_def effective_network_def network_resolve_def effective_from_config_def)

text \<open>
  C21: parsing a setting succeeds exactly on the spellings of the valid values of the key asked for, and
  gives that value. So a number, be it a timeout, the request count or the shard depth, is the decimal
  value of all its digits, however many, and is refused when that is out of its range: nothing wraps
  around. A strategy lists distinct modes and at least one, a Boolean is \<open>true\<close> or \<open>false\<close>, patterns are
  single lines that do not negate, a cache location is not empty.
\<close>

theorem parsed_settings_valid:
  "parse_values k vs = Ok a \<longleftrightarrow> assignment_key a = k \<and> valid_assignment a \<and> spelled a vs"
proof (cases k)
  case LockShardLevelsKey
  then show ?thesis by (cases a) (auto simp: parsed_values)
qed (cases a; auto simp: parsed_values TIMEOUT_MAX_def CONCURRENCY_MAX_def simp del: One_nat_def)+

end
