(* ===== verification/PathPolicy.thy ===== *)
theory PathPolicy
  imports Settings
begin

text \<open>
  The compiled path policy of an operation (\<open>gat-engine/src/path_policy.rs\<close>,
  \<open>gat-engine/src/remote_catalog.rs\<close>): identity ranges, the remote catalog, the prefix index of
  mounts and routes and the resolution of a path's owner and remote. A \<open>HashMap\<close> whose order is
  never observed is an ordered map. What the policy asks of a prefix index is the locale
  \<open>prefix_index\<close>; the indexed walk over ancestors and the linear scan of the configuration both
  satisfy it, so they agree.
\<close>

section \<open>Identities\<close>

datatype remote_identity_error = ForeignOwner | Exhausted

record identity_range =
  ir_start :: nat
  ir_len :: nat

text \<open>\<open>fetch_update\<close> on the process-wide counter, a \<open>usize\<close> of 64 bits.\<close>

definition allocate :: "nat \<Rightarrow> nat \<Rightarrow> nat \<times> (remote_identity_error + identity_range)" where
  "allocate len next_id =
     (if next_id + max len 1 < 2 ^ 64
      then (next_id + max len 1, Ok \<lparr>ir_start = next_id, ir_len = len\<rparr>)
      else (next_id, Err Exhausted))"

definition range_id :: "identity_range \<Rightarrow> nat \<Rightarrow> nat" where
  "range_id self index = ir_start self + index"

definition range_index :: "identity_range \<Rightarrow> nat \<Rightarrow> remote_identity_error + nat" where
  "range_index self i =
     (if ir_start self \<le> i \<and> i - ir_start self < ir_len self then Ok (i - ir_start self) else Err ForeignOwner)"

section \<open>The remote catalog\<close>

datatype remote_id = RemoteId (remote_id_value: nat)

datatype remote_catalog_error =
    IdentityError remote_identity_error
  | UnknownDefaultRemote str
  | NoRemoteConfigured
  | UnknownOverride str

record remote_spec =
  spec_name :: str
  spec_url :: remote_url_template

record remote_catalog =
  rc_identities :: identity_range
  rc_specs :: "remote_spec list"
  rc_by_name :: "(str \<times> remote_id) list"
  rc_default :: "remote_id option"

definition catalog_specs :: "remotes_config \<Rightarrow> remote_spec list" where
  "catalog_specs rcfg = map (\<lambda>(name, url). \<lparr>spec_name = name, spec_url = url\<rparr>) (r_by_name rcfg)"

definition catalog_by_name :: "identity_range \<Rightarrow> remote_spec list \<Rightarrow> (str \<times> remote_id) list" where
  "catalog_by_name identities specs =
     bt_extend [] (map (\<lambda>(i, spec). (spec_name spec, RemoteId (range_id identities i))) (List.enumerate 0 specs))"

definition catalog_from_config :: "remotes_config \<Rightarrow> nat \<Rightarrow> nat \<times> (remote_catalog_error + remote_catalog)" where
  "catalog_from_config rcfg next_id =
     (let specs = catalog_specs rcfg in
      case allocate (length specs) next_id of
        (next_id, Inl e) \<Rightarrow> (next_id, Err (IdentityError e))
      | (next_id, Inr identities) \<Rightarrow>
          (let by_name = catalog_by_name identities specs in
           case r_default rcfg of
             None \<Rightarrow> (next_id, Ok \<lparr>rc_identities = identities, rc_specs = specs, rc_by_name = by_name, rc_default = None\<rparr>)
           | Some name \<Rightarrow>
               (case bt_get by_name name of
                  None \<Rightarrow> (next_id, Err (UnknownDefaultRemote name))
                | Some i \<Rightarrow> (next_id, Ok \<lparr>rc_identities = identities, rc_specs = specs, rc_by_name = by_name,
                                        rc_default = Some i\<rparr>))))"

definition id_of :: "remote_catalog \<Rightarrow> remote_name \<Rightarrow> remote_id option" where
  "id_of self name = bt_get (rc_by_name self) name"

definition catalog_remote_name :: "remote_catalog \<Rightarrow> remote_id \<Rightarrow> remote_identity_error + remote_name" where
  "catalog_remote_name self i =
     and_then (range_index (rc_identities self) (remote_id_value i)) (\<lambda>index. Ok (spec_name (rc_specs self ! index)))"

definition catalog_validate_id :: "remote_catalog \<Rightarrow> remote_id \<Rightarrow> remote_identity_error + unit" where
  "catalog_validate_id self i = map_ok (\<lambda>_. ()) (range_index (rc_identities self) (remote_id_value i))"

text \<open>A foreign identity is a panic (\<open>None\<close>).\<close>

definition catalog_url :: "remote_catalog \<Rightarrow> remote_id \<Rightarrow> remote_url_template option" where
  "catalog_url self i =
     (case range_index (rc_identities self) (remote_id_value i) of
        Inl _ \<Rightarrow> None | Inr index \<Rightarrow> Some (spec_url (rc_specs self ! index)))"

definition catalog_resolve :: "remote_catalog \<Rightarrow> remote_name option \<Rightarrow> remote_catalog_error + remote_id" where
  "catalog_resolve self explicit =
     (case explicit of
        Some name \<Rightarrow> ok_or (UnknownOverride name) (id_of self name)
      | None \<Rightarrow> ok_or NoRemoteConfigured (rc_default self))"

section \<open>The prefix index\<close>

text \<open>\<open>str::rfind('/')\<close>\<close>

definition rfind_slash :: "str \<Rightarrow> nat option" where
  "rfind_slash s =
     (if SLASH \<in> set s then Some (length s - Suc (length (takeWhile (\<lambda>b. b \<noteq> SLASH) (rev s)))) else None)"

lemma rfind_slash_less [termination_simp]: "rfind_slash s = Some i \<Longrightarrow> i < length s"
  by (cases s) (auto simp: rfind_slash_def split: if_splits)

function ancestor_prefixes :: "str \<Rightarrow> str list" where
  "ancestor_prefixes path =
     path # (case rfind_slash path of None \<Rightarrow> [] | Some i \<Rightarrow> ancestor_prefixes (take i path))"
  by pat_completeness auto

termination
  by (relation "measure length") (auto dest: rfind_slash_less)

declare ancestor_prefixes.simps [simp del]

type_synonym 'v path_prefix_map = "(gat_path \<times> 'v) list"

fun probe :: "'v path_prefix_map \<Rightarrow> str list \<Rightarrow> (gat_path \<times> 'v) option" where
  "probe entries [] = None"
| "probe entries (p # ps) =
     (case bt_get entries (GatPath p) of
        Some value \<Rightarrow> Some (GatPath p, value)
      | None \<Rightarrow> probe entries ps)"

definition longest_prefix :: "'v path_prefix_map \<Rightarrow> gat_path \<Rightarrow> (gat_path \<times> 'v) option" where
  "longest_prefix entries path =
     (if entries = [] then None else probe entries (ancestor_prefixes (as_str path)))"

section \<open>The policy\<close>

datatype path_policy_error =
    PolicyConfig config_error
  | PolicyIdentity remote_identity_error
  | UnknownRouteRemote str str str
  | UnknownDefault str

type_synonym mount_ownership = "mount_name path_prefix_map"

definition ownership_new :: "(mount_name \<times> 'p mount_config) list \<Rightarrow> path_policy_error + mount_ownership" where
  "ownership_new ms =
     and_then (map_err PolicyConfig (mounts_validate_effective ms)) (\<lambda>_.
       Ok (bt_extend [] (map (\<lambda>(name, mount). (m_target mount, name)) ms)))"

definition ownership_owner :: "mount_ownership \<Rightarrow> gat_path \<Rightarrow> (mount_name \<times> gat_path) option" where
  "ownership_owner self path = map_option (\<lambda>(target, name). (name, target)) (longest_prefix self path)"

datatype route_id = RouteId (route_id_value: nat)

record route_descriptor =
  rd_name :: route_name
  rd_path :: gat_path

record compiled_route =
  cr_id :: route_id
  cr_remote_id :: remote_id

record path_policy =
  pp_route_identities :: identity_range
  pp_mounts :: mount_ownership
  pp_routes :: "compiled_route path_prefix_map"
  pp_descriptors :: "route_descriptor list"
  pp_default :: "remote_id option"

record resolved_remote =
  rr_id :: remote_id
  rr_route :: "route_id option"

definition from_explicit_name :: "remote_catalog \<Rightarrow> remote_name \<Rightarrow> str + resolved_remote" where
  "from_explicit_name catalog name =
     map_ok (\<lambda>i. \<lparr>rr_id = i, rr_route = None\<rparr>) (ok_or name (id_of catalog name))"

definition from_compiled :: "remote_id \<Rightarrow> route_id option \<Rightarrow> resolved_remote" where
  "from_compiled i route = \<lparr>rr_id = i, rr_route = route\<rparr>"

fun compile_routes ::
  "remote_catalog \<Rightarrow> identity_range \<Rightarrow> (route_name \<times> route_config) list
     \<Rightarrow> compiled_route path_prefix_map \<Rightarrow> route_descriptor list
     \<Rightarrow> path_policy_error + compiled_route path_prefix_map \<times> route_descriptor list" where
  "compile_routes catalog identities [] rmap descriptors = Ok (rmap, descriptors)"
| "compile_routes catalog identities ((name, route) # rest) rmap descriptors =
     (case id_of catalog (rt_remote route) of
        None \<Rightarrow> Err (UnknownRouteRemote name (as_str (rt_path route)) (rt_remote route))
      | Some remote \<Rightarrow>
          compile_routes catalog identities rest
            (bt_insert (rt_path route)
               \<lparr>cr_id = RouteId (range_id identities (length descriptors)), cr_remote_id = remote\<rparr> rmap)
            (descriptors @ [\<lparr>rd_name = name, rd_path = rt_path route\<rparr>]))"

definition policy_from_config ::
  "'p config \<Rightarrow> remote_catalog \<Rightarrow> nat \<Rightarrow> nat \<times> (path_policy_error + path_policy)" where
  "policy_from_config config catalog next_id =
     (case routes_validate_effective (routes config) of
        Inl e \<Rightarrow> (next_id, Err (PolicyConfig e))
      | Inr _ \<Rightarrow>
          (case allocate (length (routes config)) next_id of
             (next_id, Inl e) \<Rightarrow> (next_id, Err (PolicyIdentity e))
           | (next_id, Inr identities) \<Rightarrow>
               (next_id,
                and_then (ownership_new (mounts config)) (\<lambda>owned.
                and_then (compile_routes catalog identities (routes config) [] []) (\<lambda>(rmap, descriptors).
                and_then
                  (case r_default (remotes config) of
                     None \<Rightarrow> Ok None
                   | Some name \<Rightarrow> map_ok Some (ok_or (UnknownDefault name) (id_of catalog name)))
                  (\<lambda>default_id.
                     Ok \<lparr>pp_route_identities = identities, pp_mounts = owned, pp_routes = rmap,
                         pp_descriptors = descriptors, pp_default = default_id\<rparr>))))))"

definition policy_route_name :: "path_policy \<Rightarrow> resolved_remote \<Rightarrow> remote_identity_error + route_name option" where
  "policy_route_name self remote =
     (case rr_route remote of
        None \<Rightarrow> Ok None
      | Some i \<Rightarrow> map_ok (\<lambda>index. Some (rd_name (pp_descriptors self ! index)))
                   (range_index (pp_route_identities self) (route_id_value i)))"

definition policy_validate_remote :: "path_policy \<Rightarrow> resolved_remote \<Rightarrow> remote_identity_error + unit" where
  "policy_validate_remote self remote =
     (case rr_route remote of
        Some i \<Rightarrow> map_ok (\<lambda>_. ()) (range_index (pp_route_identities self) (route_id_value i))
      | None \<Rightarrow> Ok ())"

definition owner_for_path :: "path_policy \<Rightarrow> gat_path \<Rightarrow> (mount_name \<times> gat_path) option" where
  "owner_for_path self path = ownership_owner (pp_mounts self) path"

definition resolved_remote_for_path ::
  "path_policy \<Rightarrow> remote_catalog \<Rightarrow> remote_name option \<Rightarrow> gat_path \<Rightarrow> str + resolved_remote option" where
  "resolved_remote_for_path self catalog explicit path =
     (case explicit of
        Some name \<Rightarrow> map_ok Some (from_explicit_name catalog name)
      | None \<Rightarrow>
          (case longest_prefix (pp_routes self) path of
             Some (_, rmap) \<Rightarrow> Ok (Some (from_compiled (cr_remote_id rmap) (Some (cr_id rmap))))
           | None \<Rightarrow> Ok (map_option (\<lambda>i. from_compiled i None) (pp_default self))))"

section \<open>The ancestors of a path\<close>

lemma rfind_slash_cases:
  obtains (none) "rfind_slash p = None" "SLASH \<notin> set p"
  | (some) i r where "rfind_slash p = Some i" "p = take i p @ SLASH # r" "SLASH \<notin> set r"
proof (cases "SLASH \<in> set p")
  case True
  then obtain a r where p: "p = a @ SLASH # r" "SLASH \<notin> set r" using split_list_last by metis
  then have "takeWhile (\<lambda>b. b \<noteq> SLASH) (rev p) = rev r" by (simp add: takeWhile_append)
  then have "rfind_slash p = Some (length a)" using True by (simp add: rfind_slash_def p)
  then show ?thesis using some p by simp
next
  case False
  then show ?thesis using none by (simp add: rfind_slash_def)
qed

lemma set_ancestor_prefixes: "set (ancestor_prefixes p) = insert p {q. is_directory_prefix q p}"
proof (induction p rule: ancestor_prefixes.induct)
  case (1 p)
  show ?case
  proof (cases p rule: rfind_slash_cases)
    case none
    then have "\<not> is_directory_prefix q p" for q by (auto simp: is_directory_prefix_iff)
    then show ?thesis using none by (simp add: ancestor_prefixes.simps [of p])
  next
    case (some i r)
    have "is_directory_prefix q p \<longleftrightarrow> q = take i p \<or> is_directory_prefix q (take i p)" for q
    proof
      assume "is_directory_prefix q p"
      then obtain t where t: "take i p @ SLASH # r = q @ SLASH # t" using some(2) by (auto simp: is_directory_prefix_iff)
      then show "q = take i p \<or> is_directory_prefix q (take i p)"
        using some(3) by (auto simp: append_eq_append_conv2 Cons_eq_append_conv append_eq_Cons_conv is_directory_prefix_iff)
    next
      assume "q = take i p \<or> is_directory_prefix q (take i p)"
      then show "is_directory_prefix q p"
        using some(2) by (metis append.assoc append_Cons is_directory_prefix_iff)
    qed
    then show ?thesis using some(1) 1 by (simp add: ancestor_prefixes.simps [of p] insert_commute set_eq_iff)
  qed
qed

lemma ancestor_prefixes_shrink: "sorted_wrt (\<lambda>a b. length b < length a) (ancestor_prefixes p)"
proof (induction p rule: ancestor_prefixes.induct)
  case (1 p)
  have "\<forall>q \<in> set (ancestor_prefixes (take i p)). length q < length p" if "rfind_slash p = Some i" for i
    using rfind_slash_less [OF that] is_directory_prefix_strict prefix_length_less
    by (fastforce simp: set_ancestor_prefixes)
  then show ?case using 1 by (auto simp: ancestor_prefixes.simps [of p] split: option.split)
qed

lemma probe_None: "probe entries ps = None \<longleftrightarrow> (\<forall>p \<in> set ps. bt_get entries (GatPath p) = None)"
  by (induction ps) (auto split: option.split)

lemma probe_Some:
  "probe entries ps = Some (k, v) \<Longrightarrow> sorted_wrt (\<lambda>a b. length b < length a) ps \<Longrightarrow>
     as_str k \<in> set ps \<and> bt_get entries k = Some v
     \<and> (\<forall>p \<in> set ps. bt_get entries (GatPath p) \<noteq> None \<longrightarrow> length p \<le> length (as_str k))"
  by (induction ps) (fastforce split: option.splits)+

section \<open>The contract of a prefix index\<close>

text \<open>
  A container of the entries \<open>items m\<close>, at most one per path: a lookup finds the configured
  ancestor-or-self that lies under all the others, and fails only when there is none.
\<close>

locale prefix_index =
  fixes lookup :: "'m \<Rightarrow> gat_path \<Rightarrow> (gat_path \<times> 'v) option"
    and ok :: "'m \<Rightarrow> bool"
    and items :: "'m \<Rightarrow> (gat_path \<times> 'v) set"
  assumes single: "ok m \<Longrightarrow> (k, v) \<in> items m \<Longrightarrow> (k, v') \<in> items m \<Longrightarrow> v = v'"
    and found: "ok m \<Longrightarrow> lookup m p = Some (k, v) \<Longrightarrow> (k, v) \<in> items m \<and> is_or_under p k
      \<and> (\<forall>(k', v') \<in> items m. is_or_under p k' \<longrightarrow> is_or_under k k')"
    and missing: "ok m \<Longrightarrow> lookup m p = None \<Longrightarrow> (k, v) \<in> items m \<Longrightarrow> \<not> is_or_under p k"
begin

definition best :: "'m \<Rightarrow> gat_path \<Rightarrow> gat_path \<Rightarrow> 'v \<Rightarrow> bool" where
  "best m p k v \<longleftrightarrow> (k, v) \<in> items m \<and> is_or_under p k
     \<and> (\<forall>(k', v') \<in> items m. is_or_under p k' \<longrightarrow> is_or_under k k')"

lemma lookup_iff:
  assumes "ok m"
  shows "lookup m p = Some (k, v) \<longleftrightarrow> best m p k v"
proof
  assume "lookup m p = Some (k, v)"
  then show "best m p k v" using found [OF assms] by (simp add: best_def)
next
  assume b: "best m p k v"
  then have "lookup m p \<noteq> None" using missing [OF assms, of p k v] unfolding best_def by blast
  then obtain k' v' where l: "lookup m p = Some (k', v')" by auto
  with found [OF assms] b have "k = k'"
    by (fastforce simp: best_def intro: is_or_under_antisym)
  moreover have "v = v'" using found [OF assms l] b single [OF assms] by (auto simp: best_def \<open>k = k'\<close>)
  ultimately show "lookup m p = Some (k, v)" using l by simp
qed

end

text \<open>Two indexes over corresponding items give corresponding answers.\<close>

locale prefix_index_pair =
  a: prefix_index lookup\<^sub>a ok\<^sub>a items\<^sub>a + b: prefix_index lookup\<^sub>b ok\<^sub>b items\<^sub>b
  for lookup\<^sub>a :: "'m \<Rightarrow> gat_path \<Rightarrow> (gat_path \<times> 'v) option" and ok\<^sub>a items\<^sub>a
    and lookup\<^sub>b :: "'n \<Rightarrow> gat_path \<Rightarrow> (gat_path \<times> 'w) option" and ok\<^sub>b items\<^sub>b
begin

lemma agree:
  assumes "ok\<^sub>a m" "ok\<^sub>b n" "items\<^sub>a m = map_prod id f ` items\<^sub>b n"
  shows "lookup\<^sub>a m p = map_option (map_prod id f) (lookup\<^sub>b n p)"
proof (cases "lookup\<^sub>b n p")
  case None
  then have "\<not> a.best m p k v" for k v
    using b.missing [OF assms(2) None] by (auto simp: a.best_def assms(3))
  then show ?thesis using a.lookup_iff [OF assms(1)] None by (cases "lookup\<^sub>a m p") auto
next
  case (Some kv)
  obtain k v where kv: "kv = (k, v)" by (cases kv)
  have "a.best m p k (f v)"
    using b.found [OF assms(2)] Some by (force simp: kv a.best_def assms(3))
  then show ?thesis using a.lookup_iff [OF assms(1)] Some kv by simp
qed

end

text \<open>The indexed walk.\<close>

interpretation walk: prefix_index longest_prefix bt_ok "set :: 'v path_prefix_map \<Rightarrow> _"
proof
  fix m :: "'v path_prefix_map" and p k :: gat_path and v v'
  assume m: "bt_ok m"
  show "v = v'" if "(k, v) \<in> set m" "(k, v') \<in> set m"
    using that bt_get_Some [OF m] by (metis option.inject)
  show "(k, v) \<in> set m \<and> is_or_under p k \<and> (\<forall>(k', v') \<in> set m. is_or_under p k' \<longrightarrow> is_or_under k k')"
    if "longest_prefix m p = Some (k, v)"
  proof -
    have pr: "probe m (ancestor_prefixes (as_str p)) = Some (k, v)"
      using that by (auto simp: longest_prefix_def split: if_splits)
    note k = probe_Some [OF pr ancestor_prefixes_shrink, unfolded set_ancestor_prefixes]
    have pk: "is_or_under p k" using k by (auto simp: is_or_under_text)
    have "is_or_under k k'" if "(k', v') \<in> set m" "is_or_under p k'" for k' v'
    proof (rule common_ancestors [OF pk that(2)])
      have "bt_get m (GatPath (as_str k')) \<noteq> None" using that(1) bt_get_Some [OF m, of k' v'] by simp
      moreover have "as_str k' \<in> insert (as_str p) {q. is_directory_prefix q (as_str p)}"
        using that(2) by (auto simp: is_or_under_text)
      ultimately show "length (as_str k') \<le> length (as_str k)" using k by blast
    qed
    then show ?thesis using k pk bt_get_Some [OF m] by auto
  qed
  show "\<not> is_or_under p k" if "longest_prefix m p = None" "(k, v) \<in> set m"
  proof
    assume "is_or_under p k"
    moreover have "bt_get m (GatPath (as_str k)) = Some v" using that(2) bt_get_Some [OF m] by simp
    ultimately show False
      using that by (auto simp: longest_prefix_def probe_None set_ancestor_prefixes is_or_under_directory_prefix
          split: if_splits)
  qed
qed

text \<open>The scan of the configured routes.\<close>

definition route_lookup :: "(route_name \<times> route_config) list \<Rightarrow> gat_path \<Rightarrow> (gat_path \<times> route_name \<times> remote_name) option" where
  "route_lookup rs p = map_option (\<lambda>m. (rm_route m, rm_name m, rm_remote m)) (route_for rs p)"

definition route_items :: "(route_name \<times> route_config) list \<Rightarrow> (gat_path \<times> route_name \<times> remote_name) set" where
  "route_items rs = (\<lambda>(n, r). (rt_path r, n, rt_remote r)) ` set rs"

interpretation rscan: prefix_index route_lookup "\<lambda>rs. bt_ok rs \<and> unique_paths rs" route_items
proof
  fix rs :: "(route_name \<times> route_config) list" and p k :: gat_path and v v' :: "route_name \<times> remote_name"
  assume rs: "bt_ok rs \<and> unique_paths rs"
  show "v = v'" if hyp: "(k, v) \<in> route_items rs" "(k, v') \<in> route_items rs"
  proof -
    obtain r r' where r: "(fst v, r) \<in> set rs" "(fst v', r') \<in> set rs" "rt_path r = rt_path r'"
      "snd v = rt_remote r" "snd v' = rt_remote r'"
      using hyp by (cases v; cases v') (auto simp: route_items_def)
    then have "fst v = fst v'" using rs unfolding unique_paths_iff by blast
    moreover from this have "r = r'"
      using r(1,2) rs bt_get_Some [of rs "fst v"] by (metis option.inject)
    ultimately show ?thesis using r by (simp add: prod_eq_iff)
  qed
  show "(k, v) \<in> route_items rs \<and> is_or_under p k \<and> (\<forall>(k', v') \<in> route_items rs. is_or_under p k' \<longrightarrow> is_or_under k k')"
    if "route_lookup rs p = Some (k, v)"
    using that by (cases rs p rule: route_for_cases) (force simp: route_lookup_def route_items_def)+
  show "\<not> is_or_under p k" if "route_lookup rs p = None" "(k, v) \<in> route_items rs"
    using that by (cases rs p rule: route_for_cases) (auto simp: route_lookup_def route_items_def)
qed

text \<open>The scan of the configured mounts.\<close>

definition mount_items :: "(mount_name \<times> 'p mount_config) list \<Rightarrow> (gat_path \<times> mount_name) set" where
  "mount_items ms = (\<lambda>(n, m). (m_target m, n)) ` set ms"

definition mount_lookup :: "(mount_name \<times> 'p mount_config) list \<Rightarrow> gat_path \<Rightarrow> (gat_path \<times> mount_name) option" where
  "mount_lookup ms p = map_option prod.swap (mounts_owner_of ms p)"

lemma overlap_refl [simp]: "overlap a a"
  by (simp add: overlap_def)

lemma common_ancestors_overlap: "is_or_under p a \<Longrightarrow> is_or_under p b \<Longrightarrow> overlap a b"
  using common_ancestors [of p a b] common_ancestors [of p b a] unfolding overlap_def by linarith

interpretation mscan: prefix_index mount_lookup "\<lambda>ms. bt_ok ms \<and> overlap_free ms"
  "mount_items :: (mount_name \<times> 'p mount_config) list \<Rightarrow> _"
proof
  fix ms :: "(mount_name \<times> 'p mount_config) list" and p k :: gat_path and v v' :: mount_name
  assume ms: "bt_ok ms \<and> overlap_free ms"
  then have ov: "n = n'" if "(n, m) \<in> set ms" "(n', m') \<in> set ms" "overlap (m_target m) (m_target m')" for n m n' m'
    using that unfolding overlap_free_iff by blast
  then have same: "n = n' \<and> m = m'"
    if "(n, m) \<in> set ms" "(n', m') \<in> set ms" "overlap (m_target m) (m_target m')" for n m n' m'
    using that ms bt_get_Some [of ms n] by (metis option.inject)
  show "v = v'" if "(k, v) \<in> mount_items ms" "(k, v') \<in> mount_items ms"
    using that ov by (fastforce simp: mount_items_def)
  show "(k, v) \<in> mount_items ms \<and> is_or_under p k \<and> (\<forall>(k', v') \<in> mount_items ms. is_or_under p k' \<longrightarrow> is_or_under k k')"
    if hyp: "mount_lookup ms p = Some (k, v)"
  proof -
    obtain m where f: "find (\<lambda>(_, src). is_or_under p (m_target src)) ms = Some (v, m)" "m_target m = k"
      using hyp by (auto simp: mount_lookup_def mounts_owner_of_def)
    then have m: "(v, m) \<in> set ms" "m_target m = k" "is_or_under p k"
      by (auto simp: find_Some_iff) (metis nth_mem)+
    have "k' = k" if "(k', v') \<in> mount_items ms" "is_or_under p k'" for k' v'
      using that m same common_ancestors_overlap [OF m(3) that(2)] by (fastforce simp: mount_items_def)
    then show ?thesis using m by (force simp: mount_items_def)
  qed
  show "\<not> is_or_under p k" if "mount_lookup ms p = None" "(k, v) \<in> mount_items ms"
    using that by (auto simp: mount_lookup_def mounts_owner_of_def mount_items_def find_None_iff)
qed

interpretation routes_pair: prefix_index_pair route_lookup "\<lambda>rs. bt_ok rs \<and> unique_paths rs" route_items
  longest_prefix bt_ok "set :: 'v path_prefix_map \<Rightarrow> _"
  by unfold_locales

interpretation mounts_pair: prefix_index_pair mount_lookup "\<lambda>ms. bt_ok ms \<and> overlap_free ms"
  "mount_items :: (mount_name \<times> 'p mount_config) list \<Rightarrow> _"
  longest_prefix bt_ok "set :: mount_name path_prefix_map \<Rightarrow> _"
  by unfold_locales

section \<open>What compilation stores\<close>

lemma set_bt_extend: "distinct (map fst xs) \<Longrightarrow> set (bt_extend [] xs) = set xs"
proof -
  assume d: "distinct (map fst xs)"
  have ok: "bt_ok (bt_extend [] xs)" by (simp add: bt_extend_ok)
  have "distinct (map fst (rev xs))" using d by (simp add: rev_map [symmetric])
  moreover have "bt_get (bt_extend [] xs) = map_of (rev xs)"
    by (rule ext) (simp add: bt_get_extend bt_get_def [of "[]"] map_add_def split: option.split)
  ultimately have "(k, v) \<in> set (bt_extend [] xs) \<longleftrightarrow> (k, v) \<in> set xs" for k v
    using map_of_eq_Some_iff [of "rev xs" k v] unfolding bt_get_Some [OF ok, symmetric] by simp
  then show ?thesis by auto
qed

lemma compile_routes_Ok:
  "compile_routes catalog ids rs rmap ds = Ok (rmap', ds') \<longleftrightarrow>
     (\<forall>(_, r) \<in> set rs. id_of catalog (rt_remote r) \<noteq> None)
     \<and> ds' = ds @ map (\<lambda>(n, r). \<lparr>rd_name = n, rd_path = rt_path r\<rparr>) rs
     \<and> rmap' = bt_extend rmap (map (\<lambda>(i, _, r). (rt_path r,
         \<lparr>cr_id = RouteId (range_id ids i), cr_remote_id = the (id_of catalog (rt_remote r))\<rparr>)) (List.enumerate (length ds) rs))"
proof (induction catalog ids rs rmap ds rule: compile_routes.induct)
  case (1 catalog ids rmap ds)
  then show ?case by (auto simp: bt_extend_def)
next
  case (2 catalog ids name route rest rmap ds)
  then show ?case by (cases "id_of catalog (rt_remote route)") (simp_all add: bt_extend_def)
qed

text \<open>What a successful compilation of the catalog and the policy holds.\<close>

lemma allocate_Ok: "allocate len n = (n', Ok ids) \<longleftrightarrow> n' = n + max len 1 \<and> n' < 2 ^ 64 \<and> ids = \<lparr>ir_start = n, ir_len = len\<rparr>"
  by (auto simp: allocate_def)

lemma catalog_from_config_Ok:
  assumes "catalog_from_config rcfg n = (n', Ok catalog)"
  shows "n' = n + max (length (r_by_name rcfg)) 1 \<and> rc_identities catalog = \<lparr>ir_start = n, ir_len = length (r_by_name rcfg)\<rparr>
    \<and> rc_specs catalog = catalog_specs rcfg \<and> rc_by_name catalog = catalog_by_name (rc_identities catalog) (catalog_specs rcfg)
    \<and> rc_default catalog = Option.bind (r_default rcfg) (id_of catalog)
    \<and> (r_default rcfg \<noteq> None \<longrightarrow> rc_default catalog \<noteq> None)"
proof -
  obtain n1 x where al: "allocate (length (catalog_specs rcfg)) n = (n1, x)" by (cases "allocate (length (catalog_specs rcfg)) n")
  then obtain ids where x: "x = Inr ids" using assms by (cases x) (simp_all add: catalog_from_config_def)
  show ?thesis
    using assms al allocate_Ok [of "length (catalog_specs rcfg)" n n1 ids] unfolding x
    by (auto simp: catalog_from_config_def Let_def id_of_def catalog_specs_def split: option.splits)
qed

lemma catalog_ids:
  assumes "catalog_from_config rcfg n = (n', Ok catalog)" "bt_ok (r_by_name rcfg)"
  shows "id_of catalog name = Some i \<longleftrightarrow>
    (\<exists>j < length (r_by_name rcfg). fst (r_by_name rcfg ! j) = name \<and> i = RemoteId (n + j))"
proof -
  note c = catalog_from_config_Ok [OF assms(1)]
  let ?xs = "map (\<lambda>(i, spec). (spec_name spec, RemoteId (range_id (rc_identities catalog) i))) (List.enumerate 0 (catalog_specs rcfg))"
  have "map fst ?xs = map fst (r_by_name rcfg)"
    by (rule nth_equalityI) (simp_all add: catalog_specs_def nth_enumerate_eq case_prod_unfold)
  then have "distinct (map fst ?xs)" using assms(2) by (simp add: bt_ok_def sorted_wrt_less_distinct)
  note s = set_bt_extend [OF this]
  have "id_of catalog name = Some i \<longleftrightarrow> (name, i) \<in> set ?xs"
    using c s bt_get_Some [of "bt_extend [] ?xs" name i]
    by (simp add: id_of_def catalog_by_name_def bt_extend_ok)
  also have "\<dots> \<longleftrightarrow> (\<exists>j < length (r_by_name rcfg). fst (r_by_name rcfg ! j) = name \<and> i = RemoteId (n + j))"
    using c unfolding in_set_conv_nth
    by (auto simp: nth_enumerate_eq range_id_def catalog_specs_def case_prod_unfold)
  finally show ?thesis .
qed

lemma catalog_name_of_id:
  assumes "catalog_from_config rcfg n = (n', Ok catalog)" "bt_ok (r_by_name rcfg)" "id_of catalog name = Some i"
  shows "catalog_remote_name catalog i = Ok name" "catalog_validate_id catalog i = Ok ()"
    "n \<le> remote_id_value i" "remote_id_value i < n'"
  using catalog_ids [OF assms(1,2), of name i] catalog_from_config_Ok [OF assms(1)] assms(3)
  by (auto simp: catalog_remote_name_def catalog_validate_id_def range_index_def catalog_specs_def case_prod_unfold)

text \<open>The same for the policy; \<open>g\<close> reads the name and the remote a compiled route stands for.\<close>

definition route_entries :: "identity_range \<Rightarrow> remote_catalog \<Rightarrow> (route_name \<times> route_config) list \<Rightarrow> compiled_route path_prefix_map" where
  "route_entries ids catalog rs = map (\<lambda>(i, _, r). (rt_path r,
     \<lparr>cr_id = RouteId (range_id ids i), cr_remote_id = the (id_of catalog (rt_remote r))\<rparr>)) (List.enumerate 0 rs)"

lemma route_entries_mem:
  "(k, c) \<in> set (route_entries ids catalog rs) \<longleftrightarrow>
     (\<exists>j < length rs. k = rt_path (snd (rs ! j)) \<and> cr_id c = RouteId (ir_start ids + j)
        \<and> cr_remote_id c = the (id_of catalog (rt_remote (snd (rs ! j)))))"
  unfolding in_set_conv_nth
  by (auto simp: route_entries_def nth_enumerate_eq range_id_def case_prod_unfold)

lemma policy_from_config_Ok:
  assumes "policy_from_config cfg catalog n = (n', Ok policy)"
  shows "n' = n + max (length (routes cfg)) 1
    \<and> pp_route_identities policy = \<lparr>ir_start = n, ir_len = length (routes cfg)\<rparr>
    \<and> routes_validate_effective (routes cfg) = Ok () \<and> mounts_validate_effective (mounts cfg) = Ok ()
    \<and> pp_mounts policy = bt_extend [] (map (\<lambda>(name, mount). (m_target mount, name)) (mounts cfg))
    \<and> (\<forall>(_, r) \<in> set (routes cfg). id_of catalog (rt_remote r) \<noteq> None)
    \<and> pp_descriptors policy = map (\<lambda>(n, r). \<lparr>rd_name = n, rd_path = rt_path r\<rparr>) (routes cfg)
    \<and> pp_routes policy = bt_extend [] (route_entries (pp_route_identities policy) catalog (routes cfg))
    \<and> (case r_default (remotes cfg) of None \<Rightarrow> pp_default policy = None
       | Some name \<Rightarrow> pp_default policy \<noteq> None \<and> pp_default policy = id_of catalog name)"
proof -
  have v: "routes_validate_effective (routes cfg) = Ok ()"
    using assms by (auto simp: policy_from_config_def split: sum.splits)
  obtain n1 x where al: "allocate (length (routes cfg)) n = (n1, x)" by (cases "allocate (length (routes cfg)) n")
  then obtain ids where x: "x = Inr ids" using assms v by (cases x) (simp_all add: policy_from_config_def)
  have a: "n1 = n + max (length (routes cfg)) 1" "ids = \<lparr>ir_start = n, ir_len = length (routes cfg)\<rparr>"
    using allocate_Ok [of "length (routes cfg)" n n1 ids] al unfolding x by simp_all
  have p: "n' = n1" "and_then (ownership_new (mounts cfg)) (\<lambda>owned.
                and_then (compile_routes catalog ids (routes cfg) [] []) (\<lambda>(rmap, descriptors).
                and_then
                  (case r_default (remotes cfg) of
                     None \<Rightarrow> Ok None
                   | Some name \<Rightarrow> map_ok Some (ok_or (UnknownDefault name) (id_of catalog name)))
                  (\<lambda>default_id.
                     Ok \<lparr>pp_route_identities = ids, pp_mounts = owned, pp_routes = rmap,
                         pp_descriptors = descriptors, pp_default = default_id\<rparr>))) = Ok policy"
    using assms v al unfolding x by (simp_all add: policy_from_config_def)
  from p(2) obtain owned rmap ds d where parts: "ownership_new (mounts cfg) = Ok owned"
      "compile_routes catalog ids (routes cfg) [] [] = Ok (rmap, ds)"
      "(case r_default (remotes cfg) of None \<Rightarrow> Ok None
        | Some name \<Rightarrow> map_ok Some (ok_or (UnknownDefault name) (id_of catalog name))) = Ok d"
      "policy = \<lparr>pp_route_identities = ids, pp_mounts = owned, pp_routes = rmap, pp_descriptors = ds, pp_default = d\<rparr>"
    by (auto simp: result_elims)
  have d: "case r_default (remotes cfg) of None \<Rightarrow> d = None | Some name \<Rightarrow> d \<noteq> None \<and> d = id_of catalog name"
    using parts(3) by (cases "r_default (remotes cfg)"; cases "id_of catalog (the (r_default (remotes cfg)))") auto
  have m: "mounts_validate_effective (mounts cfg) = Ok ()"
    "owned = bt_extend [] (map (\<lambda>(name, mount). (m_target mount, name)) (mounts cfg))"
    using parts(1) by (auto simp: ownership_new_def result_elims)
  show ?thesis
    using a v p(1) d m parts(2) unfolding parts(4)
    by (cases "r_default (remotes cfg)") (auto simp: compile_routes_Ok route_entries_def)
qed

lemma set_bt_extend_subset: "set (bt_extend [] xs) \<subseteq> set xs"
proof -
  have ok: "bt_ok (bt_extend [] xs)" by (simp add: bt_extend_ok)
  have "bt_get (bt_extend [] xs) = map_of (rev xs)"
    by (rule ext) (simp add: bt_get_extend bt_get_def [of "[]"] map_add_def split: option.split)
  then show ?thesis
    using bt_get_Some [OF ok] map_of_SomeD [of "rev xs"] by fastforce
qed

lemma mount_targets_distinct:
  assumes "bt_ok ms" "overlap_free ms"
  shows "distinct (map fst (map (\<lambda>(name, mount). (m_target mount, name)) ms))"
proof -
  have "inj_on (\<lambda>x. m_target (snd x)) (set ms)"
  proof (rule inj_onI)
    fix x y assume xy: "x \<in> set ms" "y \<in> set ms" "m_target (snd x) = m_target (snd y)"
    then have "fst x = fst y" using assms(2) unfolding overlap_free_iff by (metis overlap_refl prod.collapse)
    then show "x = y" using xy assms(1) bt_get_Some by (metis option.inject prod.collapse)
  qed
  moreover have "distinct ms" using sorted_wrt_less_distinct [of "map fst ms"] assms(1) by (simp add: bt_ok_def distinct_map)
  ultimately show ?thesis by (simp add: distinct_map case_prod_unfold comp_def)
qed

lemma route_paths_distinct:
  assumes "bt_ok rs" "unique_paths rs"
  shows "distinct (map fst (route_entries ids catalog rs))"
proof -
  have "map fst (route_entries ids catalog rs) = map (\<lambda>(_, r). rt_path r) rs"
    by (rule nth_equalityI) (simp_all add: route_entries_def nth_enumerate_eq case_prod_unfold)
  moreover have "distinct (map as_str (map (\<lambda>(_, r). rt_path r) rs))"
    using distinct_paths [OF routes_distinct [OF assms(1)]] assms(2) by (simp add: case_prod_unfold comp_def)
  ultimately show ?thesis by (auto simp: distinct_map dest: inj_on_imageI2)
qed

text \<open>The indexed lookup of a route against the scan of the configuration.\<close>

lemma compiled_route_lookup:
  assumes "bt_ok (routes cfg)" "policy_from_config cfg catalog k = (k', Ok policy)"
  shows "case longest_prefix (pp_routes policy) path of
      None \<Rightarrow> route_lookup (routes cfg) path = None
    | Some kc \<Rightarrow> \<exists>j c. j < length (routes cfg) \<and> kc = (rt_path (snd (routes cfg ! j)), c)
        \<and> cr_id c = RouteId (k + j) \<and> cr_remote_id c = the (id_of catalog (rt_remote (snd (routes cfg ! j))))
        \<and> route_lookup (routes cfg) path
            = Some (rt_path (snd (routes cfg ! j)), fst (routes cfg ! j), rt_remote (snd (routes cfg ! j)))"
proof -
  note p = policy_from_config_Ok [OF assms(2)]
  let ?rs = "routes cfg"
  define g where "g = (\<lambda>c :: compiled_route. (fst (?rs ! (route_id_value (cr_id c) - k)), rt_remote (snd (?rs ! (route_id_value (cr_id c) - k)))))"
  have un: "unique_paths ?rs" using routes_validate_Ok [OF assms(1)] p by simp
  have mem: "(q, c) \<in> set (pp_routes policy) \<longleftrightarrow>
     (\<exists>j < length ?rs. q = rt_path (snd (?rs ! j)) \<and> cr_id c = RouteId (k + j)
        \<and> cr_remote_id c = the (id_of catalog (rt_remote (snd (?rs ! j)))))" for q c
    using p set_bt_extend [OF route_paths_distinct [OF assms(1) un]] by (simp add: route_entries_mem)
  have "route_items ?rs = map_prod id g ` set (pp_routes policy)" (is "?L = ?R")
  proof (intro set_eqI iffI)
    fix x assume "x \<in> ?L"
    then obtain j where j: "j < length ?rs" "x = (rt_path (snd (?rs ! j)), fst (?rs ! j), rt_remote (snd (?rs ! j)))"
      by (auto simp: route_items_def in_set_conv_nth case_prod_unfold)
    define c where "c = \<lparr>cr_id = RouteId (k + j), cr_remote_id = the (id_of catalog (rt_remote (snd (?rs ! j))))\<rparr>"
    have "(rt_path (snd (?rs ! j)), c) \<in> set (pp_routes policy)"
      unfolding mem using j(1) by (auto simp: c_def)
    moreover have "x = map_prod id g (rt_path (snd (?rs ! j)), c)" using j by (simp add: g_def c_def)
    ultimately show "x \<in> ?R" by (rule rev_image_eqI)
  next
    fix x assume "x \<in> ?R"
    then obtain q c where "(q, c) \<in> set (pp_routes policy)" "x = (q, g c)" by auto
    then obtain j where j: "j < length ?rs" "x = (rt_path (snd (?rs ! j)), fst (?rs ! j), rt_remote (snd (?rs ! j)))"
      unfolding mem by (auto simp: g_def)
    then show "x \<in> ?L" by (auto simp: route_items_def case_prod_unfold intro!: image_eqI [OF _ nth_mem [OF j(1)]])
  qed
  then have l: "route_lookup ?rs path = map_option (map_prod id g) (longest_prefix (pp_routes policy) path)"
    using p assms(1) un by (intro routes_pair.agree) (simp_all add: bt_extend_ok)
  show ?thesis
  proof (cases "longest_prefix (pp_routes policy) path")
    case (Some kc)
    obtain q c where kc: "kc = (q, c)" by (cases kc)
    have "(q, c) \<in> set (pp_routes policy)"
      using walk.found [of "pp_routes policy" path q c] Some kc p by (simp add: bt_extend_ok)
    then show ?thesis using Some l unfolding kc mem by (auto simp: g_def)
  qed (simp add: l)
qed

lemma resolved_cases:
  assumes "policy_from_config cfg catalog n = (n', Ok policy)"
    and "resolved_remote_for_path policy catalog explicit path = Ok (Some rr)"
  obtains name where "id_of catalog name = Some (rr_id rr)"
    "case rr_route rr of None \<Rightarrow> True | Some i \<Rightarrow> n \<le> route_id_value i \<and> route_id_value i < n + length (routes cfg)"
proof -
  note p = policy_from_config_Ok [OF assms(1)]
  show ?thesis
  proof (cases explicit)
    case (Some name)
    then show ?thesis
      using assms(2) that
      by (cases "id_of catalog name") (auto simp: resolved_remote_for_path_def from_explicit_name_def)
  next
    case explicit: None
    show ?thesis
    proof (cases "longest_prefix (pp_routes policy) path")
      case None
      then show ?thesis
        using assms(2) explicit p that
        by (cases "r_default (remotes cfg)") (auto simp: resolved_remote_for_path_def from_compiled_def)
    next
      case (Some kc)
      obtain k c where kc: "kc = (k, c)" by (cases kc)
      have "probe (pp_routes policy) (ancestor_prefixes (as_str path)) = Some (k, c)"
        using Some kc by (auto simp: longest_prefix_def split: if_splits)
      then have "bt_get (pp_routes policy) k = Some c" by (rule probe_Some [OF _ ancestor_prefixes_shrink, THEN conjunct2, THEN conjunct1])
      then have "(k, c) \<in> set (pp_routes policy)" unfolding bt_get_def by (rule map_of_SomeD)
      then have "(k, c) \<in> set (route_entries (pp_route_identities policy) catalog (routes cfg))"
        using p set_bt_extend_subset by fastforce
      then obtain j where j: "j < length (routes cfg)" "cr_id c = RouteId (n + j)"
          "cr_remote_id c = the (id_of catalog (rt_remote (snd (routes cfg ! j))))"
        using p by (auto simp: route_entries_mem)
      have "routes cfg ! j \<in> set (routes cfg)" using j(1) by simp
      then have "id_of catalog (rt_remote (snd (routes cfg ! j))) \<noteq> None" using p by (auto simp: case_prod_unfold)
      then show ?thesis
        using j assms(2) explicit Some kc that by (auto simp: resolved_remote_for_path_def from_compiled_def)
    qed
  qed
qed

section \<open>Properties\<close>

text \<open>
  C22: the compiled policy is the configuration. For every path the indexed owner is the owner the
  scan of the mounts finds, and the resolved remote and route carry the names of the configured route
  the scan finds; without a route they carry the default remote and no route, or nothing is resolved.
  An explicit remote wins, and an unknown one is the error that names it.
\<close>

theorem policy_agrees_with_config:
  assumes "bt_ok (r_by_name (remotes cfg))" "bt_ok (mounts cfg)" "bt_ok (routes cfg)"
    and "catalog_from_config (remotes cfg) n = (n', Ok catalog)"
    and "policy_from_config cfg catalog k = (k', Ok policy)"
  shows "owner_for_path policy path = mounts_owner_of (mounts cfg) path
    \<and> (case route_for (routes cfg) path of
        Some m \<Rightarrow> \<exists>rr. resolved_remote_for_path policy catalog None path = Ok (Some rr)
          \<and> catalog_remote_name catalog (rr_id rr) = Ok (rm_remote m) \<and> policy_route_name policy rr = Ok (Some (rm_name m))
      | None \<Rightarrow> (case r_default (remotes cfg) of
          None \<Rightarrow> resolved_remote_for_path policy catalog None path = Ok None
        | Some d \<Rightarrow> \<exists>rr. resolved_remote_for_path policy catalog None path = Ok (Some rr)
            \<and> catalog_remote_name catalog (rr_id rr) = Ok d \<and> policy_route_name policy rr = Ok None))
    \<and> (if name \<in> fst ` set (r_by_name (remotes cfg))
       then \<exists>rr. resolved_remote_for_path policy catalog (Some name) path = Ok (Some rr)
         \<and> catalog_remote_name catalog (rr_id rr) = Ok name \<and> policy_route_name policy rr = Ok None
       else resolved_remote_for_path policy catalog (Some name) path = Err name)"
proof (intro conjI)
  note p = policy_from_config_Ok [OF assms(5)]
  note named = catalog_name_of_id [OF assms(4,1)]
  let ?ms = "map (\<lambda>(name, mount). (m_target mount, name)) (mounts cfg)"
  have ov: "overlap_free (mounts cfg)"
    using mounts_validate_outcome [of "mounts cfg"] assms(2) p by (simp add: bt_ok_def sorted_wrt_less_distinct)
  have un: "unique_paths (routes cfg)" using routes_validate_Ok [OF assms(3)] p by simp
  show "owner_for_path policy path = mounts_owner_of (mounts cfg) path"
  proof -
    have "distinct (map fst ?ms)"
      using assms(2) ov by (rule mount_targets_distinct)
    then have "mount_items (mounts cfg) = map_prod id id ` set (pp_mounts policy)"
      using p by (simp add: set_bt_extend mount_items_def prod.map_id0)
    then have "mount_lookup (mounts cfg) path = map_option (map_prod id id) (longest_prefix (pp_mounts policy) path)"
      using p assms(2) ov by (intro mounts_pair.agree) (simp_all add: bt_extend_ok)
    then have "map_option prod.swap (longest_prefix (pp_mounts policy) path)
        = map_option prod.swap (map_option prod.swap (mounts_owner_of (mounts cfg) path))"
      by (simp add: mount_lookup_def prod.map_id0 option.map_id0)
    then show ?thesis
      by (cases "longest_prefix (pp_mounts policy) path"; cases "mounts_owner_of (mounts cfg) path")
        (auto simp: owner_for_path_def ownership_owner_def)
  qed
  show "case route_for (routes cfg) path of
        Some m \<Rightarrow> \<exists>rr. resolved_remote_for_path policy catalog None path = Ok (Some rr)
          \<and> catalog_remote_name catalog (rr_id rr) = Ok (rm_remote m) \<and> policy_route_name policy rr = Ok (Some (rm_name m))
      | None \<Rightarrow> (case r_default (remotes cfg) of
          None \<Rightarrow> resolved_remote_for_path policy catalog None path = Ok None
        | Some d \<Rightarrow> \<exists>rr. resolved_remote_for_path policy catalog None path = Ok (Some rr)
            \<and> catalog_remote_name catalog (rr_id rr) = Ok d \<and> policy_route_name policy rr = Ok None)"
  proof (cases "longest_prefix (pp_routes policy) path")
    case None
    then have "route_for (routes cfg) path = None"
      using compiled_route_lookup [OF assms(3,5), of path] by (simp add: route_lookup_def)
    moreover have "\<exists>i. pp_default policy = Some i \<and> catalog_remote_name catalog i = Ok d" if "r_default (remotes cfg) = Some d" for d
      using p that named(1) [of d] by (cases "id_of catalog d") auto
    ultimately show ?thesis
      using None p by (cases "r_default (remotes cfg)")
        (fastforce simp: resolved_remote_for_path_def from_compiled_def policy_route_name_def)+
  next
    case (Some kc)
    then obtain j c where j: "j < length (routes cfg)" "kc = (rt_path (snd (routes cfg ! j)), c)"
        "cr_id c = RouteId (k + j)" "cr_remote_id c = the (id_of catalog (rt_remote (snd (routes cfg ! j))))"
        "route_lookup (routes cfg) path
           = Some (rt_path (snd (routes cfg ! j)), fst (routes cfg ! j), rt_remote (snd (routes cfg ! j)))"
      using compiled_route_lookup [OF assms(3,5), of path] by auto
    have "routes cfg ! j \<in> set (routes cfg)" using j(1) by simp
    then obtain i where i: "id_of catalog (rt_remote (snd (routes cfg ! j))) = Some i" using p by (auto simp: case_prod_unfold)
    show ?thesis
      using j Some p i named(1) [OF i]
      by (auto simp: route_lookup_def resolved_remote_for_path_def from_compiled_def policy_route_name_def range_index_def
          case_prod_unfold)
  qed
  show "if name \<in> fst ` set (r_by_name (remotes cfg))
       then \<exists>rr. resolved_remote_for_path policy catalog (Some name) path = Ok (Some rr)
         \<and> catalog_remote_name catalog (rr_id rr) = Ok name \<and> policy_route_name policy rr = Ok None
       else resolved_remote_for_path policy catalog (Some name) path = Err name"
  proof -
    have "id_of catalog name = None \<longleftrightarrow> name \<notin> fst ` set (r_by_name (remotes cfg))"
      using catalog_ids [OF assms(4,1), of name] unfolding in_set_conv_nth image_iff
      by (metis not_Some_eq in_set_conv_nth)
    then show ?thesis
      using named(1) [of name]
      by (cases "id_of catalog name")
        (auto simp: resolved_remote_for_path_def from_explicit_name_def policy_route_name_def)
  qed
qed

definition example_config :: "unit config" where
  "example_config = config_default\<lparr>
     remotes := \<lparr>r_default = Some (lit ''a''), r_by_name = [(lit ''a'', lit ''s3://x''), (lit ''b'', lit ''s3://y'')]\<rparr>,
     routes := [(lit ''r'', \<lparr>rt_path = GatPath (lit ''d''), rt_remote = lit ''b''\<rparr>)]\<rparr>"

definition example_catalog :: "nat \<Rightarrow> remote_catalog" where
  "example_catalog n = projr (snd (catalog_from_config (remotes example_config) n))"

definition example_policy :: "nat \<Rightarrow> path_policy" where
  "example_policy n = projr (snd (policy_from_config example_config (example_catalog n) (n + 2)))"

lemma example_compiled:
  assumes "n < 2 ^ 32"
  shows "catalog_from_config (remotes example_config) n = (n + 2, Ok (example_catalog n))"
    "policy_from_config example_config (example_catalog n) (n + 2) = (n + 3, Ok (example_policy n))"
    "resolved_remote_for_path (example_policy n) (example_catalog n) None (GatPath (lit ''d/e''))
       = Ok (Some \<lparr>rr_id = RemoteId (n + 1), rr_route = Some (RouteId (n + 2))\<rparr>)"
proof -
  show c: "catalog_from_config (remotes example_config) n = (n + 2, Ok (example_catalog n))"
    using assms by (simp add: example_catalog_def example_config_def config_default_def catalog_from_config_def allocate_def
        catalog_specs_def catalog_by_name_def Let_def bt_extend_def bt_insert_def bt_get_def)
  show p: "policy_from_config example_config (example_catalog n) (n + 2) = (n + 3, Ok (example_policy n))"
    using assms by (simp add: example_policy_def example_catalog_def example_config_def config_default_def
        catalog_from_config_def policy_from_config_def allocate_def routes_validate_effective_def RESERVED_DEFAULT_ROUTE_NAME_def
        ownership_new_def mounts_validate_effective_def id_of_def
        catalog_specs_def catalog_by_name_def Let_def bt_extend_def bt_insert_def bt_get_def)
  show "resolved_remote_for_path (example_policy n) (example_catalog n) None (GatPath (lit ''d/e''))
       = Ok (Some \<lparr>rr_id = RemoteId (n + 1), rr_route = Some (RouteId (n + 2))\<rparr>)"
  proof -
    have a: "ancestor_prefixes (lit ''d/e'') = [lit ''d/e'', lit ''d'']"
      by (simp add: ancestor_prefixes.simps rfind_slash_def)
    show ?thesis
      unfolding resolved_remote_for_path_def longest_prefix_def gat_path.sel a
      using assms by (simp add: example_policy_def example_catalog_def example_config_def config_default_def
        catalog_from_config_def policy_from_config_def allocate_def routes_validate_effective_def RESERVED_DEFAULT_ROUTE_NAME_def
        ownership_new_def mounts_validate_effective_def id_of_def from_compiled_def range_id_def
        catalog_specs_def catalog_by_name_def Let_def bt_extend_def bt_insert_def bt_get_def)
  qed
qed


lemma policy_agrees_with_config_witness:
  "\<exists>rr. resolved_remote_for_path (example_policy 5) (example_catalog 5) None (GatPath (lit ''d/e'')) = Ok (Some rr)
    \<and> catalog_remote_name (example_catalog 5) (rr_id rr) = Ok (lit ''b'')
    \<and> policy_route_name (example_policy 5) rr = Ok (Some (lit ''r''))"
proof -
  have ok: "bt_ok (r_by_name (remotes example_config))" "bt_ok (mounts example_config)" "bt_ok (routes example_config)"
    by (simp_all add: example_config_def config_default_def bt_ok_def)
  have r: "route_for (routes example_config) (GatPath (lit ''d/e''))
      = Some \<lparr>rm_name = lit ''r'', rm_route = GatPath (lit ''d''), rm_remote = lit ''b''\<rparr>"
    by (simp add: example_config_def config_default_def route_for_def is_or_under_iff)
  show ?thesis
    using policy_agrees_with_config [OF ok example_compiled(1) [of 5] example_compiled(2) [of 5],
        where path = "GatPath (lit ''d/e'')"] r by simp
qed

text \<open>
  C23: identities never cross operations. Two operations compile a catalog and a policy each from the
  process-wide counter, one after the other. What the first resolves its own catalog and policy
  accept, and the other operation's catalog and policy reject as foreign, whichever came first.
\<close>

theorem identities_are_owned:
  assumes "bt_ok (r_by_name (remotes cfg))"
    and "catalog_from_config (remotes cfg) n\<^sub>0 = (n\<^sub>1, Ok catalog)" "n\<^sub>1 \<le> n\<^sub>2"
    and "policy_from_config cfg catalog n\<^sub>2 = (n\<^sub>3, Ok policy)"
    and "catalog_from_config (remotes cfg') m\<^sub>0 = (m\<^sub>1, Ok catalog')" "m\<^sub>1 \<le> m\<^sub>2"
    and "policy_from_config cfg' catalog' m\<^sub>2 = (m\<^sub>3, Ok policy')"
    and "n\<^sub>3 \<le> m\<^sub>0 \<or> m\<^sub>3 \<le> n\<^sub>0"
    and "resolved_remote_for_path policy catalog explicit path = Ok (Some rr)"
  shows "catalog_validate_id catalog (rr_id rr) = Ok () \<and> policy_validate_remote policy rr = Ok ()
    \<and> catalog_validate_id catalog' (rr_id rr) = Err ForeignOwner
    \<and> catalog_remote_name catalog' (rr_id rr) = Err ForeignOwner
    \<and> (rr_route rr \<noteq> None \<longrightarrow> policy_validate_remote policy' rr = Err ForeignOwner
        \<and> policy_route_name policy' rr = Err ForeignOwner)"
proof -
  obtain name where name: "id_of catalog name = Some (rr_id rr)"
    "case rr_route rr of None \<Rightarrow> True | Some i \<Rightarrow> n\<^sub>2 \<le> route_id_value i \<and> route_id_value i < n\<^sub>2 + length (routes cfg)"
    using resolved_cases [OF assms(4,9)] by blast
  note id = catalog_name_of_id [OF assms(2,1) name(1)]
  note p = policy_from_config_Ok [OF assms(4)] and p' = policy_from_config_Ok [OF assms(7)]
    and c = catalog_from_config_Ok [OF assms(2)] and c' = catalog_from_config_Ok [OF assms(5)]
  have far: "range_index (rc_identities catalog') (remote_id_value (rr_id rr)) = Err ForeignOwner"
    using id(3,4) c' p p' assms(3,6,8) by (auto simp: range_index_def)
  have route: "range_index (pp_route_identities policy') (route_id_value i) = Err ForeignOwner"
    "range_index (pp_route_identities policy) (route_id_value i) = Ok (route_id_value i - n\<^sub>2)" if "rr_route rr = Some i" for i
    using that name(2) c c' p p' assms(3,6,8) by (auto simp: range_index_def)
  show ?thesis
    using id(2) far route
    by (cases "rr_route rr")
      (auto simp: catalog_validate_id_def catalog_remote_name_def policy_validate_remote_def policy_route_name_def)
qed

lemma identities_are_owned_witness:
  "catalog_remote_name (example_catalog 9) (RemoteId 6) = Err ForeignOwner
    \<and> policy_route_name (example_policy 9) \<lparr>rr_id = RemoteId 6, rr_route = Some (RouteId 7)\<rparr> = Err ForeignOwner"
proof -
  have ok: "bt_ok (r_by_name (remotes example_config))"
    by (simp add: example_config_def config_default_def bt_ok_def)
  show ?thesis
    using identities_are_owned [OF ok example_compiled(1) [of 5] order_refl example_compiled(2) [of 5]
        example_compiled(1) [of 9] order_refl example_compiled(2) [of 9] _ example_compiled(3) [of 5]]
    by simp
qed

end
