(* ===== verification/LockIdentity.thy ===== *)
theory LockIdentity
  imports ShardId LockModel
begin

unbundle bit_operations_syntax

text \<open>
  The canonical identity of the desired state (\<open>gat-core/src/lock/identity.rs\<close>): content ids of
  shard files, and their XOR accumulation into one value. BLAKE3 is a parameter, \<open>hash\<close>; an
  incremental hasher is the list of the bytes fed to it, and \<open>finalize\<close> their hash. The algebra is
  stated once, in the locale \<open>xor_accumulator\<close>, and used through its interpretation on the model:
  any order, any grouping and any sequence of sparse updates give the same identity.
\<close>

section \<open>Identities\<close>

datatype shard_content_identity = ContentIdentity (content_bytes: "u8 list")

datatype decode_error = InvalidLength nat

definition content_hash :: "(str \<Rightarrow> u8 list) \<Rightarrow> str \<Rightarrow> shard_content_identity" where
  "content_hash hash bytes = ContentIdentity (hash bytes)"

definition content_decode :: "str \<Rightarrow> decode_error + shard_content_identity" where
  "content_decode bytes =
     (if length bytes = 32 then Ok (ContentIdentity bytes) else Err (InvalidLength (length bytes)))"

datatype canonical_desired_identity = DesiredIdentity (desired_bytes: "u8 list")

definition desired_empty :: canonical_desired_identity where
  "desired_empty = DesiredIdentity (replicate 32 0)"

fun xor_bytes :: "u8 list \<Rightarrow> u8 list \<Rightarrow> u8 list" where
  "xor_bytes (a # as) (b # bs) = (a XOR b) # xor_bytes as bs"
| "xor_bytes _ _ = []"

text \<open>The output array starts as 32 zeros; the zip overwrites as many bytes as both sides have.\<close>

definition desired_xor :: "canonical_desired_identity \<Rightarrow> canonical_desired_identity \<Rightarrow> canonical_desired_identity" where
  "desired_xor self other =
     (let out = xor_bytes (desired_bytes self) (desired_bytes other) in
      DesiredIdentity (take 32 out @ replicate (32 - length out) 0))"

text \<open>\<open>u64::to_le_bytes\<close> and \<open>hash_into\<close> of a shard id.\<close>

definition to_le_bytes64 :: "64 word \<Rightarrow> u8 list" where
  "to_le_bytes64 w = map (\<lambda>i. ucast (drop_bit (8 * i) w)) [0..<8]"

definition hash_into :: "lock_shard_id \<Rightarrow> str \<Rightarrow> str option" where
  "hash_into self hasher =
     map_option (\<lambda>buf. (hasher @ to_le_bytes64 (of_nat (cb_len buf))) @ buf_as_bytes buf) (canonical_buffer self)"

definition COMPONENT_DOMAIN :: str where
  "COMPONENT_DOMAIN = lit ''gat.lock canonical desired identity shard component blake3 v1''"

definition component_input :: "lock_shard_id \<Rightarrow> shard_content_identity \<Rightarrow> str option" where
  "component_input shard_id identity =
     (let hasher = [] @ COMPONENT_DOMAIN; hasher = hasher @ VERSION; hasher = hasher @ [0] in
      map_option (\<lambda>hasher. hasher @ content_bytes identity) (hash_into shard_id hasher))"

definition shard_identity_component :: "(str \<Rightarrow> u8 list) \<Rightarrow> lock_shard_id \<Rightarrow> shard_content_identity \<Rightarrow> u8 list option" where
  "shard_identity_component hash shard_id identity = map_option hash (component_input shard_id identity)"

definition toggle_shard ::
  "(str \<Rightarrow> u8 list) \<Rightarrow> canonical_desired_identity \<Rightarrow> lock_shard_id \<Rightarrow> shard_content_identity
     \<Rightarrow> canonical_desired_identity option" where
  "toggle_shard hash self shard_id identity =
     map_option (\<lambda>c. desired_xor self (DesiredIdentity c)) (shard_identity_component hash shard_id identity)"

text \<open>
  The two ways the identity of a whole shard set is computed: the sequential fold, and the parallel
  reduction, which combines per-shard values in any grouping (\<open>Combine\<close>) with any number of neutral
  elements (\<open>Start\<close>).
\<close>

fun desired_identity_from_shards ::
  "(str \<Rightarrow> u8 list) \<Rightarrow> (lock_shard_id \<times> shard_content_identity) list \<Rightarrow> canonical_desired_identity
     \<Rightarrow> canonical_desired_identity option" where
  "desired_identity_from_shards hash [] acc = Some acc"
| "desired_identity_from_shards hash ((i, identity) # shards) acc =
     Option.bind (toggle_shard hash acc i identity) (desired_identity_from_shards hash shards)"

datatype reduction = Start | Shard lock_shard_id shard_content_identity | Combine reduction reduction

fun try_reduce :: "(str \<Rightarrow> u8 list) \<Rightarrow> reduction \<Rightarrow> canonical_desired_identity option" where
  "try_reduce hash Start = Some desired_empty"
| "try_reduce hash (Shard i identity) = toggle_shard hash desired_empty i identity"
| "try_reduce hash (Combine a b) =
     Option.bind (try_reduce hash a) (\<lambda>a. map_option (desired_xor a) (try_reduce hash b))"

fun reduction_shards :: "reduction \<Rightarrow> (lock_shard_id \<times> shard_content_identity) list" where
  "reduction_shards Start = []"
| "reduction_shards (Shard i identity) = [(i, identity)]"
| "reduction_shards (Combine a b) = reduction_shards a @ reduction_shards b"

section \<open>The accumulator\<close>

locale xor_accumulator =
  fixes carrier :: "'a \<Rightarrow> bool" and zero :: 'a and add :: "'a \<Rightarrow> 'a \<Rightarrow> 'a"
  assumes zero_carrier [simp, intro]: "carrier zero"
    and add_carrier [simp, intro]: "carrier a \<Longrightarrow> carrier b \<Longrightarrow> carrier (add a b)"
    and assoc: "carrier a \<Longrightarrow> carrier b \<Longrightarrow> carrier c \<Longrightarrow> add (add a b) c = add a (add b c)"
    and commute: "carrier a \<Longrightarrow> carrier b \<Longrightarrow> add a b = add b a"
    and zero_add [simp]: "carrier a \<Longrightarrow> add zero a = a"
    and cancel [simp]: "carrier a \<Longrightarrow> add a a = zero"
begin

lemma add_zero [simp]: "carrier a \<Longrightarrow> add a zero = a"
  using commute [of a zero] by simp

lemma left_commute: "carrier a \<Longrightarrow> carrier b \<Longrightarrow> carrier c \<Longrightarrow> add a (add b c) = add b (add a c)"
  by (metis assoc commute add_carrier)

definition total :: "'a list \<Rightarrow> 'a" where
  "total xs = foldr add xs zero"

lemma total_carrier [simp]: "list_all carrier xs \<Longrightarrow> carrier (total xs)"
  by (induction xs) (auto simp: total_def)

lemma total_simps [simp]: "total [] = zero" "total (x # xs) = add x (total xs)"
  by (simp_all add: total_def)

lemma total_append:
  "list_all carrier xs \<Longrightarrow> list_all carrier ys \<Longrightarrow> total (xs @ ys) = add (total xs) (total ys)"
  by (induction xs) (simp_all add: assoc)

lemma total_remove1:
  "list_all carrier xs \<Longrightarrow> x \<in> set xs \<Longrightarrow> total xs = add x (total (remove1 x xs))"
proof (induction xs)
  case (Cons y xs)
  have sub: "list_all carrier (remove1 x xs)"
    using Cons.prems(1) by (auto simp: list_all_iff dest: notin_set_remove1)
  from Cons sub show ?case by (auto simp: list_all_iff left_commute)
qed simp

lemma total_mset:
  "list_all carrier xs \<Longrightarrow> mset xs = mset ys \<Longrightarrow> total xs = total ys"
proof (induction xs arbitrary: ys)
  case (Cons x xs)
  have x: "x \<in> set ys" using Cons.prems(2) by (metis list.set_intros(1) set_mset_mset)
  have "mset xs = mset (remove1 x ys)"
    using Cons.prems(2) by (metis add_mset_remove_trivial mset.simps(2) mset_remove1)
  moreover have "list_all carrier ys"
    using Cons.prems by (metis list_all_iff mset_eq_setD)
  ultimately show ?case
    using Cons.IH [of "remove1 x ys"] total_remove1 [OF _ x] Cons.prems(1) by simp
qed simp

text \<open>Toggling an old value out and a new one in.\<close>

lemma replace:
  assumes "list_all carrier xs" "list_all carrier ys" "carrier old" "carrier new"
  shows "add (add (total (xs @ old # ys)) old) new = total (xs @ new # ys)"
proof -
  let ?x = "total xs" and ?y = "total ys"
  have c: "carrier ?x" "carrier ?y" using assms by simp_all
  have t: "total (xs @ z # ys) = add ?x (add z ?y)" if "carrier z" for z
    using total_append [of xs "z # ys"] assms that by simp
  have "add (add ?x (add old ?y)) old = add ?x (add (add old ?y) old)"
    using assoc [OF c(1), of "add old ?y" old] assms(3) c by simp
  also have "add (add old ?y) old = ?y"
    using commute [of "add old ?y" old] assoc [of old old ?y] assms(3) c by simp
  finally have "add (add (total (xs @ old # ys)) old) new = add (add ?x ?y) new"
    using t [OF assms(3)] by simp
  also have "\<dots> = add ?x (add new ?y)"
    using assoc [of ?x ?y new] commute [of ?y new] assms(4) c by simp
  finally show ?thesis using t [OF assms(4)] by simp
qed

end

section \<open>XOR of identities\<close>

definition wf_desired :: "canonical_desired_identity \<Rightarrow> bool" where
  "wf_desired d \<longleftrightarrow> length (desired_bytes d) = 32"

lemma xor_bytes_zip: "length as = length bs \<Longrightarrow> xor_bytes as bs = map2 (XOR) as bs"
  by (induction as bs rule: xor_bytes.induct) auto

lemma desired_xor_wf:
  "wf_desired a \<Longrightarrow> wf_desired b \<Longrightarrow> desired_xor a b = DesiredIdentity (map2 (XOR) (desired_bytes a) (desired_bytes b))"
  by (simp add: desired_xor_def wf_desired_def xor_bytes_zip Let_def)

interpretation desired: xor_accumulator wf_desired desired_empty desired_xor
proof
  show "wf_desired desired_empty" by (simp add: wf_desired_def desired_empty_def)
next
  fix a b c
  assume wf: "wf_desired a" "wf_desired b"
  show closed: "wf_desired (desired_xor a b)"
    using wf unfolding desired_xor_wf [OF wf] by (simp add: wf_desired_def)
  show "desired_xor a b = desired_xor b a"
    unfolding desired_xor_wf [OF wf] desired_xor_wf [OF wf(2,1)]
    using wf by (auto simp: wf_desired_def list_eq_iff_nth_eq ac_simps)
  assume c: "wf_desired c"
  have "wf_desired (desired_xor b c)"
    using wf c unfolding desired_xor_wf [OF wf(2) c] by (simp add: wf_desired_def)
  then show "desired_xor (desired_xor a b) c = desired_xor a (desired_xor b c)"
    using wf c closed
    by (simp add: desired_xor_wf) (auto simp: wf_desired_def list_eq_iff_nth_eq ac_simps)
next
  fix a
  assume wf: "wf_desired a"
  have z: "wf_desired desired_empty" by (simp add: wf_desired_def desired_empty_def)
  show "desired_xor desired_empty a = a"
    unfolding desired_xor_wf [OF z wf] using wf
    by (cases a) (auto simp: wf_desired_def desired_empty_def list_eq_iff_nth_eq)
  show "desired_xor a a = desired_empty"
    unfolding desired_xor_wf [OF wf wf] using wf
    by (auto simp: wf_desired_def desired_empty_def list_eq_iff_nth_eq)
qed

section \<open>Accumulating shards\<close>

definition shard_part :: "(str \<Rightarrow> u8 list) \<Rightarrow> lock_shard_id \<times> shard_content_identity \<Rightarrow> canonical_desired_identity" where
  "shard_part hash s = DesiredIdentity (hash (the (component_input (fst s) (snd s))))"

definition wf_shards :: "(lock_shard_id \<times> shard_content_identity) list \<Rightarrow> bool" where
  "wf_shards = list_all (\<lambda>(i, c). wf_shard i)"

lemma hash_into_wf:
  "wf_shard i \<Longrightarrow> hash_into i h = Some ((h @ to_le_bytes64 (of_nat (length (shard_text i)))) @ shard_text i)"
  by (erule canonical_buffer_holds) (auto simp: hash_into_def holds_def buf_as_bytes_def)

lemma component_input_wf:
  "wf_shard i \<Longrightarrow> component_input i c = Some (COMPONENT_DOMAIN @ VERSION @ 0
     # to_le_bytes64 (of_nat (length (shard_text i))) @ shard_text i @ content_bytes c)"
  by (simp add: component_input_def hash_into_wf)

lemma toggle_wf:
  "wf_shard i \<Longrightarrow> toggle_shard hash d i c = Some (desired_xor d (shard_part hash (i, c)))"
  by (simp add: toggle_shard_def shard_identity_component_def shard_part_def component_input_wf)

lemma shard_part_wf: "(\<And>s. length (hash s) = 32) \<Longrightarrow> wf_desired (shard_part hash s)"
  by (simp add: shard_part_def wf_desired_def)

lemma shard_parts_wf: "(\<And>s. length (hash s) = 32) \<Longrightarrow> list_all wf_desired (map (shard_part hash) shards)"
  by (simp add: list_all_iff shard_part_wf)

lemma fold_total:
  assumes "\<And>s. length (hash s) = 32" "wf_shards shards" "wf_desired acc"
  shows "desired_identity_from_shards hash shards acc
    = Some (desired_xor acc (desired.total (map (shard_part hash) shards)))"
  using assms(2,3)
proof (induction shards arbitrary: acc)
  case (Cons s shards)
  obtain i c where s: "s = (i, c)" by (cases s)
  show ?case
    using Cons by (simp add: s wf_shards_def toggle_wf desired.assoc shard_part_wf [OF assms(1)] shard_parts_wf [OF assms(1)])
qed simp

lemma reduce_total:
  assumes "\<And>s. length (hash s) = 32" "wf_shards (reduction_shards r)"
  shows "try_reduce hash r = Some (desired.total (map (shard_part hash) (reduction_shards r)))"
  using assms(2)
  by (induction r) (simp_all add: wf_shards_def toggle_wf desired.total_append shard_part_wf [OF assms(1)]
      shard_parts_wf [OF assms(1)])

text \<open>
  C17: the identity of a shard set is well defined: the sequential fold succeeds, and every parallel
  reduction, over the shards in any order and combined in any grouping, gives the same value.
\<close>

theorem reduction_equals_fold:
  assumes "\<And>s. length (hash s) = 32" "wf_shards shards" "mset (reduction_shards r) = mset shards"
  shows "\<exists>d. desired_identity_from_shards hash shards desired_empty = Some d
    \<and> try_reduce hash r = Some d \<and> wf_desired d"
proof -
  have "wf_shards (reduction_shards r)"
    using assms(2) mset_eq_setD [OF assms(3)] by (simp add: wf_shards_def list_all_iff)
  moreover have "desired.total (map (shard_part hash) (reduction_shards r)) = desired.total (map (shard_part hash) shards)"
    by (rule desired.total_mset) (simp_all add: shard_parts_wf [OF assms(1)] assms(3))
  ultimately show ?thesis
    using fold_total [OF assms(1,2) desired.zero_carrier] reduce_total [OF assms(1)]
    by (simp add: shard_parts_wf [OF assms(1)])
qed

lemma wf_shard_of: "length bs \<le> 4 \<Longrightarrow> wf_shard (shard_of bs)"
  using wf_shard_iff by blast

lemma reduction_equals_fold_witness:
  "\<exists>d. desired_identity_from_shards (replicate 32 \<circ> hd)
        [(shard_of [], ContentIdentity [1]), (shard_of [7], ContentIdentity [2])] desired_empty = Some d
    \<and> try_reduce (replicate 32 \<circ> hd)
        (Combine (Combine Start (Shard (shard_of [7]) (ContentIdentity [2]))) (Shard (shard_of []) (ContentIdentity [1]))) = Some d
    \<and> wf_desired d"
  by (rule reduction_equals_fold) (simp_all add: wf_shards_def wf_shard_of)

text \<open>
  C18: sparse maintenance is exact. Toggling a shard's old contribution out and its new one in gives
  the identity of the updated set computed from scratch; toggling a new shard in, or a removed one
  out, gives the identity with or without it. The rest of the set is not looked at.
\<close>

theorem sparse_update_is_recomputation:
  assumes "\<And>s. length (hash s) = 32" "wf_shards (xs @ ys)" "wf_shard i"
    and "desired_identity_from_shards hash (xs @ (i, old) # ys) desired_empty = Some d"
    and "desired_identity_from_shards hash (xs @ ys) desired_empty = Some d0"
  shows "Option.bind (toggle_shard hash d i old) (\<lambda>d. toggle_shard hash d i new)
      = desired_identity_from_shards hash (xs @ (i, new) # ys) desired_empty
    \<and> toggle_shard hash d i old = Some d0 \<and> toggle_shard hash d0 i old = Some d"
proof -
  let ?p = "shard_part hash" and ?t = "\<lambda>s. desired.total (map (shard_part hash) s)"
  have wf [simp]: "wf_desired (?p s)" "list_all wf_desired (map ?p s')" for s s'
    using shard_part_wf [OF assms(1)] shard_parts_wf [OF assms(1)] by auto
  have all: "wf_shards (xs @ (i, c) # ys)" for c
    using assms(2,3) by (simp add: wf_shards_def)
  have f: "desired_identity_from_shards hash (xs @ (i, c) # ys) desired_empty = Some (?t (xs @ (i, c) # ys))" for c
    using fold_total [OF assms(1) all desired.zero_carrier] by simp
  have f0: "d0 = ?t (xs @ ys)" and d: "d = ?t (xs @ (i, old) # ys)"
    using fold_total [OF assms(1,2) desired.zero_carrier] f [of old] assms(4,5) by simp_all
  have split: "?t (xs @ (i, c) # ys) = desired_xor (?p (i, c)) (?t (xs @ ys))" for c
  proof -
    have "?t (xs @ (i, c) # ys) = ?t ((i, c) # xs @ ys)"
      by (rule desired.total_mset) simp_all
    then show ?thesis by simp
  qed
  have w: "wf_desired (?t s)" for s by (rule desired.total_carrier) simp
  define T where "T = ?t (xs @ ys)"
  have T: "wf_desired T" unfolding T_def by (rule w)
  have out: "desired_xor d (?p (i, old)) = d0"
    unfolding d f0 split T_def [symmetric]
    using desired.commute [OF wf(1) T] desired.assoc [OF T wf(1) wf(1)] T by simp
  show ?thesis
    unfolding toggle_wf [OF assms(3)] f Option.bind.bind_lunit out unfolding d f0 split T_def [symmetric]
    using desired.commute [OF T wf(1)] by simp
qed

lemma sparse_update_is_recomputation_witness:
  "\<exists>d d0. Option.bind (toggle_shard (replicate 32 \<circ> last) d (shard_of [7]) (ContentIdentity [2]))
        (\<lambda>d. toggle_shard (replicate 32 \<circ> last) d (shard_of [7]) (ContentIdentity [3]))
      = desired_identity_from_shards (replicate 32 \<circ> last) ([(shard_of [], ContentIdentity [1])] @ (shard_of [7], ContentIdentity [3]) # []) desired_empty
    \<and> toggle_shard (replicate 32 \<circ> last) d (shard_of [7]) (ContentIdentity [2]) = Some d0
    \<and> toggle_shard (replicate 32 \<circ> last) d0 (shard_of [7]) (ContentIdentity [2]) = Some d"
proof -
  let ?h = "replicate 32 \<circ> last :: str \<Rightarrow> u8 list"
  have wf: "wf_shards ([(shard_of [], ContentIdentity [1])] @ [])" "wf_shard (shard_of [7])"
    "wf_shards ([(shard_of [], ContentIdentity [1])] @ (shard_of [7], ContentIdentity [2]) # [])"
    by (simp_all add: wf_shards_def wf_shard_of)
  have h: "length (?h s) = 32" for s by simp
  from fold_total [where hash = ?h, OF h wf(1) desired.zero_carrier] fold_total [where hash = ?h, OF h wf(3) desired.zero_carrier]
  obtain d d0 where
    "desired_identity_from_shards ?h ([(shard_of [], ContentIdentity [1])] @ (shard_of [7], ContentIdentity [2]) # []) desired_empty = Some d"
    "desired_identity_from_shards ?h ([(shard_of [], ContentIdentity [1])] @ []) desired_empty = Some d0" by blast
  from sparse_update_is_recomputation [where hash = ?h, OF h wf(1,2) this] show ?thesis by blast
qed

section \<open>Framing\<close>

lemma to_le_bytes64_small:
  "m < 256 \<Longrightarrow> n < 256 \<Longrightarrow> to_le_bytes64 (of_nat m) = to_le_bytes64 (of_nat n) \<longleftrightarrow> m = n"
proof
  assume b: "m < 256" "n < 256" and "to_le_bytes64 (of_nat m) = to_le_bytes64 (of_nat n)"
  then have "(ucast (of_nat m :: 64 word) :: u8) = ucast (of_nat n :: 64 word)"
    by (simp add: to_le_bytes64_def upt_rec)
  moreover have "unat (ucast (of_nat k :: 64 word) :: u8) = k" if "k < 256" for k
    using that by (simp add: unsigned_ucast_eq unsigned_of_nat take_bit_nat_eq_self_iff min_def take_bit_nat_eq_self)
  ultimately show "m = n" using b by metis
qed simp

text \<open>
  The bytes hashed for a shard are framed: they determine both the shard id and the content id,
  whatever their lengths, so two different shards never feed the hash the same input.
\<close>

theorem component_input_injective:
  assumes "wf_shard i" "wf_shard j" "component_input i c = component_input j d"
  shows "i = j \<and> c = d"
proof -
  let ?l = "\<lambda>i. to_le_bytes64 (of_nat (length (shard_text i)))"
  have "?l i @ shard_text i @ content_bytes c = ?l j @ shard_text j @ content_bytes d"
    using assms by (simp add: component_input_wf)
  moreover have "length (?l i) = length (?l j)" by (simp add: to_le_bytes64_def)
  ultimately have l: "?l i = ?l j" and rest: "shard_text i @ content_bytes c = shard_text j @ content_bytes d"
    by simp_all
  have small: "length (shard_text k) < 256" if k: "wf_shard k" for k
    using k by (rule canonical_buffer_holds) (auto simp: holds_def dest!: arg_cong [of _ _ length])
  have "length (shard_text i) = length (shard_text j)"
    using l to_le_bytes64_small [OF small small] assms(1,2) by blast
  with rest have "shard_text i = shard_text j" "content_bytes c = content_bytes d" by simp_all
  moreover from this(1) have "i = j"
    using shard_parse_Ok [of "shard_text i" i] shard_parse_Ok [of "shard_text i" j] assms(1,2) by simp
  ultimately show ?thesis by (simp add: shard_content_identity.expand)
qed

lemma component_input_injective_witness:
  "component_input (shard_of [1]) (ContentIdentity [2]) \<noteq> component_input (shard_of [2]) (ContentIdentity [2])"
  using component_input_injective [of "shard_of [1]" "shard_of [2]" "ContentIdentity [2]" "ContentIdentity [2]"]
  by (auto simp: wf_shard_of shard_of_inject)

end
