(* ===== verification/FileState.thy ===== *)
theory FileState
  imports LockIdentity
begin

unbundle bit_operations_syntax

text \<open>
  Stat proofs and the identity checks built on them: the proof and its wire format, the coherent
  observation and \<open>check_known_oid\<close> (\<open>gat-io/src/file_state.rs\<close>), the status of a worktree file
  (\<open>gat-io/src/worktree.rs\<close>) and the verification of one cache object (\<open>gat-io/src/cache/proof.rs\<close>).
  What the operating system answers to the calls made on one path is an \<open>fs_view\<close>: the successive
  results of \<open>symlink_metadata\<close>, of \<open>read_link\<close> and of hashing the file. Any sequence of answers is a
  view, so a file that changes between two calls is one too.
\<close>

section \<open>Stat proofs\<close>

record stat_proof =
  sp_size :: "64 word"
  sp_mtime_secs :: "64 word"
  sp_mtime_nanos :: "32 word"

definition proof_matches :: "stat_proof \<Rightarrow> stat_proof \<Rightarrow> bool" where
  "proof_matches self prior \<longleftrightarrow>
     sp_size self = sp_size prior \<and> sp_mtime_secs self = sp_mtime_secs prior
     \<and> sp_mtime_nanos self = sp_mtime_nanos prior"

text \<open>A \<open>SystemTime\<close> is its signed distance from the epoch in nanoseconds.\<close>

definition proof_from_timestamp :: "64 word \<Rightarrow> int \<Rightarrow> stat_proof option" where
  "proof_from_timestamp len mtime =
     (if \<bar>mtime\<bar> < 2 ^ 127 \<and> - (2 ^ 63) \<le> mtime div 1000000000 \<and> mtime div 1000000000 < 2 ^ 63
      then Some \<lparr>sp_size = len, sp_mtime_secs = of_int (mtime div 1000000000),
                 sp_mtime_nanos = of_int (mtime mod 1000000000)\<rparr>
      else None)"

definition PROOF_VERSION :: u8 where "PROOF_VERSION = 2"
definition ENCODED_LEN :: nat where "ENCODED_LEN = 21"

definition to_le_bytes32 :: "32 word \<Rightarrow> u8 list" where
  "to_le_bytes32 w = map (\<lambda>i. ucast (drop_bit (8 * i) w)) [0..<4]"

fun from_le_bytes :: "u8 list \<Rightarrow> 'a :: len word" where
  "from_le_bytes [] = 0"
| "from_le_bytes (b # bs) = ucast b OR push_bit 8 (from_le_bytes bs)"

definition encode_stat_proof :: "stat_proof \<Rightarrow> u8 list" where
  "encode_stat_proof p =
     PROOF_VERSION # to_le_bytes64 (sp_size p) @ to_le_bytes64 (sp_mtime_secs p) @ to_le_bytes32 (sp_mtime_nanos p)"

definition decode_stat_proof :: "u8 list \<Rightarrow> stat_proof option" where
  "decode_stat_proof bytes =
     (if length bytes \<noteq> ENCODED_LEN then None
      else if bytes ! 0 \<noteq> PROOF_VERSION then None
      else
        (let size = from_le_bytes (take 8 (drop 1 bytes));
             mtime_secs = from_le_bytes (take 8 (drop 9 bytes));
             mtime_nanos = from_le_bytes (take 4 (drop 17 bytes))
         in if mtime_nanos < 1000000000
            then Some \<lparr>sp_size = size, sp_mtime_secs = mtime_secs, sp_mtime_nanos = mtime_nanos\<rparr>
            else None))"

section \<open>Observing a file\<close>

datatype io_kind = NotFound | OtherIo

datatype file_kind = RegularFile | SymlinkFile | OtherFile

record metadata =
  md_kind :: file_kind
  md_len :: "64 word"
  md_modified :: "int option"

record fs_view =
  v_lstat :: "nat \<Rightarrow> io_kind + metadata"
  v_readlink :: "io_kind + str"
  v_hash :: "io_kind + oid"

datatype file_state_error = NotRegularFile | Observed

definition stat_proof_from_metadata :: "metadata \<Rightarrow> stat_proof option" where
  "stat_proof_from_metadata meta =
     (if md_kind meta \<noteq> RegularFile then None
      else Option.bind (md_modified meta) (proof_from_timestamp (md_len meta)))"

text \<open>The \<open>k\<close>th stat of the path.\<close>

definition observe_regular_file_no_follow :: "fs_view \<Rightarrow> nat \<Rightarrow> stat_proof option" where
  "observe_regular_file_no_follow v k =
     (case v_lstat v k of Inl _ \<Rightarrow> None | Inr meta \<Rightarrow> stat_proof_from_metadata meta)"

record 'a coherent_observation =
  co_value :: 'a
  co_proof :: stat_proof

text \<open>\<open>lift\<close> is \<open>E::from\<close>; the two stats are the \<open>k\<close>th and the one after it.\<close>

definition coherent_observation ::
  "(file_state_error \<Rightarrow> 'e) \<Rightarrow> fs_view \<Rightarrow> nat \<Rightarrow> (stat_proof \<Rightarrow> 'e + 'a) \<Rightarrow> 'e + 'a coherent_observation" where
  "coherent_observation lift v k op =
     and_then (ok_or (lift NotRegularFile) (observe_regular_file_no_follow v k)) (\<lambda>before.
     and_then (op before) (\<lambda>val.
     and_then (ok_or (lift Observed) (observe_regular_file_no_follow v (Suc k))) (\<lambda>after.
       if \<not> proof_matches after before then Err (lift Observed)
       else Ok \<lparr>co_value = val, co_proof = after\<rparr>)))"

datatype identity_check =
    Proven
  | SizeMismatch
  | Hashed oid bool stat_proof

definition check_known_oid ::
  "(file_state_error \<Rightarrow> 'e) \<Rightarrow> fs_view \<Rightarrow> nat \<Rightarrow> oid \<Rightarrow> stat_proof option \<Rightarrow> 'e + oid \<Rightarrow> 'e + identity_check" where
  "check_known_oid lift v k expected prior_proof hash =
     (let fallback = and_then (coherent_observation lift v (Suc k) (\<lambda>_. hash)) (\<lambda>observation.
            Ok (Hashed (co_value observation) (expected = co_value observation) (co_proof observation)))
      in case prior_proof of
           None \<Rightarrow> fallback
         | Some prior \<Rightarrow>
             (case observe_regular_file_no_follow v k of
                None \<Rightarrow> fallback
              | Some current \<Rightarrow>
                  if proof_matches current prior then Ok Proven
                  else if sp_size current \<noteq> sp_size prior then Ok SizeMismatch
                  else fallback))"

section \<open>The status of a worktree file\<close>

datatype worktree_status_kind = StatusAbsent | StatusMatches | StatusDiffers

record worktree_file_status =
  ws_kind :: worktree_status_kind
  ws_proof_refresh :: "stat_proof option"

definition status_absent :: worktree_file_status where
  "status_absent = \<lparr>ws_kind = StatusAbsent, ws_proof_refresh = None\<rparr>"

definition status_matches :: "stat_proof option \<Rightarrow> worktree_file_status" where
  "status_matches proof_refresh = \<lparr>ws_kind = StatusMatches, ws_proof_refresh = proof_refresh\<rparr>"

definition status_differs :: worktree_file_status where
  "status_differs = \<lparr>ws_kind = StatusDiffers, ws_proof_refresh = None\<rparr>"

datatype worktree_error =
    WorktreeIo str gat_path io_kind
  | WorktreeCache gat_path io_kind
  | WorktreeFileState gat_path file_state_error

text \<open>
  \<open>link_target\<close> is \<open>cache_path_oid\<close> of the expected id, the path a symlink materialization points at.
\<close>

definition file_status ::
  "fs_view \<Rightarrow> (oid \<Rightarrow> str) \<Rightarrow> gat_path \<Rightarrow> oid \<Rightarrow> stat_proof option \<Rightarrow> bool \<Rightarrow> worktree_error + worktree_file_status" where
  "file_status v link_target path expected prior_proof trust =
     (if trust then Ok (status_matches None)
      else
        (case v_lstat v 0 of
           Inl NotFound \<Rightarrow> Ok status_absent
         | Inl e \<Rightarrow> Err (WorktreeIo (lit ''reading'') path e)
         | Inr meta \<Rightarrow>
             if md_kind meta = SymlinkFile then
               and_then (map_err (WorktreeIo (lit ''reading symlink'') path) (v_readlink v)) (\<lambda>target.
                 if target = link_target expected then Ok (status_matches None) else Ok status_differs)
             else if md_kind meta \<noteq> RegularFile then Ok status_differs
             else
               and_then (check_known_oid (WorktreeFileState path) v 1 expected prior_proof
                          (map_err (WorktreeCache path) (v_hash v))) (\<lambda>check.
                 case check of
                   Proven \<Rightarrow> Ok (status_matches None)
                 | Hashed _ same proof \<Rightarrow> if same then Ok (status_matches (Some proof)) else Ok status_differs
                 | SizeMismatch \<Rightarrow> Ok status_differs)))"

section \<open>The verification of a cache object\<close>

datatype object_verification = Missing | Valid | Corrupt

datatype cache_observation = ObsMissing | ObsCorrupt | ObsValid "64 word"

fun obs_status :: "cache_observation \<Rightarrow> object_verification" where
  "obs_status ObsMissing = Missing"
| "obs_status ObsCorrupt = Corrupt"
| "obs_status (ObsValid _) = Valid"

fun verified_size :: "cache_observation \<Rightarrow> 64 word option" where
  "verified_size (ObsValid n) = Some n"
| "verified_size _ = None"

datatype cache_publication = PubUpsert oid stat_proof | PubRemove oid

fun pub_oid :: "cache_publication \<Rightarrow> oid" where
  "pub_oid (PubUpsert oid _) = oid"
| "pub_oid (PubRemove oid) = oid"

datatype cache_error =
    EntryUnreadable io_kind
  | PathUnreadable io_kind
  | CacheFileState file_state_error

definition verify_object_path_fs ::
  "fs_view \<Rightarrow> oid \<Rightarrow> stat_proof option \<Rightarrow> cache_error + cache_observation \<times> cache_publication option" where
  "verify_object_path_fs v oid prior =
     (case v_lstat v 0 of
        Inl NotFound \<Rightarrow> Ok (ObsMissing, None)
      | Inl e \<Rightarrow> Err (EntryUnreadable e)
      | Inr meta \<Rightarrow>
          if md_kind meta \<noteq> RegularFile then Ok (ObsCorrupt, Some (PubRemove oid))
          else
            (let hashed = and_then (coherent_observation CacheFileState v 1 (\<lambda>_. map_err PathUnreadable (v_hash v)))
                   (\<lambda>observation.
                     if co_value observation = oid
                     then Ok (ObsValid (sp_size (co_proof observation)), Some (PubUpsert oid (co_proof observation)))
                     else Ok (ObsCorrupt, Some (PubRemove oid)))
             in case (prior, stat_proof_from_metadata meta) of
                  (Some p, Some current) \<Rightarrow>
                    if proof_matches current p then Ok (ObsValid (sp_size current), None) else hashed
                | _ \<Rightarrow> hashed))"

section \<open>The wire format\<close>

lemma bit_from_le_bytes: "bit (from_le_bytes bs :: 'a :: len word) i \<Longrightarrow> i < 8 * length bs"
proof (induction bs arbitrary: i)
  case (Cons b bs)
  show ?case
  proof (cases "i < 8")
    case False
    then have "bit (from_le_bytes bs :: 'a word) (i - 8)"
      using Cons.prems by (auto simp: bit_simps dest: bit_imp_le_length)
    then show ?thesis using Cons.IH [of "i - 8"] False by simp
  qed simp
qed simp

lemma le_bytes_shift:
  "map (\<lambda>i. ucast (drop_bit (8 * i) (w :: 'a :: len word)) :: u8) [0..<Suc n]
     = ucast w # map (\<lambda>i. ucast (drop_bit (8 * i) (drop_bit 8 w))) [0..<n]"
  by (simp add: upt_conv_Cons map_Suc_upt [symmetric] comp_def drop_bit_drop_bit add.commute del: upt_Suc)

lemma from_le_bytes_of:
  "from_le_bytes (map (\<lambda>i. ucast (drop_bit (8 * i) w) :: u8) [0..<n]) = take_bit (8 * n) (w :: 'a :: len word)"
proof (induction n arbitrary: w)
  case (Suc n)
  show ?case
    unfolding le_bytes_shift from_le_bytes.simps Suc.IH
    by (rule bit_word_eqI) (auto simp: bit_simps)
qed simp

lemma to_le_bytes_from:
  "8 * length bs \<le> LENGTH('a :: len) \<Longrightarrow>
     map (\<lambda>i. ucast (drop_bit (8 * i) (from_le_bytes bs :: 'a word)) :: u8) [0..<length bs] = bs"
proof (induction bs)
  case (Cons b bs)
  let ?w = "from_le_bytes bs :: 'a word"
  have "(ucast (ucast b OR push_bit 8 ?w) :: u8) = b"
    using Cons.prems by (intro bit_word_eqI) (auto simp: bit_simps)
  moreover have "drop_bit 8 (ucast b OR push_bit 8 ?w) = ?w"
    using Cons.prems bit_from_le_bytes [where ?'a = 'a and bs = bs]
    by (intro bit_word_eqI) (fastforce simp: bit_simps dest: bit_imp_le_length)
  ultimately show ?case
    using Cons unfolding list.size from_le_bytes.simps add_Suc_right add_0_right le_bytes_shift by simp
qed simp

lemma from_to_le_bytes [simp]:
  "from_le_bytes (to_le_bytes64 w) = w" "from_le_bytes (to_le_bytes32 w') = w'"
  unfolding to_le_bytes64_def to_le_bytes32_def from_le_bytes_of
  by (simp_all add: take_bit_word_eq_self)

lemma to_from_le_bytes:
  "length bs = 8 \<Longrightarrow> to_le_bytes64 (from_le_bytes bs) = bs"
  "length bs = 4 \<Longrightarrow> to_le_bytes32 (from_le_bytes bs) = bs"
  using to_le_bytes_from [of bs, where ?'a = 64] to_le_bytes_from [of bs, where ?'a = 32]
  by (simp_all add: to_le_bytes64_def to_le_bytes32_def)

lemma length_le_bytes [simp]: "length (to_le_bytes64 w) = 8" "length (to_le_bytes32 w') = 4"
  by (simp_all add: to_le_bytes64_def to_le_bytes32_def)

lemma length_encode [simp]: "length (encode_stat_proof p) = 21"
  by (simp add: encode_stat_proof_def)

lemma decode_encode:
  "sp_mtime_nanos p < 1000000000 \<Longrightarrow> decode_stat_proof (encode_stat_proof p) = Some p"
  by (simp add: decode_stat_proof_def ENCODED_LEN_def) (simp add: encode_stat_proof_def)

lemma decode_Some:
  assumes "decode_stat_proof bs = Some p"
  shows "bs = encode_stat_proof p \<and> sp_mtime_nanos p < 1000000000"
proof -
  have l: "length bs = 21" and h: "bs ! 0 = PROOF_VERSION"
    and p: "sp_size p = from_le_bytes (take 8 (drop 1 bs))" "sp_mtime_secs p = from_le_bytes (take 8 (drop 9 bs))"
      "sp_mtime_nanos p = from_le_bytes (take 4 (drop 17 bs))" "sp_mtime_nanos p < 1000000000"
    using assms by (auto simp: decode_stat_proof_def ENCODED_LEN_def Let_def split: if_splits)
  have "bs = take 1 bs @ take 8 (drop 1 bs) @ take 8 (drop 9 bs) @ take 4 (drop 17 bs)"
    using l by (intro nth_equalityI) (auto simp: nth_append)
  moreover have "take 1 bs = [PROOF_VERSION]" using l h by (cases bs) auto
  ultimately show ?thesis
    using l p by (simp add: encode_stat_proof_def to_from_le_bytes)
qed

lemma proof_from_timestamp_iff:
  "proof_from_timestamp len t = Some p \<longleftrightarrow>
     sp_size p = len \<and> sp_mtime_nanos p < 1000000000
     \<and> t = sint (sp_mtime_secs p) * 1000000000 + uint (sp_mtime_nanos p)"
proof
  assume "proof_from_timestamp len t = Some p"
  then have r: "- (2 ^ 63) \<le> t div 1000000000" "t div 1000000000 < 2 ^ 63"
    and p: "sp_size p = len" "sp_mtime_secs p = of_int (t div 1000000000)" "sp_mtime_nanos p = of_int (t mod 1000000000)"
    by (auto simp: proof_from_timestamp_def split: if_splits)
  have "sint (sp_mtime_secs p) = t div 1000000000"
    unfolding p using r by (subst int_word_sint) (simp add: mod_pos_pos_trivial)
  moreover have n: "uint (sp_mtime_nanos p) = t mod 1000000000"
    unfolding p by (simp add: uint_word_of_int)
  ultimately show "sp_size p = len \<and> sp_mtime_nanos p < 1000000000
     \<and> t = sint (sp_mtime_secs p) * 1000000000 + uint (sp_mtime_nanos p)"
    using p(1) by (simp add: word_less_def)
next
  assume a: "sp_size p = len \<and> sp_mtime_nanos p < 1000000000
     \<and> t = sint (sp_mtime_secs p) * 1000000000 + uint (sp_mtime_nanos p)"
  then have n: "uint (sp_mtime_nanos p) < 1000000000" by (simp add: word_less_def)
  then have d: "t div 1000000000 = sint (sp_mtime_secs p)" "t mod 1000000000 = uint (sp_mtime_nanos p)"
    using a by (simp_all add: div_pos_pos_trivial mod_pos_pos_trivial)
  have s: "- 9223372036854775808 \<le> sint (sp_mtime_secs p)" "sint (sp_mtime_secs p) < 9223372036854775808"
    using sint_greater_eq [of "sp_mtime_secs p"] sint_less [of "sp_mtime_secs p"] by simp_all
  have "0 \<le> uint (sp_mtime_nanos p)" by simp
  then have "t < 170141183460469231731687303715884105728" "- t < 170141183460469231731687303715884105728"
    using a n s by linarith+
  then have "\<bar>t\<bar> < 2 ^ 127" by simp
  then show "proof_from_timestamp len t = Some p"
    using a s d by (simp add: proof_from_timestamp_def)
qed

section \<open>A stable file\<close>

text \<open>
  A file that nobody touches during the call: every stat sees the same node, and hashing yields the
  id \<open>H\<close> gives its bytes.
\<close>

datatype node = Vacant | Link str | Special | Bytes "u8 list" "64 word" "int option"

fun node_meta :: "node \<Rightarrow> io_kind + metadata" where
  "node_meta Vacant = Err NotFound"
| "node_meta (Link target) = Ok \<lparr>md_kind = SymlinkFile, md_len = of_nat (length target), md_modified = None\<rparr>"
| "node_meta Special = Ok \<lparr>md_kind = OtherFile, md_len = 0, md_modified = None\<rparr>"
| "node_meta (Bytes b len t) = Ok \<lparr>md_kind = RegularFile, md_len = len, md_modified = t\<rparr>"

definition stable_view :: "(u8 list \<Rightarrow> oid) \<Rightarrow> node \<Rightarrow> fs_view" where
  "stable_view H f =
     \<lparr>v_lstat = (\<lambda>_. node_meta f),
      v_readlink = (case f of Link target \<Rightarrow> Ok target | _ \<Rightarrow> Err OtherIo),
      v_hash = (case f of Bytes b _ _ \<Rightarrow> Ok (H b) | _ \<Rightarrow> Err OtherIo)\<rparr>"

fun node_proof :: "node \<Rightarrow> stat_proof option" where
  "node_proof (Bytes b len t) = Option.bind t (proof_from_timestamp len)"
| "node_proof _ = None"

text \<open>Every regular file has a representable modification time.\<close>

definition provable :: "node \<Rightarrow> bool" where
  "provable f \<longleftrightarrow> (\<forall>b len t. f = Bytes b len t \<longrightarrow> node_proof f \<noteq> None)"

text \<open>The bytes at a cache path are those of the object.\<close>

fun holds_object :: "(u8 list \<Rightarrow> oid) \<Rightarrow> node \<Rightarrow> oid \<Rightarrow> bool" where
  "holds_object H (Bytes b _ _) oid \<longleftrightarrow> H b = oid"
| "holds_object H _ oid \<longleftrightarrow> False"

text \<open>A recorded proof is honest: a file that still has its stat holds the object, and a file that holds the object has its size.\<close>

definition honest :: "(u8 list \<Rightarrow> oid) \<Rightarrow> node \<Rightarrow> oid \<Rightarrow> stat_proof option \<Rightarrow> bool" where
  "honest H f oid prior \<longleftrightarrow>
     (\<forall>p. prior = Some p \<longrightarrow>
        (node_proof f = Some p \<longrightarrow> holds_object H f oid)
        \<and> (\<forall>b len t. f = Bytes b len t \<longrightarrow> H b = oid \<longrightarrow> len = sp_size p))"

definition object_truth :: "(u8 list \<Rightarrow> oid) \<Rightarrow> node \<Rightarrow> oid \<Rightarrow> object_verification" where
  "object_truth H f oid =
     (if f = Vacant then Missing else if holds_object H f oid then Valid else Corrupt)"

definition worktree_truth :: "(u8 list \<Rightarrow> oid) \<Rightarrow> (oid \<Rightarrow> str) \<Rightarrow> node \<Rightarrow> oid \<Rightarrow> worktree_status_kind" where
  "worktree_truth H link_target f oid =
     (if f = Vacant then StatusAbsent
      else if holds_object H f oid \<or> f = Link (link_target oid) then StatusMatches else StatusDiffers)"

lemma proof_matches_eq: "proof_matches p q \<longleftrightarrow> p = q"
  by (auto simp: proof_matches_def intro: stat_proof.equality)

lemma observe_stable [simp]: "observe_regular_file_no_follow (stable_view H f) k = node_proof f"
  by (cases f) (simp_all add: observe_regular_file_no_follow_def stable_view_def stat_proof_from_metadata_def)

lemma coherent_stable:
  "coherent_observation lift (stable_view H f) k op =
     (case node_proof f of None \<Rightarrow> Err (lift NotRegularFile)
      | Some p \<Rightarrow> and_then (op p) (\<lambda>val. Ok \<lparr>co_value = val, co_proof = p\<rparr>))"
  by (cases "node_proof f"; cases "op (the (node_proof f))") (simp_all add: coherent_observation_def proof_matches_eq)

lemma coherent_Ok:
  "coherent_observation lift v k op = Ok obs \<longleftrightarrow>
     (\<exists>before. observe_regular_file_no_follow v k = Some before \<and> op before = Ok (co_value obs)
       \<and> observe_regular_file_no_follow v (Suc k) = Some before \<and> co_proof obs = before)"
  by (auto simp: coherent_observation_def ok_or_def proof_matches_eq result_elims intro: coherent_observation.equality
      split: option.splits if_splits)

lemma verify_stable:
  assumes "provable f" "honest H f oid prior"
  shows "\<exists>obs delta. verify_object_path_fs (stable_view H f) oid prior = Ok (obs, delta)
    \<and> obs_status obs = object_truth H f oid
    \<and> (case delta of None \<Rightarrow> True
       | Some (PubUpsert oid' p) \<Rightarrow> oid' = oid \<and> node_proof f = Some p \<and> obs_status obs = Valid
       | Some (PubRemove oid') \<Rightarrow> oid' = oid \<and> obs_status obs = Corrupt)"
proof (cases f)
  case (Bytes b len t)
  obtain p where p: "node_proof f = Some p" using assms(1) Bytes by (auto simp: provable_def)
  have l: "v_lstat (stable_view H f) 0 = Ok \<lparr>md_kind = RegularFile, md_len = len, md_modified = t\<rparr>"
    "v_hash (stable_view H f) = Ok (H b)"
    by (simp_all add: stable_view_def Bytes)
  have m: "stat_proof_from_metadata \<lparr>md_kind = RegularFile, md_len = len, md_modified = t\<rparr> = Some p"
    using p by (simp add: stat_proof_from_metadata_def Bytes)
  show ?thesis
    using assms(2) p unfolding verify_object_path_fs_def l
    by (cases prior) (auto simp: m Let_def coherent_stable honest_def proof_matches_eq object_truth_def Bytes)
qed (simp_all add: verify_object_path_fs_def stable_view_def object_truth_def)

lemma file_status_stable:
  assumes "provable f" "honest H f oid prior"
  shows "\<exists>s. file_status (stable_view H f) link_target path oid prior False = Ok s
    \<and> ws_kind s = worktree_truth H link_target f oid
    \<and> (\<forall>p. ws_proof_refresh s = Some p \<longrightarrow> node_proof f = Some p \<and> holds_object H f oid)"
proof (cases f)
  case (Bytes b len t)
  obtain p where p: "node_proof f = Some p" using assms(1) Bytes by (auto simp: provable_def)
  have l: "v_lstat (stable_view H f) 0 = Ok \<lparr>md_kind = RegularFile, md_len = len, md_modified = t\<rparr>"
    "v_hash (stable_view H f) = Ok (H b)"
    by (simp_all add: stable_view_def Bytes)
  have sz: "sp_size p = len" using p Bytes by (cases t) (auto simp: proof_from_timestamp_iff)
  show ?thesis
    using assms(2) p sz unfolding file_status_def l
    by (cases prior)
      (auto simp: check_known_oid_def Let_def coherent_stable honest_def proof_matches_eq worktree_truth_def Bytes
        status_matches_def status_differs_def)
qed (simp_all add: file_status_def stable_view_def worktree_truth_def status_absent_def status_matches_def status_differs_def)

section \<open>Properties\<close>

text \<open>
  C24: the stat proof and its wire format. Decoding accepts exactly the encodings of proofs with
  nanoseconds below a second, and gives the proof back; a proof taken from a file holds its size and
  its modification time, also before the epoch, and a time it cannot represent gives none.
\<close>

theorem stat_proof_codec:
  "(decode_stat_proof bs = Some p \<longleftrightarrow> bs = encode_stat_proof p \<and> sp_mtime_nanos p < 1000000000)
   \<and> (proof_from_timestamp len t = Some q \<longleftrightarrow>
        sp_size q = len \<and> sp_mtime_nanos q < 1000000000
        \<and> t = sint (sp_mtime_secs q) * 1000000000 + uint (sp_mtime_nanos q))"
  using decode_Some decode_encode proof_from_timestamp_iff by blast

text \<open>
  C25: identity verdicts. Whatever happens to the file between the calls, a cache object is reported
  valid only on a stat equal to the recorded proof, or on a hash equal to its id framed by two equal
  stats, and only then is a proof recorded. On a stable file whose recorded proof is honest the
  verdict on a cache object and on a worktree file is the truth about its content, and a recorded or
  refreshed proof is the file's own and is backed by that content.
\<close>

theorem identity_verdicts:
  "(verify_object_path_fs v oid prior = Ok (ObsValid n, delta) \<longrightarrow>
      (\<exists>p. n = sp_size p \<and>
        (delta = None \<and> prior = Some p \<and> observe_regular_file_no_follow v 0 = Some p
         \<or> delta = Some (PubUpsert oid p) \<and> v_hash v = Ok oid
            \<and> observe_regular_file_no_follow v 1 = Some p \<and> observe_regular_file_no_follow v 2 = Some p)))
   \<and> (provable f \<and> honest H f oid prior \<longrightarrow>
      (\<exists>obs d. verify_object_path_fs (stable_view H f) oid prior = Ok (obs, d) \<and> obs_status obs = object_truth H f oid
         \<and> (\<forall>p. d = Some (PubUpsert oid p) \<longrightarrow> node_proof f = Some p \<and> holds_object H f oid))
      \<and> (\<exists>s. file_status (stable_view H f) link_target path oid prior False = Ok s
         \<and> ws_kind s = worktree_truth H link_target f oid
         \<and> (\<forall>p. ws_proof_refresh s = Some p \<longrightarrow> node_proof f = Some p \<and> holds_object H f oid)))"
proof (intro conjI impI)
  assume ok: "verify_object_path_fs v oid prior = Ok (ObsValid n, delta)"
  then obtain meta where meta: "v_lstat v 0 = Ok meta" "md_kind meta = RegularFile"
    by (auto simp: verify_object_path_fs_def split: sum.splits io_kind.splits if_splits)
  then have o: "observe_regular_file_no_follow v 0 = stat_proof_from_metadata meta"
    by (simp add: observe_regular_file_no_follow_def)
  show "\<exists>p. n = sp_size p \<and>
        (delta = None \<and> prior = Some p \<and> observe_regular_file_no_follow v 0 = Some p
         \<or> delta = Some (PubUpsert oid p) \<and> v_hash v = Ok oid
            \<and> observe_regular_file_no_follow v 1 = Some p \<and> observe_regular_file_no_follow v 2 = Some p)"
  proof (cases "\<exists>p. prior = Some p \<and> stat_proof_from_metadata meta = Some p")
    case True
    then show ?thesis using ok meta unfolding o by (auto simp: verify_object_path_fs_def proof_matches_eq)
  next
    case False
    then have "and_then (coherent_observation CacheFileState v 1 (\<lambda>_. map_err PathUnreadable (v_hash v)))
                   (\<lambda>observation.
                     if co_value observation = oid
                     then Ok (ObsValid (sp_size (co_proof observation)), Some (PubUpsert oid (co_proof observation)))
                     else Ok (ObsCorrupt, Some (PubRemove oid))) = Ok (ObsValid n, delta)"
      using ok meta by (auto simp: verify_object_path_fs_def Let_def proof_matches_eq split: option.splits)
    then show ?thesis
      by (auto simp: and_then_eq_Inr coherent_Ok map_err_eq_Inr numeral_2_eq_2 split: if_splits)
  qed
next
  assume a: "provable f \<and> honest H f oid prior"
  then have f: "provable f" "honest H f oid prior" by simp_all
  have "holds_object H f oid" if "object_truth H f oid = Valid"
    using that by (auto simp: object_truth_def split: if_splits)
  then show "\<exists>obs d. verify_object_path_fs (stable_view H f) oid prior = Ok (obs, d) \<and> obs_status obs = object_truth H f oid
         \<and> (\<forall>p. d = Some (PubUpsert oid p) \<longrightarrow> node_proof f = Some p \<and> holds_object H f oid)"
    using verify_stable [OF f] by fastforce
  show "\<exists>s. file_status (stable_view H f) link_target path oid prior False = Ok s
         \<and> ws_kind s = worktree_truth H link_target f oid
         \<and> (\<forall>p. ws_proof_refresh s = Some p \<longrightarrow> node_proof f = Some p \<and> holds_object H f oid)"
    by (rule file_status_stable [OF f])
qed

lemma identity_verdicts_witness:
  "\<exists>s. file_status (stable_view Oid (Bytes [1] 1 (Some 0))) oid_bytes (GatPath (lit ''a'')) (Oid [1]) None False = Ok s
     \<and> ws_kind s = StatusMatches"
proof -
  have "provable (Bytes [1] 1 (Some 0)) \<and> honest Oid (Bytes [1] 1 (Some 0)) (Oid [1]) None"
    by (simp add: provable_def honest_def proof_from_timestamp_def)
  then show ?thesis
    using identity_verdicts [where f = "Bytes [1] 1 (Some 0)" and H = Oid and oid = "Oid [1]" and prior = None
        and link_target = oid_bytes and path = "GatPath (lit ''a'')", THEN conjunct2, THEN mp, THEN conjunct2]
    by (auto simp: worktree_truth_def)
qed

end
