(* ===== verification/CacheVerify.thy ===== *)
theory CacheVerify
  imports FileState OrderedMap
begin

text \<open>
  The proof index of the object cache (\<open>gat-io/src/cache/proof.rs\<close>) and the verification session on
  top of it (\<open>CacheClient\<close>, \<open>gat-io/src/cache/object.rs\<close>): set-based lookups, coalesced mutations in
  bounded transactions, the memo, tickets and the windowed passes. The SQLite table is the map of its
  rows; every statement and every commit may fail, as \<open>db_faults\<close> decides. The order in which a
  \<open>HashMap\<close> gives its values is an argument (\<open>order\<close>).
\<close>

section \<open>Chunks\<close>

text \<open>\<open>slice::chunks\<close>, for a positive size.\<close>

function chunks :: "nat \<Rightarrow> 'a list \<Rightarrow> 'a list list" where
  "chunks n xs = (if n = 0 \<or> xs = [] then [] else take n xs # chunks n (drop n xs))"
  by pat_completeness auto

termination
  by (relation "measure (\<lambda>(n, xs). length xs)") auto

declare chunks.simps [simp del]

lemma chunks_Nil [simp]: "chunks n [] = []"
  by (simp add: chunks.simps)

lemma concat_chunks [simp]: "0 < n \<Longrightarrow> concat (chunks n xs) = xs"
  by (induction n xs rule: chunks.induct) (subst chunks.simps, auto)

lemma chunks_bound: "c \<in> set (chunks n xs) \<Longrightarrow> length c \<le> n \<and> c \<noteq> []"
  by (induction n xs rule: chunks.induct) (subst (asm) (2) chunks.simps, auto split: if_splits)

section \<open>The proof index\<close>

type_synonym proof_table = "oid \<Rightarrow> u8 list option"

datatype cache_state = CacheState (cs_conn: "proof_table option")

datatype cache_state_error = QueryFailed str

record db_faults =
  read_ok :: "nat \<Rightarrow> bool"
  commit_ok :: "nat \<Rightarrow> bool"

definition SQL_BIND_BUDGET :: nat where "SQL_BIND_BUDGET = 30000"

definition sql_chunk_size :: "nat \<Rightarrow> nat" where
  "sql_chunk_size binds_per_row = SQL_BIND_BUDGET div binds_per_row"

definition TRANSACTION_CHUNK :: nat where "TRANSACTION_CHUNK = 4096"

text \<open>\<open>SELECT oid, proof FROM objects WHERE oid IN (...)\<close>\<close>

definition select_in :: "proof_table \<Rightarrow> oid list \<Rightarrow> oid \<Rightarrow> u8 list option" where
  "select_in tbl oids oid = (if oid \<in> set oids then tbl oid else None)"

text \<open>\<open>DELETE FROM objects WHERE oid IN (...)\<close>\<close>

definition delete_in :: "oid list \<Rightarrow> proof_table \<Rightarrow> proof_table" where
  "delete_in oids tbl oid = (if oid \<in> set oids then None else tbl oid)"

text \<open>\<open>INSERT INTO objects (oid, proof) VALUES ... ON CONFLICT (oid) DO UPDATE\<close>\<close>

definition insert_values :: "(oid \<times> stat_proof) list \<Rightarrow> proof_table \<Rightarrow> proof_table" where
  "insert_values rows tbl = foldl (\<lambda>tbl (oid, p). tbl(oid \<mapsto> encode_stat_proof p)) tbl rows"

definition lookup :: "db_faults \<Rightarrow> cache_state \<Rightarrow> oid \<Rightarrow> cache_state_error + stat_proof option" where
  "lookup db self oid =
     (case cs_conn self of
        None \<Rightarrow> Ok None
      | Some tbl \<Rightarrow>
          if \<not> read_ok db 0 then Err (QueryFailed (lit ''looking up cache proof''))
          else Ok (Option.bind (tbl oid) decode_stat_proof))"

fun exact_loop :: "db_faults \<Rightarrow> nat \<Rightarrow> proof_table \<Rightarrow> oid list list \<Rightarrow> (oid \<Rightarrow> stat_proof option)
    \<Rightarrow> cache_state_error + (oid \<Rightarrow> stat_proof option)" where
  "exact_loop db k tbl [] found = Ok found"
| "exact_loop db k tbl (chunk # rest) found =
     (if \<not> read_ok db k then Err (QueryFailed (lit ''querying set-based cache proofs''))
      else exact_loop db (Suc k) tbl rest
        (\<lambda>oid. case Option.bind (select_in tbl chunk oid) decode_stat_proof of
            Some p \<Rightarrow> Some p | None \<Rightarrow> found oid))"

definition exact_many :: "db_faults \<Rightarrow> cache_state \<Rightarrow> oid list \<Rightarrow> cache_state_error + (oid \<Rightarrow> stat_proof option)" where
  "exact_many db self oids =
     (if oids = [] then Ok (\<lambda>_. None)
      else case cs_conn self of
        None \<Rightarrow> Ok (\<lambda>_. None)
      | Some tbl \<Rightarrow> exact_loop db 0 tbl (chunks (sql_chunk_size 1) oids) (\<lambda>_. None))"

text \<open>The last publication of every id, as the values of a map.\<close>

definition coalesce :: "cache_publication list \<Rightarrow> cache_publication list" where
  "coalesce deltas = map snd (bt_extend [] (map (\<lambda>delta. (pub_oid delta, delta)) deltas))"

definition group_removes :: "cache_publication list \<Rightarrow> oid list" where
  "group_removes batch = List.map_filter (\<lambda>d. case d of PubRemove oid \<Rightarrow> Some oid | _ \<Rightarrow> None) batch"

definition group_upserts :: "cache_publication list \<Rightarrow> (oid \<times> stat_proof) list" where
  "group_upserts batch = List.map_filter (\<lambda>d. case d of PubUpsert oid p \<Rightarrow> Some (oid, p) | _ \<Rightarrow> None) batch"

definition transaction :: "cache_publication list \<Rightarrow> proof_table \<Rightarrow> proof_table" where
  "transaction batch tbl =
     (let tbl = foldl (\<lambda>t chunk. delete_in chunk t) tbl (chunks (sql_chunk_size 1) (group_removes batch))
      in foldl (\<lambda>t chunk. insert_values chunk t) tbl (chunks (sql_chunk_size 2) (group_upserts batch)))"

text \<open>A failing statement or commit drops the transaction: its batch leaves no trace.\<close>

fun apply_groups :: "db_faults \<Rightarrow> nat \<Rightarrow> proof_table \<Rightarrow> cache_publication list list
    \<Rightarrow> proof_table \<times> (cache_state_error + unit)" where
  "apply_groups db k tbl [] = (tbl, Ok ())"
| "apply_groups db k tbl (batch # rest) =
     (if \<not> commit_ok db k then (tbl, Err (QueryFailed (lit ''committing cache proof mutation'')))
      else apply_groups db (Suc k) (transaction batch tbl) rest)"

definition apply_many ::
  "(cache_publication list \<Rightarrow> cache_publication list) \<Rightarrow> db_faults \<Rightarrow> cache_state \<Rightarrow> cache_publication list
     \<Rightarrow> cache_state \<times> (cache_state_error + unit)" where
  "apply_many order db self deltas =
     (if deltas = [] then (self, Ok ())
      else case cs_conn self of
        None \<Rightarrow> (self, Ok ())
      | Some tbl \<Rightarrow>
          (case apply_groups db 0 tbl (chunks TRANSACTION_CHUNK (order (coalesce deltas))) of
             (tbl', result) \<Rightarrow> (CacheState (Some tbl'), result)))"

definition remove_many ::
  "(cache_publication list \<Rightarrow> cache_publication list) \<Rightarrow> db_faults \<Rightarrow> cache_state \<Rightarrow> oid list
     \<Rightarrow> cache_state \<times> (cache_state_error + unit)" where
  "remove_many order db self oids =
     (if oids = [] then (self, Ok ()) else apply_many order db self (map PubRemove oids))"

section \<open>The verification session\<close>

text \<open>
  \<open>cc_generation\<close> numbers the identities of the \<open>Arc\<close> that stamps tickets; a client without an index
  is one whose directory does not exist yet.
\<close>

record cache_client =
  cc_index :: "cache_state option"
  cc_generation :: nat
  cc_memo :: "oid \<Rightarrow> cache_observation option"

definition persist_proofs ::
  "(cache_publication list \<Rightarrow> cache_publication list) \<Rightarrow> db_faults \<Rightarrow> cache_client \<Rightarrow> cache_publication list
     \<Rightarrow> cache_client \<times> (cache_state_error + unit)" where
  "persist_proofs order db self receipts =
     (if receipts = [] then (self, Ok ())
      else case cc_index self of
        None \<Rightarrow> (self, Ok ())
      | Some index \<Rightarrow>
          (case apply_many order db index receipts of
             (index', result) \<Rightarrow> (self\<lparr>cc_index := Some index'\<rparr>, result)))"

definition forget_memo :: "cache_client \<Rightarrow> oid list \<Rightarrow> cache_client" where
  "forget_memo self oids =
     (if oids = [] then self
      else self\<lparr>cc_memo := (\<lambda>oid. if oid \<in> set oids then None else cc_memo self oid),
                cc_generation := Suc (cc_generation self)\<rparr>)"

definition apply_publications ::
  "(cache_publication list \<Rightarrow> cache_publication list) \<Rightarrow> db_faults \<Rightarrow> cache_client \<Rightarrow> cache_publication list
     \<Rightarrow> cache_client \<times> (cache_state_error + unit)" where
  "apply_publications order db self receipts =
     persist_proofs order db (forget_memo self (map pub_oid receipts)) receipts"

definition remove_proofs ::
  "(cache_publication list \<Rightarrow> cache_publication list) \<Rightarrow> db_faults \<Rightarrow> cache_client \<Rightarrow> oid list
     \<Rightarrow> cache_client \<times> (cache_state_error + unit)" where
  "remove_proofs order db self oids =
     (if oids = [] then (self, Ok ())
      else
        (let self = forget_memo self oids in
         case cc_index self of
           None \<Rightarrow> (self, Ok ())
         | Some index \<Rightarrow>
             (case remove_many order db index oids of
                (index', result) \<Rightarrow> (self\<lparr>cc_index := Some index'\<rparr>, result))))"

text \<open>\<open>verify\<close>: one object, outside a loop; \<open>views\<close> is what the file system answers on cache paths.\<close>

definition verify_one ::
  "(cache_publication list \<Rightarrow> cache_publication list) \<Rightarrow> db_faults \<Rightarrow> (oid \<Rightarrow> fs_view) \<Rightarrow> cache_client \<Rightarrow> oid
     \<Rightarrow> cache_client \<times> (cache_error + object_verification)" where
  "verify_one order db views self oid =
     (case cc_memo self oid of
        Some observation \<Rightarrow> (self, Ok (obs_status observation))
      | None \<Rightarrow>
          (let prior = (case cc_index self of None \<Rightarrow> None
                 | Some index \<Rightarrow> (case lookup db index oid of Inl _ \<Rightarrow> None | Inr p \<Rightarrow> p))
           in case verify_object_path_fs (views oid) oid prior of
                Inl e \<Rightarrow> (self, Err e)
              | Inr (observation, delta) \<Rightarrow>
                  (let self = (case delta of None \<Rightarrow> self | Some d \<Rightarrow> fst (persist_proofs order db self [d]))
                   in (self\<lparr>cc_memo := (cc_memo self)(oid \<mapsto> observation)\<rparr>, Ok (obs_status observation)))))"

record prepared_verification =
  pv_generation :: nat
  pv_oids :: "oid list"
  pv_known :: "oid \<Rightarrow> cache_observation option"
  pv_pending :: "(oid \<times> stat_proof option) list"

record completed_verification =
  cv_generation :: nat
  cv_oids :: "oid list"
  cv_known :: "oid \<Rightarrow> cache_observation option"
  cv_results :: "(oid \<times> cache_observation \<times> cache_publication option) list"

fun partition_known :: "(oid \<Rightarrow> cache_observation option) \<Rightarrow> oid list \<Rightarrow> (oid \<Rightarrow> cache_observation option)
    \<Rightarrow> oid set \<Rightarrow> oid list \<Rightarrow> (oid \<Rightarrow> cache_observation option) \<times> oid list" where
  "partition_known memo [] known seen pending = (known, pending)"
| "partition_known memo (oid # rest) known seen pending =
     (case memo oid of
        Some observation \<Rightarrow> partition_known memo rest (known(oid \<mapsto> observation)) seen pending
      | None \<Rightarrow>
          if oid \<notin> seen then partition_known memo rest known (insert oid seen) (pending @ [oid])
          else partition_known memo rest known seen pending)"

definition prior_proofs :: "db_faults \<Rightarrow> cache_client \<Rightarrow> oid list \<Rightarrow> oid \<Rightarrow> stat_proof option" where
  "prior_proofs db self oids =
     (case cc_index self of
        None \<Rightarrow> (\<lambda>_. None)
      | Some index \<Rightarrow> (case exact_many db index oids of Inl _ \<Rightarrow> (\<lambda>_. None) | Inr found \<Rightarrow> found))"

definition prepare_verification :: "db_faults \<Rightarrow> cache_client \<Rightarrow> oid list \<Rightarrow> prepared_verification" where
  "prepare_verification db self oids =
     (case partition_known (cc_memo self) oids (\<lambda>_. None) {} [] of
        (known, pending) \<Rightarrow>
          (let priors = (if pending = [] then (\<lambda>_. None) else prior_proofs db self pending)
           in \<lparr>pv_generation = cc_generation self, pv_oids = oids, pv_known = known,
               pv_pending = map (\<lambda>oid. (oid, priors oid)) pending\<rparr>))"

text \<open>The objects are verified in parallel; of several failures one is returned, here the first.\<close>

definition run_verification ::
  "(oid \<Rightarrow> fs_view) \<Rightarrow> prepared_verification \<Rightarrow> (oid \<times> cache_error) + completed_verification" where
  "run_verification views self =
     map_ok (\<lambda>results. \<lparr>cv_generation = pv_generation self, cv_oids = pv_oids self, cv_known = pv_known self,
                        cv_results = results\<rparr>)
       (try_map (\<lambda>(oid, prior).
          map_ok (\<lambda>(observation, delta). (oid, observation, delta))
            (map_err (Pair oid) (verify_object_path_fs (views oid) oid prior))) (pv_pending self))"

fun insert_results :: "(oid \<Rightarrow> cache_observation option) \<Rightarrow> (oid \<times> cache_observation \<times> cache_publication option) list
    \<Rightarrow> cache_publication list \<Rightarrow> (oid \<Rightarrow> cache_observation option) \<times> cache_publication list" where
  "insert_results memo [] deltas = (memo, deltas)"
| "insert_results memo ((oid, observation, delta) # rest) deltas =
     insert_results (memo(oid \<mapsto> observation)) rest (case delta of None \<Rightarrow> deltas | Some d \<Rightarrow> deltas @ [d])"

definition commit_verification ::
  "(cache_publication list \<Rightarrow> cache_publication list) \<Rightarrow> db_faults \<Rightarrow> (oid \<Rightarrow> fs_view) \<Rightarrow> cache_client
     \<Rightarrow> completed_verification \<Rightarrow> cache_client \<times> ((oid \<times> cache_error) + object_verification list)" where
  "commit_verification order db views self completed =
     (case (if cv_generation completed = cc_generation self then Ok completed
            else run_verification views (prepare_verification db self (cv_oids completed))) of
        Inl e \<Rightarrow> (self, Err e)
      | Inr completed \<Rightarrow>
          (case insert_results (cc_memo self) (cv_results completed) [] of
             (memo, deltas) \<Rightarrow>
               (let statuses = map (\<lambda>oid. obs_status
                      (case cv_known completed oid of
                         Some observation \<Rightarrow> observation
                       | None \<Rightarrow> (case memo oid of Some observation \<Rightarrow> observation | None \<Rightarrow> ObsMissing)))
                      (cv_oids completed)
                in (fst (persist_proofs order db (self\<lparr>cc_memo := memo\<rparr>) deltas), Ok statuses))))"

definition VERIFY_WINDOW :: nat where "VERIFY_WINDOW = 4096"

text \<open>
  \<open>verify_windows\<close>: \<open>db\<close> and \<open>views\<close> give the answers during the \<open>k\<close>th window; \<open>on_window\<close> is the
  caller's closure, its captured state \<open>st\<close> passed along.
\<close>

fun windows_loop ::
  "(cache_publication list \<Rightarrow> cache_publication list) \<Rightarrow> (nat \<Rightarrow> db_faults) \<Rightarrow> (nat \<Rightarrow> oid \<Rightarrow> fs_view) \<Rightarrow> (cache_error \<Rightarrow> 'e)
     \<Rightarrow> ('s \<Rightarrow> oid list \<Rightarrow> object_verification list \<Rightarrow> 'e + 's)
     \<Rightarrow> nat \<Rightarrow> oid list list \<Rightarrow> cache_client \<Rightarrow> 's \<Rightarrow> cache_client \<times> ('e + 's)" where
  "windows_loop order db views lift on_window k [] self st = (self, Ok st)"
| "windows_loop order db views lift on_window k (window # rest) self st =
     (case run_verification (views k) (prepare_verification (db k) self window) of
        Inl (_, e) \<Rightarrow> (self, Err (lift e))
      | Inr completed \<Rightarrow>
          (case commit_verification order (db k) (views k) self completed of
             (self', Inl (_, e)) \<Rightarrow> (self', Err (lift e))
           | (self', Inr statuses) \<Rightarrow>
               (case on_window st window statuses of
                  Inl e \<Rightarrow> (self', Err e)
                | Inr st' \<Rightarrow> windows_loop order db views lift on_window (Suc k) rest self' st')))"

definition verify_windows ::
  "(cache_publication list \<Rightarrow> cache_publication list) \<Rightarrow> (nat \<Rightarrow> db_faults) \<Rightarrow> (nat \<Rightarrow> oid \<Rightarrow> fs_view) \<Rightarrow> (cache_error \<Rightarrow> 'e)
     \<Rightarrow> ('s \<Rightarrow> oid list \<Rightarrow> object_verification list \<Rightarrow> 'e + 's)
     \<Rightarrow> nat \<Rightarrow> oid list \<Rightarrow> cache_client \<Rightarrow> 's \<Rightarrow> cache_client \<times> ('e + 's)" where
  "verify_windows order db views lift on_window size_limit oids self st =
     windows_loop order db views lift on_window 0 (chunks size_limit oids) self st"

fun unmemoized_loop ::
  "(cache_publication list \<Rightarrow> cache_publication list) \<Rightarrow> (nat \<Rightarrow> db_faults) \<Rightarrow> (nat \<Rightarrow> oid \<Rightarrow> fs_view) \<Rightarrow> (cache_error \<Rightarrow> 'e)
     \<Rightarrow> ('s \<Rightarrow> oid list \<Rightarrow> object_verification list \<Rightarrow> 'e + 's)
     \<Rightarrow> nat \<Rightarrow> oid list list \<Rightarrow> cache_client \<Rightarrow> 's \<Rightarrow> cache_client \<times> ('e + 's)" where
  "unmemoized_loop order db views lift on_window k [] self st = (self, Ok st)"
| "unmemoized_loop order db views lift on_window k (window # rest) self st =
     (let priors = prior_proofs (db k) self window in
      case try_map (\<lambda>oid. map_ok (\<lambda>(observation, delta). (obs_status observation, delta))
             (verify_object_path_fs (views k oid) oid (priors oid))) window of
        Inl e \<Rightarrow> (self, Err (lift e))
      | Inr results \<Rightarrow>
          (let statuses = map fst results;
               self' = fst (persist_proofs order (db k) self (List.map_filter snd results))
           in case on_window st window statuses of
                Inl e \<Rightarrow> (self', Err e)
              | Inr st' \<Rightarrow> unmemoized_loop order db views lift on_window (Suc k) rest self' st'))"

definition verify_windows_unmemoized ::
  "(cache_publication list \<Rightarrow> cache_publication list) \<Rightarrow> (nat \<Rightarrow> db_faults) \<Rightarrow> (nat \<Rightarrow> oid \<Rightarrow> fs_view) \<Rightarrow> (cache_error \<Rightarrow> 'e)
     \<Rightarrow> ('s \<Rightarrow> oid list \<Rightarrow> object_verification list \<Rightarrow> 'e + 's)
     \<Rightarrow> nat \<Rightarrow> oid list \<Rightarrow> cache_client \<Rightarrow> 's \<Rightarrow> cache_client \<times> ('e + 's)" where
  "verify_windows_unmemoized order db views lift on_window size_limit oids self st =
     unmemoized_loop order db views lift on_window 0 (chunks size_limit oids) self st"

section \<open>What the mutations leave in the table\<close>

text \<open>The index as one row after another would leave it.\<close>

fun write_row :: "proof_table \<Rightarrow> cache_publication \<Rightarrow> proof_table" where
  "write_row tbl (PubUpsert oid p) = tbl(oid \<mapsto> encode_stat_proof p)"
| "write_row tbl (PubRemove oid) = tbl(oid := None)"

fun row_value :: "cache_publication \<Rightarrow> u8 list option" where
  "row_value (PubUpsert _ p) = Some (encode_stat_proof p)"
| "row_value (PubRemove _) = None"

definition keyed :: "cache_publication list \<Rightarrow> (oid \<times> cache_publication) list" where
  "keyed ds = map (\<lambda>d. (pub_oid d, d)) ds"

definition written :: "(oid \<Rightarrow> cache_publication option) \<Rightarrow> proof_table \<Rightarrow> proof_table" where
  "written m tbl oid = (case m oid of Some d \<Rightarrow> row_value d | None \<Rightarrow> tbl oid)"

lemma write_row_value: "write_row tbl d = tbl(pub_oid d := row_value d)"
  by (cases d) simp_all

lemma foldl_write: "foldl write_row tbl ds = written (map_of (rev (keyed ds))) tbl"
  by (induction ds arbitrary: tbl rule: rev_induct)
    (auto simp: written_def keyed_def fun_eq_iff write_row_value)

lemma foldl_concat: "foldl f a (concat xss) = foldl (foldl f) a xss"
  by (induction xss arbitrary: a) simp_all

lemma delete_chunks: "foldl (\<lambda>t chunk. delete_in chunk t) tbl cs = delete_in (concat cs) tbl"
  by (induction cs arbitrary: tbl) (auto simp: delete_in_def fun_eq_iff)

lemma insert_chunks: "foldl (\<lambda>t chunk. insert_values chunk t) tbl cs = insert_values (concat cs) tbl"
  unfolding insert_values_def foldl_concat by (rule refl)

lemma insert_values_get:
  "insert_values rows tbl oid = (case map_of (rev rows) oid of Some p \<Rightarrow> Some (encode_stat_proof p) | None \<Rightarrow> tbl oid)"
  unfolding insert_values_def by (induction rows rule: rev_induct) (auto split: option.split)

lemma keyed_distinct: "distinct (map fst (keyed ds)) \<longleftrightarrow> distinct (map pub_oid ds)"
  by (simp add: keyed_def comp_def)

lemma map_of_keyed:
  "distinct (map pub_oid ds) \<Longrightarrow> map_of (keyed ds) oid = Some d \<longleftrightarrow> d \<in> set ds \<and> pub_oid d = oid"
  using map_of_eq_Some_iff [of "keyed ds" oid d] by (auto simp: keyed_distinct) (auto simp: keyed_def)

lemma group_members:
  "oid \<in> set (group_removes g) \<longleftrightarrow> PubRemove oid \<in> set g"
  "(oid, p) \<in> set (group_upserts g) \<longleftrightarrow> PubUpsert oid p \<in> set g"
  by (auto simp: group_removes_def group_upserts_def List.map_filter_def split: cache_publication.splits)
    (force split: cache_publication.splits)+

lemma group_upserts_distinct: "distinct (map pub_oid g) \<Longrightarrow> distinct (map fst (group_upserts g))"
proof (induction g)
  case (Cons d g)
  have "fst ` set (group_upserts g) \<subseteq> pub_oid ` set g"
    using group_members(2) [of _ _ g] by force
  with Cons show ?case
    by (cases d) (auto simp: group_upserts_def map_filter_simps)
qed (simp add: group_upserts_def map_filter_simps)

lemma sql_chunk_size_pos [simp]: "0 < sql_chunk_size 1" "0 < sql_chunk_size 2" "0 < sql_chunk_size (Suc 0)"
  by (simp_all add: sql_chunk_size_def SQL_BIND_BUDGET_def)

lemma transaction_written:
  assumes "distinct (map pub_oid g)"
  shows "transaction g tbl = written (map_of (keyed g)) tbl"
proof
  fix oid
  let ?u = "group_upserts g"
  have u: "map_of (rev ?u) oid = Some p \<longleftrightarrow> PubUpsert oid p \<in> set g" for p
    using map_of_eq_Some_iff [of "rev ?u" oid p] group_upserts_distinct [OF assms]
    by (simp add: rev_map [symmetric] group_members)
  have t: "transaction g tbl oid = (case map_of (rev ?u) oid of Some p \<Rightarrow> Some (encode_stat_proof p)
      | None \<Rightarrow> if PubRemove oid \<in> set g then None else tbl oid)"
    by (simp add: transaction_def delete_chunks insert_chunks insert_values_get delete_in_def group_members
        del: One_nat_def split: option.split)
  show "transaction g tbl oid = written (map_of (keyed g)) tbl oid"
  proof (cases "map_of (keyed g) oid")
    case None
    then have "\<forall>d \<in> set g. pub_oid d \<noteq> oid" by (force simp: keyed_def map_of_eq_None_iff)
    then have n: "PubRemove oid \<notin> set g" "\<And>p. PubUpsert oid p \<notin> set g" by force+
    then have "map_of (rev ?u) oid = None" using u not_Some_eq by metis
    then show ?thesis using n t None by (simp add: written_def)
  next
    case (Some d)
    then have d: "d \<in> set g" "pub_oid d = oid" using map_of_keyed [OF assms] by simp_all
    show ?thesis
    proof (cases d)
      case (PubUpsert o' p)
      then show ?thesis using t u [of p] d Some by (simp add: written_def)
    next
      case (PubRemove o')
      have "PubUpsert oid p \<notin> set g" for p
        using map_of_keyed [OF assms, of oid "PubUpsert oid p"] Some PubRemove by auto
      then have "map_of (rev ?u) oid = None" using u not_Some_eq by metis
      then show ?thesis using t d Some PubRemove by (simp add: written_def)
    qed
  qed
qed

lemma written_append:
  "written (map_of (keyed b)) (written (map_of (keyed a)) tbl) = written (map_of (keyed (b @ a))) tbl"
  by (auto simp: written_def keyed_def map_add_def fun_eq_iff split: option.split)

lemma map_of_keyed_perm:
  assumes "mset a = mset b" "distinct (map pub_oid a)"
  shows "map_of (keyed a) = map_of (keyed b)"
proof -
  have "mset (map fst (keyed a)) = mset (map fst (keyed b))" using assms(1) by (simp add: keyed_def)
  then have "distinct (map fst (keyed b))" using assms(2) keyed_distinct mset_eq_imp_distinct_iff by metis
  moreover have "set (keyed a) = set (keyed b)" using mset_eq_setD [OF assms(1)] by (simp add: keyed_def)
  ultimately show ?thesis using assms(2) by (subst map_of_inject_set) (simp_all add: keyed_distinct)
qed

lemma apply_groups_written:
  assumes "distinct (map pub_oid (concat gs))"
  shows "case apply_groups db k tbl gs of (tbl', result) \<Rightarrow>
      (\<exists>ds. mset ds \<subseteq># mset (concat gs) \<and> tbl' = written (map_of (keyed ds)) tbl
        \<and> (result = Ok () \<longrightarrow> mset ds = mset (concat gs)))
      \<and> ((\<forall>j. commit_ok db j) \<longrightarrow> result = Ok ())"
  using assms
proof (induction db k tbl gs rule: apply_groups.induct)
  case (1 db k tbl)
  show ?case by (auto simp: written_def keyed_def fun_eq_iff intro!: exI [of _ "[]"])
next
  case (2 db k tbl batch rest)
  show ?case
  proof (cases "commit_ok db k")
    case True
    have t: "transaction batch tbl = written (map_of (keyed batch)) tbl"
      using 2(2) by (simp add: transaction_written)
    obtain tbl' result where r: "apply_groups db (Suc k) (transaction batch tbl) rest = (tbl', result)"
      by (cases "apply_groups db (Suc k) (transaction batch tbl) rest")
    have "distinct (map pub_oid (concat rest))" using 2(2) by simp
    then obtain ds where ds: "mset ds \<subseteq># mset (concat rest)" "tbl' = written (map_of (keyed ds)) (transaction batch tbl)"
        "result = Ok () \<longrightarrow> mset ds = mset (concat rest)" "(\<forall>j. commit_ok db j) \<longrightarrow> result = Ok ()"
      using 2(1) True r by auto
    have "tbl' = written (map_of (keyed (ds @ batch))) tbl" unfolding ds(2) t written_append by (rule refl)
    moreover have "mset (ds @ batch) \<subseteq># mset (concat (batch # rest))" using ds(1) by simp
    ultimately show ?thesis using True r ds(3,4) by (auto intro!: exI [of _ "ds @ batch"])
  next
    case False
    then show ?thesis by (auto simp: written_def keyed_def fun_eq_iff intro!: exI [of _ "[]"])
  qed
qed

lemma coalesce_keyed: "keyed (coalesce ds) = bt_extend [] (keyed ds)"
proof -
  have ok: "bt_ok (bt_extend [] (keyed ds))" by (simp add: bt_extend_ok)
  have "pub_oid v = k" if "(k, v) \<in> set (bt_extend [] (keyed ds))" for k v
  proof -
    have "bt_get (bt_extend [] (keyed ds)) k = Some v" using that bt_get_Some [OF ok] by simp
    then have "map_of (rev (keyed ds)) k = Some v"
      by (simp add: bt_get_extend bt_get_def [of "[]"] map_add_def split: option.splits)
    then show ?thesis by (auto simp: keyed_def dest: map_of_SomeD)
  qed
  then have "map (\<lambda>x. (pub_oid (snd x), snd x)) (bt_extend [] (keyed ds)) = bt_extend [] (keyed ds)"
    by (intro map_idI) auto
  then show ?thesis by (simp add: coalesce_def keyed_def comp_def)
qed

lemma coalesce_distinct: "distinct (map pub_oid (coalesce ds))"
proof -
  have "bt_ok (keyed (coalesce ds))" by (simp add: coalesce_keyed bt_extend_ok)
  then show ?thesis unfolding bt_ok_def using sorted_wrt_less_distinct keyed_distinct by blast
qed

lemma written_coalesce: "written (map_of (keyed (coalesce ds))) tbl = foldl write_row tbl ds"
proof -
  have "map_of (keyed (coalesce ds)) = map_of (rev (keyed ds))"
    using bt_get_extend [of "[]" "keyed ds"]
    by (simp add: coalesce_keyed bt_get_def fun_eq_iff map_add_def split: option.splits)
  then show ?thesis by (simp add: foldl_write)
qed

text \<open>\<open>HashMap::into_values\<close> gives every value once, in some order.\<close>

definition any_order :: "(cache_publication list \<Rightarrow> cache_publication list) \<Rightarrow> bool" where
  "any_order order \<longleftrightarrow> (\<forall>ds. mset (order ds) = mset ds)"

lemma apply_many_written:
  assumes "any_order order"
  shows "case apply_many order db (CacheState (Some tbl)) ds of (st, result) \<Rightarrow>
      (\<exists>tbl'. st = CacheState (Some tbl') \<and> (result = Ok () \<longrightarrow> tbl' = foldl write_row tbl ds)
        \<and> (\<forall>oid. tbl' oid = tbl oid \<or> (\<exists>d \<in> set ds. pub_oid d = oid \<and> tbl' oid = row_value d \<and> tbl' oid = foldl write_row tbl ds oid)))
      \<and> ((\<forall>j. commit_ok db j) \<longrightarrow> result = Ok ())"
proof (cases "ds = []")
  case False
  let ?c = "order (coalesce ds)" and ?full = "foldl write_row tbl ds"
  have ms: "mset ?c = mset (coalesce ds)" using assms by (simp add: any_order_def)
  then have "mset (map pub_oid ?c) = mset (map pub_oid (coalesce ds))" by simp
  then have d: "distinct (map pub_oid ?c)" using coalesce_distinct mset_eq_imp_distinct_iff by metis
  obtain tbl' result where r: "apply_groups db 0 tbl (chunks TRANSACTION_CHUNK ?c) = (tbl', result)"
    by (cases "apply_groups db 0 tbl (chunks TRANSACTION_CHUNK ?c)")
  have c: "concat (chunks TRANSACTION_CHUNK ?c) = ?c" by (simp add: TRANSACTION_CHUNK_def)
  obtain xs where xs: "mset xs \<subseteq># mset ?c" "tbl' = written (map_of (keyed xs)) tbl"
      "result = Ok () \<longrightarrow> mset xs = mset ?c" "(\<forall>j. commit_ok db j) \<longrightarrow> result = Ok ()"
    using apply_groups_written [where gs = "chunks TRANSACTION_CHUNK ?c" and db = db and k = 0 and tbl = tbl] d r c by auto
  have full: "written (map_of (keyed ?c)) tbl = ?full"
    using map_of_keyed_perm [OF ms d] written_coalesce by simp
  have dx: "distinct (map pub_oid xs)"
    using xs(1) d by (metis distinct_append distinct_map image_mset_subseteq_mono mset_eq_imp_distinct_iff mset_map
        mset_subset_eq_exists_conv mset_append ex_mset)
  have eq: "tbl' = ?full" if "result = Ok ()"
    using that xs(2,3) map_of_keyed_perm [OF _ dx] full by simp
  have point: "tbl' oid = tbl oid \<or> (\<exists>d \<in> set ds. pub_oid d = oid \<and> tbl' oid = row_value d \<and> tbl' oid = ?full oid)" for oid
  proof (cases "map_of (keyed xs) oid")
    case (Some e)
    then have e: "e \<in> set xs" "pub_oid e = oid" using map_of_keyed [OF dx] by simp_all
    then have "e \<in> set ?c" using xs(1) set_mset_mono by fastforce
    then have "map_of (keyed ?c) oid = Some e" using map_of_keyed [OF d] e by simp
    moreover from this have "?full oid = row_value e" unfolding full [symmetric] by (simp add: written_def)
    moreover have "e \<in> set ds"
    proof -
      have "map_of (keyed (coalesce ds)) oid = Some e"
        using calculation(1) map_of_keyed_perm [OF ms d] by simp
      then have "map_of (rev (keyed ds)) oid = Some e"
        using bt_get_extend [of "[]" "keyed ds"]
        by (simp add: coalesce_keyed bt_get_def fun_eq_iff map_add_def split: option.splits)
      then show ?thesis by (auto simp: keyed_def dest: map_of_SomeD)
    qed
    ultimately show ?thesis using xs(2) Some e by (auto simp: written_def)
  qed (simp add: xs(2) written_def)
  show ?thesis using r False eq point xs(4) by (simp add: apply_many_def)
qed (simp add: apply_many_def)

section \<open>Verification against a stable store\<close>

text \<open>What the session knows is true of the objects on disk.\<close>

definition client_ok :: "(u8 list \<Rightarrow> oid) \<Rightarrow> (oid \<Rightarrow> node) \<Rightarrow> cache_client \<Rightarrow> bool" where
  "client_ok H store c \<longleftrightarrow>
     (\<forall>oid obs. cc_memo c oid = Some obs \<longrightarrow> obs_status obs = object_truth H (store oid) oid)
     \<and> (\<forall>tbl oid bs. cc_index c = Some (CacheState (Some tbl)) \<longrightarrow> tbl oid = Some bs \<longrightarrow>
          honest H (store oid) oid (decode_stat_proof bs))"

definition true_pub :: "(u8 list \<Rightarrow> oid) \<Rightarrow> (oid \<Rightarrow> node) \<Rightarrow> cache_publication \<Rightarrow> bool" where
  "true_pub H store d \<longleftrightarrow>
     (case d of PubUpsert oid p \<Rightarrow> node_proof (store oid) = Some p \<and> holds_object H (store oid) oid | PubRemove _ \<Rightarrow> True)"

lemma honest_None [simp]: "honest H f oid None"
  by (simp add: honest_def)

lemma true_pub_honest:
  assumes "true_pub H store d" "row_value d = Some bs"
  shows "honest H (store (pub_oid d)) (pub_oid d) (decode_stat_proof bs)"
proof -
  obtain oid p where d: "d = PubUpsert oid p" "bs = encode_stat_proof p" using assms(2) by (cases d) auto
  then have p: "node_proof (store oid) = Some p" "holds_object H (store oid) oid" using assms(1) by (simp_all add: true_pub_def)
  obtain b len t where f: "store oid = Bytes b len (Some t)" "proof_from_timestamp len t = Some p"
    using p(1) by (cases "store oid") (auto simp: bind_eq_Some_conv)
  have "sp_mtime_nanos p < 1000000000" "sp_size p = len" using f(2) by (simp_all add: proof_from_timestamp_iff)
  then show ?thesis using p f decode_encode d by (simp add: honest_def)
qed

lemma persist_ok:
  assumes "any_order order" "client_ok H store c" "\<forall>d \<in> set ds. true_pub H store d"
  shows "client_ok H store (fst (persist_proofs order db c ds))"
    "cc_memo (fst (persist_proofs order db c ds)) = cc_memo c"
    "cc_generation (fst (persist_proofs order db c ds)) = cc_generation c"
proof -
  show "cc_memo (fst (persist_proofs order db c ds)) = cc_memo c"
    "cc_generation (fst (persist_proofs order db c ds)) = cc_generation c"
    by (auto simp: persist_proofs_def split: option.split prod.split)
  show "client_ok H store (fst (persist_proofs order db c ds))"
  proof (cases "\<exists>tbl. cc_index c = Some (CacheState (Some tbl)) \<and> ds \<noteq> []")
    case True
    then obtain tbl where tbl: "cc_index c = Some (CacheState (Some tbl))" "ds \<noteq> []" by blast
    obtain st result where r: "apply_many order db (CacheState (Some tbl)) ds = (st, result)"
      by (cases "apply_many order db (CacheState (Some tbl)) ds")
    then obtain tbl' where tbl': "st = CacheState (Some tbl')"
        "\<forall>oid. tbl' oid = tbl oid \<or> (\<exists>d \<in> set ds. pub_oid d = oid \<and> tbl' oid = row_value d)"
      using apply_many_written [OF assms(1), where db = db and tbl = tbl and ds = ds] by auto
    have "honest H (store oid) oid (decode_stat_proof bs)" if "tbl' oid = Some bs" for oid bs
      using tbl'(2) [rule_format, of oid]
    proof
      assume "tbl' oid = tbl oid"
      then show ?thesis using that assms(2) tbl(1) by (auto simp: client_ok_def)
    next
      assume "\<exists>d \<in> set ds. pub_oid d = oid \<and> tbl' oid = row_value d"
      then show ?thesis using that assms(3) true_pub_honest by metis
    qed
    then show ?thesis using assms(2) tbl r tbl'(1) by (simp add: client_ok_def persist_proofs_def)
  next
    case False
    then have "fst (persist_proofs order db c ds) = c"
      by (auto simp: persist_proofs_def apply_many_def split: option.split) (metis cache_state.collapse not_Some_eq)
    then show ?thesis using assms(2) by simp
  qed
qed

lemma exact_loop_Ok:
  "exact_loop db k tbl cs found = Ok found' \<Longrightarrow>
     found' oid = (if oid \<in> set (concat cs) \<and> Option.bind (tbl oid) decode_stat_proof \<noteq> None
                   then Option.bind (tbl oid) decode_stat_proof else found oid)"
proof (induction db k tbl cs found rule: exact_loop.induct)
  case (2 db k tbl chunk rest found)
  then show ?case
    by (auto simp: select_in_def split: if_splits option.splits)
qed simp

lemma prior_honest:
  assumes "client_ok H store c"
  shows "honest H (store oid) oid (prior_proofs db c oids oid)"
proof (cases "\<exists>tbl found. cc_index c = Some (CacheState (Some tbl)) \<and> exact_many db (CacheState (Some tbl)) oids = Ok found")
  case True
  then obtain tbl found where t: "cc_index c = Some (CacheState (Some tbl))" "exact_many db (CacheState (Some tbl)) oids = Ok found"
    by blast
  have "found oid = None \<or> (\<exists>bs. tbl oid = Some bs \<and> found oid = decode_stat_proof bs)"
  proof (cases "oids = []")
    case False
    then have "exact_loop db 0 tbl (chunks (sql_chunk_size 1) oids) (\<lambda>_. None) = Ok found"
      using t(2) by (simp add: exact_many_def)
    from exact_loop_Ok [OF this, of oid] show ?thesis by (cases "tbl oid") (auto split: if_splits)
  qed (use t(2) in \<open>auto simp: exact_many_def\<close>)
  then show ?thesis
    using t assms by (auto simp: prior_proofs_def client_ok_def)
next
  case False
  have "prior_proofs db c oids = (\<lambda>_. None)"
  proof (cases "cc_index c")
    case (Some index)
    then show ?thesis
      using False by (cases index; cases "cs_conn index"; cases "exact_many db index oids")
        (auto simp: prior_proofs_def exact_many_def split: if_splits)
  qed (simp add: prior_proofs_def)
  then show ?thesis by simp
qed

lemma partition_known_spec:
  "partition_known memo oids known seen pending = (known', pending') \<Longrightarrow>
     (\<forall>x. known' x = (if x \<in> set oids \<and> memo x \<noteq> None then memo x else known x))
     \<and> (\<forall>x. x \<in> set pending' \<longleftrightarrow> x \<in> set pending \<or> x \<in> set oids \<and> memo x = None \<and> x \<notin> seen)"
proof (induction oids arbitrary: known seen pending)
  case (Cons o' rest)
  show ?case
  proof (cases "memo o'")
    case None
    show ?thesis
    proof (cases "o' \<in> seen")
      case True
      then have "partition_known memo rest known seen pending = (known', pending')" using Cons.prems None by simp
      note IH = Cons.IH [OF this]
      show ?thesis
      proof (intro conjI allI)
        fix x
        show "known' x = (if x \<in> set (o' # rest) \<and> memo x \<noteq> None then memo x else known x)"
          using IH [THEN conjunct1, rule_format, of x] None by (cases "x = o'") simp_all
        show "x \<in> set pending' \<longleftrightarrow> x \<in> set pending \<or> x \<in> set (o' # rest) \<and> memo x = None \<and> x \<notin> seen"
          using IH [THEN conjunct2, rule_format, of x] True by (cases "x = o'") simp_all
      qed
    next
      case False
      then have "partition_known memo rest known (insert o' seen) (pending @ [o']) = (known', pending')"
        using Cons.prems None by simp
      note IH = Cons.IH [OF this]
      show ?thesis
      proof (intro conjI allI)
        fix x
        show "known' x = (if x \<in> set (o' # rest) \<and> memo x \<noteq> None then memo x else known x)"
          using IH [THEN conjunct1, rule_format, of x] None by (cases "x = o'") simp_all
        show "x \<in> set pending' \<longleftrightarrow> x \<in> set pending \<or> x \<in> set (o' # rest) \<and> memo x = None \<and> x \<notin> seen"
          using IH [THEN conjunct2, rule_format, of x] None False by (cases "x = o'") simp_all
      qed
    qed
  next
    case (Some obs)
    then have "partition_known memo rest (known(o' \<mapsto> obs)) seen pending = (known', pending')" using Cons.prems by simp
    note IH = Cons.IH [OF this]
    show ?thesis
    proof (intro conjI allI)
      fix x
      show "known' x = (if x \<in> set (o' # rest) \<and> memo x \<noteq> None then memo x else known x)"
        using IH [THEN conjunct1, rule_format, of x] Some by (cases "x = o'"; cases "memo x") simp_all
      show "x \<in> set pending' \<longleftrightarrow> x \<in> set pending \<or> x \<in> set (o' # rest) \<and> memo x = None \<and> x \<notin> seen"
        using IH [THEN conjunct2, rule_format, of x] Some by (cases "x = o'") simp_all
    qed
  qed
qed simp

text \<open>One verified object against the truth.\<close>

definition true_result :: "(u8 list \<Rightarrow> oid) \<Rightarrow> (oid \<Rightarrow> node) \<Rightarrow> oid \<Rightarrow> cache_observation \<Rightarrow> cache_publication option \<Rightarrow> bool" where
  "true_result H store oid obs delta \<longleftrightarrow>
     obs_status obs = object_truth H (store oid) oid \<and> (\<forall>d. delta = Some d \<longrightarrow> true_pub H store d)"

lemma verify_true:
  assumes "provable (store oid)" "honest H (store oid) oid prior"
  obtains obs delta where "verify_object_path_fs (stable_view H (store oid)) oid prior = Ok (obs, delta)"
    "true_result H store oid obs delta"
proof -
  obtain obs delta where v: "verify_object_path_fs (stable_view H (store oid)) oid prior = Ok (obs, delta)"
    "obs_status obs = object_truth H (store oid) oid"
    "case delta of None \<Rightarrow> True
       | Some (PubUpsert oid' p) \<Rightarrow> oid' = oid \<and> node_proof (store oid) = Some p \<and> obs_status obs = Valid
       | Some (PubRemove oid') \<Rightarrow> oid' = oid \<and> obs_status obs = Corrupt"
    using verify_stable [OF assms] by blast
  have "true_pub H store d" if "delta = Some d" for d
    using v(2,3) that by (auto simp: true_pub_def object_truth_def split: cache_publication.splits if_splits)
  then show ?thesis using that v(1,2) by (simp add: true_result_def)
qed

lemma insert_results_true:
  assumes "\<forall>(oid, obs, delta) \<in> set rs. true_result H store oid obs delta"
    and "\<forall>oid obs. memo oid = Some obs \<longrightarrow> obs_status obs = object_truth H (store oid) oid"
    and "\<forall>d \<in> set deltas. true_pub H store d"
  shows "case insert_results memo rs deltas of (memo', deltas') \<Rightarrow>
      (\<forall>oid obs. memo' oid = Some obs \<longrightarrow> obs_status obs = object_truth H (store oid) oid)
      \<and> (\<forall>oid. memo' oid \<noteq> None \<longleftrightarrow> memo oid \<noteq> None \<or> oid \<in> fst ` set rs)
      \<and> (\<forall>d \<in> set deltas'. true_pub H store d)"
  using assms
proof (induction memo rs deltas rule: insert_results.induct)
  case (2 memo oid observation delta rest deltas)
  have t: "true_result H store oid observation delta" using 2(2) by simp
  have "case insert_results (memo(oid \<mapsto> observation)) rest (case delta of None \<Rightarrow> deltas | Some d \<Rightarrow> deltas @ [d]) of
      (memo', deltas') \<Rightarrow>
      (\<forall>oid obs. memo' oid = Some obs \<longrightarrow> obs_status obs = object_truth H (store oid) oid)
      \<and> (\<forall>o'. memo' o' \<noteq> None \<longleftrightarrow> (memo(oid \<mapsto> observation)) o' \<noteq> None \<or> o' \<in> fst ` set rest)
      \<and> (\<forall>d \<in> set deltas'. true_pub H store d)"
    using 2(2-4) t by (intro 2(1)) (auto simp: true_result_def split: option.splits)
  then show ?case by (auto split: prod.splits)
qed simp

text \<open>One batch: preparation, verification and commit against a stable store.\<close>

lemma batch_true:
  assumes "any_order order" "client_ok H store c" "\<forall>oid. provable (store oid)"
  defines "views \<equiv> \<lambda>oid. stable_view H (store oid)"
  obtains completed c' where
    "run_verification views (prepare_verification db c oids) = Ok completed"
    "commit_verification order db' views c completed = (c', Ok (map (\<lambda>oid. object_truth H (store oid) oid) oids))"
    "client_ok H store c'" "cc_generation c' = cc_generation c"
proof -
  obtain known pending where part: "partition_known (cc_memo c) oids (\<lambda>_. None) {} [] = (known, pending)"
    by (cases "partition_known (cc_memo c) oids (\<lambda>_. None) {} []")
  have known: "known oid = (if oid \<in> set oids then cc_memo c oid else None)" for oid
    using partition_known_spec [OF part] by simp
  have pending: "set pending = {oid \<in> set oids. cc_memo c oid = None}"
    using partition_known_spec [OF part] by auto
  define priors where "priors = (if pending = [] then (\<lambda>_. None) else prior_proofs db c pending)"
  have ph: "honest H (store oid) oid (priors oid)" for oid
    using prior_honest [OF assms(2)] by (simp add: priors_def)
  let ?f = "\<lambda>(oid, prior). map_ok (\<lambda>(observation, delta). (oid, observation, delta))
            (map_err (Pair oid) (verify_object_path_fs (views oid) oid prior))"
  define g where "g = (\<lambda>oid. (oid, projr (verify_object_path_fs (views oid) oid (priors oid))))"
  have vr: "verify_object_path_fs (views oid) oid (priors oid) = Ok (snd (g oid)) \<and>
      true_result H store oid (fst (snd (g oid))) (snd (snd (g oid)))" for oid
  proof -
    obtain obs delta where "verify_object_path_fs (views oid) oid (priors oid) = Ok (obs, delta)" "true_result H store oid obs delta"
      using verify_true [where store = store and oid = oid, OF assms(3) [rule_format, of oid] ph [of oid]]
      unfolding views_def by blast
    then show ?thesis by (simp add: g_def)
  qed
  have g2: "fst (g oid) = oid" for oid by (simp add: g_def)
  have g1: "?f (oid, priors oid) = Ok (g oid)" for oid
    unfolding prod.case vr [of oid, THEN conjunct1] map_err_simps map_ok_simps
    by (simp add: case_prod_unfold prod_eq_iff g2)
  have run: "try_map ?f (map (\<lambda>oid. (oid, priors oid)) pending) = Ok (map g pending)"
    unfolding try_map_Inr list_all2_map1 list_all2_map2 using g1 by (simp add: list_all2_same)
  define completed where "completed = \<lparr>cv_generation = cc_generation c, cv_oids = oids, cv_known = known, cv_results = map g pending\<rparr>"
  have r: "run_verification views (prepare_verification db c oids) = Ok completed"
    unfolding run_verification_def prepare_verification_def part prod.case Let_def priors_def [symmetric]
    using run by (simp add: completed_def)
  obtain memo deltas where ins: "insert_results (cc_memo c) (map g pending) [] = (memo, deltas)"
    by (cases "insert_results (cc_memo c) (map g pending) []")
  have it: "\<forall>oid obs. memo oid = Some obs \<longrightarrow> obs_status obs = object_truth H (store oid) oid"
      "\<forall>oid. memo oid \<noteq> None \<longleftrightarrow> cc_memo c oid \<noteq> None \<or> oid \<in> set pending"
      "\<forall>d \<in> set deltas. true_pub H store d"
  proof -
    have "\<forall>(oid, obs, delta) \<in> set (map g pending). true_result H store oid obs delta"
      using vr g2 by (simp add: case_prod_unfold)
    note all = insert_results_true [OF this, of "cc_memo c" "[]", unfolded ins prod.case]
    have keys: "fst ` set (map g pending) = set pending" by (simp add: image_image g2)
    have m: "\<forall>oid obs. cc_memo c oid = Some obs \<longrightarrow> obs_status obs = object_truth H (store oid) oid"
      using assms(2) by (simp add: client_ok_def)
    show "\<forall>oid obs. memo oid = Some obs \<longrightarrow> obs_status obs = object_truth H (store oid) oid"
      "\<forall>oid. memo oid \<noteq> None \<longleftrightarrow> cc_memo c oid \<noteq> None \<or> oid \<in> set pending"
      "\<forall>d \<in> set deltas. true_pub H store d"
      using all [OF m] unfolding keys by simp_all
  qed
  define c' where "c' = fst (persist_proofs order db' (c\<lparr>cc_memo := memo\<rparr>) deltas)"
  have ok: "client_ok H store (c\<lparr>cc_memo := memo\<rparr>)" using assms(2) it(1) by (simp add: client_ok_def)
  note p = persist_ok [OF assms(1) ok it(3), of db', folded c'_def]
  have st: "obs_status (case known oid of Some observation \<Rightarrow> observation
        | None \<Rightarrow> (case memo oid of Some observation \<Rightarrow> observation | None \<Rightarrow> ObsMissing)) = object_truth H (store oid) oid"
    if mem: "oid \<in> set oids" for oid
  proof (cases "cc_memo c oid")
    case (Some obs)
    then show ?thesis using that known assms(2) by (simp add: client_ok_def)
  next
    case None
    then have "oid \<in> set pending" using mem pending by simp
    then obtain obs where "memo oid = Some obs" using it(2) by blast
    then show ?thesis using mem None known it(1) by simp
  qed
  then have comm: "commit_verification order db' views c completed = (c', Ok (map (\<lambda>oid. object_truth H (store oid) oid) oids))"
    unfolding commit_verification_def completed_def by (simp add: ins c'_def)
  show ?thesis by (rule that [OF r comm p(1)]) (simp add: p(3))
qed

text \<open>The caller's closure run over the windows, the verdicts being the truth.\<close>

fun run_windows :: "('s \<Rightarrow> oid list \<Rightarrow> object_verification list \<Rightarrow> 'e + 's) \<Rightarrow> (oid \<Rightarrow> object_verification)
    \<Rightarrow> oid list list \<Rightarrow> 's \<Rightarrow> 'e + 's" where
  "run_windows on_window truth [] st = Ok st"
| "run_windows on_window truth (w # ws) st = and_then (on_window st w (map truth w)) (run_windows on_window truth ws)"

lemma windows_loop_true:
  assumes "any_order order" "client_ok H store c" "\<forall>oid. provable (store oid)"
  shows "\<exists>c'. windows_loop order db (\<lambda>_ oid. stable_view H (store oid)) lift on_window k ws c st
      = (c', run_windows on_window (\<lambda>oid. object_truth H (store oid) oid) ws st) \<and> client_ok H store c'"
  using assms(2)
proof (induction ws arbitrary: k c st)
  case (Cons w ws)
  obtain completed c' where b:
    "run_verification (\<lambda>oid. stable_view H (store oid)) (prepare_verification (db k) c w) = Ok completed"
    "commit_verification order (db k) (\<lambda>oid. stable_view H (store oid)) c completed
       = (c', Ok (map (\<lambda>oid. object_truth H (store oid) oid) w))"
    "client_ok H store c'"
    by (rule batch_true [OF assms(1) Cons.prems assms(3), where db = "db k" and db' = "db k" and oids = w]) blast
  show ?case
    using Cons.IH [OF b(3)] b
    by (cases "on_window st w (map (\<lambda>oid. object_truth H (store oid) oid) w)") simp_all
qed simp

lemma unmemoized_loop_true:
  assumes "any_order order" "client_ok H store c" "\<forall>oid. provable (store oid)"
  shows "\<exists>c'. unmemoized_loop order db (\<lambda>_ oid. stable_view H (store oid)) lift on_window k ws c st
      = (c', run_windows on_window (\<lambda>oid. object_truth H (store oid) oid) ws st)
      \<and> client_ok H store c' \<and> cc_memo c' = cc_memo c"
  using assms(2)
proof (induction ws arbitrary: k c st)
  case (Cons w ws)
  let ?priors = "prior_proofs (db k) c w"
  define g where "g = (\<lambda>oid. projr (verify_object_path_fs (stable_view H (store oid)) oid (?priors oid)))"
  have vr: "verify_object_path_fs (stable_view H (store oid)) oid (?priors oid) = Ok (g oid) \<and>
      true_result H store oid (fst (g oid)) (snd (g oid))" for oid
    by (rule verify_true [where store = store and oid = oid, OF assms(3) [rule_format, of oid] prior_honest [OF Cons.prems, where db = "db k" and oids = w]])
      (simp add: g_def)
  let ?f = "\<lambda>oid. map_ok (\<lambda>(observation, delta). (obs_status observation, delta))
             (verify_object_path_fs (stable_view H (store oid)) oid (?priors oid))"
  have run: "try_map ?f w = Ok (map (\<lambda>oid. (obs_status (fst (g oid)), snd (g oid))) w)"
    unfolding try_map_Inr list_all2_map2 vr [THEN conjunct1] by (simp add: list_all2_same case_prod_unfold)
  have st: "map fst (map (\<lambda>oid. (obs_status (fst (g oid)), snd (g oid))) w) = map (\<lambda>oid. object_truth H (store oid) oid) w"
    using vr by (simp add: true_result_def)
  define ds where "ds = List.map_filter snd (map (\<lambda>oid. (obs_status (fst (g oid)), snd (g oid))) w)"
  have "\<forall>d \<in> set ds. true_pub H store d"
  proof
    fix d assume "d \<in> set ds"
    then obtain oid where "snd (g oid) = Some d" by (auto simp: ds_def List.map_filter_def)
    then show "true_pub H store d" using vr [of oid] by (simp add: true_result_def)
  qed
  note p = persist_ok [OF assms(1) Cons.prems this, of "db k"]
  show ?case
    unfolding unmemoized_loop.simps Let_def run sum.case st ds_def [symmetric] run_windows.simps
    using Cons.IH [OF p(1)] p(1,2)
    by (cases "on_window st w (map (\<lambda>oid. object_truth H (store oid) oid) w)") simp_all
qed simp

section \<open>Properties\<close>

text \<open>
  C26: the last write wins. However the map orders the coalesced publications and wherever the
  transaction boundaries fall, applying a batch leaves the table that writing its publications one by
  one would leave; when a transaction fails, every row is either the old one or that final one.
\<close>

theorem proof_index_last_write:
  assumes "any_order order"
  shows "case apply_many order db (CacheState (Some tbl)) deltas of (st, result) \<Rightarrow>
      (\<exists>tbl'. st = CacheState (Some tbl') \<and> (result = Ok () \<longrightarrow> tbl' = foldl write_row tbl deltas)
        \<and> (\<forall>oid. tbl' oid = tbl oid \<or> tbl' oid = foldl write_row tbl deltas oid))
      \<and> ((\<forall>k. commit_ok db k) \<longrightarrow> result = Ok ())"
  using apply_many_written [OF assms, where db = db and tbl = tbl and ds = deltas] by fastforce

lemma proof_index_last_write_witness:
  "snd (apply_many rev \<lparr>read_ok = (\<lambda>_. True), commit_ok = (\<lambda>_. True)\<rparr> (CacheState (Some (\<lambda>_. None)))
     [PubUpsert (Oid [1]) \<lparr>sp_size = 1, sp_mtime_secs = 0, sp_mtime_nanos = 0\<rparr>, PubRemove (Oid [1])]) = Ok ()"
proof -
  have "any_order rev" by (simp add: any_order_def)
  from proof_index_last_write [OF this, where tbl = "\<lambda>_. None"
      and db = "\<lparr>read_ok = (\<lambda>_. True), commit_ok = (\<lambda>_. True)\<rparr>"
      and deltas = "[PubUpsert (Oid [1]) \<lparr>sp_size = 1, sp_mtime_secs = 0, sp_mtime_nanos = 0\<rparr>, PubRemove (Oid [1])]"]
  show ?thesis by (simp add: case_prod_unfold)
qed

text \<open>
  C27: a verification session reports the truth. On a stable store, with an honest proof index and
  memo, both windowed passes hand every window of ids, in order, to the caller with the true verdicts,
  whatever the database does, and keep index and memo honest (the unmemoized pass leaves the memo
  alone). A ticket of another generation is verified again, whatever it claims; publications forget the
  memo of their objects and make every earlier ticket such a one.
\<close>

theorem verification_session:
  assumes "any_order order" "client_ok H store c" "\<forall>oid. provable (store oid)" "0 < n"
  defines "truth \<equiv> \<lambda>oid. object_truth H (store oid) oid"
    and "views \<equiv> \<lambda>oid. stable_view H (store oid)"
  shows "(\<exists>c1. verify_windows order db (\<lambda>_. views) lift on_window n oids c st
        = (c1, run_windows on_window truth (chunks n oids) st) \<and> client_ok H store c1)
    \<and> (\<exists>c2. verify_windows_unmemoized order db (\<lambda>_. views) lift on_window n oids c st
        = (c2, run_windows on_window truth (chunks n oids) st) \<and> client_ok H store c2 \<and> cc_memo c2 = cc_memo c)
    \<and> concat (chunks n oids) = oids
    \<and> (cv_generation ticket \<noteq> cc_generation c \<longrightarrow>
        (\<exists>c3. commit_verification order (db 0) views c ticket = (c3, Ok (map truth (cv_oids ticket))) \<and> client_ok H store c3))
    \<and> (receipts \<noteq> [] \<longrightarrow> cc_generation (fst (apply_publications order (db 0) c receipts)) \<noteq> cc_generation c
        \<and> (\<forall>d \<in> set receipts. cc_memo (fst (apply_publications order (db 0) c receipts)) (pub_oid d) = None))"
proof (intro conjI impI)
  show "\<exists>c1. verify_windows order db (\<lambda>_. views) lift on_window n oids c st
        = (c1, run_windows on_window truth (chunks n oids) st) \<and> client_ok H store c1"
    unfolding truth_def views_def verify_windows_def by (rule windows_loop_true [OF assms(1-3)])
  show "\<exists>c2. verify_windows_unmemoized order db (\<lambda>_. views) lift on_window n oids c st
        = (c2, run_windows on_window truth (chunks n oids) st) \<and> client_ok H store c2 \<and> cc_memo c2 = cc_memo c"
    unfolding truth_def views_def verify_windows_unmemoized_def by (rule unmemoized_loop_true [OF assms(1-3)])
  show "concat (chunks n oids) = oids" using assms(4) by simp
  show "\<exists>c3. commit_verification order (db 0) views c ticket = (c3, Ok (map truth (cv_oids ticket))) \<and> client_ok H store c3"
    if "cv_generation ticket \<noteq> cc_generation c"
  proof -
    obtain completed c' where b:
      "run_verification views (prepare_verification (db 0) c (cv_oids ticket)) = Ok completed"
      "commit_verification order (db 0) views c completed = (c', Ok (map truth (cv_oids ticket)))" "client_ok H store c'"
      unfolding truth_def views_def
      by (rule batch_true [OF assms(1-3), where db = "db 0" and db' = "db 0" and oids = "cv_oids ticket"]) blast
    have g: "cv_generation completed = cc_generation c"
      using b(1) by (auto simp: run_verification_def prepare_verification_def Let_def map_ok_eq_Inr split: prod.splits)
    have "commit_verification order (db 0) views c ticket = commit_verification order (db 0) views c completed"
      unfolding commit_verification_def using \<open>cv_generation ticket \<noteq> cc_generation c\<close> g b(1) by simp
    then show ?thesis using b by simp
  qed
  assume r: "receipts \<noteq> []"
  have kept: "cc_memo (fst (persist_proofs order (db 0) c' ds)) = cc_memo c'"
    "cc_generation (fst (persist_proofs order (db 0) c' ds)) = cc_generation c'" for c' ds
    by (auto simp: persist_proofs_def split: option.split prod.split)
  show "cc_generation (fst (apply_publications order (db 0) c receipts)) \<noteq> cc_generation c"
    using r by (simp add: apply_publications_def kept forget_memo_def)
  show "\<forall>d \<in> set receipts. cc_memo (fst (apply_publications order (db 0) c receipts)) (pub_oid d) = None"
    using r by (simp add: apply_publications_def kept forget_memo_def)
qed

lemma verification_session_witness:
  "\<exists>c1. verify_windows rev (\<lambda>_. \<lparr>read_ok = (\<lambda>_. False), commit_ok = (\<lambda>_. True)\<rparr>)
      (\<lambda>_ oid. stable_view Oid (Bytes [1] 1 (Some 0))) id (\<lambda>st w ss. Ok (st @ ss)) 1 [Oid [1], Oid [2]]
      \<lparr>cc_index = Some (CacheState (Some (\<lambda>_. None))), cc_generation = 0, cc_memo = (\<lambda>_. None)\<rparr> []
    = (c1, Ok [Valid, Corrupt])"
proof -
  have o: "any_order rev" by (simp add: any_order_def)
  have p: "\<forall>oid :: oid. provable ((\<lambda>_. Bytes [1] 1 (Some 0)) oid)"
    by (simp add: provable_def proof_from_timestamp_def)
  have c: "client_ok Oid (\<lambda>_. Bytes [1] 1 (Some 0))
      \<lparr>cc_index = Some (CacheState (Some (\<lambda>_. None))), cc_generation = 0, cc_memo = (\<lambda>_. None)\<rparr>"
    by (simp add: client_ok_def)
  show ?thesis
    using verification_session [OF o c p, where n = 1 and db = "\<lambda>_. \<lparr>read_ok = (\<lambda>_. False), commit_ok = (\<lambda>_. True)\<rparr>"
        and lift = id and on_window = "\<lambda>st w ss. Ok (st @ ss)" and oids = "[Oid [1], Oid [2]]" and st = "[]", THEN conjunct1]
    by (simp add: chunks.simps object_truth_def) blast
qed

end
