(* ===== verification/SyncPlan.thy ===== *)
theory SyncPlan
  imports CacheVerify PathSelection
begin

text \<open>
  Reconciliation planning (\<open>gat-engine/src/workspace/sync/plan.rs\<close> and the types of
  \<open>sync/mod.rs\<close>): the merge of the desired and the materialized rows, the classification of every
  path, and the bounded buffer that defers cache-dependent rows until a window of objects has been
  verified in one batch. The planner reads the working tree through \<open>wt\<close> (\<open>WorktreeClient::file_status\<close>),
  verifies objects through \<open>verify\<close> (the windowed passes of the cache client) and delivers to a sink;
  \<open>verify\<close> and the sink are the interfaces \<open>object_verifier\<close> and \<open>total_sink\<close>.
\<close>

section \<open>Policies, actions and plans\<close>

datatype validation = Validate | TrustState

datatype reconciliation_policy = PolicyValidate bool | PolicyTrustState

fun policy_validation :: "reconciliation_policy \<Rightarrow> validation" where
  "policy_validation (PolicyValidate _) = Validate"
| "policy_validation PolicyTrustState = TrustState"

fun policy_rematerialize :: "reconciliation_policy \<Rightarrow> bool" where
  "policy_rematerialize (PolicyValidate r) = r"
| "policy_rematerialize PolicyTrustState = False"

fun for_ledger :: "reconciliation_policy \<Rightarrow> bool \<Rightarrow> reconciliation_policy" where
  "for_ledger PolicyTrustState True = PolicyValidate False"
| "for_ledger other _ = other"

fun policy_from_validation :: "validation \<Rightarrow> reconciliation_policy" where
  "policy_from_validation Validate = PolicyValidate False"
| "policy_from_validation TrustState = PolicyTrustState"

datatype conflict_resolution =
    ResReplace entry
  | ResRematerialize entry
  | ResRemove gat_path
  | ResMissingObject entry

datatype sync_action =
    Materialize entry
  | Replace entry
  | Remove gat_path
  | Rematerialize entry
  | Conflict conflict_resolution
  | MissingObject gat_path oid
  | Corrupted gat_path oid

record materialized_row =
  mr_path :: gat_path
  mr_oid :: oid
  mr_proof :: "stat_proof option"

datatype state_mutation =
    Upsert materialized_row
  | RefreshStat gat_path stat_proof
  | RemoveExact gat_path

record sync_plan =
  plan_actions :: "sync_action list"
  plan_mutations :: "state_mutation list"

definition into_state_refresh :: "worktree_file_status \<Rightarrow> gat_path \<Rightarrow> state_mutation option" where
  "into_state_refresh self path = map_option (RefreshStat path) (ws_proof_refresh self)"

section \<open>Classification\<close>

type_synonym 'e worktree = "gat_path \<Rightarrow> oid \<Rightarrow> stat_proof option \<Rightarrow> bool \<Rightarrow> 'e + worktree_file_status"

definition prior_file_status :: "'e worktree \<Rightarrow> materialized_row \<Rightarrow> validation \<Rightarrow> 'e + worktree_file_status" where
  "prior_file_status wt prior v = wt (mr_path prior) (mr_oid prior) (mr_proof prior) (v = TrustState)"

definition file_status_without_prior :: "'e worktree \<Rightarrow> gat_path \<Rightarrow> oid \<Rightarrow> validation \<Rightarrow> 'e + worktree_file_status" where
  "file_status_without_prior wt path expected v = wt path expected None (v = TrustState)"

datatype materialization_intent =
    IMaterialize
  | IReplace
  | IRematerialize
  | IConflictOrReplace
  | IConflictOrRematerialize

definition classify_object :: "object_verification \<Rightarrow> entry \<Rightarrow> materialization_intent \<Rightarrow> sync_action" where
  "classify_object status entry intent =
     (let conflict = intent \<in> {IConflictOrReplace, IConflictOrRematerialize}
      in case status of
           Corrupt \<Rightarrow> Corrupted (entry_path entry) (entry_oid entry)
         | Missing \<Rightarrow>
             if conflict then Conflict (ResMissingObject entry)
             else MissingObject (entry_path entry) (entry_oid entry)
         | Valid \<Rightarrow>
             (case intent of
                IMaterialize \<Rightarrow> Materialize entry
              | IReplace \<Rightarrow> Replace entry
              | IRematerialize \<Rightarrow> Rematerialize entry
              | IConflictOrReplace \<Rightarrow> Conflict (ResReplace entry)
              | IConflictOrRematerialize \<Rightarrow> Conflict (ResRematerialize entry)))"

record pending_cache =
  pc_entry :: entry
  pc_intent :: materialization_intent

definition pending_new :: "entry \<Rightarrow> materialization_intent \<Rightarrow> pending_cache" where
  "pending_new entry intent = \<lparr>pc_entry = entry, pc_intent = intent\<rparr>"

definition desired_only_pending :: "'e worktree \<Rightarrow> entry \<Rightarrow> validation \<Rightarrow> 'e + pending_cache" where
  "desired_only_pending wt d v =
     (if v = TrustState then Ok (pending_new d IMaterialize)
      else
        and_then (file_status_without_prior wt (entry_path d) (entry_oid d) v) (\<lambda>status.
          Ok (case ws_kind status of
                StatusAbsent \<Rightarrow> pending_new d IMaterialize
              | StatusMatches \<Rightarrow> pending_new d IReplace
              | StatusDiffers \<Rightarrow> pending_new d IConflictOrReplace)))"

definition prior_only_action :: "'e worktree \<Rightarrow> materialized_row \<Rightarrow> validation \<Rightarrow> 'e + sync_action option" where
  "prior_only_action wt prior v =
     (if v = TrustState then Ok (Some (Remove (mr_path prior)))
      else
        and_then (prior_file_status wt prior v) (\<lambda>status.
          Ok (case ws_kind status of
                StatusAbsent \<Rightarrow> None
              | StatusMatches \<Rightarrow> Some (Remove (mr_path prior))
              | StatusDiffers \<Rightarrow> Some (Conflict (ResRemove (mr_path prior))))))"

section \<open>The merge buffer\<close>

datatype buffered_row = Ready sync_action | Pending pending_cache nat

text \<open>\<open>mb_client\<close> is the cache client the buffer borrows.\<close>

record ('c, 's) merge_buffer =
  mb_client :: 'c
  mb_window :: nat
  mb_sink :: 's
  mb_rows :: "buffered_row list"
  mb_pending_oids :: "oid list"
  mb_pending_slots :: "oid \<Rightarrow> nat option"
  mb_statuses :: "object_verification list"
  mb_rematerialize :: bool

definition buffer_new :: "'c \<Rightarrow> nat \<Rightarrow> 's \<Rightarrow> bool \<Rightarrow> ('c, 's) merge_buffer" where
  "buffer_new client window sink r =
     \<lparr>mb_client = client, mb_window = window, mb_sink = sink, mb_rows = [], mb_pending_oids = [],
      mb_pending_slots = (\<lambda>_. None), mb_statuses = [], mb_rematerialize = r\<rparr>"

type_synonym ('c, 'e) verifier = "bool \<Rightarrow> 'c \<Rightarrow> oid list \<Rightarrow> 'c \<times> ('e + object_verification list)"
type_synonym ('s, 'x, 'e) sink_op = "'s \<Rightarrow> 'x \<Rightarrow> 's \<times> ('e + unit)"

text \<open>\<open>rows.drain(..)\<close>: an error stops the drain and drops the rest.\<close>

fun drain :: "('s, sync_action, 'e) sink_op \<Rightarrow> object_verification list \<Rightarrow> buffered_row list \<Rightarrow> 's \<Rightarrow> 's \<times> ('e + unit)" where
  "drain act statuses [] sink = (sink, Ok ())"
| "drain act statuses (row # rows) sink =
     (let action = (case row of Ready action \<Rightarrow> action
                    | Pending kind slot \<Rightarrow> classify_object (statuses ! slot) (pc_entry kind) (pc_intent kind))
      in case act sink action of
           (sink', Inl e) \<Rightarrow> (sink', Err e)
         | (sink', Inr _) \<Rightarrow> drain act statuses rows sink')"

definition buffer_flush ::
  "('c, 'e) verifier \<Rightarrow> ('s, sync_action, 'e) sink_op \<Rightarrow> ('c, 's) merge_buffer \<Rightarrow> ('c, 's) merge_buffer \<times> ('e + unit)" where
  "buffer_flush verify act self =
     (if mb_rows self = [] then (self, Ok ())
      else
        (case (if mb_pending_oids self = [] then (self\<lparr>mb_statuses := []\<rparr>, Ok ())
               else (case verify (mb_rematerialize self) (mb_client self) (mb_pending_oids self) of
                       (client, Inl e) \<Rightarrow> (self\<lparr>mb_client := client, mb_statuses := []\<rparr>, Err e)
                     | (client, Inr statuses) \<Rightarrow>
                         (self\<lparr>mb_client := client, mb_statuses := statuses, mb_pending_oids := [],
                               mb_pending_slots := (\<lambda>_. None)\<rparr>, Ok ()))) of
           (self, Inl e) \<Rightarrow> (self, Err e)
         | (self, Inr _) \<Rightarrow>
             (case drain act (mb_statuses self) (mb_rows self) (mb_sink self) of
                (sink, result) \<Rightarrow> (self\<lparr>mb_sink := sink, mb_rows := []\<rparr>, result))))"

definition flush_if_full ::
  "('c, 'e) verifier \<Rightarrow> ('s, sync_action, 'e) sink_op \<Rightarrow> ('c, 's) merge_buffer \<Rightarrow> ('c, 's) merge_buffer \<times> ('e + unit)" where
  "flush_if_full verify act self =
     (if length (mb_rows self) \<ge> mb_window self then buffer_flush verify act self else (self, Ok ()))"

definition push_ready ::
  "('c, 'e) verifier \<Rightarrow> ('s, sync_action, 'e) sink_op \<Rightarrow> ('c, 's) merge_buffer \<Rightarrow> sync_action
     \<Rightarrow> ('c, 's) merge_buffer \<times> ('e + unit)" where
  "push_ready verify act self action = flush_if_full verify act (self\<lparr>mb_rows := mb_rows self @ [Ready action]\<rparr>)"

definition push_pending ::
  "('c, 'e) verifier \<Rightarrow> ('s, sync_action, 'e) sink_op \<Rightarrow> ('c, 's) merge_buffer \<Rightarrow> pending_cache
     \<Rightarrow> ('c, 's) merge_buffer \<times> ('e + unit)" where
  "push_pending verify act self kind =
     (let oid = entry_oid (pc_entry kind);
          (self, slot) =
            (case mb_pending_slots self oid of
               Some slot \<Rightarrow> (self, slot)
             | None \<Rightarrow>
                 (let slot = length (mb_pending_oids self)
                  in (self\<lparr>mb_pending_oids := mb_pending_oids self @ [oid],
                           mb_pending_slots := (mb_pending_slots self)(oid \<mapsto> slot)\<rparr>, slot)));
          self = self\<lparr>mb_rows := mb_rows self @ [Pending kind slot]\<rparr>
      in if length (mb_pending_oids self) \<ge> VERIFY_WINDOW then buffer_flush verify act self
         else flush_if_full verify act self)"

definition buffer_state_mutation ::
  "('s, state_mutation, 'e) sink_op \<Rightarrow> ('c, 's) merge_buffer \<Rightarrow> state_mutation \<Rightarrow> ('c, 's) merge_buffer \<times> ('e + unit)" where
  "buffer_state_mutation mutate self mutation =
     (case mutate (mb_sink self) mutation of (sink, result) \<Rightarrow> (self\<lparr>mb_sink := sink\<rparr>, result))"

section \<open>The merge\<close>

definition filter_desired_entries :: "(gat_path \<Rightarrow> bool) \<Rightarrow> entry list \<Rightarrow> entry list" where
  "filter_desired_entries matches entries = sort_key entry_path (filter (\<lambda>e. matches (entry_path e)) entries)"

text \<open>A source is what its successive \<open>next\<close> calls return; it stops at its first error.\<close>

fun next_row :: "('e + 'a) list \<Rightarrow> ('e + 'a option) \<times> ('e + 'a) list" where
  "next_row [] = (Ok None, [])"
| "next_row (Inl e # rest) = (Err e, rest)"
| "next_row (Inr x # rest) = (Ok (Some x), rest)"

fun next_matching_prior ::
  "(gat_path \<Rightarrow> bool) \<Rightarrow> ('e + materialized_row) list \<Rightarrow> ('e + materialized_row option) \<times> ('e + materialized_row) list" where
  "next_matching_prior matches [] = (Ok None, [])"
| "next_matching_prior matches (Inl e # rest) = (Err e, rest)"
| "next_matching_prior matches (Inr row # rest) =
     (if \<not> matches (mr_path row) then next_matching_prior matches rest else (Ok (Some row), rest))"

text \<open>What the merge does with one path, before the buffer and the sink are involved.\<close>

datatype decision =
    Skip
  | Enqueue pending_cache
  | Push sync_action
  | Refresh state_mutation

text \<open>A path on both sides.\<close>

definition both_decision ::
  "'e worktree \<Rightarrow> reconciliation_policy \<Rightarrow> entry \<Rightarrow> materialized_row \<Rightarrow> 'e + decision" where
  "both_decision wt policy d prior =
     (let target_matches_prior = (entry_oid d = mr_oid prior)
      in if policy_validation policy = TrustState then
           Ok (if \<not> target_matches_prior then Enqueue (pending_new d IReplace) else Skip)
         else
           and_then (prior_file_status wt prior (policy_validation policy)) (\<lambda>status.
             Ok (if target_matches_prior then
                   (case ws_kind status of
                      StatusAbsent \<Rightarrow> Enqueue (pending_new d IMaterialize)
                    | StatusMatches \<Rightarrow>
                        if policy_rematerialize policy then Enqueue (pending_new d IRematerialize)
                        else (case into_state_refresh status (entry_path d) of
                                Some mutation \<Rightarrow> Refresh mutation | None \<Rightarrow> Skip)
                    | StatusDiffers \<Rightarrow>
                        Enqueue (if policy_rematerialize policy then pending_new d IConflictOrRematerialize
                                 else pending_new d IConflictOrReplace))
                 else
                   (case ws_kind status of
                      StatusAbsent \<Rightarrow> Enqueue (pending_new d IMaterialize)
                    | StatusMatches \<Rightarrow> Enqueue (pending_new d IReplace)
                    | StatusDiffers \<Rightarrow> Enqueue (pending_new d IConflictOrReplace)))))"

definition deliver ::
  "('c, 'e) verifier \<Rightarrow> ('s, sync_action, 'e) sink_op \<Rightarrow> ('s, state_mutation, 'e) sink_op
     \<Rightarrow> 'e + decision \<Rightarrow> ('c, 's) merge_buffer \<Rightarrow> ('c, 's) merge_buffer \<times> ('e + unit)" where
  "deliver verify act mutate result buffer =
     (case result of
        Inl e \<Rightarrow> (buffer, Err e)
      | Inr Skip \<Rightarrow> (buffer, Ok ())
      | Inr (Enqueue kind) \<Rightarrow> push_pending verify act buffer kind
      | Inr (Push action) \<Rightarrow> push_ready verify act buffer action
      | Inr (Refresh mutation) \<Rightarrow> buffer_state_mutation mutate buffer mutation)"

definition opt_decision :: "sync_action option \<Rightarrow> decision" where
  "opt_decision action = (case action of None \<Rightarrow> Skip | Some a \<Rightarrow> Push a)"

text \<open>A row in hand weighs as much as one still in the source.\<close>

definition weight :: "'a option \<Rightarrow> 'b list \<Rightarrow> nat" where
  "weight current rest = (if current = None then 0 else 1) + length rest"

lemma next_row_shrinks: "next_row ds = (Inr cd, ds') \<Longrightarrow> weight cd ds' \<le> length ds"
  by (cases ds rule: next_row.cases) (auto simp: weight_def)

lemma next_matching_prior_shrinks: "next_matching_prior f ps = (Inr cp, ps') \<Longrightarrow> weight cp ps' \<le> length ps"
  by (induction f ps rule: next_matching_prior.induct) (auto simp: weight_def split: if_splits)

text \<open>
  \<open>matches\<close> filters the materialized side; the desired side is filtered at its source. The two current
  rows have been fetched.
\<close>

function merge_loop ::
  "'e worktree \<Rightarrow> ('c, 'e) verifier \<Rightarrow> ('s, sync_action, 'e) sink_op \<Rightarrow> ('s, state_mutation, 'e) sink_op
     \<Rightarrow> (gat_path \<Rightarrow> bool) \<Rightarrow> reconciliation_policy
     \<Rightarrow> entry option \<Rightarrow> ('e + entry) list \<Rightarrow> materialized_row option \<Rightarrow> ('e + materialized_row) list
     \<Rightarrow> ('c, 's) merge_buffer \<Rightarrow> ('c, 's) merge_buffer \<times> ('e + unit)" where
  "merge_loop wt verify act mutate matches policy cd ds cp ps buffer =
     (case (cd, cp) of
        (Some d, Some prior) \<Rightarrow>
          (if entry_path d = mr_path prior then
            (case deliver verify act mutate (both_decision wt policy d prior) buffer of
               (buffer, Inl e) \<Rightarrow> (buffer, Err e)
             | (buffer, Inr _) \<Rightarrow>
                 (case next_row ds of
                    (Inl e, _) \<Rightarrow> (buffer, Err e)
                  | (Inr cd, ds) \<Rightarrow>
                      (case next_matching_prior matches ps of
                         (Inl e, _) \<Rightarrow> (buffer, Err e)
                       | (Inr cp, ps) \<Rightarrow> merge_loop wt verify act mutate matches policy cd ds cp ps buffer)))
           else if entry_path d < mr_path prior then
            (case deliver verify act mutate (map_ok Enqueue (desired_only_pending wt d (policy_validation policy))) buffer of
               (buffer, Inl e) \<Rightarrow> (buffer, Err e)
             | (buffer, Inr _) \<Rightarrow>
                 (case next_row ds of
                    (Inl e, _) \<Rightarrow> (buffer, Err e)
                  | (Inr cd, ds) \<Rightarrow> merge_loop wt verify act mutate matches policy cd ds (Some prior) ps buffer))
           else
            (case deliver verify act mutate (map_ok opt_decision (prior_only_action wt prior (policy_validation policy))) buffer of
               (buffer, Inl e) \<Rightarrow> (buffer, Err e)
             | (buffer, Inr _) \<Rightarrow>
                 (case next_matching_prior matches ps of
                    (Inl e, _) \<Rightarrow> (buffer, Err e)
                  | (Inr cp, ps) \<Rightarrow> merge_loop wt verify act mutate matches policy (Some d) ds cp ps buffer)))
      | (Some d, None) \<Rightarrow>
            (case deliver verify act mutate (map_ok Enqueue (desired_only_pending wt d (policy_validation policy))) buffer of
               (buffer, Inl e) \<Rightarrow> (buffer, Err e)
             | (buffer, Inr _) \<Rightarrow>
                 (case next_row ds of
                    (Inl e, _) \<Rightarrow> (buffer, Err e)
                  | (Inr cd, ds) \<Rightarrow> merge_loop wt verify act mutate matches policy cd ds None ps buffer))
      | (None, Some prior) \<Rightarrow>
            (case deliver verify act mutate (map_ok opt_decision (prior_only_action wt prior (policy_validation policy))) buffer of
               (buffer, Inl e) \<Rightarrow> (buffer, Err e)
             | (buffer, Inr _) \<Rightarrow>
                 (case next_matching_prior matches ps of
                    (Inl e, _) \<Rightarrow> (buffer, Err e)
                  | (Inr cp, ps) \<Rightarrow> merge_loop wt verify act mutate matches policy None ds cp ps buffer))
      | (None, None) \<Rightarrow> buffer_flush verify act buffer)"
  by pat_completeness auto

termination
proof (relation "measure (\<lambda>(_, _, _, _, _, _, cd, ds, cp, ps, _).
    weight cd ds + weight cp ps)", goal_cases)
  case 1
  show ?case by simp
qed (auto dest!: next_row_shrinks [OF sym] next_matching_prior_shrinks [OF sym] simp: weight_def [of "Some _"])

declare merge_loop.simps [simp del]

definition merge_desired_with_prior ::
  "'e worktree \<Rightarrow> ('c, 'e) verifier \<Rightarrow> ('s, sync_action, 'e) sink_op \<Rightarrow> ('s, state_mutation, 'e) sink_op
     \<Rightarrow> (gat_path \<Rightarrow> bool) \<Rightarrow> reconciliation_policy \<Rightarrow> ('e + entry) list \<Rightarrow> ('e + materialized_row) list
     \<Rightarrow> nat \<Rightarrow> 'c \<Rightarrow> 's \<Rightarrow> ('c, 's) merge_buffer \<times> ('e + unit)" where
  "merge_desired_with_prior wt verify act mutate matches policy ds ps window client sink =
     (let buffer = buffer_new client window sink (policy_rematerialize policy)
      in case next_row ds of
           (Inl e, _) \<Rightarrow> (buffer, Err e)
         | (Inr cd, ds) \<Rightarrow>
             (case next_matching_prior matches ps of
                (Inl e, _) \<Rightarrow> (buffer, Err e)
              | (Inr cp, ps) \<Rightarrow> merge_loop wt verify act mutate matches policy cd ds cp ps buffer))"

text \<open>\<open>descendant_range\<close> and the \<open>WHERE\<close> clause of \<open>with_rows_in_scope\<close> (\<open>gat-io/src/state\<close>).\<close>

definition descendant_range :: "str \<Rightarrow> str \<times> str" where
  "descendant_range path = (path @ [SLASH], path @ [48])"

definition in_scope_range :: "gat_path option \<Rightarrow> gat_path \<Rightarrow> bool" where
  "in_scope_range scope path =
     (case scope of
        None \<Rightarrow> True
      | Some s \<Rightarrow>
          (case descendant_range (as_str s) of
             (lower, upper) \<Rightarrow> as_str path = as_str s \<or> (lower \<le> as_str path \<and> as_str path < upper)))"

definition rows_in_scope :: "gat_path option \<Rightarrow> ('e + materialized_row) list \<Rightarrow> ('e + materialized_row) list" where
  "rows_in_scope scope rows =
     filter (\<lambda>row. case row of Inl _ \<Rightarrow> True | Inr r \<Rightarrow> in_scope_range scope (mr_path r)) rows"

text \<open>
  \<open>FromStore\<close> holds the rows of the desired mirror and of the materialized state, both in path order;
  the desired query selects the matching rows, the selection being its residual filter.
\<close>

datatype 'e desired_source =
    FromLock lock "('e + materialized_row) list option"
  | FromStore "('e + entry) list" "('e + materialized_row) list"

definition with_desired_rows :: "(gat_path \<Rightarrow> bool) \<Rightarrow> ('e + entry) list \<Rightarrow> ('e + entry) list" where
  "with_desired_rows matches rows = filter (\<lambda>row. case row of Inl _ \<Rightarrow> True | Inr e \<Rightarrow> matches (entry_path e)) rows"

definition plan_into_sink ::
  "'e worktree \<Rightarrow> ('c, 'e) verifier \<Rightarrow> ('s, sync_action, 'e) sink_op \<Rightarrow> ('s, state_mutation, 'e) sink_op
     \<Rightarrow> ('p \<Rightarrow> str \<Rightarrow> bool) \<Rightarrow> 'e desired_source \<Rightarrow> 'p selection \<Rightarrow> reconciliation_policy \<Rightarrow> nat \<Rightarrow> 'c \<Rightarrow> 's
     \<Rightarrow> ('c, 's) merge_buffer \<times> ('e + unit)" where
  "plan_into_sink wt verify act mutate matches_with desired sel policy window client sink =
     (let scope = scope_path sel; matches = selection_matches matches_with sel
      in case desired of
           FromLock lock store \<Rightarrow>
             (let entries = map Inr (filter_desired_entries matches (lock_entries lock))
              in case store of
                   Some rows \<Rightarrow>
                     merge_desired_with_prior wt verify act mutate matches policy entries (rows_in_scope scope rows)
                       window client sink
                 | None \<Rightarrow> merge_desired_with_prior wt verify act mutate matches policy entries [] window client sink)
         | FromStore entries rows \<Rightarrow>
             merge_desired_with_prior wt verify act mutate matches policy (with_desired_rows matches entries)
               (rows_in_scope scope rows) window client sink)"

text \<open>The collecting sink is the plan it builds.\<close>

definition collect_action :: "(sync_plan, sync_action, 'e) sink_op" where
  "collect_action self action = (self\<lparr>plan_actions := plan_actions self @ [action]\<rparr>, Ok ())"

definition collect_state_mutation :: "(sync_plan, state_mutation, 'e) sink_op" where
  "collect_state_mutation self mutation = (self\<lparr>plan_mutations := plan_mutations self @ [mutation]\<rparr>, Ok ())"

definition empty_plan :: sync_plan where
  "empty_plan = \<lparr>plan_actions = [], plan_mutations = []\<rparr>"

definition plan_with_store ::
  "'e worktree \<Rightarrow> ('c, 'e) verifier \<Rightarrow> ('p \<Rightarrow> str \<Rightarrow> bool) \<Rightarrow> 'e desired_source \<Rightarrow> 'p selection
     \<Rightarrow> reconciliation_policy \<Rightarrow> nat \<Rightarrow> 'c \<Rightarrow> 'e + sync_plan" where
  "plan_with_store wt verify matches_with desired sel policy window client =
     (case plan_into_sink wt verify collect_action collect_state_mutation matches_with desired sel policy window client empty_plan of
        (_, Inl e) \<Rightarrow> Err e
      | (buffer, Inr _) \<Rightarrow> Ok (mb_sink buffer))"

record dirty_row =
  dr_path :: gat_path
  dr_desired :: "oid option"
  dr_materialized :: "oid option"

fun dirty_loop ::
  "('c, 'e) verifier \<Rightarrow> (gat_path \<Rightarrow> bool) \<Rightarrow> dirty_row list \<Rightarrow> ('c, sync_plan) merge_buffer
     \<Rightarrow> ('c, sync_plan) merge_buffer \<times> ('e + unit)" where
  "dirty_loop verify matches [] buffer = buffer_flush verify collect_action buffer"
| "dirty_loop verify matches (row # rows) buffer =
     (if \<not> matches (dr_path row) then dirty_loop verify matches rows buffer
      else
        (case (case (dr_desired row, dr_materialized row) of
                 (Some oid, prior) \<Rightarrow>
                   push_pending verify collect_action buffer
                     (pending_new \<lparr>entry_path = dr_path row, entry_oid = oid\<rparr>
                       (if prior \<noteq> None then IReplace else IMaterialize))
               | (None, Some _) \<Rightarrow> push_ready verify collect_action buffer (Remove (dr_path row))
               | (None, None) \<Rightarrow> (buffer, Ok ())) of
           (buffer, Inl e) \<Rightarrow> (buffer, Err e)
         | (buffer, Inr _) \<Rightarrow> dirty_loop verify matches rows buffer))"

definition plan_from_dirty_rows ::
  "('c, 'e) verifier \<Rightarrow> ('p \<Rightarrow> str \<Rightarrow> bool) \<Rightarrow> 'c \<Rightarrow> dirty_row list \<Rightarrow> 'p selection \<Rightarrow> 'c \<times> ('e + sync_action list)" where
  "plan_from_dirty_rows verify matches_with client rows sel =
     (if rows = [] then (client, Ok [])
      else
        (case dirty_loop verify (selection_matches matches_with sel) rows (buffer_new client (length rows) empty_plan False) of
           (buffer, Inl e) \<Rightarrow> (mb_client buffer, Err e)
         | (buffer, Inr _) \<Rightarrow> (mb_client buffer, Ok (plan_actions (mb_sink buffer)))))"

section \<open>The specification\<close>

text \<open>What one path calls for, and what it comes to once the object's state is known.\<close>

definition path_decision ::
  "'e worktree \<Rightarrow> reconciliation_policy \<Rightarrow> entry option \<times> materialized_row option \<Rightarrow> 'e + decision" where
  "path_decision wt policy pair =
     (case pair of
        (Some d, Some prior) \<Rightarrow> both_decision wt policy d prior
      | (Some d, None) \<Rightarrow> map_ok Enqueue (desired_only_pending wt d (policy_validation policy))
      | (None, Some prior) \<Rightarrow> map_ok opt_decision (prior_only_action wt prior (policy_validation policy))
      | (None, None) \<Rightarrow> Ok Skip)"

definition resolve_pending :: "(oid \<Rightarrow> object_verification) \<Rightarrow> pending_cache \<Rightarrow> sync_action" where
  "resolve_pending truth kind = classify_object (truth (entry_oid (pc_entry kind))) (pc_entry kind) (pc_intent kind)"

fun decided_actions :: "(oid \<Rightarrow> object_verification) \<Rightarrow> decision \<Rightarrow> sync_action list" where
  "decided_actions truth (Enqueue kind) = [resolve_pending truth kind]"
| "decided_actions truth (Push action) = [action]"
| "decided_actions truth _ = []"

fun decided_mutations :: "decision \<Rightarrow> state_mutation list" where
  "decided_mutations (Refresh mutation) = [mutation]"
| "decided_mutations _ = []"

text \<open>What a dirty row calls for.\<close>

definition dirty_decision :: "dirty_row \<Rightarrow> decision" where
  "dirty_decision row =
     (case (dr_desired row, dr_materialized row) of
        (Some oid, prior) \<Rightarrow>
          Enqueue (pending_new \<lparr>entry_path = dr_path row, entry_oid = oid\<rparr> (if prior \<noteq> None then IReplace else IMaterialize))
      | (None, Some _) \<Rightarrow> Push (Remove (dr_path row))
      | (None, None) \<Rightarrow> Skip)"

definition plan_of :: "(oid \<Rightarrow> object_verification) \<Rightarrow> decision list \<Rightarrow> sync_plan" where
  "plan_of truth decs = \<lparr>plan_actions = concat (map (decided_actions truth) decs), plan_mutations = concat (map decided_mutations decs)\<rparr>"

text \<open>The two ordered sides, path by path.\<close>

fun align :: "entry list \<Rightarrow> materialized_row list \<Rightarrow> (entry option \<times> materialized_row option) list" where
  "align [] [] = []"
| "align [] (p # ps) = (None, Some p) # align [] ps"
| "align (d # ds) [] = (Some d, None) # align ds []"
| "align (d # ds) (p # ps) =
     (if entry_path d = mr_path p then (Some d, Some p) # align ds ps
      else if entry_path d < mr_path p then (Some d, None) # align ds (p # ps)
      else (None, Some p) # align (d # ds) ps)"

text \<open>The rows a source has left when its first one is in hand.\<close>

definition fetched :: "entry option \<Rightarrow> ('e + entry) list \<Rightarrow> entry list \<Rightarrow> bool" where
  "fetched cd ds dl = (case dl of [] \<Rightarrow> cd = None \<and> ds = [] | d # rest \<Rightarrow> cd = Some d \<and> ds = map Inr rest)"

definition fetched_prior ::
  "(gat_path \<Rightarrow> bool) \<Rightarrow> materialized_row option \<Rightarrow> ('e + materialized_row) list \<Rightarrow> materialized_row list \<Rightarrow> bool" where
  "fetched_prior matches cp ps pl =
     (case pl of
        [] \<Rightarrow> cp = None
      | p # rest \<Rightarrow> cp = Some p \<and> (\<exists>qs. ps = map Inr qs \<and> filter (\<lambda>r. matches (mr_path r)) qs = rest))"

lemma next_row_fetched: "\<exists>cd ds. next_row (map Inr dl) = (Inr cd, ds) \<and> fetched cd ds dl"
  by (cases dl) (auto simp: fetched_def)

lemma next_prior_fetched:
  "\<exists>cp ps. next_matching_prior matches (map Inr qs) = (Inr cp, ps)
     \<and> fetched_prior matches cp ps (filter (\<lambda>r. matches (mr_path r)) qs)"
  by (induction qs) (auto simp: fetched_prior_def)

lemma fetched_simps [simp]:
  "fetched cd ds [] \<longleftrightarrow> cd = None \<and> ds = []"
  "fetched cd ds (d # dl) \<longleftrightarrow> cd = Some d \<and> ds = map Inr dl"
  "fetched_prior m cp ps [] \<longleftrightarrow> cp = None"
  "fetched_prior m cp ps (p # pl) \<longleftrightarrow>
     cp = Some p \<and> (\<exists>qs. ps = map Inr qs \<and> filter (\<lambda>r. m (mr_path r)) qs = pl)"
  by (simp_all add: fetched_def fetched_prior_def)

section \<open>The interfaces of the planner\<close>

text \<open>A verifier that tells the truth about every object it is asked about, once each.\<close>

locale object_verifier =
  fixes verify :: "('c, 'e) verifier"
    and good :: "'c \<Rightarrow> bool"
    and truth :: "oid \<Rightarrow> object_verification"
  assumes verified: "good c \<Longrightarrow> distinct oids \<Longrightarrow> \<exists>c'. verify r c oids = (c', Ok (map truth oids)) \<and> good c'"

text \<open>A sink that accepts everything.\<close>

locale total_sink =
  fixes act :: "('s, sync_action, 'e) sink_op"
    and mutate :: "('s, state_mutation, 'e) sink_op"
  assumes act_total: "snd (act s a) = Ok ()"
    and mutate_total: "snd (mutate s m) = Ok ()"

text \<open>A planner over both.\<close>

locale planner = object_verifier verify good truth + total_sink act mutate
  for verify :: "('c, 'e) verifier" and good truth
    and act :: "('s, sync_action, 'e) sink_op" and mutate :: "('s, state_mutation, 'e) sink_op"
begin

fun deliver_event :: "'s \<Rightarrow> sync_action + state_mutation \<Rightarrow> 's" where
  "deliver_event s (Inl a) = fst (act s a)"
| "deliver_event s (Inr m) = fst (mutate s m)"

definition event_actions :: "(sync_action + state_mutation) list \<Rightarrow> sync_action list" where
  "event_actions evs = List.map_filter (\<lambda>e. case e of Inl a \<Rightarrow> Some a | Inr _ \<Rightarrow> None) evs"

definition event_mutations :: "(sync_action + state_mutation) list \<Rightarrow> state_mutation list" where
  "event_mutations evs = List.map_filter (\<lambda>e. case e of Inl _ \<Rightarrow> None | Inr m \<Rightarrow> Some m) evs"

lemma event_append [simp]:
  "event_actions (a @ b) = event_actions a @ event_actions b"
  "event_mutations (a @ b) = event_mutations a @ event_mutations b"
  by (simp_all add: event_actions_def event_mutations_def List.map_filter_def)

lemma event_single [simp]:
  "event_actions [Inl a] = [a]" "event_actions [Inr m] = []"
  "event_mutations [Inl a] = []" "event_mutations [Inr m] = [m]"
  "event_actions [] = []" "event_mutations [] = []"
  by (simp_all add: event_actions_def event_mutations_def map_filter_simps)

lemma event_map_Inl [simp]: "event_actions (map Inl as) = as" "event_mutations (map Inl as) = []"
  by (simp_all add: event_actions_def event_mutations_def List.map_filter_def comp_def)

lemma event_map_Inl_comp [simp]: "event_actions (map (Inl \<circ> f) xs) = map f xs" "event_mutations (map (Inl \<circ> f) xs) = []"
  using event_map_Inl [of "map f xs"] by simp_all

fun row_action :: "buffered_row \<Rightarrow> sync_action" where
  "row_action (Ready a) = a"
| "row_action (Pending kind _) = resolve_pending truth kind"

text \<open>Pending rows point at their own object in the batch; the slots are the batch, inverted.\<close>

definition slots_ok :: "('c, 's) merge_buffer \<Rightarrow> bool" where
  "slots_ok b \<longleftrightarrow> distinct (mb_pending_oids b)
     \<and> (\<forall>oid i. mb_pending_slots b oid = Some i \<longleftrightarrow> i < length (mb_pending_oids b) \<and> mb_pending_oids b ! i = oid)
     \<and> (\<forall>kind i. Pending kind i \<in> set (mb_rows b) \<longrightarrow>
          i < length (mb_pending_oids b) \<and> mb_pending_oids b ! i = entry_oid (pc_entry kind))
     \<and> (mb_rows b = [] \<longrightarrow> mb_pending_oids b = [])"

text \<open>
  The buffer after the actions \<open>A\<close> and mutations \<open>M\<close> have been handed to it: what the sink has seen,
  followed by what is still buffered, is \<open>A\<close>; both windows are open.
\<close>

definition buffer_inv :: "'s \<Rightarrow> sync_action list \<Rightarrow> state_mutation list \<Rightarrow> ('c, 's) merge_buffer \<Rightarrow> bool" where
  "buffer_inv s\<^sub>0 A M b \<longleftrightarrow>
     (\<exists>evs. mb_sink b = foldl deliver_event s\<^sub>0 evs \<and> event_actions evs @ map row_action (mb_rows b) = A
        \<and> event_mutations evs = M)
     \<and> slots_ok b \<and> good (mb_client b)
     \<and> length (mb_rows b) < mb_window b \<and> length (mb_pending_oids b) < VERIFY_WINDOW"

lemma drain_total:
  assumes "\<forall>kind i. Pending kind i \<in> set rows \<longrightarrow> statuses ! i = truth (entry_oid (pc_entry kind))"
  shows "drain act statuses rows s = (foldl deliver_event s (map Inl (map row_action rows)), Ok ())"
  using assms
proof (induction rows arbitrary: s)
  case (Cons row rows)
  have "(case row of Ready action \<Rightarrow> action
      | Pending kind slot \<Rightarrow> classify_object (statuses ! slot) (pc_entry kind) (pc_intent kind)) = row_action row"
    using Cons.prems by (cases row) (auto simp: resolve_pending_def)
  moreover have "drain act statuses rows s' = (foldl deliver_event s' (map Inl (map row_action rows)), Ok ())" for s'
    using Cons by simp
  ultimately show ?case
    using act_total [of s "row_action row"] by (cases "act s (row_action row)") (auto simp: Let_def)
qed simp

text \<open>A flush loses nothing and reorders nothing.\<close>

lemma flush_inv:
  assumes ev: "mb_sink b = foldl deliver_event s\<^sub>0 evs" "event_actions evs @ map row_action (mb_rows b) = A"
      "event_mutations evs = M"
    and b: "slots_ok b" "good (mb_client b)" "0 < mb_window b"
  shows "\<exists>b'. buffer_flush verify act b = (b', Ok ()) \<and> buffer_inv s\<^sub>0 A M b' \<and> mb_rows b' = [] \<and> mb_pending_oids b' = []
    \<and> mb_window b' = mb_window b"
proof (cases "mb_rows b = []")
  case True
  then show ?thesis
    using assms by (auto simp: buffer_flush_def buffer_inv_def VERIFY_WINDOW_def slots_ok_def)
next
  case False
  obtain c' where v: "verify (mb_rematerialize b) (mb_client b) (mb_pending_oids b) = (c', Ok (map truth (mb_pending_oids b)))" "good c'"
  proof -
    have "distinct (mb_pending_oids b)" using b(1) by (simp add: slots_ok_def)
    then show ?thesis using verified [OF b(2), of "mb_pending_oids b" "mb_rematerialize b"] that by blast
  qed
  have pend: "\<forall>kind i. Pending kind i \<in> set (mb_rows b) \<longrightarrow> map truth (mb_pending_oids b) ! i = truth (entry_oid (pc_entry kind))"
    using b(1) by (auto simp: slots_ok_def)
  have none: "\<forall>kind i. Pending kind i \<notin> set (mb_rows b)" if "mb_pending_oids b = []"
    using b(1) that by (auto simp: slots_ok_def)
  let ?st = "if mb_pending_oids b = [] then [] else map truth (mb_pending_oids b)"
  have dr: "drain act ?st (mb_rows b) (mb_sink b) = (foldl deliver_event (mb_sink b) (map Inl (map row_action (mb_rows b))), Ok ())"
    using pend none by (intro drain_total) auto
  let ?e = "evs @ map Inl (map row_action (mb_rows b))"
  define b' where "b' = (if mb_pending_oids b = [] then b\<lparr>mb_statuses := []\<rparr>
     else b\<lparr>mb_client := c', mb_statuses := map truth (mb_pending_oids b), mb_pending_oids := [], mb_pending_slots := (\<lambda>_. None)\<rparr>)
       \<lparr>mb_sink := foldl deliver_event (mb_sink b) (map Inl (map row_action (mb_rows b))), mb_rows := []\<rparr>"
  have f: "buffer_flush verify act b = (b', Ok ())"
    using False v dr by (auto simp: buffer_flush_def b'_def)
  have "mb_sink b' = foldl deliver_event s\<^sub>0 ?e" "mb_rows b' = []" "mb_pending_oids b' = []" "good (mb_client b')"
    "mb_window b' = mb_window b"
    using ev(1) v(2) b(2) by (simp_all add: b'_def)
  moreover have "slots_ok b'" using b(1) by (auto simp: slots_ok_def b'_def)
  moreover have "event_actions ?e = A" "event_mutations ?e = M" using ev by simp_all
  ultimately show ?thesis
    using f b(3) unfolding buffer_inv_def by (auto simp: VERIFY_WINDOW_def intro!: exI [of _ ?e])
qed

text \<open>Every row handed to the buffer lands after all the earlier ones.\<close>

lemma flush_if_full_inv:
  assumes "mb_sink b = foldl deliver_event s\<^sub>0 evs" "event_actions evs @ map row_action (mb_rows b) = A"
      "event_mutations evs = M"
    and "slots_ok b" "good (mb_client b)" "0 < mb_window b"
    and "mb_rows b \<noteq> []" "length (mb_pending_oids b) < VERIFY_WINDOW"
  shows "\<exists>b'. flush_if_full verify act b = (b', Ok ()) \<and> buffer_inv s\<^sub>0 A M b' \<and> mb_window b' = mb_window b"
proof (cases "length (mb_rows b) \<ge> mb_window b")
  case True
  then show ?thesis using flush_inv [OF assms(1-6)] assms(7) by (auto simp: flush_if_full_def)
next
  case False
  then show ?thesis using assms unfolding buffer_inv_def by (auto simp: flush_if_full_def)
qed

lemma push_ready_inv:
  assumes "buffer_inv s\<^sub>0 A M b"
  shows "\<exists>b'. push_ready verify act b a = (b', Ok ()) \<and> buffer_inv s\<^sub>0 (A @ [a]) M b' \<and> mb_window b' = mb_window b"
proof -
  obtain evs where ev: "mb_sink b = foldl deliver_event s\<^sub>0 evs" "event_actions evs @ map row_action (mb_rows b) = A"
      "event_mutations evs = M" and b: "slots_ok b" "good (mb_client b)" "length (mb_rows b) < mb_window b"
      "length (mb_pending_oids b) < VERIFY_WINDOW"
    using assms unfolding buffer_inv_def by auto
  have "slots_ok (b\<lparr>mb_rows := mb_rows b @ [Ready a]\<rparr>)" using b(1) by (auto simp: slots_ok_def)
  then show ?thesis
    unfolding push_ready_def using ev b
      flush_if_full_inv [of "b\<lparr>mb_rows := mb_rows b @ [Ready a]\<rparr>" s\<^sub>0 evs "A @ [a]" M] by auto
qed

lemma slots_push:
  assumes "slots_ok b" "mb_pending_slots b (entry_oid (pc_entry kind)) = None"
  shows "slots_ok (b\<lparr>mb_pending_oids := mb_pending_oids b @ [entry_oid (pc_entry kind)],
     mb_pending_slots := (mb_pending_slots b)(entry_oid (pc_entry kind) \<mapsto> length (mb_pending_oids b)),
     mb_rows := mb_rows b @ [Pending kind (length (mb_pending_oids b))]\<rparr>)"
proof -
  let ?o = "entry_oid (pc_entry kind)"
  have s: "distinct (mb_pending_oids b)"
    "\<And>oid i. mb_pending_slots b oid = Some i \<longleftrightarrow> i < length (mb_pending_oids b) \<and> mb_pending_oids b ! i = oid"
    "\<And>kind i. Pending kind i \<in> set (mb_rows b) \<Longrightarrow>
        i < length (mb_pending_oids b) \<and> mb_pending_oids b ! i = entry_oid (pc_entry kind)"
    using assms(1) unfolding slots_ok_def by auto
  have fresh: "?o \<notin> set (mb_pending_oids b)"
  proof
    assume "?o \<in> set (mb_pending_oids b)"
    then obtain i where "i < length (mb_pending_oids b)" "mb_pending_oids b ! i = ?o" by (auto simp: in_set_conv_nth)
    then show False using s(2) [of ?o i] assms(2) by simp
  qed
  then have other: "i < length (mb_pending_oids b) \<Longrightarrow> mb_pending_oids b ! i \<noteq> ?o" for i by (metis nth_mem)
  have "((mb_pending_slots b)(?o \<mapsto> length (mb_pending_oids b))) oid = Some i \<longleftrightarrow>
      i < length (mb_pending_oids b @ [?o]) \<and> (mb_pending_oids b @ [?o]) ! i = oid" for oid i
    using s(2) [of oid i] other by (auto simp: nth_append less_Suc_eq)
  moreover have "i < length (mb_pending_oids b @ [?o]) \<and> (mb_pending_oids b @ [?o]) ! i = entry_oid (pc_entry k)"
    if "Pending k i \<in> set (mb_rows b @ [Pending kind (length (mb_pending_oids b))])" for k i
    using s(3) [of k i] that by (auto simp: nth_append)
  ultimately show ?thesis using s(1) fresh unfolding slots_ok_def by auto
qed

lemma push_pending_inv:
  assumes "buffer_inv s\<^sub>0 A M b"
  shows "\<exists>b'. push_pending verify act b kind = (b', Ok ()) \<and> buffer_inv s\<^sub>0 (A @ [resolve_pending truth kind]) M b'
    \<and> mb_window b' = mb_window b"
proof -
  obtain evs where ev: "mb_sink b = foldl deliver_event s\<^sub>0 evs" "event_actions evs @ map row_action (mb_rows b) = A"
      "event_mutations evs = M" and b: "slots_ok b" "good (mb_client b)" "length (mb_rows b) < mb_window b"
      "length (mb_pending_oids b) < VERIFY_WINDOW"
    using assms unfolding buffer_inv_def by auto
  let ?o = "entry_oid (pc_entry kind)"
  obtain b1 where b1: "mb_sink b1 = mb_sink b" "map row_action (mb_rows b1) = map row_action (mb_rows b) @ [resolve_pending truth kind]"
      "slots_ok b1" "mb_client b1 = mb_client b" "mb_window b1 = mb_window b"
    and push: "push_pending verify act b kind =
      (if length (mb_pending_oids b1) \<ge> VERIFY_WINDOW then buffer_flush verify act b1 else flush_if_full verify act b1)"
  proof (cases "mb_pending_slots b ?o")
    case None
    show ?thesis
      by (rule that [OF _ _ slots_push [OF b(1) None]]) (simp_all add: push_pending_def Let_def None)
  next
    case (Some slot)
    have "slots_ok (b\<lparr>mb_rows := mb_rows b @ [Pending kind slot]\<rparr>)" using b(1) Some by (auto simp: slots_ok_def)
    then show ?thesis by (rule that [rotated 2]) (simp_all add: push_pending_def Let_def Some)
  qed
  have rows: "mb_rows b1 \<noteq> []" using b1(2) by auto
  have "event_actions evs @ map row_action (mb_rows b1) = A @ [resolve_pending truth kind]" using ev(2) b1(2) by simp
  then show ?thesis
    using push rows b1 b ev
      flush_inv [of b1 s\<^sub>0 evs "A @ [resolve_pending truth kind]" M]
      flush_if_full_inv [of b1 s\<^sub>0 evs "A @ [resolve_pending truth kind]" M] by auto
qed

lemma mutation_inv:
  assumes "buffer_inv s\<^sub>0 A M b"
  shows "\<exists>b'. buffer_state_mutation mutate b m = (b', Ok ()) \<and> buffer_inv s\<^sub>0 A (M @ [m]) b' \<and> mb_window b' = mb_window b"
proof -
  obtain evs where ev: "mb_sink b = foldl deliver_event s\<^sub>0 evs" "event_actions evs @ map row_action (mb_rows b) = A"
      "event_mutations evs = M" and b: "slots_ok b" "good (mb_client b)" "length (mb_rows b) < mb_window b"
      "length (mb_pending_oids b) < VERIFY_WINDOW"
    using assms unfolding buffer_inv_def by auto
  let ?b = "b\<lparr>mb_sink := fst (mutate (mb_sink b) m)\<rparr>"
  have "mb_sink ?b = foldl deliver_event s\<^sub>0 (evs @ [Inr m])" using ev(1) by simp
  moreover have "slots_ok ?b" using b(1) by (simp add: slots_ok_def)
  moreover have "buffer_state_mutation mutate b m = (?b, Ok ())"
    using mutate_total [of "mb_sink b" m] by (cases "mutate (mb_sink b) m") (simp add: buffer_state_mutation_def)
  ultimately show ?thesis
    using ev b unfolding buffer_inv_def by (auto intro!: exI [of _ "evs @ [Inr m]"])
qed

lemma deliver_inv:
  assumes "buffer_inv s\<^sub>0 A M b"
  shows "\<exists>b'. deliver verify act mutate (Ok dec) b = (b', Ok ())
    \<and> buffer_inv s\<^sub>0 (A @ decided_actions truth dec) (M @ decided_mutations dec) b' \<and> mb_window b' = mb_window b"
  using push_ready_inv [OF assms] push_pending_inv [OF assms] mutation_inv [OF assms] assms
  by (cases dec) (auto simp: deliver_def)

lemma try_map_Cons: "try_map f (x # xs) = and_then (f x) (\<lambda>y. map_ok (Cons y) (try_map f xs))"
  by (auto simp: and_then_def map_ok_def split: sum.split)

text \<open>The merge decides path by path and stops at the first path it cannot decide.\<close>

definition follows :: "(('c, 's) merge_buffer \<times> ('e + unit)) \<Rightarrow> 's \<Rightarrow> sync_action list \<Rightarrow> state_mutation list
    \<Rightarrow> 'e + decision list \<Rightarrow> bool" where
  "follows run s\<^sub>0 A M decided =
     (case decided of
        Inl e \<Rightarrow> snd run = Err e
      | Inr decs \<Rightarrow> snd run = Ok ()
          \<and> buffer_inv s\<^sub>0 (A @ concat (map (decided_actions truth) decs)) (M @ concat (map decided_mutations decs)) (fst run)
          \<and> mb_rows (fst run) = [])"

lemma follows_step:
  assumes "buffer_inv s\<^sub>0 A M b" "0 < mb_window b"
    and rest: "\<And>b' A' M'. buffer_inv s\<^sub>0 A' M' b' \<Longrightarrow> 0 < mb_window b' \<Longrightarrow> follows (run b') s\<^sub>0 A' M' decided"
  shows "follows (case deliver verify act mutate dec b of (b', Inl e) \<Rightarrow> (b', Err e) | (b', Inr _) \<Rightarrow> run b') s\<^sub>0 A M
    (and_then dec (\<lambda>d. map_ok (Cons d) decided))"
proof (cases dec)
  case (Inl e)
  then show ?thesis by (simp add: follows_def deliver_def and_then_def)
next
  case (Inr d)
  obtain b' where b': "deliver verify act mutate dec b = (b', Ok ())"
    "buffer_inv s\<^sub>0 (A @ decided_actions truth d) (M @ decided_mutations d) b'" "mb_window b' = mb_window b"
    using deliver_inv [OF assms(1)] Inr by blast
  show ?thesis
    using rest [OF b'(2)] b' assms(2) Inr by (cases decided) (simp_all add: follows_def map_ok_def and_then_def)
qed

lemma merge_loop_follows:
  assumes "buffer_inv s\<^sub>0 A M b" "0 < mb_window b" "fetched cd ds dl" "fetched_prior matches cp ps pl"
  shows "follows (merge_loop wt verify act mutate matches policy cd ds cp ps b) s\<^sub>0 A M
    (try_map (path_decision wt policy) (align dl pl))"
  using assms
proof (induction dl pl arbitrary: cd ds cp ps A M b rule: align.induct)
  case 1
  then obtain evs where "mb_sink b = foldl deliver_event s\<^sub>0 evs" "event_actions evs @ map row_action (mb_rows b) = A"
      "event_mutations evs = M" "slots_ok b" "good (mb_client b)"
    unfolding buffer_inv_def by auto
  with flush_inv [of b s\<^sub>0 evs A M] 1 show ?case by (subst merge_loop.simps) (auto simp: follows_def)
next
  case (2 p pl)
  obtain qs where q: "ps = map Inr qs" "filter (\<lambda>r. matches (mr_path r)) qs = pl" "cp = Some p" "cd = None" "ds = []"
    using 2(4,5) by auto
  obtain cp' ps' where n: "next_matching_prior matches ps = (Inr cp', ps')" "fetched_prior matches cp' ps' pl"
    using next_prior_fetched [of matches qs] q(1,2) by blast
  show ?case
    using q(3-5)
    by (subst merge_loop.simps) (simp del: try_map.simps add: try_map_Cons path_decision_def [of _ _ "(None, Some p)"],
        rule follows_step [OF 2(2,3)], simp add: n(1) 2(1) [OF _ _ _ n(2)])
next
  case (3 d dl)
  have q: "cd = Some d" "ds = map Inr dl" "cp = None" using 3(4,5) by auto
  obtain cd' ds' where n: "next_row ds = (Inr cd', ds')" "fetched cd' ds' dl"
    using next_row_fetched [of dl] q(2) by blast
  show ?case
    using q(1,3)
    by (subst merge_loop.simps) (simp del: try_map.simps add: try_map_Cons path_decision_def [of _ _ "(Some d, None)"],
        rule follows_step [OF 3(2,3)], simp add: n(1) 3(1) [OF _ _ n(2)])
next
  case (4 d dl p pl)
  obtain qs where q: "ps = map Inr qs" "filter (\<lambda>r. matches (mr_path r)) qs = pl" "cp = Some p" "cd = Some d" "ds = map Inr dl"
    using 4(6,7) by auto
  obtain cp' ps' where np: "next_matching_prior matches ps = (Inr cp', ps')" "fetched_prior matches cp' ps' pl"
    using next_prior_fetched [of matches qs] q(1,2) by blast
  obtain cd' ds' where nd: "next_row ds = (Inr cd', ds')" "fetched cd' ds' dl"
    using next_row_fetched [of dl] q(5) by blast
  have fp: "fetched_prior matches (Some p) ps (p # pl)" and fd: "fetched (Some d) ds (d # dl)" using q by simp_all
  consider "entry_path d = mr_path p" | "entry_path d < mr_path p" | "mr_path p < entry_path d"
    by (meson linorder_less_linear)
  then show ?case
  proof cases
    case 1
    then show ?thesis
      using q(3,4)
      by (subst merge_loop.simps) (simp del: try_map.simps add: try_map_Cons path_decision_def [of _ _ "(Some d, Some p)"],
          rule follows_step [OF 4(4,5)], simp add: nd(1) np(1) 4(1) [OF 1 _ _ nd(2) np(2)])
  next
    case 2
    then have ne: "entry_path d \<noteq> mr_path p" by simp
    note IH = 4(2) [OF ne 2]
    show ?thesis
      using q(3,4) 2 ne
      by (subst merge_loop.simps) (simp del: try_map.simps add: try_map_Cons path_decision_def [of _ _ "(Some d, None)"],
          rule follows_step [OF 4(4,5)], simp add: nd(1) IH [OF _ _ nd(2) fp])
  next
    case 3
    then have ne: "entry_path d \<noteq> mr_path p" "\<not> entry_path d < mr_path p" by simp_all
    note IH = 4(3) [OF ne]
    show ?thesis
      using q(3,4) ne
      by (subst merge_loop.simps) (simp del: try_map.simps add: try_map_Cons path_decision_def [of _ _ "(None, Some p)"],
          rule follows_step [OF 4(4,5)], simp add: np(1) IH [OF _ _ fd np(2)])
  qed
qed

lemma merge_follows:
  assumes "good client" "0 < window"
  shows "follows (merge_desired_with_prior wt verify act mutate matches policy (map Inr ds) (map Inr ps) window client s) s [] []
    (try_map (path_decision wt policy) (align ds (filter (\<lambda>r. matches (mr_path r)) ps)))"
proof -
  obtain cd ds' where d: "next_row (map Inr ds) = (Inr cd, ds' :: ('e + entry) list)" "fetched cd ds' ds"
    using next_row_fetched by blast
  obtain cp ps' where p: "next_matching_prior matches (map Inr ps) = (Inr cp, ps' :: ('e + materialized_row) list)"
      "fetched_prior matches cp ps' (filter (\<lambda>r. matches (mr_path r)) ps)"
    using next_prior_fetched by blast
  have "buffer_inv s [] [] (buffer_new client window s (policy_rematerialize policy))"
    using assms unfolding buffer_inv_def by (auto simp: buffer_new_def slots_ok_def VERIFY_WINDOW_def intro!: exI [of _ "[]"])
  from merge_loop_follows [OF this _ d(2) p(2)] show ?thesis
    using assms(2) d(1) p(1) by (simp add: merge_desired_with_prior_def buffer_new_def)
qed

end

section \<open>Collecting a plan\<close>

interpretation collect: total_sink collect_action collect_state_mutation
  by unfold_locales (simp_all add: collect_action_def collect_state_mutation_def)

lemma collect_step:
  "fst (collect_action self action) = self\<lparr>plan_actions := plan_actions self @ [action]\<rparr>"
  "fst (collect_state_mutation self mutation) = self\<lparr>plan_mutations := plan_mutations self @ [mutation]\<rparr>"
  by (simp_all add: collect_action_def collect_state_mutation_def)

sublocale object_verifier \<subseteq> collecting: planner verify good truth collect_action collect_state_mutation
  by unfold_locales

context object_verifier
begin

lemma collected:
  "foldl collecting.deliver_event s evs
     = s\<lparr>plan_actions := plan_actions s @ collecting.event_actions evs,
         plan_mutations := plan_mutations s @ collecting.event_mutations evs\<rparr>"
proof (induction evs arbitrary: s)
  case (Cons ev evs)
  have "collecting.event_actions (ev # evs) = collecting.event_actions [ev] @ collecting.event_actions evs"
    "collecting.event_mutations (ev # evs) = collecting.event_mutations [ev] @ collecting.event_mutations evs"
    using collecting.event_append [of "[ev]" evs] by simp_all
  then show ?case
    by (cases ev) (simp_all add: Cons.IH collect_step)
qed simp

lemma follows_plan:
  assumes "collecting.follows run empty_plan [] [] decided"
  shows "(case run of (_, Inl e) \<Rightarrow> Err e | (buffer, Inr _) \<Rightarrow> Ok (mb_sink buffer)) = map_ok (plan_of truth) decided"
proof (cases decided)
  case (Inl e)
  then show ?thesis using assms by (cases run) (auto simp: collecting.follows_def map_ok_def)
next
  case (Inr decs)
  then obtain b evs where "run = (b, Ok ())" "mb_sink b = foldl collecting.deliver_event empty_plan evs"
    "collecting.event_actions evs = concat (map (decided_actions truth) decs)"
    "collecting.event_mutations evs = concat (map decided_mutations decs)"
    using assms by (cases run) (auto simp: collecting.follows_def collecting.buffer_inv_def)
  then show ?thesis using Inr by (simp add: collected empty_plan_def plan_of_def map_ok_def)
qed

lemma merge_plan:
  assumes "good client" "0 < window"
  shows "(case merge_desired_with_prior wt verify collect_action collect_state_mutation matches policy
        (map Inr ds) (map Inr ps) window client empty_plan of
      (_, Inl e) \<Rightarrow> Err e | (buffer, Inr _) \<Rightarrow> Ok (mb_sink buffer))
    = map_ok (plan_of truth) (try_map (path_decision wt policy) (align ds (filter (\<lambda>r. matches (mr_path r)) ps)))"
  by (rule follows_plan [OF collecting.merge_follows [OF assms]])

lemma dirty_loop_follows:
  assumes "collecting.buffer_inv s A M b" "0 < mb_window b"
  shows "collecting.follows (dirty_loop verify matches rows b) s A M
    (Ok (map dirty_decision (filter (\<lambda>r. matches (dr_path r)) rows)))"
  using assms
proof (induction rows arbitrary: A M b)
  case Nil
  then obtain evs where "mb_sink b = foldl collecting.deliver_event s evs"
      "collecting.event_actions evs @ map collecting.row_action (mb_rows b) = A"
      "collecting.event_mutations evs = M" "collecting.slots_ok b" "good (mb_client b)"
    unfolding collecting.buffer_inv_def by auto
  with collecting.flush_inv [of b s evs A M] Nil show ?case by (auto simp: collecting.follows_def)
next
  case (Cons row rows)
  show ?case
  proof (cases "matches (dr_path row)")
    case True
    have step: "(case (dr_desired row, dr_materialized row) of
                 (Some oid, prior) \<Rightarrow>
                   push_pending verify collect_action b
                     (pending_new \<lparr>entry_path = dr_path row, entry_oid = oid\<rparr>
                       (if prior \<noteq> None then IReplace else IMaterialize))
               | (None, Some _) \<Rightarrow> push_ready verify collect_action b (Remove (dr_path row))
               | (None, None) \<Rightarrow> (b, Ok ()))
        = deliver verify collect_action collect_state_mutation (Ok (dirty_decision row)) b"
      by (auto simp: deliver_def dirty_decision_def split: option.split)
    have list: "Ok (map dirty_decision (filter (\<lambda>r. matches (dr_path r)) (row # rows)))
      = and_then (Ok (dirty_decision row)) (\<lambda>d. map_ok (Cons d) (Ok (map dirty_decision (filter (\<lambda>r. matches (dr_path r)) rows))))"
      using True by (simp add: and_then_def map_ok_def)
    have loop: "dirty_loop verify matches (row # rows) b =
        (case deliver verify collect_action collect_state_mutation (Ok (dirty_decision row)) b of
           (b, Inl e) \<Rightarrow> (b, Err e) | (b, Inr _) \<Rightarrow> dirty_loop verify matches rows b)"
      using True unfolding step [symmetric] by simp
    show ?thesis unfolding list loop by (rule collecting.follows_step [OF Cons.prems Cons.IH])
  qed (use Cons in simp)
qed

end

section \<open>The cache as the verifier\<close>

text \<open>
  The verification of a batch by \<open>flush\<close>: the windowed pass the policy calls for, collecting every
  window's statuses. The counter numbers the batches, so that the database and the file system may answer
  each one differently.
\<close>

definition cache_verify ::
  "(cache_publication list \<Rightarrow> cache_publication list) \<Rightarrow> (nat \<Rightarrow> nat \<Rightarrow> db_faults) \<Rightarrow> (nat \<Rightarrow> nat \<Rightarrow> oid \<Rightarrow> fs_view)
     \<Rightarrow> (cache_error \<Rightarrow> 'e) \<Rightarrow> (cache_client \<times> nat, 'e) verifier" where
  "cache_verify order db views lift r client oids =
     (case client of
        (c, k) \<Rightarrow>
          (case (if r then verify_windows_unmemoized else verify_windows) order (db k) (views k) lift
                  (\<lambda>statuses _ window_statuses. Ok (statuses @ window_statuses)) VERIFY_WINDOW oids c [] of
             (c', result) \<Rightarrow> ((c', Suc k), result)))"

definition session_ok ::
  "(cache_publication list \<Rightarrow> cache_publication list) \<Rightarrow> (u8 list \<Rightarrow> oid) \<Rightarrow> (oid \<Rightarrow> node) \<Rightarrow> cache_client \<times> nat \<Rightarrow> bool" where
  "session_ok order H store client \<longleftrightarrow>
     any_order order \<and> (\<forall>oid. provable (store oid)) \<and> client_ok H store (fst client)"

lemma run_windows_append:
  "run_windows (\<lambda>statuses _ window_statuses. Ok (statuses @ window_statuses)) truth ws st = Ok (st @ map truth (concat ws))"
  by (induction ws arbitrary: st) (simp_all add: and_then_def)

interpretation cache: object_verifier
  "cache_verify order db (\<lambda>_ _ oid. stable_view H (store oid)) lift" "session_ok order H store"
  "\<lambda>oid. object_truth H (store oid) oid"
  for order db H store lift
proof
  fix client :: "cache_client \<times> nat" and oids :: "oid list" and r
  assume "session_ok order H store client" "distinct oids"
  then obtain c k where c: "client = (c, k)" "any_order order" "\<forall>oid. provable (store oid)" "client_ok H store c"
    by (cases client) (auto simp: session_ok_def)
  let ?f = "\<lambda>statuses _ window_statuses. Ok (statuses @ window_statuses)" and ?v = "\<lambda>_ oid. stable_view H (store oid)"
  obtain c1 where c1: "verify_windows order (db k) ?v lift ?f VERIFY_WINDOW oids c []
      = (c1, Ok (map (\<lambda>oid. object_truth H (store oid) oid) oids))" "client_ok H store c1"
    using windows_loop_true [OF c(2,4,3), where db = "db k" and lift = lift and on_window = ?f and k = 0
        and ws = "chunks VERIFY_WINDOW oids" and st = "[]"]
    by (auto simp: verify_windows_def run_windows_append VERIFY_WINDOW_def)
  obtain c2 where c2: "verify_windows_unmemoized order (db k) ?v lift ?f VERIFY_WINDOW oids c []
      = (c2, Ok (map (\<lambda>oid. object_truth H (store oid) oid) oids))" "client_ok H store c2"
    using unmemoized_loop_true [OF c(2,4,3), where db = "db k" and lift = lift and on_window = ?f and k = 0
        and ws = "chunks VERIFY_WINDOW oids" and st = "[]"]
    by (auto simp: verify_windows_unmemoized_def run_windows_append VERIFY_WINDOW_def)
  show "\<exists>c'. cache_verify order db (\<lambda>_ _ oid. stable_view H (store oid)) lift r client oids
      = (c', Ok (map (\<lambda>oid. object_truth H (store oid) oid) oids)) \<and> session_ok order H store c'"
    using c c1 c2 by (auto simp: cache_verify_def session_ok_def)
qed

section \<open>Path by path\<close>

lemma find_unique:
  assumes "distinct (map f xs)" "x \<in> set xs"
  shows "find (\<lambda>y. f y = f x) xs = Some x"
  using assms by (induction xs) (auto simp: image_iff)

lemma find_same:
  assumes "distinct (map f xs)" "distinct (map f ys)" "\<And>x. f x = p \<Longrightarrow> x \<in> set xs \<longleftrightarrow> x \<in> set ys"
  shows "find (\<lambda>y. f y = p) xs = find (\<lambda>y. f y = p) ys"
proof (cases "\<exists>x \<in> set xs. f x = p")
  case True
  then obtain x where "x \<in> set xs" "f x = p" by blast
  then show ?thesis using find_unique [OF assms(1)] find_unique [OF assms(2)] assms(3) by metis
next
  case False
  then show ?thesis using assms(3) by (metis (mono_tags, lifting) find_None_iff)
qed

definition path_rows :: "entry list \<Rightarrow> materialized_row list \<Rightarrow> gat_path \<Rightarrow> entry option \<times> materialized_row option" where
  "path_rows entries rows p = (find (\<lambda>e. entry_path e = p) entries, find (\<lambda>r. mr_path r = p) rows)"

lemma sorted_list_of_set_least:
  assumes "finite A" "\<forall>y \<in> A. x < y"
  shows "sorted_list_of_set (insert x A) = x # sorted_list_of_set A"
proof -
  have "x \<notin> A" using assms(2) by auto
  moreover have "insort x (sorted_list_of_set A) = x # sorted_list_of_set A"
    using assms by (intro insort_is_Cons) (auto intro: less_imp_le)
  ultimately show ?thesis using assms(1) by (simp add: sorted_list_of_set.sorted_key_list_of_set_insert)
qed

lemma align_step:
  assumes "finite A" "\<forall>y \<in> A. x < y" "f x = row" "\<And>y. x < y \<Longrightarrow> f y = g y"
  shows "row # map g (sorted_list_of_set A) = map f (sorted_list_of_set (insert x A))"
  unfolding sorted_list_of_set_least [OF assms(1,2)] using assms by auto

lemma align_paths:
  assumes "sorted_wrt (<) (map entry_path ds)" "sorted_wrt (<) (map mr_path ps)"
  shows "align ds ps = map (path_rows ds ps) (sorted_list_of_set (entry_path ` set ds \<union> mr_path ` set ps))"
  using assms
proof (induction ds ps rule: align.induct)
  case (2 p ps)
  have "align [] (p # ps) = (None, Some p) # map (path_rows [] ps) (sorted_list_of_set (mr_path ` set ps))"
    using 2 by simp
  also have "\<dots> = map (path_rows [] (p # ps)) (sorted_list_of_set (insert (mr_path p) (mr_path ` set ps)))"
    using 2(3) by (intro align_step) (auto simp: path_rows_def)
  finally show ?case by simp
next
  case (3 d ds)
  have "align (d # ds) [] = (Some d, None) # map (path_rows ds []) (sorted_list_of_set (entry_path ` set ds))"
    using 3 by simp
  also have "\<dots> = map (path_rows (d # ds) []) (sorted_list_of_set (insert (entry_path d) (entry_path ` set ds)))"
    using 3(2) by (intro align_step) (auto simp: path_rows_def)
  finally show ?case by simp
next
  case (4 d ds p ps)
  have ls: "\<forall>y \<in> set ds. entry_path d < entry_path y" "\<forall>y \<in> set ps. mr_path p < mr_path y"
    using 4(4,5) by auto
  consider "entry_path d = mr_path p" | "entry_path d < mr_path p" | "mr_path p < entry_path d"
    by (meson linorder_less_linear)
  then show ?case
  proof cases
    case 1
    have "align (d # ds) (p # ps) = (Some d, Some p) # map (path_rows ds ps) (sorted_list_of_set (entry_path ` set ds \<union> mr_path ` set ps))"
      using 4(1) 4(4,5) 1 by simp
    also have "\<dots> = map (path_rows (d # ds) (p # ps)) (sorted_list_of_set (insert (entry_path d) (entry_path ` set ds \<union> mr_path ` set ps)))"
      using ls 1 by (intro align_step) (auto simp: path_rows_def)
    finally show ?thesis using 1 by (simp add: insert_absorb)
  next
    case 2
    have "align (d # ds) (p # ps) = (Some d, None) # map (path_rows ds (p # ps)) (sorted_list_of_set (entry_path ` set ds \<union> mr_path ` set (p # ps)))"
      using 4(2) 4(4,5) 2 by simp
    also have "\<dots> = map (path_rows (d # ds) (p # ps)) (sorted_list_of_set (insert (entry_path d) (entry_path ` set ds \<union> mr_path ` set (p # ps))))"
      using ls 2 by (intro align_step) (auto simp: path_rows_def find_None_iff)
    also have "insert (entry_path d) (entry_path ` set ds \<union> mr_path ` set (p # ps)) = entry_path ` set (d # ds) \<union> mr_path ` set (p # ps)"
      by auto
    finally show ?thesis .
  next
    case 3
    have "align (d # ds) (p # ps) = (None, Some p) # map (path_rows (d # ds) ps) (sorted_list_of_set (entry_path ` set (d # ds) \<union> mr_path ` set ps))"
      using 4(3) 4(4,5) 3 by auto
    also have "\<dots> = map (path_rows (d # ds) (p # ps)) (sorted_list_of_set (insert (mr_path p) (entry_path ` set (d # ds) \<union> mr_path ` set ps)))"
      using ls 3 by (intro align_step) (auto simp: path_rows_def find_None_iff)
    also have "insert (mr_path p) (entry_path ` set (d # ds) \<union> mr_path ` set ps) = entry_path ` set (d # ds) \<union> mr_path ` set (p # ps)"
      by auto
    finally show ?thesis .
  qed
qed simp

text \<open>The scope's range of the index is the scope's subtree.\<close>

lemma descendant_range_prefix: "path @ [SLASH] \<le> s \<and> s < path @ [48] \<longleftrightarrow> (\<exists>q. s = path @ SLASH # q)"
proof (induction path arbitrary: s)
  case Nil
  show ?case
    by (cases s) (auto simp: word_less_nat_alt word_le_nat_alt)
next
  case (Cons x path)
  then show ?case by (cases s) auto
qed

lemma in_scope_range_iff: "in_scope_range scope p \<longleftrightarrow> (case scope of None \<Rightarrow> True | Some s \<Rightarrow> is_or_under p s)"
proof (cases scope)
  case (Some s)
  then show ?thesis
    using descendant_range_prefix [of "as_str s" "as_str p"]
    by (auto simp: in_scope_range_def descendant_range_def is_or_under_iff gat_path.expand split: prod.splits)
qed (simp add: in_scope_range_def)

lemma selection_in_scope: "selection_matches matches_with sel p \<Longrightarrow> in_scope_range (scope_path sel) p"
  using reparent_scope [of sel p]
  by (auto simp: selection_matches_iff in_scope_range_iff scope_path_def split: path_scope.split)

text \<open>The rows a source without faults holds.\<close>

fun holds_rows :: "'e desired_source \<Rightarrow> entry list \<Rightarrow> materialized_row list \<Rightarrow> bool" where
  "holds_rows (FromLock lock store) entries rows \<longleftrightarrow>
     lock_entries lock = entries \<and> distinct (map entry_path entries)
     \<and> (case store of None \<Rightarrow> rows = [] | Some rs \<Rightarrow> rs = map Inr rows) \<and> sorted_wrt (<) (map mr_path rows)"
| "holds_rows (FromStore es rs) entries rows \<longleftrightarrow>
     es = map Inr entries \<and> sorted_wrt (<) (map entry_path entries) \<and> rs = map Inr rows \<and> sorted_wrt (<) (map mr_path rows)"

definition planned_paths :: "(gat_path \<Rightarrow> bool) \<Rightarrow> entry list \<Rightarrow> materialized_row list \<Rightarrow> gat_path list" where
  "planned_paths matches entries rows = sorted_list_of_set {p \<in> entry_path ` set entries \<union> mr_path ` set rows. matches p}"

lemma filter_Inr:
  "filter (\<lambda>row. case row of Inl _ \<Rightarrow> True | Inr x \<Rightarrow> P x) (map Inr xs) = map Inr (filter P xs)"
  by (induction xs) auto

lemma align_selected:
  assumes "set ds = {e \<in> set entries. matches (entry_path e)}" "sorted_wrt (<) (map entry_path ds)"
    and "distinct (map entry_path entries)" "sorted_wrt (<) (map mr_path rows)"
  shows "align ds (filter (\<lambda>r. matches (mr_path r)) rows) = map (path_rows entries rows) (planned_paths matches entries rows)"
proof -
  have ps: "sorted_wrt (<) (map mr_path (filter (\<lambda>r. matches (mr_path r)) rows))"
    using assms(4) by (simp add: sorted_wrt_map sorted_wrt_filter)
  have "path_rows ds (filter (\<lambda>r. matches (mr_path r)) rows) p = path_rows entries rows p" if "matches p" for p
    unfolding path_rows_def
    using that assms sorted_wrt_less_distinct [OF assms(2)] sorted_wrt_less_distinct [OF assms(4)] sorted_wrt_less_distinct [OF ps]
      find_same [of entry_path ds entries p] find_same [of mr_path "filter (\<lambda>r. matches (mr_path r)) rows" rows p] by auto
  moreover have "entry_path ` set ds \<union> mr_path ` set (filter (\<lambda>r. matches (mr_path r)) rows)
      = {p \<in> entry_path ` set entries \<union> mr_path ` set rows. matches p}"
    using assms(1) by auto
  ultimately show ?thesis unfolding align_paths [OF assms(2) ps] planned_paths_def by simp
qed

lemma filter_desired_sorted:
  assumes "distinct (map entry_path entries)"
  shows "sorted_wrt (<) (map entry_path (filter_desired_entries matches entries))"
    "set (filter_desired_entries matches entries) = {e \<in> set entries. matches (entry_path e)}"
proof -
  have "distinct (map entry_path (filter_desired_entries matches entries))"
    using assms by (auto simp: filter_desired_entries_def distinct_map inj_on_def)
  then show "sorted_wrt (<) (map entry_path (filter_desired_entries matches entries))"
    by (simp add: strict_sorted_iff filter_desired_entries_def)
qed (auto simp: filter_desired_entries_def)

context object_verifier
begin

lemma plan_rows:
  assumes "good client" "0 < window" "holds_rows src entries rows"
  shows "plan_with_store wt verify matches_with src sel policy window client
    = map_ok (plan_of truth) (try_map (\<lambda>p. path_decision wt policy (path_rows entries rows p))
        (planned_paths (selection_matches matches_with sel) entries rows))"
proof -
  let ?m = "selection_matches matches_with sel"
  have scoped: "filter (\<lambda>r. ?m (mr_path r)) (filter (\<lambda>r. in_scope_range (scope_path sel) (mr_path r)) rows) = filter (\<lambda>r. ?m (mr_path r)) rows"
    using selection_in_scope [of matches_with sel] by (auto simp: filter_filter intro: filter_cong)
  have step: "try_map (path_decision wt policy) (map f xs) = try_map (\<lambda>x. path_decision wt policy (f x)) xs" for f and xs :: "gat_path list"
    by (induction xs) (simp_all cong: sum.case_cong)
  note run = plan_with_store_def plan_into_sink_def Let_def rows_in_scope_def with_desired_rows_def filter_Inr
    desired_source.case option.case merge_plan [OF assms(1,2)] scoped step
  show ?thesis
  proof (cases src)
    case (FromLock lock store)
    have e: "lock_entries lock = entries" "distinct (map entry_path entries)" "sorted_wrt (<) (map mr_path rows)"
      using assms(3) FromLock by simp_all
    note al = align_selected [OF filter_desired_sorted(2,1) [OF e(2)] e(2,3)]
    show ?thesis
    proof (cases store)
      case None
      then have "rows = []" using assms(3) FromLock by simp
      then show ?thesis
        using merge_plan [OF assms(1,2), where ps = "[]"] al [of ?m] FromLock None e(1)
        by (simp add: plan_with_store_def plan_into_sink_def Let_def step)
    next
      case (Some rs)
      then have rs: "rs = map Inr rows" using assms(3) FromLock by simp
      show ?thesis unfolding FromLock Some run e(1) rs by (simp add: al step)
    qed
  next
    case (FromStore es rs)
    then have e: "es = map Inr entries" "rs = map Inr rows" "sorted_wrt (<) (map entry_path entries)" "sorted_wrt (<) (map mr_path rows)"
      using assms(3) by simp_all
    have s: "sorted_wrt (<) (map entry_path (filter (\<lambda>e. ?m (entry_path e)) entries))"
      using e(3) by (simp add: sorted_wrt_map sorted_wrt_filter)
    have al: "align (filter (\<lambda>e. ?m (entry_path e)) entries) (filter (\<lambda>r. ?m (mr_path r)) rows)
        = map (path_rows entries rows) (planned_paths ?m entries rows)"
      by (rule align_selected [OF _ s sorted_wrt_less_distinct [OF e(3)] e(4)]) auto
    show ?thesis unfolding FromStore run e(1,2) by (simp add: al step)
  qed
qed

lemma dirty_rows_actions:
  assumes "good client"
  shows "snd (plan_from_dirty_rows verify matches_with client rows sel)
    = Ok (plan_actions (plan_of truth (map dirty_decision (filter (\<lambda>r. selection_matches matches_with sel (dr_path r)) rows))))"
proof (cases "rows = []")
  case False
  let ?b = "buffer_new client (length rows) empty_plan False"
  have "collecting.buffer_inv empty_plan [] [] ?b"
    using assms False unfolding collecting.buffer_inv_def
    by (auto simp: buffer_new_def collecting.slots_ok_def VERIFY_WINDOW_def intro!: exI [of _ "[]"])
  from follows_plan [OF dirty_loop_follows [OF this, where rows = rows and matches = "selection_matches matches_with sel"]]
  show ?thesis using False by (auto simp: plan_from_dirty_rows_def buffer_new_def map_ok_def split: prod.splits sum.splits)
qed (simp add: plan_from_dirty_rows_def plan_of_def)

end

text \<open>The rows the two sides differ in.\<close>

definition dirty_rows :: "entry list \<Rightarrow> materialized_row list \<Rightarrow> dirty_row list" where
  "dirty_rows entries rows =
     filter (\<lambda>row. dr_desired row \<noteq> dr_materialized row)
       (map (\<lambda>p. case path_rows entries rows p of
               (d, r) \<Rightarrow> \<lparr>dr_path = p, dr_desired = map_option entry_oid d, dr_materialized = map_option mr_oid r\<rparr>)
         (planned_paths (\<lambda>_. True) entries rows))"

definition trusted_decision :: "entry option \<times> materialized_row option \<Rightarrow> decision" where
  "trusted_decision pair =
     (case pair of
        (Some d, Some prior) \<Rightarrow> (if entry_oid d \<noteq> mr_oid prior then Enqueue (pending_new d IReplace) else Skip)
      | (Some d, None) \<Rightarrow> Enqueue (pending_new d IMaterialize)
      | (None, Some prior) \<Rightarrow> Push (Remove (mr_path prior))
      | (None, None) \<Rightarrow> Skip)"

lemma trusting: "path_decision wt PolicyTrustState pair = Ok (trusted_decision pair)"
  by (cases pair) (auto simp: path_decision_def trusted_decision_def both_decision_def desired_only_pending_def
      prior_only_action_def map_ok_def opt_decision_def split: option.split)

lemma path_rows_paths:
  "path_rows entries rows p = (d, r) \<Longrightarrow> (\<forall>e. d = Some e \<longrightarrow> entry_path e = p) \<and> (\<forall>m. r = Some m \<longrightarrow> mr_path m = p)"
  unfolding path_rows_def by (auto simp: find_Some_iff)

lemma entry_eta: "\<lparr>entry_path = entry_path e, entry_oid = entry_oid e\<rparr> = e"
  by simp

lemma dirty_trusted:
  assumes "path_rows entries rows p = (d, r)"
    and "row = \<lparr>dr_path = p, dr_desired = map_option entry_oid d, dr_materialized = map_option mr_oid r\<rparr>"
  shows "trusted_decision (d, r) = (if dr_desired row \<noteq> dr_materialized row then dirty_decision row else Skip)"
  using assms(2) path_rows_paths [OF assms(1)]
  by (auto simp: trusted_decision_def dirty_decision_def entry_eta split: option.split)

lemma planned_paths_filter: "planned_paths m entries rows = filter m (planned_paths (\<lambda>_. True) entries rows)"
  unfolding planned_paths_def
  by (rule sorted_distinct_set_unique) (auto simp: sorted_wrt_filter)

lemma concat_skip:
  assumes "\<And>x. x \<in> set xs \<Longrightarrow> f x = (if P (g x) then h (g x) else [])"
  shows "concat (map f xs) = concat (map h (filter P (map g xs)))"
  using assms by (induction xs) auto

lemma dirty_rows_plan:
  "plan_actions (plan_of truth (map dirty_decision (filter (\<lambda>r. m (dr_path r)) (dirty_rows entries rows))))
    = plan_actions (plan_of truth (map (\<lambda>p. trusted_decision (path_rows entries rows p)) (planned_paths m entries rows)))"
proof -
  define row where "row p = (case path_rows entries rows p of
       (d, r) \<Rightarrow> \<lparr>dr_path = p, dr_desired = map_option entry_oid d, dr_materialized = map_option mr_oid r\<rparr>)" for p
  have p: "dr_path (row p) = p" for p by (simp add: row_def split: prod.split)
  have t: "trusted_decision (path_rows entries rows p)
      = (if dr_desired (row p) \<noteq> dr_materialized (row p) then dirty_decision (row p) else Skip)" for p
    by (cases "path_rows entries rows p") (auto simp: row_def dest!: dirty_trusted)
  have "filter (\<lambda>r. m (dr_path r)) (dirty_rows entries rows)
      = filter (\<lambda>row. dr_desired row \<noteq> dr_materialized row) (map row (planned_paths m entries rows))"
    unfolding planned_paths_filter [of m] dirty_rows_def row_def [symmetric]
    by (simp add: filter_map comp_def p filter_filter conj_commute)
  then show ?thesis
    unfolding plan_of_def
    using concat_skip [of "planned_paths m entries rows" "\<lambda>p. decided_actions truth (trusted_decision (path_rows entries rows p))"
        "\<lambda>row. dr_desired row \<noteq> dr_materialized row" row "\<lambda>r. decided_actions truth (dirty_decision r)"]
    by (simp add: t comp_def)
qed

section \<open>Properties\<close>

text \<open>
  C28: a plan is made path by path. Over a stable store with an honest session, and over sources that
  read without a fault, planning decides each path of either side that the selection matches, in path
  order, from that path's own rows and working-tree file alone, and hands out exactly the actions and
  mutations the decisions come to, each pending object classified by its true state; it fails with the
  error of the first path it cannot decide. Windows, batches, shared objects and the database leave no
  trace in it.
\<close>

theorem plan_path_by_path:
  assumes "session_ok order H store client" "0 < window" "holds_rows src entries rows"
  shows "plan_with_store wt (cache_verify order db (\<lambda>_ _ oid. stable_view H (store oid)) lift) matches_with src sel policy window client
    = map_ok (plan_of (\<lambda>oid. object_truth H (store oid) oid))
        (try_map (\<lambda>p. path_decision wt policy (path_rows entries rows p))
          (planned_paths (selection_matches matches_with sel) entries rows))"
  by (rule cache.plan_rows [OF assms])

lemma plan_path_by_path_witness:
  "plan_with_store (\<lambda>_ _ _ _. Ok status_absent)
      (cache_verify rev (\<lambda>_ _. \<lparr>read_ok = (\<lambda>_. False), commit_ok = (\<lambda>_. True)\<rparr>)
        (\<lambda>_ _ oid. stable_view Oid (Bytes [1] 1 (Some 0))) id)
      (\<lambda>_ _. True)
      (FromStore [Inr \<lparr>entry_path = GatPath [97], entry_oid = Oid [1]\<rparr>, Inr \<lparr>entry_path = GatPath [98], entry_oid = Oid [2]\<rparr>] [])
      (from_scope_patterns ScopeRoot ([] :: unit gat_glob_pattern list) []) (PolicyValidate False) 1
      (\<lparr>cc_index = None, cc_generation = 0, cc_memo = (\<lambda>_. None)\<rparr>, 0)
    = Ok \<lparr>plan_actions = [Materialize \<lparr>entry_path = GatPath [97], entry_oid = Oid [1]\<rparr>, Corrupted (GatPath [98]) (Oid [2])],
          plan_mutations = []\<rparr>"
proof -
  have s: "session_ok rev Oid (\<lambda>_. Bytes [1] 1 (Some 0)) (\<lparr>cc_index = None, cc_generation = 0, cc_memo = (\<lambda>_. None)\<rparr>, 0)"
    by (simp add: session_ok_def any_order_def client_ok_def provable_def proof_from_timestamp_def)
  let ?es = "[\<lparr>entry_path = GatPath [97], entry_oid = Oid [1]\<rparr>, \<lparr>entry_path = GatPath [98], entry_oid = Oid [2]\<rparr>]"
  have h: "holds_rows (FromStore (map Inr ?es) (map Inr [])) ?es []" by (simp add: less_gat_path_def)
  have m: "planned_paths (selection_matches (\<lambda>_ _. True) (from_scope_patterns ScopeRoot ([] :: unit gat_glob_pattern list) [])) ?es []
      = [GatPath [97], GatPath [98]]"
  proof -
    have sel: "selection_matches (\<lambda>_ _. True) (from_scope_patterns ScopeRoot ([] :: unit gat_glob_pattern list) []) p" for p
      by (simp add: selection_matches_def matches_str_def selection_relative_def from_scope_patterns_def filter_matches_def any_match_def)
    show ?thesis unfolding planned_paths_def
      by (rule sorted_distinct_set_unique) (auto simp: less_eq_gat_path_def sel)
  qed
  have d: "try_map (\<lambda>p. path_decision (\<lambda>_ _ _ _. Inr status_absent) (PolicyValidate False) (path_rows ?es [] p)) [GatPath [97], GatPath [98]]
      = Ok (map (\<lambda>e. Enqueue (pending_new e IMaterialize)) ?es)"
    by (simp add: path_rows_def path_decision_def desired_only_pending_def file_status_without_prior_def
        and_then_def map_ok_def status_absent_def)
  show ?thesis
    using plan_path_by_path [OF s _ h, where wt = "\<lambda>_ _ _ _. Ok status_absent" and lift = id and window = 1
        and db = "\<lambda>_ _. \<lparr>read_ok = (\<lambda>_. False), commit_ok = (\<lambda>_. True)\<rparr>"
        and matches_with = "\<lambda>_ _. True" and sel = "from_scope_patterns ScopeRoot ([] :: unit gat_glob_pattern list) []" and policy = "PolicyValidate False"]
    unfolding m d by (simp add: map_ok_def plan_of_def resolve_pending_def classify_object_def pending_new_def object_truth_def)
qed

text \<open>
  C29: the dirty rows are enough when the state is trusted. Planning from the rows the desired mirror and
  the materialized state differ in gives the actions of the full plan under the trusting policy.
\<close>

theorem dirty_plan_is_trusting_plan:
  assumes "session_ok order H store client" "session_ok order H store client'" "0 < window" "holds_rows src entries rows"
  shows "snd (plan_from_dirty_rows (cache_verify order db (\<lambda>_ _ oid. stable_view H (store oid)) lift) matches_with client
        (dirty_rows entries rows) sel)
    = map_ok plan_actions (plan_with_store wt (cache_verify order db (\<lambda>_ _ oid. stable_view H (store oid)) lift)
        matches_with src sel PolicyTrustState window client')"
proof -
  have all: "try_map (\<lambda>x. Ok (f x)) xs = Ok (map f xs)" for f and xs :: "gat_path list"
    by (induction xs) simp_all
  show ?thesis
    unfolding cache.plan_rows [OF assms(2-4)] cache.dirty_rows_actions [OF assms(1)] trusting all dirty_rows_plan
    by (simp add: map_ok_def)
qed

lemma dirty_plan_is_trusting_plan_witness:
  "\<exists>rows. snd (plan_from_dirty_rows
        (cache_verify rev (\<lambda>_ _. \<lparr>read_ok = (\<lambda>_. False), commit_ok = (\<lambda>_. True)\<rparr>)
          (\<lambda>_ _ oid. stable_view Oid (Bytes [1] 1 (Some 0))) id)
        (\<lambda>_ _. True) (\<lparr>cc_index = None, cc_generation = 0, cc_memo = (\<lambda>_. None)\<rparr>, 0) rows
        (from_scope_patterns ScopeRoot ([] :: unit gat_glob_pattern list) []))
    = map_ok plan_actions (plan_with_store (\<lambda>_ _ _ _. Ok status_absent)
        (cache_verify rev (\<lambda>_ _. \<lparr>read_ok = (\<lambda>_. False), commit_ok = (\<lambda>_. True)\<rparr>)
          (\<lambda>_ _ oid. stable_view Oid (Bytes [1] 1 (Some 0))) id)
        (\<lambda>_ _. True)
        (FromStore [Inr \<lparr>entry_path = GatPath [97], entry_oid = Oid [1]\<rparr>] [])
        (from_scope_patterns ScopeRoot ([] :: unit gat_glob_pattern list) []) PolicyTrustState 1
        (\<lparr>cc_index = None, cc_generation = 0, cc_memo = (\<lambda>_. None)\<rparr>, 1))"
proof -
  have s: "session_ok rev Oid (\<lambda>_. Bytes [1] 1 (Some 0)) (\<lparr>cc_index = None, cc_generation = 0, cc_memo = (\<lambda>_. None)\<rparr>, k)" for k
    by (simp add: session_ok_def any_order_def client_ok_def provable_def proof_from_timestamp_def)
  let ?es = "[\<lparr>entry_path = GatPath [97], entry_oid = Oid [1]\<rparr>]"
  have h: "holds_rows (FromStore (map Inr ?es) (map Inr [])) ?es []" by simp
  show ?thesis
    using dirty_plan_is_trusting_plan [OF s s _ h, where window = 1] by (intro exI [of _ "dirty_rows ?es []"]) simp
qed

end
