(* ===== verification/WorktreeFs.thy ===== *)
theory WorktreeFs
  imports SyncPlan ConfigModel "HOL-Library.AList"
begin

text \<open>
  The mutations of the working tree (\<open>gat-io/src/worktree.rs\<close> and the materialization of cache objects in
  \<open>cache/object.rs\<close>) over a model of the file system: a tree of folders, files and symbolic links, keyed by
  the components below the repository root. Every system call may fail for reasons of its own
  (\<open>w_fault\<close>); a call whose path runs through a symbolic link leaves the tree, which \<open>dk_escaped\<close> records.
  Permissions, and the sharing of a hard link's bytes, are not modelled; the file system is case-sensitive.
\<close>

section \<open>The file system\<close>

datatype io_error = NotFound | NotADirectory | IsADirectory | DirectoryNotEmpty | AlreadyExists | OtherIo

type_synonym comps = "str list"

datatype link_target = ToObject oid | ToElsewhere str

datatype node = Folder | Regular str | Link link_target | Special

type_synonym tree = "(comps \<times> node) list"

record disk =
  dk_calls :: nat
  dk_tree :: tree
  dk_escaped :: bool

text \<open>
  What the surroundings decide: the calls that fail, what a failed copy has written, the names the temporary
  files get, the objects in the cache, the proofs a stat yields.
\<close>

record world =
  w_fault :: "nat \<Rightarrow> bool"
  w_partial :: "nat \<Rightarrow> str option"
  w_temp :: "nat \<Rightarrow> str"
  w_object :: "oid \<Rightarrow> str option"
  w_stat :: "nat \<Rightarrow> stat_proof option"

type_synonym ('e, 'a) io = "disk \<Rightarrow> ('e + 'a) \<times> disk"

definition io_ok :: "'a \<Rightarrow> ('e, 'a) io" where
  "io_ok x d = (Ok x, d)"

definition io_err :: "'e \<Rightarrow> ('e, 'a) io" where
  "io_err e d = (Err e, d)"

definition io_bind :: "('e, 'a) io \<Rightarrow> ('a \<Rightarrow> ('e, 'b) io) \<Rightarrow> ('e, 'b) io" where
  "io_bind m f d = (case m d of (Inl e, d') \<Rightarrow> (Err e, d') | (Inr x, d') \<Rightarrow> f x d')"

text \<open>\<open>map_err(f)?\<close> and, for an ignored result, \<open>let _ =\<close>.\<close>

definition io_map_err :: "('e \<Rightarrow> 'f) \<Rightarrow> ('e, 'a) io \<Rightarrow> ('f, 'a) io" where
  "io_map_err g m d = (case m d of (r, d') \<Rightarrow> (map_err g r, d'))"

definition io_ignore :: "('f, 'a) io \<Rightarrow> ('e, unit) io" where
  "io_ignore m d = (Ok (), snd (m d))"

definition io_match :: "('e, 'a) io \<Rightarrow> ('e + 'a \<Rightarrow> ('f, 'b) io) \<Rightarrow> ('f, 'b) io" where
  "io_match m f d = (case m d of (r, d') \<Rightarrow> f r d')"

section \<open>System calls\<close>

datatype walk = Reached | Blocked io_error | Followed

text \<open>The folders on the way to a path.\<close>

fun walk_to :: "tree \<Rightarrow> comps \<Rightarrow> comps \<Rightarrow> walk" where
  "walk_to t pre [] = Reached"
| "walk_to t pre (c # cs) =
     (case map_of t pre of
        None \<Rightarrow> Blocked NotFound
      | Some Folder \<Rightarrow> walk_to t (pre @ [c]) cs
      | Some (Link _) \<Rightarrow> Followed
      | Some _ \<Rightarrow> Blocked NotADirectory)"

definition syscall :: "world \<Rightarrow> comps \<Rightarrow> (tree \<Rightarrow> io_error + ('a \<times> tree)) \<Rightarrow> (io_error, 'a) io" where
  "syscall w cs f d =
     (let d' = d\<lparr>dk_calls := Suc (dk_calls d)\<rparr>
      in if w_fault w (dk_calls d) then (Err OtherIo, d')
         else (case walk_to (dk_tree d) [] cs of
                 Blocked e \<Rightarrow> (Err e, d')
               | Followed \<Rightarrow> (Err OtherIo, d'\<lparr>dk_escaped := True\<rparr>)
               | Reached \<Rightarrow>
                   (case f (dk_tree d) of
                      Inl e \<Rightarrow> (Err e, d')
                    | Inr (x, t) \<Rightarrow> (Ok x, d'\<lparr>dk_tree := t\<rparr>))))"

definition symlink_metadata :: "world \<Rightarrow> comps \<Rightarrow> (io_error, node) io" where
  "symlink_metadata w cs = syscall w cs (\<lambda>t. case map_of t cs of None \<Rightarrow> Err NotFound | Some n \<Rightarrow> Ok (n, t))"

definition remove_file :: "world \<Rightarrow> comps \<Rightarrow> (io_error, unit) io" where
  "remove_file w cs = syscall w cs (\<lambda>t.
     case map_of t cs of
       None \<Rightarrow> Err NotFound
     | Some Folder \<Rightarrow> Err IsADirectory
     | Some _ \<Rightarrow> Ok ((), AList.delete cs t))"

definition below :: "comps \<Rightarrow> tree \<Rightarrow> bool" where
  "below cs t \<longleftrightarrow> (\<exists>(k, _) \<in> set t. strict_prefix cs k)"

definition remove_dir :: "world \<Rightarrow> comps \<Rightarrow> (io_error, unit) io" where
  "remove_dir w cs = syscall w cs (\<lambda>t.
     case map_of t cs of
       None \<Rightarrow> Err NotFound
     | Some Folder \<Rightarrow> if below cs t then Err DirectoryNotEmpty else Ok ((), AList.delete cs t)
     | Some _ \<Rightarrow> Err NotADirectory)"

definition remove_dir_all :: "world \<Rightarrow> comps \<Rightarrow> (io_error, unit) io" where
  "remove_dir_all w cs = syscall w cs (\<lambda>t.
     case map_of t cs of
       None \<Rightarrow> Err NotFound
     | Some Folder \<Rightarrow> Ok ((), filter (\<lambda>(k, _). \<not> prefix cs k) t)
     | Some _ \<Rightarrow> Err NotADirectory)"

text \<open>\<open>create_dir_all\<close>, one folder after the other; it follows a link that it finds on the way.\<close>

fun create_dirs :: "world \<Rightarrow> comps \<Rightarrow> comps \<Rightarrow> (io_error, unit) io" where
  "create_dirs w pre [] = io_ok ()"
| "create_dirs w pre (c # cs) =
     io_bind (\<lambda>d. case map_of (dk_tree d) (pre @ [c]) of
         Some (Link _) \<Rightarrow> (Err OtherIo, d\<lparr>dk_escaped := True\<rparr>)
       | _ \<Rightarrow> syscall w (pre @ [c]) (\<lambda>t.
           case map_of t (pre @ [c]) of
             None \<Rightarrow> Ok ((), AList.update (pre @ [c]) Folder t)
           | Some Folder \<Rightarrow> Ok ((), t)
           | Some _ \<Rightarrow> Err AlreadyExists) d)
       (\<lambda>_. create_dirs w (pre @ [c]) cs)"

definition create_dir_all :: "world \<Rightarrow> comps \<Rightarrow> (io_error, unit) io" where
  "create_dir_all w cs = create_dirs w [] cs"

text \<open>\<open>rename(2)\<close>: a file replaces anything but a folder, a folder replaces an empty folder.\<close>

definition relocate :: "comps \<Rightarrow> comps \<Rightarrow> tree \<Rightarrow> tree" where
  "relocate s g t = map (\<lambda>(k, n). (if prefix s k then g @ drop (length s) k else k, n)) (AList.delete g t)"

definition rename_in :: "comps \<Rightarrow> comps \<Rightarrow> tree \<Rightarrow> io_error + (unit \<times> tree)" where
  "rename_in s g t =
     (case (map_of t s, map_of t g) of
        (None, _) \<Rightarrow> Err NotFound
      | (Some n, old) \<Rightarrow>
          if s = g then Ok ((), t)
          else if prefix s g then Err OtherIo
          else if n = Folder \<and> old = Some Folder \<and> below g t then Err DirectoryNotEmpty
          else if n = Folder \<and> old \<noteq> None \<and> old \<noteq> Some Folder then Err NotADirectory
          else if n \<noteq> Folder \<and> old = Some Folder then Err IsADirectory
          else Ok ((), relocate s g t))"

definition rename :: "world \<Rightarrow> comps \<Rightarrow> comps \<Rightarrow> (io_error, unit) io" where
  "rename w s g d =
     (case walk_to (dk_tree d) [] s of
        Reached \<Rightarrow> syscall w g (rename_in s g) d
      | _ \<Rightarrow> syscall w s (\<lambda>t. Err OtherIo) d)"

text \<open>Temporary files and folders: \<open>tempfile\<close> settles on a free name below \<open>parent\<close>.\<close>

definition create_temp :: "node \<Rightarrow> world \<Rightarrow> comps \<Rightarrow> (io_error, comps) io" where
  "create_temp n w parent d =
     (let cs = parent @ [w_temp w (dk_calls d)]
      in syscall w cs (\<lambda>t. if map_of t cs \<noteq> None then Err AlreadyExists else Ok (cs, AList.update cs n t)) d)"

definition tempfile_in :: "world \<Rightarrow> comps \<Rightarrow> (io_error, comps) io" where
  "tempfile_in = create_temp (Regular [])"

definition tempdir_in :: "world \<Rightarrow> comps \<Rightarrow> (io_error, comps) io" where
  "tempdir_in = create_temp Folder"

definition observe_regular_file :: "world \<Rightarrow> comps \<Rightarrow> ('e, stat_proof option) io" where
  "observe_regular_file w cs d =
     (case symlink_metadata w cs d of
        (Inr (Regular _), d') \<Rightarrow> (Ok (w_stat w (dk_calls d)), d')
      | (_, d') \<Rightarrow> (Ok None, d'))"

section \<open>Confinement\<close>

datatype worktree_path_error = SymlinkAncestor comps comps | PathIo io_error

definition resolve_worktree_path :: "gat_path \<Rightarrow> comps" where
  "resolve_worktree_path rel = split_on SLASH (as_str rel)"

fun ancestor_symlink_check :: "world \<Rightarrow> comps \<Rightarrow> comps \<Rightarrow> (worktree_path_error, unit) io" where
  "ancestor_symlink_check w pre [] = io_ok ()"
| "ancestor_symlink_check w pre (c # cs) =
     io_match (symlink_metadata w pre) (\<lambda>r. case r of
         Inr (Link _) \<Rightarrow> io_err (SymlinkAncestor (pre @ c # cs) pre)
       | Inr _ \<Rightarrow> ancestor_symlink_check w (pre @ [c]) cs
       | Inl e \<Rightarrow> if e = NotFound then ancestor_symlink_check w (pre @ [c]) cs else io_err (PathIo e))"

definition confine_mutation :: "world \<Rightarrow> gat_path \<Rightarrow> (worktree_path_error, comps) io" where
  "confine_mutation w path =
     (let dest = resolve_worktree_path path
      in io_bind (ancestor_symlink_check w [] dest) (\<lambda>_. io_ok dest))"

definition validate_mutation :: "world \<Rightarrow> gat_path \<Rightarrow> (worktree_path_error, unit) io" where
  "validate_mutation w path = io_bind (confine_mutation w path) (\<lambda>_. io_ok ())"

fun validate_mutations :: "world \<Rightarrow> comps set \<Rightarrow> gat_path list \<Rightarrow> (worktree_path_error, unit) io" where
  "validate_mutations w parents [] = io_ok ()"
| "validate_mutations w parents (path # paths) =
     (let dest = resolve_worktree_path path; parent = butlast dest
      in if parent \<notin> parents
         then io_bind (ancestor_symlink_check w [] dest) (\<lambda>_. validate_mutations w (insert parent parents) paths)
         else validate_mutations w parents paths)"

definition is_infrastructure_path :: "str \<Rightarrow> bool" where
  "is_infrastructure_path rel \<longleftrightarrow> hd (split_on SLASH rel) \<in> {lit ''.git'', lit ''.gat'', lit ''gat.lock'', lit ''gat.yaml''}"

datatype destination_kind = DestMissing | DestDirectory | DestOther

definition inspect_move_destination :: "world \<Rightarrow> gat_path \<Rightarrow> (worktree_path_error, destination_kind) io" where
  "inspect_move_destination w path =
     io_bind (confine_mutation w path) (\<lambda>full.
     io_match (symlink_metadata w full) (\<lambda>r. case r of
         Inr Folder \<Rightarrow> io_ok DestDirectory
       | Inr _ \<Rightarrow> io_ok DestOther
       | Inl e \<Rightarrow> if e = NotFound then io_ok DestMissing else io_err (PathIo e)))"

section \<open>Removing\<close>

datatype worktree_mutation_error = WmPath worktree_path_error | WmIo io_error | WmCache

definition remove :: "world \<Rightarrow> gat_path \<Rightarrow> (worktree_mutation_error, comps option) io" where
  "remove w path =
     io_bind (io_map_err WmPath (confine_mutation w path)) (\<lambda>dest.
     io_match (remove_file w dest) (\<lambda>r. case r of
         Inr _ \<Rightarrow> io_ok (Some dest)
       | Inl e \<Rightarrow> if e = NotFound then io_ok None else io_err (WmIo e)))"

text \<open>
  The candidates are kept in the order they were found, and sorted by depth, deepest first; the original
  keeps them in a hash set, whose order within one depth does not matter here either.
\<close>

function prune_candidates_of :: "comps list \<Rightarrow> comps \<Rightarrow> comps list" where
  "prune_candidates_of candidates current =
     (let parent = butlast current
      in if current = [] \<or> parent = [] \<or> parent \<in> set candidates then candidates
         else prune_candidates_of (candidates @ [parent]) parent)"
  by pat_completeness auto

termination
  by (relation "measure (\<lambda>(_, current). length current)") auto

declare prune_candidates_of.simps [simp del]

definition prune_candidates :: "comps list \<Rightarrow> comps list" where
  "prune_candidates deleted = foldl prune_candidates_of [] deleted"

definition prune_order :: "comps list \<Rightarrow> comps list" where
  "prune_order deleted = rev (sort_key length (prune_candidates deleted))"

definition block_parent :: "comps \<Rightarrow> comps set \<Rightarrow> comps set" where
  "block_parent dir blocked = (if butlast dir \<noteq> [] then insert (butlast dir) blocked else blocked)"

datatype prune_error = PruneError comps io_error

fun prune_dirs :: "world \<Rightarrow> comps list \<Rightarrow> comps set \<Rightarrow> (prune_error, unit) io" where
  "prune_dirs w [] blocked = io_ok ()"
| "prune_dirs w (dir # dirs) blocked =
     (if dir \<in> blocked then prune_dirs w dirs (block_parent dir blocked)
      else
        io_match (remove_dir w dir) (\<lambda>r. case r of
            Inr _ \<Rightarrow> prune_dirs w dirs blocked
          | Inl e \<Rightarrow>
              if e = NotFound then prune_dirs w dirs blocked
              else if e = DirectoryNotEmpty \<or> e = NotADirectory then prune_dirs w dirs (block_parent dir blocked)
              else io_err (PruneError dir e)))"

definition prune_touched_ancestor_dirs :: "world \<Rightarrow> comps list \<Rightarrow> (prune_error, unit) io" where
  "prune_touched_ancestor_dirs w deleted = prune_dirs w (prune_order deleted) {}"

datatype remove_path_error = RmPath worktree_path_error | RmDelete io_error | RmPrune prune_error

definition remove_one :: "world \<Rightarrow> gat_path \<Rightarrow> (remove_path_error, comps option) io" where
  "remove_one w path =
     io_bind (io_map_err RmPath (confine_mutation w path)) (\<lambda>full.
     io_match (remove_file w full) (\<lambda>r. case r of
         Inr _ \<Rightarrow> io_ok (Some full)
       | Inl e \<Rightarrow> if e = NotFound then io_ok None else io_err (RmDelete e)))"

text \<open>\<open>schedule\<close> is the order in which the thread pool takes the paths.\<close>

fun remove_all :: "world \<Rightarrow> gat_path list \<Rightarrow> nat list \<Rightarrow> (nat \<times> (remove_path_error + comps option)) list
     \<Rightarrow> ('e, (nat \<times> (remove_path_error + comps option)) list) io" where
  "remove_all w paths [] results = io_ok results"
| "remove_all w paths (i # schedule) results =
     io_match (remove_one w (paths ! i)) (\<lambda>r. remove_all w paths schedule ((i, r) # results))"

definition remove_and_prune :: "world \<Rightarrow> nat list \<Rightarrow> gat_path list \<Rightarrow> (remove_path_error, unit) io" where
  "remove_and_prune w schedule paths =
     io_bind (remove_all w paths schedule []) (\<lambda>results.
     case try_map (\<lambda>i. the (map_of results i)) [0..<length paths] of
       Inl e \<Rightarrow> io_err e
     | Inr deleted \<Rightarrow> io_map_err RmPrune (prune_touched_ancestor_dirs w (List.map_filter id deleted)))"

section \<open>Materializing\<close>

text \<open>A failed copy may leave a part of the file behind.\<close>

definition write_file :: "world \<Rightarrow> comps \<Rightarrow> bool \<Rightarrow> oid \<Rightarrow> (io_error, unit) io" where
  "write_file w dest create_new oid d =
     (let cut = w_partial w (dk_calls d);
          put = (\<lambda>data t. case map_of t dest of
              None \<Rightarrow> Ok ((), AList.update dest (Regular data) t)
            | Some (Regular _) \<Rightarrow> if create_new then Err AlreadyExists else Ok ((), AList.update dest (Regular data) t)
            | Some _ \<Rightarrow> Err AlreadyExists)
      in case (w_object w oid, cut) of
           (None, _) \<Rightarrow> syscall w dest (\<lambda>t. Err NotFound) d
         | (Some data, None) \<Rightarrow> syscall w dest (put data) d
         | (Some _, Some part) \<Rightarrow> io_bind (syscall w dest (put part)) (\<lambda>_. io_err OtherIo) d)"

text \<open>Setting the permissions of the new file; only its failing matters here.\<close>

definition unprotect :: "world \<Rightarrow> comps \<Rightarrow> (io_error, unit) io" where
  "unprotect w dest = io_bind (symlink_metadata w dest) (\<lambda>_. io_ok ())"

fun materialize_one :: "world \<Rightarrow> oid \<Rightarrow> comps \<Rightarrow> materialization_mode \<Rightarrow> (io_error, unit) io" where
  "materialize_one w oid dest Reflink = io_bind (write_file w dest True oid) (\<lambda>_. unprotect w dest)"
| "materialize_one w oid dest Hardlink =
     syscall w dest (\<lambda>t. case (w_object w oid, map_of t dest) of
         (None, _) \<Rightarrow> Err NotFound
       | (Some _, Some _) \<Rightarrow> Err AlreadyExists
       | (Some data, None) \<Rightarrow> Ok ((), AList.update dest (Regular data) t))"
| "materialize_one w oid dest Symlink =
     syscall w dest (\<lambda>t. case map_of t dest of
         Some _ \<Rightarrow> Err AlreadyExists
       | None \<Rightarrow> Ok ((), AList.update dest (Link (ToObject oid)) t))"
| "materialize_one w oid dest Copy = io_bind (write_file w dest False oid) (\<lambda>_. unprotect w dest)"

fun materialize_modes :: "world \<Rightarrow> oid \<Rightarrow> comps \<Rightarrow> materialization_mode list \<Rightarrow> (worktree_mutation_error, unit) io" where
  "materialize_modes w oid dest [] = io_err WmCache"
| "materialize_modes w oid dest (mode # ms) =
     io_match (materialize_one w oid dest mode) (\<lambda>r. case r of
         Inr _ \<Rightarrow> io_ok ()
       | Inl _ \<Rightarrow> io_bind (io_ignore (remove_file w dest)) (\<lambda>_. materialize_modes w oid dest ms))"

text \<open>Leaving the function early drops the staged file and the private folder, ignoring failures.\<close>

definition drop_staging :: "world \<Rightarrow> comps \<Rightarrow> comps option \<Rightarrow> ('e, unit) io" where
  "drop_staging w staged staging =
     io_bind (io_ignore (remove_file w staged)) (\<lambda>_.
     case staging of None \<Rightarrow> io_ok () | Some dir \<Rightarrow> io_ignore (remove_dir_all w dir))"

definition or_drop :: "world \<Rightarrow> comps \<Rightarrow> comps option \<Rightarrow> ('e, 'a) io \<Rightarrow> ('e, 'a) io" where
  "or_drop w staged staging m =
     io_match m (\<lambda>r. case r of
         Inl e \<Rightarrow> io_bind (drop_staging w staged staging) (\<lambda>_. io_err e)
       | Inr x \<Rightarrow> io_ok x)"

definition materialize :: "world \<Rightarrow> gat_path \<Rightarrow> oid \<Rightarrow> materialization_strategy \<Rightarrow> (worktree_mutation_error, stat_proof option) io" where
  "materialize w path oid strategy =
     io_bind (io_map_err WmPath (confine_mutation w path)) (\<lambda>dest.
     let parent = butlast dest
     in io_bind (io_map_err WmIo (create_dir_all w parent)) (\<lambda>_.
        io_bind (if modes strategy = [Copy]
                 then io_bind (io_map_err WmIo (tempfile_in w parent)) (\<lambda>staged. io_ok (staged, None))
                 else io_bind (io_map_err WmIo (tempdir_in w parent)) (\<lambda>dir. io_ok (dir @ [lit ''object''], Some dir)))
          (\<lambda>(staged, staging).
        io_bind (or_drop w staged staging (materialize_modes w oid staged (modes strategy))) (\<lambda>_.
        io_bind (or_drop w staged staging (io_map_err WmIo (rename w staged dest))) (\<lambda>_.
        io_bind (case staging of
                   None \<Rightarrow> io_ok ()
                 | Some dir \<Rightarrow> io_match (remove_dir w dir) (\<lambda>r. case r of
                       Inr _ \<Rightarrow> io_ok () | Inl _ \<Rightarrow> io_ignore (remove_dir_all w dir)))
          (\<lambda>_. observe_regular_file w dest))))))"

text \<open>\<open>WorktreeClient::materialize\<close>: the mutation of the materialized state that records it.\<close>

definition client_materialize ::
  "world \<Rightarrow> entry \<Rightarrow> materialization_strategy \<Rightarrow> (worktree_mutation_error, state_mutation) io" where
  "client_materialize w entry strategy =
     io_bind (materialize w (entry_path entry) (entry_oid entry) strategy) (\<lambda>pf.
     io_ok (Upsert \<lparr>mr_path = entry_path entry, mr_oid = entry_oid entry, mr_proof = pf\<rparr>))"

section \<open>Moving\<close>

datatype move_path_error =
    MoveRestore comps io_error
  | MovePath worktree_path_error
  | CreateParent io_error
  | MoveRename io_error

record pending_move =
  pm_src :: gat_path
  pm_dst :: gat_path
  pm_backup :: "comps option"

definition canonicalize :: "world \<Rightarrow> comps \<Rightarrow> (io_error, comps) io" where
  "canonicalize w cs = io_bind (symlink_metadata w cs) (\<lambda>_. io_ok cs)"

text \<open>The guard of the case-only rename: both are no links and resolve to the same path.\<close>

definition same_entry :: "world \<Rightarrow> comps \<Rightarrow> comps \<Rightarrow> ('e, bool) io" where
  "same_entry w full_src full_dst =
     io_match (symlink_metadata w full_src) (\<lambda>r. case r of
         Inl _ \<Rightarrow> io_ok False
       | Inr (Link _) \<Rightarrow> io_ok False
       | Inr _ \<Rightarrow>
           io_match (canonicalize w full_src) (\<lambda>a. case a of
               Inl _ \<Rightarrow> io_ok False
             | Inr a \<Rightarrow> io_match (canonicalize w full_dst) (\<lambda>b. case b of
                   Inl _ \<Rightarrow> io_ok False | Inr b \<Rightarrow> io_ok (a = b))))"

definition restore_move_destination :: "world \<Rightarrow> comps \<Rightarrow> comps \<Rightarrow> (io_error, unit) io" where
  "restore_move_destination w backup destination =
     io_bind (rename w backup destination) (\<lambda>_. io_ignore (remove_dir w (butlast backup)))"

definition move_backup :: "world \<Rightarrow> comps \<Rightarrow> comps \<Rightarrow> (move_path_error, comps option) io" where
  "move_backup w full_src full_dst =
     (let parent = butlast full_dst;
          aside = io_bind (io_map_err (MovePath \<circ> PathIo) (tempdir_in w parent)) (\<lambda>dir. io_ok (Some dir))
      in io_match (symlink_metadata w full_dst) (\<lambda>r. case r of
          Inr Folder \<Rightarrow> io_err (MoveRename IsADirectory)
        | Inr (Link _) \<Rightarrow> aside
        | Inr _ \<Rightarrow> io_bind (same_entry w full_src full_dst) (\<lambda>same. if same then io_ok None else aside)
        | Inl e \<Rightarrow> if e = NotFound then io_ok None else io_err (MovePath (PathIo e))))"

definition move_path :: "world \<Rightarrow> gat_path \<Rightarrow> gat_path \<Rightarrow> (move_path_error, pending_move) io" where
  "move_path w src dst =
     io_bind (io_map_err MovePath (confine_mutation w src)) (\<lambda>full_src.
     io_bind (io_map_err MovePath (confine_mutation w dst)) (\<lambda>full_dst.
     io_bind (io_map_err CreateParent (create_dir_all w (butlast full_dst))) (\<lambda>_.
     let pending = \<lparr>pm_src = src, pm_dst = dst, pm_backup = None\<rparr>
     in if src = dst then io_bind (io_map_err MoveRename (symlink_metadata w full_src)) (\<lambda>_. io_ok pending)
        else
          io_bind (move_backup w full_src full_dst) (\<lambda>dir.
          io_bind (case dir of
              None \<Rightarrow> io_ok None
            | Some dir \<Rightarrow>
                (let backup = dir @ [lit ''destination'']
                 in io_match (rename w full_dst backup) (\<lambda>r. case r of
                        Inl e \<Rightarrow> io_bind (io_ignore (remove_dir_all w dir)) (\<lambda>_. io_err (MovePath (PathIo e)))
                      | Inr _ \<Rightarrow> io_ok (Some backup)))) (\<lambda>backup.
          io_match (rename w full_src full_dst) (\<lambda>r. case r of
              Inr _ \<Rightarrow> io_ok (pending\<lparr>pm_backup := backup\<rparr>)
            | Inl e \<Rightarrow>
                io_bind (case backup of
                    None \<Rightarrow> io_ok ()
                  | Some b \<Rightarrow> io_map_err (MoveRestore b) (restore_move_destination w b full_dst))
                  (\<lambda>_. io_err (MoveRename e))))))))"

definition move_commit :: "world \<Rightarrow> pending_move \<Rightarrow> ('e, unit) io" where
  "move_commit w self =
     (case pm_backup self of
        None \<Rightarrow> io_ok ()
      | Some backup \<Rightarrow> io_bind (io_ignore (remove_file w backup)) (\<lambda>_. io_ignore (remove_dir w (butlast backup))))"

datatype rollback_move_error = RbPath worktree_path_error | RbRestore comps io_error | RbRename io_error

definition move_rollback :: "world \<Rightarrow> pending_move \<Rightarrow> (rollback_move_error, unit) io" where
  "move_rollback w self =
     io_bind (io_map_err RbPath (confine_mutation w (pm_src self))) (\<lambda>full_src.
     io_bind (io_map_err RbPath (confine_mutation w (pm_dst self))) (\<lambda>full_dst.
     io_bind (io_map_err RbRename (rename w full_dst full_src)) (\<lambda>_.
     case pm_backup self of
       None \<Rightarrow> io_ok ()
     | Some backup \<Rightarrow> io_map_err (RbRestore backup) (restore_move_destination w backup full_dst))))"

end
