(* ===== verification/StateTable.thy ===== *)
theory StateTable
  imports SyncPlan OrderedMap
begin

text \<open>
  The \<open>state\<close> table of the state store (\<open>gat-io/src/state/schema.rs\<close>, \<open>mod.rs\<close>, \<open>materialized.rs\<close> and
  the dirty index of \<open>reconciliation.rs\<close>): one row per path with a desired and a materialized half. The
  table is an ordered map, as its \<open>WITHOUT ROWID\<close> primary key makes it; a statement is a function on it,
  and a transaction numbers its statements, any of which the database may fail. The text columns hold
  the values they spell (\<open>ShardId\<close>, \<open>LexicalPath\<close>); the proof column holds its bytes.
\<close>

section \<open>Rows\<close>

record state_row =
  sr_desired_oid :: "oid option"
  sr_desired_shard :: "lock_shard_id option"
  sr_materialized_oid :: "oid option"
  sr_materialized_proof :: "u8 list option"

type_synonym table = "(gat_path \<times> state_row) list"

text \<open>The generated column and the \<open>CHECK\<close> constraints.\<close>

definition row_dirty :: "state_row \<Rightarrow> bool" where
  "row_dirty r =
     (case (sr_desired_oid r, sr_materialized_oid r) of
        (None, None) \<Rightarrow> False
      | (Some d, Some m) \<Rightarrow> d \<noteq> m
      | _ \<Rightarrow> True)"

definition row_check :: "state_row \<Rightarrow> bool" where
  "row_check r \<longleftrightarrow>
     (sr_desired_oid r = None \<longleftrightarrow> sr_desired_shard r = None)
     \<and> (sr_materialized_proof r \<noteq> None \<longrightarrow> sr_materialized_oid r \<noteq> None)"

section \<open>Transactions\<close>

text \<open>
  A transaction in progress: the number of steps taken and the table so far. \<open>ok k\<close> tells whether the
  database carries out the \<open>k\<close>th step.
\<close>

datatype state_store_error = QueryFailed | InvalidRow str

type_synonym 't tx = "nat \<times> 't"

definition execute :: "(nat \<Rightarrow> bool) \<Rightarrow> ('t \<Rightarrow> 't) \<Rightarrow> 't tx \<Rightarrow> state_store_error + 't tx" where
  "execute ok stmt tx = (case tx of (k, t) \<Rightarrow> if ok k then Ok (Suc k, stmt t) else Err QueryFailed)"

definition execute_count :: "(nat \<Rightarrow> bool) \<Rightarrow> ('t \<Rightarrow> nat \<times> 't) \<Rightarrow> 't tx \<Rightarrow> state_store_error + (nat \<times> 't tx)" where
  "execute_count ok stmt tx =
     (case tx of (k, t) \<Rightarrow> if ok k then (case stmt t of (n, t) \<Rightarrow> Ok (n, (Suc k, t))) else Err QueryFailed)"

definition query :: "(nat \<Rightarrow> bool) \<Rightarrow> ('t \<Rightarrow> 'a) \<Rightarrow> 't tx \<Rightarrow> state_store_error + ('a \<times> 't tx)" where
  "query ok q tx = (case tx of (k, t) \<Rightarrow> if ok k then Ok (q t, (Suc k, t)) else Err QueryFailed)"

definition prepare :: "(nat \<Rightarrow> bool) \<Rightarrow> 't tx \<Rightarrow> state_store_error + 't tx" where
  "prepare ok tx = execute ok (\<lambda>t. t) tx"

fun for_each :: "('a \<Rightarrow> 's \<Rightarrow> 'e + 's) \<Rightarrow> 'a list \<Rightarrow> 's \<Rightarrow> 'e + 's" where
  "for_each f [] s = Ok s"
| "for_each f (x # xs) s = and_then (f x s) (for_each f xs)"

text \<open>Beginning, the body, committing: dropping an uncommitted transaction rolls it back.\<close>

definition in_transaction ::
  "(nat \<Rightarrow> bool) \<Rightarrow> ('t tx \<Rightarrow> state_store_error + 't tx) \<Rightarrow> 't \<Rightarrow> 't \<times> (state_store_error + unit)" where
  "in_transaction ok body t =
     (case and_then (prepare ok (0, t)) (\<lambda>tx. and_then (body tx) (prepare ok)) of
        Inl e \<Rightarrow> (t, Err e)
      | Inr (_, t') \<Rightarrow> (t', Ok ()))"

section \<open>Statements\<close>

definition sql_update :: "(gat_path \<Rightarrow> state_row \<Rightarrow> state_row option) \<Rightarrow> table \<Rightarrow> table" where
  "sql_update f t = map (\<lambda>(p, r). (p, case f p r of None \<Rightarrow> r | Some r' \<Rightarrow> r')) t"

definition sql_delete :: "(gat_path \<Rightarrow> state_row \<Rightarrow> bool) \<Rightarrow> table \<Rightarrow> nat \<times> table" where
  "sql_delete c t = (length (filter (\<lambda>(p, r). c p r) t), filter (\<lambda>(p, r). \<not> c p r) t)"

definition clear_exact_paths_tx ::
  "(nat \<Rightarrow> bool) \<Rightarrow> (gat_path \<Rightarrow> table \<Rightarrow> nat \<times> table) \<Rightarrow> (gat_path \<Rightarrow> table \<Rightarrow> table) \<Rightarrow> gat_path list
     \<Rightarrow> table tx \<Rightarrow> state_store_error + table tx" where
  "clear_exact_paths_tx ok prune clear paths tx =
     and_then (prepare ok tx) (\<lambda>tx.
     and_then (prepare ok tx) (for_each (\<lambda>path tx.
       and_then (execute_count ok (prune path) tx) (\<lambda>(removed, tx).
         if removed = 0 then execute ok (clear path) tx else Ok tx)) paths))"

text \<open>The range of a path and everything below it.\<close>

definition in_subtree :: "gat_path \<Rightarrow> gat_path \<Rightarrow> bool" where
  "in_subtree root p = in_scope_range (Some root) p"

section \<open>The materialized half\<close>

definition upsert_materialized_row :: "table \<Rightarrow> materialized_row \<Rightarrow> table" where
  "upsert_materialized_row t row =
     (let proof = map_option encode_stat_proof (mr_proof row)
      in bt_alter (mr_path row) (\<lambda>old.
           case old of
             None \<Rightarrow> \<lparr>sr_desired_oid = None, sr_desired_shard = None,
                      sr_materialized_oid = Some (mr_oid row), sr_materialized_proof = proof\<rparr>
           | Some r \<Rightarrow>
               if sr_materialized_oid r \<noteq> Some (mr_oid row) \<or> sr_materialized_proof r \<noteq> proof
               then r\<lparr>sr_materialized_oid := Some (mr_oid row), sr_materialized_proof := proof\<rparr> else r) t)"

definition bulk_upsert_materialized ::
  "(nat \<Rightarrow> bool) \<Rightarrow> materialized_row list \<Rightarrow> table tx \<Rightarrow> state_store_error + table tx" where
  "bulk_upsert_materialized ok rows =
     for_each (\<lambda>chunk. execute ok (\<lambda>t. foldl upsert_materialized_row t chunk)) (chunks (sql_chunk_size 3) rows)"

text \<open>\<open>UPDATE ... FROM v\<close> takes any one of the matching rows of \<open>v\<close>: \<open>pick\<close> is the database's choice.\<close>

type_synonym pick = "(gat_path \<times> stat_proof) list \<Rightarrow> gat_path \<Rightarrow> stat_proof option"

definition bulk_refresh_materialized_proofs ::
  "(nat \<Rightarrow> bool) \<Rightarrow> pick \<Rightarrow> (gat_path \<times> stat_proof) list \<Rightarrow> table tx \<Rightarrow> state_store_error + table tx" where
  "bulk_refresh_materialized_proofs ok pick proofs =
     for_each (\<lambda>chunk. execute ok (sql_update (\<lambda>p r.
       case pick chunk p of
         None \<Rightarrow> None
       | Some proof \<Rightarrow>
           if sr_materialized_oid r \<noteq> None then Some (r\<lparr>sr_materialized_proof := Some (encode_stat_proof proof)\<rparr>)
           else None))) (chunks (sql_chunk_size 2) proofs)"

definition clear_materialized :: "state_row \<Rightarrow> state_row" where
  "clear_materialized r = r\<lparr>sr_materialized_oid := None, sr_materialized_proof := None\<rparr>"

definition clear_materialized_exact_tx ::
  "(nat \<Rightarrow> bool) \<Rightarrow> gat_path list \<Rightarrow> table tx \<Rightarrow> state_store_error + table tx" where
  "clear_materialized_exact_tx ok paths =
     clear_exact_paths_tx ok
       (\<lambda>path. sql_delete (\<lambda>p r. p = path \<and> sr_desired_oid r = None))
       (\<lambda>path. sql_update (\<lambda>p r. if p = path \<and> sr_materialized_oid r \<noteq> None then Some (clear_materialized r) else None))
       paths"

definition clear_materialized_prefix_tx ::
  "(nat \<Rightarrow> bool) \<Rightarrow> gat_path \<Rightarrow> table tx \<Rightarrow> state_store_error + table tx" where
  "clear_materialized_prefix_tx ok path tx =
     and_then (execute ok (\<lambda>t. snd (sql_delete (\<lambda>p r. in_subtree path p \<and> sr_desired_oid r = None) t)) tx)
       (execute ok (sql_update (\<lambda>p r.
          if sr_materialized_oid r \<noteq> None \<and> in_subtree path p then Some (clear_materialized r) else None)))"

definition upsert_rows :: "(nat \<Rightarrow> bool) \<Rightarrow> materialized_row list \<Rightarrow> table \<Rightarrow> table \<times> (state_store_error + unit)" where
  "upsert_rows ok rows self =
     (if rows = [] then (self, Ok ()) else in_transaction ok (bulk_upsert_materialized ok rows) self)"

definition remove_exact :: "(nat \<Rightarrow> bool) \<Rightarrow> gat_path list \<Rightarrow> table \<Rightarrow> table \<times> (state_store_error + unit)" where
  "remove_exact ok paths self =
     (if paths = [] then (self, Ok ()) else in_transaction ok (clear_materialized_exact_tx ok paths) self)"

definition clear_materialized_prefix :: "(nat \<Rightarrow> bool) \<Rightarrow> gat_path \<Rightarrow> table \<Rightarrow> table \<times> (state_store_error + unit)" where
  "clear_materialized_prefix ok path self = in_transaction ok (clear_materialized_prefix_tx ok path) self"

text \<open>Contiguous runs of one kind go to the database as one bulk operation.\<close>

fun is_upsert :: "state_mutation \<Rightarrow> bool" where
  "is_upsert (Upsert _) = True"
| "is_upsert _ = False"

fun is_refresh :: "state_mutation \<Rightarrow> bool" where
  "is_refresh (RefreshStat _ _) = True"
| "is_refresh _ = False"

fun is_remove :: "state_mutation \<Rightarrow> bool" where
  "is_remove (RemoveExact _) = True"
| "is_remove _ = False"

definition upsert_run :: "state_mutation list \<Rightarrow> materialized_row list" where
  "upsert_run ops = List.map_filter (\<lambda>op. case op of Upsert row \<Rightarrow> Some row | _ \<Rightarrow> None) ops"

definition refresh_run :: "state_mutation list \<Rightarrow> (gat_path \<times> stat_proof) list" where
  "refresh_run ops = List.map_filter (\<lambda>op. case op of RefreshStat path proof \<Rightarrow> Some (path, proof) | _ \<Rightarrow> None) ops"

definition remove_run :: "state_mutation list \<Rightarrow> gat_path list" where
  "remove_run ops = List.map_filter (\<lambda>op. case op of RemoveExact path \<Rightarrow> Some path | _ \<Rightarrow> None) ops"

function batch_loop :: "(nat \<Rightarrow> bool) \<Rightarrow> pick \<Rightarrow> state_mutation list \<Rightarrow> table tx \<Rightarrow> state_store_error + table tx" where
  "batch_loop ok pick [] tx = Ok tx"
| "batch_loop ok pick (Upsert row # ops) tx =
     and_then (bulk_upsert_materialized ok (row # upsert_run (takeWhile is_upsert ops)) tx)
       (batch_loop ok pick (dropWhile is_upsert ops))"
| "batch_loop ok pick (RefreshStat path proof # ops) tx =
     and_then (bulk_refresh_materialized_proofs ok pick ((path, proof) # refresh_run (takeWhile is_refresh ops)) tx)
       (batch_loop ok pick (dropWhile is_refresh ops))"
| "batch_loop ok pick (RemoveExact path # ops) tx =
     and_then (clear_materialized_exact_tx ok (path # remove_run (takeWhile is_remove ops)) tx)
       (batch_loop ok pick (dropWhile is_remove ops))"
  by pat_completeness auto

termination
  by (relation "measure (\<lambda>(_, _, ops, _). length ops)") (auto simp: le_imp_less_Suc length_dropWhile_le)

definition apply_batch ::
  "(nat \<Rightarrow> bool) \<Rightarrow> pick \<Rightarrow> state_mutation list \<Rightarrow> table \<Rightarrow> table \<times> (state_store_error + unit)" where
  "apply_batch ok pick ops self =
     (if ops = [] then (self, Ok ()) else in_transaction ok (batch_loop ok pick ops) self)"

section \<open>Reading\<close>

text \<open>A malformed proof reads as no proof.\<close>

definition decode_row_raw :: "gat_path \<Rightarrow> oid \<Rightarrow> u8 list option \<Rightarrow> materialized_row" where
  "decode_row_raw path oid proof =
     \<lparr>mr_path = path, mr_oid = oid, mr_proof = Option.bind proof decode_stat_proof\<rparr>"

definition load_all_raw :: "table \<Rightarrow> materialized_row list" where
  "load_all_raw t =
     List.map_filter (\<lambda>(p, r). map_option (\<lambda>oid. decode_row_raw p oid (sr_materialized_proof r)) (sr_materialized_oid r)) t"

definition load_all :: "table \<Rightarrow> lock" where
  "load_all t = \<lparr>lock_entries = map (\<lambda>row. \<lparr>entry_path = mr_path row, entry_oid = mr_oid row\<rparr>) (load_all_raw t)\<rparr>"

definition materialized_rows_for :: "table \<Rightarrow> gat_path list \<Rightarrow> materialized_row list" where
  "materialized_rows_for t paths =
     concat (map (\<lambda>chunk. filter (\<lambda>row. mr_path row \<in> set chunk) (load_all_raw t)) (chunks (sql_chunk_size 1) paths))"

definition query_dirty_rows :: "table \<Rightarrow> gat_path option \<Rightarrow> gat_path option \<Rightarrow> nat option \<Rightarrow> dirty_row list" where
  "query_dirty_rows t scope after limit =
     (let rows = filter (\<lambda>(p, r). row_dirty r \<and> in_scope_range scope p \<and> (case after of None \<Rightarrow> True | Some a \<Rightarrow> a < p)) t;
          rows = (case limit of None \<Rightarrow> rows | Some n \<Rightarrow> take n rows)
      in map (\<lambda>(p, r). \<lparr>dr_path = p, dr_desired = sr_desired_oid r, dr_materialized = sr_materialized_oid r\<rparr>) rows)"

definition dirty_rows_in_scope_after :: "table \<Rightarrow> gat_path option \<Rightarrow> gat_path option \<Rightarrow> nat \<Rightarrow> dirty_row list" where
  "dirty_rows_in_scope_after t scope after limit = query_dirty_rows t scope after (Some limit)"

section \<open>The two halves of the table\<close>

fun mat_half :: "state_row \<Rightarrow> (oid \<times> u8 list option) option" where
  "mat_half r = map_option (\<lambda>oid. (oid, sr_materialized_proof r)) (sr_materialized_oid r)"

fun des_half :: "state_row \<Rightarrow> (oid \<times> lock_shard_id) option" where
  "des_half r = (case (sr_desired_oid r, sr_desired_shard r) of (Some oid, Some i) \<Rightarrow> Some (oid, i) | _ \<Rightarrow> None)"

definition materialized :: "table \<Rightarrow> gat_path \<Rightarrow> (oid \<times> u8 list option) option" where
  "materialized t p = Option.bind (bt_get t p) mat_half"

definition desired :: "table \<Rightarrow> gat_path \<Rightarrow> (oid \<times> lock_shard_id) option" where
  "desired t p = Option.bind (bt_get t p) des_half"

text \<open>No row is empty: a row without halves is deleted by whatever empties it.\<close>

definition row_ok :: "state_row \<Rightarrow> bool" where
  "row_ok r \<longleftrightarrow> row_check r \<and> (sr_desired_oid r \<noteq> None \<or> sr_materialized_oid r \<noteq> None)"

definition table_ok :: "table \<Rightarrow> bool" where
  "table_ok t \<longleftrightarrow> bt_ok t \<and> (\<forall>(p, r) \<in> set t. row_ok r)"

lemma table_ok_get: "table_ok t \<Longrightarrow> bt_get t p = Some r \<Longrightarrow> row_ok r"
  by (auto simp: table_ok_def bt_get_Some)

lemma table_okI: "bt_ok t \<Longrightarrow> (\<And>p r. bt_get t p = Some r \<Longrightarrow> row_ok r) \<Longrightarrow> table_ok t"
  by (auto simp: table_ok_def bt_get_Some)

lemma sql_update_ok: "bt_ok (sql_update f t) \<longleftrightarrow> bt_ok t"
proof -
  have "map fst (sql_update f t) = map fst t" by (induction t) (auto simp: sql_update_def)
  then show ?thesis by (simp add: bt_ok_def)
qed

lemma sql_update_get:
  "bt_get (sql_update f t) p = map_option (\<lambda>r. case f p r of None \<Rightarrow> r | Some r' \<Rightarrow> r') (bt_get t p)"
  by (induction t) (auto simp: sql_update_def bt_get_def split: option.split)

lemma sql_delete_ok: "bt_ok t \<Longrightarrow> bt_ok (snd (sql_delete c t))"
  by (induction t) (auto simp: sql_delete_def bt_ok_def)

lemma sql_delete_get:
  assumes "bt_ok t"
  shows "bt_get (snd (sql_delete c t)) p = Option.bind (bt_get t p) (\<lambda>r. if c p r then None else Some r)"
proof (cases "bt_get t p")
  case None
  then have "bt_get (snd (sql_delete c t)) p = None" by (auto simp: bt_get_None sql_delete_def)
  then show ?thesis using None by simp
next
  case (Some r)
  then have m: "(p, r) \<in> set t" "\<And>r'. (p, r') \<in> set t \<Longrightarrow> r' = r"
    using bt_get_Some [OF assms] by (blast, metis option.inject)
  show ?thesis
  proof (cases "c p r")
    case True
    then have "bt_get (snd (sql_delete c t)) p = None" using m(2) by (force simp: bt_get_None sql_delete_def)
    then show ?thesis using Some True by simp
  next
    case False
    then have "bt_get (snd (sql_delete c t)) p = Some r"
      using m(1) bt_get_Some [OF sql_delete_ok [OF assms]] by (auto simp: sql_delete_def)
    then show ?thesis using Some False by simp
  qed
qed

lemma sql_delete_none: "fst (sql_delete c t) = 0 \<longleftrightarrow> (\<forall>(p, r) \<in> set t. \<not> c p r)"
  by (auto simp: sql_delete_def filter_empty_conv)

text \<open>
  What the statements on one half do, whatever half it is: \<open>half\<close> is the one they act on, \<open>other\<close> the
  one they keep; \<open>has\<close> and \<open>other_has\<close> are the statements' tests on the columns.
\<close>

locale table_half =
  fixes half :: "state_row \<Rightarrow> 'h option" and other :: "state_row \<Rightarrow> 'o option"
    and has :: "state_row \<Rightarrow> bool" and other_has :: "state_row \<Rightarrow> bool" and clear :: "state_row \<Rightarrow> state_row"
  assumes has: "row_check r \<Longrightarrow> has r \<longleftrightarrow> half r \<noteq> None"
    and other_has: "row_check r \<Longrightarrow> other_has r \<longleftrightarrow> other r \<noteq> None"
    and ok: "row_ok r \<longleftrightarrow> row_check r \<and> (has r \<or> other_has r)"
    and clear_check: "row_check r \<Longrightarrow> row_check (clear r)"
    and clear_half: "half (clear r) = None"
    and clear_other: "other (clear r) = other r"
begin

definition col :: "table \<Rightarrow> gat_path \<Rightarrow> 'h option" where
  "col t p = Option.bind (bt_get t p) half"

definition kept_col :: "table \<Rightarrow> gat_path \<Rightarrow> 'o option" where
  "kept_col t p = Option.bind (bt_get t p) other"

definition cleared :: "(gat_path \<Rightarrow> bool) \<Rightarrow> table \<Rightarrow> table" where
  "cleared S t = sql_update (\<lambda>p r. if has r \<and> S p then Some (clear r) else None)
     (snd (sql_delete (\<lambda>p r. S p \<and> \<not> other_has r) t))"

lemma cleared_get:
  assumes "bt_ok t"
  shows "bt_get (cleared S t) p = Option.bind (bt_get t p) (\<lambda>r.
    if S p \<and> \<not> other_has r then None else Some (if has r \<and> S p then clear r else r))"
  using sql_delete_get [OF assms] by (cases "bt_get t p") (auto simp: cleared_def sql_update_get)

lemma cleared_table:
  assumes "table_ok t"
  shows "table_ok (cleared S t)" "col (cleared S t) = (\<lambda>p. if S p then None else col t p)"
    "kept_col (cleared S t) = kept_col t"
proof -
  have bt: "bt_ok t" and row: "\<And>p r. bt_get t p = Some r \<Longrightarrow> row_ok r"
    using assms table_ok_get by (auto simp: table_ok_def)
  have keep: "row_ok (clear r)" if "row_ok r" "other_has r" for r
    using that ok clear_check other_has clear_other by metis
  show "table_ok (cleared S t)"
  proof (rule table_okI)
    show "bt_ok (cleared S t)" using sql_delete_ok [OF bt] by (simp add: cleared_def sql_update_ok)
    show "row_ok r" if "bt_get (cleared S t) p = Some r" for p r
      using that keep row [of p] by (auto simp: cleared_get [OF bt] bind_eq_Some_conv split: if_splits)
  qed
  show "col (cleared S t) = (\<lambda>p. if S p then None else col t p)"
  proof
    fix p
    show "col (cleared S t) p = (if S p then None else col t p)"
      using row [of p] has clear_half ok by (cases "bt_get t p") (auto simp: col_def cleared_get [OF bt])
  qed
  show "kept_col (cleared S t) = kept_col t"
  proof
    fix p
    show "kept_col (cleared S t) p = kept_col t p"
      using row [of p] other_has clear_other ok by (cases "bt_get t p") (auto simp: kept_col_def cleared_get [OF bt])
  qed
qed

text \<open>Pruning one row and clearing it only if there was nothing to prune comes to the same.\<close>

lemma prune_or_clear:
  assumes "bt_ok t"
  shows "(case sql_delete (\<lambda>p r. p = path \<and> \<not> other_has r) t of (removed, t') \<Rightarrow>
      if removed = 0 then sql_update (\<lambda>p r. if p = path \<and> has r then Some (clear r) else None) t' else t')
    = cleared (\<lambda>p. p = path) t"
proof -
  let ?c = "\<lambda>p r. p = path \<and> \<not> other_has r" and ?u = "\<lambda>p r. if has r \<and> p = path then Some (clear r) else None"
  have "sql_update ?u (snd (sql_delete ?c t)) = snd (sql_delete ?c t)" if some: "fst (sql_delete ?c t) \<noteq> 0"
  proof -
    obtain r where "(path, r) \<in> set t" "\<not> other_has r"
      using some unfolding sql_delete_none by auto
    then have "bt_get (snd (sql_delete ?c t)) path = None"
      using sql_delete_get [OF assms, of ?c path] bt_get_Some [OF assms, of path r] by simp
    then have "\<forall>(p, r) \<in> set (snd (sql_delete ?c t)). p \<noteq> path" by (auto simp: bt_get_None image_iff)
    then show ?thesis by (auto simp: sql_update_def intro!: map_idI split: option.split)
  qed
  moreover have "(\<lambda>p r. if p = path \<and> has r then Some (clear r) else None) = ?u" by (auto simp: fun_eq_iff)
  ultimately show ?thesis
    unfolding cleared_def by (cases "sql_delete ?c t") (simp add: case_prod_unfold)
qed

text \<open>Writing the half of one row.\<close>

lemma alter_table:
  assumes "table_ok t"
    and "row_ok (f None)" "half (f None) = Some v" "other (f None) = None"
    and "\<And>r. row_ok r \<Longrightarrow> row_ok (f (Some r)) \<and> half (f (Some r)) = Some v \<and> other (f (Some r)) = other r"
  shows "table_ok (bt_alter path f t)" "col (bt_alter path f t) = (col t)(path \<mapsto> v)"
    "kept_col (bt_alter path f t) = kept_col t"
proof -
  have bt: "bt_ok t" and row: "\<And>p r. bt_get t p = Some r \<Longrightarrow> row_ok r"
    using assms(1) table_ok_get by (auto simp: table_ok_def)
  have g: "row_ok (f (bt_get t path))" "half (f (bt_get t path)) = Some v"
    "other (f (bt_get t path)) = Option.bind (bt_get t path) other"
    using assms(2-5) row [of path] by (cases "bt_get t path"; simp)+
  show "table_ok (bt_alter path f t)"
    by (rule table_okI) (use bt g(1) row in \<open>auto simp: bt_get_alter split: if_splits\<close>)
  show "col (bt_alter path f t) = (col t)(path \<mapsto> v)" "kept_col (bt_alter path f t) = kept_col t"
    using bt g by (auto simp: col_def kept_col_def bt_get_alter fun_eq_iff)
qed

end

interpretation mat: table_half mat_half des_half "\<lambda>r. sr_materialized_oid r \<noteq> None" "\<lambda>r. sr_desired_oid r \<noteq> None"
  clear_materialized
  by unfold_locales (auto simp: row_check_def row_ok_def clear_materialized_def split: option.split)

section \<open>What a transaction does\<close>

text \<open>
  A piece of a transaction that, on a well-formed table, either fails on a step the database refused or
  leaves a well-formed table with the two halves changed as given.
\<close>

type_synonym 'h half_map = "gat_path \<Rightarrow> 'h option"

definition effect ::
  "(nat \<Rightarrow> bool) \<Rightarrow> (table tx \<Rightarrow> state_store_error + table tx)
     \<Rightarrow> ((oid \<times> lock_shard_id) half_map \<Rightarrow> (oid \<times> lock_shard_id) half_map)
     \<Rightarrow> ((oid \<times> u8 list option) half_map \<Rightarrow> (oid \<times> u8 list option) half_map) \<Rightarrow> bool" where
  "effect ok m df mf \<longleftrightarrow>
     (\<forall>k t. table_ok t \<longrightarrow>
        (case m (k, t) of
           Inl _ \<Rightarrow> \<exists>j. \<not> ok j
         | Inr (_, t') \<Rightarrow> table_ok t' \<and> desired t' = df (desired t) \<and> materialized t' = mf (materialized t)))"

lemma effect_execute:
  assumes "\<And>t. table_ok t \<Longrightarrow> table_ok (g t) \<and> desired (g t) = df (desired t) \<and> materialized (g t) = mf (materialized t)"
  shows "effect ok (execute ok g) df mf"
  using assms by (auto simp: effect_def execute_def)

lemma effect_prepare: "effect ok (prepare ok) (\<lambda>D. D) (\<lambda>M. M)"
  by (auto simp: effect_def prepare_def execute_def)

lemma effect_Ok: "effect ok Ok (\<lambda>D. D) (\<lambda>M. M)"
  by (simp add: effect_def)

lemma effect_then:
  assumes "effect ok m d f" "effect ok n d' f'"
  shows "effect ok (\<lambda>tx. and_then (m tx) n) (d' \<circ> d) (f' \<circ> f)"
proof -
  have "case and_then (m (k, t)) n of Inl _ \<Rightarrow> \<exists>j. \<not> ok j
     | Inr (_, t') \<Rightarrow> table_ok t' \<and> desired t' = (d' \<circ> d) (desired t) \<and> materialized t' = (f' \<circ> f) (materialized t)"
    if "table_ok t" for k t
  proof (cases "m (k, t)")
    case (Inl e)
    then show ?thesis using assms(1) [unfolded effect_def, rule_format, OF that, of k] by (simp add: and_then_def)
  next
    case (Inr x)
    obtain k' t' where "x = (k', t')" by (cases x)
    then have t': "table_ok t'" "desired t' = d (desired t)" "materialized t' = f (materialized t)"
      using assms(1) [unfolded effect_def, rule_format, OF that, of k] Inr by simp_all
    show ?thesis
      using assms(2) [unfolded effect_def, rule_format, OF t'(1), of k'] Inr \<open>x = (k', t')\<close> t'(2,3)
      by (simp add: and_then_def split: sum.splits prod.splits)
  qed
  then show ?thesis unfolding effect_def by blast
qed

lemma effect_for_each:
  assumes "\<And>x. x \<in> set xs \<Longrightarrow> effect ok (m x) (d x) (f x)"
  shows "effect ok (for_each m xs) (\<lambda>D. foldl (\<lambda>D x. d x D) D xs) (\<lambda>M. foldl (\<lambda>M x. f x M) M xs)"
  using assms
proof (induction xs)
  case Nil
  then show ?case using effect_Ok by (simp add: effect_def)
next
  case (Cons x xs)
  have "effect ok (\<lambda>tx. and_then (m x tx) (for_each m xs)) ((\<lambda>D. foldl (\<lambda>D x. d x D) D xs) \<circ> d x) ((\<lambda>M. foldl (\<lambda>M x. f x M) M xs) \<circ> f x)"
    by (rule effect_then) (use Cons in auto)
  then show ?case by (simp add: comp_def)
qed

lemma effect_cong: "effect ok m d f \<Longrightarrow> d = d' \<Longrightarrow> f = f' \<Longrightarrow> effect ok m d' f'"
  by simp

lemma effect_transaction:
  assumes "effect ok body df mf" "table_ok t" "in_transaction ok body t = (t', result)"
  shows "(result = Ok () \<and> table_ok t' \<and> desired t' = df (desired t) \<and> materialized t' = mf (materialized t))
    \<or> (result \<noteq> Ok () \<and> t' = t \<and> (\<exists>j. \<not> ok j))"
proof -
  have e: "effect ok (\<lambda>tx. and_then (prepare ok tx) (\<lambda>tx. and_then (body tx) (prepare ok))) df mf"
    using effect_then [OF effect_prepare effect_then [OF assms(1) effect_prepare]] by (simp add: comp_def)
  show ?thesis
    using e [unfolded effect_def, rule_format, OF assms(2), of 0] assms(3)
    by (auto simp: in_transaction_def split: sum.splits prod.splits)
qed

text \<open>\<open>clear_exact_paths_tx\<close> on either half.\<close>

lemma effect_clear_one:
  assumes "\<And>t. table_ok t \<Longrightarrow> table_ok (g t) \<and> desired (g t) = df (desired t) \<and> materialized (g t) = mf (materialized t)"
    and "\<And>t. bt_ok t \<Longrightarrow> (case prune t of (removed, t') \<Rightarrow> if removed = 0 then clear t' else t') = g t"
  shows "effect ok (\<lambda>tx. and_then (execute_count ok prune tx) (\<lambda>(removed, tx).
      if removed = 0 then execute ok clear tx else Ok tx)) df mf"
proof -
  have "case and_then (execute_count ok prune (k, t)) (\<lambda>(removed, tx). if removed = 0 then execute ok clear tx else Ok tx) of
      Inl _ \<Rightarrow> \<exists>j. \<not> ok j
    | Inr (_, t') \<Rightarrow> table_ok t' \<and> desired t' = df (desired t) \<and> materialized t' = mf (materialized t)" if "table_ok t" for k t
  proof -
    obtain n u where u: "prune t = (n, u)" by (cases "prune t")
    have g: "(if n = 0 then clear u else u) = g t" using assms(2) [of t] that u by (simp add: table_ok_def)
    show ?thesis
      using assms(1) [OF that, folded g] u
      by (cases "n = 0") (auto simp: execute_count_def execute_def and_then_def)
  qed
  then show ?thesis unfolding effect_def by blast
qed

lemma foldl_clear: "foldl (\<lambda>D x p. if p = x then None else D p) D xs = (\<lambda>p. if p \<in> set xs then None else D p)"
  by (induction xs arbitrary: D) (auto simp: fun_eq_iff)

lemma foldl_same: "foldl (\<lambda>D x. D) D xs = D"
  by (induction xs) auto

lemma mat_halves: "mat.col = materialized" "mat.kept_col = desired"
  by (simp_all add: fun_eq_iff mat.col_def mat.kept_col_def materialized_def desired_def)

lemma effect_clear_materialized_exact:
  "effect ok (clear_materialized_exact_tx ok paths) (\<lambda>D. D) (\<lambda>M p. if p \<in> set paths then None else M p)"
proof -
  have one: "effect ok (\<lambda>tx. and_then (execute_count ok (sql_delete (\<lambda>p r. p = path \<and> sr_desired_oid r = None)) tx)
      (\<lambda>(removed, tx). if removed = 0
         then execute ok (sql_update (\<lambda>p r. if p = path \<and> sr_materialized_oid r \<noteq> None then Some (clear_materialized r) else None)) tx
         else Ok tx)) (\<lambda>D. D) (\<lambda>M p. if p = path then None else M p)" for path
    by (rule effect_clear_one [where g = "mat.cleared (\<lambda>p. p = path)"])
      (use mat.cleared_table [unfolded mat_halves] mat.prune_or_clear in auto)
  have "effect ok (\<lambda>tx. and_then (prepare ok tx) (\<lambda>tx. and_then (prepare ok tx) (for_each (\<lambda>path tx.
      and_then (execute_count ok (sql_delete (\<lambda>p r. p = path \<and> sr_desired_oid r = None)) tx)
      (\<lambda>(removed, tx). if removed = 0
         then execute ok (sql_update (\<lambda>p r. if p = path \<and> sr_materialized_oid r \<noteq> None then Some (clear_materialized r) else None)) tx
         else Ok tx)) paths)))
      (((\<lambda>D. foldl (\<lambda>D x. D) D paths) \<circ> (\<lambda>D. D)) \<circ> (\<lambda>D. D))
      (((\<lambda>M. foldl (\<lambda>M x p. if p = x then None else M p) M paths) \<circ> (\<lambda>M. M)) \<circ> (\<lambda>M. M))"
    by (rule effect_then [OF effect_prepare effect_then [OF effect_prepare effect_for_each]]) (rule one)
  then show ?thesis
    unfolding clear_materialized_exact_tx_def clear_exact_paths_tx_def foldl_same foldl_clear comp_def by simp
qed

section \<open>One mutation at a time\<close>

fun mutate :: "(oid \<times> u8 list option) half_map \<Rightarrow> state_mutation \<Rightarrow> (oid \<times> u8 list option) half_map" where
  "mutate M (Upsert row) = M(mr_path row \<mapsto> (mr_oid row, map_option encode_stat_proof (mr_proof row)))"
| "mutate M (RefreshStat path proof) =
     (case M path of None \<Rightarrow> M | Some (oid, _) \<Rightarrow> M(path \<mapsto> (oid, Some (encode_stat_proof proof))))"
| "mutate M (RemoveExact path) = M(path := None)"

text \<open>What the database may choose.\<close>

definition any_match :: "pick \<Rightarrow> bool" where
  "any_match pick \<longleftrightarrow>
     (\<forall>v p. case pick v p of None \<Rightarrow> p \<notin> fst ` set v | Some proof \<Rightarrow> (p, proof) \<in> set v)"

lemma upsert_row_table:
  assumes "table_ok t"
  shows "table_ok (upsert_materialized_row t row) \<and> desired (upsert_materialized_row t row) = desired t
    \<and> materialized (upsert_materialized_row t row) = mutate (materialized t) (Upsert row)"
  unfolding upsert_materialized_row_def Let_def mat_halves [symmetric] mutate.simps
  by (intro conjI; rule mat.alter_table [OF assms]) (auto simp: row_ok_def row_check_def)

lemma upsert_rows_table:
  "table_ok t \<Longrightarrow> table_ok (foldl upsert_materialized_row t rows) \<and> desired (foldl upsert_materialized_row t rows) = desired t
    \<and> materialized (foldl upsert_materialized_row t rows) = foldl (\<lambda>M row. mutate M (Upsert row)) (materialized t) rows"
  by (induction rows arbitrary: t) (simp_all add: upsert_row_table)

lemma state_chunk_pos [simp]: "0 < sql_chunk_size 3"
  by (simp add: sql_chunk_size_def SQL_BIND_BUDGET_def)

lemma effect_upsert:
  "effect ok (bulk_upsert_materialized ok rows) (\<lambda>D. D) (\<lambda>M. foldl (\<lambda>M row. mutate M (Upsert row)) M rows)"
proof -
  have "effect ok (bulk_upsert_materialized ok rows) (\<lambda>D. foldl (\<lambda>D chunk. D) D (chunks (sql_chunk_size 3) rows))
      (\<lambda>M. foldl (\<lambda>M chunk. foldl (\<lambda>M row. mutate M (Upsert row)) M chunk) M (chunks (sql_chunk_size 3) rows))"
    unfolding bulk_upsert_materialized_def by (intro effect_for_each effect_execute upsert_rows_table)
  then show ?thesis by (simp add: foldl_same foldl_concat [symmetric])
qed

text \<open>
  A refresh statement gives every refreshed path the proof the database picked, as if each of its rows
  carried that proof.
\<close>

definition chosen :: "pick \<Rightarrow> (gat_path \<times> stat_proof) list \<Rightarrow> (gat_path \<times> stat_proof) list" where
  "chosen pick v = map (\<lambda>(p, _). (p, the (pick v p))) v"

definition refresh_all :: "(oid \<times> u8 list option) half_map \<Rightarrow> (gat_path \<times> stat_proof) list \<Rightarrow> (oid \<times> u8 list option) half_map" where
  "refresh_all M v = foldl (\<lambda>M (path, proof). mutate M (RefreshStat path proof)) M v"

lemma refresh_all_uniform:
  "refresh_all M (map (\<lambda>(p, _). (p, f p)) v) p =
     (if p \<in> fst ` set v then map_option (\<lambda>(oid, _). (oid, Some (encode_stat_proof (f p)))) (M p) else M p)"
proof (induction v arbitrary: M)
  case (Cons x v)
  obtain q y where x: "x = (q, y)" by (cases x)
  show ?case using Cons.IH [of "mutate M (RefreshStat q (f q))"] x
    by (auto simp: refresh_all_def split: option.splits)
qed (simp add: refresh_all_def)

lemma refresh_all_chosen:
  assumes "any_match pick"
  shows "refresh_all M (chosen pick v) p =
    (case (M p, pick v p) of (Some (oid, _), Some proof) \<Rightarrow> Some (oid, Some (encode_stat_proof proof)) | _ \<Rightarrow> M p)"
proof -
  have "case pick v p of None \<Rightarrow> p \<notin> fst ` set v | Some proof \<Rightarrow> (p, proof) \<in> set v"
    using assms unfolding any_match_def by blast
  then show ?thesis
    unfolding chosen_def refresh_all_uniform by (cases "pick v p") (force split: option.split)+
qed

lemma chosen_offered:
  assumes "any_match pick"
  shows "list_all2 (\<lambda>(p, _) (q, y). q = p \<and> (p, y) \<in> set v) v (chosen pick v)"
proof -
  have "(p, the (pick v p)) \<in> set v" if hyp: "(p, x) \<in> set v" for p x
  proof -
    have "case pick v p of None \<Rightarrow> p \<notin> fst ` set v | Some proof \<Rightarrow> (p, proof) \<in> set v"
      using assms unfolding any_match_def by blast
    then show ?thesis using hyp by (cases "pick v p") force+
  qed
  then show ?thesis by (auto simp: chosen_def list.rel_map intro!: list.rel_refl_strong)
qed

lemma refresh_table:
  fixes v :: "(gat_path \<times> stat_proof) list"
  assumes "table_ok t" "any_match pick"
  defines "u \<equiv> sql_update (\<lambda>p r.
       case pick v p of
         None \<Rightarrow> None
       | Some proof \<Rightarrow>
           if sr_materialized_oid r \<noteq> None then Some (r\<lparr>sr_materialized_proof := Some (encode_stat_proof proof)\<rparr>)
           else None) t"
  shows "table_ok u \<and> desired u = desired t \<and> materialized u = refresh_all (materialized t) (chosen pick v)"
proof (intro conjI)
  have bt: "bt_ok t" using assms(1) by (simp add: table_ok_def)
  have get: "bt_get u p = map_option (\<lambda>r. case pick v p of None \<Rightarrow> r
      | Some proof \<Rightarrow> if sr_materialized_oid r \<noteq> None then r\<lparr>sr_materialized_proof := Some (encode_stat_proof proof)\<rparr> else r) (bt_get t p)" for p
    unfolding u_def sql_update_get by (cases "bt_get t p") (simp_all split: option.split)
  show "table_ok u"
  proof (rule table_okI)
    show "bt_ok u" using bt by (simp add: u_def sql_update_ok)
    show "row_ok r" if hyp: "bt_get u p = Some r" for p r
    proof -
      obtain r' where r': "bt_get t p = Some r'" using hyp get [of p] by (cases "bt_get t p") auto
      then show ?thesis
        using hyp get [of p] table_ok_get [OF assms(1) r'] by (auto simp: row_ok_def row_check_def split: option.splits if_splits)
    qed
  qed
  show "desired u = desired t"
  proof
    fix p
    show "desired u p = desired t p"
      by (cases "bt_get t p"; cases "pick v p") (simp_all add: desired_def get split: option.split)
  qed
  show "materialized u = refresh_all (materialized t) (chosen pick v)"
  proof
    fix p
    show "materialized u p = refresh_all (materialized t) (chosen pick v) p"
      unfolding refresh_all_chosen [OF assms(2)]
      by (cases "bt_get t p"; cases "pick v p") (auto simp: materialized_def get split: option.split)
  qed
qed

lemma list_all2_concat_within:
  assumes "\<And>xs. xs \<in> set xss \<Longrightarrow> list_all2 (\<lambda>x y. R x y \<and> y \<in> f ` set xs) xs (g xs)"
  shows "list_all2 (\<lambda>x y. R x y \<and> y \<in> f ` set (concat xss)) (concat xss) (concat (map g xss))"
  using assms
proof (induction xss)
  case (Cons xs xss)
  show ?case
    using Cons.prems [of xs] Cons.IH [OF Cons.prems]
    by (auto intro!: list_all2_appendI elim!: list_all2_mono)
qed simp

lemma refresh_all_concat: "foldl (\<lambda>M x. refresh_all M (f x)) M xs = refresh_all M (concat (map f xs))"
  by (induction xs arbitrary: M) (simp_all add: refresh_all_def)

lemma effect_refresh:
  assumes "any_match pick"
  obtains proofs' where
    "list_all2 (\<lambda>(p, _) (q, y). q = p \<and> (p, y) \<in> set proofs) proofs proofs'"
    "effect ok (bulk_refresh_materialized_proofs ok pick proofs) (\<lambda>D. D) (\<lambda>M. refresh_all M proofs')"
proof
  let ?cs = "chunks (sql_chunk_size 2) proofs"
  let ?R = "\<lambda>(p, _ :: stat_proof) (q, _ :: stat_proof). q = (p :: gat_path)"
  have "list_all2 (\<lambda>x y. ?R x y \<and> y \<in> id ` set chunk) chunk (chosen pick chunk)" for chunk
    using chosen_offered [OF assms, of chunk] by (rule list_all2_mono) auto
  then have "list_all2 (\<lambda>x y. ?R x y \<and> y \<in> id ` set (concat ?cs)) (concat ?cs) (concat (map (chosen pick) ?cs))"
    by (intro list_all2_concat_within)
  then show "list_all2 (\<lambda>(p, _) (q, y). q = p \<and> (p, y) \<in> set proofs) proofs (concat (map (chosen pick) ?cs))"
    by (auto elim!: list_all2_mono)
  have "effect ok (bulk_refresh_materialized_proofs ok pick proofs) (\<lambda>D. foldl (\<lambda>D chunk. D) D ?cs)
      (\<lambda>M. foldl (\<lambda>M chunk. refresh_all M (chosen pick chunk)) M ?cs)"
    unfolding bulk_refresh_materialized_proofs_def
    by (intro effect_for_each effect_execute refresh_table assms)
  then show "effect ok (bulk_refresh_materialized_proofs ok pick proofs) (\<lambda>D. D)
      (\<lambda>M. refresh_all M (concat (map (chosen pick) ?cs)))"
    by (simp add: foldl_same refresh_all_concat)
qed

lemma upsert_run_mutate:
  "foldl (\<lambda>M row. mutate M (Upsert row)) M (upsert_run (takeWhile is_upsert ops)) = foldl mutate M (takeWhile is_upsert ops)"
proof (induction ops arbitrary: M)
  case (Cons op ops)
  then show ?case by (cases op) (simp_all add: upsert_run_def map_filter_simps del: fun_upd_apply)
qed (simp add: upsert_run_def map_filter_simps)

lemma remove_run_mutate:
  "(\<lambda>p. if p \<in> set (remove_run (takeWhile is_remove ops)) then None else M p) = foldl mutate M (takeWhile is_remove ops)"
proof (induction ops arbitrary: M)
  case (Cons op ops)
  show ?case
  proof (cases op)
    case (RemoveExact path)
    have "(\<lambda>p. if p \<in> set (remove_run (takeWhile is_remove (op # ops))) then None else M p)
        = (\<lambda>p. if p \<in> set (remove_run (takeWhile is_remove ops)) then None else (M(path := None)) p)"
      by (auto simp: RemoveExact remove_run_def map_filter_simps fun_eq_iff)
    then show ?thesis using Cons.IH [of "M(path := None)"] RemoveExact by (simp del: fun_upd_apply)
  qed (simp_all add: remove_run_def map_filter_simps)
qed (simp add: remove_run_def map_filter_simps)

lemma refresh_run_append: "refresh_run (a @ b) = refresh_run a @ refresh_run b"
  by (simp add: refresh_run_def List.map_filter_def)

lemma foldl_split: "foldl mutate M ops = foldl mutate (foldl mutate M (takeWhile P ops)) (dropWhile P ops)"
  by (metis foldl_append takeWhile_dropWhile_id)

lemma refresh_run_one: "refresh_run [RefreshStat path proof] = [(path, proof)]"
  by (simp add: refresh_run_def map_filter_simps)

lemma refresh_run_map: "map (\<lambda>(p, x). RefreshStat p x) (refresh_run (takeWhile is_refresh ops)) = takeWhile is_refresh ops"
proof (induction ops)
  case (Cons op ops)
  then show ?case by (cases op) (simp_all add: refresh_run_def map_filter_simps)
qed (simp add: refresh_run_def map_filter_simps)

section \<open>What a batch leaves open\<close>

text \<open>
  Two positions are in the same run when everything between them refreshes. A batch is resolved by
  giving each refresh the proof of a refresh of the same path in its run; it has one proof per run
  when there is nothing to choose.
\<close>

definition same_run :: "state_mutation list \<Rightarrow> nat \<Rightarrow> nat \<Rightarrow> bool" where
  "same_run ops i j \<longleftrightarrow> i < length ops \<and> j < length ops \<and> (\<forall>k \<in> {min i j..max i j}. is_refresh (ops ! k))"

definition resolves :: "state_mutation list \<Rightarrow> state_mutation list \<Rightarrow> bool" where
  "resolves ops ops' \<longleftrightarrow> length ops' = length ops \<and>
     (\<forall>i < length ops. case ops ! i of
        RefreshStat path _ \<Rightarrow>
          (\<exists>j proof. same_run ops i j \<and> ops ! j = RefreshStat path proof \<and> ops' ! i = RefreshStat path proof)
      | op \<Rightarrow> ops' ! i = op)"

definition one_proof_per_run :: "state_mutation list \<Rightarrow> bool" where
  "one_proof_per_run ops \<longleftrightarrow>
     (\<forall>i j path x y. same_run ops i j \<and> ops ! i = RefreshStat path x \<and> ops ! j = RefreshStat path y \<longrightarrow> x = y)"

lemma resolvedI:
  assumes "length ops' = length ops"
    "\<And>i. i < length ops \<Longrightarrow> ops' ! i = ops ! i \<and> \<not> is_refresh (ops ! i)
       \<or> (\<exists>path x j y. ops ! i = RefreshStat path x \<and> same_run ops i j \<and> ops ! j = RefreshStat path y \<and> ops' ! i = RefreshStat path y)"
  shows "resolves ops ops'"
  unfolding resolves_def
proof (intro conjI allI impI)
  show "case ops ! i of
        RefreshStat path _ \<Rightarrow>
          (\<exists>j proof. same_run ops i j \<and> ops ! j = RefreshStat path proof \<and> ops' ! i = RefreshStat path proof)
      | op \<Rightarrow> ops' ! i = op" if i: "i < length ops" for i
    using assms(2) [OF i] by (cases "ops ! i") auto
qed (rule assms(1))

lemma resolvedE:
  assumes "resolves ops ops'" "i < length ops"
  obtains "\<not> is_refresh (ops ! i)" "ops' ! i = ops ! i"
  | path x j y where "ops ! i = RefreshStat path x" "same_run ops i j" "ops ! j = RefreshStat path y" "ops' ! i = RefreshStat path y"
  using assms by (cases "ops ! i") (force simp: resolves_def)+

lemma same_run_left: "same_run a i j \<Longrightarrow> same_run (a @ b) i j"
  by (auto simp: same_run_def nth_append)

lemma same_run_right:
  assumes "same_run b i j"
  shows "same_run (a @ b) (length a + i) (length a + j)"
proof -
  have "is_refresh ((a @ b) ! k)" if k: "k \<in> {min (length a + i) (length a + j)..max (length a + i) (length a + j)}" for k
  proof -
    have "k - length a \<in> {min i j..max i j}" "\<not> k < length a" using k by auto
    then show ?thesis using assms by (simp add: same_run_def nth_append)
  qed
  then show ?thesis using assms by (simp add: same_run_def)
qed

lemma resolved_append:
  assumes "resolves a a'" "resolves b b'"
  shows "resolves (a @ b) (a' @ b')"
proof (rule resolvedI)
  have l: "length a' = length a" "length b' = length b" using assms by (simp_all add: resolves_def)
  then show "length (a' @ b') = length (a @ b)" by simp
  show "(a' @ b') ! i = (a @ b) ! i \<and> \<not> is_refresh ((a @ b) ! i)
       \<or> (\<exists>path x j y. (a @ b) ! i = RefreshStat path x \<and> same_run (a @ b) i j \<and> (a @ b) ! j = RefreshStat path y
            \<and> (a' @ b') ! i = RefreshStat path y)" if i: "i < length (a @ b)" for i
  proof (cases "i < length a")
    case True
    with assms(1) show ?thesis
    proof (cases rule: resolvedE)
      case (2 path x j y)
      have "j < length a" using 2(2) by (simp add: same_run_def)
      then show ?thesis
        using True 2 l same_run_left [OF 2(2)] by (intro disjI2 exI [of _ path] exI [of _ x] exI [of _ j] exI [of _ y]) (simp add: nth_append)
    qed (simp add: nth_append l True)
  next
    case False
    then have "i - length a < length b" and ii: "length a + (i - length a) = i" using i by auto
    with assms(2) show ?thesis
    proof (cases rule: resolvedE)
      case (2 path x j y)
      show ?thesis
        using False 2 l same_run_right [OF 2(2), of a] ii
        by (intro disjI2 exI [of _ path] exI [of _ x] exI [of _ "length a + j"] exI [of _ y]) (simp add: nth_append)
    qed (use False l in \<open>simp add: nth_append\<close>)
  qed
qed

lemma resolved_same: "list_all (\<lambda>op. \<not> is_refresh op) ops \<Longrightarrow> resolves ops ops"
  by (rule resolvedI) (simp_all add: list_all_length)

lemma resolved_refreshes:
  assumes "list_all2 (\<lambda>(p, _) (q, y). q = p \<and> (p, y) \<in> set v) v v'"
  shows "resolves (map (\<lambda>(p, x). RefreshStat p x) v) (map (\<lambda>(p, x). RefreshStat p x) v')"
proof (rule resolvedI)
  have l: "length v' = length v" using assms by (simp add: list_all2_lengthD)
  then show "length (map (\<lambda>(p, x). RefreshStat p x) v') = length (map (\<lambda>(p, x). RefreshStat p x) v)" by simp
  fix i
  assume i: "i < length (map (\<lambda>(p, x). RefreshStat p x) v)"
  obtain p x where x: "v ! i = (p, x)" by (cases "v ! i")
  obtain q y where y: "v' ! i = (q, y)" by (cases "v' ! i")
  have "q = p" "(p, y) \<in> set v" using list_all2_nthD [OF assms, of i] i x y by auto
  moreover from this(2) obtain j where "j < length v" "v ! j = (p, y)" by (auto simp: in_set_conv_nth)
  moreover have "same_run (map (\<lambda>(p, x). RefreshStat p x) v) i j"
    using i \<open>j < length v\<close> by (auto simp: same_run_def split: prod.split)
  ultimately show "map (\<lambda>(p, x). RefreshStat p x) v' ! i = map (\<lambda>(p, x). RefreshStat p x) v ! i
        \<and> \<not> is_refresh (map (\<lambda>(p, x). RefreshStat p x) v ! i)
      \<or> (\<exists>path x j y. map (\<lambda>(p, x). RefreshStat p x) v ! i = RefreshStat path x
          \<and> same_run (map (\<lambda>(p, x). RefreshStat p x) v) i j \<and> map (\<lambda>(p, x). RefreshStat p x) v ! j = RefreshStat path y
          \<and> map (\<lambda>(p, x). RefreshStat p x) v' ! i = RefreshStat path y)"
    using i l x y by (intro disjI2 exI [of _ p] exI [of _ x] exI [of _ j] exI [of _ y]) simp
qed

lemma resolved_unique:
  assumes "resolves ops ops'" "one_proof_per_run ops"
  shows "ops' = ops"
proof (rule nth_equalityI)
  show "length ops' = length ops" using assms(1) by (simp add: resolves_def)
  fix i
  assume "i < length ops'"
  then have "i < length ops" using assms(1) by (simp add: resolves_def)
  with assms(1) show "ops' ! i = ops ! i"
  proof (cases rule: resolvedE)
    case (2 path x j y)
    have "x = y" using assms(2) 2(1-3) unfolding one_proof_per_run_def by blast
    with 2 show ?thesis by simp
  qed
qed

lemma refreshed_once:
  assumes "distinct (map fst (refresh_run ops))"
  shows "one_proof_per_run ops"
proof -
  have no: False if ij: "i < j" "j < length ops" and r: "ops ! i = RefreshStat path x" "ops ! j = RefreshStat path y" for i j path x y
  proof -
    have "RefreshStat path x \<in> set (take j ops)" using ij r(1) by (auto simp: in_set_conv_nth)
    then have "(path, x) \<in> set (refresh_run (take j ops))"
      by (force simp: refresh_run_def List.map_filter_def)
    moreover have "ops = take j ops @ [ops ! j] @ drop (Suc j) ops" using ij(2) by (simp add: id_take_nth_drop)
    then have "refresh_run ops = refresh_run (take j ops) @ (path, y) # refresh_run (drop (Suc j) ops)"
      using r(2) refresh_run_append by (metis refresh_run_one append_Cons append_Nil)
    ultimately show False using assms by force
  qed
  show ?thesis
    unfolding one_proof_per_run_def same_run_def
    using no by (metis linorder_neqE_nat state_mutation.inject(2))
qed

text \<open>Which paths are materialized, and with which content, is never open.\<close>

lemma resolved_oids:
  assumes "resolves ops ops'"
  shows "map_option fst (foldl mutate M ops' p) = map_option fst (foldl mutate M ops p)"
proof -
  let ?S = "\<lambda>op op'. op' = op \<or> (\<exists>path x y. op = RefreshStat path x \<and> op' = RefreshStat path y)"
  have "list_all2 ?S ops ops'"
    using assms by (auto simp: list_all2_conv_all_nth resolves_def elim!: resolvedE [OF assms])
  then have "\<forall>N :: (oid \<times> u8 list option) half_map. (\<forall>p. map_option fst (N p) = map_option fst (M p)) \<longrightarrow>
      map_option fst (foldl mutate N ops' p) = map_option fst (foldl mutate M ops p)"
  proof (induction arbitrary: M rule: list_all2_induct)
    case (Cons op ops op' ops')
    show ?case
    proof (intro allI impI)
      fix N :: "(oid \<times> u8 list option) half_map"
      assume eq: "\<forall>p. map_option fst (N p) = map_option fst (M p)"
      have "map_option fst (mutate N op' p) = map_option fst (mutate M op p)" for p
      proof (cases op)
        case (RefreshStat path x)
        then show ?thesis
          using Cons(1) spec [OF eq, of path] spec [OF eq, of p]
          by (cases "M path"; cases "N path") auto
      qed (use Cons(1) eq in auto)
      then show "map_option fst (foldl mutate N (op' # ops') p) = map_option fst (foldl mutate M (op # ops) p)"
        using Cons.IH by simp
    qed
  qed simp
  then show ?thesis by blast
qed

lemma effect_batch:
  assumes "any_match pick"
  shows "\<exists>ops'. resolves ops ops' \<and> effect ok (batch_loop ok pick ops) (\<lambda>D. D) (\<lambda>M. foldl mutate M ops')"
proof (induction ops rule: length_induct)
  case (1 ops)
  show ?case
  proof (cases ops)
    case Nil
    have "resolves [] []" by (simp add: resolves_def)
    then show ?thesis using Nil effect_Ok by (intro exI [of _ "[]"]) (simp add: effect_def)
  next
    case (Cons op rest)
    have run: "\<exists>ops'. resolves (op # rest) ops'
        \<and> effect ok (\<lambda>tx. and_then (m tx) (batch_loop ok pick (dropWhile P rest))) (\<lambda>D. D) (\<lambda>M. foldl mutate M ops')"
      if m: "effect ok m (\<lambda>D. D) (\<lambda>M. foldl mutate M first)" and first: "resolves (op # takeWhile P rest) first" for m P first
    proof -
      have "length (dropWhile P rest) < length ops" using Cons by (simp add: le_imp_less_Suc length_dropWhile_le)
      then obtain more where more: "resolves (dropWhile P rest) more"
        and eff: "effect ok (batch_loop ok pick (dropWhile P rest)) (\<lambda>D. D) (\<lambda>M. foldl mutate M more)" using 1 by blast
      have "effect ok (\<lambda>tx. and_then (m tx) (batch_loop ok pick (dropWhile P rest))) (\<lambda>D. D) (\<lambda>M. foldl mutate M (first @ more))"
        by (rule effect_cong [OF effect_then [OF m eff]]) (auto simp: fun_eq_iff)
      moreover have "resolves (op # rest) (first @ more)"
        using resolved_append [OF first more] by simp
      ultimately show ?thesis by blast
    qed
    show ?thesis
    proof (cases op)
      case (Upsert row)
      have "effect ok (bulk_upsert_materialized ok (row # upsert_run (takeWhile is_upsert rest))) (\<lambda>D. D)
          (\<lambda>M. foldl mutate M (op # takeWhile is_upsert rest))"
        using effect_upsert [of ok "row # upsert_run (takeWhile is_upsert rest)"] Upsert
        by (simp add: upsert_run_mutate del: fun_upd_apply mutate.simps)
      moreover have "resolves (op # takeWhile is_upsert rest) (op # takeWhile is_upsert rest)"
        using Upsert by (intro resolved_same) (auto simp: list_all_iff dest!: set_takeWhileD elim: is_upsert.elims)
      ultimately have "\<exists>ops'. resolves (op # rest) ops' \<and> effect ok (\<lambda>tx. and_then (bulk_upsert_materialized ok (row # upsert_run (takeWhile is_upsert rest)) tx)
          (batch_loop ok pick (dropWhile is_upsert rest))) (\<lambda>D. D) (\<lambda>M. foldl mutate M ops')" by (rule run)
      then show ?thesis using Cons Upsert by (simp add: effect_def)
    next
      case (RefreshStat path proof')
      let ?run = "(path, proof') # refresh_run (takeWhile is_refresh rest)"
      obtain v' where v': "list_all2 (\<lambda>(p, _) (q, y). q = p \<and> (p, y) \<in> set ?run) ?run v'"
        and eff: "effect ok (bulk_refresh_materialized_proofs ok pick ?run) (\<lambda>D. D) (\<lambda>M. refresh_all M v')"
        by (rule effect_refresh [OF assms])
      have "effect ok (bulk_refresh_materialized_proofs ok pick ?run) (\<lambda>D. D)
          (\<lambda>M. foldl mutate M (map (\<lambda>(p, x). RefreshStat p x) v'))"
        using eff by (simp add: refresh_all_def foldl_map case_prod_beta')
      moreover have "resolves (op # takeWhile is_refresh rest) (map (\<lambda>(p, x). RefreshStat p x) v')"
        using resolved_refreshes [OF v'] RefreshStat by (simp add: refresh_run_map)
      ultimately have "\<exists>ops'. resolves (op # rest) ops' \<and> effect ok (\<lambda>tx. and_then (bulk_refresh_materialized_proofs ok pick ?run tx)
          (batch_loop ok pick (dropWhile is_refresh rest))) (\<lambda>D. D) (\<lambda>M. foldl mutate M ops')" by (rule run)
      then show ?thesis using Cons RefreshStat by (simp add: effect_def)
    next
      case (RemoveExact path)
      have "(\<lambda>p. if p \<in> set (path # remove_run (takeWhile is_remove rest)) then None else M p)
          = foldl mutate M (op # takeWhile is_remove rest)" for M
        using remove_run_mutate [of "op # rest" M] RemoveExact by (simp add: remove_run_def map_filter_simps)
      then have "effect ok (clear_materialized_exact_tx ok (path # remove_run (takeWhile is_remove rest))) (\<lambda>D. D)
          (\<lambda>M. foldl mutate M (op # takeWhile is_remove rest))"
        using effect_clear_materialized_exact [of ok "path # remove_run (takeWhile is_remove rest)"] by simp
      moreover have "resolves (op # takeWhile is_remove rest) (op # takeWhile is_remove rest)"
        using RemoveExact by (intro resolved_same) (auto simp: list_all_iff dest!: set_takeWhileD elim: is_remove.elims)
      ultimately have "\<exists>ops'. resolves (op # rest) ops' \<and> effect ok (\<lambda>tx. and_then (clear_materialized_exact_tx ok (path # remove_run (takeWhile is_remove rest)) tx)
          (batch_loop ok pick (dropWhile is_remove rest))) (\<lambda>D. D) (\<lambda>M. foldl mutate M ops')" by (rule run)
      then show ?thesis using Cons RemoveExact by (simp add: effect_def)
    qed
  qed
qed

lemma apply_batch_effect:
  assumes "any_match pick" "table_ok t" "apply_batch ok pick ops t = (t', result)"
  obtains ops' where "resolves ops ops'" "result = Ok ()" "table_ok t'" "desired t' = desired t"
      "materialized t' = foldl mutate (materialized t) ops'"
  | "result \<noteq> Ok ()" "t' = t" "\<exists>j. \<not> ok j"
proof (cases "ops = []")
  case True
  have "resolves ops []" using True by (simp add: resolves_def)
  with True assms that(1) [of "[]"] show thesis by (simp add: apply_batch_def)
next
  case False
  obtain ops' where r: "resolves ops ops'" and eff: "effect ok (batch_loop ok pick ops) (\<lambda>D. D) (\<lambda>M. foldl mutate M ops')"
    using effect_batch [OF assms(1)] by blast
  from effect_transaction [OF eff assms(2)] False assms(3) that(1) [OF r] that(2) show thesis
    by (auto simp: apply_batch_def)
qed

section \<open>The dirty index\<close>

lemma row_dirty_iff: "row_ok r \<Longrightarrow> row_dirty r \<longleftrightarrow> map_option fst (des_half r) \<noteq> map_option fst (mat_half r)"
  by (auto simp: row_ok_def row_check_def row_dirty_def split: option.splits)

lemma dirty_iff:
  assumes "table_ok t"
  shows "(\<exists>r. bt_get t p = Some r \<and> row_dirty r) \<longleftrightarrow> map_option fst (desired t p) \<noteq> map_option fst (materialized t p)"
proof (cases "bt_get t p")
  case (Some r)
  then show ?thesis
    using row_dirty_iff [OF table_ok_get [OF assms Some]] by (simp add: desired_def materialized_def)
qed (simp add: desired_def materialized_def)

lemma query_sorted:
  assumes "bt_ok t"
  shows "sorted_wrt (<) (map dr_path (query_dirty_rows t scope after limit))"
proof -
  have take: "sorted_wrt (<) (map fst (take n rows))" if "sorted_wrt (<) (map fst rows)" for n and rows :: table
    using that by (simp add: take_map [symmetric] sorted_wrt_take)
  have "sorted_wrt (<) (map fst (filter P t))" for P
    using assms by (simp add: bt_ok_def sorted_wrt_map sorted_wrt_filter)
  then show ?thesis
    using take by (cases limit) (simp_all add: query_dirty_rows_def Let_def comp_def case_prod_unfold)
qed

lemma query_rows:
  assumes "bt_ok t"
  shows "set (query_dirty_rows t scope after None) =
    {\<lparr>dr_path = p, dr_desired = sr_desired_oid r, dr_materialized = sr_materialized_oid r\<rparr> | p r.
       bt_get t p = Some r \<and> row_dirty r \<and> in_scope_range scope p \<and> (\<forall>a. after = Some a \<longrightarrow> a < p)}"
  using bt_get_Some [OF assms] by (auto simp: query_dirty_rows_def image_iff split: option.splits)

section \<open>Properties\<close>

definition sample_proof :: stat_proof where
  "sample_proof = \<lparr>sp_size = 1, sp_mtime_secs = 2, sp_mtime_nanos = 3\<rparr>"

text \<open>
  C30: a batch is its mutations in order, whatever runs it is split into, however they are chunked
  and whichever statement fails. The store is left either as it was, or (without a failure always)
  with every desired half untouched, the table's constraints kept, and the materialized half that
  applying the mutations one by one would give, except for the proofs of a path refreshed several times
  in one run of refreshes: \<open>UPDATE ... FROM\<close> may give it any proof of its run, not the last one. So the
  batch applies a resolution of the mutations, exactly the mutations when no run refreshes a path with
  two different proofs, and in every case the generated dirty flag tells where the desired content and
  the one the mutations in order leave differ.
\<close>

theorem apply_batch_in_order:
  assumes "any_match pick" "table_ok t" "apply_batch ok pick ops t = (t', result)"
  shows "((\<forall>k. ok k) \<longrightarrow> result = Ok ()) \<and> (result \<noteq> Ok () \<longrightarrow> t' = t)
    \<and> (result = Ok () \<longrightarrow> table_ok t' \<and> desired t' = desired t
        \<and> (\<exists>ops'. resolves ops ops' \<and> materialized t' = foldl mutate (materialized t) ops')
        \<and> (one_proof_per_run ops \<longrightarrow> materialized t' = foldl mutate (materialized t) ops)
        \<and> (\<forall>p. (\<exists>r. bt_get t' p = Some r \<and> row_dirty r)
              \<longleftrightarrow> map_option fst (desired t p) \<noteq> map_option fst (foldl mutate (materialized t) ops p)))"
  using assms
proof (cases rule: apply_batch_effect)
  case (1 ops')
  have "materialized t' = foldl mutate (materialized t) ops" if "one_proof_per_run ops"
    using 1 resolved_unique [OF 1(1) that] by simp
  then show ?thesis using 1 dirty_iff [OF 1(3)] resolved_oids [OF 1(1)] by auto
qed simp

lemma apply_batch_in_order_witness:
  "\<exists>t'. apply_batch (\<lambda>_. True) map_of
      [RemoveExact (GatPath [97]), Upsert \<lparr>mr_path = GatPath [97, 47, 98], mr_oid = Oid [2], mr_proof = None\<rparr>,
       RefreshStat (GatPath [97, 47, 98]) sample_proof, RefreshStat (GatPath [98]) sample_proof]
      [(GatPath [97], \<lparr>sr_desired_oid = None, sr_desired_shard = None, sr_materialized_oid = Some (Oid [1]), sr_materialized_proof = None\<rparr>)]
     = (t', Ok ()) \<and> materialized t' (GatPath [97, 47, 98]) = Some (Oid [2], Some (encode_stat_proof sample_proof))
    \<and> materialized t' (GatPath [97]) = None \<and> materialized t' (GatPath [98]) = None"
proof -
  let ?ops = "[RemoveExact (GatPath [97]), Upsert \<lparr>mr_path = GatPath [97, 47, 98], mr_oid = Oid [2], mr_proof = None\<rparr>,
       RefreshStat (GatPath [97, 47, 98]) sample_proof, RefreshStat (GatPath [98]) sample_proof]"
  let ?t = "[(GatPath [97], \<lparr>sr_desired_oid = None, sr_desired_shard = None, sr_materialized_oid = Some (Oid [1]), sr_materialized_proof = None\<rparr>)]"
  have p: "any_match map_of" by (auto simp: any_match_def map_of_eq_None_iff map_of_SomeD split: option.split)
  have d: "one_proof_per_run ?ops" by (rule refreshed_once) (simp add: refresh_run_def map_filter_simps)
  have t: "table_ok ?t" by (simp add: table_ok_def bt_ok_def row_ok_def row_check_def)
  obtain t' result where r: "apply_batch (\<lambda>_. True) map_of ?ops ?t = (t', result)" by fastforce
  have "result = Ok ()" "materialized t' = foldl mutate (materialized ?t) ?ops"
    using apply_batch_in_order [OF p t r] d by simp_all
  moreover have "materialized ?t (GatPath [98]) = None" by (simp add: materialized_def bt_get_def)
  ultimately show ?thesis using r by simp
qed

text \<open>
  What the exception is about: two refreshes of one path in a run, and a database that takes the first
  matching row, leave the first proof, where the mutations in order leave the second.
\<close>

lemma refreshed_twice_out_of_order:
  assumes "encode_stat_proof a \<noteq> encode_stat_proof b"
  defines "ops \<equiv> [RefreshStat (GatPath [97]) a, RefreshStat (GatPath [97]) b]"
    and "t \<equiv> [(GatPath [97], \<lparr>sr_desired_oid = None, sr_desired_shard = None, sr_materialized_oid = Some (Oid [1]), sr_materialized_proof = None\<rparr>)]"
  shows "any_match map_of" "table_ok t"
    "\<exists>t'. apply_batch (\<lambda>_. True) map_of ops t = (t', Ok ())
      \<and> materialized t' (GatPath [97]) = Some (Oid [1], Some (encode_stat_proof a))
      \<and> foldl mutate (materialized t) ops (GatPath [97]) = Some (Oid [1], Some (encode_stat_proof b))"
proof -
  show "any_match map_of" by (auto simp: any_match_def map_of_eq_None_iff map_of_SomeD split: option.split)
  show "table_ok t" by (simp add: t_def table_ok_def bt_ok_def row_ok_def row_check_def)
  have c: "sql_chunk_size 2 = 15000" by (simp add: sql_chunk_size_def SQL_BIND_BUDGET_def)
  show "\<exists>t'. apply_batch (\<lambda>_. True) map_of ops t = (t', Ok ())
      \<and> materialized t' (GatPath [97]) = Some (Oid [1], Some (encode_stat_proof a))
      \<and> foldl mutate (materialized t) ops (GatPath [97]) = Some (Oid [1], Some (encode_stat_proof b))"
    by (simp add: ops_def t_def apply_batch_def in_transaction_def prepare_def execute_def refresh_run_def map_filter_simps
        bulk_refresh_materialized_proofs_def chunks.simps c sql_update_def materialized_def bt_get_def)
qed

end
