(* ===== verification/DesiredMirror.thy ===== *)
theory DesiredMirror
  imports StateTable LockIdentity
begin

text \<open>
  The desired mirror of the state store: the desired half of the \<open>state\<close> table and the shard catalog with
  the accumulated identity (\<open>gat-io/src/state/desired.rs\<close> and \<open>reconciliation.rs\<close>). \<open>hash\<close> is BLAKE3.
  Toggling a shard never fails for the well-formed ids the catalog holds; \<open>toggled\<close> keeps the accumulator
  where the model of the id's spelling has no value.
\<close>

section \<open>The database\<close>

record shard_row =
  shr_identity :: "u8 list"
  shr_proof :: "u8 list option"

record state_db =
  db_state :: table
  db_shards :: "(lock_shard_id \<times> shard_row) list"
  db_fingerprint :: "u8 list"

record stored_shard =
  ss_identity :: shard_content_identity
  ss_proof :: "stat_proof option"

record changed_shard =
  cs_shard_id :: lock_shard_id
  cs_prior_identity :: "shard_content_identity option"
  cs_identity :: shard_content_identity
  cs_proof :: "stat_proof option"
  cs_entries :: "entry list"

record changed_shard_meta =
  cm_shard_id :: lock_shard_id
  cm_prior_identity :: "shard_content_identity option"
  cm_identity :: shard_content_identity
  cm_proof :: "stat_proof option"

definition meta_from :: "changed_shard \<Rightarrow> changed_shard_meta" where
  "meta_from shard =
     \<lparr>cm_shard_id = cs_shard_id shard, cm_prior_identity = cs_prior_identity shard,
      cm_identity = cs_identity shard, cm_proof = cs_proof shard\<rparr>"

record removed_shard =
  rs_shard_id :: lock_shard_id
  rs_prior_identity :: shard_content_identity

section \<open>The desired half\<close>

definition shard_id_for_path :: "(str \<Rightarrow> u8 list) \<Rightarrow> gat_path \<Rightarrow> lock_shard_levels \<Rightarrow> lock_shard_id" where
  "shard_id_for_path hash path levels =
     (case for_path hash path levels of Some i \<Rightarrow> i | None \<Rightarrow> shard_flat)"

definition upsert_desired_row :: "lock_shard_id \<Rightarrow> table \<Rightarrow> entry \<Rightarrow> table" where
  "upsert_desired_row i t e =
     bt_alter (entry_path e) (\<lambda>old.
       case old of
         None \<Rightarrow> \<lparr>sr_desired_oid = Some (entry_oid e), sr_desired_shard = Some i,
                  sr_materialized_oid = None, sr_materialized_proof = None\<rparr>
       | Some r \<Rightarrow> r\<lparr>sr_desired_oid := Some (entry_oid e), sr_desired_shard := Some i\<rparr>) t"

definition upsert_desired_entries_tx ::
  "(str \<Rightarrow> u8 list) \<Rightarrow> (nat \<Rightarrow> bool) \<Rightarrow> entry list \<Rightarrow> lock_shard_levels \<Rightarrow> table tx \<Rightarrow> state_store_error + table tx" where
  "upsert_desired_entries_tx hash ok entries levels =
     for_each (\<lambda>chunk. execute ok (\<lambda>t.
       foldl (\<lambda>t e. upsert_desired_row (shard_id_for_path hash (entry_path e) levels) t e) t chunk))
       (chunks (sql_chunk_size 3) entries)"

definition desired_shard_paths_tx ::
  "(nat \<Rightarrow> bool) \<Rightarrow> lock_shard_id \<Rightarrow> table tx \<Rightarrow> state_store_error + (gat_path list \<times> table tx)" where
  "desired_shard_paths_tx ok i = query ok (\<lambda>t. map fst (filter (\<lambda>(p, r). sr_desired_shard r = Some i) t))"

definition clear_desired :: "state_row \<Rightarrow> state_row" where
  "clear_desired r = r\<lparr>sr_desired_oid := None, sr_desired_shard := None\<rparr>"

definition clear_desired_exact_tx ::
  "(nat \<Rightarrow> bool) \<Rightarrow> gat_path list \<Rightarrow> table tx \<Rightarrow> state_store_error + table tx" where
  "clear_desired_exact_tx ok paths =
     clear_exact_paths_tx ok
       (\<lambda>path. sql_delete (\<lambda>p r. p = path \<and> sr_materialized_oid r = None))
       (\<lambda>path. sql_update (\<lambda>p r. if p = path \<and> sr_desired_oid r \<noteq> None then Some (clear_desired r) else None))
       paths"

definition clear_desired_prefix_tx ::
  "(nat \<Rightarrow> bool) \<Rightarrow> gat_path \<Rightarrow> table tx \<Rightarrow> state_store_error + table tx" where
  "clear_desired_prefix_tx ok path tx =
     and_then (execute ok (\<lambda>t. snd (sql_delete (\<lambda>p r. in_subtree path p \<and> sr_materialized_oid r = None) t)) tx)
       (execute ok (sql_update (\<lambda>p r.
          if sr_desired_oid r \<noteq> None \<and> in_subtree path p then Some (clear_desired r) else None)))"

definition clear_shard_desired_tx :: "(nat \<Rightarrow> bool) \<Rightarrow> lock_shard_id \<Rightarrow> table tx \<Rightarrow> state_store_error + table tx" where
  "clear_shard_desired_tx ok i tx =
     and_then (desired_shard_paths_tx ok i tx) (\<lambda>(paths, tx). clear_desired_exact_tx ok paths tx)"

text \<open>\<open>(30000 - 1) / 2\<close> rows share one bound shard id.\<close>

definition sql_chunk_size_with_shared_binds :: "nat \<Rightarrow> nat \<Rightarrow> nat" where
  "sql_chunk_size_with_shared_binds binds_per_row shared_binds = (SQL_BIND_BUDGET - shared_binds) div binds_per_row"

definition apply_shard_entries_tx ::
  "(nat \<Rightarrow> bool) \<Rightarrow> lock_shard_id \<Rightarrow> entry list \<Rightarrow> table tx \<Rightarrow> state_store_error + table tx" where
  "apply_shard_entries_tx ok i entries tx =
     and_then (desired_shard_paths_tx ok i tx) (\<lambda>(previous_paths, tx).
     and_then
       (if previous_paths \<noteq> [] then
          (let stale = filter (\<lambda>path. path \<notin> entry_path ` set entries) previous_paths
           in if stale \<noteq> [] then clear_desired_exact_tx ok stale tx else Ok tx)
        else Ok tx)
       (for_each (\<lambda>chunk. execute ok (\<lambda>t. foldl (upsert_desired_row i) t chunk))
          (chunks (sql_chunk_size_with_shared_binds 2 1) entries)))"

section \<open>The shard catalog\<close>

definition shard_delete :: "lock_shard_id \<Rightarrow> (lock_shard_id \<times> shard_row) list \<Rightarrow> (lock_shard_id \<times> shard_row) list" where
  "shard_delete i xs = filter (\<lambda>(j, _). j \<noteq> i) xs"

definition shard_upsert ::
  "lock_shard_id \<Rightarrow> shard_row \<Rightarrow> (lock_shard_id \<times> shard_row) list \<Rightarrow> (lock_shard_id \<times> shard_row) list" where
  "shard_upsert i row xs =
     (if i \<in> fst ` set xs then map (\<lambda>(j, r). (j, if j = i then row else r)) xs else xs @ [(i, row)])"

definition shard_set_proof ::
  "lock_shard_id \<Rightarrow> u8 list option \<Rightarrow> (lock_shard_id \<times> shard_row) list \<Rightarrow> (lock_shard_id \<times> shard_row) list" where
  "shard_set_proof i pf xs = map (\<lambda>(j, r). (j, if j = i then r\<lparr>shr_proof := pf\<rparr> else r)) xs"

text \<open>A malformed proof reads as no proof; an identity of the wrong length is a corrupt row.\<close>

fun decode_shard_rows :: "(lock_shard_id \<times> shard_row) list \<Rightarrow> state_store_error + (lock_shard_id \<times> stored_shard) list" where
  "decode_shard_rows [] = Ok []"
| "decode_shard_rows ((i, row) # rows) =
     (case content_decode (shr_identity row) of
        Inl _ \<Rightarrow> Err (InvalidRow (shr_identity row))
      | Inr identity \<Rightarrow>
          map_ok (Cons (i, \<lparr>ss_identity = identity, ss_proof = Option.bind (shr_proof row) decode_stat_proof\<rparr>))
            (decode_shard_rows rows))"

text \<open>The whole catalog in one query, or the rows of given ids, a bounded chunk of them at a time.\<close>

fun catalog_chunks ::
  "(nat \<Rightarrow> bool) \<Rightarrow> lock_shard_id list list \<Rightarrow> state_db tx
     \<Rightarrow> state_store_error + ((lock_shard_id \<times> stored_shard) list \<times> state_db tx)" where
  "catalog_chunks ok [] tx = Ok ([], tx)"
| "catalog_chunks ok (ids # groups) tx =
     and_then (query ok (\<lambda>db. filter (\<lambda>(i, _). i \<in> set ids) (db_shards db)) tx) (\<lambda>(rows, tx).
     and_then (decode_shard_rows rows) (\<lambda>out.
     map_ok (\<lambda>(out', tx). (out @ out', tx)) (catalog_chunks ok groups tx)))"

definition shard_identities_query ::
  "(nat \<Rightarrow> bool) \<Rightarrow> lock_shard_id list option \<Rightarrow> state_db tx
     \<Rightarrow> state_store_error + ((lock_shard_id \<times> stored_shard) list \<times> state_db tx)" where
  "shard_identities_query ok shard_ids tx =
     (case shard_ids of
        None \<Rightarrow> and_then (query ok db_shards tx) (\<lambda>(rows, tx). map_ok (\<lambda>out. (out, tx)) (decode_shard_rows rows))
      | Some ids \<Rightarrow> catalog_chunks ok (chunks (sql_chunk_size 1) ids) tx)"

definition read_desired_identity_tx ::
  "(nat \<Rightarrow> bool) \<Rightarrow> state_db tx \<Rightarrow> state_store_error + (canonical_desired_identity \<times> state_db tx)" where
  "read_desired_identity_tx ok tx =
     and_then (query ok db_fingerprint tx) (\<lambda>(bytes, tx).
       if length bytes = 32 then Ok (DesiredIdentity bytes, tx) else Err (InvalidRow bytes))"

definition write_desired_identity_tx ::
  "(nat \<Rightarrow> bool) \<Rightarrow> canonical_desired_identity \<Rightarrow> state_db tx \<Rightarrow> state_store_error + state_db tx" where
  "write_desired_identity_tx ok identity = execute ok (\<lambda>db. db\<lparr>db_fingerprint := desired_bytes identity\<rparr>)"

definition upsert_shard_identity_tx ::
  "(nat \<Rightarrow> bool) \<Rightarrow> lock_shard_id \<Rightarrow> shard_content_identity \<Rightarrow> stat_proof option \<Rightarrow> state_db tx
     \<Rightarrow> state_store_error + state_db tx" where
  "upsert_shard_identity_tx ok i identity proof =
     execute ok (\<lambda>db. db\<lparr>db_shards :=
       shard_upsert i \<lparr>shr_identity = content_bytes identity, shr_proof = map_option encode_stat_proof proof\<rparr> (db_shards db)\<rparr>)"

definition toggled ::
  "(str \<Rightarrow> u8 list) \<Rightarrow> canonical_desired_identity \<Rightarrow> lock_shard_id \<Rightarrow> shard_content_identity \<Rightarrow> canonical_desired_identity" where
  "toggled hash acc i identity = (case toggle_shard hash acc i identity of Some d \<Rightarrow> d | None \<Rightarrow> acc)"

fun remove_shards ::
  "(str \<Rightarrow> u8 list) \<Rightarrow> (nat \<Rightarrow> bool) \<Rightarrow> removed_shard list \<Rightarrow> canonical_desired_identity option \<Rightarrow> state_db tx
     \<Rightarrow> state_store_error + (canonical_desired_identity option \<times> state_db tx)" where
  "remove_shards hash ok [] identity tx = Ok (identity, tx)"
| "remove_shards hash ok (removed # rest) identity tx =
     and_then (execute ok (\<lambda>db. db\<lparr>db_shards := shard_delete (rs_shard_id removed) (db_shards db)\<rparr>) tx)
       (remove_shards hash ok rest
          (map_option (\<lambda>acc. toggled hash acc (rs_shard_id removed) (rs_prior_identity removed)) identity))"

fun upsert_shards ::
  "(str \<Rightarrow> u8 list) \<Rightarrow> (nat \<Rightarrow> bool) \<Rightarrow> changed_shard_meta list \<Rightarrow> canonical_desired_identity option \<Rightarrow> state_db tx
     \<Rightarrow> state_store_error + (canonical_desired_identity option \<times> state_db tx)" where
  "upsert_shards hash ok [] identity tx = Ok (identity, tx)"
| "upsert_shards hash ok (shard # rest) identity tx =
     and_then (upsert_shard_identity_tx ok (cm_shard_id shard) (cm_identity shard) (cm_proof shard) tx)
       (upsert_shards hash ok rest
          (map_option (\<lambda>acc.
             let acc = (case cm_prior_identity shard of
                          Some prior \<Rightarrow> toggled hash acc (cm_shard_id shard) prior | None \<Rightarrow> acc)
             in toggled hash acc (cm_shard_id shard) (cm_identity shard)) identity))"

definition apply_shard_catalog_tx ::
  "(str \<Rightarrow> u8 list) \<Rightarrow> (nat \<Rightarrow> bool) \<Rightarrow> changed_shard_meta list \<Rightarrow> (lock_shard_id \<times> stat_proof option) list
     \<Rightarrow> removed_shard list \<Rightarrow> state_db tx \<Rightarrow> state_store_error + state_db tx" where
  "apply_shard_catalog_tx hash ok changed_or_new stat_only_updates removed_shards tx =
     (let touches_identity = (changed_or_new \<noteq> [] \<or> removed_shards \<noteq> [])
      in and_then (if touches_identity then map_ok (\<lambda>(d, tx). (Some d, tx)) (read_desired_identity_tx ok tx) else Ok (None, tx)) (\<lambda>(identity, tx).
         and_then (remove_shards hash ok removed_shards identity tx) (\<lambda>(identity, tx).
         and_then (upsert_shards hash ok changed_or_new identity tx) (\<lambda>(identity, tx).
         and_then (for_each (\<lambda>(i, proof). execute ok (\<lambda>db. db\<lparr>db_shards := shard_set_proof i (map_option encode_stat_proof proof) (db_shards db)\<rparr>))
             stat_only_updates tx) (\<lambda>tx.
         case identity of None \<Rightarrow> Ok tx | Some identity \<Rightarrow> write_desired_identity_tx ok identity tx)))))"

section \<open>Applying a refresh\<close>

definition on_state :: "(table tx \<Rightarrow> state_store_error + table tx) \<Rightarrow> state_db tx \<Rightarrow> state_store_error + state_db tx" where
  "on_state m tx =
     (case tx of (k, db) \<Rightarrow> map_ok (\<lambda>(k, t). (k, db\<lparr>db_state := t\<rparr>)) (m (k, db_state db)))"

definition apply_shard_refresh_tx ::
  "(str \<Rightarrow> u8 list) \<Rightarrow> (nat \<Rightarrow> bool) \<Rightarrow> changed_shard list \<Rightarrow> (lock_shard_id \<times> stat_proof option) list
     \<Rightarrow> removed_shard list \<Rightarrow> state_db tx \<Rightarrow> state_store_error + state_db tx" where
  "apply_shard_refresh_tx hash ok changed_or_new stat_only_updates removed_shards tx =
     and_then (for_each (\<lambda>removed. on_state (clear_shard_desired_tx ok (rs_shard_id removed))) removed_shards tx) (\<lambda>tx.
     and_then (for_each (\<lambda>shard. on_state (apply_shard_entries_tx ok (cs_shard_id shard) (cs_entries shard))) changed_or_new tx) (\<lambda>tx.
     apply_shard_catalog_tx hash ok (map meta_from changed_or_new) stat_only_updates removed_shards tx))"

definition apply_shard_refresh ::
  "(str \<Rightarrow> u8 list) \<Rightarrow> (nat \<Rightarrow> bool) \<Rightarrow> changed_shard list \<Rightarrow> (lock_shard_id \<times> stat_proof option) list
     \<Rightarrow> removed_shard list \<Rightarrow> state_db \<Rightarrow> state_db \<times> (state_store_error + unit)" where
  "apply_shard_refresh hash ok changed_or_new stat_only_updates removed_shards self =
     (if changed_or_new = [] \<and> stat_only_updates = [] \<and> removed_shards = [] then (self, Ok ())
      else in_transaction ok (apply_shard_refresh_tx hash ok changed_or_new stat_only_updates removed_shards) self)"

text \<open>A receipt of a full publication or observation: each shard with its identity, proof and rows.\<close>

record full_shard =
  fs_shard_id :: lock_shard_id
  fs_identity :: shard_content_identity
  fs_proof :: stat_proof
  fs_entries :: "entry list"

definition apply_full_lock_evidence_tx ::
  "(str \<Rightarrow> u8 list) \<Rightarrow> (nat \<Rightarrow> bool) \<Rightarrow> full_shard list \<Rightarrow> state_db tx \<Rightarrow> state_store_error + state_db tx" where
  "apply_full_lock_evidence_tx hash ok evidence tx =
     and_then (shard_identities_query ok None tx) (\<lambda>(prior_catalog, tx).
       let changed_or_new = map (\<lambda>shard.
             \<lparr>cs_shard_id = fs_shard_id shard, cs_prior_identity = map_option ss_identity (map_of prior_catalog (fs_shard_id shard)),
              cs_identity = fs_identity shard, cs_proof = Some (fs_proof shard), cs_entries = fs_entries shard\<rparr>) evidence;
           touched = cs_shard_id ` set changed_or_new;
           removed_shards = map (\<lambda>(i, stored). \<lparr>rs_shard_id = i, rs_prior_identity = ss_identity stored\<rparr>)
             (filter (\<lambda>(i, _). i \<notin> touched) prior_catalog)
       in apply_shard_refresh_tx hash ok changed_or_new [] removed_shards tx)"

definition apply_full_lock_evidence ::
  "(str \<Rightarrow> u8 list) \<Rightarrow> (nat \<Rightarrow> bool) \<Rightarrow> full_shard list \<Rightarrow> state_db \<Rightarrow> state_db \<times> (state_store_error + unit)" where
  "apply_full_lock_evidence hash ok evidence self = in_transaction ok (apply_full_lock_evidence_tx hash ok evidence) self"

section \<open>What the steps do to the table\<close>

interpretation des: table_half des_half mat_half "\<lambda>r. sr_desired_oid r \<noteq> None" "\<lambda>r. sr_materialized_oid r \<noteq> None"
  clear_desired
  by unfold_locales (auto simp: row_check_def row_ok_def clear_desired_def split: option.split)

lemma des_halves: "des.col = desired" "des.kept_col = materialized"
  by (simp_all add: fun_eq_iff des.col_def des.kept_col_def materialized_def desired_def)

text \<open>From state \<open>s\<close>, a piece of a transaction fails on a refused step or ends in a state with \<open>Q\<close>.\<close>

definition yields :: "(nat \<Rightarrow> bool) \<Rightarrow> ('s tx \<Rightarrow> state_store_error + 's tx) \<Rightarrow> 's \<Rightarrow> ('s \<Rightarrow> bool) \<Rightarrow> bool" where
  "yields ok m s Q \<longleftrightarrow> (\<forall>k. case m (k, s) of Inl _ \<Rightarrow> \<exists>j. \<not> ok j | Inr (_, s') \<Rightarrow> Q s')"

definition gives ::
  "(nat \<Rightarrow> bool) \<Rightarrow> ('s tx \<Rightarrow> state_store_error + ('a \<times> 's tx)) \<Rightarrow> 's \<Rightarrow> ('a \<Rightarrow> 's \<Rightarrow> bool) \<Rightarrow> bool" where
  "gives ok m s Q \<longleftrightarrow> (\<forall>k. case m (k, s) of Inl _ \<Rightarrow> \<exists>j. \<not> ok j | Inr (x, (_, s')) \<Rightarrow> Q x s')"

lemma yields_weaken: "yields ok m s Q \<Longrightarrow> (\<And>s'. Q s' \<Longrightarrow> R s') \<Longrightarrow> yields ok m s R"
  unfolding yields_def by (fastforce split: sum.splits)

lemma gives_weaken: "gives ok m s Q \<Longrightarrow> (\<And>x s'. Q x s' \<Longrightarrow> R x s') \<Longrightarrow> gives ok m s R"
  unfolding gives_def by (fastforce split: sum.splits)

lemma yields_then:
  assumes "yields ok m s Q" "\<And>s'. Q s' \<Longrightarrow> yields ok n s' R"
  shows "yields ok (\<lambda>tx. and_then (m tx) n) s R"
  unfolding yields_def
proof
  fix k
  show "case and_then (m (k, s)) n of Inl _ \<Rightarrow> \<exists>j. \<not> ok j | Inr (_, s') \<Rightarrow> R s'"
  proof (cases "m (k, s)")
    case (Inl e)
    then show ?thesis using assms(1) [unfolded yields_def, rule_format, of k] by (simp add: and_then_def)
  next
    case (Inr x)
    then obtain k' s' where x: "m (k, s) = Inr (k', s')" by (cases x) auto
    then have "Q s'" using assms(1) [unfolded yields_def, rule_format, of k] by simp
    then show ?thesis using assms(2) [unfolded yields_def, rule_format, of s' k'] x by (simp add: and_then_def)
  qed
qed

lemma gives_then:
  assumes "gives ok m s Q" "\<And>x s'. Q x s' \<Longrightarrow> yields ok (n x) s' R"
  shows "yields ok (\<lambda>tx. and_then (m tx) (\<lambda>(x, tx). n x tx)) s R"
  unfolding yields_def
proof
  fix k
  show "case and_then (m (k, s)) (\<lambda>(x, tx). n x tx) of Inl _ \<Rightarrow> \<exists>j. \<not> ok j | Inr (_, s') \<Rightarrow> R s'"
  proof (cases "m (k, s)")
    case (Inl e)
    then show ?thesis using assms(1) [unfolded gives_def, rule_format, of k] by (simp add: and_then_def)
  next
    case (Inr y)
    then obtain x k' s' where x: "m (k, s) = Inr (x, (k', s'))" by (cases y) auto
    then have "Q x s'" using assms(1) [unfolded gives_def, rule_format, of k] by simp
    then show ?thesis using assms(2) [unfolded yields_def, rule_format, of x s' k'] x by (simp add: and_then_def)
  qed
qed

lemma gives_query: "Q (q s) s \<Longrightarrow> gives ok (query ok q) s Q"
  by (auto simp: gives_def query_def)

lemma yields_execute: "Q (f s) \<Longrightarrow> yields ok (execute ok f) s Q"
  by (auto simp: yields_def execute_def)

lemma yields_Ok: "Q s \<Longrightarrow> yields ok Ok s Q"
  by (auto simp: yields_def)

lemma yields_for_each:
  assumes "I [] s" "\<And>ys x zs s. xs = ys @ x # zs \<Longrightarrow> I ys s \<Longrightarrow> yields ok (m x) s (I (ys @ [x]))"
  shows "yields ok (for_each m xs) s (I xs)"
  using assms
proof (induction xs arbitrary: I s)
  case Nil
  then show ?case by (simp add: yields_def)
next
  case (Cons x xs)
  have "yields ok (\<lambda>tx. and_then (m x tx) (for_each m xs)) s (I (x # xs))"
  proof (rule yields_then)
    show "yields ok (m x) s (I [x])" using Cons.prems(2) [of "[]" x xs s] Cons.prems(1) by simp
    show "yields ok (for_each m xs) s' (I (x # xs))" if "I [x] s'" for s'
      by (rule Cons.IH [of "\<lambda>ys. I (x # ys)"]) (use Cons.prems(2) [of "x # _"] that in auto)
  qed
  then show ?case by simp
qed

lemma effect_yields:
  "effect ok m df mf \<Longrightarrow> table_ok t \<Longrightarrow>
     yields ok m t (\<lambda>t'. table_ok t' \<and> desired t' = df (desired t) \<and> materialized t' = mf (materialized t))"
  unfolding effect_def yields_def by blast

lemma effectI:
  "(\<And>t. table_ok t \<Longrightarrow> yields ok m t (\<lambda>t'. table_ok t' \<and> desired t' = df (desired t) \<and> materialized t' = mf (materialized t)))
     \<Longrightarrow> effect ok m df mf"
  unfolding effect_def yields_def by blast

section \<open>The desired half\<close>

lemma effect_clear_desired_exact:
  "effect ok (clear_desired_exact_tx ok paths) (\<lambda>D p. if p \<in> set paths then None else D p) (\<lambda>M. M)"
proof -
  have one: "effect ok (\<lambda>tx. and_then (execute_count ok (sql_delete (\<lambda>p r. p = path \<and> sr_materialized_oid r = None)) tx)
      (\<lambda>(removed, tx). if removed = 0
         then execute ok (sql_update (\<lambda>p r. if p = path \<and> sr_desired_oid r \<noteq> None then Some (clear_desired r) else None)) tx
         else Ok tx)) (\<lambda>D p. if p = path then None else D p) (\<lambda>M. M)" for path
    by (rule effect_clear_one [where g = "des.cleared (\<lambda>p. p = path)"])
      (use des.cleared_table [unfolded des_halves] des.prune_or_clear in auto)
  have "effect ok (\<lambda>tx. and_then (prepare ok tx) (\<lambda>tx. and_then (prepare ok tx) (for_each (\<lambda>path tx.
      and_then (execute_count ok (sql_delete (\<lambda>p r. p = path \<and> sr_materialized_oid r = None)) tx)
      (\<lambda>(removed, tx). if removed = 0
         then execute ok (sql_update (\<lambda>p r. if p = path \<and> sr_desired_oid r \<noteq> None then Some (clear_desired r) else None)) tx
         else Ok tx)) paths)))
      (((\<lambda>D. foldl (\<lambda>D x p. if p = x then None else D p) D paths) \<circ> (\<lambda>M. M)) \<circ> (\<lambda>M. M))
      (((\<lambda>M. foldl (\<lambda>M x. M) M paths) \<circ> (\<lambda>D. D)) \<circ> (\<lambda>D. D))"
    by (rule effect_then [OF effect_prepare effect_then [OF effect_prepare effect_for_each]]) (rule one)
  then show ?thesis
    unfolding clear_desired_exact_tx_def clear_exact_paths_tx_def foldl_same foldl_clear comp_def by simp
qed

lemma upsert_desired_table:
  assumes "table_ok t"
  shows "table_ok (upsert_desired_row i t e)" "desired (upsert_desired_row i t e) = (desired t)(entry_path e \<mapsto> (entry_oid e, i))"
    "materialized (upsert_desired_row i t e) = materialized t"
  unfolding upsert_desired_row_def des_halves [symmetric]
  by (rule des.alter_table [OF assms]; auto simp: row_ok_def row_check_def)+

definition with_entries :: "lock_shard_id \<Rightarrow> entry list \<Rightarrow> (oid \<times> lock_shard_id) half_map \<Rightarrow> (oid \<times> lock_shard_id) half_map" where
  "with_entries i es D p = (case lock_map (rev es) p of Some oid \<Rightarrow> Some (oid, i) | None \<Rightarrow> D p)"

lemma with_entries_Nil [simp]: "with_entries i [] D = D"
  by (simp add: with_entries_def lock_map_def fun_eq_iff)

lemma with_entries_Cons: "with_entries i (e # es) D = with_entries i es (D(entry_path e \<mapsto> (entry_oid e, i)))"
  by (auto simp: with_entries_def lock_map_def fun_eq_iff map_add_def split: option.split)

lemma upsert_desired_list:
  "table_ok t \<Longrightarrow> table_ok (foldl (upsert_desired_row i) t es) \<and> desired (foldl (upsert_desired_row i) t es) = with_entries i es (desired t)
     \<and> materialized (foldl (upsert_desired_row i) t es) = materialized t"
  by (induction es arbitrary: t) (simp_all add: upsert_desired_table with_entries_Cons)

lemma foldl_with_entries: "foldl (\<lambda>D es. with_entries i es D) D xss = with_entries i (concat xss) D"
proof (induction xss arbitrary: D)
  case (Cons es xss)
  have "with_entries i ys (with_entries i xs D) = with_entries i (xs @ ys) D" for xs ys
    by (induction xs arbitrary: D) (simp_all add: with_entries_Cons)
  with Cons show ?case by simp
qed simp

lemma shared_chunk_pos [simp]: "0 < sql_chunk_size_with_shared_binds 2 (Suc 0)"
  by (simp add: sql_chunk_size_with_shared_binds_def SQL_BIND_BUDGET_def)

lemma shard_paths:
  assumes "table_ok t"
  shows "set (map fst (filter (\<lambda>(p, r). sr_desired_shard r = Some i) t)) = {p. \<exists>oid. desired t p = Some (oid, i)}"
proof -
  have bt: "bt_ok t" using assms by (simp add: table_ok_def)
  have "(\<exists>r. bt_get t p = Some r \<and> sr_desired_shard r = Some i) \<longleftrightarrow> (\<exists>oid. desired t p = Some (oid, i))" for p
    using table_ok_get [OF assms, of p]
    by (cases "bt_get t p") (auto simp: desired_def row_ok_def row_check_def split: option.splits)
  then show ?thesis using bt_get_Some [OF bt] by (force simp: image_iff)
qed

definition without_shard :: "lock_shard_id \<Rightarrow> (oid \<times> lock_shard_id) half_map \<Rightarrow> (oid \<times> lock_shard_id) half_map" where
  "without_shard i D p = (if \<exists>oid. D p = Some (oid, i) then None else D p)"

lemma effect_clear_shard:
  "effect ok (clear_shard_desired_tx ok i) (without_shard i) (\<lambda>M. M)"
proof (rule effectI)
  fix t assume t: "table_ok t"
  show "yields ok (clear_shard_desired_tx ok i) t
      (\<lambda>t'. table_ok t' \<and> desired t' = without_shard i (desired t) \<and> materialized t' = materialized t)"
    unfolding clear_shard_desired_tx_def desired_shard_paths_tx_def
  proof (rule gives_then [where Q = "\<lambda>paths s. s = t \<and> set paths = {p. \<exists>oid. desired t p = Some (oid, i)}"])
    show "gives ok (query ok (\<lambda>t. map fst (filter (\<lambda>(p, r). sr_desired_shard r = Some i) t))) t
        (\<lambda>paths s. s = t \<and> set paths = {p. \<exists>oid. desired t p = Some (oid, i)})"
      using shard_paths [OF t] by (intro gives_query) simp
    show "yields ok (clear_desired_exact_tx ok paths) s
        (\<lambda>t'. table_ok t' \<and> desired t' = without_shard i (desired t) \<and> materialized t' = materialized t)"
      if "s = t \<and> set paths = {p. \<exists>oid. desired t p = Some (oid, i)}" for paths s
      by (rule yields_weaken [OF effect_yields [OF effect_clear_desired_exact]])
        (use that t in \<open>auto simp: without_shard_def fun_eq_iff\<close>)
  qed
qed

lemma effect_upsert_desired:
  "effect ok (for_each (\<lambda>chunk. execute ok (\<lambda>t. foldl (upsert_desired_row i) t chunk))
      (chunks (sql_chunk_size_with_shared_binds 2 1) entries)) (with_entries i entries) (\<lambda>M. M)"
proof -
  let ?cs = "chunks (sql_chunk_size_with_shared_binds 2 1) entries"
  have "effect ok (for_each (\<lambda>chunk. execute ok (\<lambda>t. foldl (upsert_desired_row i) t chunk)) ?cs)
      (\<lambda>D. foldl (\<lambda>D es. with_entries i es D) D ?cs) (\<lambda>M. foldl (\<lambda>M es. M) M ?cs)"
    by (intro effect_for_each effect_execute upsert_desired_list)
  then show ?thesis by (simp add: foldl_same foldl_with_entries)
qed

lemma with_entries_stale:
  assumes "set stale = {p. (\<exists>oid. D p = Some (oid, i)) \<and> p \<notin> entry_path ` set es}"
  shows "with_entries i es (\<lambda>p. if p \<in> set stale then None else D p) = with_entries i es (without_shard i D)"
proof
  fix p
  have "lock_map (rev es) p = None \<longleftrightarrow> p \<notin> entry_path ` set es"
    by (auto simp: lock_map_def map_of_eq_None_iff image_image)
  then show "with_entries i es (\<lambda>p. if p \<in> set stale then None else D p) p = with_entries i es (without_shard i D) p"
    unfolding assms with_entries_def without_shard_def mem_Collect_eq by (cases "lock_map (rev es) p"; simp only: option.case simp_thms if_cancel)
qed

lemma effect_apply_shard_entries:
  "effect ok (apply_shard_entries_tx ok i es) (\<lambda>D. with_entries i es (without_shard i D)) (\<lambda>M. M)"
proof (rule effectI)
  fix t assume t: "table_ok t"
  let ?R = "\<lambda>t'. table_ok t' \<and> desired t' = with_entries i es (without_shard i (desired t)) \<and> materialized t' = materialized t"
  show "yields ok (apply_shard_entries_tx ok i es) t ?R"
    unfolding apply_shard_entries_tx_def desired_shard_paths_tx_def
  proof (rule gives_then [where Q = "\<lambda>paths s. s = t \<and> set paths = {p. \<exists>oid. desired t p = Some (oid, i)}"])
    show "gives ok (query ok (\<lambda>t. map fst (filter (\<lambda>(p, r). sr_desired_shard r = Some i) t))) t
        (\<lambda>paths s. s = t \<and> set paths = {p. \<exists>oid. desired t p = Some (oid, i)})"
      using shard_paths [OF t] by (intro gives_query) simp
    fix paths s
    assume s: "s = t \<and> set paths = {p. \<exists>oid. desired t p = Some (oid, i)}"
    let ?stale = "filter (\<lambda>path. path \<notin> entry_path ` set es) paths"
    let ?Q = "\<lambda>t'. table_ok t' \<and> desired t' = (\<lambda>p. if p \<in> set ?stale then None else desired t p) \<and> materialized t' = materialized t"
    have st: "set ?stale = {p. (\<exists>oid. desired t p = Some (oid, i)) \<and> p \<notin> entry_path ` set es}" using s by auto
    show "yields ok (\<lambda>tx. and_then
         (if paths \<noteq> [] then let stale = ?stale in if stale \<noteq> [] then clear_desired_exact_tx ok stale tx else Ok tx else Ok tx)
         (for_each (\<lambda>chunk. execute ok (\<lambda>t. foldl (upsert_desired_row i) t chunk))
           (chunks (sql_chunk_size_with_shared_binds 2 1) es))) s ?R"
    proof (rule yields_then [where Q = ?Q])
      show "yields ok (\<lambda>tx. if paths \<noteq> [] then let stale = ?stale in if stale \<noteq> [] then clear_desired_exact_tx ok stale tx else Ok tx else Ok tx) s ?Q"
      proof (cases "?stale = []")
        case True
        then show ?thesis using s t by (auto simp: yields_def Let_def)
      next
        case False
        then have "paths \<noteq> []" by auto
        then show ?thesis
          using effect_yields [OF effect_clear_desired_exact [of ok ?stale] t] False s by (simp add: Let_def)
      qed
      show "yields ok (for_each (\<lambda>chunk. execute ok (\<lambda>t. foldl (upsert_desired_row i) t chunk))
           (chunks (sql_chunk_size_with_shared_binds 2 1) es)) s' ?R" if "?Q s'" for s'
        by (rule yields_weaken [OF effect_yields [OF effect_upsert_desired]])
          (use that with_entries_stale [OF st] in auto)
    qed
  qed
qed

section \<open>The catalog and its identity\<close>

definition shard_pairs :: "(lock_shard_id \<times> shard_row) list \<Rightarrow> (lock_shard_id \<times> shard_content_identity) list" where
  "shard_pairs xs = map (\<lambda>(i, r). (i, ContentIdentity (shr_identity r))) xs"

definition catalog_identity :: "(str \<Rightarrow> u8 list) \<Rightarrow> (lock_shard_id \<times> shard_row) list \<Rightarrow> canonical_desired_identity" where
  "catalog_identity hash xs = desired.total (map (shard_part hash) (shard_pairs xs))"

definition catalog_ok :: "(lock_shard_id \<times> shard_row) list \<Rightarrow> bool" where
  "catalog_ok xs \<longleftrightarrow> distinct (map fst xs) \<and> (\<forall>(i, r) \<in> set xs. wf_shard i \<and> length (shr_identity r) = 32)"

definition hash32 :: "(str \<Rightarrow> u8 list) \<Rightarrow> bool" where
  "hash32 hash \<longleftrightarrow> (\<forall>s. length (hash s) = 32)"

lemma hash32_part [simp]: "hash32 hash \<Longrightarrow> wf_desired (shard_part hash s)" "hash32 hash \<Longrightarrow> list_all wf_desired (map (shard_part hash) ss)"
  by (simp_all add: hash32_def shard_part_wf shard_parts_wf)

lemma catalog_identity_wf [simp]: "hash32 hash \<Longrightarrow> wf_desired (catalog_identity hash xs)"
  by (simp add: catalog_identity_def)

lemma catalog_identity_mset:
  assumes "hash32 hash" "mset xs = mset ys"
  shows "catalog_identity hash xs = catalog_identity hash ys"
  unfolding catalog_identity_def shard_pairs_def
proof (rule desired.total_mset)
  show "list_all wf_desired (map (shard_part hash) (map (\<lambda>(i, r). (i, ContentIdentity (shr_identity r))) xs))"
    by (rule hash32_part(2) [OF assms(1)])
qed (simp only: mset_map assms(2))

lemma catalog_identity_Cons:
  "catalog_identity hash ((i, r) # xs) = desired_xor (shard_part hash (i, ContentIdentity (shr_identity r))) (catalog_identity hash xs)"
  by (simp add: catalog_identity_def shard_pairs_def)

lemma shard_delete_absent: "i \<notin> fst ` set xs \<Longrightarrow> shard_delete i xs = xs"
  by (force simp: shard_delete_def intro!: filter_True)

lemma mset_shard_delete:
  assumes "distinct (map fst xs)" "(i, r) \<in> set xs"
  shows "mset xs = mset ((i, r) # shard_delete i xs)"
  using assms
proof (induction xs)
  case (Cons x xs)
  show ?case
  proof (cases "x = (i, r)")
    case True
    then have "shard_delete i xs = xs" using Cons.prems(1) by (intro shard_delete_absent) auto
    then show ?thesis using True by (simp add: shard_delete_def)
  next
    case False
    then have mem: "(i, r) \<in> set xs" using Cons.prems by simp
    then have "i \<in> fst ` set xs" by force
    then have "fst x \<noteq> i" using Cons.prems(1) by auto
    then show ?thesis using mem Cons.IH Cons.prems(1) by (cases x) (simp add: shard_delete_def)
  qed
qed simp

lemma mset_shard_upsert:
  assumes "distinct (map fst xs)"
  shows "mset (shard_upsert i row xs) = mset ((i, row) # shard_delete i xs)"
proof (cases "i \<in> fst ` set xs")
  case True
  have "mset (map (\<lambda>(j, r). (j, if j = i then row else r)) xs) = mset ((i, row) # shard_delete i xs)"
    using assms True
  proof (induction xs)
    case (Cons x xs)
    obtain j r where x: "x = (j, r)" by (cases x)
    show ?case
    proof (cases "j = i")
      case True
      then have n: "i \<notin> fst ` set xs" using Cons.prems(1) x by auto
      then have "map (\<lambda>(j, r). (j, if j = i then row else r)) xs = xs" by (force intro: map_idI)
      then show ?thesis using True x shard_delete_absent [OF n] by (simp add: shard_delete_def)
    next
      case False
      then show ?thesis using Cons x by (auto simp: shard_delete_def)
    qed
  qed simp
  then show ?thesis using True by (simp add: shard_upsert_def)
next
  case False
  then show ?thesis by (simp add: shard_upsert_def shard_delete_absent)
qed

lemma toggled_wf: "wf_shard i \<Longrightarrow> toggled hash d i c = desired_xor d (shard_part hash (i, c))"
  by (simp add: toggled_def toggle_wf)

lemma xor_twice: "wf_desired a \<Longrightarrow> wf_desired b \<Longrightarrow> desired_xor (desired_xor a b) a = b"
  using desired.commute [of "desired_xor a b" a] desired.assoc [of a a b] by simp

lemma toggle_out:
  assumes "hash32 hash" "catalog_ok xs" "(i, r) \<in> set xs"
  shows "toggled hash (catalog_identity hash xs) i (ContentIdentity (shr_identity r)) = catalog_identity hash (shard_delete i xs)"
proof -
  have "wf_shard i" "distinct (map fst xs)" using assms(2,3) by (auto simp: catalog_ok_def)
  then show ?thesis
    unfolding toggled_wf [OF \<open>wf_shard i\<close>] catalog_identity_mset [OF assms(1) mset_shard_delete [OF \<open>distinct (map fst xs)\<close> assms(3)]]
      catalog_identity_Cons
    using assms(1) by (intro xor_twice) simp_all
qed

lemma toggle_in:
  assumes "hash32 hash" "catalog_ok xs" "wf_shard i"
  shows "toggled hash (catalog_identity hash (shard_delete i xs)) i (ContentIdentity (shr_identity row))
    = catalog_identity hash (shard_upsert i row xs)"
proof -
  have "distinct (map fst xs)" using assms(2) by (simp add: catalog_ok_def)
  then show ?thesis
    unfolding toggled_wf [OF assms(3)] catalog_identity_mset [OF assms(1) mset_shard_upsert [OF \<open>distinct (map fst xs)\<close>]]
      catalog_identity_Cons
    using assms(1) by (intro desired.commute) simp_all
qed

lemma shard_delete_catalog_ok: "catalog_ok xs \<Longrightarrow> catalog_ok (shard_delete i xs)"
  by (auto simp: catalog_ok_def shard_delete_def distinct_map_filter)

lemma shard_upsert_catalog_ok:
  assumes "catalog_ok xs" "wf_shard i" "length (shr_identity row) = 32"
  shows "catalog_ok (shard_upsert i row xs)"
proof -
  have f: "map fst (map (\<lambda>(j, r). (j, if j = i then row else r)) xs) = map fst xs" by (induction xs) auto
  have d: "distinct (map fst xs)" using assms(1) by (simp add: catalog_ok_def)
  have "distinct (map fst (shard_upsert i row xs))"
  proof (cases "i \<in> fst ` set xs")
    case True
    then show ?thesis using d by (simp only: shard_upsert_def if_True f)
  next
    case False
    then show ?thesis using d by (simp add: shard_upsert_def)
  qed
  moreover have "wf_shard j \<and> length (shr_identity r) = 32" if "(j, r) \<in> set (shard_upsert i row xs)" for j r
  proof (cases "(j, r) \<in> set xs")
    case True
    then show ?thesis using assms(1) by (auto simp: catalog_ok_def)
  next
    case False
    then have "j = i" "r = row" using that by (auto simp: shard_upsert_def split: if_splits)
    then show ?thesis using assms(2,3) by simp
  qed
  ultimately show ?thesis unfolding catalog_ok_def by blast
qed

lemma shard_delete_get: "map_of (shard_delete i xs) j = (if j = i then None else map_of xs j)"
  by (cases "j = i"; induction xs) (simp_all add: shard_delete_def case_prod_unfold)

lemma shard_upsert_get: "map_of (shard_upsert i row xs) = (map_of xs)(i \<mapsto> row)"
proof (cases "i \<in> fst ` set xs")
  case True
  have "map_of (map (\<lambda>(j, r). (j, if j = i then row else r)) xs) j = (if j = i \<and> i \<in> fst ` set xs then Some row else map_of xs j)" for j
    by (cases "j = i"; induction xs) (simp_all add: case_prod_unfold)
  then show ?thesis using True by (simp add: shard_upsert_def fun_eq_iff)
next
  case False
  then have "map_of xs i = None" by (simp add: map_of_eq_None_iff)
  then show ?thesis using False by (simp add: shard_upsert_def fun_eq_iff map_add_def split: option.split)
qed

lemma shard_set_proof_pairs: "shard_pairs (shard_set_proof i pf xs) = shard_pairs xs" "map fst (shard_set_proof i pf xs) = map fst xs"
  by (induction xs) (auto simp: shard_set_proof_def shard_pairs_def)

lemma shard_set_proof_catalog_ok: "catalog_ok xs \<Longrightarrow> catalog_ok (shard_set_proof i pf xs)"
  using shard_set_proof_pairs(2) [of i pf xs] by (auto simp: catalog_ok_def) (auto simp: shard_set_proof_def)

lemma shard_set_proof_identity: "catalog_identity hash (shard_set_proof i pf xs) = catalog_identity hash xs"
  by (simp add: catalog_identity_def shard_set_proof_pairs)

text \<open>The database as a whole: the stored identity is the one of the stored catalog, which knows the shard of every row.\<close>

definition db_ok :: "(str \<Rightarrow> u8 list) \<Rightarrow> state_db \<Rightarrow> bool" where
  "db_ok hash db \<longleftrightarrow> table_ok (db_state db) \<and> catalog_ok (db_shards db)
     \<and> (\<forall>p oid i. desired (db_state db) p = Some (oid, i) \<longrightarrow> i \<in> fst ` set (db_shards db))
     \<and> DesiredIdentity (db_fingerprint db) = catalog_identity hash (db_shards db)"

definition stored_identity :: "state_db \<Rightarrow> lock_shard_id \<Rightarrow> shard_content_identity option" where
  "stored_identity db i = map_option (\<lambda>r. ContentIdentity (shr_identity r)) (map_of (db_shards db) i)"

text \<open>The changes name every shard at most once and know its prior identity.\<close>

definition changes_ok :: "state_db \<Rightarrow> changed_shard_meta list \<Rightarrow> removed_shard list \<Rightarrow> bool" where
  "changes_ok db changed removed \<longleftrightarrow>
     distinct (map rs_shard_id removed @ map cm_shard_id changed)
     \<and> (\<forall>r \<in> set removed. stored_identity db (rs_shard_id r) = Some (rs_prior_identity r))
     \<and> (\<forall>c \<in> set changed. stored_identity db (cm_shard_id c) = cm_prior_identity c
          \<and> wf_shard (cm_shard_id c) \<and> length (content_bytes (cm_identity c)) = 32)"

definition shard_row_of :: "changed_shard_meta \<Rightarrow> shard_row" where
  "shard_row_of c = \<lparr>shr_identity = content_bytes (cm_identity c), shr_proof = map_option encode_stat_proof (cm_proof c)\<rparr>"

lemma shard_row_of_identity [simp]: "ContentIdentity (shr_identity (shard_row_of c)) = cm_identity c" "shr_identity (shard_row_of c) = content_bytes (cm_identity c)"
  by (simp_all add: shard_row_of_def)

definition catalog_after :: "changed_shard_meta list \<Rightarrow> removed_shard list \<Rightarrow> (lock_shard_id \<times> shard_row) list \<Rightarrow> (lock_shard_id \<times> shard_row) list" where
  "catalog_after changed removed xs =
     foldl (\<lambda>xs c. shard_upsert (cm_shard_id c) (shard_row_of c) xs) (foldl (\<lambda>xs r. shard_delete (rs_shard_id r) xs) xs removed) changed"

lemma gives_remove_shards:
  assumes "hash32 hash" "catalog_ok (db_shards db)" "distinct (map rs_shard_id removed)"
    and "\<forall>r \<in> set removed. stored_identity db (rs_shard_id r) = Some (rs_prior_identity r)"
    and "\<And>acc. identity = Some acc \<Longrightarrow> acc = catalog_identity hash (db_shards db)"
  shows "gives ok (remove_shards hash ok removed identity) db (\<lambda>identity' db'.
     db' = db\<lparr>db_shards := foldl (\<lambda>xs r. shard_delete (rs_shard_id r) xs) (db_shards db) removed\<rparr>
     \<and> catalog_ok (db_shards db') \<and> identity' = map_option (\<lambda>_. catalog_identity hash (db_shards db')) identity)"
  using assms(2-5)
proof (induction removed arbitrary: db identity)
  case Nil
  then show ?case by (cases identity) (auto simp: gives_def)
next
  case (Cons r removed)
  let ?i = "rs_shard_id r"
  let ?db = "db\<lparr>db_shards := shard_delete ?i (db_shards db)\<rparr>"
  let ?id = "map_option (\<lambda>acc. toggled hash acc ?i (rs_prior_identity r)) identity"
  obtain row where row: "(?i, row) \<in> set (db_shards db)" "rs_prior_identity r = ContentIdentity (shr_identity row)"
    using Cons.prems(3) by (auto simp: stored_identity_def dest: map_of_SomeD)
  have acc: "?id = Some acc \<Longrightarrow> acc = catalog_identity hash (db_shards ?db)" for acc
    using Cons.prems(4) toggle_out [OF assms(1) Cons.prems(1) row(1)] row(2) by (cases identity) auto
  have IH: "gives ok (remove_shards hash ok removed ?id) ?db (\<lambda>identity' db'.
     db' = ?db\<lparr>db_shards := foldl (\<lambda>xs r. shard_delete (rs_shard_id r) xs) (db_shards ?db) removed\<rparr>
     \<and> catalog_ok (db_shards db') \<and> identity' = map_option (\<lambda>_. catalog_identity hash (db_shards db')) ?id)"
  proof (rule Cons.IH)
    have "rs_shard_id r' \<noteq> ?i" if "r' \<in> set removed" for r'
      using Cons.prems(2) that by (force simp: image_iff)
    then show "\<forall>r' \<in> set removed. stored_identity ?db (rs_shard_id r') = Some (rs_prior_identity r')"
      using Cons.prems(3) by (simp add: stored_identity_def shard_delete_get)
  qed (use Cons.prems acc shard_delete_catalog_ok in auto)
  show ?case
    using IH by (auto simp: gives_def and_then_def execute_def option.map_comp comp_def)
qed

lemma gives_upsert_shards:
  assumes "hash32 hash" "catalog_ok (db_shards db)" "distinct (map cm_shard_id changed)"
    and "\<forall>c \<in> set changed. stored_identity db (cm_shard_id c) = cm_prior_identity c
       \<and> wf_shard (cm_shard_id c) \<and> length (content_bytes (cm_identity c)) = 32"
    and "\<And>acc. identity = Some acc \<Longrightarrow> acc = catalog_identity hash (db_shards db)"
  shows "gives ok (upsert_shards hash ok changed identity) db (\<lambda>identity' db'.
     db' = db\<lparr>db_shards := foldl (\<lambda>xs c. shard_upsert (cm_shard_id c) (shard_row_of c) xs) (db_shards db) changed\<rparr>
     \<and> catalog_ok (db_shards db') \<and> identity' = map_option (\<lambda>_. catalog_identity hash (db_shards db')) identity)"
  using assms(2-5)
proof (induction changed arbitrary: db identity)
  case Nil
  then show ?case by (cases identity) (auto simp: gives_def)
next
  case (Cons c changed)
  let ?i = "cm_shard_id c"
  let ?db = "db\<lparr>db_shards := shard_upsert ?i (shard_row_of c) (db_shards db)\<rparr>"
  let ?id = "map_option (\<lambda>acc.
             let acc = (case cm_prior_identity c of Some prior \<Rightarrow> toggled hash acc ?i prior | None \<Rightarrow> acc)
             in toggled hash acc ?i (cm_identity c)) identity"
  have wf: "wf_shard ?i" "length (content_bytes (cm_identity c)) = 32" using Cons.prems(3) by simp_all
  have out: "(case cm_prior_identity c of Some prior \<Rightarrow> toggled hash (catalog_identity hash (db_shards db)) ?i prior
       | None \<Rightarrow> catalog_identity hash (db_shards db)) = catalog_identity hash (shard_delete ?i (db_shards db))"
  proof (cases "map_of (db_shards db) ?i")
    case None
    then have "cm_prior_identity c = None" using Cons.prems(3) by (simp add: stored_identity_def)
    moreover have "shard_delete ?i (db_shards db) = db_shards db"
      using None by (intro shard_delete_absent) (simp add: map_of_eq_None_iff)
    ultimately show ?thesis by simp
  next
    case (Some row)
    then have "cm_prior_identity c = Some (ContentIdentity (shr_identity row))" using Cons.prems(3) by (simp add: stored_identity_def)
    then show ?thesis using toggle_out [OF assms(1) Cons.prems(1) map_of_SomeD [OF Some]] by simp
  qed
  have acc: "?id = Some acc \<Longrightarrow> acc = catalog_identity hash (db_shards ?db)" for acc
    using Cons.prems(4) out toggle_in [OF assms(1) Cons.prems(1) wf(1), of "shard_row_of c"] by (cases identity) auto
  have IH: "gives ok (upsert_shards hash ok changed ?id) ?db (\<lambda>identity' db'.
     db' = ?db\<lparr>db_shards := foldl (\<lambda>xs c. shard_upsert (cm_shard_id c) (shard_row_of c) xs) (db_shards ?db) changed\<rparr>
     \<and> catalog_ok (db_shards db') \<and> identity' = map_option (\<lambda>_. catalog_identity hash (db_shards db')) ?id)"
  proof (rule Cons.IH)
    show "catalog_ok (db_shards ?db)" using shard_upsert_catalog_ok [OF Cons.prems(1) wf(1)] wf(2) by simp
    show "\<forall>c' \<in> set changed. stored_identity ?db (cm_shard_id c') = cm_prior_identity c'
       \<and> wf_shard (cm_shard_id c') \<and> length (content_bytes (cm_identity c')) = 32"
    proof
      fix c' assume c': "c' \<in> set changed"
      then have "cm_shard_id c' \<noteq> ?i" using Cons.prems(2) by (auto simp: image_iff)
      then show "stored_identity ?db (cm_shard_id c') = cm_prior_identity c'
       \<and> wf_shard (cm_shard_id c') \<and> length (content_bytes (cm_identity c')) = 32"
        using Cons.prems(3) c' by (simp add: stored_identity_def shard_upsert_get)
    qed
  qed (use Cons.prems(2) acc in auto)
  show ?case
    using IH by (auto simp: gives_def and_then_def execute_def upsert_shard_identity_tx_def option.map_comp comp_def shard_row_of_def)
qed

definition catalog_to :: "(lock_shard_id \<times> stat_proof option) list \<Rightarrow> (lock_shard_id \<times> shard_row) list \<Rightarrow> (lock_shard_id \<times> shard_row) list" where
  "catalog_to proofs xs = foldl (\<lambda>xs (i, pf). shard_set_proof i (map_option encode_stat_proof pf) xs) xs proofs"

lemma catalog_to_kept:
  "shard_pairs (catalog_to proofs xs) = shard_pairs xs" "catalog_ok (catalog_to proofs xs) = catalog_ok xs"
proof -
  have ok: "catalog_ok (shard_set_proof i pf xs) = catalog_ok xs" for i pf xs
  proof -
    have "catalog_ok ys \<longleftrightarrow> distinct (map fst ys) \<and> (\<forall>(i, c) \<in> set (shard_pairs ys). wf_shard i \<and> length (content_bytes c) = 32)" for ys
      by (auto simp: catalog_ok_def shard_pairs_def)
    then show ?thesis by (simp only: shard_set_proof_pairs)
  qed
  show "shard_pairs (catalog_to proofs xs) = shard_pairs xs" "catalog_ok (catalog_to proofs xs) = catalog_ok xs"
    unfolding catalog_to_def by (induction proofs arbitrary: xs) (auto simp: shard_set_proof_pairs ok)
qed

lemma yields_set_proofs:
  "yields ok (for_each (\<lambda>(i, pf). execute ok (\<lambda>db. db\<lparr>db_shards := shard_set_proof i (map_option encode_stat_proof pf) (db_shards db)\<rparr>)) proofs) db
     (\<lambda>db'. db' = db\<lparr>db_shards := catalog_to proofs (db_shards db)\<rparr>)"
  by (rule yields_for_each [where I = "\<lambda>ys db'. db' = db\<lparr>db_shards := catalog_to ys (db_shards db)\<rparr>"])
    (auto simp: catalog_to_def intro!: yields_execute)

lemma catalog_pairs_identity: "shard_pairs xs = shard_pairs ys \<Longrightarrow> catalog_identity hash xs = catalog_identity hash ys"
  by (simp add: catalog_identity_def)

text \<open>The catalog after a refresh: the removed shards left out, the changed ones put in, then the proofs.\<close>

definition catalog_moved :: "(str \<Rightarrow> u8 list) \<Rightarrow> (lock_shard_id \<times> shard_row) list \<Rightarrow> state_db \<Rightarrow> state_db \<Rightarrow> bool" where
  "catalog_moved hash xs db db' \<longleftrightarrow> db_state db' = db_state db \<and> db_shards db' = xs \<and> catalog_ok xs
     \<and> DesiredIdentity (db_fingerprint db') = catalog_identity hash xs"

lemma yields_apply_shard_catalog:
  assumes h: "hash32 hash" and cat: "catalog_ok (db_shards db)" "DesiredIdentity (db_fingerprint db) = catalog_identity hash (db_shards db)"
    and ch: "changes_ok db changed removed"
  shows "yields ok (apply_shard_catalog_tx hash ok changed proofs removed) db
    (catalog_moved hash (catalog_to proofs (catalog_after changed removed (db_shards db))) db)"
proof -
  let ?touches = "changed \<noteq> [] \<or> removed \<noteq> []"
  let ?id = "\<lambda>xs. if ?touches then Some (catalog_identity hash xs) else None"
  let ?xs1 = "foldl (\<lambda>xs r. shard_delete (rs_shard_id r) xs) (db_shards db) removed"
  let ?xs2 = "catalog_after changed removed (db_shards db)"
  let ?xs3 = "catalog_to proofs ?xs2"
  have len: "length (db_fingerprint db) = 32"
    using catalog_identity_wf [OF h, of "db_shards db"] cat(2) [symmetric] by (simp add: wf_desired_def)
  have dist: "distinct (map rs_shard_id removed)" "distinct (map cm_shard_id changed)"
    and apart: "rs_shard_id ` set removed \<inter> cm_shard_id ` set changed = {}"
    using ch by (auto simp: changes_ok_def)
  have same: "map_of (foldl (\<lambda>xs r. shard_delete (rs_shard_id r) xs) xs rs) i = map_of xs i"
    if "i \<notin> rs_shard_id ` set rs" for i rs xs
    using that by (induction rs arbitrary: xs) (auto simp: shard_delete_get)
  have step1: "gives ok (\<lambda>tx. if ?touches then map_ok (\<lambda>(d, tx). (Some d, tx)) (read_desired_identity_tx ok tx) else Ok (None, tx)) db
      (\<lambda>identity db'. identity = ?id (db_shards db) \<and> db' = db)"
    using len cat(2) by (auto simp: gives_def read_desired_identity_tx_def query_def and_then_def map_ok_def)
  have step2: "gives ok (remove_shards hash ok removed (?id (db_shards db))) db
      (\<lambda>identity db'. identity = ?id ?xs1 \<and> db' = db\<lparr>db_shards := ?xs1\<rparr> \<and> catalog_ok ?xs1)"
  proof (rule gives_weaken [OF gives_remove_shards [OF h cat(1) dist(1)]])
    show "\<forall>r \<in> set removed. stored_identity db (rs_shard_id r) = Some (rs_prior_identity r)"
      using ch by (simp add: changes_ok_def)
  qed (auto split: if_splits)
  have step3: "gives ok (upsert_shards hash ok changed (?id ?xs1)) (db\<lparr>db_shards := ?xs1\<rparr>)
      (\<lambda>identity db'. identity = ?id ?xs2 \<and> db' = db\<lparr>db_shards := ?xs2\<rparr> \<and> catalog_ok ?xs2)" if one: "catalog_ok ?xs1"
  proof (rule gives_weaken [OF gives_upsert_shards [OF h _ dist(2)]])
    show "\<forall>c \<in> set changed. stored_identity (db\<lparr>db_shards := ?xs1\<rparr>) (cm_shard_id c) = cm_prior_identity c
       \<and> wf_shard (cm_shard_id c) \<and> length (content_bytes (cm_identity c)) = 32"
    proof
      fix c assume c: "c \<in> set changed"
      then have "cm_shard_id c \<notin> rs_shard_id ` set removed" using apart by blast
      then show "stored_identity (db\<lparr>db_shards := ?xs1\<rparr>) (cm_shard_id c) = cm_prior_identity c
       \<and> wf_shard (cm_shard_id c) \<and> length (content_bytes (cm_identity c)) = 32"
        using ch c same [of "cm_shard_id c" removed "db_shards db"] unfolding changes_ok_def stored_identity_def by simp
    qed
    show "catalog_ok (db_shards (db\<lparr>db_shards := ?xs1\<rparr>))" using one by simp
  qed (auto simp: catalog_after_def split: if_splits)
  have step5: "yields ok (\<lambda>tx. case ?id ?xs2 of None \<Rightarrow> Ok tx | Some identity \<Rightarrow> write_desired_identity_tx ok identity tx)
      (db\<lparr>db_shards := ?xs3\<rparr>) (catalog_moved hash ?xs3 db)" if "catalog_ok ?xs2"
    using that cat(2) catalog_pairs_identity [OF catalog_to_kept(1) [of proofs ?xs2], of hash]
    by (auto simp: yields_def write_desired_identity_tx_def execute_def catalog_moved_def catalog_to_kept catalog_after_def)
  let ?last = "\<lambda>identity tx. case identity of None \<Rightarrow> Ok tx | Some identity \<Rightarrow> write_desired_identity_tx ok identity tx"
  let ?tail = "\<lambda>identity tx. and_then (for_each (\<lambda>(i, pf). execute ok (\<lambda>db. db\<lparr>db_shards :=
      shard_set_proof i (map_option encode_stat_proof pf) (db_shards db)\<rparr>)) proofs tx) (?last identity)"
  let ?mid = "\<lambda>identity tx. and_then (upsert_shards hash ok changed identity tx) (\<lambda>(identity, tx). ?tail identity tx)"
  let ?Q = "catalog_moved hash ?xs3 db"
  have tail: "yields ok (?tail (?id ?xs2)) (db\<lparr>db_shards := ?xs2\<rparr>) ?Q" if "catalog_ok ?xs2"
    by (rule yields_then [OF yields_set_proofs]) (use step5 [OF that] in simp)
  have mid: "yields ok (?mid (?id ?xs1)) (db\<lparr>db_shards := ?xs1\<rparr>) ?Q" if one: "catalog_ok ?xs1"
    by (rule gives_then [OF step3 [OF one]]) (use tail in simp)
  have "yields ok (\<lambda>tx. and_then (remove_shards hash ok removed (?id (db_shards db)) tx) (\<lambda>(identity, tx). ?mid identity tx)) db ?Q"
    by (rule gives_then [OF step2]) (use mid in simp)
  then have "yields ok (\<lambda>tx. and_then (remove_shards hash ok removed identity tx) (\<lambda>(identity, tx). ?mid identity tx)) db' ?Q"
    if "identity = ?id (db_shards db) \<and> db' = db" for identity db' using that by simp
  then show ?thesis
    unfolding apply_shard_catalog_tx_def Let_def by (rule gives_then [OF step1])
qed

section \<open>The rows of each shard\<close>

definition shard_rows :: "(oid \<times> lock_shard_id) half_map \<Rightarrow> lock_shard_id \<Rightarrow> gat_path \<Rightarrow> oid option" where
  "shard_rows D i p = (case D p of Some (oid, j) \<Rightarrow> if j = i then Some oid else None | None \<Rightarrow> None)"

definition rows_after ::
  "changed_shard list \<Rightarrow> removed_shard list \<Rightarrow> (lock_shard_id \<Rightarrow> gat_path \<Rightarrow> oid option) \<Rightarrow> lock_shard_id \<Rightarrow> gat_path \<Rightarrow> oid option" where
  "rows_after changed removed S i =
     (case find (\<lambda>s. cs_shard_id s = i) changed of
        Some s \<Rightarrow> lock_map (rev (cs_entries s))
      | None \<Rightarrow> if i \<in> rs_shard_id ` set removed then Map.empty else S i)"

definition identities_after ::
  "changed_shard list \<Rightarrow> removed_shard list \<Rightarrow> (lock_shard_id \<Rightarrow> shard_content_identity option) \<Rightarrow> lock_shard_id \<Rightarrow> shard_content_identity option" where
  "identities_after changed removed C i =
     (case find (\<lambda>s. cs_shard_id s = i) changed of
        Some s \<Rightarrow> Some (cs_identity s)
      | None \<Rightarrow> if i \<in> rs_shard_id ` set removed then None else C i)"

text \<open>Every row that stays and every row that comes in lies in the shard \<open>home\<close> gives its path.\<close>

definition placed :: "(gat_path \<Rightarrow> lock_shard_id) \<Rightarrow> changed_shard list \<Rightarrow> removed_shard list \<Rightarrow> (oid \<times> lock_shard_id) half_map \<Rightarrow> bool" where
  "placed home changed removed D \<longleftrightarrow>
     (\<forall>s \<in> set changed. \<forall>e \<in> set (cs_entries s). home (entry_path e) = cs_shard_id s)
     \<and> (\<forall>p oid i. D p = Some (oid, i) \<longrightarrow> i \<notin> cs_shard_id ` set changed \<union> rs_shard_id ` set removed \<longrightarrow> home p = i)"

lemma with_entries_Some:
  "with_entries i es D p = Some (oid, j) \<longleftrightarrow> (if p \<in> entry_path ` set es then j = i \<and> lock_map (rev es) p = Some oid else D p = Some (oid, j))"
proof -
  have "lock_map (rev es) p = None \<longleftrightarrow> p \<notin> entry_path ` set es"
    by (auto simp: lock_map_def map_of_eq_None_iff image_image)
  then show ?thesis
    unfolding with_entries_def by (cases "lock_map (rev es) p"; cases "p \<in> entry_path ` set es") (simp_all del: lock_map_None, auto)
qed

lemma shard_rows_Some: "shard_rows D i p = Some oid \<longleftrightarrow> D p = Some (oid, i)"
  by (auto simp: shard_rows_def split: option.splits if_splits)

lemma shard_rows_eqI: "(\<And>p oid. D p = Some (oid, i) \<longleftrightarrow> M p = Some oid) \<Longrightarrow> shard_rows D i = M"
  by (rule ext) (metis shard_rows_Some option.exhaust)

lemma without_shard_Some: "without_shard i D p = Some (oid, j) \<longleftrightarrow> D p = Some (oid, j) \<and> j \<noteq> i"
  by (auto simp: without_shard_def)

lemma removed_rows:
  "foldl (\<lambda>D r. without_shard (rs_shard_id r) D) D removed p = Some (oid, j) \<longleftrightarrow> D p = Some (oid, j) \<and> j \<notin> rs_shard_id ` set removed"
  by (induction removed arbitrary: D) (auto simp: without_shard_Some)

lemma changed_rows:
  assumes "distinct (map cs_shard_id changed)" "placed home changed [] D"
  shows "shard_rows (foldl (\<lambda>D s. with_entries (cs_shard_id s) (cs_entries s) (without_shard (cs_shard_id s) D)) D changed) i
    = rows_after changed [] (shard_rows D) i"
  using assms
proof (induction changed arbitrary: D)
  case Nil
  then show ?case by (simp add: rows_after_def)
next
  case (Cons s changed)
  let ?D = "with_entries (cs_shard_id s) (cs_entries s) (without_shard (cs_shard_id s) D)"
  have away: "p \<notin> entry_path ` set (cs_entries s)" if "D p = Some (oid, j)" "j \<notin> cs_shard_id ` set (s # changed)" for p oid j
    using Cons.prems(2) that by (fastforce simp: placed_def)
  have "placed home changed [] ?D"
    using Cons.prems(2) unfolding placed_def by (auto simp: with_entries_Some without_shard_Some split: if_splits)
  then have "shard_rows (foldl (\<lambda>D s. with_entries (cs_shard_id s) (cs_entries s) (without_shard (cs_shard_id s) D)) D (s # changed)) i
      = rows_after changed [] (shard_rows ?D) i"
    using Cons by simp
  also have "\<dots> = rows_after (s # changed) [] (shard_rows D) i"
  proof (cases "find (\<lambda>s. cs_shard_id s = i) changed")
    case None
    then have out: "i \<notin> cs_shard_id ` set changed" by (auto simp: find_None_iff)
    have "shard_rows ?D i = (if cs_shard_id s = i then lock_map (rev (cs_entries s)) else shard_rows D i)"
    proof (rule shard_rows_eqI)
      fix p oid
      have "lock_map (rev (cs_entries s)) p = Some oid \<Longrightarrow> p \<in> entry_path ` set (cs_entries s)" for oid
        by (auto simp: lock_map_def dest!: map_of_SomeD)
      then show "?D p = Some (oid, i) \<longleftrightarrow> (if cs_shard_id s = i then lock_map (rev (cs_entries s)) else shard_rows D i) p = Some oid"
        using away [of p oid i] out by (auto simp: with_entries_Some without_shard_Some shard_rows_Some)
    qed
    then show ?thesis using None by (simp add: rows_after_def)
  next
    case (Some t)
    then have "t \<in> set changed" "cs_shard_id t = i" by (auto simp: find_Some_iff)
    then have "cs_shard_id s \<noteq> i" using Cons.prems(1) by auto
    then show ?thesis using Some by (simp add: rows_after_def)
  qed
  finally show ?case .
qed

lemma refreshed_rows:
  assumes "distinct (map rs_shard_id removed @ map cs_shard_id changed)" "placed home changed removed D"
  shows "shard_rows (foldl (\<lambda>D s. with_entries (cs_shard_id s) (cs_entries s) (without_shard (cs_shard_id s) D))
      (foldl (\<lambda>D r. without_shard (rs_shard_id r) D) D removed) changed) = rows_after changed removed (shard_rows D)"
proof
  fix i
  let ?D = "foldl (\<lambda>D r. without_shard (rs_shard_id r) D) D removed"
  have "placed home changed [] ?D" using assms(2) by (auto simp: placed_def removed_rows)
  moreover have "shard_rows ?D i = (if i \<in> rs_shard_id ` set removed then Map.empty else shard_rows D i)"
    by (rule shard_rows_eqI) (auto simp: removed_rows shard_rows_Some)
  ultimately show "shard_rows (foldl (\<lambda>D s. with_entries (cs_shard_id s) (cs_entries s) (without_shard (cs_shard_id s) D)) ?D changed) i
      = rows_after changed removed (shard_rows D) i"
    using changed_rows [of changed home ?D i] assms(1) by (simp add: rows_after_def split: option.split)
qed

lemma stored_identity_after:
  assumes "distinct (map cs_shard_id changed)"
  shows "map_option (\<lambda>r. ContentIdentity (shr_identity r)) (map_of (catalog_to proofs (catalog_after (map meta_from changed) removed xs)) i)
    = identities_after changed removed (\<lambda>i. map_option (\<lambda>r. ContentIdentity (shr_identity r)) (map_of xs i)) i"
proof -
  have pairs: "map_option (\<lambda>r. ContentIdentity (shr_identity r)) (map_of ys i) = map_of (shard_pairs ys) i" for ys
    by (induction ys) (auto simp: shard_pairs_def)
  have out: "map_of (foldl (\<lambda>xs r. shard_delete (rs_shard_id r) xs) xs removed) i
      = (if i \<in> rs_shard_id ` set removed then None else map_of xs i)" for xs
    by (induction removed arbitrary: xs) (auto simp: shard_delete_get)
  have up: "map_of (foldl (\<lambda>xs c. shard_upsert (cm_shard_id c) (shard_row_of c) xs) xs (map meta_from changed)) i
      = (case find (\<lambda>s. cs_shard_id s = i) changed of Some s \<Rightarrow> Some (shard_row_of (meta_from s)) | None \<Rightarrow> map_of xs i)" for xs
    using assms
  proof (induction changed arbitrary: xs)
    case (Cons s changed)
    show ?case
    proof (cases "find (\<lambda>s. cs_shard_id s = i) changed")
      case (Some t)
      then have "t \<in> set changed" "cs_shard_id t = i" by (auto simp: find_Some_iff)
      then have "cs_shard_id s \<noteq> i" using Cons.prems by auto
      then show ?thesis using Some Cons by simp
    qed (use Cons in \<open>simp add: shard_upsert_get meta_from_def\<close>)
  qed simp
  show ?thesis
    unfolding pairs catalog_to_kept(1)
    by (simp add: pairs [symmetric] catalog_after_def up out identities_after_def meta_from_def split: option.split)
qed

section \<open>Properties\<close>

lemma yields_on_state:
  assumes "effect ok m df mf" "table_ok (db_state db)"
  shows "yields ok (on_state m) db (\<lambda>db'. \<exists>t. db' = db\<lparr>db_state := t\<rparr> \<and> table_ok t \<and> desired t = df (desired (db_state db))
    \<and> materialized t = mf (materialized (db_state db)))"
  unfolding yields_def
proof
  fix k
  have "yields ok m (db_state db) (\<lambda>t'. table_ok t' \<and> desired t' = df (desired (db_state db)) \<and> materialized t' = mf (materialized (db_state db)))"
    by (rule effect_yields [OF assms])
  then show "case on_state m (k, db) of Inl _ \<Rightarrow> \<exists>j. \<not> ok j
     | Inr (_, db') \<Rightarrow> \<exists>t. db' = db\<lparr>db_state := t\<rparr> \<and> table_ok t \<and> desired t = df (desired (db_state db)) \<and> materialized t = mf (materialized (db_state db))"
    unfolding yields_def on_state_def by (cases "m (k, db_state db)") (force simp: map_ok_def dest!: spec [of _ k])+
qed

lemma yields_on_state_each:
  assumes "\<And>x. effect ok (m x) (df x) (\<lambda>M. M)" "table_ok (db_state db)"
  shows "yields ok (for_each (\<lambda>x. on_state (m x)) xs) db (\<lambda>db'. \<exists>t. db' = db\<lparr>db_state := t\<rparr> \<and> table_ok t
    \<and> desired t = foldl (\<lambda>D x. df x D) (desired (db_state db)) xs \<and> materialized t = materialized (db_state db))"
proof (rule yields_for_each [where I = "\<lambda>ys db'. \<exists>t. db' = db\<lparr>db_state := t\<rparr> \<and> table_ok t
    \<and> desired t = foldl (\<lambda>D x. df x D) (desired (db_state db)) ys \<and> materialized t = materialized (db_state db)"])
  show "\<exists>t. db = db\<lparr>db_state := t\<rparr> \<and> table_ok t \<and> desired t = foldl (\<lambda>D x. df x D) (desired (db_state db)) []
      \<and> materialized t = materialized (db_state db)"
    using assms(2) by (intro exI [of _ "db_state db"]) simp
  fix ys x zs s
  assume "\<exists>t. s = db\<lparr>db_state := t\<rparr> \<and> table_ok t \<and> desired t = foldl (\<lambda>D x. df x D) (desired (db_state db)) ys
      \<and> materialized t = materialized (db_state db)"
  then show "yields ok (on_state (m x)) s (\<lambda>db'. \<exists>t. db' = db\<lparr>db_state := t\<rparr> \<and> table_ok t
      \<and> desired t = foldl (\<lambda>D x. df x D) (desired (db_state db)) (ys @ [x]) \<and> materialized t = materialized (db_state db))"
    by (intro yields_weaken [OF yields_on_state [OF assms(1)]]) auto
qed

definition refreshed :: "(str \<Rightarrow> u8 list) \<Rightarrow> changed_shard list \<Rightarrow> removed_shard list \<Rightarrow> state_db \<Rightarrow> state_db \<Rightarrow> bool" where
  "refreshed hash changed removed db db' \<longleftrightarrow> db_ok hash db' \<and> materialized (db_state db') = materialized (db_state db)
     \<and> shard_rows (desired (db_state db')) = rows_after changed removed (shard_rows (desired (db_state db)))
     \<and> stored_identity db' = identities_after changed removed (stored_identity db)"

lemma known_iff: "i \<in> fst ` set (db_shards db) \<longleftrightarrow> stored_identity db i \<noteq> None"
  by (simp add: stored_identity_def map_of_eq_None_iff)

lemma refreshed_known:
  assumes "shard_rows (desired (db_state db')) = rows_after changed removed (shard_rows (desired (db_state db)))"
    and "stored_identity db' = identities_after changed removed (stored_identity db)"
    and "\<forall>p oid i. desired (db_state db) p = Some (oid, i) \<longrightarrow> i \<in> fst ` set (db_shards db)"
  shows "\<forall>p oid i. desired (db_state db') p = Some (oid, i) \<longrightarrow> i \<in> fst ` set (db_shards db')"
  using assms unfolding known_iff shard_rows_Some [symmetric]
  by (auto simp: rows_after_def identities_after_def split: option.splits if_splits)

lemma yields_apply_shard_refresh:
  assumes h: "hash32 hash" and db: "db_ok hash db" and ch: "changes_ok db (map meta_from changed) removed"
    and pl: "placed home changed removed (desired (db_state db))"
  shows "yields ok (apply_shard_refresh_tx hash ok changed proofs removed) db (refreshed hash changed removed db)"
proof -
  have ids: "map cm_shard_id (map meta_from changed) = map cs_shard_id changed" by (simp add: meta_from_def)
  have d: "distinct (map rs_shard_id removed @ map cs_shard_id changed)"
    using ch unfolding changes_ok_def ids by blast
  then have dc: "distinct (map cs_shard_id changed)" by simp
  have t: "table_ok (db_state db)" and cat: "catalog_ok (db_shards db)"
    and fp: "DesiredIdentity (db_fingerprint db) = catalog_identity hash (db_shards db)"
    using db by (simp_all add: db_ok_def)
  let ?D1 = "foldl (\<lambda>D r. without_shard (rs_shard_id r) D) (desired (db_state db)) removed"
  let ?D2 = "foldl (\<lambda>D s. with_entries (cs_shard_id s) (cs_entries s) (without_shard (cs_shard_id s) D)) ?D1 changed"
  let ?S = "\<lambda>D db'. \<exists>t. db' = db\<lparr>db_state := t\<rparr> \<and> table_ok t \<and> desired t = D \<and> materialized t = materialized (db_state db)"
  have a: "yields ok (for_each (\<lambda>removed. on_state (clear_shard_desired_tx ok (rs_shard_id removed))) removed) db (?S ?D1)"
    by (rule yields_on_state_each [OF effect_clear_shard t])
  have b: "yields ok (for_each (\<lambda>shard. on_state (apply_shard_entries_tx ok (cs_shard_id shard) (cs_entries shard))) changed) db' (?S ?D2)"
    if hyp: "?S ?D1 db'" for db'
  proof -
    have "table_ok (db_state db')" using hyp by auto
    from yields_on_state_each [OF effect_apply_shard_entries this, of ok cs_shard_id cs_entries changed]
    show ?thesis by (rule yields_weaken) (use hyp in auto)
  qed
  have c: "yields ok (apply_shard_catalog_tx hash ok (map meta_from changed) proofs removed) db' (refreshed hash changed removed db)"
    if hyp: "?S ?D2 db'" for db'
  proof -
    obtain t where s: "db' = db\<lparr>db_state := t\<rparr>" "table_ok t" "desired t = ?D2" "materialized t = materialized (db_state db)"
      using hyp by blast
    have "changes_ok db' (map meta_from changed) removed" using ch by (simp add: s(1) changes_ok_def stored_identity_def)
    with cat fp have "yields ok (apply_shard_catalog_tx hash ok (map meta_from changed) proofs removed) db'
        (catalog_moved hash (catalog_to proofs (catalog_after (map meta_from changed) removed (db_shards db'))) db')"
      by (intro yields_apply_shard_catalog [OF h]) (simp_all add: s(1))
    then show ?thesis
    proof (rule yields_weaken)
      fix db''
      assume m: "catalog_moved hash (catalog_to proofs (catalog_after (map meta_from changed) removed (db_shards db'))) db' db''"
      have "shard_rows ?D2 = rows_after changed removed (shard_rows (desired (db_state db)))"
        by (rule refreshed_rows [OF d pl])
      moreover have "stored_identity db'' = identities_after changed removed (stored_identity db)"
        using stored_identity_after [OF dc, of proofs removed "db_shards db"] m
        by (simp add: stored_identity_def [abs_def] catalog_moved_def s(1))
      ultimately show "refreshed hash changed removed db db''"
        using m s refreshed_known [where changed = changed and removed = removed and db = db and db' = db''] db by (simp add: refreshed_def db_ok_def catalog_moved_def)
    qed
  qed
  show ?thesis
    unfolding apply_shard_refresh_tx_def by (rule yields_then [OF a yields_then [OF b c]])
qed

lemma in_transaction_yields:
  assumes "yields ok body s Q" "in_transaction ok body s = (s', result)"
  shows "(result = Ok () \<and> Q s') \<or> (result \<noteq> Ok () \<and> s' = s \<and> (\<exists>j. \<not> ok j))"
proof -
  have p: "yields ok (prepare ok) s R" if "R s" for R and s :: 'a unfolding prepare_def using that by (rule yields_execute)
  have "yields ok (\<lambda>tx. and_then (prepare ok tx) (\<lambda>tx. and_then (body tx) (prepare ok))) s Q"
    by (rule yields_then [OF p [of "\<lambda>x. x = s"]]) (use yields_then [OF assms(1) p] in auto)
  then show ?thesis
    using assms(2) unfolding yields_def by (auto simp: in_transaction_def dest!: spec [of _ 0] split: sum.splits prod.splits)
qed

text \<open>
  C31: a refresh moves the whole mirror or nothing. On success every changed shard has exactly its new rows
  and identity, every removed one none, every other one what it had; the materialized half is untouched;
  and the stored identity, kept by toggling, is the one of the new catalog. On failure nothing changes.
\<close>

theorem refresh_moves_the_mirror:
  assumes "hash32 hash" "db_ok hash db" "changes_ok db (map meta_from changed) removed"
    and "placed home changed removed (desired (db_state db))"
    and "apply_shard_refresh hash ok changed proofs removed db = (db', result)"
  shows "(result = Ok () \<and> refreshed hash changed removed db db') \<or> (result \<noteq> Ok () \<and> db' = db \<and> (\<exists>j. \<not> ok j))"
proof (cases "changed = [] \<and> proofs = [] \<and> removed = []")
  case True
  then show ?thesis
    using assms(2,5) by (auto simp: apply_shard_refresh_def refreshed_def rows_after_def [abs_def] identities_after_def [abs_def])
next
  case False
  then have "in_transaction ok (apply_shard_refresh_tx hash ok changed proofs removed) db = (db', result)"
    using assms(5) unfolding apply_shard_refresh_def by (simp only: if_False)
  then show ?thesis by (rule in_transaction_yields [OF yields_apply_shard_refresh [OF assms(1-4)]])
qed

definition empty_db :: state_db where
  "empty_db = \<lparr>db_state = [], db_shards = [], db_fingerprint = replicate 32 0\<rparr>"

lemma empty_db_ok: "db_ok hash empty_db"
proof -
  have "catalog_identity hash [] = desired_empty" by (simp add: catalog_identity_def shard_pairs_def)
  then show ?thesis
    by (simp add: empty_db_def db_ok_def catalog_ok_def table_ok_def bt_ok_def desired_def bt_get_def desired_empty_def)
qed

lemma wf_shard_flat: "wf_shard shard_flat"
  by (simp add: wf_shard_def shard_flat_def LEVELS_FLAT_def LEVELS_MAX_def)

lemma refresh_moves_the_mirror_witness:
  "\<exists>db'. apply_shard_refresh (\<lambda>_. replicate 32 7) (\<lambda>_. True)
      [\<lparr>cs_shard_id = shard_flat, cs_prior_identity = None, cs_identity = ContentIdentity (replicate 32 1), cs_proof = None,
        cs_entries = [\<lparr>entry_path = GatPath [97], entry_oid = Oid [2]\<rparr>]\<rparr>] [] [] empty_db = (db', Ok ())
    \<and> desired (db_state db') (GatPath [97]) = Some (Oid [2], shard_flat)"
proof -
  let ?h = "\<lambda>_ :: str. replicate 32 7 :: u8 list" and ?ok = "\<lambda>_ :: nat. True"
  let ?ch = "[\<lparr>cs_shard_id = shard_flat, cs_prior_identity = None, cs_identity = ContentIdentity (replicate 32 1), cs_proof = None,
        cs_entries = [\<lparr>entry_path = GatPath [97], entry_oid = Oid [2]\<rparr>]\<rparr>]"
  have a: "hash32 ?h" by (simp add: hash32_def)
  have b: "changes_ok empty_db (map meta_from ?ch) []"
    by (simp add: changes_ok_def meta_from_def stored_identity_def empty_db_def wf_shard_flat)
  have c: "placed (\<lambda>_. shard_flat) ?ch [] (desired (db_state empty_db))"
    by (simp add: placed_def empty_db_def desired_def bt_get_def)
  obtain db' result where r: "apply_shard_refresh ?h ?ok ?ch [] [] empty_db = (db', result)" by fastforce
  have "result = Ok () \<and> refreshed ?h ?ch [] empty_db db'"
    using refresh_moves_the_mirror [OF a empty_db_ok b c r] by simp
  moreover from this have "shard_rows (desired (db_state db')) shard_flat (GatPath [97]) = Some (Oid [2])"
    by (simp add: refreshed_def rows_after_def lock_map_def)
  ultimately show ?thesis using r by (simp add: shard_rows_Some)
qed

text \<open>A full receipt replaces the mirror whatever it held.\<close>

definition evidence_changes :: "(lock_shard_id \<times> stored_shard) list \<Rightarrow> full_shard list \<Rightarrow> changed_shard list" where
  "evidence_changes prior_catalog evidence = map (\<lambda>shard.
     \<lparr>cs_shard_id = fs_shard_id shard, cs_prior_identity = map_option ss_identity (map_of prior_catalog (fs_shard_id shard)),
      cs_identity = fs_identity shard, cs_proof = Some (fs_proof shard), cs_entries = fs_entries shard\<rparr>) evidence"

lemma decode_catalog:
  "\<forall>(i, r) \<in> set xs. length (shr_identity r) = 32 \<Longrightarrow> decode_shard_rows xs = Ok (map (\<lambda>(i, r).
     (i, \<lparr>ss_identity = ContentIdentity (shr_identity r), ss_proof = Option.bind (shr_proof r) decode_stat_proof\<rparr>)) xs)"
  by (induction xs) (auto simp: content_decode_def map_ok_def)

definition mirrors :: "full_shard list \<Rightarrow> state_db \<Rightarrow> bool" where
  "mirrors evidence db \<longleftrightarrow>
     (\<forall>i. (case find (\<lambda>s. fs_shard_id s = i) evidence of
         None \<Rightarrow> shard_rows (desired (db_state db)) i = Map.empty \<and> stored_identity db i = None
       | Some s \<Rightarrow> shard_rows (desired (db_state db)) i = lock_map (rev (fs_entries s)) \<and> stored_identity db i = Some (fs_identity s)))"

lemma find_map: "find P (map f xs) = map_option f (find (\<lambda>x. P (f x)) xs)"
  by (induction xs) auto

lemma map_of_filter_fst: "map_of (filter (\<lambda>(i, _). i \<notin> S) xs) i = (if i \<in> S then None else map_of xs i)"
  by (induction xs) auto

lemma yields_full_evidence:
  assumes h: "hash32 hash" and db: "db_ok hash db" and d: "distinct (map fs_shard_id evidence)"
    and wf: "\<forall>s \<in> set evidence. wf_shard (fs_shard_id s) \<and> length (content_bytes (fs_identity s)) = 32
       \<and> (\<forall>e \<in> set (fs_entries s). home (entry_path e) = fs_shard_id s)"
  shows "yields ok (apply_full_lock_evidence_tx hash ok evidence) db
    (\<lambda>db'. db_ok hash db' \<and> materialized (db_state db') = materialized (db_state db) \<and> mirrors evidence db')"
proof -
  let ?prior = "map (\<lambda>(i, r). (i, \<lparr>ss_identity = ContentIdentity (shr_identity r), ss_proof = Option.bind (shr_proof r) decode_stat_proof\<rparr>)) (db_shards db)"
  let ?changed = "evidence_changes ?prior evidence"
  let ?touched = "cs_shard_id ` set ?changed"
  let ?removed = "map (\<lambda>(i, stored). \<lparr>rs_shard_id = i, rs_prior_identity = ss_identity stored\<rparr>) (filter (\<lambda>(i, _). i \<notin> ?touched) ?prior)"
  have cat: "catalog_ok (db_shards db)" and known: "desired (db_state db) p = Some (oid, i) \<Longrightarrow> i \<in> fst ` set (db_shards db)" for p oid i
    using db by (auto simp: db_ok_def)
  have prior: "map_option ss_identity (map_of ?prior i) = stored_identity db i" for i
    by (simp add: stored_identity_def map_of_map [of "\<lambda>r. \<lparr>ss_identity = ContentIdentity (shr_identity r), ss_proof = Option.bind (shr_proof r) decode_stat_proof\<rparr>"] option.map_comp comp_def)
  have ids: "map cs_shard_id ?changed = map fs_shard_id evidence" by (simp add: evidence_changes_def)
  have gone: "rs_shard_id ` set ?removed = fst ` set (db_shards db) - ?touched" by force
  have "changes_ok db (map meta_from ?changed) ?removed"
    unfolding changes_ok_def
  proof (intro conjI ballI)
    have a: "map rs_shard_id ?removed = filter (\<lambda>i. i \<notin> ?touched) (map fst (db_shards db))"
      by (simp add: filter_map comp_def case_prod_unfold)
    have b: "map cm_shard_id (map meta_from ?changed) = map cs_shard_id ?changed" by (simp add: meta_from_def)
    have "distinct (map fst (db_shards db))" using cat by (simp add: catalog_ok_def)
    moreover have "distinct (map cs_shard_id ?changed)" using d ids by simp
    ultimately show "distinct (map rs_shard_id ?removed @ map cm_shard_id (map meta_from ?changed))"
      unfolding a b by (simp only: distinct_append distinct_filter set_filter set_map) blast
    show "stored_identity db (rs_shard_id r) = Some (rs_prior_identity r)" if rem: "r \<in> set ?removed" for r
    proof -
      obtain i row where r: "(i, row) \<in> set (db_shards db)" "rs_shard_id r = i" "rs_prior_identity r = ContentIdentity (shr_identity row)"
        using rem by auto
      then have "map_of (db_shards db) i = Some row" using cat by (simp add: catalog_ok_def)
      then show ?thesis using r by (simp add: stored_identity_def)
    qed
    fix c assume "c \<in> set (map meta_from ?changed)"
    then obtain s where s: "s \<in> set evidence" and c: "cm_shard_id c = fs_shard_id s" "cm_identity c = fs_identity s"
        "cm_prior_identity c = map_option ss_identity (map_of ?prior (fs_shard_id s))"
      by (auto simp: evidence_changes_def meta_from_def)
    show "stored_identity db (cm_shard_id c) = cm_prior_identity c" "wf_shard (cm_shard_id c)" "length (content_bytes (cm_identity c)) = 32"
      using wf s unfolding c prior by simp_all
  qed
  moreover have "placed home ?changed ?removed (desired (db_state db))"
    unfolding placed_def using wf known gone by (fastforce simp: evidence_changes_def)
  ultimately have r: "yields ok (apply_shard_refresh_tx hash ok ?changed [] ?removed) db (refreshed hash ?changed ?removed db)"
    by (rule yields_apply_shard_refresh [OF h db])
  have fin: "db_ok hash db' \<and> materialized (db_state db') = materialized (db_state db) \<and> mirrors evidence db'"
    if hyp: "refreshed hash ?changed ?removed db db'" for db'
  proof -
    have "mirrors evidence db'"
      unfolding mirrors_def
    proof
      fix i
      have f: "find (\<lambda>s. cs_shard_id s = i) ?changed = map_option (\<lambda>shard.
         \<lparr>cs_shard_id = fs_shard_id shard, cs_prior_identity = map_option ss_identity (map_of ?prior (fs_shard_id shard)),
          cs_identity = fs_identity shard, cs_proof = Some (fs_proof shard), cs_entries = fs_entries shard\<rparr>) (find (\<lambda>s. fs_shard_id s = i) evidence)"
        by (simp add: evidence_changes_def find_map)
      have "i \<notin> fst ` set (db_shards db) \<Longrightarrow> shard_rows (desired (db_state db)) i = Map.empty"
        by (rule shard_rows_eqI) (use known in force)
      moreover have "i \<notin> fst ` set (db_shards db) \<Longrightarrow> stored_identity db i = None" by (simp only: known_iff not_not)
      ultimately have old: "i \<notin> fst ` set (db_shards db) - ?touched \<Longrightarrow> i \<notin> ?touched
          \<Longrightarrow> shard_rows (desired (db_state db)) i = Map.empty \<and> stored_identity db i = None" by blast
      have rows: "shard_rows (desired (db_state db')) i = rows_after ?changed ?removed (shard_rows (desired (db_state db))) i"
        and identity: "stored_identity db' i = identities_after ?changed ?removed (stored_identity db) i"
        using hyp by (simp_all only: refreshed_def)
      show "case find (\<lambda>s. fs_shard_id s = i) evidence of
         None \<Rightarrow> shard_rows (desired (db_state db')) i = Map.empty \<and> stored_identity db' i = None
       | Some s \<Rightarrow> shard_rows (desired (db_state db')) i = lock_map (rev (fs_entries s)) \<and> stored_identity db' i = Some (fs_identity s)"
      proof (cases "find (\<lambda>s. fs_shard_id s = i) evidence")
        case None
        then have "i \<notin> ?touched" by (auto simp: find_None_iff evidence_changes_def)
        with old show ?thesis
          unfolding rows identity rows_after_def identities_after_def gone f None option.map option.case by presburger
      next
        case (Some s)
        show ?thesis
          unfolding rows identity rows_after_def identities_after_def f Some option.map option.case by simp
      qed
    qed
    then show ?thesis using hyp by (simp add: refreshed_def)
  qed
  have "decode_shard_rows (db_shards db) = Ok ?prior" by (rule decode_catalog) (use cat in \<open>auto simp: catalog_ok_def\<close>)
  then have q: "gives ok (shard_identities_query ok None) db (\<lambda>prior db'. prior = ?prior \<and> db' = db)"
    by (auto simp: gives_def shard_identities_query_def query_def and_then_def map_ok_def)
  show ?thesis
    unfolding apply_full_lock_evidence_tx_def
    by (rule gives_then [OF q]) (use yields_weaken [OF r fin] in \<open>simp add: Let_def evidence_changes_def\<close>)
qed

text \<open>
  C32: after a full receipt the mirror is the receipt: exactly its shards, each with its rows and identity,
  whatever the store mirrored before, with the materialized half untouched; a failure changes nothing.
\<close>

theorem full_evidence_is_the_mirror:
  assumes "hash32 hash" "db_ok hash db" "distinct (map fs_shard_id evidence)"
    and "\<forall>s \<in> set evidence. wf_shard (fs_shard_id s) \<and> length (content_bytes (fs_identity s)) = 32
       \<and> (\<forall>e \<in> set (fs_entries s). home (entry_path e) = fs_shard_id s)"
    and "apply_full_lock_evidence hash ok evidence db = (db', result)"
  shows "(result = Ok () \<and> db_ok hash db' \<and> materialized (db_state db') = materialized (db_state db) \<and> mirrors evidence db')
    \<or> (result \<noteq> Ok () \<and> db' = db \<and> (\<exists>j. \<not> ok j))"
  using in_transaction_yields [OF yields_full_evidence [OF assms(1-4)] assms(5) [unfolded apply_full_lock_evidence_def]] .

lemma full_evidence_is_the_mirror_witness:
  "\<exists>db'. apply_full_lock_evidence (\<lambda>_. replicate 32 7) (\<lambda>_. True)
      [\<lparr>fs_shard_id = shard_flat, fs_identity = ContentIdentity (replicate 32 1),
        fs_proof = \<lparr>sp_size = 3, sp_mtime_secs = 4, sp_mtime_nanos = 5\<rparr>,
        fs_entries = [\<lparr>entry_path = GatPath [97], entry_oid = Oid [2]\<rparr>]\<rparr>] empty_db = (db', Ok ())
    \<and> desired (db_state db') (GatPath [97]) = Some (Oid [2], shard_flat)"
proof -
  let ?h = "\<lambda>_ :: str. replicate 32 7 :: u8 list" and ?ok = "\<lambda>_ :: nat. True"
  let ?ev = "[\<lparr>fs_shard_id = shard_flat, fs_identity = ContentIdentity (replicate 32 1),
        fs_proof = \<lparr>sp_size = 3, sp_mtime_secs = 4, sp_mtime_nanos = 5\<rparr>,
        fs_entries = [\<lparr>entry_path = GatPath [97], entry_oid = Oid [2]\<rparr>]\<rparr>]"
  have a: "hash32 ?h" by (simp add: hash32_def)
  have b: "distinct (map fs_shard_id ?ev)" by simp
  have c: "\<forall>s \<in> set ?ev. wf_shard (fs_shard_id s) \<and> length (content_bytes (fs_identity s)) = 32
       \<and> (\<forall>e \<in> set (fs_entries s). (\<lambda>_. shard_flat) (entry_path e) = fs_shard_id s)" by (simp add: wf_shard_flat)
  obtain db' result where r: "apply_full_lock_evidence ?h ?ok ?ev empty_db = (db', result)" by fastforce
  have "result = Ok () \<and> mirrors ?ev db'"
    using full_evidence_is_the_mirror [OF a empty_db_ok b c r] by simp
  moreover from this have "shard_rows (desired (db_state db')) shard_flat (GatPath [97]) = Some (Oid [2])"
    by (auto simp: mirrors_def lock_map_def dest!: spec [of _ shard_flat])
  ultimately show ?thesis using r by (simp add: shard_rows_Some)
qed

end
