(* ===== verification/SyncExecute.thy ===== *)
theory SyncExecute
  imports WorktreeFs DesiredMirror
begin

text \<open>
  Applying a plan (\<open>gat-engine/src/workspace/sync/execute.rs\<close> and the mutating half of \<open>sync/mod.rs\<close>): the
  preview and the execution sink, the bounded batch of mutations that have succeeded on disk and wait for
  the state table, and the three ways a synchronization runs. The disk is the one of \<open>WorktreeFs\<close>, the
  table the one of \<open>StateTable\<close>; excludes and progress reports are left out.
\<close>

section \<open>Outcomes\<close>

record sync_outcome =
  so_materialized :: nat
  so_replaced :: nat
  so_removed :: nat
  so_rematerialized :: nat
  so_conflicts :: "gat_path list"
  so_missing :: "(gat_path \<times> oid) list"
  so_corrupted :: "(gat_path \<times> oid) list"
  so_dry_run :: bool

definition outcome_default :: sync_outcome where
  "outcome_default =
     \<lparr>so_materialized = 0, so_replaced = 0, so_removed = 0, so_rematerialized = 0, so_conflicts = [],
      so_missing = [], so_corrupted = [], so_dry_run = False\<rparr>"

definition is_clean :: "sync_outcome \<Rightarrow> bool" where
  "is_clean self \<longleftrightarrow> so_conflicts self = [] \<and> so_missing self = [] \<and> so_corrupted self = []"

definition outcome_merge :: "sync_outcome \<Rightarrow> sync_outcome \<Rightarrow> sync_outcome" where
  "outcome_merge self other =
     self\<lparr>so_materialized := so_materialized self + so_materialized other,
          so_replaced := so_replaced self + so_replaced other,
          so_removed := so_removed self + so_removed other,
          so_rematerialized := so_rematerialized self + so_rematerialized other,
          so_conflicts := so_conflicts self @ so_conflicts other,
          so_missing := so_missing self @ so_missing other,
          so_corrupted := so_corrupted self @ so_corrupted other\<rparr>"

fun resolution_path :: "conflict_resolution \<Rightarrow> gat_path" where
  "resolution_path (ResReplace entry) = entry_path entry"
| "resolution_path (ResRematerialize entry) = entry_path entry"
| "resolution_path (ResMissingObject entry) = entry_path entry"
| "resolution_path (ResRemove path) = path"

fun into_action :: "conflict_resolution \<Rightarrow> sync_action" where
  "into_action (ResReplace entry) = Replace entry"
| "into_action (ResRematerialize entry) = Rematerialize entry"
| "into_action (ResRemove path) = Remove path"
| "into_action (ResMissingObject entry) = MissingObject (entry_path entry) (entry_oid entry)"

definition resolve_action :: "sync_action \<Rightarrow> bool \<Rightarrow> sync_action" where
  "resolve_action action force =
     (case action of Conflict resolution \<Rightarrow> if force then into_action resolution else action | other \<Rightarrow> other)"

fun record_action :: "sync_outcome \<Rightarrow> sync_action \<Rightarrow> sync_outcome" where
  "record_action outcome (Materialize _) = outcome\<lparr>so_materialized := so_materialized outcome + 1\<rparr>"
| "record_action outcome (Replace _) = outcome\<lparr>so_replaced := so_replaced outcome + 1\<rparr>"
| "record_action outcome (Rematerialize _) = outcome\<lparr>so_rematerialized := so_rematerialized outcome + 1\<rparr>"
| "record_action outcome (Remove _) = outcome\<lparr>so_removed := so_removed outcome + 1\<rparr>"
| "record_action outcome (MissingObject path oid) = outcome\<lparr>so_missing := so_missing outcome @ [(path, oid)]\<rparr>"
| "record_action outcome (Corrupted path oid) = outcome\<lparr>so_corrupted := so_corrupted outcome @ [(path, oid)]\<rparr>"
| "record_action outcome (Conflict resolution) = outcome\<lparr>so_conflicts := so_conflicts outcome @ [resolution_path resolution]\<rparr>"

section \<open>The preview sink\<close>

record dry_run_sink =
  dr_force :: bool
  dr_outcome :: sync_outcome

definition dry_run_new :: "bool \<Rightarrow> dry_run_sink" where
  "dry_run_new force = \<lparr>dr_force = force, dr_outcome = outcome_default\<lparr>so_dry_run := True\<rparr>\<rparr>"

definition dry_run_action :: "(dry_run_sink, sync_action, 'e) sink_op" where
  "dry_run_action self action =
     (self\<lparr>dr_outcome := record_action (dr_outcome self) (resolve_action action (dr_force self))\<rparr>, Ok ())"

definition dry_run_state_mutation :: "(dry_run_sink, state_mutation, 'e) sink_op" where
  "dry_run_state_mutation self mutation = (self, Ok ())"

section \<open>The pending batch\<close>

definition BATCH_SIZE :: nat where
  "BATCH_SIZE = 10000"

record pending_batch =
  pb_ops :: "state_mutation list"
  pb_removals :: "comps list"

definition pending_default :: pending_batch where
  "pending_default = \<lparr>pb_ops = [], pb_removals = []\<rparr>"

definition is_full :: "pending_batch \<Rightarrow> bool" where
  "is_full self \<longleftrightarrow> BATCH_SIZE \<le> length (pb_ops self)"

definition push_mutation :: "pending_batch \<Rightarrow> state_mutation \<Rightarrow> pending_batch" where
  "push_mutation self mutation = self\<lparr>pb_ops := pb_ops self @ [mutation]\<rparr>"

definition push_remove :: "pending_batch \<Rightarrow> gat_path \<Rightarrow> comps option \<Rightarrow> pending_batch" where
  "push_remove self path resolved =
     (let self = (case resolved of Some receipt \<Rightarrow> self\<lparr>pb_removals := pb_removals self @ [receipt]\<rparr> | None \<Rightarrow> self)
      in self\<lparr>pb_ops := pb_ops self @ [RemoveExact path]\<rparr>)"

datatype 'e sync_error =
    PlanError 'e
  | StateError state_store_error
  | PathError worktree_path_error
  | MutationError worktree_mutation_error
  | PruneFailed prune_error
  | FlushAfterFailure "'e sync_error" "'e sync_error"

text \<open>
  What the sink works on: the disk, the table, and how many transactions have run. The surroundings decide
  which steps of which transaction fail and which pages of the dirty rows can be read.
\<close>

record machine =
  mc_disk :: disk
  mc_table :: table
  mc_batches :: nat

record surroundings =
  sr_world :: world
  sr_db :: "nat \<Rightarrow> nat \<Rightarrow> bool"
  sr_pick :: pick
  sr_query :: "nat \<Rightarrow> bool"

definition batch_flush ::
  "surroundings \<Rightarrow> pending_batch \<Rightarrow> machine \<Rightarrow> (pending_batch \<times> machine) \<times> ('e sync_error + unit)" where
  "batch_flush env self m =
     (if pb_ops self = [] then ((self, m), Ok ())
      else
        (case apply_batch (sr_db env (mc_batches m)) (sr_pick env) (pb_ops self) (mc_table m) of
           (t, result) \<Rightarrow>
             (let m = m\<lparr>mc_table := t, mc_batches := Suc (mc_batches m)\<rparr>
              in case result of
                   Inl e \<Rightarrow> ((self, m), Err (StateError e))
                 | Inr _ \<Rightarrow>
                     (let self = self\<lparr>pb_ops := []\<rparr>
                      in if pb_removals self \<noteq> [] then
                           (case prune_touched_ancestor_dirs (sr_world env) (pb_removals self) (mc_disk m) of
                              (outcome, d) \<Rightarrow> ((self\<lparr>pb_removals := []\<rparr>, m\<lparr>mc_disk := d\<rparr>), map_err PruneFailed outcome))
                         else ((self, m), Ok ())))))"

definition flush_after_failure :: "'e sync_error \<Rightarrow> 'e sync_error + unit \<Rightarrow> 'e sync_error" where
  "flush_after_failure primary flush_result =
     (case flush_result of Inr _ \<Rightarrow> primary | Inl flush_err \<Rightarrow> FlushAfterFailure primary flush_err)"

section \<open>The execution sink\<close>

record execute_sink =
  es_machine :: machine
  es_mode :: materialization_strategy
  es_force :: bool
  es_pending :: pending_batch
  es_flush_failed :: bool
  es_outcome :: sync_outcome

definition execute_new :: "machine \<Rightarrow> materialization_strategy \<Rightarrow> bool \<Rightarrow> execute_sink" where
  "execute_new m mode force =
     \<lparr>es_machine = m, es_mode = mode, es_force = force, es_pending = pending_default, es_flush_failed = False,
      es_outcome = outcome_default\<rparr>"

text \<open>A call on the disk, made from the sink.\<close>

definition on_disk ::
  "(disk \<Rightarrow> ('f + 'a) \<times> disk) \<Rightarrow> ('f \<Rightarrow> 'e sync_error) \<Rightarrow> execute_sink \<Rightarrow> execute_sink \<times> ('e sync_error + 'a)" where
  "on_disk f err self =
     (case f (mc_disk (es_machine self)) of
        (r, d) \<Rightarrow> (self\<lparr>es_machine := (es_machine self)\<lparr>mc_disk := d\<rparr>\<rparr>, map_err err r))"

definition sink_then ::
  "execute_sink \<times> ('e sync_error + 'a) \<Rightarrow> (execute_sink \<Rightarrow> 'a \<Rightarrow> execute_sink \<times> ('e sync_error + 'b)) \<Rightarrow> execute_sink \<times> ('e sync_error + 'b)" where
  "sink_then r f = (case r of (self, Inl e) \<Rightarrow> (self, Err e) | (self, Inr x) \<Rightarrow> f self x)"

definition flush_pending :: "surroundings \<Rightarrow> execute_sink \<Rightarrow> execute_sink \<times> ('e sync_error + unit)" where
  "flush_pending env self =
     (case batch_flush env (es_pending self) (es_machine self) of
        ((pending, m), result) \<Rightarrow>
          (self\<lparr>es_pending := pending, es_machine := m, es_flush_failed := (case result of Inl _ \<Rightarrow> True | Inr _ \<Rightarrow> False)\<rparr>, result))"

definition execute_flush_if_full :: "surroundings \<Rightarrow> execute_sink \<Rightarrow> execute_sink \<times> ('e sync_error + unit)" where
  "execute_flush_if_full env self = (if is_full (es_pending self) then flush_pending env self else (self, Ok ()))"

definition apply_materialize :: "surroundings \<Rightarrow> execute_sink \<Rightarrow> entry \<Rightarrow> execute_sink \<times> ('e sync_error + unit)" where
  "apply_materialize env self entry =
     sink_then
       (if pb_removals (es_pending self) \<noteq> [] then
          sink_then (on_disk (inspect_move_destination (sr_world env) (entry_path entry)) PathError self) (\<lambda>self kind.
            if kind = DestDirectory then flush_pending env self else (self, Ok ()))
        else (self, Ok ())) (\<lambda>self _.
     sink_then (on_disk (client_materialize (sr_world env) entry (es_mode self)) MutationError self) (\<lambda>self mutation.
       (self\<lparr>es_pending := push_mutation (es_pending self) mutation\<rparr>, Ok ())))"

definition apply_remove :: "surroundings \<Rightarrow> execute_sink \<Rightarrow> gat_path \<Rightarrow> execute_sink \<times> ('e sync_error + unit)" where
  "apply_remove env self path =
     sink_then (on_disk (remove (sr_world env) path) MutationError self) (\<lambda>self receipt.
       (self\<lparr>es_pending := push_remove (es_pending self) path receipt\<rparr>, Ok ()))"

definition apply_action :: "surroundings \<Rightarrow> execute_sink \<Rightarrow> sync_action \<Rightarrow> execute_sink \<times> ('e sync_error + unit)" where
  "apply_action env self action =
     (let action = resolve_action action (es_force self)
      in sink_then
           (case action of
              Materialize entry \<Rightarrow> apply_materialize env self entry
            | Replace entry \<Rightarrow> apply_materialize env self entry
            | Rematerialize entry \<Rightarrow> apply_materialize env self entry
            | Remove path \<Rightarrow> apply_remove env self path
            | MissingObject _ _ \<Rightarrow> (self, Ok ())
            | Corrupted _ _ \<Rightarrow> (self, Ok ())
            | Conflict _ \<Rightarrow> (self, Ok ())) (\<lambda>self _.
         (self\<lparr>es_outcome := record_action (es_outcome self) action\<rparr>, Ok ())))"

definition execute_action :: "surroundings \<Rightarrow> (execute_sink, sync_action, 'e sync_error) sink_op" where
  "execute_action env self action = sink_then (apply_action env self action) (\<lambda>self _. execute_flush_if_full env self)"

definition execute_state_mutation :: "surroundings \<Rightarrow> (execute_sink, state_mutation, 'e sync_error) sink_op" where
  "execute_state_mutation env self mutation =
     execute_flush_if_full env (self\<lparr>es_pending := push_mutation (es_pending self) mutation\<rparr>)"

definition execute_finish ::
  "surroundings \<Rightarrow> execute_sink \<times> ('e sync_error + unit) \<Rightarrow> machine \<times> ('e sync_error + sync_outcome)" where
  "execute_finish env r =
     (case r of
        (self, Inr _) \<Rightarrow>
          (case batch_flush env (es_pending self) (es_machine self) of
             ((_, m), Inl e) \<Rightarrow> (m, Err e)
           | ((_, m), Inr _) \<Rightarrow> (m, Ok (es_outcome self)))
      | (self, Inl primary) \<Rightarrow>
          if es_flush_failed self then (es_machine self, Err primary)
          else
            (case batch_flush env (es_pending self) (es_machine self) of
               ((_, m), result) \<Rightarrow> (m, Err (flush_after_failure primary result))))"

definition execute_run ::
  "surroundings \<Rightarrow> execute_sink \<Rightarrow> (execute_sink \<Rightarrow> execute_sink \<times> ('e sync_error + unit)) \<Rightarrow> machine \<times> ('e sync_error + sync_outcome)" where
  "execute_run env self produce = execute_finish env (produce self)"

fun feed :: "('s, 'x, 'e) sink_op \<Rightarrow> 'x list \<Rightarrow> 's \<Rightarrow> 's \<times> ('e + unit)" where
  "feed f [] self = (self, Ok ())"
| "feed f (x # xs) self = (case f self x of (self, Inl e) \<Rightarrow> (self, Err e) | (self, Inr _) \<Rightarrow> feed f xs self)"

definition apply_actions ::
  "surroundings \<Rightarrow> machine \<Rightarrow> materialization_strategy \<Rightarrow> sync_plan \<Rightarrow> bool \<Rightarrow> machine \<times> ('e sync_error + sync_outcome)" where
  "apply_actions env m mode plan force =
     execute_run env (execute_new m mode force) (\<lambda>sink.
       sink_then (feed (execute_action env) (plan_actions plan) sink) (\<lambda>sink _.
       feed (execute_state_mutation env) (plan_mutations plan) sink))"

section \<open>Synchronizing\<close>

text \<open>The dirty rows of a trusted state, page by page; \<open>fuel\<close> bounds the number of pages.\<close>

fun trust_loop ::
  "surroundings \<Rightarrow> ('c, 'e) verifier \<Rightarrow> ('p \<Rightarrow> str \<Rightarrow> bool) \<Rightarrow> 'p selection \<Rightarrow> materialization_strategy \<Rightarrow> bool \<Rightarrow> nat
     \<Rightarrow> nat \<Rightarrow> 'c \<Rightarrow> nat \<Rightarrow> gat_path option \<Rightarrow> sync_outcome \<Rightarrow> machine
     \<Rightarrow> (machine \<times> ('e sync_error + sync_outcome)) option" where
  "trust_loop env verify matches_with sel mode force window 0 client page after outcome m = None"
| "trust_loop env verify matches_with sel mode force window (Suc fuel) client page after outcome m =
     (if \<not> sr_query env page then Some (m, Err (StateError QueryFailed))
      else
        (let rows = dirty_rows_in_scope_after (mc_table m) (scope_path sel) after window
         in if rows = [] then Some (m, Ok outcome)
            else
              (case plan_from_dirty_rows verify matches_with client rows sel of
                 (client, Inl e) \<Rightarrow> Some (m, Err (PlanError e))
               | (client, Inr actions) \<Rightarrow>
                   (case apply_actions env m mode \<lparr>plan_actions = actions, plan_mutations = []\<rparr> force of
                      (m, Inl e) \<Rightarrow> Some (m, Err e)
                    | (m, Inr chunk_outcome) \<Rightarrow>
                        trust_loop env verify matches_with sel mode force window fuel client (Suc page)
                          (Some (dr_path (last rows))) (outcome_merge outcome chunk_outcome) m))))"

text \<open>The validated synchronization streams the plan into the execution sink.\<close>

definition execute_validated ::
  "surroundings \<Rightarrow> 'e sync_error worktree \<Rightarrow> ('c, 'e sync_error) verifier \<Rightarrow> ('p \<Rightarrow> str \<Rightarrow> bool)
     \<Rightarrow> 'e sync_error desired_source \<Rightarrow> 'p selection \<Rightarrow> reconciliation_policy \<Rightarrow> nat \<Rightarrow> 'c
     \<Rightarrow> materialization_strategy \<Rightarrow> bool \<Rightarrow> machine \<Rightarrow> machine \<times> ('e sync_error + sync_outcome)" where
  "execute_validated env wt verify matches_with wanted sel policy window client mode force m =
     execute_run env (execute_new m mode force) (\<lambda>sink.
       case plan_into_sink wt verify (execute_action env) (execute_state_mutation env) matches_with wanted sel policy window client sink of
         (buffer, result) \<Rightarrow> (mb_sink buffer, result))"

text \<open>The preview tallies the same plan.\<close>

definition plan_dry_run ::
  "'e worktree \<Rightarrow> ('c, 'e) verifier \<Rightarrow> ('p \<Rightarrow> str \<Rightarrow> bool) \<Rightarrow> 'e desired_source \<Rightarrow> 'p selection
     \<Rightarrow> reconciliation_policy \<Rightarrow> nat \<Rightarrow> 'c \<Rightarrow> bool \<Rightarrow> 'e + sync_outcome" where
  "plan_dry_run wt verify matches_with wanted sel policy window client force =
     (case plan_into_sink wt verify dry_run_action dry_run_state_mutation matches_with wanted sel policy window client (dry_run_new force) of
        (_, Inl e) \<Rightarrow> Err e
      | (buffer, Inr _) \<Rightarrow> Ok (dr_outcome (mb_sink buffer)))"

end
