(* ===== verification/WorktreeCorrect.thy ===== *)
theory WorktreeCorrect
  imports WorktreeFs
begin

text \<open>
  What the operations on the working tree keep and achieve: the tree stays well formed, no call leaves it
  through a link, materializing is atomic, removing and pruning touch only what they name.
\<close>

section \<open>Reasoning about operations\<close>

definition post :: "('e, 'a) io \<Rightarrow> disk \<Rightarrow> ('e + 'a \<Rightarrow> disk \<Rightarrow> bool) \<Rightarrow> bool" where
  "post m d Q \<longleftrightarrow> (case m d of (r, d') \<Rightarrow> Q r d')"

lemma post_ok [simp]: "post (io_ok x) d Q \<longleftrightarrow> Q (Inr x) d"
  and post_err [simp]: "post (io_err e) d Q2 \<longleftrightarrow> Q2 (Inl e) d"
  and post_map_err [simp]: "post (io_map_err g m) d Q3 \<longleftrightarrow> post m d (\<lambda>r. Q3 (map_err g r))"
  and post_ignore [simp]: "post (io_ignore m) d Q4 \<longleftrightarrow> post m d (\<lambda>_. Q4 (Inr ()))"
  and post_match [simp]: "post (io_match m f) d Q5 \<longleftrightarrow> post m d (\<lambda>r d'. post (f r) d' Q5)"
  and post_bind: "post (io_bind m h) d Q6 \<longleftrightarrow> post m d (\<lambda>r d'. case r of Inl e \<Rightarrow> Q6 (Inl e) d' | Inr x \<Rightarrow> post (h x) d' Q6)"
  by (auto simp: post_def io_ok_def io_err_def io_map_err_def io_ignore_def io_match_def io_bind_def split: prod.splits sum.splits)

lemma post_weaken: "post m d P \<Longrightarrow> (\<And>r d'. P r d' \<Longrightarrow> Q r d') \<Longrightarrow> post m d Q"
  by (auto simp: post_def split: prod.splits)

lemma post_bindI:
  "post m d P \<Longrightarrow> (\<And>x d'. P (Inr x) d' \<Longrightarrow> post (f x) d' Q) \<Longrightarrow> (\<And>e d'. P (Inl e) d' \<Longrightarrow> Q (Inl e) d') \<Longrightarrow> post (io_bind m f) d Q"
  unfolding post_bind by (erule post_weaken) (auto split: sum.split)

lemma post_matchI: "post m d P \<Longrightarrow> (\<And>r d'. P r d' \<Longrightarrow> post (f r) d' Q) \<Longrightarrow> post (io_match m f) d Q"
  unfolding post_match by (rule post_weaken)

abbreviation at :: "disk \<Rightarrow> comps \<Rightarrow> node option" where
  "at d \<equiv> map_of (dk_tree d)"

text \<open>Everything but the root lies in a folder.\<close>

definition rooted :: "(comps \<Rightarrow> node option) \<Rightarrow> bool" where
  "rooted M \<longleftrightarrow> (\<forall>k n. M k = Some n \<longrightarrow> k \<noteq> [] \<longrightarrow> M (butlast k) = Some Folder)"

definition tree_ok :: "tree \<Rightarrow> bool" where
  "tree_ok t \<longleftrightarrow> distinct (map fst t) \<and> rooted (map_of t)"

abbreviation disk_ok :: "disk \<Rightarrow> bool" where
  "disk_ok d \<equiv> tree_ok (dk_tree d)"

text \<open>No link on the way to a path.\<close>

definition inside :: "disk \<Rightarrow> comps \<Rightarrow> bool" where
  "inside d cs \<longleftrightarrow> (\<forall>pre l. strict_prefix pre cs \<longrightarrow> at d pre \<noteq> Some (Link l))"

text \<open>Between two states only the paths in \<open>A\<close> changed, and no call left the tree.\<close>

definition only :: "comps set \<Rightarrow> disk \<Rightarrow> disk \<Rightarrow> bool" where
  "only A d d' \<longleftrightarrow> dk_escaped d' = dk_escaped d \<and> disk_ok d' \<and> (\<forall>k. k \<notin> A \<longrightarrow> at d' k = at d k)"

lemma only_refl: "disk_ok d \<Longrightarrow> only A d d"
  by (simp add: only_def)

lemma only_trans: "only A d d' \<Longrightarrow> only B d' d'' \<Longrightarrow> only (A \<union> B) d d''"
  by (simp add: only_def)

lemma only_mono: "only A d d' \<Longrightarrow> A \<subseteq> B \<Longrightarrow> only B d d'"
  by (auto simp: only_def)

lemma strict_prefix_snoc: "strict_prefix pre (cs @ [c]) \<longleftrightarrow> prefix pre cs"
  by (auto simp: strict_prefix_def dest: prefix_length_le)

lemma walk_Followed: "walk_to t pre cs = Followed \<Longrightarrow> \<exists>q l. prefix pre q \<and> strict_prefix q (pre @ cs) \<and> map_of t q = Some (Link l)"
proof (induction t pre cs rule: walk_to.induct)
  case (2 t pre c cs)
  show ?case
  proof (cases "map_of t pre = Some Folder")
    case True
    then obtain q l where "prefix (pre @ [c]) q" "strict_prefix q ((pre @ [c]) @ cs)" "map_of t q = Some (Link l)"
      using 2 by auto
    then show ?thesis using append_prefixD by (metis append.assoc append_Cons append_Nil)
  next
    case False
    then obtain l where "map_of t pre = Some (Link l)" using "2.prems" by (auto split: option.splits node.splits)
    then show ?thesis by (auto simp: strict_prefix_def)
  qed
qed simp

lemma walk_Reached: "walk_to t pre cs = Reached \<Longrightarrow> prefix pre q \<Longrightarrow> strict_prefix q (pre @ cs) \<Longrightarrow> map_of t q = Some Folder"
proof (induction t pre cs rule: walk_to.induct)
  case (1 t pre)
  then show ?case by (auto simp: strict_prefix_def dest: prefix_order.antisym)
next
  case (2 t pre c cs)
  have f: "map_of t pre = Some Folder" "walk_to t (pre @ [c]) cs = Reached"
    using "2.prems"(1) by (auto split: option.splits node.splits)
  show ?case
  proof (cases "q = pre")
    case False
    then have "prefix (pre @ [c]) q"
      using "2.prems"(2,3) by (auto simp: prefix_def strict_prefix_def append_eq_append_conv2 append_eq_Cons_conv Cons_eq_append_conv)
    then show ?thesis using 2 f by simp
  qed (use f in simp)
qed

lemma walk_blocked:
  assumes "walk_to t pre cs = Blocked e" "e = NotFound"
  shows "\<exists>q. prefix pre q \<and> strict_prefix q (pre @ cs) \<and> map_of t q = None"
  using assms
proof (induction t pre cs rule: walk_to.induct)
  case (2 t pre c cs)
  show ?case
  proof (cases "map_of t pre = Some Folder")
    case True
    then obtain q where "prefix (pre @ [c]) q" "strict_prefix q ((pre @ [c]) @ cs)" "map_of t q = None"
      using 2 by auto
    then show ?thesis using append_prefixD by (metis append.assoc append_Cons append_Nil)
  next
    case False
    then have "map_of t pre = None" using "2.prems" by (auto split: option.splits node.splits)
    then show ?thesis by (auto simp: strict_prefix_def)
  qed
qed simp

lemma tree_ok_prefix:
  assumes "tree_ok t" "map_of t k \<noteq> None" "strict_prefix q k"
  shows "map_of t q = Some Folder"
  using assms(2,3)
proof (induction k rule: rev_induct)
  case (snoc x xs)
  then have "map_of t xs = Some Folder" using assms(1) unfolding tree_ok_def rooted_def by (metis butlast_snoc not_None_eq snoc_eq_iff_butlast)
  then show ?case using snoc by (cases "q = xs") (auto simp: strict_prefix_snoc strict_prefix_def)
qed simp

lemma tree_ok_absent: "tree_ok t \<Longrightarrow> map_of t q = None \<Longrightarrow> prefix q k \<Longrightarrow> map_of t k = None"
  using tree_ok_prefix [of t k q] by (cases "k = q"; cases "map_of t k") (auto simp: strict_prefix_def)

lemma walk_to_present:
  assumes "\<And>q. prefix pre q \<Longrightarrow> strict_prefix q (pre @ cs) \<Longrightarrow> map_of t q = Some Folder"
  shows "walk_to t pre cs = Reached"
  using assms
proof (induction t pre cs rule: walk_to.induct)
  case (2 t pre c cs)
  have "map_of t pre = Some Folder" by (rule "2.prems") (auto simp: strict_prefix_def)
  moreover have "walk_to t (pre @ [c]) cs = Reached"
    by (rule "2.IH") (use "2.prems" append_prefixD calculation in \<open>force+\<close>)
  ultimately show ?case by simp
qed simp

text \<open>What a call may do on a path with no link on the way.\<close>

lemma syscall_post:
  assumes "inside d cs"
    and "\<And>d'. dk_tree d' = dk_tree d \<Longrightarrow> dk_escaped d' = dk_escaped d \<Longrightarrow> Q (Err OtherIo) d'"
    and "\<And>d' e. dk_tree d' = dk_tree d \<Longrightarrow> dk_escaped d' = dk_escaped d \<Longrightarrow> walk_to (dk_tree d) [] cs = Blocked e \<Longrightarrow> Q (Err e) d'"
    and "\<And>d' e. dk_tree d' = dk_tree d \<Longrightarrow> dk_escaped d' = dk_escaped d \<Longrightarrow> walk_to (dk_tree d) [] cs = Reached
        \<Longrightarrow> f (dk_tree d) = Err e \<Longrightarrow> Q (Err e) d'"
    and "\<And>d' x t. dk_tree d' = t \<Longrightarrow> dk_escaped d' = dk_escaped d \<Longrightarrow> walk_to (dk_tree d) [] cs = Reached
        \<Longrightarrow> f (dk_tree d) = Ok (x, t) \<Longrightarrow> Q (Ok x) d'"
  shows "post (syscall w cs f) d Q"
proof -
  have n: "walk_to (dk_tree d) [] cs \<noteq> Followed"
    using walk_Followed [of "dk_tree d" "[]" cs] assms(1) by (force simp: inside_def)
  show ?thesis
    unfolding post_def syscall_def Let_def
    using n assms(2-5) by (auto split: walk.split sum.split)
qed

lemma blocked_absent:
  assumes "tree_ok t" "walk_to t [] cs = Blocked NotFound"
  shows "map_of t cs = None"
proof -
  obtain q where q: "strict_prefix q cs" "map_of t q = None" using walk_blocked [OF assms(2)] by auto
  show ?thesis by (rule tree_ok_absent [OF assms(1) q(2)]) (use q(1) in \<open>simp add: strict_prefix_def\<close>)
qed

lemma present_inside:
  assumes "disk_ok d" "at d cs \<noteq> None"
  shows "inside d cs"
  unfolding inside_def using tree_ok_prefix [OF assms] by (metis node.distinct(3) option.inject)

lemma inside_prefix: "inside d cs \<Longrightarrow> prefix q cs \<Longrightarrow> inside d q"
  unfolding inside_def by (meson prefix_order.less_le_trans)

lemma inside_at: "inside d cs \<Longrightarrow> (\<And>pre. strict_prefix pre cs \<Longrightarrow> at d' pre = at d pre) \<Longrightarrow> inside d' cs"
  unfolding inside_def by simp

lemma butlast_strict: "k \<noteq> [] \<Longrightarrow> strict_prefix (butlast k) k"
  using strict_prefix_snoc [of "butlast k" "butlast k" "last k"] by simp

lemma rooted_update:
  assumes "rooted M" "M (butlast cs) = Some Folder" "cs \<noteq> []" "n = Folder \<or> M cs \<noteq> Some Folder"
  shows "rooted (M(cs \<mapsto> n))"
  unfolding rooted_def
proof (intro allI impI)
  fix k m
  assume m: "(M(cs \<mapsto> n)) k = Some m" and k: "k \<noteq> []"
  have "butlast cs \<noteq> cs" using butlast_strict [OF assms(3)] by auto
  then show "(M(cs \<mapsto> n)) (butlast k) = Some Folder"
    using assms m k by (cases "k = cs") (auto simp: rooted_def)
qed

lemma rooted_delete:
  assumes "rooted M" "\<And>k. strict_prefix cs k \<Longrightarrow> M k = None"
  shows "rooted (M(cs := None))"
  unfolding rooted_def
proof (intro allI impI)
  fix k m
  assume m: "(M(cs := None)) k = Some m" and k: "k \<noteq> []"
  have "butlast k \<noteq> cs" using assms(2) [of k] butlast_strict [OF k] m by (auto split: if_splits)
  then show "(M(cs := None)) (butlast k) = Some Folder"
    using assms(1) m k by (auto simp: rooted_def split: if_splits)
qed

lemma tree_ok_update:
  "tree_ok t \<Longrightarrow> map_of t (butlast cs) = Some Folder \<Longrightarrow> cs \<noteq> [] \<Longrightarrow> n = Folder \<or> map_of t cs \<noteq> Some Folder
     \<Longrightarrow> tree_ok (AList.update cs n t)"
  unfolding tree_ok_def update_conv' by (intro conjI distinct_update rooted_update) auto

lemma tree_ok_delete:
  "tree_ok t \<Longrightarrow> (\<And>k. strict_prefix cs k \<Longrightarrow> map_of t k = None) \<Longrightarrow> tree_ok (AList.delete cs t)"
  unfolding tree_ok_def delete_conv' by (intro conjI distinct_delete rooted_delete) auto

lemma file_no_below: "tree_ok t \<Longrightarrow> map_of t cs = Some n \<Longrightarrow> n \<noteq> Folder \<Longrightarrow> strict_prefix cs k \<Longrightarrow> map_of t k = None"
  using tree_ok_prefix [of t k cs] by (cases "map_of t k") auto

lemma below_iff: "distinct (map fst t) \<Longrightarrow> below cs t \<longleftrightarrow> (\<exists>k. strict_prefix cs k \<and> map_of t k \<noteq> None)"
  unfolding below_def map_of_eq_None_iff by force

section \<open>The calls\<close>

lemma onlyI: "dk_tree d' = dk_tree d \<Longrightarrow> dk_escaped d' = dk_escaped d \<Longrightarrow> disk_ok d \<Longrightarrow> only A d d'"
  by (simp add: only_def)

lemma only_at: "only {} d d' \<Longrightarrow> at d' = at d"
  by (auto simp: only_def)

lemma metadata_post:
  assumes "disk_ok d" "inside d cs"
  shows "post (symlink_metadata w cs) d (\<lambda>r d'. only {} d d' \<and> (case r of Inr n \<Rightarrow> at d cs = Some n | Inl e \<Rightarrow> e = NotFound \<longrightarrow> at d cs = None))"
  unfolding symlink_metadata_def
  by (rule syscall_post [OF assms(2)]) (use assms(1) blocked_absent in \<open>auto intro!: onlyI split: option.splits\<close>)

lemma remove_file_post:
  assumes "disk_ok d" "inside d cs"
  shows "post (remove_file w cs) d (\<lambda>r d'. only {cs} d d' \<and>
     (case r of Inr _ \<Rightarrow> at d' cs = None \<and> (\<exists>n. at d cs = Some n \<and> n \<noteq> Folder)
      | Inl e \<Rightarrow> at d' cs = at d cs \<and> (e = NotFound \<longrightarrow> at d cs = None)))"
  unfolding remove_file_def
proof (rule syscall_post [OF assms(2)])
  fix d' :: disk and x t
  assume t: "dk_tree d' = t" "dk_escaped d' = dk_escaped d" "walk_to (dk_tree d) [] cs = Reached"
    "(case at d cs of None \<Rightarrow> Err NotFound | Some Folder \<Rightarrow> Err IsADirectory | Some _ \<Rightarrow> Ok ((), AList.delete cs (dk_tree d))) = Ok (x, t)"
  then obtain n where n: "at d cs = Some n" "n \<noteq> Folder" "t = AList.delete cs (dk_tree d)"
    by (auto split: option.splits node.splits)
  have "tree_ok t" unfolding n(3) by (rule tree_ok_delete [OF assms(1)]) (rule file_no_below [OF assms(1) n(1,2)])
  then show "only {cs} d d' \<and> (case Ok x of Inr _ \<Rightarrow> at d' cs = None \<and> (\<exists>n. at d cs = Some n \<and> n \<noteq> Folder)
      | Inl e \<Rightarrow> at d' cs = at d cs \<and> (e = NotFound \<longrightarrow> at d cs = None))"
    using t n by (auto simp: only_def delete_conv')
qed (use assms(1) blocked_absent in \<open>auto intro!: onlyI split: option.splits node.splits\<close>)

lemma remove_dir_post:
  assumes "disk_ok d" "inside d cs"
  shows "post (remove_dir w cs) d (\<lambda>r d'. only {cs} d d' \<and>
     (case r of Inr _ \<Rightarrow> at d' cs = None \<and> at d cs = Some Folder \<and> (\<forall>k. strict_prefix cs k \<longrightarrow> at d k = None)
      | Inl e \<Rightarrow> at d' cs = at d cs))"
  unfolding remove_dir_def
proof (rule syscall_post [OF assms(2)])
  fix d' :: disk and x t
  assume t: "dk_tree d' = t" "dk_escaped d' = dk_escaped d" "walk_to (dk_tree d) [] cs = Reached"
    "(case at d cs of None \<Rightarrow> Err NotFound
       | Some Folder \<Rightarrow> if below cs (dk_tree d) then Err DirectoryNotEmpty else Ok ((), AList.delete cs (dk_tree d))
       | Some _ \<Rightarrow> Err NotADirectory) = Ok (x, t)"
  then have n: "at d cs = Some Folder" "\<not> below cs (dk_tree d)" "t = AList.delete cs (dk_tree d)"
    by (auto split: option.splits node.splits if_splits)
  have e: "\<forall>k. strict_prefix cs k \<longrightarrow> at d k = None" using n(2) below_iff [of "dk_tree d" cs] assms(1) unfolding tree_ok_def by blast
  have "tree_ok t" unfolding n(3) by (rule tree_ok_delete [OF assms(1)]) (use e in blast)
  then show "only {cs} d d' \<and> (case Ok x of Inr _ \<Rightarrow> at d' cs = None \<and> at d cs = Some Folder \<and> (\<forall>k. strict_prefix cs k \<longrightarrow> at d k = None)
      | Inl e \<Rightarrow> at d' cs = at d cs)"
    using t n e by (auto simp: only_def delete_conv')
qed (use assms(1) in \<open>auto intro!: onlyI\<close>)

lemma map_of_filter_prefix: "map_of (filter (\<lambda>(k, _). \<not> prefix cs k) t) k = (if prefix cs k then None else map_of t k)"
  by (induction t) auto

lemma remove_dir_all_post:
  assumes "disk_ok d" "inside d cs"
  shows "post (remove_dir_all w cs) d (\<lambda>r d'. only {k. prefix cs k} d d')"
  unfolding remove_dir_all_def
proof (rule syscall_post [OF assms(2)])
  fix d' :: disk and x t
  assume t: "dk_tree d' = t" "dk_escaped d' = dk_escaped d" "walk_to (dk_tree d) [] cs = Reached"
    "(case at d cs of None \<Rightarrow> Err NotFound
       | Some Folder \<Rightarrow> Ok ((), filter (\<lambda>(k, _). \<not> prefix cs k) (dk_tree d)) | Some _ \<Rightarrow> Err NotADirectory) = Ok (x, t)"
  then have n: "t = filter (\<lambda>(k, _). \<not> prefix cs k) (dk_tree d)" by (auto split: option.splits node.splits)
  have "rooted (\<lambda>k. if prefix cs k then None else at d k)"
    unfolding rooted_def
  proof (intro allI impI)
    fix k n assume k: "(if prefix cs k then None else at d k) = Some n" "k \<noteq> []"
    then have "\<not> prefix cs (butlast k)" using butlast_strict by (auto split: if_splits simp: strict_prefix_def dest: prefix_order.trans)
    then show "(if prefix cs (butlast k) then None else at d (butlast k)) = Some Folder"
      using assms(1) k by (auto simp: tree_ok_def rooted_def split: if_splits)
  qed
  moreover have "map_of t = (\<lambda>k. if prefix cs k then None else at d k)" by (simp add: n fun_eq_iff map_of_filter_prefix)
  ultimately have "tree_ok t" using assms(1) by (auto simp: tree_ok_def n intro: distinct_map_filter)
  then show "only {k. prefix cs k} d d'" using t by (simp add: only_def n map_of_filter_prefix)
qed (use assms(1) in \<open>auto intro!: onlyI\<close>)

lemma create_temp_post:
  assumes "disk_ok d" "inside d (parent @ [w_temp w (dk_calls d)])"
  shows "post (create_temp n w parent) d (\<lambda>r d'. case r of
      Inr cs \<Rightarrow> cs = parent @ [w_temp w (dk_calls d)] \<and> at d cs = None \<and> at d' = (at d)(cs \<mapsto> n) \<and> only {cs} d d'
        \<and> at d parent = Some Folder
    | Inl e \<Rightarrow> only {} d d')"
proof -
  let ?cs = "parent @ [w_temp w (dk_calls d)]"
  have "post (syscall w ?cs (\<lambda>t. if map_of t ?cs \<noteq> None then Err AlreadyExists else Ok (?cs, AList.update ?cs n t))) d
     (\<lambda>r d'. case r of
      Inr cs \<Rightarrow> cs = ?cs \<and> at d cs = None \<and> at d' = (at d)(cs \<mapsto> n) \<and> only {cs} d d' \<and> at d parent = Some Folder
    | Inl e \<Rightarrow> only {} d d')"
  proof (rule syscall_post [OF assms(2)])
    fix d' :: disk and x t
    assume t: "dk_tree d' = t" "dk_escaped d' = dk_escaped d" "walk_to (dk_tree d) [] ?cs = Reached"
      "(if at d ?cs \<noteq> None then Err AlreadyExists else Ok (?cs, AList.update ?cs n (dk_tree d))) = Ok (x, t)"
    then have n: "at d ?cs = None" "x = ?cs" "t = AList.update ?cs n (dk_tree d)" by (auto split: if_splits)
    have p: "at d parent = Some Folder" using walk_Reached [OF t(3), of parent] by (simp add: strict_prefix_snoc)
    have "tree_ok t" unfolding n(3) by (rule tree_ok_update [OF assms(1)]) (use p n in auto)
    then show "case Ok x of
      Inr cs \<Rightarrow> cs = ?cs \<and> at d cs = None \<and> at d' = (at d)(cs \<mapsto> n) \<and> only {cs} d d' \<and> at d parent = Some Folder
    | Inl e \<Rightarrow> only {} d d'"
      using t n p by (auto simp: only_def update_conv')
  qed (use assms(1) in \<open>auto intro!: onlyI\<close>)
  then show ?thesis by (simp add: post_def create_temp_def Let_def)
qed

text \<open>Replacing a file, a link or nothing by a file that lies elsewhere.\<close>

lemma distinct_relocate:
  assumes "distinct (map fst t)" "\<not> prefix s g" "\<And>k. strict_prefix g k \<Longrightarrow> k \<notin> fst ` set t"
  shows "distinct (map fst (relocate s g t))"
proof -
  let ?f = "\<lambda>k. if prefix s k then g @ drop (length s) k else k"
  have k: "map fst (relocate s g t) = map ?f (map fst (AList.delete g t))"
    by (simp add: relocate_def case_prod_unfold)
  have "inj_on ?f (set (map fst (AList.delete g t)))"
  proof (rule inj_onI)
    fix x y
    assume x: "x \<in> set (map fst (AList.delete g t))" and y: "y \<in> set (map fst (AList.delete g t))" and e: "?f x = ?f y"
    have out: "\<not> prefix g z" if "z \<in> set (map fst (AList.delete g t))" for z
    proof
      assume "prefix g z"
      moreover have "z \<noteq> g" "z \<in> fst ` set t" using that by (auto simp: AList.delete_eq)
      ultimately show False using assms(3) by (auto simp: strict_prefix_def)
    qed
    show "x = y"
    proof (cases "prefix s x"; cases "prefix s y")
      assume "prefix s x" "prefix s y"
      then show ?thesis using e by (auto simp: prefix_def)
    next
      assume "prefix s x" "\<not> prefix s y"
      then show ?thesis using e out [OF y] by auto
    next
      assume "\<not> prefix s x" "prefix s y"
      then show ?thesis using e out [OF x] by (metis prefixI)
    qed (use e in auto)
  qed
  then show ?thesis unfolding k using distinct_delete [OF assms(1)] by (subst distinct_map) blast
qed

lemma map_of_relocate:
  assumes "distinct (map fst t)" "\<not> prefix s g" "\<And>k. strict_prefix g k \<Longrightarrow> k \<notin> fst ` set t"
  shows "map_of (relocate s g t) k =
    (if prefix g k then map_of t (s @ drop (length g) k) else if prefix s k then None else map_of t k)"
proof -
  let ?f = "\<lambda>k. if prefix s k then g @ drop (length s) k else k"
  have d: "distinct (map fst (relocate s g t))" by (rule distinct_relocate [OF assms])
  have mem: "(k, n) \<in> set (relocate s g t) \<longleftrightarrow> (\<exists>k'. (k', n) \<in> set t \<and> k' \<noteq> g \<and> k = ?f k')" for n
    by (force simp: relocate_def AList.delete_eq)
  have mo: "map_of u j = Some n \<longleftrightarrow> (j, n) \<in> set u" if "distinct (map fst u)" for u :: tree and j n
    using that by simp
  have "map_of (relocate s g t) k = Some n \<longleftrightarrow>
      (if prefix g k then map_of t (s @ drop (length g) k) else if prefix s k then None else map_of t k) = Some n" for n
  proof -
    have no: "(k', n) \<in> set t \<Longrightarrow> \<not> strict_prefix g k'" for k' using assms(3) by force
    show ?thesis
    proof (cases "prefix g k")
      case True
      then obtain z where z: "k = g @ z" by (auto simp: prefix_def)
      have "(\<exists>k'. (k', n) \<in> set t \<and> k' \<noteq> g \<and> k = ?f k') \<longleftrightarrow> (s @ z, n) \<in> set t"
      proof
        assume "\<exists>k'. (k', n) \<in> set t \<and> k' \<noteq> g \<and> k = ?f k'"
        then obtain k' where k': "(k', n) \<in> set t" "k' \<noteq> g" "k = ?f k'" by blast
        then have "prefix s k'" using no [OF k'(1)] True by (auto simp: strict_prefix_def split: if_splits)
        then show "(s @ z, n) \<in> set t" using k' z by (auto simp: prefix_def)
      next
        assume "(s @ z, n) \<in> set t"
        moreover have "s @ z \<noteq> g" using assms(2) by auto
        ultimately show "\<exists>k'. (k', n) \<in> set t \<and> k' \<noteq> g \<and> k = ?f k'" using z by (intro exI [of _ "s @ z"]) auto
      qed
      then show ?thesis using True z mo [OF assms(1)] mo [OF d] mem by simp
    next
      case False
      have "(\<exists>k'. (k', n) \<in> set t \<and> k' \<noteq> g \<and> k = ?f k') \<longleftrightarrow> (k, n) \<in> set t \<and> \<not> prefix s k"
        using False by (auto split: if_splits) (metis prefixI)
      then show ?thesis using False mo [OF assms(1)] mo [OF d] mem by simp
    qed
  qed
  then show ?thesis by (metis option.exhaust)
qed

lemma rename_post:
  assumes "disk_ok d" "inside d s" "inside d g" "at d s = Some n" "n \<noteq> Folder"
  shows "post (rename w s g) d (\<lambda>r d'. case r of
      Inr _ \<Rightarrow> at d' = (if s = g then at d else (at d)(s := None, g \<mapsto> n)) \<and> only {s, g} d d' \<and> at d g \<noteq> Some Folder
    | Inl e \<Rightarrow> only {} d d')"
proof -
  have reach: "walk_to (dk_tree d) [] s = Reached"
    by (rule walk_to_present) (use tree_ok_prefix [OF assms(1)] assms(4) in auto)
  have "post (syscall w g (rename_in s g)) d (\<lambda>r d'. case r of
      Inr _ \<Rightarrow> at d' = (if s = g then at d else (at d)(s := None, g \<mapsto> n)) \<and> only {s, g} d d' \<and> at d g \<noteq> Some Folder
    | Inl e \<Rightarrow> only {} d d')"
  proof (rule syscall_post [OF assms(3)])
    fix d' :: disk and x t
    assume t: "dk_tree d' = t" "dk_escaped d' = dk_escaped d" "walk_to (dk_tree d) [] g = Reached"
      "rename_in s g (dk_tree d) = Ok (x, t)"
    show "case Ok x of
      Inr _ \<Rightarrow> at d' = (if s = g then at d else (at d)(s := None, g \<mapsto> n)) \<and> only {s, g} d d' \<and> at d g \<noteq> Some Folder
    | Inl e \<Rightarrow> only {} d d'"
    proof (cases "s = g")
      case True
      then have "t = dk_tree d" using t(4) assms(4) by (simp add: rename_in_def)
      then show ?thesis using True t assms by (simp add: onlyI)
    next
      case False
      then have g: "\<not> prefix s g" "at d g \<noteq> Some Folder" "t = relocate s g (dk_tree d)"
        using t(4) assms(4,5) by (auto simp: rename_in_def split: if_splits option.splits)
      have d: "distinct (map fst (dk_tree d))" using assms(1) by (simp add: tree_ok_def)
      have gb: "k \<notin> fst ` set (dk_tree d)" if "strict_prefix g k" for k
        using tree_ok_prefix [OF assms(1), of k g] that g(2) by (auto simp: map_of_eq_None_iff)
      have sb: "at d k = None" if "strict_prefix s k" for k
        by (rule file_no_below [OF assms(1,4,5) that])
      have relocated: "map_of (relocate s g (dk_tree d)) k =
          (if prefix g k then at d (s @ drop (length g) k) else if prefix s k then None else at d k)" for k
        by (rule map_of_relocate) (use d g(1) gb in auto)
      have dr: "distinct (map fst t)" unfolding g(3) by (rule distinct_relocate) (use d g(1) gb in auto)
      have eq: "map_of t = (at d)(s := None, g \<mapsto> n)"
      proof
        fix k
        have gk: "strict_prefix g k \<Longrightarrow> at d (s @ drop (length g) k) = None"
          by (rule sb) (auto simp: strict_prefix_def prefix_def)
        have gk': "strict_prefix g k \<Longrightarrow> at d k = None" using gb by (simp add: map_of_eq_None_iff)
        show "map_of t k = ((at d)(s := None, g \<mapsto> n)) k"
          unfolding g(3) relocated
          using gk gk' sb [of k] assms(4) False by (cases "k = g"; cases "k = s") (auto simp: strict_prefix_def)
      qed
      have p: "g \<noteq> [] \<Longrightarrow> at d (butlast g) = Some Folder"
        using walk_Reached [OF t(3), of "butlast g"] butlast_strict [of g] by simp
      have "s \<noteq> []" using g(1) by auto
      then have "at d [] = Some Folder" using tree_ok_prefix [OF assms(1), of s "[]"] assms(4) by (simp add: strict_prefix_def)
      then have "g \<noteq> []" using g(2) by auto
      have "rooted ((at d)(s := None))"
        by (rule rooted_delete) (use assms(1) sb in \<open>auto simp: tree_ok_def\<close>)
      then have "rooted ((at d)(s := None, g \<mapsto> n))"
        using p g(2) False assms(4,5) \<open>g \<noteq> []\<close> by (intro rooted_update) auto
      then have "tree_ok t" using dr by (simp only: tree_ok_def eq simp_thms)
      then show ?thesis using t eq False g(2) by (simp add: only_def)
    qed
  qed (use assms(1) in \<open>auto intro!: onlyI\<close>)
  then show ?thesis by (simp add: post_def rename_def reach)
qed

section \<open>Confinement and folders\<close>

lemma only_inside: "only A d d' \<Longrightarrow> inside d cs \<Longrightarrow> (\<And>pre. strict_prefix pre cs \<Longrightarrow> pre \<notin> A) \<Longrightarrow> inside d' cs"
  by (rule inside_at) (auto simp: only_def)

lemma ancestor_check_post:
  assumes "disk_ok d" "\<forall>q l. strict_prefix q pre \<longrightarrow> at d q \<noteq> Some (Link l)"
  shows "post (ancestor_symlink_check w pre cs) d (\<lambda>r d'. only {} d d' \<and>
     (r = Ok () \<longrightarrow> (\<forall>q l. strict_prefix q (pre @ cs) \<longrightarrow> at d q \<noteq> Some (Link l))))"
  using assms
proof (induction cs arbitrary: pre d)
  case Nil
  then show ?case by (simp add: only_refl)
next
  case (Cons c cs)
  have i: "inside d pre" using Cons.prems(2) by (simp add: inside_def)
  have onward: "post (ancestor_symlink_check w (pre @ [c]) cs) d' (\<lambda>r d''. only {} d d'' \<and>
     (r = Ok () \<longrightarrow> (\<forall>q l. strict_prefix q (pre @ c # cs) \<longrightarrow> at d q \<noteq> Some (Link l))))"
    if d': "only {} d d'" and nl: "\<forall>l. at d pre \<noteq> Some (Link l)" for d'
  proof -
    have same: "at d' = at d" "disk_ok d'" using only_at [OF d'] d' by (simp_all add: only_def)
    have "\<forall>q l. strict_prefix q (pre @ [c]) \<longrightarrow> at d' q \<noteq> Some (Link l)"
      using Cons.prems(2) nl unfolding strict_prefix_snoc same(1) by (auto simp: strict_prefix_def)
    from Cons.IH [OF same(2) this] show ?thesis
      by (rule post_weaken) (use d' in \<open>auto simp: same(1) only_def\<close>)
  qed
  show ?case
    unfolding ancestor_symlink_check.simps post_match
    by (rule post_weaken [OF metadata_post [OF Cons.prems(1) i]])
      (use onward in \<open>auto split: sum.splits node.splits\<close>)
qed

lemma confine_post:
  assumes "disk_ok d"
  shows "post (confine_mutation w path) d (\<lambda>r d'. only {} d d' \<and>
     (\<forall>dest. r = Ok dest \<longrightarrow> dest = resolve_worktree_path path \<and> inside d' dest))"
  unfolding confine_mutation_def Let_def
proof (rule post_bindI [OF ancestor_check_post [OF assms]])
  show "\<forall>q l. strict_prefix q [] \<longrightarrow> at d q \<noteq> Some (Link l)" by simp
qed (auto simp: inside_def dest: only_at)

text \<open>Folders come into being where nothing was.\<close>

definition grown :: "comps \<Rightarrow> disk \<Rightarrow> disk \<Rightarrow> bool" where
  "grown cs d d' \<longleftrightarrow> only {k. prefix k cs} d d' \<and> (\<forall>k. at d' k = at d k \<or> (at d k = None \<and> at d' k = Some Folder))"

lemma grown_refl: "disk_ok d \<Longrightarrow> grown cs d d"
  by (simp add: grown_def only_refl)

lemma grown_trans: "grown cs d d' \<Longrightarrow> grown cs d' d'' \<Longrightarrow> grown cs d d''"
  unfolding grown_def only_def by (metis)

lemma grown_inside: "grown cs d d' \<Longrightarrow> inside d k \<Longrightarrow> inside d' k"
  unfolding grown_def inside_def by (metis node.distinct(3) option.inject)

lemma create_dirs_post:
  assumes "disk_ok d" "inside d (pre @ cs)" "\<forall>l. at d (pre @ cs) \<noteq> Some (Link l)"
  shows "post (create_dirs w pre cs) d (\<lambda>r d'. grown (pre @ cs) d d')"
  using assms
proof (induction cs arbitrary: pre d)
  case Nil
  then show ?case by (simp add: grown_refl)
next
  case (Cons c cs)
  let ?k = "pre @ [c]"
  let ?f = "\<lambda>t. case map_of t ?k of None \<Rightarrow> Ok ((), AList.update ?k Folder t) | Some Folder \<Rightarrow> Ok ((), t) | Some _ \<Rightarrow> Err AlreadyExists"
  have "prefix ?k (pre @ c # cs)" by (simp add: prefix_def)
  have nl: "at d ?k \<noteq> Some (Link l)" for l
    using Cons.prems(2,3) by (cases "cs = []") (auto simp: inside_def strict_prefix_def prefix_def)
  have i: "inside d ?k" by (rule inside_prefix [OF Cons.prems(2)]) (simp add: prefix_def)
  have mk: "post (syscall w ?k ?f) d (\<lambda>r d'. grown (pre @ c # cs) d d')"
  proof (rule syscall_post [OF i])
    fix d' :: disk and x t
    assume t: "dk_tree d' = t" "dk_escaped d' = dk_escaped d" "walk_to (dk_tree d) [] ?k = Reached" "?f (dk_tree d) = Ok (x, t)"
    show "grown (pre @ c # cs) d d'"
    proof (cases "at d ?k")
      case None
      then have n: "t = AList.update ?k Folder (dk_tree d)" using t(4) by simp
      have "at d pre = Some Folder" using walk_Reached [OF t(3), of pre] by (simp add: strict_prefix_snoc)
      then have "tree_ok t" unfolding n by (intro tree_ok_update [OF Cons.prems(1)]) auto
      then show ?thesis using t None \<open>prefix ?k _\<close> by (auto simp: grown_def only_def n update_conv')
    next
      case (Some n)
      then show ?thesis using t Cons.prems(1) by (auto simp: grown_def only_def split: node.splits)
    qed
  qed (use Cons.prems(1) in \<open>auto simp: grown_def onlyI\<close>)
  have one: "post (\<lambda>d. case at d ?k of Some (Link _) \<Rightarrow> (Err OtherIo, d\<lparr>dk_escaped := True\<rparr>) | _ \<Rightarrow> syscall w ?k ?f d) d
      (\<lambda>r d'. grown (pre @ c # cs) d d')"
    using mk nl unfolding post_def by (auto split: option.split node.split)
  show ?case
    unfolding create_dirs.simps
  proof (rule post_bindI [OF one])
    fix x d'
    assume g: "grown (pre @ c # cs) d d'"
    have "\<forall>l. at d' (pre @ c # cs) \<noteq> Some (Link l)"
      using g Cons.prems(3) unfolding grown_def by (metis node.distinct(3) option.inject)
    then have "post (create_dirs w ?k cs) d' (\<lambda>r d''. grown (?k @ cs) d' d'')"
      by (intro Cons.IH) (use g grown_inside [OF g Cons.prems(2)] in \<open>auto simp: grown_def only_def\<close>)
    then show "post (create_dirs w ?k cs) d' (\<lambda>r d''. grown (pre @ c # cs) d d'')"
      by (rule post_weaken) (use grown_trans [OF g] in simp)
  qed
qed

section \<open>Materializing\<close>

definition represents :: "world \<Rightarrow> oid \<Rightarrow> node \<Rightarrow> bool" where
  "represents w oid n \<longleftrightarrow> n = Link (ToObject oid) \<or> (\<exists>data. w_object w oid = Some data \<and> n = Regular data)"

lemma represents_file: "represents w oid n \<Longrightarrow> n \<noteq> Folder"
  by (auto simp: represents_def)

text \<open>A call that at most puts a file or link at \<open>dest\<close>.\<close>

lemma put_post:
  assumes d: "disk_ok d" "inside d dest" "dest \<noteq> []" "at d dest \<noteq> Some Folder"
    and f: "\<And>x t. f (dk_tree d) = Ok (x, t) \<Longrightarrow> \<exists>n. t = AList.update dest n (dk_tree d) \<and> n \<noteq> Folder \<and> P n"
  shows "post (syscall w dest f) d (\<lambda>r d'. only {dest} d d' \<and> at d' dest \<noteq> Some Folder
     \<and> (\<forall>x. r = Ok x \<longrightarrow> (\<exists>n. at d' dest = Some n \<and> P n)))"
proof (rule syscall_post [OF d(2)])
  fix d' :: disk and x t
  assume t: "dk_tree d' = t" "dk_escaped d' = dk_escaped d" "walk_to (dk_tree d) [] dest = Reached" "f (dk_tree d) = Ok (x, t)"
  obtain n where n: "t = AList.update dest n (dk_tree d)" "n \<noteq> Folder" "P n" using f [OF t(4)] by blast
  have "at d (butlast dest) = Some Folder"
    using walk_Reached [OF t(3), of "butlast dest"] butlast_strict [OF d(3)] by simp
  then have "tree_ok t" unfolding n(1) using d by (intro tree_ok_update) auto
  then show "only {dest} d d' \<and> at d' dest \<noteq> Some Folder \<and> (\<forall>y. Ok x = Ok y \<longrightarrow> (\<exists>n. at d' dest = Some n \<and> P n))"
    using t n by (auto simp: only_def update_conv')
qed (use d in \<open>auto intro!: onlyI\<close>)

lemma write_file_post:
  assumes d: "disk_ok d" "inside d dest" "dest \<noteq> []" "at d dest \<noteq> Some Folder"
  shows "post (write_file w dest b oid) d (\<lambda>r d'. only {dest} d d' \<and> at d' dest \<noteq> Some Folder
     \<and> (r = Ok () \<longrightarrow> (\<exists>n. at d' dest = Some n \<and> represents w oid n)))"
proof -
  let ?put = "\<lambda>data t. case map_of t dest of
              None \<Rightarrow> Ok ((), AList.update dest (Regular data) t)
            | Some (Regular _) \<Rightarrow> if b then Err AlreadyExists else Ok ((), AList.update dest (Regular data) t)
            | Some _ \<Rightarrow> Err AlreadyExists"
  have put: "post (syscall w dest (?put data)) d (\<lambda>r d'. only {dest} d d' \<and> at d' dest \<noteq> Some Folder
     \<and> (\<forall>x. r = Ok x \<longrightarrow> (\<exists>n. at d' dest = Some n \<and> n = Regular data)))" for data
    by (rule put_post [OF d]) (auto split: option.splits node.splits if_splits)
  have fail: "post (syscall w dest (\<lambda>t. Err NotFound)) d (\<lambda>r d'. only {dest} d d' \<and> at d' dest \<noteq> Some Folder
     \<and> (\<forall>x. r = Ok x \<longrightarrow> (\<exists>n. at d' dest = Some n \<and> False)))"
    by (rule put_post [OF d]) auto
  show ?thesis
  proof (cases "w_object w oid")
    case None
    then have eq: "write_file w dest b oid d = syscall w dest (\<lambda>t. Err NotFound) d" by (simp add: write_file_def)
    have "post (syscall w dest (\<lambda>t. Err NotFound)) d (\<lambda>r d'. only {dest} d d' \<and> at d' dest \<noteq> Some Folder
        \<and> (r = Ok () \<longrightarrow> (\<exists>n. at d' dest = Some n \<and> represents w oid n)))"
      by (rule post_weaken [OF fail]) auto
    then show ?thesis by (simp add: post_def eq)
  next
    case (Some data)
    show ?thesis
    proof (cases "w_partial w (dk_calls d)")
      case None
      then show ?thesis
        using put [of data] Some unfolding post_def write_file_def by (auto simp: represents_def)
    next
      case (Some part)
      have "post (io_bind (syscall w dest (?put part)) (\<lambda>_. io_err OtherIo)) d (\<lambda>r d'. only {dest} d d' \<and> at d' dest \<noteq> Some Folder
          \<and> (r = Ok () \<longrightarrow> (\<exists>n. at d' dest = Some n \<and> represents w oid n)))"
        by (rule post_bindI [OF put]) auto
      then show ?thesis using Some \<open>w_object w oid = Some data\<close> by (simp add: write_file_def post_def)
    qed
  qed
qed

lemma materialize_one_post:
  assumes d: "disk_ok d" "inside d dest" "dest \<noteq> []" "at d dest \<noteq> Some Folder"
  shows "post (materialize_one w oid dest mode) d (\<lambda>r d'. only {dest} d d' \<and> at d' dest \<noteq> Some Folder
     \<and> (r = Ok () \<longrightarrow> (\<exists>n. at d' dest = Some n \<and> represents w oid n)))"
proof -
  let ?Q = "\<lambda>r d'. only {dest} d d' \<and> at d' dest \<noteq> Some Folder \<and> (r = Ok () \<longrightarrow> (\<exists>n. at d' dest = Some n \<and> represents w oid n))"
  have copy: "post (io_bind (write_file w dest b oid) (\<lambda>_. unprotect w dest)) d ?Q" for b
  proof (rule post_bindI [OF write_file_post [OF d]])
    fix x :: unit and d'
    assume w: "?Q (Ok x) d'"
    have "inside d' dest" by (rule only_inside [OF conjunct1 [OF w] d(2)]) auto
    moreover have "disk_ok d'" using w by (simp add: only_def)
    ultimately have "post (symlink_metadata w dest) d' (\<lambda>r d''. only {} d' d'')"
      by - (rule post_weaken [OF metadata_post]; simp)
    then have "post (unprotect w dest) d' (\<lambda>r d''. only {} d' d'')"
      unfolding unprotect_def by (rule post_bindI) auto
    then show "post (unprotect w dest) d' ?Q"
      by (rule post_weaken) (use w in \<open>auto dest: only_at only_trans simp: only_def\<close>)
  qed auto
  show ?thesis
  proof (cases mode)
    case Hardlink
    have "post (materialize_one w oid dest Hardlink) d (\<lambda>r d'. only {dest} d d' \<and> at d' dest \<noteq> Some Folder
        \<and> (\<forall>x. r = Ok x \<longrightarrow> (\<exists>n. at d' dest = Some n \<and> represents w oid n)))"
      unfolding materialize_one.simps
      by (rule put_post [OF d]) (auto simp: represents_def split: option.splits prod.splits)
    then show ?thesis unfolding Hardlink by (rule post_weaken) auto
  next
    case Symlink
    have "post (materialize_one w oid dest Symlink) d (\<lambda>r d'. only {dest} d d' \<and> at d' dest \<noteq> Some Folder
        \<and> (\<forall>x. r = Ok x \<longrightarrow> (\<exists>n. at d' dest = Some n \<and> represents w oid n)))"
      unfolding materialize_one.simps
      by (rule put_post [OF d]) (auto simp: represents_def split: option.splits)
    then show ?thesis unfolding Symlink by (rule post_weaken) auto
  qed (use copy in simp_all)
qed

lemma remove_here_post:
  assumes d: "disk_ok d" "inside d dest" "at d dest \<noteq> Some Folder"
  shows "post (remove_file w dest) d (\<lambda>r d'. only {dest} d d' \<and> at d' dest \<noteq> Some Folder)"
  by (rule post_weaken [OF remove_file_post [OF d(1,2)]]) (use d(3) in \<open>auto split: sum.splits\<close>)

lemma materialize_modes_post:
  assumes d: "disk_ok d" "inside d dest" "dest \<noteq> []" "at d dest \<noteq> Some Folder"
  shows "post (materialize_modes w oid dest ms) d (\<lambda>r d'. only {dest} d d' \<and> at d' dest \<noteq> Some Folder
     \<and> (r = Ok () \<longrightarrow> (\<exists>n. at d' dest = Some n \<and> represents w oid n)))"
  using d
proof (induction ms arbitrary: d)
  case Nil
  then show ?case by (simp add: only_refl)
next
  case (Cons mode ms)
  let ?Q = "\<lambda>d r d'. only {dest} d d' \<and> at d' dest \<noteq> Some Folder \<and> (r = Ok () \<longrightarrow> (\<exists>n. at d' dest = Some n \<and> represents w oid n))"
  show ?case
    unfolding materialize_modes.simps
  proof (rule post_matchI [OF materialize_one_post [OF Cons.prems]])
    fix r :: "io_error + unit" and d'
    assume one: "?Q d r d'"
    have k: "disk_ok d'" "inside d' dest"
      using one only_inside [OF conjunct1 [OF one] Cons.prems(2)] by (auto simp: only_def strict_prefix_def)
    show "post (case r of Inl _ \<Rightarrow> io_bind (io_ignore (remove_file w dest)) (\<lambda>_. materialize_modes w oid dest ms) | Inr _ \<Rightarrow> io_ok ()) d' (?Q d)"
    proof (cases r)
      case (Inl e)
      have "post (io_ignore (remove_file w dest)) d' (\<lambda>r d''. only {dest} d' d'' \<and> at d'' dest \<noteq> Some Folder)"
        using remove_here_post [OF k] one by simp
      then have "post (io_bind (io_ignore (remove_file w dest)) (\<lambda>_. materialize_modes w oid dest ms)) d' (?Q d)"
      proof (rule post_bindI)
        fix x :: unit and d''
        assume rm: "only {dest} d' d'' \<and> at d'' dest \<noteq> Some Folder"
        have "disk_ok d''" "inside d'' dest"
          using rm only_inside [OF conjunct1 [OF rm] k(2)] by (auto simp: only_def strict_prefix_def)
        then have "post (materialize_modes w oid dest ms) d'' (?Q d'')" using Cons.IH Cons.prems(3) rm by blast
        then show "post (materialize_modes w oid dest ms) d'' (?Q d)"
          by (rule post_weaken) (use rm one in \<open>auto simp: only_def\<close>)
      qed (use one in \<open>auto simp: only_def\<close>)
      then show ?thesis using Inl by simp
    qed (use one in simp)
  qed
qed

text \<open>Where a staged file and its private folder may leave traces.\<close>

definition staging_area :: "comps \<Rightarrow> comps option \<Rightarrow> comps set" where
  "staging_area staged staging = (case staging of None \<Rightarrow> {staged} | Some dir \<Rightarrow> {k. prefix dir k})"

definition staged_in :: "disk \<Rightarrow> comps \<Rightarrow> comps option \<Rightarrow> bool" where
  "staged_in d staged staging \<longleftrightarrow> disk_ok d \<and> inside d staged \<and> staged \<noteq> [] \<and> at d staged \<noteq> Some Folder
     \<and> staged \<in> staging_area staged staging \<and> (\<forall>dir. staging = Some dir \<longrightarrow> prefix dir staged)"

lemma drop_staging_post:
  assumes s: "staged_in d staged staging"
  shows "post (drop_staging w staged staging) d (\<lambda>r d'. only (staging_area staged staging) d d')"
proof -
  have sub: "{staged} \<subseteq> staging_area staged staging" using s by (simp add: staged_in_def)
  show ?thesis
  unfolding drop_staging_def
proof (rule post_bindI [where P = "\<lambda>_ d'. only {staged} d d' \<and> at d' staged \<noteq> Some Folder"])
  show "post (io_ignore (remove_file w staged)) d (\<lambda>_ d'. only {staged} d d' \<and> at d' staged \<noteq> Some Folder)"
    using s remove_here_post by (simp add: staged_in_def)
  fix d' assume o: "only {staged} d d' \<and> at d' staged \<noteq> Some Folder"
  show "post (case staging of None \<Rightarrow> io_ok () | Some dir \<Rightarrow> io_ignore (remove_dir_all w dir)) d' (\<lambda>r d'. only (staging_area staged staging) d d')"
  proof (cases staging)
    case None
    then show ?thesis using only_mono [OF conjunct1 [OF o] sub] by simp
  next
    case (Some dir)
    have "prefix dir staged" using s Some by (simp add: staged_in_def)
    moreover have "inside d' staged" by (rule only_inside [OF conjunct1 [OF o]]) (use s in \<open>auto simp: staged_in_def\<close>)
    ultimately have "inside d' dir" using inside_prefix by blast
    moreover have "disk_ok d'" using o by (simp add: only_def)
    ultimately have "post (remove_dir_all w dir) d' (\<lambda>r d''. only {k. prefix dir k} d' d'')"
      by - (rule remove_dir_all_post)
    then have "post (remove_dir_all w dir) d' (\<lambda>r d''. only (staging_area staged staging) d d'')"
      by (rule post_weaken) (use only_trans [OF conjunct1 [OF o]] sub Some in \<open>auto simp: staging_area_def intro: only_mono\<close>)
    then show ?thesis using Some by simp
  qed
qed (use only_mono [OF _ sub] in blast)
qed

lemma or_drop_post:
  assumes m: "post m d (\<lambda>r d'. case r of
      Inl e \<Rightarrow> staged_in d' staged staging \<and> only (staging_area staged staging) d d'
    | Inr x \<Rightarrow> Q x d')"
  shows "post (or_drop w staged staging m) d (\<lambda>r d'. case r of
      Inl e \<Rightarrow> only (staging_area staged staging) d d'
    | Inr x \<Rightarrow> Q x d')"
  unfolding or_drop_def
proof (rule post_matchI [OF m])
  fix r d'
  assume r: "case r of Inl e \<Rightarrow> staged_in d' staged staging \<and> only (staging_area staged staging) d d' | Inr x \<Rightarrow> Q x d'"
  let ?R = "\<lambda>r d'. case r of Inl e \<Rightarrow> only (staging_area staged staging) d d' | Inr x \<Rightarrow> Q x d'"
  show "post (case r of Inl e \<Rightarrow> io_bind (drop_staging w staged staging) (\<lambda>_. io_err e) | Inr x \<Rightarrow> io_ok x) d' ?R"
  proof (cases r)
    case (Inl e)
    have "post (io_bind (drop_staging w staged staging) (\<lambda>_. io_err e)) d' ?R"
    proof (rule post_bindI [OF drop_staging_post])
      show "staged_in d' staged staging" using r Inl by simp
    qed (use r Inl only_trans in \<open>fastforce+\<close>)
    then show ?thesis using Inl by simp
  qed (use r in simp)
qed

lemma create_staging_post:
  assumes d: "disk_ok d" "inside d (parent @ [x])"
  shows "post (if modes strategy = [Copy]
       then io_bind (io_map_err WmIo (tempfile_in w parent)) (\<lambda>staged. io_ok (staged, None))
       else io_bind (io_map_err WmIo (tempdir_in w parent)) (\<lambda>dir. io_ok (dir @ [lit ''object''], Some dir))) d
     (\<lambda>r d'. case r of
        Inl e \<Rightarrow> only {} d d'
      | Inr (staged, staging) \<Rightarrow> staged_in d' staged staging \<and> only (staging_area staged staging) d d'
          \<and> (\<exists>n. staging_area staged staging \<subseteq> {k. prefix (parent @ [w_temp w n]) k})
          \<and> (\<forall>k \<in> staging_area staged staging. at d k = None))"
proof -
  let ?cs = "parent @ [w_temp w (dk_calls d)]"
  have i: "inside d ?cs" using d(2) by (simp add: inside_def strict_prefix_snoc)
  note temp = create_temp_post [OF d(1) i]
  show ?thesis
  proof (cases "modes strategy = [Copy]")
    case True
    show ?thesis
      unfolding if_P [OF True] tempfile_in_def
    proof (rule post_bindI)
      show "post (io_map_err WmIo (create_temp (Regular []) w parent)) d (\<lambda>r d'. case r of
          Inr cs \<Rightarrow> cs = ?cs \<and> at d cs = None \<and> at d' = (at d)(cs \<mapsto> Regular []) \<and> only {cs} d d' \<and> at d parent = Some Folder
        | Inl e \<Rightarrow> only {} d d')"
        unfolding post_map_err by (rule post_weaken [OF temp]) (auto split: sum.splits)
      fix cs d'
      assume t: "case Ok cs of Inr cs \<Rightarrow> cs = ?cs \<and> at d cs = None \<and> at d' = (at d)(cs \<mapsto> Regular []) \<and> only {cs} d d' \<and> at d parent = Some Folder
        | Inl e \<Rightarrow> only {} d d'"
      then have "staged_in d' cs None"
        using only_inside [of "{cs}" d d' cs] i by (auto simp: staged_in_def staging_area_def only_def strict_prefix_def)
      then show "post (io_ok (cs, None)) d' (\<lambda>r d'. case r of Inl e \<Rightarrow> only {} d d'
        | Inr (staged, staging) \<Rightarrow> staged_in d' staged staging \<and> only (staging_area staged staging) d d'
          \<and> (\<exists>n. staging_area staged staging \<subseteq> {k. prefix (parent @ [w_temp w n]) k})
          \<and> (\<forall>k \<in> staging_area staged staging. at d k = None))"
        using t by (auto simp: staging_area_def)
    qed auto
  next
    case False
    show ?thesis
      unfolding if_not_P [OF False] tempdir_in_def
    proof (rule post_bindI)
      show "post (io_map_err WmIo (create_temp Folder w parent)) d (\<lambda>r d'. case r of
          Inr cs \<Rightarrow> cs = ?cs \<and> at d cs = None \<and> at d' = (at d)(cs \<mapsto> Folder) \<and> only {cs} d d' \<and> at d parent = Some Folder
        | Inl e \<Rightarrow> only {} d d')"
        unfolding post_map_err by (rule post_weaken [OF temp]) (auto split: sum.splits)
      fix cs d'
      assume "case Ok cs of Inr cs \<Rightarrow> cs = ?cs \<and> at d cs = None \<and> at d' = (at d)(cs \<mapsto> Folder) \<and> only {cs} d d' \<and> at d parent = Some Folder
        | Inl e \<Rightarrow> only {} d d'"
      then have t: "cs = ?cs" "at d cs = None" "at d' = (at d)(cs \<mapsto> Folder)" "only {cs} d d'" "at d parent = Some Folder" by auto
      have none: "at d k = None" if "prefix cs k" for k by (rule tree_ok_absent [OF d(1) t(2) that])
      have "inside d' (cs @ [lit ''object''])"
        using i unfolding t(3) inside_def strict_prefix_snoc t(1) by (auto simp: strict_prefix_def)
      moreover have "at d' (cs @ [lit ''object'']) = None" using none [of "cs @ [lit ''object'']"] by (simp add: t(3))
      ultimately have "staged_in d' (cs @ [lit ''object'']) (Some cs)"
        using t(4) by (simp add: staged_in_def staging_area_def only_def)
      moreover have "only {k. prefix cs k} d d'" by (rule only_mono [OF t(4)]) simp
      ultimately show "post (io_ok (cs @ [lit ''object''], Some cs)) d' (\<lambda>r d'. case r of Inl e \<Rightarrow> only {} d d'
        | Inr (staged, staging) \<Rightarrow> staged_in d' staged staging \<and> only (staging_area staged staging) d d'
          \<and> (\<exists>n. staging_area staged staging \<subseteq> {k. prefix (parent @ [w_temp w n]) k})
          \<and> (\<forall>k \<in> staging_area staged staging. at d k = None))"
        using none t(1) by (auto simp: staging_area_def)
    qed auto
  qed
qed

lemma resolve_nonempty [simp]: "resolve_worktree_path path \<noteq> []"
  by (simp add: resolve_worktree_path_def)

text \<open>The traces a failed clean-up may leave beside a path: temporary names in its folder.\<close>

definition spare :: "world \<Rightarrow> comps \<Rightarrow> comps \<Rightarrow> bool" where
  "spare w dest k \<longleftrightarrow> (\<exists>n. prefix (butlast dest @ [w_temp w n]) k)"

definition beside :: "world \<Rightarrow> comps \<Rightarrow> disk \<Rightarrow> disk \<Rightarrow> bool" where
  "beside w dest d d' \<longleftrightarrow> dk_escaped d' = dk_escaped d \<and> disk_ok d'
     \<and> (\<forall>k. \<not> spare w dest k \<longrightarrow> k \<noteq> dest \<longrightarrow>
          at d' k = at d k \<or> (at d k = None \<and> at d' k = Some Folder \<and> strict_prefix k dest))"

lemma spare_not_ancestor: "prefix k (butlast dest) \<Longrightarrow> \<not> spare w dest k"
  by (auto simp: spare_def prefix_def)

lemma beside_grown: "grown (butlast dest) d d' \<Longrightarrow> dest \<noteq> [] \<Longrightarrow> beside w dest d d'"
proof -
  assume g: "grown (butlast dest) d d'" and n: "dest \<noteq> []"
  have "prefix k (butlast dest) \<Longrightarrow> strict_prefix k dest" for k
    using butlast_strict [OF n] prefix_order.le_less_trans by blast
  then show ?thesis using g unfolding grown_def beside_def only_def by (metis mem_Collect_eq)
qed

lemma beside_only:
  assumes "beside w dest d d'" "only A d' d''" "A \<subseteq> insert dest {k. spare w dest k}"
  shows "beside w dest d d''"
  using assms unfolding beside_def only_def by (metis insertE mem_Collect_eq subset_iff)

lemma publish_post:
  assumes s: "staged_in d staged staging" and dest: "inside d dest" "dest \<notin> staging_area staged staging"
    and anc: "\<And>pre. strict_prefix pre dest \<Longrightarrow> pre \<notin> staging_area staged staging"
    and sib: "\<And>dir. staging = Some dir \<Longrightarrow> \<not> strict_prefix dest dir"
  shows "post (io_bind (or_drop w staged staging (materialize_modes w oid staged ms)) (\<lambda>_.
        io_bind (or_drop w staged staging (io_map_err WmIo (rename w staged dest))) (\<lambda>_.
        io_bind (case staging of
                   None \<Rightarrow> io_ok ()
                 | Some dir \<Rightarrow> io_match (remove_dir w dir) (\<lambda>r. case r of
                       Inr _ \<Rightarrow> io_ok () | Inl _ \<Rightarrow> io_ignore (remove_dir_all w dir)))
          (\<lambda>_. observe_regular_file w dest)))) d
     (\<lambda>r d'. case r of
        Inl _ \<Rightarrow> only (staging_area staged staging) d d'
      | Inr _ \<Rightarrow> only (insert dest (staging_area staged staging)) d d' \<and> at d dest \<noteq> Some Folder
          \<and> (\<exists>n. at d' dest = Some n \<and> represents w oid n))"
proof -
  let ?A = "staging_area staged staging"
  have sA: "staged \<in> ?A" and nd: "staged \<noteq> dest" using s dest(2) by (auto simp: staged_in_def)
  have st: "staged_in d' staged staging \<and> only ?A d d'" if "only {staged} d d'" "at d' staged \<noteq> Some Folder" for d'
    using that s sA only_inside [OF that(1), of staged] by (auto simp: staged_in_def strict_prefix_def only_def)
  have into: "inside d' dest" if "only ?A d d'" for d' by (rule only_inside [OF that dest(1) anc])
  have modes: "post (or_drop w staged staging (materialize_modes w oid staged ms)) d (\<lambda>r d'. case r of
      Inl e \<Rightarrow> only ?A d d' | Inr _ \<Rightarrow> only {staged} d d' \<and> (\<exists>n. at d' staged = Some n \<and> represents w oid n))"
  proof (rule or_drop_post [OF post_weaken [OF materialize_modes_post]])
    show "disk_ok d" "inside d staged" "staged \<noteq> []" "at d staged \<noteq> Some Folder" using s by (auto simp: staged_in_def)
  qed (use st in \<open>auto split: sum.split\<close>)
  have rename: "post (or_drop w staged staging (io_map_err WmIo (rename w staged dest))) d1 (\<lambda>r d'. case r of
      Inl e \<Rightarrow> only ?A d d'
    | Inr _ \<Rightarrow> only (insert dest ?A) d d' \<and> at d dest \<noteq> Some Folder \<and> (\<exists>n. at d' dest = Some n \<and> represents w oid n)
        \<and> (\<forall>dir. staging = Some dir \<longrightarrow> inside d' dir))"
    if o: "only {staged} d d1" and n: "at d1 staged = Some n" "represents w oid n" for d1 n
  proof -
    have s1: "staged_in d1 staged staging" "only ?A d d1" using st [OF o] n represents_file by auto
    have "post (io_map_err WmIo (rename w staged dest)) d1 (\<lambda>r d'. case r of
        Inl e \<Rightarrow> staged_in d' staged staging \<and> only ?A d1 d'
      | Inr _ \<Rightarrow> at d' = (at d1)(staged := None, dest \<mapsto> n) \<and> only {staged, dest} d1 d' \<and> at d1 dest \<noteq> Some Folder)"
      unfolding post_map_err
    proof (rule post_weaken [OF rename_post])
      show "disk_ok d1" "inside d1 staged" "at d1 staged = Some n" "n \<noteq> Folder" "inside d1 dest"
        using s1 n represents_file into by (auto simp: staged_in_def)
      fix r :: "io_error + unit" and d'
      assume r: "case r of Inr _ \<Rightarrow> at d' = (if staged = dest then at d1 else (at d1)(staged := None, dest \<mapsto> n)) \<and> only {staged, dest} d1 d'
          \<and> at d1 dest \<noteq> Some Folder | Inl e \<Rightarrow> only {} d1 d'"
      have "staged_in d' staged staging \<and> only ?A d1 d'" if "only {} d1 d'"
        using s1(1) that only_at [OF that] by (auto simp: staged_in_def only_def inside_def)
      then show "case map_err WmIo r of Inl e \<Rightarrow> staged_in d' staged staging \<and> only ?A d1 d'
        | Inr _ \<Rightarrow> at d' = (at d1)(staged := None, dest \<mapsto> n) \<and> only {staged, dest} d1 d' \<and> at d1 dest \<noteq> Some Folder"
        using r nd by (auto split: sum.splits)
    qed
    from or_drop_post [OF this] show ?thesis
    proof (rule post_weaken)
      fix r :: "worktree_mutation_error + unit" and d'
      assume r: "case r of Inl e \<Rightarrow> only ?A d1 d' | Inr _ \<Rightarrow> at d' = (at d1)(staged := None, dest \<mapsto> n) \<and> only {staged, dest} d1 d' \<and> at d1 dest \<noteq> Some Folder"
      show "case r of Inl e \<Rightarrow> only ?A d d'
        | Inr _ \<Rightarrow> only (insert dest ?A) d d' \<and> at d dest \<noteq> Some Folder \<and> (\<exists>n. at d' dest = Some n \<and> represents w oid n)
            \<and> (\<forall>dir. staging = Some dir \<longrightarrow> inside d' dir)"
      proof (cases r)
        case (Inl e)
        then show ?thesis using r s1(2) by (auto simp: only_def)
      next
        case (Inr x)
        then have m: "at d' = (at d1)(staged := None, dest \<mapsto> n)" "only {staged, dest} d1 d'" "at d1 dest \<noteq> Some Folder" using r by auto
        have "inside d' dir" if dir: "staging = Some dir" for dir
        proof -
          have "prefix dir staged" "inside d1 staged" using s1(1) dir by (auto simp: staged_in_def)
          then have "inside d1 dir" using inside_prefix by blast
          then show ?thesis
            by (rule only_inside [OF m(2)])
              (use sib [OF dir] \<open>prefix dir staged\<close> in \<open>auto simp: strict_prefix_def dest: prefix_order.antisym\<close>)
        qed
        moreover have "only (insert dest ?A) d d'" using m(2) s1(2) sA by (auto simp: only_def)
        moreover have "at d dest \<noteq> Some Folder" using m(3) s1(2) dest(2) by (auto simp: only_def)
        ultimately show ?thesis using Inr m(1) n(2) by simp
      qed
    qed
  qed
  let ?Q = "\<lambda>r d'. case r of
        Inl _ \<Rightarrow> only ?A d d'
      | Inr _ \<Rightarrow> only (insert dest ?A) d d' \<and> at d dest \<noteq> Some Folder \<and> (\<exists>n. at d' dest = Some n \<and> represents w oid n)"
  let ?clean = "case staging of None \<Rightarrow> io_ok ()
     | Some dir \<Rightarrow> io_match (remove_dir w dir) (\<lambda>r. case r of Inr _ \<Rightarrow> io_ok () | Inl _ \<Rightarrow> io_ignore (remove_dir_all w dir))"
  have clean: "post ?clean d' (\<lambda>r d''. only ?A d' d'' \<and> r = Ok ())"
    if d': "disk_ok d'" "\<forall>dir. staging = Some dir \<longrightarrow> inside d' dir" for d'
  proof (cases staging)
    case None
    then show ?thesis using d' by (simp add: only_refl)
  next
    case (Some dir)
    have all: "post (remove_dir_all w dir) d2 (\<lambda>r d''. only ?A d' d'')" if d2: "only {dir} d' d2" for d2
    proof (rule post_weaken [OF remove_dir_all_post])
      show "disk_ok d2" using d2 by (simp add: only_def)
      show "inside d2 dir" by (rule only_inside [OF d2]) (use d' Some in auto)
    qed (use d2 Some in \<open>auto simp: only_def staging_area_def\<close>)
    have "post (remove_dir w dir) d' (\<lambda>r d''. only {dir} d' d'')"
      by (rule post_weaken [OF remove_dir_post]) (use d' Some in auto)
    then have "post (io_match (remove_dir w dir) (\<lambda>r. case r of Inr _ \<Rightarrow> io_ok () | Inl _ \<Rightarrow> io_ignore (remove_dir_all w dir))) d'
        (\<lambda>r d''. only ?A d' d'' \<and> r = Ok ())"
    proof (rule post_matchI)
      fix r :: "io_error + unit" and d2
      assume "only {dir} d' d2"
      then show "post (case r of Inr _ \<Rightarrow> io_ok () | Inl _ \<Rightarrow> io_ignore (remove_dir_all w dir)) d2 (\<lambda>r d''. only ?A d' d'' \<and> r = Ok ())"
        using all Some by (cases r) (auto simp: staging_area_def intro: only_mono)
    qed
    then show ?thesis unfolding Some option.case .
  qed
  have obs: "post (observe_regular_file w dest) d' (\<lambda>r d''. only {} d' d'' \<and> (\<exists>x. r = Ok x))" if d': "disk_ok d'" "inside d' dest" for d'
  proof -
    have "post (symlink_metadata w dest) d' (\<lambda>r d''. only {} d' d'')" by (rule post_weaken [OF metadata_post [OF d']]) simp
    then show ?thesis unfolding post_def observe_regular_file_def by (auto split: prod.splits sum.splits node.splits)
  qed
  show ?thesis
  proof (rule post_bindI [OF modes])
    fix u :: unit and d1
    assume "case Ok u of Inl e \<Rightarrow> only ?A d d1 | Inr _ \<Rightarrow> only {staged} d d1 \<and> (\<exists>n. at d1 staged = Some n \<and> represents w oid n)"
    then obtain n where o: "only {staged} d d1" and n: "at d1 staged = Some n" "represents w oid n" by auto
    show "post (io_bind (or_drop w staged staging (io_map_err WmIo (rename w staged dest))) (\<lambda>_. io_bind ?clean (\<lambda>_. observe_regular_file w dest))) d1 ?Q"
    proof (rule post_bindI [OF rename [OF o n]])
      fix v :: unit and d2
      assume "case Ok v of Inl e \<Rightarrow> only ?A d d2
        | Inr _ \<Rightarrow> only (insert dest ?A) d d2 \<and> at d dest \<noteq> Some Folder \<and> (\<exists>n. at d2 dest = Some n \<and> represents w oid n)
            \<and> (\<forall>dir. staging = Some dir \<longrightarrow> inside d2 dir)"
      then have r: "only (insert dest ?A) d d2" "at d dest \<noteq> Some Folder" "\<exists>n. at d2 dest = Some n \<and> represents w oid n"
        "\<forall>dir. staging = Some dir \<longrightarrow> inside d2 dir" by auto
      have d2: "disk_ok d2" "inside d2 dest" using r(1) only_inside [OF r(1) dest(1)] anc by (auto simp: only_def strict_prefix_def)
      show "post (io_bind ?clean (\<lambda>_. observe_regular_file w dest)) d2 ?Q"
      proof (rule post_bindI [OF clean [OF d2(1) r(4)]])
        fix x :: unit and d3
        assume c: "only ?A d2 d3 \<and> Ok x = Ok ()"
        have "disk_ok d3" "inside d3 dest" using c only_inside [OF conjunct1 [OF c] d2(2) anc] by (auto simp: only_def)
        then show "post (observe_regular_file w dest) d3 ?Q"
          by - (rule post_weaken [OF obs]; use c r dest(2) in \<open>auto simp: only_def\<close>)
      qed simp
    qed (auto split: sum.splits)
  qed (auto split: sum.splits)
qed

lemma materialize_post:
  assumes d: "disk_ok d" and fresh: "\<forall>n. w_temp w n \<noteq> last (resolve_worktree_path path)"
  shows "post (materialize w path oid strategy) d (\<lambda>r d'. beside w (resolve_worktree_path path) d d' \<and>
     (case r of
        Inl _ \<Rightarrow> at d' (resolve_worktree_path path) = at d (resolve_worktree_path path)
      | Inr _ \<Rightarrow> at d (resolve_worktree_path path) \<noteq> Some Folder \<and> (\<exists>n. at d' (resolve_worktree_path path) = Some n \<and> represents w oid n)))"
proof -
  let ?dest = "resolve_worktree_path path"
  let ?parent = "butlast ?dest"
  let ?Q = "\<lambda>r d'. beside w ?dest d d' \<and> (case r of Inl _ \<Rightarrow> at d' ?dest = at d ?dest
     | Inr _ \<Rightarrow> at d ?dest \<noteq> Some Folder \<and> (\<exists>n. at d' ?dest = Some n \<and> represents w oid n))"
  have dp: "?parent @ [last ?dest] = ?dest" by simp
  have own: "\<not> spare w ?dest ?dest"
  proof
    assume "spare w ?dest ?dest"
    then obtain n where "prefix (?parent @ [w_temp w n]) (?parent @ [last ?dest])" unfolding spare_def dp by blast
    then show False using fresh by (simp only: same_prefix_prefix) simp
  qed
  have none: "beside w ?dest d d'" "at d' ?dest = at d ?dest" if "only {} d d'" for d'
    using that by (auto simp: beside_def only_def)
  show ?thesis
    unfolding materialize_def
  proof (rule post_bindI)
    show "post (io_map_err WmPath (confine_mutation w path)) d (\<lambda>r d'. only {} d d' \<and> (\<forall>dest. r = Ok dest \<longrightarrow> dest = ?dest \<and> inside d' dest))"
      unfolding post_map_err by (rule post_weaken [OF confine_post [OF d]]) (auto simp: map_err_eq_Inr)
    show "?Q (Err e) d'" if "only {} d d' \<and> (\<forall>dest. Err e = Ok dest \<longrightarrow> dest = ?dest \<and> inside d' dest)" for e d'
      using none that by simp
    fix dest d1
    assume "only {} d d1 \<and> (\<forall>dest'. Ok dest = Ok dest' \<longrightarrow> dest' = ?dest \<and> inside d1 dest')"
    then have dest: "dest = ?dest" and d1: "only {} d d1" "inside d1 ?dest" by auto
    have same1: "at d1 = at d" "disk_ok d1" using only_at [OF d1(1)] d1(1) by (simp_all add: only_def)
    have ip: "inside d1 ?parent" by (rule inside_prefix [OF d1(2)]) (metis dp prefixI)
    have nl: "\<forall>l. at d1 ?parent \<noteq> Some (Link l)" using d1(2) butlast_strict [of ?dest] by (simp add: inside_def)
    show "post (let parent = butlast dest
     in io_bind (io_map_err WmIo (create_dir_all w parent)) (\<lambda>_.
        io_bind (if modes strategy = [Copy]
                 then io_bind (io_map_err WmIo (tempfile_in w parent)) (\<lambda>staged. io_ok (staged, None))
                 else io_bind (io_map_err WmIo (tempdir_in w parent)) (\<lambda>dir. io_ok (dir @ [lit ''object''], Some dir)))
          (\<lambda>(staged, staging).
        io_bind (or_drop w staged staging (materialize_modes w oid staged (modes strategy))) (\<lambda>_.
        io_bind (or_drop w staged staging (io_map_err WmIo (rename w staged dest))) (\<lambda>_.
        io_bind (case staging of
                   None \<Rightarrow> io_ok ()
                 | Some dir \<Rightarrow> io_match (remove_dir w dir) (\<lambda>r. case r of
                       Inr _ \<Rightarrow> io_ok () | Inl _ \<Rightarrow> io_ignore (remove_dir_all w dir)))
          (\<lambda>_. observe_regular_file w dest)))))) d1 ?Q"
      unfolding Let_def dest
    proof (rule post_bindI)
      show "post (io_map_err WmIo (create_dir_all w ?parent)) d1 (\<lambda>r d'. grown ?parent d1 d')"
        using create_dirs_post [OF same1(2), of "[]" ?parent w] ip nl by (simp add: create_dir_all_def)
      have gd: "beside w ?dest d d'" "at d' ?dest = at d ?dest" if g: "grown ?parent d1 d'" for d'
      proof -
        show "beside w ?dest d d'" using beside_grown [OF g] same1 d1(1) by (simp add: beside_def only_def)
        have "\<not> prefix ?dest ?parent" using butlast_strict [of ?dest] by (auto simp: strict_prefix_def dest: prefix_order.antisym)
        then show "at d' ?dest = at d ?dest" using g same1 by (simp add: grown_def only_def)
      qed
      show "?Q (Err e) d'" if "grown ?parent d1 d'" for e d' using gd [OF that] by simp
      fix u :: unit and d2
      assume g: "grown ?parent d1 d2"
      have d2: "disk_ok d2" "inside d2 ?dest" using g grown_inside [OF g d1(2)] by (auto simp: grown_def only_def)
      note b2 = gd [OF g]
      show "post (io_bind (if modes strategy = [Copy]
                 then io_bind (io_map_err WmIo (tempfile_in w ?parent)) (\<lambda>staged. io_ok (staged, None))
                 else io_bind (io_map_err WmIo (tempdir_in w ?parent)) (\<lambda>dir. io_ok (dir @ [lit ''object''], Some dir)))
          (\<lambda>(staged, staging).
        io_bind (or_drop w staged staging (materialize_modes w oid staged (modes strategy))) (\<lambda>_.
        io_bind (or_drop w staged staging (io_map_err WmIo (rename w staged ?dest))) (\<lambda>_.
        io_bind (case staging of
                   None \<Rightarrow> io_ok ()
                 | Some dir \<Rightarrow> io_match (remove_dir w dir) (\<lambda>r. case r of
                       Inr _ \<Rightarrow> io_ok () | Inl _ \<Rightarrow> io_ignore (remove_dir_all w dir)))
          (\<lambda>_. observe_regular_file w ?dest))))) d2 ?Q"
      proof (rule post_bindI [OF create_staging_post [OF d2(1), of ?parent "last ?dest"]])
        show "inside d2 (?parent @ [last ?dest])" using d2(2) unfolding dp .
        fix e d'
        assume "case Err e of Inl e \<Rightarrow> only {} d2 d' | Inr (staged, staging) \<Rightarrow> staged_in d' staged staging \<and> only (staging_area staged staging) d2 d'
          \<and> (\<exists>n. staging_area staged staging \<subseteq> {k. prefix (?parent @ [w_temp w n]) k}) \<and> (\<forall>k \<in> staging_area staged staging. at d2 k = None)"
        then show "?Q (Err e) d'" using b2 by (simp add: only_def beside_def)
      next
        fix st :: "comps \<times> comps option" and d3
        obtain staged staging where st: "st = (staged, staging)" by (cases st)
        let ?A = "staging_area staged staging"
        assume "case Ok st of Inl e \<Rightarrow> only {} d2 d3 | Inr (staged, staging) \<Rightarrow> staged_in d3 staged staging \<and> only (staging_area staged staging) d2 d3
          \<and> (\<exists>n. staging_area staged staging \<subseteq> {k. prefix (?parent @ [w_temp w n]) k}) \<and> (\<forall>k \<in> staging_area staged staging. at d2 k = None)"
        then obtain m where s3: "staged_in d3 staged staging" "only ?A d2 d3" and m: "?A \<subseteq> {k. prefix (?parent @ [w_temp w m]) k}"
          by (auto simp: st)
        have sp: "?A \<subseteq> {k. spare w ?dest k}" using m by (auto simp: spare_def)
        have dA: "?dest \<notin> ?A" using sp own by auto
        have anc: "pre \<notin> ?A" if "strict_prefix pre ?dest" for pre
          using sp spare_not_ancestor [of pre ?dest w] that strict_prefix_snoc [of pre ?parent "last ?dest"] unfolding dp by auto
        have sib: "\<not> strict_prefix ?dest dir" if "staging = Some dir" for dir
        proof
          assume "strict_prefix ?dest dir"
          have "dir \<in> ?A" using that by (simp add: staging_area_def)
          then have "prefix (?parent @ [w_temp w m]) dir" using m by auto
          moreover have "prefix ?dest dir" using \<open>strict_prefix ?dest dir\<close> by (simp add: strict_prefix_def)
          ultimately have "prefix (?parent @ [w_temp w m]) ?dest \<or> prefix ?dest (?parent @ [w_temp w m])"
            using prefix_same_cases by blast
          then have "prefix (?parent @ [w_temp w m]) (?parent @ [last ?dest]) \<or> prefix (?parent @ [last ?dest]) (?parent @ [w_temp w m])"
            unfolding dp .
          then show False using fresh by (auto simp only: same_prefix_prefix) auto
        qed
        have d3: "inside d3 ?dest" by (rule only_inside [OF s3(2) d2(2) anc])
        note pub = publish_post [OF s3(1) d3 dA anc sib, of w oid "modes strategy"]
        show "post ((\<lambda>(staged, staging).
        io_bind (or_drop w staged staging (materialize_modes w oid staged (modes strategy))) (\<lambda>_.
        io_bind (or_drop w staged staging (io_map_err WmIo (rename w staged ?dest))) (\<lambda>_.
        io_bind (case staging of
                   None \<Rightarrow> io_ok ()
                 | Some dir \<Rightarrow> io_match (remove_dir w dir) (\<lambda>r. case r of
                       Inr _ \<Rightarrow> io_ok () | Inl _ \<Rightarrow> io_ignore (remove_dir_all w dir)))
          (\<lambda>_. observe_regular_file w ?dest)))) st) d3 ?Q"
          unfolding st prod.case
        proof (rule post_weaken [OF pub])
          fix r :: "worktree_mutation_error + stat_proof option" and d'
          assume p: "case r of Inl _ \<Rightarrow> only ?A d3 d'
            | Inr _ \<Rightarrow> only (insert ?dest ?A) d3 d' \<and> at d3 ?dest \<noteq> Some Folder \<and> (\<exists>n. at d' ?dest = Some n \<and> represents w oid n)"
          have o: "only (insert ?dest ?A) d2 d'"
            using p s3(2) by (cases r) (auto simp: only_def)
          have "beside w ?dest d d'" by (rule beside_only [OF b2(1) o]) (use sp in auto)
          moreover have "at d3 ?dest = at d ?dest" using s3(2) dA b2(2) by (simp add: only_def)
          ultimately show "?Q r d'"
            using p dA by (cases r) (auto simp: only_def)
        qed
      qed
    qed
  qed
qed

section \<open>Removing and pruning\<close>

lemma inspect_post:
  assumes "disk_ok d"
  shows "post (inspect_move_destination w path) d (\<lambda>r d'. only {} d d' \<and>
     (r = Ok DestDirectory \<longleftrightarrow> (\<exists>k. r = Ok k) \<and> at d (resolve_worktree_path path) = Some Folder))"
  unfolding inspect_move_destination_def
proof (rule post_bindI [OF confine_post [OF assms]])
  fix full d1
  assume "only {} d d1 \<and> (\<forall>dest. Ok full = Ok dest \<longrightarrow> dest = resolve_worktree_path path \<and> inside d1 dest)"
  then have o: "only {} d d1" "full = resolve_worktree_path path" "inside d1 full" by auto
  have c: "only {} d d1" "full = resolve_worktree_path path" "inside d1 full" "disk_ok d1" "at d1 = at d"
    using o only_at [OF o(1)] by (simp_all add: only_def)
  show "post (io_match (symlink_metadata w full) (\<lambda>r. case r of
         Inr Folder \<Rightarrow> io_ok DestDirectory
       | Inr _ \<Rightarrow> io_ok DestOther
       | Inl e \<Rightarrow> if e = NotFound then io_ok DestMissing else io_err (PathIo e))) d1 (\<lambda>r d'. only {} d d' \<and>
     (r = Ok DestDirectory \<longleftrightarrow> (\<exists>k. r = Ok k) \<and> at d (resolve_worktree_path path) = Some Folder))"
  proof (rule post_matchI [OF metadata_post [OF c(4,3)]])
    fix r :: "io_error + node" and d'
    assume m: "only {} d1 d' \<and> (case r of Inr n \<Rightarrow> at d1 full = Some n | Inl e \<Rightarrow> e = NotFound \<longrightarrow> at d1 full = None)"
    have "only {} d d'" using c(1) m by (simp add: only_def)
    then show "post (case r of Inr Folder \<Rightarrow> io_ok DestDirectory | Inr _ \<Rightarrow> io_ok DestOther
       | Inl e \<Rightarrow> if e = NotFound then io_ok DestMissing else io_err (PathIo e)) d' (\<lambda>r d'. only {} d d' \<and>
     (r = Ok DestDirectory \<longleftrightarrow> (\<exists>k. r = Ok k) \<and> at d (resolve_worktree_path path) = Some Folder))"
      using m c(2,5) by (auto split: sum.splits node.splits)
  qed
qed auto

lemma remove_post:
  assumes "disk_ok d"
  shows "post (remove w path) d (\<lambda>r d'. only {resolve_worktree_path path} d d' \<and>
     (case r of
        Inr (Some receipt) \<Rightarrow> receipt = resolve_worktree_path path \<and> at d' receipt = None
          \<and> (\<exists>n. at d receipt = Some n \<and> n \<noteq> Folder)
      | Inr None \<Rightarrow> only {} d d' \<and> at d (resolve_worktree_path path) = None
      | Inl e \<Rightarrow> only {} d d'))"
  unfolding remove_def
proof (rule post_bindI)
  show "post (io_map_err WmPath (confine_mutation w path)) d
      (\<lambda>r d'. only {} d d' \<and> (\<forall>dest. r = Ok dest \<longrightarrow> dest = resolve_worktree_path path \<and> inside d' dest))"
    unfolding post_map_err by (rule post_weaken [OF confine_post [OF assms]]) (auto simp: map_err_eq_Inr)
  fix dest d1
  assume "only {} d d1 \<and> (\<forall>dest'. Ok dest = Ok dest' \<longrightarrow> dest' = resolve_worktree_path path \<and> inside d1 dest')"
  then have o: "only {} d d1" "dest = resolve_worktree_path path" "inside d1 dest" by auto
  have c: "only {} d d1" "dest = resolve_worktree_path path" "inside d1 dest" "disk_ok d1" "at d1 = at d"
    using o only_at [OF o(1)] by (simp_all add: only_def)
  show "post (io_match (remove_file w dest) (\<lambda>r. case r of
         Inr _ \<Rightarrow> io_ok (Some dest)
       | Inl e \<Rightarrow> if e = NotFound then io_ok None else io_err (WmIo e))) d1 (\<lambda>r d'. only {resolve_worktree_path path} d d' \<and>
     (case r of
        Inr (Some receipt) \<Rightarrow> receipt = resolve_worktree_path path \<and> at d' receipt = None
          \<and> (\<exists>n. at d receipt = Some n \<and> n \<noteq> Folder)
      | Inr None \<Rightarrow> only {} d d' \<and> at d (resolve_worktree_path path) = None
      | Inl e \<Rightarrow> only {} d d'))"
  proof (rule post_matchI [OF remove_file_post [OF c(4,3)]])
    fix r :: "io_error + unit" and d'
    assume m: "only {dest} d1 d' \<and>
       (case r of Inr _ \<Rightarrow> at d' dest = None \<and> (\<exists>n. at d1 dest = Some n \<and> n \<noteq> Folder)
        | Inl e \<Rightarrow> at d' dest = at d1 dest \<and> (e = NotFound \<longrightarrow> at d1 dest = None))"
    have o: "only {dest} d d'" using c(1) m by (simp add: only_def)
    have n: "only {} d d'" if "at d' dest = at d1 dest" using o that c(5) by (auto simp: only_def)
    show "post (case r of Inr _ \<Rightarrow> io_ok (Some dest) | Inl e \<Rightarrow> if e = NotFound then io_ok None else io_err (WmIo e)) d'
       (\<lambda>r d'. only {resolve_worktree_path path} d d' \<and> (case r of
        Inr (Some receipt) \<Rightarrow> receipt = resolve_worktree_path path \<and> at d' receipt = None
          \<and> (\<exists>n. at d receipt = Some n \<and> n \<noteq> Folder)
      | Inr None \<Rightarrow> only {} d d' \<and> at d (resolve_worktree_path path) = None
      | Inl e \<Rightarrow> only {} d d'))"
      using m o n c(2,5) by (cases r) auto
  qed
qed (auto simp: only_def)

text \<open>Pruning removes empty folders above the removed paths and nothing else.\<close>

definition pruned :: "comps list \<Rightarrow> disk \<Rightarrow> disk \<Rightarrow> bool" where
  "pruned dirs d d' \<longleftrightarrow> dk_escaped d' = dk_escaped d \<and> disk_ok d'
     \<and> (\<forall>k. at d' k = at d k \<or> (k \<in> set dirs \<and> at d k = Some Folder \<and> at d' k = None))"

lemma prune_dirs_post:
  assumes "disk_ok d" "\<forall>dir \<in> set dirs. inside d dir"
  shows "post (prune_dirs w dirs blocked) d (\<lambda>r d'. pruned dirs d d')"
  using assms
proof (induction dirs arbitrary: d blocked)
  case Nil
  then show ?case by (simp add: pruned_def)
next
  case (Cons dir dirs)
  have go: "post (prune_dirs w dirs b) d' (\<lambda>r d''. pruned (dir # dirs) d d'')"
    if d': "disk_ok d'" "dk_escaped d' = dk_escaped d"
      and c: "\<forall>k. at d' k = at d k \<or> (k = dir \<and> at d k = Some Folder \<and> at d' k = None)" for b d'
  proof (rule post_weaken [OF Cons.IH [OF d'(1)]])
    show "\<forall>dir \<in> set dirs. inside d' dir"
      using Cons.prems(2) c unfolding inside_def by (metis list.set_intros(2) option.distinct(1))
    fix r :: "prune_error + unit" and d''
    assume p: "pruned dirs d' d''"
    have "at d'' k = at d k \<or> (k \<in> set (dir # dirs) \<and> at d k = Some Folder \<and> at d'' k = None)" for k
      using p c unfolding pruned_def by (metis list.set_intros option.distinct(1))
    then show "pruned (dir # dirs) d d''" using p d' by (simp add: pruned_def)
  qed
  show ?case
  proof (cases "dir \<in> blocked")
    case True
    then show ?thesis using go [of d] Cons.prems(1) by simp
  next
    case False
    have i: "inside d dir" using Cons.prems(2) by simp
    have "post (io_match (remove_dir w dir) (\<lambda>r. case r of
            Inr _ \<Rightarrow> prune_dirs w dirs blocked
          | Inl e \<Rightarrow>
              if e = NotFound then prune_dirs w dirs blocked
              else if e = DirectoryNotEmpty \<or> e = NotADirectory then prune_dirs w dirs (block_parent dir blocked)
              else io_err (PruneError dir e))) d (\<lambda>r d'. pruned (dir # dirs) d d')"
    proof (rule post_matchI [OF remove_dir_post [OF Cons.prems(1) i]])
      fix r :: "io_error + unit" and d'
      assume m: "only {dir} d d' \<and> (case r of Inr _ \<Rightarrow> at d' dir = None \<and> at d dir = Some Folder \<and> (\<forall>k. strict_prefix dir k \<longrightarrow> at d k = None)
         | Inl e \<Rightarrow> at d' dir = at d dir)"
      have e: "disk_ok d'" "dk_escaped d' = dk_escaped d" using m by (simp_all add: only_def)
      have c: "\<forall>k. at d' k = at d k \<or> (k = dir \<and> at d k = Some Folder \<and> at d' k = None)"
      proof
        fix k show "at d' k = at d k \<or> (k = dir \<and> at d k = Some Folder \<and> at d' k = None)"
          using m unfolding only_def by (cases r; cases "k = dir") auto
      qed
      have stay: "pruned (dir # dirs) d d'" using e c unfolding pruned_def by auto
      show "post (case r of
            Inr _ \<Rightarrow> prune_dirs w dirs blocked
          | Inl e \<Rightarrow>
              if e = NotFound then prune_dirs w dirs blocked
              else if e = DirectoryNotEmpty \<or> e = NotADirectory then prune_dirs w dirs (block_parent dir blocked)
              else io_err (PruneError dir e)) d' (\<lambda>r d'. pruned (dir # dirs) d d')"
        using go [OF e c] stay by (auto split: sum.split)
    qed
    then show ?thesis using False by simp
  qed
qed

lemma prune_candidates_of_set:
  assumes "\<forall>k \<in> set cs. k \<noteq> []"
  shows "set (prune_candidates_of cs current) \<subseteq> set cs \<union> {k. k \<noteq> [] \<and> strict_prefix k current}"
  using assms
proof (induction cs current rule: prune_candidates_of.induct)
  case (1 cs current)
  let ?p = "butlast current"
  show ?case
  proof (cases "current = [] \<or> ?p = [] \<or> ?p \<in> set cs")
    case True
    then show ?thesis by (subst prune_candidates_of.simps) (simp add: Let_def)
  next
    case False
    then have s: "strict_prefix ?p current" using butlast_strict [of current] by simp
    have "set (prune_candidates_of (cs @ [?p]) ?p) \<subseteq> set (cs @ [?p]) \<union> {k. k \<noteq> [] \<and> strict_prefix k ?p}"
      by (rule "1.IH") (use False "1.prems" in auto)
    also have "\<dots> \<subseteq> set cs \<union> {k. k \<noteq> [] \<and> strict_prefix k current}"
      using s False prefix_order.less_trans by auto
    finally show ?thesis using False by (subst prune_candidates_of.simps) (simp add: Let_def)
  qed
qed

lemma prune_candidates_set: "set (prune_candidates deleted) \<subseteq> {k. k \<noteq> [] \<and> (\<exists>r \<in> set deleted. strict_prefix k r)}"
proof -
  have "set (foldl prune_candidates_of cs ds) \<subseteq> set cs \<union> {k. k \<noteq> [] \<and> (\<exists>r \<in> set ds. strict_prefix k r)}"
    if "\<forall>k \<in> set cs. k \<noteq> []" for cs ds
    using that
  proof (induction ds arbitrary: cs)
    case (Cons r ds)
    have s: "set (prune_candidates_of cs r) \<subseteq> set cs \<union> {k. k \<noteq> [] \<and> strict_prefix k r}"
      by (rule prune_candidates_of_set [OF Cons.prems])
    have "set (foldl prune_candidates_of (prune_candidates_of cs r) ds)
        \<subseteq> set (prune_candidates_of cs r) \<union> {k. k \<noteq> [] \<and> (\<exists>r \<in> set ds. strict_prefix k r)}"
      by (rule Cons.IH) (use s Cons.prems in auto)
    then show ?case using s by auto
  qed simp
  from this [of "[]" deleted] show ?thesis by (simp add: prune_candidates_def)
qed

lemma prune_post:
  assumes "disk_ok d" "\<forall>r \<in> set deleted. inside d r"
  shows "post (prune_touched_ancestor_dirs w deleted) d (\<lambda>r d'. dk_escaped d' = dk_escaped d \<and> disk_ok d'
     \<and> (\<forall>k. at d' k = at d k \<or> (at d k = Some Folder \<and> at d' k = None \<and> k \<noteq> [] \<and> (\<exists>r \<in> set deleted. strict_prefix k r))))"
proof -
  have s: "set (prune_order deleted) \<subseteq> {k. k \<noteq> [] \<and> (\<exists>r \<in> set deleted. strict_prefix k r)}"
    using prune_candidates_set [of deleted] by (simp add: prune_order_def)
  have "\<forall>dir \<in> set (prune_order deleted). inside d dir"
  proof
    fix dir assume "dir \<in> set (prune_order deleted)"
    then obtain r where "r \<in> set deleted" "strict_prefix dir r" using s by auto
    then show "inside d dir" using inside_prefix [of d r dir] assms(2) by (simp add: strict_prefix_def)
  qed
  from prune_dirs_post [OF assms(1) this] show ?thesis
    unfolding prune_touched_ancestor_dirs_def
    by (rule post_weaken) (use s in \<open>auto simp: pruned_def subset_iff\<close>)
qed


section \<open>Properties\<close>

text \<open>
  C33: Materializing publishes a whole object or changes nothing. Whatever calls the file system refuses and
  however much a failed copy has written, \<open>materialize\<close> never follows a link out of the working tree and
  leaves a well-formed tree; everything but its destination is as it was, save for folders it had to create
  above the destination and left-over temporary names beside it; on success the destination, which was no
  folder, is a link to the object or a file with all its bytes, and on failure it is exactly what it was.
\<close>

theorem materialize_publishes_or_preserves:
  assumes "disk_ok d" "\<forall>n. w_temp w n \<noteq> last (resolve_worktree_path path)"
  shows "case materialize w path oid strategy d of (r, d') \<Rightarrow>
    dk_escaped d' = dk_escaped d \<and> disk_ok d'
    \<and> (\<forall>k. k \<noteq> resolve_worktree_path path \<longrightarrow> (\<nexists>n. prefix (butlast (resolve_worktree_path path) @ [w_temp w n]) k) \<longrightarrow>
         at d' k = at d k \<or> (at d k = None \<and> at d' k = Some Folder \<and> strict_prefix k (resolve_worktree_path path)))
    \<and> (case r of
         Inl e \<Rightarrow> at d' (resolve_worktree_path path) = at d (resolve_worktree_path path)
       | Inr _ \<Rightarrow> at d (resolve_worktree_path path) \<noteq> Some Folder
           \<and> (\<exists>n. at d' (resolve_worktree_path path) = Some n
                \<and> (n = Link (ToObject oid) \<or> (\<exists>data. w_object w oid = Some data \<and> n = Regular data))))"
  using materialize_post [OF assms, of oid strategy] unfolding post_def beside_def spare_def represents_def
  by (auto split: sum.splits)

lemma materialize_publishes_or_preserves_witness:
  "case materialize \<lparr>w_fault = \<lambda>_. False, w_partial = \<lambda>_. None, w_temp = \<lambda>_. [116], w_object = \<lambda>_. Some [120], w_stat = \<lambda>_. None\<rparr>
      (GatPath [98, 47, 97]) (Oid [1]) (MaterializationStrategy [Copy]) \<lparr>dk_calls = 0, dk_tree = [([], Folder)], dk_escaped = False\<rparr> of
     (r, d') \<Rightarrow> r = Ok None \<and> at d' [[98], [97]] = Some (Regular [120]) \<and> at d' [[98]] = Some Folder \<and> at d' [[98], [116]] = None
       \<and> \<not> dk_escaped d' \<and> disk_ok d'"
proof -
  let ?w = "\<lparr>w_fault = \<lambda>_. False, w_partial = \<lambda>_. None, w_temp = \<lambda>_. [116], w_object = \<lambda>_. Some [120], w_stat = \<lambda>_. None\<rparr>"
  let ?d = "\<lparr>dk_calls = 0, dk_tree = [([], Folder)], dk_escaped = False\<rparr>"
  have d: "disk_ok ?d" by (simp add: tree_ok_def rooted_def)
  have w: "\<forall>n. w_temp ?w n \<noteq> last (resolve_worktree_path (GatPath [98, 47, 97]))" by (simp add: resolve_worktree_path_def)
  have run: "case materialize ?w (GatPath [98, 47, 97]) (Oid [1]) (MaterializationStrategy [Copy]) ?d of
     (r, d') \<Rightarrow> r = Ok None \<and> at d' [[98], [97]] = Some (Regular [120]) \<and> at d' [[98]] = Some Folder \<and> at d' [[98], [116]] = None"
    by code_simp
  show ?thesis
    using materialize_publishes_or_preserves [OF d w, of "Oid [1]" "MaterializationStrategy [Copy]"] run by auto
qed

end
