(* ===== verification/SyncLedger.thy ===== *)
theory SyncLedger
  imports SyncExecute WorktreeCorrect
begin

text \<open>
  The ledger of a run: what the table and the pending batch record for every path, the invariant that ties
  it to the disk, and its preservation by every step of the execution sink.
\<close>

section \<open>The object ids of the ledger\<close>

text \<open>What a batch does to the recorded objects, whichever of several proofs for a path the database takes.\<close>

fun record_oid :: "(gat_path \<Rightarrow> oid option) \<Rightarrow> state_mutation \<Rightarrow> gat_path \<Rightarrow> oid option" where
  "record_oid L (Upsert row) = L(mr_path row \<mapsto> mr_oid row)"
| "record_oid L (RefreshStat path pf) = L"
| "record_oid L (RemoveExact path) = L(path := None)"

definition oids :: "(oid \<times> 'h) half_map \<Rightarrow> gat_path \<Rightarrow> oid option" where
  "oids M p = map_option fst (M p)"

lemma oids_mutate: "oids (mutate M op) = record_oid (oids M) op"
  by (cases op) (auto simp: oids_def fun_eq_iff split: option.splits)

lemma oids_mutations: "oids (foldl mutate M ops) = foldl record_oid (oids M) ops"
  by (induction ops arbitrary: M) (simp_all add: oids_mutate)

definition recorded :: "table \<Rightarrow> gat_path \<Rightarrow> oid option" where
  "recorded t = oids (materialized t)"

lemma refresh_step:
  fixes f :: "gat_path \<Rightarrow> stat_proof option"
  assumes "table_ok t"
  defines "u \<equiv> sql_update (\<lambda>p r.
       case f p of
         None \<Rightarrow> None
       | Some pf \<Rightarrow>
           if sr_materialized_oid r \<noteq> None then Some (r\<lparr>sr_materialized_proof := Some (encode_stat_proof pf)\<rparr>)
           else None) t"
  shows "table_ok u \<and> desired u = desired t \<and> recorded u = recorded t"
proof (intro conjI)
  have bt: "bt_ok t" using assms(1) by (simp add: table_ok_def)
  have get: "bt_get u p = map_option (\<lambda>r. case f p of None \<Rightarrow> r
      | Some pf \<Rightarrow> if sr_materialized_oid r \<noteq> None then r\<lparr>sr_materialized_proof := Some (encode_stat_proof pf)\<rparr> else r) (bt_get t p)" for p
    unfolding u_def sql_update_get by (cases "bt_get t p") (simp_all split: option.split)
  show "table_ok u"
  proof (rule table_okI)
    show "bt_ok u" using bt by (simp add: u_def sql_update_ok)
    show "row_ok r" if hyp: "bt_get u p = Some r" for p r
    proof -
      obtain r' where r': "bt_get t p = Some r'" using hyp get [of p] by (cases "bt_get t p") auto
      then show ?thesis
        using hyp get [of p] table_ok_get [OF assms(1) r'] by (auto simp: row_ok_def row_check_def split: option.splits if_splits)
    qed
  qed
  show "desired u = desired t"
  proof
    fix p
    show "desired u p = desired t p"
      by (cases "bt_get t p"; cases "f p") (simp_all add: desired_def get split: option.split)
  qed
  show "recorded u = recorded t"
  proof
    fix p
    show "recorded u p = recorded t p"
      by (cases "bt_get t p"; cases "f p") (auto simp: recorded_def oids_def materialized_def get split: option.split)
  qed
qed

definition keeps :: "(nat \<Rightarrow> bool) \<Rightarrow> (table tx \<Rightarrow> state_store_error + table tx) \<Rightarrow> state_mutation list \<Rightarrow> bool" where
  "keeps ok m ops \<longleftrightarrow> (\<forall>t. table_ok t \<longrightarrow>
     yields ok m t (\<lambda>t'. table_ok t' \<and> desired t' = desired t \<and> recorded t' = foldl record_oid (recorded t) ops))"

lemma keeps_effect:
  assumes "effect ok m (\<lambda>D. D) (\<lambda>M. foldl mutate M ops)"
  shows "keeps ok m ops"
  unfolding keeps_def
proof (intro allI impI)
  fix t assume "table_ok t"
  then show "yields ok m t (\<lambda>t'. table_ok t' \<and> desired t' = desired t \<and> recorded t' = foldl record_oid (recorded t) ops)"
    by (rule yields_weaken [OF effect_yields [OF assms]]) (simp add: recorded_def oids_mutations)
qed

lemma keeps_then:
  assumes "keeps ok m a" "keeps ok n b"
  shows "keeps ok (\<lambda>tx. and_then (m tx) n) (a @ b)"
  unfolding keeps_def
proof (intro allI impI)
  fix t assume t: "table_ok t"
  show "yields ok (\<lambda>tx. and_then (m tx) n) t
      (\<lambda>t'. table_ok t' \<and> desired t' = desired t \<and> recorded t' = foldl record_oid (recorded t) (a @ b))"
  proof (rule yields_then [OF assms(1) [unfolded keeps_def, rule_format, OF t]])
    fix s assume s: "table_ok s \<and> desired s = desired t \<and> recorded s = foldl record_oid (recorded t) a"
    show "yields ok n s (\<lambda>t'. table_ok t' \<and> desired t' = desired t \<and> recorded t' = foldl record_oid (recorded t) (a @ b))"
      by (rule yields_weaken [OF assms(2) [unfolded keeps_def, rule_format]]) (use s in auto)
  qed
qed

lemma record_refreshes: "foldl record_oid L (takeWhile is_refresh ops) = L"
proof (induction ops)
  case (Cons op ops)
  then show ?case by (cases op) simp_all
qed simp

lemma keeps_refresh: "keeps ok (bulk_refresh_materialized_proofs ok pick v) (op # takeWhile is_refresh ops)" if "is_refresh op"
  unfolding keeps_def
proof (intro allI impI)
  fix t assume t: "table_ok t"
  have "foldl record_oid L (op # takeWhile is_refresh ops) = L" for L
    using that record_refreshes by (cases op) simp_all
  moreover have "yields ok (bulk_refresh_materialized_proofs ok pick v) t (\<lambda>t'. table_ok t' \<and> desired t' = desired t \<and> recorded t' = recorded t)"
    unfolding bulk_refresh_materialized_proofs_def
    by (rule yields_for_each [where I = "\<lambda>_ t'. table_ok t' \<and> desired t' = desired t \<and> recorded t' = recorded t"])
      (use t refresh_step in \<open>auto intro!: yields_execute\<close>)
  ultimately show "yields ok (bulk_refresh_materialized_proofs ok pick v) t
      (\<lambda>t'. table_ok t' \<and> desired t' = desired t \<and> recorded t' = foldl record_oid (recorded t) (op # takeWhile is_refresh ops))"
    by simp
qed

lemma keeps_batch: "keeps ok (batch_loop ok pick ops) ops"
proof (induction ops rule: length_induct)
  case (1 ops)
  show ?case
  proof (cases ops)
    case Nil
    then show ?thesis by (simp add: keeps_def yields_def)
  next
    case (Cons op rest)
    have run: "keeps ok (\<lambda>tx. and_then (m tx) (batch_loop ok pick (dropWhile P rest))) (op # rest)"
      if "keeps ok m (op # takeWhile P rest)" for m P
    proof -
      have "keeps ok (batch_loop ok pick (dropWhile P rest)) (dropWhile P rest)"
        using 1 Cons by (simp add: le_imp_less_Suc length_dropWhile_le)
      from keeps_then [OF that this] show ?thesis by simp
    qed
    show ?thesis
    proof (cases op)
      case (Upsert row)
      have "effect ok (bulk_upsert_materialized ok (row # upsert_run (takeWhile is_upsert rest))) (\<lambda>D. D)
          (\<lambda>M. foldl mutate M (op # takeWhile is_upsert rest))"
        using effect_upsert [of ok "row # upsert_run (takeWhile is_upsert rest)"] Upsert
        by (simp add: upsert_run_mutate del: fun_upd_apply mutate.simps)
      then show ?thesis using run [OF keeps_effect] Cons Upsert by (simp add: keeps_def)
    next
      case (RefreshStat path pf)
      then show ?thesis
        using run [OF keeps_refresh [of op ok pick "(path, pf) # refresh_run (takeWhile is_refresh rest)" rest]] Cons
        by (simp add: keeps_def)
    next
      case (RemoveExact path)
      have "(\<lambda>p. if p \<in> set (path # remove_run (takeWhile is_remove rest)) then None else M p)
          = foldl mutate M (op # takeWhile is_remove rest)" for M
        using remove_run_mutate [of "op # rest" M] RemoveExact by (simp add: remove_run_def map_filter_simps)
      then have "effect ok (clear_materialized_exact_tx ok (path # remove_run (takeWhile is_remove rest))) (\<lambda>D. D)
          (\<lambda>M. foldl mutate M (op # takeWhile is_remove rest))"
        using effect_clear_materialized_exact [of ok "path # remove_run (takeWhile is_remove rest)"] by simp
      then show ?thesis using run [OF keeps_effect] Cons RemoveExact by (simp add: keeps_def)
    qed
  qed
qed

lemma apply_batch_records:
  assumes "table_ok t" "apply_batch ok pick ops t = (t', result)"
  shows "(result = Ok () \<and> table_ok t' \<and> desired t' = desired t \<and> recorded t' = foldl record_oid (recorded t) ops)
    \<or> (result \<noteq> Ok () \<and> t' = t \<and> (\<exists>j. \<not> ok j))"
proof (cases "ops = []")
  case True
  then show ?thesis using assms by (simp add: apply_batch_def)
next
  case False
  then have "in_transaction ok (batch_loop ok pick ops) t = (t', result)" using assms(2) by (simp add: apply_batch_def)
  then show ?thesis
    using in_transaction_yields [OF keeps_batch [unfolded keeps_def, rule_format, OF assms(1)]] by blast
qed

section \<open>The disk and the ledger\<close>

text \<open>A path none of whose components is a temporary name.\<close>

definition tidy :: "world \<Rightarrow> gat_path \<Rightarrow> bool" where
  "tidy w p \<longleftrightarrow> (\<forall>n. w_temp w n \<notin> set (resolve_worktree_path p))"

lemma resolve_inj: "resolve_worktree_path p = resolve_worktree_path q \<Longrightarrow> p = q"
  unfolding resolve_worktree_path_def by (metis join_split_on gat_path.expand)

lemma tidy_not_spare: "tidy w p \<Longrightarrow> prefix k (resolve_worktree_path p) \<Longrightarrow> \<not> spare w dest k"
  unfolding tidy_def spare_def by (auto simp: prefix_def)

text \<open>The file or link at a path; a folder is none.\<close>

definition file_at :: "disk \<Rightarrow> comps \<Rightarrow> node option" where
  "file_at d k = (if at d k = Some Folder then None else at d k)"

definition agrees :: "world \<Rightarrow> oid option \<Rightarrow> node option \<Rightarrow> bool" where
  "agrees w rec file =
     (case rec of None \<Rightarrow> file = None | Some oid \<Rightarrow> (\<exists>n. file = Some n \<and> represents w oid n))"

text \<open>Every path is as it was, on disk and in the ledger, or the ledger says what the disk holds.\<close>

definition settled :: "world \<Rightarrow> disk \<Rightarrow> (gat_path \<Rightarrow> oid option) \<Rightarrow> disk \<Rightarrow> (gat_path \<Rightarrow> oid option) \<Rightarrow> bool" where
  "settled w d0 L0 d L \<longleftrightarrow>
     (\<forall>p. tidy w p \<longrightarrow>
        (L p = L0 p \<and> file_at d (resolve_worktree_path p) = file_at d0 (resolve_worktree_path p))
        \<or> agrees w (L p) (file_at d (resolve_worktree_path p)))"

lemma settled_same:
  assumes "settled w d0 L0 d L" "\<And>p. tidy w p \<Longrightarrow> file_at d' (resolve_worktree_path p) = file_at d (resolve_worktree_path p)"
  shows "settled w d0 L0 d' L"
  using assms by (simp add: settled_def)

lemma settled_at:
  assumes "settled w d0 L0 d L" "agrees w (L' p) (file_at d' (resolve_worktree_path p))"
    and "\<And>q. q \<noteq> p \<Longrightarrow> tidy w q \<Longrightarrow> L' q = L q \<and> file_at d' (resolve_worktree_path q) = file_at d (resolve_worktree_path q)"
  shows "settled w d0 L0 d' L'"
  using assms unfolding settled_def by metis

text \<open>The state of a run that began in \<open>m0\<close>: \<open>pb\<close> waits for the table; \<open>K\<close> are the paths it may know.\<close>

definition ledger :: "machine \<Rightarrow> pending_batch \<Rightarrow> gat_path \<Rightarrow> oid option" where
  "ledger m pb = foldl record_oid (recorded (mc_table m)) (pb_ops pb)"

definition run_ok :: "surroundings \<Rightarrow> gat_path set \<Rightarrow> machine \<Rightarrow> machine \<Rightarrow> pending_batch \<Rightarrow> bool" where
  "run_ok env K m0 m pb \<longleftrightarrow>
     disk_ok (mc_disk m) \<and> dk_escaped (mc_disk m) = dk_escaped (mc_disk m0)
     \<and> table_ok (mc_table m) \<and> desired (mc_table m) = desired (mc_table m0)
     \<and> (\<forall>p. recorded (mc_table m) p \<noteq> None \<or> ledger m pb p \<noteq> None \<longrightarrow> p \<in> K)
     \<and> (\<forall>r \<in> set (pb_removals pb). (\<exists>p. tidy (sr_world env) p \<and> r = resolve_worktree_path p)
          \<and> (\<forall>q. strict_prefix q r \<longrightarrow> at (mc_disk m) q = Some Folder))
     \<and> settled (sr_world env) (mc_disk m0) (recorded (mc_table m0)) (mc_disk m) (ledger m pb)"

lemma run_okD:
  assumes "run_ok env K m0 m pb"
  shows "disk_ok (mc_disk m)" "dk_escaped (mc_disk m) = dk_escaped (mc_disk m0)" "table_ok (mc_table m)"
    "desired (mc_table m) = desired (mc_table m0)"
    "settled (sr_world env) (mc_disk m0) (recorded (mc_table m0)) (mc_disk m) (ledger m pb)"
  using assms by (simp_all add: run_ok_def)

lemma run_ok_removals:
  assumes "run_ok env K m0 m pb" "r \<in> set (pb_removals pb)"
  shows "(\<exists>p. tidy (sr_world env) p \<and> r = resolve_worktree_path p) \<and> (\<forall>q. strict_prefix q r \<longrightarrow> at (mc_disk m) q = Some Folder)"
  using assms unfolding run_ok_def by metis

lemma batch_flush_ok:
  assumes ok: "run_ok env K m0 m pb" and f: "batch_flush env pb m = ((pb', m'), r :: 'e sync_error + unit)"
  shows "run_ok env K m0 m' pb' \<and> ledger m' pb' = ledger m pb \<and> length (pb_ops pb') \<le> length (pb_ops pb)
    \<and> (r = Ok () \<longrightarrow> pb_ops pb' = []) \<and> (pb_ops pb' \<noteq> [] \<longrightarrow> (\<exists>k j. \<not> sr_db env k j))"
proof (cases "pb_ops pb = []")
  case True
  then show ?thesis using assms by (simp add: batch_flush_def)
next
  case False
  obtain t result where b: "apply_batch (sr_db env (mc_batches m)) (sr_pick env) (pb_ops pb) (mc_table m) = (t, result)" by fastforce
  note t = apply_batch_records [OF run_okD(3) [OF ok] b]
  let ?m = "m\<lparr>mc_table := t, mc_batches := Suc (mc_batches m)\<rparr>"
  show ?thesis
  proof (cases "result = Ok ()")
    case False
    then have "t = mc_table m" "\<exists>j. \<not> sr_db env (mc_batches m) j" "\<exists>e. result = Inl e" using t by (auto simp: sum.exhaust_sel) (cases result; auto)+
    then have "pb' = pb" "m' = m\<lparr>mc_batches := Suc (mc_batches m)\<rparr>" "r \<noteq> Ok ()" "\<exists>k j. \<not> sr_db env k j"
      using f b \<open>pb_ops pb \<noteq> []\<close> by (auto simp: batch_flush_def Let_def)
    then show ?thesis using ok by (auto simp: run_ok_def ledger_def)
  next
    case True
    then have tt: "table_ok t" "desired t = desired (mc_table m)" "recorded t = ledger m pb" using t by (auto simp: ledger_def)
    have l: "ledger n (pb\<lparr>pb_ops := [], pb_removals := R\<rparr>) = ledger m pb" if "mc_table n = t" for n R
      using that tt(3) by (simp add: ledger_def)
    show ?thesis
    proof (cases "pb_removals pb = []")
      case True
      then have r: "pb' = pb\<lparr>pb_ops := []\<rparr>" "m' = ?m" "r = Ok ()"
        using f b \<open>pb_ops pb \<noteq> []\<close> \<open>result = Ok ()\<close> by (auto simp: batch_flush_def Let_def)
      have "ledger m' pb' = ledger m pb" using r tt(3) by (simp add: ledger_def)
      then show ?thesis using ok r tt True by (auto simp: run_ok_def)
    next
      case False
      obtain pr d where p: "prune_touched_ancestor_dirs (sr_world env) (pb_removals pb) (mc_disk m) = (pr, d)" by fastforce
      have r: "pb' = pb\<lparr>pb_ops := [], pb_removals := []\<rparr>" "m' = ?m\<lparr>mc_disk := d\<rparr>"
        using f b p False \<open>pb_ops pb \<noteq> []\<close> \<open>result = Ok ()\<close> by (auto simp: batch_flush_def Let_def)
      have "\<forall>x \<in> set (pb_removals pb). inside (mc_disk m) x" using ok by (auto simp: run_ok_def inside_def)
      from prune_post [OF run_okD(1) [OF ok] this, of "sr_world env"] p
      have d: "dk_escaped d = dk_escaped (mc_disk m)" "disk_ok d"
        "at d k = at (mc_disk m) k \<or> (at (mc_disk m) k = Some Folder \<and> at d k = None)" for k
        by (auto simp: post_def)
      have fa: "file_at d k = file_at (mc_disk m) k" for k using d(3) [of k] by (auto simp: file_at_def)
      have lg: "ledger m' pb' = ledger m pb" using r l by simp
      have md: "mc_disk m' = d" using r(2) by simp
      have "settled (sr_world env) (mc_disk m0) (recorded (mc_table m0)) (mc_disk m') (ledger m' pb')"
        unfolding lg md by (rule settled_same [OF run_okD(5) [OF ok]]) (simp add: fa)
      then have "run_ok env K m0 m' pb'" using ok tt d lg r by (auto simp: run_ok_def)
      then show ?thesis using lg r by simp
    qed
  qed
qed


section \<open>Steps of the execution sink\<close>

fun action_path :: "sync_action \<Rightarrow> gat_path" where
  "action_path (Materialize entry) = entry_path entry"
| "action_path (Replace entry) = entry_path entry"
| "action_path (Rematerialize entry) = entry_path entry"
| "action_path (Remove path) = path"
| "action_path (MissingObject path _) = path"
| "action_path (Corrupted path _) = path"
| "action_path (Conflict resolution) = resolution_path resolution"

text \<open>What an executed action does to the ledger.\<close>

fun act_oid :: "(gat_path \<Rightarrow> oid option) \<Rightarrow> sync_action \<Rightarrow> gat_path \<Rightarrow> oid option" where
  "act_oid L (Materialize entry) = L(entry_path entry \<mapsto> entry_oid entry)"
| "act_oid L (Replace entry) = L(entry_path entry \<mapsto> entry_oid entry)"
| "act_oid L (Rematerialize entry) = L(entry_path entry \<mapsto> entry_oid entry)"
| "act_oid L (Remove path) = L(path := None)"
| "act_oid L _ = L"

lemma resolve_action_path [simp]: "action_path (resolve_action action force) = action_path action"
proof (cases action)
  case (Conflict resolution)
  then show ?thesis by (cases resolution) (simp_all add: resolve_action_def)
qed (simp_all add: resolve_action_def)

definition going :: "surroundings \<Rightarrow> gat_path set \<Rightarrow> machine \<Rightarrow> execute_sink \<Rightarrow> bool" where
  "going env K m0 self \<longleftrightarrow> run_ok env K m0 (es_machine self) (es_pending self)
     \<and> length (pb_ops (es_pending self)) < BATCH_SIZE \<and> \<not> es_flush_failed self"

definition stopped :: "surroundings \<Rightarrow> gat_path set \<Rightarrow> machine \<Rightarrow> execute_sink \<Rightarrow> bool" where
  "stopped env K m0 self \<longleftrightarrow> run_ok env K m0 (es_machine self) (es_pending self)
     \<and> length (pb_ops (es_pending self)) \<le> BATCH_SIZE
     \<and> (es_flush_failed self \<longrightarrow> pb_ops (es_pending self) \<noteq> [] \<longrightarrow> (\<exists>k j. \<not> sr_db env k j))"

definition sink_ledger :: "execute_sink \<Rightarrow> gat_path \<Rightarrow> oid option" where
  "sink_ledger self = ledger (es_machine self) (es_pending self)"

lemma going_stopped: "going env K m0 self \<Longrightarrow> stopped env K m0 self"
  by (simp add: going_def stopped_def)

text \<open>A step from a sink whose batch may be full.\<close>

definition steps :: "surroundings \<Rightarrow> gat_path set \<Rightarrow> machine \<Rightarrow> (gat_path \<Rightarrow> oid option) \<Rightarrow> sync_outcome
    \<Rightarrow> execute_sink \<times> ('e sync_error + unit) \<Rightarrow> bool" where
  "steps env K m0 L out run \<longleftrightarrow> (case run of
     (self, Inr _) \<Rightarrow> going env K m0 self \<and> sink_ledger self = L \<and> es_outcome self = out
   | (self, Inl _) \<Rightarrow> stopped env K m0 self)"

lemma flush_pending_steps:
  assumes "stopped env K m0 self"
  shows "steps env K m0 (sink_ledger self) (es_outcome self) (flush_pending env self :: execute_sink \<times> ('e sync_error + unit))"
proof -
  obtain pb m r where f: "batch_flush env (es_pending self) (es_machine self) = ((pb, m), r :: 'e sync_error + unit)"
    by (metis prod.collapse)
  have ok: "run_ok env K m0 (es_machine self) (es_pending self)" using assms by (simp add: stopped_def)
  note b = batch_flush_ok [OF ok f]
  show ?thesis
    using b f assms by (cases r) (auto simp: steps_def flush_pending_def going_def stopped_def sink_ledger_def BATCH_SIZE_def)
qed

lemma flush_if_full_steps:
  assumes "run_ok env K m0 (es_machine self) (es_pending self)" "length (pb_ops (es_pending self)) \<le> BATCH_SIZE"
    "\<not> es_flush_failed self"
  shows "steps env K m0 (sink_ledger self) (es_outcome self) (execute_flush_if_full env self :: execute_sink \<times> ('e sync_error + unit))"
proof (cases "is_full (es_pending self)")
  case True
  then show ?thesis
    using flush_pending_steps [of env K m0 self] assms by (simp add: execute_flush_if_full_def stopped_def)
next
  case False
  then show ?thesis using assms by (simp add: execute_flush_if_full_def steps_def going_def is_full_def)
qed


lemma beside_file:
  assumes "beside w (resolve_worktree_path p) d d'" "tidy w q" "q \<noteq> p"
  shows "file_at d' (resolve_worktree_path q) = file_at d (resolve_worktree_path q)"
proof -
  let ?k = "resolve_worktree_path q"
  have "\<not> spare w (resolve_worktree_path p) ?k" using tidy_not_spare [OF assms(2)] by blast
  moreover have "?k \<noteq> resolve_worktree_path p" using resolve_inj assms(3) by blast
  ultimately have "at d' ?k = at d ?k \<or> (at d ?k = None \<and> at d' ?k = Some Folder)"
    using assms(1) by (auto simp: beside_def)
  then show ?thesis by (auto simp: file_at_def)
qed

lemma beside_folder:
  assumes "beside w (resolve_worktree_path p) d d'" "tidy w q" "prefix k (resolve_worktree_path q)" "at d k = Some Folder"
    and "k = resolve_worktree_path p \<Longrightarrow> at d' k = at d k"
  shows "at d' k = Some Folder"
  using assms(1,4,5) tidy_not_spare [OF assms(2,3), of "resolve_worktree_path p"] unfolding beside_def
  by (cases "k = resolve_worktree_path p") auto

lemma ledger_disk [simp]: "ledger (m\<lparr>mc_disk := d\<rparr>) pb = ledger m pb"
  by (simp add: ledger_def)

lemma record_push: "ledger m (push_mutation pb op) = record_oid (ledger m pb) op"
  by (simp add: ledger_def push_mutation_def)

lemma record_push_remove: "ledger m (push_remove pb path receipt) = (ledger m pb)(path := None)"
  by (cases receipt) (simp_all add: ledger_def push_remove_def Let_def)

lemma push_lengths [simp]:
  "length (pb_ops (push_mutation pb op)) = Suc (length (pb_ops pb))"
  "pb_removals (push_mutation pb op) = pb_removals pb"
  "length (pb_ops (push_remove pb path receipt)) = Suc (length (pb_ops pb))"
  "pb_removals (push_remove pb path receipt) = pb_removals pb @ (case receipt of None \<Rightarrow> [] | Some r \<Rightarrow> [r])"
  by (simp_all add: push_mutation_def push_remove_def Let_def split: option.split)

lemma run_ok_disk:
  assumes ok: "run_ok env K m0 m pb" and d: "disk_ok d" "dk_escaped d = dk_escaped (mc_disk m)"
    and same: "\<And>q. tidy (sr_world env) q \<Longrightarrow> file_at d (resolve_worktree_path q) = file_at (mc_disk m) (resolve_worktree_path q)"
    and folders: "\<And>q k. tidy (sr_world env) q \<Longrightarrow> strict_prefix k (resolve_worktree_path q) \<Longrightarrow> at (mc_disk m) k = Some Folder \<Longrightarrow> at d k = Some Folder"
  shows "run_ok env K m0 (m\<lparr>mc_disk := d\<rparr>) pb"
proof -
  have "settled (sr_world env) (mc_disk m0) (recorded (mc_table m0)) d (ledger m pb)"
    by (rule settled_same [OF run_okD(5) [OF ok] same])
  moreover have "ledger (m\<lparr>mc_disk := d\<rparr>) pb = ledger m pb" by (simp add: ledger_def)
  moreover have "(\<exists>p. tidy (sr_world env) p \<and> r = resolve_worktree_path p) \<and> (\<forall>q. strict_prefix q r \<longrightarrow> at d q = Some Folder)"
    if "r \<in> set (pb_removals pb)" for r
    using ok that folders unfolding run_ok_def by metis
  ultimately show ?thesis using ok d by (simp add: run_ok_def)
qed

lemma run_ok_step:
  assumes ok: "run_ok env K m0 m pb" and d: "disk_ok d" "dk_escaped d = dk_escaped (mc_disk m)"
    and p: "tidy (sr_world env) p" "p \<in> K"
    and l: "ledger m pb' = (ledger m pb)(p := x)" "agrees (sr_world env) x (file_at d (resolve_worktree_path p))"
    and same: "\<And>q. tidy (sr_world env) q \<Longrightarrow> q \<noteq> p \<Longrightarrow> file_at d (resolve_worktree_path q) = file_at (mc_disk m) (resolve_worktree_path q)"
    and removals: "\<And>r. r \<in> set (pb_removals pb') \<Longrightarrow> r \<in> set (pb_removals pb) \<or> r = resolve_worktree_path p \<and> (\<forall>q. strict_prefix q r \<longrightarrow> at d q = Some Folder)"
    and folders: "\<And>r q. r \<in> set (pb_removals pb) \<Longrightarrow> strict_prefix q r \<Longrightarrow> at (mc_disk m) q = Some Folder \<Longrightarrow> at d q = Some Folder"
  shows "run_ok env K m0 (m\<lparr>mc_disk := d\<rparr>) pb'"
proof -
  let ?m = "m\<lparr>mc_disk := d\<rparr>"
  have lg: "ledger ?m pb' = (ledger m pb)(p := x)" using l(1) by (simp add: ledger_def)
  have "settled (sr_world env) (mc_disk m0) (recorded (mc_table m0)) d ((ledger m pb)(p := x))"
    by (rule settled_at [OF run_okD(5) [OF ok], where p = p]) (use l(2) same in auto)
  moreover have "(\<exists>p. tidy (sr_world env) p \<and> r = resolve_worktree_path p) \<and> (\<forall>q. strict_prefix q r \<longrightarrow> at d q = Some Folder)"
    if r: "r \<in> set (pb_removals pb')" for r
  proof (cases "r \<in> set (pb_removals pb)")
    case True
    then show ?thesis using ok folders unfolding run_ok_def by metis
  next
    case False
    then show ?thesis using removals [OF r] p(1) by blast
  qed
  ultimately show ?thesis using ok d p(2) lg unfolding run_ok_def by auto
qed

lemma client_materialize_post:
  assumes "disk_ok d" "tidy w (entry_path entry)"
  shows "post (client_materialize w entry mode) d (\<lambda>r d'. beside w (resolve_worktree_path (entry_path entry)) d d' \<and>
     (case r of
        Inl _ \<Rightarrow> at d' (resolve_worktree_path (entry_path entry)) = at d (resolve_worktree_path (entry_path entry))
      | Inr mutation \<Rightarrow> (\<forall>L. record_oid L mutation = L(entry_path entry \<mapsto> entry_oid entry))
          \<and> at d (resolve_worktree_path (entry_path entry)) \<noteq> Some Folder
          \<and> (\<exists>n. at d' (resolve_worktree_path (entry_path entry)) = Some n \<and> represents w (entry_oid entry) n)))"
proof -
  have "\<forall>n. w_temp w n \<noteq> last (resolve_worktree_path (entry_path entry))"
    using assms(2) last_in_set [OF resolve_nonempty] unfolding tidy_def by metis
  from materialize_post [OF assms(1) this] show ?thesis
    unfolding client_materialize_def post_bind by (rule post_weaken) (auto split: sum.splits)
qed


lemma on_disk_run: "post f (mc_disk (es_machine self)) (\<lambda>r d. P (self\<lparr>es_machine := (es_machine self)\<lparr>mc_disk := d\<rparr>\<rparr>, map_err err r))
    \<Longrightarrow> P (on_disk f err self)"
  by (auto simp: on_disk_def post_def split: prod.splits)

lemma going_disk:
  assumes "going env K m0 self" "only {} (mc_disk (es_machine self)) d"
  shows "going env K m0 (self\<lparr>es_machine := (es_machine self)\<lparr>mc_disk := d\<rparr>\<rparr>)
    \<and> sink_ledger (self\<lparr>es_machine := (es_machine self)\<lparr>mc_disk := d\<rparr>\<rparr>) = sink_ledger self"
proof -
  have at: "at d = at (mc_disk (es_machine self))" using assms(2) by (auto simp: only_def)
  have "run_ok env K m0 ((es_machine self)\<lparr>mc_disk := d\<rparr>) (es_pending self)"
    by (rule run_ok_disk) (use assms at in \<open>auto simp: going_def only_def file_at_def\<close>)
  then show ?thesis using assms(1) by (simp add: going_def sink_ledger_def ledger_def)
qed

lemma steps_then:
  assumes "steps env K m0 L out run"
    and "\<And>self. going env K m0 self \<Longrightarrow> sink_ledger self = L \<Longrightarrow> es_outcome self = out \<Longrightarrow> Q (f self ())"
    and "\<And>self e. stopped env K m0 self \<Longrightarrow> Q (self, Inl e)"
  shows "Q (sink_then run f)"
  using assms by (cases run; cases "snd run") (auto simp: steps_def sink_then_def)

text \<open>A sink after a mutation has been pushed: the batch may have become full.\<close>

definition pushed :: "surroundings \<Rightarrow> gat_path set \<Rightarrow> machine \<Rightarrow> (gat_path \<Rightarrow> oid option) \<Rightarrow> sync_outcome
    \<Rightarrow> execute_sink \<times> ('e sync_error + unit) \<Rightarrow> bool" where
  "pushed env K m0 L out run \<longleftrightarrow> (case run of
     (self, Inr _) \<Rightarrow> run_ok env K m0 (es_machine self) (es_pending self) \<and> length (pb_ops (es_pending self)) \<le> BATCH_SIZE
       \<and> \<not> es_flush_failed self \<and> sink_ledger self = L \<and> es_outcome self = out
   | (self, Inl _) \<Rightarrow> stopped env K m0 self)"

lemma steps_outcome: "steps env K m0 L out run \<Longrightarrow> out = out' \<Longrightarrow> steps env K m0 L out' run"
  by simp

lemma inspect_steps:
  assumes "going env K m0 self"
  shows "steps env K m0 (sink_ledger self) (es_outcome self)
    (sink_then (on_disk (inspect_move_destination (sr_world env) path) err self) (\<lambda>self kind.
       if kind = DestDirectory then flush_pending env self else (self, Ok ())) :: execute_sink \<times> ('e sync_error + unit))"
proof (rule on_disk_run, rule post_weaken [OF inspect_post])
  show "disk_ok (mc_disk (es_machine self))" using assms by (simp add: going_def run_ok_def)
  fix r :: "worktree_path_error + destination_kind" and d
  assume "only {} (mc_disk (es_machine self)) d \<and> (r = Ok DestDirectory \<longleftrightarrow> (\<exists>k. r = Ok k) \<and> at (mc_disk (es_machine self)) (resolve_worktree_path path) = Some Folder)"
  then have g: "going env K m0 (self\<lparr>es_machine := (es_machine self)\<lparr>mc_disk := d\<rparr>\<rparr>)"
    "sink_ledger (self\<lparr>es_machine := (es_machine self)\<lparr>mc_disk := d\<rparr>\<rparr>) = sink_ledger self"
    using going_disk [OF assms] by blast+
  show "steps env K m0 (sink_ledger self) (es_outcome self)
    (sink_then (self\<lparr>es_machine := (es_machine self)\<lparr>mc_disk := d\<rparr>\<rparr>, map_err err r) (\<lambda>self kind.
       if kind = DestDirectory then flush_pending env self else (self, Ok ())) :: execute_sink \<times> ('e sync_error + unit))"
  proof (cases r)
    case (Inr kind)
    have "steps env K m0 (sink_ledger self) (es_outcome self)
        (flush_pending env (self\<lparr>es_machine := (es_machine self)\<lparr>mc_disk := d\<rparr>\<rparr>) :: execute_sink \<times> ('e sync_error + unit))"
      unfolding g(2) [symmetric] by (rule steps_outcome, rule flush_pending_steps [OF going_stopped [OF g(1)]]) simp
    then show ?thesis using Inr g by (cases "kind = DestDirectory") (simp_all add: sink_then_def steps_def)
  qed (use going_stopped [OF g(1)] in \<open>simp add: sink_then_def steps_def\<close>)
qed

lemma materialize_steps:
  assumes g: "going env K m0 self" and p: "tidy (sr_world env) (entry_path entry)" "entry_path entry \<in> K"
  shows "pushed env K m0 ((sink_ledger self)(entry_path entry \<mapsto> entry_oid entry)) (es_outcome self)
    (sink_then (on_disk (client_materialize (sr_world env) entry mode) err self) (\<lambda>self mutation.
       (self\<lparr>es_pending := push_mutation (es_pending self) mutation\<rparr>, Ok ())) :: execute_sink \<times> ('e sync_error + unit))"
proof (rule on_disk_run, rule post_weaken [OF client_materialize_post])
  let ?dest = "resolve_worktree_path (entry_path entry)"
  let ?d = "mc_disk (es_machine self)"
  have ok: "run_ok env K m0 (es_machine self) (es_pending self)" using g by (simp add: going_def)
  show "disk_ok ?d" "tidy (sr_world env) (entry_path entry)" using ok p by (simp_all add: run_ok_def)
  fix r :: "worktree_mutation_error + state_mutation" and d
  assume a: "beside (sr_world env) ?dest ?d d \<and> (case r of Inl _ \<Rightarrow> at d ?dest = at ?d ?dest
      | Inr mutation \<Rightarrow> (\<forall>L. record_oid L mutation = L(entry_path entry \<mapsto> entry_oid entry))
          \<and> at ?d ?dest \<noteq> Some Folder \<and> (\<exists>n. at d ?dest = Some n \<and> represents (sr_world env) (entry_oid entry) n))"
  have b: "beside (sr_world env) ?dest ?d d" and d: "disk_ok d" "dk_escaped d = dk_escaped ?d" using a by (simp_all add: beside_def)
  have dest: "k = ?dest \<Longrightarrow> at ?d k = Some Folder \<Longrightarrow> at d k = at ?d k" for k using a by (cases r) auto
  show "pushed env K m0 ((sink_ledger self)(entry_path entry \<mapsto> entry_oid entry)) (es_outcome self)
    (sink_then (self\<lparr>es_machine := (es_machine self)\<lparr>mc_disk := d\<rparr>\<rparr>, map_err err r) (\<lambda>self mutation.
       (self\<lparr>es_pending := push_mutation (es_pending self) mutation\<rparr>, Ok ())) :: execute_sink \<times> ('e sync_error + unit))"
  proof (cases r)
    case (Inl e)
    have f: "file_at d (resolve_worktree_path q) = file_at ?d (resolve_worktree_path q)" if "tidy (sr_world env) q" for q
      using a Inl beside_file [OF b that] by (cases "q = entry_path entry") (auto simp: file_at_def)
    have "run_ok env K m0 ((es_machine self)\<lparr>mc_disk := d\<rparr>) (es_pending self)"
      by (rule run_ok_disk [OF ok d f]) (use beside_folder [OF b] dest in \<open>auto simp: strict_prefix_def\<close>)
    then show ?thesis using Inl g by (simp add: sink_then_def pushed_def stopped_def going_def)
  next
    case (Inr mutation)
    then obtain n where n: "at d ?dest = Some n" "represents (sr_world env) (entry_oid entry) n" using a by auto
    have l: "ledger (es_machine self) (push_mutation (es_pending self) mutation)
        = (ledger (es_machine self) (es_pending self))(entry_path entry \<mapsto> entry_oid entry)"
      using a Inr by (simp add: record_push)
    have "run_ok env K m0 ((es_machine self)\<lparr>mc_disk := d\<rparr>) (push_mutation (es_pending self) mutation)"
    proof (rule run_ok_step [OF ok d p l])
      show "agrees (sr_world env) (Some (entry_oid entry)) (file_at d ?dest)"
        using n represents_file [OF n(2)] by (simp add: agrees_def file_at_def)
      show "at d q = Some Folder" 
        if x: "x \<in> set (pb_removals (es_pending self))" and q: "strict_prefix q x" "at ?d q = Some Folder" for x q
      proof -
        obtain p' where p': "tidy (sr_world env) p'" "x = resolve_worktree_path p'"
          using run_ok_removals [OF ok x] by blast
        show ?thesis by (rule beside_folder [OF b p'(1) _ q(2)]) (use q dest p'(2) in \<open>auto simp: strict_prefix_def\<close>)
      qed
      show "file_at d (resolve_worktree_path q) = file_at ?d (resolve_worktree_path q)"
        if "tidy (sr_world env) q" "q \<noteq> entry_path entry" for q
        by (rule beside_file [OF b that])
    qed simp
    moreover have "length (pb_ops (es_pending self)) < BATCH_SIZE" "\<not> es_flush_failed self" using g by (simp_all add: going_def)
    ultimately show ?thesis unfolding Inr sink_ledger_def l [symmetric] by (simp add: sink_then_def pushed_def sink_ledger_def)
  qed
qed


lemma remove_steps:
  assumes g: "going env K m0 self" and p: "tidy (sr_world env) path" "path \<in> K"
  shows "pushed env K m0 ((sink_ledger self)(path := None)) (es_outcome self)
    (apply_remove env self path :: execute_sink \<times> ('e sync_error + unit))"
  unfolding apply_remove_def
proof (rule on_disk_run, rule post_weaken [OF remove_post])
  let ?dest = "resolve_worktree_path path"
  let ?d = "mc_disk (es_machine self)"
  have ok: "run_ok env K m0 (es_machine self) (es_pending self)" using g by (simp add: going_def)
  show "disk_ok ?d" using ok by (simp add: run_ok_def)
  fix r :: "worktree_mutation_error + comps option" and d
  assume a: "only {?dest} ?d d \<and> (case r of
        Inr (Some receipt) \<Rightarrow> receipt = ?dest \<and> at d receipt = None \<and> (\<exists>n. at ?d receipt = Some n \<and> n \<noteq> Folder)
      | Inr None \<Rightarrow> only {} ?d d \<and> at ?d ?dest = None
      | Inl e \<Rightarrow> only {} ?d d)"
  have d: "disk_ok d" "dk_escaped d = dk_escaped ?d" using a by (simp_all add: only_def)
  have off: "at d k = at ?d k" if "k \<noteq> ?dest" for k using a that by (auto simp: only_def)
  show "pushed env K m0 ((sink_ledger self)(path := None)) (es_outcome self)
    (sink_then (self\<lparr>es_machine := (es_machine self)\<lparr>mc_disk := d\<rparr>\<rparr>, map_err MutationError r) (\<lambda>self receipt.
       (self\<lparr>es_pending := push_remove (es_pending self) path receipt\<rparr>, Ok ())) :: execute_sink \<times> ('e sync_error + unit))"
  proof (cases r)
    case (Inl e)
    then have "only {} ?d d" using a by simp
    then show ?thesis using going_disk [OF g] going_stopped Inl by (auto simp: sink_then_def pushed_def)
  next
    case (Inr receipt)
    have gone: "at d ?dest = None" "at ?d ?dest \<noteq> Some Folder" "receipt \<noteq> None \<longrightarrow> receipt = Some ?dest \<and> (\<exists>n. at ?d ?dest = Some n)"
      using a Inr by (auto simp: only_def split: option.splits)
    have l: "ledger (es_machine self) (push_remove (es_pending self) path receipt)
        = (ledger (es_machine self) (es_pending self))(path := None)"
      by (rule record_push_remove)
    have folders: "at d q = Some Folder" if "at ?d q = Some Folder" for q using off [of q] that gone(2) by auto
    have above: "at ?d q = Some Folder" if "strict_prefix q ?dest" "at ?d ?dest = Some n" for q n
      by (rule tree_ok_prefix [OF run_okD(1) [OF ok] _ that(1)]) (simp add: that(2))
    have "run_ok env K m0 ((es_machine self)\<lparr>mc_disk := d\<rparr>) (push_remove (es_pending self) path receipt)"
    proof (rule run_ok_step [OF ok d p l])
      show "agrees (sr_world env) None (file_at d ?dest)" using gone(1) by (simp add: agrees_def file_at_def)
      show "file_at d (resolve_worktree_path q) = file_at ?d (resolve_worktree_path q)"
        if "tidy (sr_world env) q" "q \<noteq> path" for q
      proof -
        have "resolve_worktree_path q \<noteq> ?dest" using that(2) resolve_inj by blast
        then show ?thesis by (simp add: file_at_def off)
      qed
      show "x \<in> set (pb_removals (es_pending self)) \<or> x = ?dest \<and> (\<forall>q. strict_prefix q x \<longrightarrow> at d q = Some Folder)"
        if "x \<in> set (pb_removals (push_remove (es_pending self) path receipt))" for x
        using that gone(3) above folders by (cases receipt) auto
      show "at d q = Some Folder" if "x \<in> set (pb_removals (es_pending self))" "strict_prefix q x" "at ?d q = Some Folder" for x q
        using folders that(3) .
    qed
    moreover have "length (pb_ops (es_pending self)) < BATCH_SIZE" "\<not> es_flush_failed self" using g by (simp_all add: going_def)
    ultimately show ?thesis unfolding Inr sink_ledger_def l [symmetric] by (simp add: sink_then_def pushed_def sink_ledger_def)
  qed
qed

lemma apply_materialize_steps:
  assumes g: "going env K m0 self" and p: "tidy (sr_world env) (entry_path entry)" "entry_path entry \<in> K"
  shows "pushed env K m0 ((sink_ledger self)(entry_path entry \<mapsto> entry_oid entry)) (es_outcome self)
    (apply_materialize env self entry :: execute_sink \<times> ('e sync_error + unit))"
  unfolding apply_materialize_def
proof (rule steps_then)
  show "steps env K m0 (sink_ledger self) (es_outcome self)
      (if pb_removals (es_pending self) \<noteq> [] then
          sink_then (on_disk (inspect_move_destination (sr_world env) (entry_path entry)) PathError self) (\<lambda>self kind.
            if kind = DestDirectory then flush_pending env self else (self, Ok ()))
        else (self, Ok ()) :: execute_sink \<times> ('e sync_error + unit))"
  proof (cases "pb_removals (es_pending self) = []")
    case False
    then show ?thesis by (simp add: inspect_steps [OF g])
  qed (simp add: steps_def g)
  show "pushed env K m0 ((sink_ledger self)(entry_path entry \<mapsto> entry_oid entry)) (es_outcome self)
      (sink_then (on_disk (client_materialize (sr_world env) entry (es_mode self')) MutationError self') (\<lambda>self mutation.
       (self\<lparr>es_pending := push_mutation (es_pending self) mutation\<rparr>, Ok ())) :: execute_sink \<times> ('e sync_error + unit))"
    if g': "going env K m0 self'" and s: "sink_ledger self' = sink_ledger self" "es_outcome self' = es_outcome self" for self'
    unfolding s [symmetric] by (rule materialize_steps [OF g' p])
qed (simp add: pushed_def)

lemma action_steps:
  assumes g: "going env K m0 self" and p: "tidy (sr_world env) (action_path action)" "action_path action \<in> K"
  shows "steps env K m0 (act_oid (sink_ledger self) (resolve_action action (es_force self)))
    (record_action (es_outcome self) (resolve_action action (es_force self)))
    (execute_action env self action :: execute_sink \<times> ('e sync_error + unit))"
proof -
  let ?a = "resolve_action action (es_force self)"
  have path: "tidy (sr_world env) (action_path ?a)" "action_path ?a \<in> K" using p by simp_all
  have here: "pushed env K m0 (sink_ledger self) (es_outcome self) (self, Ok () :: 'e sync_error + unit)"
    using g by (simp add: pushed_def going_def)
  have "pushed env K m0 (act_oid (sink_ledger self) ?a) (es_outcome self)
      (case ?a of
         Materialize entry \<Rightarrow> (apply_materialize env self entry :: execute_sink \<times> ('e sync_error + unit))
       | Replace entry \<Rightarrow> apply_materialize env self entry
       | Rematerialize entry \<Rightarrow> apply_materialize env self entry
       | Remove path \<Rightarrow> apply_remove env self path
       | MissingObject _ _ \<Rightarrow> (self, Ok ())
       | Corrupted _ _ \<Rightarrow> (self, Ok ())
       | Conflict _ \<Rightarrow> (self, Ok ()))"
    using path apply_materialize_steps [OF g] remove_steps [OF g] here by (cases ?a) simp_all
  then have "pushed env K m0 (act_oid (sink_ledger self) ?a) (record_action (es_outcome self) ?a)
      (apply_action env self action :: execute_sink \<times> ('e sync_error + unit))"
    unfolding apply_action_def Let_def pushed_def sink_then_def by (auto split: prod.splits sum.splits simp: sink_ledger_def)
  then show ?thesis
    unfolding execute_action_def sink_then_def
    using flush_if_full_steps by (fastforce simp: pushed_def steps_def split: prod.splits sum.splits)
qed

lemma state_mutation_steps:
  assumes g: "going env K m0 self" and r: "is_refresh mutation"
  shows "steps env K m0 (sink_ledger self) (es_outcome self)
    (execute_state_mutation env self mutation :: execute_sink \<times> ('e sync_error + unit))"
proof -
  let ?pb = "push_mutation (es_pending self) mutation"
  have l: "ledger (es_machine self) ?pb = ledger (es_machine self) (es_pending self)"
    using r by (cases mutation) (simp_all add: record_push)
  have "run_ok env K m0 (es_machine self) ?pb" using g l by (simp add: going_def run_ok_def)
  then have "steps env K m0 (sink_ledger (self\<lparr>es_pending := ?pb\<rparr>)) (es_outcome (self\<lparr>es_pending := ?pb\<rparr>))
      (execute_flush_if_full env (self\<lparr>es_pending := ?pb\<rparr>) :: execute_sink \<times> ('e sync_error + unit))"
    by (intro flush_if_full_steps) (use g in \<open>simp_all add: going_def\<close>)
  then show ?thesis using l by (simp add: execute_state_mutation_def sink_ledger_def)
qed

end
