(* ===== verification/SyncRuns.thy ===== *)
theory SyncRuns
  imports SyncLedger
begin

text \<open>
  Whole synchronizations: a planner driving a sink that may refuse, the pages of dirty rows, and the
  properties of the two ways a synchronization runs.
\<close>

section \<open>Sinks that may refuse\<close>

text \<open>
  A sink driven by the planner: while it accepts it keeps \<open>I\<close>, when it refuses it is left with \<open>J\<close>. The
  planner hands it actions on paths that satisfy \<open>T\<close> and proof refreshes, whatever the verifier answers.
\<close>

locale driven_sink =
  fixes act :: "('s, sync_action, 'e) sink_op"
    and mutate :: "('s, state_mutation, 'e) sink_op"
    and I :: "'s \<Rightarrow> bool"
    and J :: "'s \<Rightarrow> bool"
    and T :: "gat_path \<Rightarrow> bool"
  assumes act_drive: "I s \<Longrightarrow> T (action_path a) \<Longrightarrow> (case act s a of (s', Inr _) \<Rightarrow> I s' | (s', Inl _) \<Rightarrow> J s')"
    and mutate_drive: "I s \<Longrightarrow> is_refresh m \<Longrightarrow> (case mutate s m of (s', Inr _) \<Rightarrow> I s' | (s', Inl _) \<Rightarrow> J s')"
    and stop: "I s \<Longrightarrow> J s"
begin

fun planned_row :: "buffered_row \<Rightarrow> bool" where
  "planned_row (Ready action) \<longleftrightarrow> T (action_path action)"
| "planned_row (Pending kind _) \<longleftrightarrow> T (entry_path (pc_entry kind))"

fun planned_decision :: "decision \<Rightarrow> bool" where
  "planned_decision Skip \<longleftrightarrow> True"
| "planned_decision (Enqueue kind) \<longleftrightarrow> T (entry_path (pc_entry kind))"
| "planned_decision (Push action) \<longleftrightarrow> T (action_path action)"
| "planned_decision (Refresh mutation) \<longleftrightarrow> is_refresh mutation"

definition held :: "('c, 's) merge_buffer \<Rightarrow> bool" where
  "held b \<longleftrightarrow> I (mb_sink b) \<and> (\<forall>row \<in> set (mb_rows b). planned_row row)"

definition drives :: "('c, 's) merge_buffer \<times> ('e + unit) \<Rightarrow> bool" where
  "drives run \<longleftrightarrow> (case run of (b, Inr _) \<Rightarrow> held b | (b, Inl _) \<Rightarrow> J (mb_sink b))"

lemma classify_path: "action_path (classify_object status entry intent) = entry_path entry"
  by (cases status; cases intent) (simp_all add: classify_object_def)

lemma ball_subset: "\<forall>x \<in> set (y # ys). P x \<Longrightarrow> \<forall>x \<in> set ys. P x"
  by simp

lemma drain_drives:
  assumes "I s" "\<forall>row \<in> set rows. planned_row row"
  shows "case drain act statuses rows s of (s', Inr _) \<Rightarrow> I s' | (s', Inl _) \<Rightarrow> J s'"
  using assms
proof (induction rows arbitrary: s)
  case (Cons row rows)
  let ?a = "case row of Ready action \<Rightarrow> action | Pending kind slot \<Rightarrow> classify_object (statuses ! slot) (pc_entry kind) (pc_intent kind)"
  have "T (action_path ?a)" using Cons.prems(2) by (cases row) (simp_all add: classify_path)
  then show ?case
    using act_drive [OF Cons.prems(1), of ?a] Cons.IH [OF _ ball_subset [OF Cons.prems(2)]]
    by (fastforce simp: Let_def split: prod.splits sum.splits)
qed simp

lemma flush_drives:
  assumes "held b"
  shows "drives (buffer_flush verify act b)"
proof (cases "mb_rows b = []")
  case True
  then show ?thesis using assms by (simp add: drives_def buffer_flush_def)
next
  case False
  have I: "I (mb_sink b)" and rows: "\<forall>row \<in> set (mb_rows b). planned_row row" using assms by (simp_all add: held_def)
  note d = drain_drives [OF I rows]
  show ?thesis
  proof (cases "mb_pending_oids b = []")
    case True
    then show ?thesis using d [of "[]"] False by (auto simp: buffer_flush_def drives_def held_def split: prod.splits sum.splits)
  next
    case pending: False
    obtain client r where v: "verify (mb_rematerialize b) (mb_client b) (mb_pending_oids b) = (client, r)" by fastforce
    show ?thesis
    proof (cases r)
      case (Inl e)
      then show ?thesis using False pending v stop [OF I] by (simp add: buffer_flush_def drives_def)
    next
      case (Inr statuses)
      then show ?thesis
        using d [of statuses] False pending v by (auto simp: buffer_flush_def drives_def held_def split: prod.splits sum.splits)
    qed
  qed
qed

lemma if_full_drives: "held b \<Longrightarrow> drives (flush_if_full verify act b)"
  by (cases "mb_window b \<le> length (mb_rows b)") (simp_all add: flush_if_full_def flush_drives, simp add: drives_def)

lemma deliver_drives:
  assumes "held b" "case result of Inr d \<Rightarrow> planned_decision d | Inl _ \<Rightarrow> True"
  shows "drives (deliver verify act mutate result b)"
proof (cases result)
  case (Inl e)
  then show ?thesis using assms stop by (simp add: deliver_def drives_def held_def)
next
  case (Inr d)
  show ?thesis
  proof (cases d)
    case Skip
    then show ?thesis using assms Inr by (simp add: deliver_def drives_def)
  next
    case (Enqueue kind)
    let ?oid = "entry_oid (pc_entry kind)"
    let ?fresh = "b\<lparr>mb_pending_oids := mb_pending_oids b @ [?oid],
        mb_pending_slots := (mb_pending_slots b)(?oid \<mapsto> length (mb_pending_oids b))\<rparr>"
    have h: "held (b'\<lparr>mb_rows := mb_rows b' @ [Pending kind slot]\<rparr>)"
      if "mb_sink b' = mb_sink b" "mb_rows b' = mb_rows b" for b' :: "('c, 's) merge_buffer" and slot
      using that assms Inr Enqueue by (auto simp: held_def)
    have go: "drives (if n \<ge> VERIFY_WINDOW then buffer_flush verify act b' else flush_if_full verify act b')"
      if "held b'" for b' n
      using that by (simp add: flush_drives if_full_drives)
    show ?thesis
    proof (cases "mb_pending_slots b ?oid")
      case None
      have "held (?fresh\<lparr>mb_rows := mb_rows ?fresh @ [Pending kind (length (mb_pending_oids b))]\<rparr>)" by (rule h) simp_all
      from go [OF this] show ?thesis using Inr Enqueue None by (simp add: deliver_def push_pending_def Let_def)
    next
      case (Some slot)
      have "held (b\<lparr>mb_rows := mb_rows b @ [Pending kind slot]\<rparr>)" by (rule h) simp_all
      from go [OF this] show ?thesis using Inr Enqueue Some by (simp add: deliver_def push_pending_def Let_def)
    qed
  next
    case (Push action)
    then have "held (b\<lparr>mb_rows := mb_rows b @ [Ready action]\<rparr>)" using assms Inr by (auto simp: held_def)
    then show ?thesis using Inr Push by (simp add: deliver_def push_ready_def if_full_drives)
  next
    case (Refresh mutation)
    then show ?thesis
      using mutate_drive [of "mb_sink b" mutation] assms Inr
      by (auto simp: deliver_def buffer_state_mutation_def drives_def held_def split: prod.splits sum.splits)
  qed
qed

lemma drives_then:
  assumes "drives run" "\<And>b. held b \<Longrightarrow> drives (f b)"
  shows "drives (case run of (b, Inl e) \<Rightarrow> (b, Err e) | (b, Inr _) \<Rightarrow> f b)"
  using assms by (cases run; cases "snd run") (auto simp: drives_def)

lemma both_planned:
  assumes "T (entry_path d)"
  shows "case both_decision wt policy d prior of Inr x \<Rightarrow> planned_decision x | Inl _ \<Rightarrow> True"
proof (cases "prior_file_status wt prior (policy_validation policy)")
  case (Inl e)
  then show ?thesis using assms by (simp add: both_decision_def and_then_def pending_new_def Let_def)
next
  case (Inr status)
  then show ?thesis
    using assms by (cases "ws_kind status"; cases "ws_proof_refresh status")
      (simp_all add: both_decision_def and_then_def pending_new_def Let_def into_state_refresh_def)
qed

lemma desired_only_planned:
  "T (entry_path d) \<Longrightarrow> case map_ok Enqueue (desired_only_pending wt d v) of Inr x \<Rightarrow> planned_decision x | Inl _ \<Rightarrow> True"
  by (auto simp: desired_only_pending_def map_ok_def and_then_def pending_new_def
      split: sum.splits worktree_status_kind.splits if_splits)

lemma prior_only_planned:
  "T (mr_path prior) \<Longrightarrow> case map_ok opt_decision (prior_only_action wt prior v) of Inr x \<Rightarrow> planned_decision x | Inl _ \<Rightarrow> True"
  by (auto simp: prior_only_action_def map_ok_def and_then_def opt_decision_def
      split: sum.splits option.splits worktree_status_kind.splits if_splits)

end

text \<open>Every row a source will still return has a path in \<open>T\<close>.\<close>

definition within :: "(gat_path \<Rightarrow> bool) \<Rightarrow> ('a \<Rightarrow> gat_path) \<Rightarrow> ('e + 'a) list \<Rightarrow> bool" where
  "within T path xs \<longleftrightarrow> (\<forall>y. Inr y \<in> set xs \<longrightarrow> T (path y))"

lemma next_row_within: "within T f xs \<Longrightarrow> next_row xs = (Inr c, xs') \<Longrightarrow> pred_option (\<lambda>x. T (f x)) c \<and> within T f xs'"
  by (cases xs rule: next_row.cases) (auto simp: within_def)

lemma next_prior_within:
  "within T mr_path xs \<Longrightarrow> next_matching_prior g xs = (Inr c, xs') \<Longrightarrow> pred_option (\<lambda>x. T (mr_path x)) c \<and> within T mr_path xs'"
  by (induction g xs rule: next_matching_prior.induct) (auto simp: within_def split: if_splits)

context driven_sink
begin

lemma held_drives: "held b \<Longrightarrow> drives (b, Inl e)"
  using stop by (simp add: drives_def held_def)

lemma next_then:
  fixes xs :: "('e + entry) list"
  assumes "within T entry_path xs" "held b"
    and "\<And>c xs'. next_row xs = (Inr c, xs') \<Longrightarrow> pred_option (\<lambda>x. T (entry_path x)) c \<Longrightarrow> within T entry_path xs' \<Longrightarrow> drives (f c xs')"
  shows "drives (case next_row xs of (Inl e, _) \<Rightarrow> (b, Err e) | (Inr c, xs') \<Rightarrow> f c xs')"
proof (cases "next_row xs")
  case (Pair r xs')
  then show ?thesis
    using assms(3) next_row_within [OF assms(1)] by (cases r) (simp_all add: held_drives [OF assms(2)])
qed

lemma next_prior_then:
  fixes xs :: "('e + materialized_row) list"
  assumes "within T mr_path xs" "held b"
    and "\<And>c xs'. next_matching_prior g xs = (Inr c, xs') \<Longrightarrow> pred_option (\<lambda>x. T (mr_path x)) c \<Longrightarrow> within T mr_path xs' \<Longrightarrow> drives (f c xs')"
  shows "drives (case next_matching_prior g xs of (Inl e, _) \<Rightarrow> (b, Err e) | (Inr c, xs') \<Rightarrow> f c xs')"
proof (cases "next_matching_prior g xs")
  case (Pair r xs')
  then show ?thesis
    using assms(3) next_prior_within [OF assms(1)] by (cases r) (simp_all add: held_drives [OF assms(2)])
qed

lemma loop_drives:
  fixes cd :: "entry option" and cp :: "materialized_row option"
  assumes "pred_option (\<lambda>e. T (entry_path e)) cd" "within T entry_path ds"
    "pred_option (\<lambda>r. T (mr_path r)) cp" "within T mr_path ps" "held b"
  shows "drives (merge_loop wt verify act mutate matches policy cd ds cp ps b)"
  using assms
proof (induction "weight cd ds + weight cp ps" arbitrary: cd ds cp ps b rule: less_induct)
  case less
  have IH: "drives (merge_loop wt verify act mutate matches policy cd' ds' cp' ps' b')"
    if "weight cd' ds' + weight cp' ps' < weight cd ds + weight cp ps"
      "pred_option (\<lambda>e. T (entry_path e)) cd'" "within T entry_path ds'"
      "pred_option (\<lambda>r. T (mr_path r)) cp'" "within T mr_path ps'" "held b'" for cd' ds' cp' ps' b'
    using less.hyps that by blast
  note w = weight_def [of "Some _"]
  have desired_step: "drives (case deliver verify act mutate (map_ok Enqueue (desired_only_pending wt d (policy_validation policy))) b of
               (b, Inl e) \<Rightarrow> (b, Err e)
             | (b, Inr _) \<Rightarrow>
                 (case next_row ds of
                    (Inl e, _) \<Rightarrow> (b, Err e)
                  | (Inr cd, ds) \<Rightarrow> merge_loop wt verify act mutate matches policy cd ds cp ps b))"
    if d: "cd = Some d" for d
  proof (rule drives_then [OF deliver_drives [OF less.prems(5) desired_only_planned]])
    show "T (entry_path d)" using less.prems(1) d by simp
    show "drives (case next_row ds of (Inl e, _) \<Rightarrow> (b', Err e)
        | (Inr cd, ds) \<Rightarrow> merge_loop wt verify act mutate matches policy cd ds cp ps b')" if "held b'" for b'
      by (rule next_then [OF less.prems(2) that], rule IH)
        (use d less.prems that in \<open>auto dest!: next_row_shrinks simp: w\<close>)
  qed
  have prior_step: "drives (case deliver verify act mutate (map_ok opt_decision (prior_only_action wt prior (policy_validation policy))) b of
               (b, Inl e) \<Rightarrow> (b, Err e)
             | (b, Inr _) \<Rightarrow>
                 (case next_matching_prior matches ps of
                    (Inl e, _) \<Rightarrow> (b, Err e)
                  | (Inr cp, ps) \<Rightarrow> merge_loop wt verify act mutate matches policy cd ds cp ps b))"
    if p: "cp = Some prior" for prior
  proof (rule drives_then [OF deliver_drives [OF less.prems(5) prior_only_planned]])
    show "T (mr_path prior)" using less.prems(3) p by simp
    show "drives (case next_matching_prior matches ps of (Inl e, _) \<Rightarrow> (b', Err e)
        | (Inr cp, ps) \<Rightarrow> merge_loop wt verify act mutate matches policy cd ds cp ps b')" if "held b'" for b'
      by (rule next_prior_then [OF less.prems(4) that], rule IH)
        (use p less.prems that in \<open>auto dest!: next_matching_prior_shrinks simp: w\<close>)
  qed
  show ?case
  proof (cases cd)
    case None
    show ?thesis
    proof (cases cp)
      case None
      then show ?thesis using \<open>cd = None\<close> less.prems(5) flush_drives by (simp add: merge_loop.simps)
    next
      case (Some prior)
      then show ?thesis using None prior_step [OF Some, unfolded None] by (subst merge_loop.simps) simp
    qed
  next
    case (Some d)
    note cd = Some
    show ?thesis
    proof (cases cp)
      case None
      then show ?thesis using cd desired_step [OF cd, unfolded None] by (subst merge_loop.simps) simp
    next
      case (Some prior)
      have both: "drives (case deliver verify act mutate (both_decision wt policy d prior) b of
               (b, Inl e) \<Rightarrow> (b, Err e)
             | (b, Inr _) \<Rightarrow>
                 (case next_row ds of
                    (Inl e, _) \<Rightarrow> (b, Err e)
                  | (Inr cd, ds) \<Rightarrow>
                      (case next_matching_prior matches ps of
                         (Inl e, _) \<Rightarrow> (b, Err e)
                       | (Inr cp, ps) \<Rightarrow> merge_loop wt verify act mutate matches policy cd ds cp ps b)))"
      proof (rule drives_then [OF deliver_drives [OF less.prems(5) both_planned]])
        show "T (entry_path d)" using less.prems(1) cd by simp
        show "drives (case next_row ds of (Inl e, _) \<Rightarrow> (b', Err e)
            | (Inr cd, ds) \<Rightarrow>
                (case next_matching_prior matches ps of (Inl e, _) \<Rightarrow> (b', Err e)
                 | (Inr cp, ps) \<Rightarrow> merge_loop wt verify act mutate matches policy cd ds cp ps b'))" if "held b'" for b'
          by (rule next_then [OF less.prems(2) that], rule next_prior_then [OF less.prems(4) that], rule IH)
            (use cd Some that in \<open>auto dest!: next_row_shrinks next_matching_prior_shrinks simp: w\<close>)
      qed
      show ?thesis
        using cd Some both desired_step [OF cd, unfolded Some] prior_step [OF Some, unfolded cd]
        by (subst merge_loop.simps) simp
    qed
  qed
qed

end


text \<open>The paths a plan may act on.\<close>

definition row_paths :: "('a \<Rightarrow> gat_path) \<Rightarrow> ('e + 'a) list \<Rightarrow> gat_path set" where
  "row_paths f xs = {f y | y. Inr y \<in> set xs}"

fun source_paths :: "'e desired_source \<Rightarrow> gat_path set" where
  "source_paths (FromLock lock store) =
     entry_path ` set (lock_entries lock) \<union> (case store of None \<Rightarrow> {} | Some rows \<Rightarrow> row_paths mr_path rows)"
| "source_paths (FromStore entries rows) = row_paths entry_path entries \<union> row_paths mr_path rows"

context driven_sink
begin

lemma merge_drives:
  fixes ds :: "('e + entry) list" and ps :: "('e + materialized_row) list"
  assumes "within T entry_path ds" "within T mr_path ps" "I s"
  shows "drives (merge_desired_with_prior wt verify act mutate matches policy ds ps window client s)"
proof -
  have h: "held (buffer_new client window s (policy_rematerialize policy))"
    using assms(3) by (simp add: held_def buffer_new_def)
  show ?thesis
    unfolding merge_desired_with_prior_def Let_def
    by (rule next_then [OF assms(1) h], rule next_prior_then [OF assms(2) h], rule loop_drives [OF _ _ _ _ h])
qed

lemma scope_within: "within T mr_path rows \<Longrightarrow> within T mr_path (rows_in_scope scope rows)"
  by (auto simp: within_def rows_in_scope_def)

lemma plan_drives:
  fixes wanted :: "'e desired_source"
  assumes "\<forall>p \<in> source_paths wanted. T p" "I s"
  shows "drives (plan_into_sink wt verify act mutate matches_with wanted sel policy window client s)"
proof (cases wanted)
  case (FromLock lock store)
  have e: "within T entry_path (map Inr (filter_desired_entries (selection_matches matches_with sel) (lock_entries lock)))"
    using assms(1) FromLock by (auto simp: within_def filter_desired_entries_def)
  show ?thesis
  proof (cases store)
    case None
    have "within T mr_path []" by (simp add: within_def)
    from merge_drives [OF e this assms(2)] show ?thesis using FromLock None by (simp add: plan_into_sink_def Let_def)
  next
    case (Some rows)
    have "within T mr_path rows" using assms(1) FromLock Some by (auto simp: within_def row_paths_def)
    from merge_drives [OF e scope_within [OF this] assms(2)] show ?thesis
      using FromLock Some by (simp add: plan_into_sink_def Let_def)
  qed
next
  case (FromStore entries rows)
  have "within T mr_path rows" using assms(1) FromStore by (auto simp: within_def row_paths_def)
  note r = scope_within [OF this]
  have "within T entry_path (with_desired_rows (selection_matches matches_with sel) entries)"
    using assms(1) FromStore by (auto simp: within_def row_paths_def with_desired_rows_def)
  from merge_drives [OF this r assms(2)] show ?thesis using FromStore by (simp add: plan_into_sink_def Let_def)
qed

end

interpretation exec: driven_sink "execute_action env" "execute_state_mutation env" "going env K m0" "stopped env K m0"
    "\<lambda>p. tidy (sr_world env) p \<and> p \<in> K"
  for env :: surroundings and K :: "gat_path set" and m0 :: machine
proof
  fix s a
  assume "going env K m0 s" "tidy (sr_world env) (action_path a) \<and> action_path a \<in> K"
  then have "steps env K m0 (act_oid (sink_ledger s) (resolve_action a (es_force s)))
      (record_action (es_outcome s) (resolve_action a (es_force s)))
      (execute_action env s a :: execute_sink \<times> ('a sync_error + unit))"
    by (intro action_steps) auto
  then show "case (execute_action env s a :: execute_sink \<times> ('a sync_error + unit)) of
      (s', Inl _) \<Rightarrow> stopped env K m0 s' | (s', Inr _) \<Rightarrow> going env K m0 s'"
    by (auto simp: steps_def split: prod.splits sum.splits)
next
  fix s m
  assume "going env K m0 s" "is_refresh m"
  then have "steps env K m0 (sink_ledger s) (es_outcome s) (execute_state_mutation env s m :: execute_sink \<times> ('a sync_error + unit))"
    by (rule state_mutation_steps)
  then show "case (execute_state_mutation env s m :: execute_sink \<times> ('a sync_error + unit)) of
      (s', Inl _) \<Rightarrow> stopped env K m0 s' | (s', Inr _) \<Rightarrow> going env K m0 s'"
    by (auto simp: steps_def split: prod.splits sum.splits)
next
  fix s assume "going env K m0 s" then show "stopped env K m0 s" by (rule going_stopped)
qed

section \<open>A run keeps the ledger true\<close>

definition machine_ok :: "machine \<Rightarrow> bool" where
  "machine_ok m \<longleftrightarrow> disk_ok (mc_disk m) \<and> table_ok (mc_table m)"

lemma begin_ok:
  assumes "machine_ok m" "\<forall>p. recorded (mc_table m) p \<noteq> None \<longrightarrow> p \<in> K"
  shows "going env K m (execute_new m mode force)"
  using assms by (simp add: going_def execute_new_def pending_default_def BATCH_SIZE_def run_ok_def machine_ok_def ledger_def settled_def)

text \<open>
  What a run from \<open>m0\<close> to \<open>m\<close> leaves: \<open>ops\<close> are the mutations that reached the disk and not the table.
\<close>

definition left_by :: "surroundings \<Rightarrow> gat_path set \<Rightarrow> machine \<Rightarrow> machine \<Rightarrow> state_mutation list \<Rightarrow> bool" where
  "left_by env K m0 m ops \<longleftrightarrow>
     machine_ok m \<and> dk_escaped (mc_disk m) = dk_escaped (mc_disk m0) \<and> desired (mc_table m) = desired (mc_table m0)
     \<and> (\<forall>p. recorded (mc_table m) p \<noteq> None \<longrightarrow> p \<in> K)
     \<and> length ops \<le> BATCH_SIZE \<and> (ops \<noteq> [] \<longrightarrow> (\<exists>k j. \<not> sr_db env k j))
     \<and> settled (sr_world env) (mc_disk m0) (recorded (mc_table m0)) (mc_disk m) (foldl record_oid (recorded (mc_table m)) ops)"

lemma run_left:
  assumes "run_ok env K m0 m pb" "length (pb_ops pb) \<le> BATCH_SIZE" "pb_ops pb \<noteq> [] \<Longrightarrow> \<exists>k j. \<not> sr_db env k j"
  shows "left_by env K m0 m (pb_ops pb)"
  using assms unfolding left_by_def run_ok_def machine_ok_def ledger_def by simp

lemma finish_left:
  assumes "case run of (self, Inr _) \<Rightarrow> going env K m0 self | (self, Inl _) \<Rightarrow> stopped env K m0 self"
    and f: "execute_finish env run = (m, r :: 'e sync_error + sync_outcome)"
  shows "\<exists>ops. left_by env K m0 m ops \<and> (\<forall>out. r = Ok out \<longrightarrow> ops = [] \<and> (\<exists>self. run = (self, Ok ()) \<and> out = es_outcome self
     \<and> recorded (mc_table m) = sink_ledger self))"
proof -
  obtain self res where run: "run = (self, res)" by fastforce
  have st: "stopped env K m0 self" using assms(1) run going_stopped by (cases res) auto
  obtain pb m' res' where b: "batch_flush env (es_pending self) (es_machine self) = ((pb, m'), res' :: 'e sync_error + unit)"
    by (metis prod.collapse)
  have ok: "run_ok env K m0 (es_machine self) (es_pending self)" using st by (simp add: stopped_def)
  note fl = batch_flush_ok [OF ok b]
  have left: "left_by env K m0 m' (pb_ops pb)"
    by (rule run_left) (use fl st in \<open>auto simp: stopped_def\<close>)
  show ?thesis
  proof (cases res)
    case (Inr u)
    then have m: "m = m'" "r = (case res' of Inl e \<Rightarrow> Err e | Inr _ \<Rightarrow> Ok (es_outcome self))"
      using f b run by (auto simp: execute_finish_def split: sum.splits)
    show ?thesis
    proof (cases res')
      case (Inr u')
      then have "pb_ops pb = []" using fl by simp
      moreover have "recorded (mc_table m) = sink_ledger self"
        using fl \<open>pb_ops pb = []\<close> m(1) by (simp add: sink_ledger_def ledger_def)
      ultimately show ?thesis using left m Inr run \<open>res = Inr u\<close> by (intro exI [of _ "[]"]) auto
    qed (use left m in auto)
  next
    case (Inl e)
    show ?thesis
    proof (cases "es_flush_failed self")
      case True
      have "left_by env K m0 (es_machine self) (pb_ops (es_pending self))"
        by (rule run_left [OF ok]) (use st True in \<open>auto simp: stopped_def\<close>)
      then show ?thesis using f run Inl True by (auto simp: execute_finish_def)
    next
      case False
      then show ?thesis using f run Inl b left by (auto simp: execute_finish_def)
    qed
  qed
qed


lemma validated_left:
  fixes wanted :: "'e sync_error desired_source"
  assumes "machine_ok m" "\<forall>p \<in> source_paths wanted. tidy (sr_world env) p"
    and "execute_validated env wt verify matches_with wanted sel policy window client mode force m = (m', r)"
  shows "\<exists>ops. left_by env UNIV m m' ops \<and> (\<forall>out. r = Ok out \<longrightarrow> ops = [])"
proof -
  let ?run = "plan_into_sink wt verify (execute_action env) (execute_state_mutation env) matches_with wanted sel policy window client
     (execute_new m mode force)"
  have "going env UNIV m (execute_new m mode force)" by (rule begin_ok) (use assms(1) in simp_all)
  then have "exec.drives env UNIV m ?run"
    by (intro exec.plan_drives) (use assms(2) in simp_all)
  then have "case (case ?run of (buffer, result) \<Rightarrow> (mb_sink buffer, result)) of
      (self, Inr _) \<Rightarrow> going env UNIV m self | (self, Inl _) \<Rightarrow> stopped env UNIV m self"
    unfolding exec.drives_def exec.held_def by (auto split: prod.splits sum.splits)
  from finish_left [OF this] assms(3) show ?thesis
    unfolding execute_validated_def execute_run_def by blast
qed

section \<open>The actions of the dirty rows\<close>

text \<open>What the planner may answer to a dirty row.\<close>

definition answers :: "dirty_row \<Rightarrow> sync_action \<Rightarrow> bool" where
  "answers row action \<longleftrightarrow>
     (case dr_desired row of
        None \<Rightarrow> action = Remove (dr_path row)
      | Some oid \<Rightarrow> action \<in> {Materialize \<lparr>entry_path = dr_path row, entry_oid = oid\<rparr>,
          Replace \<lparr>entry_path = dr_path row, entry_oid = oid\<rparr>, MissingObject (dr_path row) oid, Corrupted (dr_path row) oid})"

fun row_answers :: "dirty_row \<Rightarrow> buffered_row \<Rightarrow> bool" where
  "row_answers row (Ready action) = answers row action"
| "row_answers row (Pending kind _) = (\<forall>status. answers row (classify_object status (pc_entry kind) (pc_intent kind)))"

text \<open>Every delivered or waiting action answers a row of \<open>R\<close>, and every row of \<open>D\<close> has one.\<close>

definition answering :: "dirty_row set \<Rightarrow> dirty_row set \<Rightarrow> ('c, sync_plan) merge_buffer \<Rightarrow> bool" where
  "answering R D b \<longleftrightarrow>
     (\<forall>a \<in> set (plan_actions (mb_sink b)). \<exists>row \<in> R. answers row a)
     \<and> (\<forall>x \<in> set (mb_rows b). \<exists>row \<in> R. row_answers row x)
     \<and> (\<forall>row \<in> D. (\<exists>a \<in> set (plan_actions (mb_sink b)). answers row a) \<or> (\<exists>x \<in> set (mb_rows b). row_answers row x))"

lemma drain_collects:
  "\<exists>f. drain collect_action statuses rows s = (s\<lparr>plan_actions := plan_actions s @ map f rows\<rparr>, Ok ())
     \<and> (\<forall>x row. row_answers row x \<longrightarrow> answers row (f x))"
proof -
  define f where "f x = (case x of Ready action \<Rightarrow> action
      | Pending kind slot \<Rightarrow> classify_object (statuses ! slot) (pc_entry kind) (pc_intent kind))" for x
  have "drain collect_action statuses rows s = (s\<lparr>plan_actions := plan_actions s @ map f rows\<rparr>, Ok ())"
    by (induction rows arbitrary: s) (simp_all add: collect_action_def f_def)
  moreover have "row_answers row x \<longrightarrow> answers row (f x)" for x row by (cases x) (simp_all add: f_def)
  ultimately show ?thesis by blast
qed

lemma flush_answering:
  fixes verify :: "('c, 'e) verifier"
  assumes "answering R D b" "buffer_flush verify collect_action b = (b', Inr u)"
  shows "answering R D b' \<and> mb_rows b' = []"
proof (cases "mb_rows b = []")
  case True
  then show ?thesis using assms by (simp add: buffer_flush_def)
next
  case False
  obtain statuses f where d: "mb_sink b' = (mb_sink b)\<lparr>plan_actions := plan_actions (mb_sink b) @ map f (mb_rows b)\<rparr>" "mb_rows b' = []"
    and f: "\<forall>x row. row_answers row x \<longrightarrow> answers row (f x)"
  proof -
    obtain b1 where b1: "mb_sink b1 = mb_sink b" "mb_rows b1 = mb_rows b"
      "(case drain collect_action (mb_statuses b1) (mb_rows b1) (mb_sink b1) of
                (sink, result) \<Rightarrow> (b1\<lparr>mb_sink := sink, mb_rows := []\<rparr>, result)) = (b', Inr u :: 'e + unit)"
    proof (cases "mb_pending_oids b = []")
      case True
      then show ?thesis using assms(2) False by (intro that [of "b\<lparr>mb_statuses := []\<rparr>"]) (simp_all add: buffer_flush_def)
    next
      case pending: False
      obtain client r where v: "verify (mb_rematerialize b) (mb_client b) (mb_pending_oids b) = (client, r)" by fastforce
      then obtain statuses where "r = Inr statuses" using assms(2) False pending by (cases r) (simp_all add: buffer_flush_def)
      then show ?thesis using assms(2) False pending v
        by (intro that [of "b\<lparr>mb_client := client, mb_statuses := statuses, mb_pending_oids := [], mb_pending_slots := (\<lambda>_. None)\<rparr>"])
          (simp_all add: buffer_flush_def)
    qed
    obtain f where "drain collect_action (mb_statuses b1) (mb_rows b1) (mb_sink b1)
        = ((mb_sink b1)\<lparr>plan_actions := plan_actions (mb_sink b1) @ map f (mb_rows b1)\<rparr>, Ok () :: 'e + unit)"
      "\<forall>x row. row_answers row x \<longrightarrow> answers row (f x)"
      using drain_collects by blast
    then show ?thesis using b1 by (intro that) auto
  qed
  have acts: "set (plan_actions (mb_sink b')) = set (plan_actions (mb_sink b)) \<union> f ` set (mb_rows b)" using d by simp
  show ?thesis using assms(1) f unfolding answering_def acts d(2) by (simp add: ball_Un bex_Un) blast
qed


lemma if_full_answering:
  assumes "answering R D b" "flush_if_full verify collect_action b = (b', Inr u)"
  shows "answering R D b'"
  using assms flush_answering by (fastforce simp: flush_if_full_def split: if_splits)

lemma push_row_answering:
  assumes "answering R D b" "row_answers row x" "row \<in> R" "mb_sink b' = mb_sink b" "mb_rows b' = mb_rows b @ [x]"
  shows "answering R (insert row D) b'"
  using assms unfolding answering_def by auto

lemma pending_answers:
  assumes "dr_desired row = Some oid" "intent = IReplace \<or> intent = IMaterialize"
  shows "row_answers row (Pending (pending_new \<lparr>entry_path = dr_path row, entry_oid = oid\<rparr> intent) slot)"
  using assms by (auto simp: pending_new_def answers_def classify_object_def split: object_verification.split)

lemma push_answering:
  assumes "answering R D b" "row \<in> R" "dr_desired row = Some oid" "intent = IReplace \<or> intent = IMaterialize"
    and "push_pending verify collect_action b (pending_new \<lparr>entry_path = dr_path row, entry_oid = oid\<rparr> intent) = (b', Inr u)"
  shows "answering R (insert row D) b'"
proof -
  let ?kind = "pending_new \<lparr>entry_path = dr_path row, entry_oid = oid\<rparr> intent"
  have go: "answering R (insert row D) b'"
    if "mb_sink b1 = mb_sink b" "mb_rows b1 = mb_rows b @ [Pending ?kind slot]"
      "(if length (mb_pending_oids b1) \<ge> VERIFY_WINDOW then buffer_flush verify collect_action b1
        else flush_if_full verify collect_action b1) = (b', Inr u)" for b1 slot
    using push_row_answering [OF assms(1) pending_answers [OF assms(3,4)] assms(2) that(1,2)] that(3)
      flush_answering if_full_answering by (fastforce split: if_splits)
  show ?thesis
  proof (cases "mb_pending_slots b (entry_oid (pc_entry ?kind))")
    case None
    let ?b1 = "b\<lparr>mb_pending_oids := mb_pending_oids b @ [entry_oid (pc_entry ?kind)],
        mb_pending_slots := (mb_pending_slots b)(entry_oid (pc_entry ?kind) \<mapsto> length (mb_pending_oids b)),
        mb_rows := mb_rows b @ [Pending ?kind (length (mb_pending_oids b))]\<rparr>"
    show ?thesis by (rule go [of ?b1]) (use assms(5) None in \<open>simp_all add: push_pending_def Let_def cong: if_cong\<close>)
  next
    case (Some slot)
    show ?thesis
      by (rule go [of "b\<lparr>mb_rows := mb_rows b @ [Pending ?kind slot]\<rparr>"])
        (use assms(5) Some in \<open>simp_all add: push_pending_def Let_def\<close>)
  qed
qed

lemma dirty_loop_answering:
  assumes "answering R D b" "set rows \<subseteq> R"
    and "\<forall>row \<in> set rows. dr_desired row \<noteq> None \<or> dr_materialized row \<noteq> None"
    and "dirty_loop verify matches rows b = (b', Inr u)"
  shows "answering R (D \<union> {row \<in> set rows. matches (dr_path row)}) b' \<and> mb_rows b' = []"
  using assms
proof (induction rows arbitrary: b D)
  case Nil
  then show ?case using flush_answering by fastforce
next
  case (Cons row rows)
  show ?case
  proof (cases "matches (dr_path row)")
    case False
    then have "{r \<in> set (row # rows). matches (dr_path r)} = {r \<in> set rows. matches (dr_path r)}" by auto
    then show ?thesis using Cons.IH [OF Cons.prems(1)] Cons.prems False by simp
  next
    case True
    have split: "D \<union> {r \<in> set (row # rows). matches (dr_path r)} = insert row D \<union> {r \<in> set rows. matches (dr_path r)}"
      using True by auto
    have step: "answering R (D \<union> {r \<in> set (row # rows). matches (dr_path r)}) b' \<and> mb_rows b' = []"
      if "answering R (insert row D) b1" "dirty_loop verify matches rows b1 = (b', Inr u)" for b1
      unfolding split by (rule Cons.IH [OF that(1)]) (use Cons.prems that(2) in auto)
    show ?thesis
    proof (cases "dr_desired row")
      case (Some oid)
      let ?kind = "pending_new \<lparr>entry_path = dr_path row, entry_oid = oid\<rparr> (if dr_materialized row \<noteq> None then IReplace else IMaterialize)"
      obtain b1 res where p: "push_pending verify collect_action b ?kind = (b1, res)" by fastforce
      then obtain v where v: "res = Inr v" using Cons.prems(4) True Some by (cases res) auto
      have a: "answering R (insert row D) b1"
        by (rule push_answering [OF Cons.prems(1) _ Some _ p [unfolded v]]) (use Cons.prems(2) in auto)
      have "dirty_loop verify matches rows b1 = (b', Inr u)" using Cons.prems(4) True Some p v by auto
      then show ?thesis by (rule step [OF a])
    next
      case None
      then obtain oid where m: "dr_materialized row = Some oid" using Cons.prems(3) by auto
      obtain b1 res where p: "push_ready verify collect_action b (Remove (dr_path row)) = (b1, res)" by fastforce
      then obtain v where v: "res = Inr v" using Cons.prems(4) True None m by (cases res) auto
      have "answering R (insert row D) (b\<lparr>mb_rows := mb_rows b @ [Ready (Remove (dr_path row))]\<rparr>)"
        by (rule push_row_answering [OF Cons.prems(1)]) (use None Cons.prems(2) in \<open>simp_all add: answers_def\<close>)
      then have a: "answering R (insert row D) b1"
        by (rule if_full_answering) (use p v in \<open>simp add: push_ready_def\<close>)
      have "dirty_loop verify matches rows b1 = (b', Inr u)" using Cons.prems(4) True None m p v by auto
      then show ?thesis by (rule step [OF a])
    qed
  qed
qed

lemma dirty_actions_answer:
  assumes "plan_from_dirty_rows verify matches_with client rows sel = (client', Inr actions)"
    and "\<forall>row \<in> set rows. dr_desired row \<noteq> None \<or> dr_materialized row \<noteq> None"
  shows "(\<forall>a \<in> set actions. \<exists>row \<in> set rows. answers row a)
    \<and> (\<forall>row \<in> set rows. selection_matches matches_with sel (dr_path row) \<longrightarrow> (\<exists>a \<in> set actions. answers row a))"
proof (cases "rows = []")
  case True
  then show ?thesis using assms(1) by (simp add: plan_from_dirty_rows_def)
next
  case False
  let ?b = "buffer_new client (length rows) empty_plan False"
  obtain b' res where l: "dirty_loop verify (selection_matches matches_with sel) rows ?b = (b', res)" by fastforce
  then obtain u where u: "res = Inr u" "actions = plan_actions (mb_sink b')"
    using assms(1) False by (cases res) (auto simp: plan_from_dirty_rows_def)
  have "answering (set rows) {} ?b" by (simp add: answering_def buffer_new_def empty_plan_def)
  from dirty_loop_answering [OF this subset_refl assms(2) l [unfolded u]]
  have "answering (set rows) {row \<in> set rows. selection_matches matches_with sel (dr_path row)} b'" "mb_rows b' = []" by simp_all
  then show ?thesis unfolding answering_def u(2) by auto
qed


section \<open>What the actions of a page come to\<close>

lemma clean_record:
  "is_clean (record_action out a) \<longleftrightarrow> is_clean out \<and> (\<forall>p oid. a \<noteq> MissingObject p oid \<and> a \<noteq> Corrupted p oid) \<and> (\<forall>x. a \<noteq> Conflict x)"
  by (cases a) (auto simp: is_clean_def)

lemma clean_merge: "is_clean (outcome_merge a b) \<longleftrightarrow> is_clean a \<and> is_clean b"
  by (auto simp: is_clean_def outcome_merge_def)

lemma clean_default [simp]: "is_clean outcome_default"
  by (simp add: is_clean_def outcome_default_def)

lemma answers_path: "answers row a \<Longrightarrow> action_path a = dr_path row"
  by (auto simp: answers_def split: option.splits)

lemma answers_resolve: "answers row a \<Longrightarrow> resolve_action a force = a"
  by (auto simp: answers_def resolve_action_def split: option.splits)

lemma act_elsewhere: "p \<noteq> action_path a \<Longrightarrow> act_oid L a p = L p"
  by (cases a) simp_all

lemma act_answers:
  assumes "answers row a"
  shows "act_oid L a (dr_path row) = (if is_clean (record_action outcome_default a) then dr_desired row else L (dr_path row))"
  using assms unfolding clean_record by (auto simp: answers_def split: option.splits)

lemma acts_answer:
  assumes "\<forall>a \<in> set actions. \<exists>row \<in> R. answers row a" "\<forall>row \<in> R. dr_desired row = D (dr_path row)"
  shows "(foldl act_oid L actions p = D p \<or> foldl act_oid L actions p = L p)
    \<and> (p \<notin> dr_path ` R \<longrightarrow> foldl act_oid L actions p = L p)
    \<and> (is_clean (foldl record_action out actions) \<longrightarrow> is_clean out
        \<and> (\<forall>row \<in> R. (\<exists>a \<in> set actions. answers row a) \<longrightarrow> foldl act_oid L actions (dr_path row) = D (dr_path row)))"
  using assms(1)
proof (induction actions rule: rev_induct)
  case (snoc a actions)
  obtain row where row: "row \<in> R" "answers row a" using snoc.prems by auto
  let ?L = "foldl act_oid L actions"
  have IH: "(?L p = D p \<or> ?L p = L p) \<and> (p \<notin> dr_path ` R \<longrightarrow> ?L p = L p)
      \<and> (is_clean (foldl record_action out actions) \<longrightarrow> is_clean out
          \<and> (\<forall>row \<in> R. (\<exists>a \<in> set actions. answers row a) \<longrightarrow> ?L (dr_path row) = D (dr_path row)))"
    by (rule snoc.IH) (use snoc.prems in auto)
  have at: "act_oid ?L a (dr_path row) = (if is_clean (record_action outcome_default a) then D (dr_path row) else ?L (dr_path row))"
    using act_answers [OF row(2), of ?L] assms(2) row(1) by simp
  have off: "q \<noteq> dr_path row \<Longrightarrow> act_oid ?L a q = ?L q" for q
    using act_elsewhere answers_path [OF row(2)] by simp
  have clean: "is_clean (record_action outcome_default a)" if "is_clean (record_action o' a)" for o'
    using that by (simp add: clean_record)
  show ?case
  proof (intro conjI impI ballI)
    show "foldl act_oid L (actions @ [a]) p = D p \<or> foldl act_oid L (actions @ [a]) p = L p"
      using IH at off [of p] by (cases "p = dr_path row") (auto split: if_splits)
    show "foldl act_oid L (actions @ [a]) p = L p" if "p \<notin> dr_path ` R"
      using IH off [of p] that row(1) by auto
    assume c: "is_clean (foldl record_action out (actions @ [a]))"
    then have ca: "is_clean (foldl record_action out actions)" "is_clean (record_action outcome_default a)"
      using clean by (simp_all add: clean_record)
    then show "is_clean out" using IH by blast
    fix row' assume row': "row' \<in> R" and x: "\<exists>x \<in> set (actions @ [a]). answers row' x"
    have "answers row' a \<Longrightarrow> dr_path row' = dr_path row" using answers_path [of row' a] answers_path [OF row(2)] by simp
    then consider "dr_path row' = dr_path row" | "dr_path row' \<noteq> dr_path row" "\<exists>x \<in> set actions. answers row' x"
      using x by auto
    then show "foldl act_oid L (actions @ [a]) (dr_path row') = D (dr_path row')"
    proof cases
      case 1
      then show ?thesis using at ca by simp
    next
      case 2
      then show ?thesis using off IH ca row' by simp
    qed
  qed
qed simp

lemma feed_steps:
  assumes "going env K m0 self" "\<forall>a \<in> set actions. tidy (sr_world env) (action_path a) \<and> action_path a \<in> K \<and> (\<forall>f. resolve_action a f = a)"
  shows "steps env K m0 (foldl act_oid (sink_ledger self) actions) (foldl record_action (es_outcome self) actions)
    (feed (execute_action env) actions self :: execute_sink \<times> ('e sync_error + unit))"
  using assms
proof (induction actions arbitrary: self)
  case (Cons a actions)
  have s: "steps env K m0 (act_oid (sink_ledger self) a) (record_action (es_outcome self) a)
      (execute_action env self a :: execute_sink \<times> ('e sync_error + unit))"
    using action_steps [OF Cons.prems(1), of a] Cons.prems(2) by auto
  obtain self' r where e: "(execute_action env self a :: execute_sink \<times> ('e sync_error + unit)) = (self', r)" by fastforce
  show ?case
  proof (cases r)
    case (Inl x)
    then show ?thesis using s e by (simp add: steps_def)
  next
    case (Inr x)
    then have "going env K m0 self'" "sink_ledger self' = act_oid (sink_ledger self) a" "es_outcome self' = record_action (es_outcome self) a"
      using s e by (simp_all add: steps_def)
    then show ?thesis using Cons.IH [of self'] Cons.prems(2) e Inr by simp
  qed
qed (simp add: steps_def)


section \<open>The dirty pages\<close>

lemma settled_trans:
  assumes "settled w d0 L0 d1 L1" "settled w d1 L1 d2 L2"
  shows "settled w d0 L0 d2 L2"
  using assms unfolding settled_def by metis

lemma left_by_start: "machine_ok m \<Longrightarrow> \<forall>p. recorded (mc_table m) p \<noteq> None \<longrightarrow> p \<in> K \<Longrightarrow> left_by env K m m []"
  by (simp add: left_by_def settled_def)

lemma left_by_trans:
  assumes "left_by env K m m1 []" "left_by env K m1 m2 ops"
  shows "left_by env K m m2 ops"
  using assms settled_trans unfolding left_by_def by (simp, blast)

lemma page_run:
  assumes ok: "machine_ok m" "\<forall>p. recorded (mc_table m) p \<noteq> None \<longrightarrow> p \<in> K"
    and acts: "\<forall>a \<in> set actions. tidy (sr_world env) (action_path a) \<and> action_path a \<in> K \<and> (\<forall>f. resolve_action a f = a)"
    and run: "apply_actions env m mode \<lparr>plan_actions = actions, plan_mutations = []\<rparr> force = (m', r :: 'e sync_error + sync_outcome)"
  shows "\<exists>ops. left_by env K m m' ops \<and> (\<forall>out. r = Ok out \<longrightarrow> ops = [] \<and> out = foldl record_action outcome_default actions
     \<and> recorded (mc_table m') = foldl act_oid (recorded (mc_table m)) actions)"
proof -
  let ?run = "feed (execute_action env) actions (execute_new m mode force) :: execute_sink \<times> ('e sync_error + unit)"
  have st: "steps env K m (foldl act_oid (recorded (mc_table m)) actions) (foldl record_action outcome_default actions) ?run"
    using feed_steps [OF begin_ok [OF ok] acts, of mode force]
    by (simp add: execute_new_def sink_ledger_def ledger_def pending_default_def)
  have same: "sink_then ?run (\<lambda>sink _. feed (execute_state_mutation env) [] sink) = ?run"
    by (cases ?run; cases "snd ?run") (auto simp: sink_then_def)
  have f: "execute_finish env ?run = (m', r)"
    using run same by (simp add: apply_actions_def execute_run_def)
  have "case ?run of (self, Inr _) \<Rightarrow> going env K m self | (self, Inl _) \<Rightarrow> stopped env K m self"
    using st by (auto simp: steps_def split: prod.splits sum.splits)
  from finish_left [OF this f] show ?thesis using st unfolding steps_def by (auto 4 4)
qed

lemma page_rows:
  assumes "sorted_wrt (<) (map f xs)" "x \<in> set xs" "0 < n" "f x \<le> (f (last (take n xs)) :: 'a :: linorder)"
  shows "x \<in> set (take n xs)"
proof -
  obtain i where i: "i < length xs" "x = xs ! i" using assms(2) by (auto simp: in_set_conv_nth)
  show ?thesis
  proof (cases "i < n")
    case True
    then show ?thesis using i by (auto simp: in_set_conv_nth)
  next
    case False
    then have "last (take n xs) = xs ! (n - 1)" using assms(3) i by (subst last_conv_nth) (auto simp: min_def)
    then have "f (last (take n xs)) < f x"
      using assms(1,3) i False by (simp add: sorted_wrt_iff_nth_less)
    then show ?thesis using assms(4) by simp
  qed
qed

lemma dirty_page:
  fixes scope after :: "gat_path option"
  assumes "table_ok t" "0 < window"
  defines "rows \<equiv> dirty_rows_in_scope_after t scope after window"
  shows "\<forall>row \<in> set rows. (dr_desired row = oids (desired t) (dr_path row)) \<and> (dr_desired row \<noteq> None \<or> dr_materialized row \<noteq> None)
      \<and> (dr_desired row \<noteq> dr_materialized row) \<and> dr_materialized row = recorded t (dr_path row)
      \<and> (\<forall>a. after = Some a \<longrightarrow> a < dr_path row)"
    and "oids (desired t) p \<noteq> recorded t p \<Longrightarrow> in_scope_range scope p \<Longrightarrow> (\<forall>a. after = Some a \<longrightarrow> a < p)
      \<Longrightarrow> rows = [] \<or> p \<le> dr_path (last rows) \<Longrightarrow> \<exists>row \<in> set rows. dr_path row = p"
    and "rows \<noteq> [] \<Longrightarrow> row \<in> set rows \<Longrightarrow> dr_path row \<le> dr_path (last rows)"
proof -
  let ?all = "query_dirty_rows t scope after None"
  have bt: "bt_ok t" using assms(1) by (simp add: table_ok_def)
  have rows: "rows = take window ?all"
    by (simp add: rows_def dirty_rows_in_scope_after_def query_dirty_rows_def take_map Let_def)
  have halves: "oids (desired t) q = sr_desired_oid r \<and> recorded t q = sr_materialized_oid r" if "bt_get t q = Some r" for q r
    using table_ok_get [OF assms(1) that] that
    by (auto simp: oids_def recorded_def desired_def materialized_def row_ok_def row_check_def option.map_comp comp_def option.map_ident split: option.splits)
  show "\<forall>row \<in> set rows. (dr_desired row = oids (desired t) (dr_path row)) \<and> (dr_desired row \<noteq> None \<or> dr_materialized row \<noteq> None)
      \<and> (dr_desired row \<noteq> dr_materialized row) \<and> dr_materialized row = recorded t (dr_path row)
      \<and> (\<forall>a. after = Some a \<longrightarrow> a < dr_path row)"
  proof
    fix row assume "row \<in> set rows"
    then have "row \<in> set ?all" using rows set_take_subset by fastforce
    then obtain q r where "row = \<lparr>dr_path = q, dr_desired = sr_desired_oid r, dr_materialized = sr_materialized_oid r\<rparr>"
        "bt_get t q = Some r" "row_dirty r" "\<forall>a. after = Some a \<longrightarrow> a < q" unfolding query_rows [OF bt] by blast
    then show "(dr_desired row = oids (desired t) (dr_path row)) \<and> (dr_desired row \<noteq> None \<or> dr_materialized row \<noteq> None)
      \<and> (dr_desired row \<noteq> dr_materialized row) \<and> dr_materialized row = recorded t (dr_path row)
      \<and> (\<forall>a. after = Some a \<longrightarrow> a < dr_path row)"
      using halves [of q r] by (auto simp: row_dirty_def split: option.splits)
  qed
  have sorted: "sorted_wrt (<) (map dr_path ?all)" by (rule query_sorted [OF bt])
  show "\<exists>row \<in> set rows. dr_path row = p"
    if p: "oids (desired t) p \<noteq> recorded t p" "in_scope_range scope p" "\<forall>a. after = Some a \<longrightarrow> a < p"
      "rows = [] \<or> p \<le> dr_path (last rows)"
  proof -
    have "\<exists>r. bt_get t p = Some r \<and> row_dirty r"
      using dirty_iff [OF assms(1), of p] p(1) by (simp add: oids_def recorded_def)
    then obtain row where row: "row \<in> set ?all" "dr_path row = p"
      using p(2,3) unfolding query_rows [OF bt] by fastforce
    then have "rows \<noteq> []" using rows assms(2) by (cases ?all) auto
    then have "row \<in> set rows" using page_rows [OF sorted row(1) assms(2)] p(4) row(2) rows by simp
    then show ?thesis using row(2) by blast
  qed
  show "dr_path row \<le> dr_path (last rows)" if ne: "rows \<noteq> []" and mem: "row \<in> set rows"
  proof -
    have s: "sorted_wrt (<) (map dr_path rows)" using sorted rows by (simp add: take_map [symmetric] sorted_wrt_take)
    obtain i where i: "i < length rows" "row = rows ! i" using mem by (auto simp: in_set_conv_nth)
    then show ?thesis
      using s ne by (cases "i = length rows - 1") (auto simp: last_conv_nth sorted_wrt_iff_nth_less less_imp_le)
  qed
qed


section \<open>Working through the dirty rows\<close>

text \<open>The known paths the cursor has yet to reach.\<close>

definition ahead :: "gat_path set \<Rightarrow> gat_path option \<Rightarrow> gat_path set" where
  "ahead K after = {p \<in> K. \<forall>a. after = Some a \<longrightarrow> a < p}"

lemma trust_loop_runs:
  fixes verify :: "('c, 'e) verifier"
  assumes "machine_ok m" "finite K" "\<forall>p. recorded (mc_table m) p \<noteq> None \<or> oids (desired (mc_table m)) p \<noteq> None \<longrightarrow> p \<in> K"
    and tidy: "\<forall>p \<in> K. tidy (sr_world env) p" and window: "0 < window" and fuel: "card (ahead K after) < fuel"
  shows "\<exists>m' r ops. trust_loop env verify matches_with sel mode force window fuel client page after outcome m = Some (m', r)
    \<and> left_by env K m m' ops
    \<and> (\<forall>out. r = Ok out \<longrightarrow> ops = []
        \<and> (\<forall>p. p \<notin> ahead UNIV after \<longrightarrow> recorded (mc_table m') p = recorded (mc_table m) p)
        \<and> (is_clean out \<longrightarrow> is_clean outcome \<and> (\<forall>p \<in> ahead UNIV after. selection_matches matches_with sel p
             \<longrightarrow> recorded (mc_table m') p = oids (desired (mc_table m)) p)))"
  using assms(1,3) fuel
proof (induction fuel arbitrary: client page after outcome m)
  case (Suc fuel)
  have dom: "\<forall>p. recorded (mc_table m) p \<noteq> None \<longrightarrow> p \<in> K" using Suc.prems(2) by blast
  note here = left_by_start [OF Suc.prems(1) dom]
  have t: "table_ok (mc_table m)" using Suc.prems(1) by (simp add: machine_ok_def)
  let ?D = "oids (desired (mc_table m))"
  let ?rows = "dirty_rows_in_scope_after (mc_table m) (scope_path sel) after window"
  note page = dirty_page [OF t window, where after = after and scope = "scope_path sel"]
  show ?case
  proof (cases "sr_query env page")
    case False
    then show ?thesis using here by auto
  next
    case q: True
    show ?thesis
    proof (cases "?rows = []")
      case True
      have "recorded (mc_table m) p = ?D p" if "p \<in> ahead UNIV after" "selection_matches matches_with sel p" for p
      proof (rule ccontr)
        assume "recorded (mc_table m) p \<noteq> ?D p"
        then show False
          using page(2) [OF not_sym selection_in_scope [OF that(2)]] that(1) True by (auto simp: ahead_def)
      qed
      then show ?thesis using q True here by auto
    next
      case False
      let ?c = "dr_path (last ?rows)"
      obtain client' res where plan: "plan_from_dirty_rows verify matches_with client ?rows sel = (client', res)" by fastforce
      show ?thesis
      proof (cases res)
        case (Inl e)
        then show ?thesis using q False plan here by (auto simp: Let_def)
      next
        case (Inr actions)
        have rows: "\<forall>row \<in> set ?rows. dr_desired row = ?D (dr_path row)"
            "\<forall>row \<in> set ?rows. dr_desired row \<noteq> None \<or> dr_materialized row \<noteq> None"
            "\<forall>row \<in> set ?rows. dr_path row \<in> ahead K after"
          using page(1) Suc.prems(2) unfolding ahead_def by (auto, metis option.distinct(1))
        note ans = dirty_actions_answer [OF plan [unfolded Inr] rows(2)]
        have acts: "\<forall>a \<in> set actions. tidy (sr_world env) (action_path a) \<and> action_path a \<in> K \<and> (\<forall>f. resolve_action a f = a)"
          using ans rows(3) tidy answers_path answers_resolve unfolding ahead_def by fastforce
        obtain m1 r1 where run: "apply_actions env m mode \<lparr>plan_actions = actions, plan_mutations = []\<rparr> force
            = (m1, r1 :: 'e sync_error + sync_outcome)" by fastforce
        obtain ops1 where left1: "left_by env K m m1 ops1"
          and done1: "\<forall>out. r1 = Ok out \<longrightarrow> ops1 = [] \<and> out = foldl record_action outcome_default actions
             \<and> recorded (mc_table m1) = foldl act_oid (recorded (mc_table m)) actions"
          using page_run [OF Suc.prems(1) dom acts run] by blast
        show ?thesis
        proof (cases r1)
          case (Inl e)
          then show ?thesis using q False plan Inr run left1 by (auto simp: Let_def)
        next
          case chunk: (Inr chunk_outcome)
          then have l: "left_by env K m m1 []" and co: "chunk_outcome = foldl record_action outcome_default actions"
            and r: "recorded (mc_table m1) = foldl act_oid (recorded (mc_table m)) actions" using left1 done1 by auto
          note a = acts_answer [OF conjunct1 [OF ans] rows(1), of "recorded (mc_table m)" _ outcome_default]
          have d1: "desired (mc_table m1) = desired (mc_table m)" "machine_ok m1" using l by (simp_all add: left_by_def)
          have "last ?rows \<in> set ?rows" using False by simp
          then have c: "?c \<in> ahead K after" using rows(3) by blast
          have smaller: "ahead K (Some ?c) \<subset> ahead K after" using c by (auto simp: ahead_def)
          have next_ok: "\<forall>p. recorded (mc_table m1) p \<noteq> None \<or> oids (desired (mc_table m1)) p \<noteq> None \<longrightarrow> p \<in> K"
            using l Suc.prems(2) d1(1) by (auto simp: left_by_def)
          have "card (ahead K (Some ?c)) < fuel"
            using psubset_card_mono [OF _ smaller] assms(2) Suc.prems(3) by (simp add: ahead_def)
          from Suc.IH [OF d1(2) next_ok this, of client' "Suc page" "outcome_merge outcome chunk_outcome"]
          obtain m' r' ops where rest: "trust_loop env verify matches_with sel mode force window fuel client' (Suc page) (Some ?c)
                (outcome_merge outcome chunk_outcome) m1 = Some (m', r')"
            and left: "left_by env K m1 m' ops"
            and fin: "\<forall>out. r' = Ok out \<longrightarrow> ops = []
              \<and> (\<forall>p. p \<notin> ahead UNIV (Some ?c) \<longrightarrow> recorded (mc_table m') p = recorded (mc_table m1) p)
              \<and> (is_clean out \<longrightarrow> is_clean (outcome_merge outcome chunk_outcome)
                  \<and> (\<forall>p \<in> ahead UNIV (Some ?c). selection_matches matches_with sel p
                       \<longrightarrow> recorded (mc_table m') p = oids (desired (mc_table m1)) p))"
            by blast
          have step: "trust_loop env verify matches_with sel mode force window (Suc fuel) client page after outcome m = Some (m', r')"
            using q False plan Inr run chunk rest by (simp add: Let_def)
          have behind: "recorded (mc_table m') p = recorded (mc_table m) p" if "r' = Ok out" "p \<notin> ahead UNIV after" for out p
          proof -
            have "p \<notin> ahead UNIV (Some ?c)" using that(2) c by (auto simp: ahead_def)
            moreover have "p \<notin> dr_path ` set ?rows" using that(2) rows(3) by (auto simp: ahead_def)
            ultimately show ?thesis using fin that(1) r a by simp
          qed
          have settled: "recorded (mc_table m') p = ?D p"
            if "r' = Ok out" "is_clean out" and p: "p \<in> ahead UNIV after" "selection_matches matches_with sel p" for out p
          proof (cases "p \<in> ahead UNIV (Some ?c)")
            case True
            then show ?thesis using fin that d1(1) by simp
          next
            case behind: False
            then have "recorded (mc_table m') p = recorded (mc_table m1) p" using fin that(1) by blast
            moreover have "recorded (mc_table m1) p = ?D p"
            proof (cases "?D p = recorded (mc_table m) p")
              case True
              then show ?thesis using a [of p] r by auto
            next
              case dirty: False
              have "p \<le> ?c" using behind by (auto simp: ahead_def)
              then obtain row where row: "row \<in> set ?rows" "dr_path row = p"
                using page(2) [OF dirty selection_in_scope [OF p(2)]] p(1) by (auto simp: ahead_def)
              moreover have "is_clean chunk_outcome" using fin that(1,2) clean_merge by blast
              moreover have "\<exists>x \<in> set actions. answers row x" using ans row p(2) by blast
              ultimately show ?thesis using a [of p] co r by auto
            qed
            ultimately show ?thesis by simp
          qed
          have clean: "is_clean outcome" if "r' = Ok out" "is_clean out" for out
            using fin that clean_merge by blast
          have none: "ops = []" if "r' = Ok out" for out using fin that by blast
          show ?thesis
          proof (rule exI [of _ m'], rule exI [of _ r'], rule exI [of _ ops], intro conjI)
            show "\<forall>out. r' = Ok out \<longrightarrow> ops = []
              \<and> (\<forall>p. p \<notin> ahead UNIV after \<longrightarrow> recorded (mc_table m') p = recorded (mc_table m) p)
              \<and> (is_clean out \<longrightarrow> is_clean outcome \<and> (\<forall>p \<in> ahead UNIV after. selection_matches matches_with sel p
                   \<longrightarrow> recorded (mc_table m') p = ?D p))"
              by (intro allI impI conjI ballI) (erule (1) behind | erule none | erule (1) clean | rule settled, assumption+)+
          qed (rule step left_by_trans [OF l left])+
        qed
      qed
    qed
  qed
qed simp


section \<open>Properties\<close>

text \<open>
  C34: A validated synchronization keeps the ledger true. Whatever the file system, the database and the
  object verifier answer, and however the run ends, no system call leaves the working tree through a link,
  the disk and the table stay well formed, the desired half of the table is untouched, and at every tracked
  path either nothing changed, on disk and in the ledger, or the ledger names the object the disk holds -
  but for a tail of at most one batch of mutations, which is lost only when the database refused a
  transaction and the run reports an error.
\<close>

theorem synchronizing_keeps_the_ledger_true:
  fixes wanted :: "'e sync_error desired_source"
  assumes "machine_ok m" "\<forall>p \<in> source_paths wanted. tidy (sr_world env) p"
  shows "case execute_validated env wt verify matches_with wanted sel policy window client mode force m of (m', r) \<Rightarrow>
    machine_ok m' \<and> dk_escaped (mc_disk m') = dk_escaped (mc_disk m) \<and> desired (mc_table m') = desired (mc_table m)
    \<and> (\<exists>ops. length ops \<le> BATCH_SIZE \<and> (ops \<noteq> [] \<longrightarrow> (\<exists>k j. \<not> sr_db env k j) \<and> (\<exists>e. r = Err e))
        \<and> settled (sr_world env) (mc_disk m) (recorded (mc_table m))
            (mc_disk m') (foldl record_oid (recorded (mc_table m')) ops))"
proof -
  obtain m' r where run: "execute_validated env wt verify matches_with wanted sel policy window client mode force m = (m', r)"
    by fastforce
  obtain ops where l: "left_by env UNIV m m' ops" "\<forall>out. r = Ok out \<longrightarrow> ops = []" using validated_left [OF assms run] by blast
  have e: "ops \<noteq> [] \<longrightarrow> (\<exists>e. r = Err e)" using l(2) by (cases r) auto
  show ?thesis unfolding run prod.case using l(1) e unfolding left_by_def by blast
qed

definition quiet :: surroundings where
  "quiet =
     \<lparr>sr_world = \<lparr>w_fault = \<lambda>_. False, w_partial = \<lambda>_. None, w_temp = \<lambda>_. [116], w_object = \<lambda>_. Some [120], w_stat = \<lambda>_. None\<rparr>,
      sr_db = \<lambda>_ _. True, sr_pick = map_of, sr_query = \<lambda>_. True\<rparr>"

lemma quiet_tidy: "116 \<notin> set (as_str p) \<Longrightarrow> tidy (sr_world quiet) p"
  unfolding tidy_def resolve_worktree_path_def quiet_def
  by simp (metis set_split_on list.set_intros(1))

lemma synchronizing_keeps_the_ledger_true_witness:
  "case execute_validated quiet (\<lambda>_ _ _ _. Ok status_absent) (\<lambda>_ c oids. (c, Ok (map (\<lambda>_. Valid) oids))) (\<lambda>_ _. True)
      (FromStore [Ok \<lparr>entry_path = GatPath [97], entry_oid = Oid [1]\<rparr>] []) (selection_root :: unit selection) (PolicyValidate False) 5 () strategy_default False
      \<lparr>mc_disk = \<lparr>dk_calls = 0, dk_tree = [([], Folder)], dk_escaped = False\<rparr>, mc_table = [], mc_batches = 0\<rparr> of
     (m', r :: unit sync_error + sync_outcome) \<Rightarrow>
       machine_ok m' \<and> \<not> dk_escaped (mc_disk m')
       \<and> settled (sr_world quiet) \<lparr>dk_calls = 0, dk_tree = [([], Folder)], dk_escaped = False\<rparr> (\<lambda>_. None)
           (mc_disk m') (recorded (mc_table m'))"
proof -
  let ?m = "\<lparr>mc_disk = \<lparr>dk_calls = 0, dk_tree = [([], Folder)], dk_escaped = False\<rparr>, mc_table = [], mc_batches = 0\<rparr>"
  let ?src = "FromStore [Ok \<lparr>entry_path = GatPath [97], entry_oid = Oid [1]\<rparr>] [] :: unit sync_error desired_source"
  have m: "machine_ok ?m" by (simp add: machine_ok_def tree_ok_def rooted_def table_ok_def bt_ok_def)
  have w: "\<forall>p \<in> source_paths ?src. tidy (sr_world quiet) p" by (auto simp: row_paths_def intro!: quiet_tidy)
  have empty: "recorded [] = (\<lambda>_. None)" by (simp add: fun_eq_iff recorded_def oids_def materialized_def bt_get_def)
  have db: "sr_db quiet k j" for k j by (simp add: quiet_def)
  obtain m' and r :: "unit sync_error + sync_outcome"
    where run: "execute_validated quiet (\<lambda>_ _ _ _. Ok status_absent) (\<lambda>_ c oids. (c, Ok (map (\<lambda>_. Valid) oids))) (\<lambda>_ _. True)
      ?src (selection_root :: unit selection) (PolicyValidate False) 5 () strategy_default False ?m = (m', r)" by fastforce
  show ?thesis
    using synchronizing_keeps_the_ledger_true [OF m w, where wt = "\<lambda>_ _ _ _. Ok status_absent"
        and verify = "\<lambda>_ c oids. (c, Ok (map (\<lambda>_. Valid) oids))" and client = "()" and matches_with = "\<lambda>_ _. True"
        and sel = "selection_root :: unit selection" and policy = "PolicyValidate False" and window = 5 and mode = strategy_default and force = False]
    unfolding run prod.case by (auto simp: empty db)
qed

text \<open>
  C35: Trusting the state settles the selection. With a window of at least one row the paged loop over the
  dirty rows returns, after at most as many pages as the table has rows, whatever fails on the way; and when
  it reports a clean outcome, every path of the selection is recorded with exactly the object the lock wants
  there - in the table, which keeps its desired half and agrees with the disk - whether it was dirty before or not.
\<close>

theorem trusted_sync_settles_the_selection:
  fixes verify :: "('c, 'e) verifier"
  assumes "machine_ok m" "\<forall>(p, row) \<in> set (mc_table m). tidy (sr_world env) p" "0 < window" "length (mc_table m) < fuel"
  shows "\<exists>m' r. trust_loop env verify matches_with sel mode force window fuel client 0 None outcome_default m = Some (m', r)
    \<and> machine_ok m' \<and> dk_escaped (mc_disk m') = dk_escaped (mc_disk m) \<and> desired (mc_table m') = desired (mc_table m)
    \<and> (\<forall>out. r = Ok out \<longrightarrow>
          settled (sr_world env) (mc_disk m) (recorded (mc_table m)) (mc_disk m') (recorded (mc_table m'))
          \<and> (is_clean out \<longrightarrow> (\<forall>p. selection_matches matches_with sel p
               \<longrightarrow> recorded (mc_table m') p = map_option fst (desired (mc_table m) p))))"
proof -
  let ?K = "fst ` set (mc_table m)"
  have t: "table_ok (mc_table m)" using assms(1) by (simp add: machine_ok_def)
  have dom: "\<forall>p. recorded (mc_table m) p \<noteq> None \<or> oids (desired (mc_table m)) p \<noteq> None \<longrightarrow> p \<in> ?K"
  proof (intro allI impI)
    fix p assume "recorded (mc_table m) p \<noteq> None \<or> oids (desired (mc_table m)) p \<noteq> None"
    then obtain r where "bt_get (mc_table m) p = Some r"
      by (cases "bt_get (mc_table m) p") (auto simp: recorded_def oids_def desired_def materialized_def)
    then show "p \<in> ?K" using bt_get_Some t by (force simp: table_ok_def)
  qed
  have "card (ahead ?K None) \<le> card ?K" by (rule card_mono) (auto simp: ahead_def)
  also have "\<dots> \<le> length (mc_table m)" using card_image_le card_length le_trans by blast
  finally have f: "card (ahead ?K None) < fuel" using assms(4) by simp
  have all: "ahead UNIV None = UNIV" by (simp add: ahead_def)
  have tidy: "\<forall>p \<in> ?K. tidy (sr_world env) p" using assms(2) by auto
  note runs = trust_loop_runs [OF assms(1) _ dom tidy assms(3) f, unfolded all]
  obtain m' r ops where run: "trust_loop env verify matches_with sel mode force window fuel client 0 None outcome_default m = Some (m', r)"
    and l: "left_by env ?K m m' ops"
    and ok: "\<forall>out. r = Ok out \<longrightarrow> ops = [] \<and> (is_clean out \<longrightarrow> (\<forall>p. selection_matches matches_with sel p
       \<longrightarrow> recorded (mc_table m') p = oids (desired (mc_table m)) p))"
    using runs [of verify matches_with sel mode force client 0 outcome_default] by auto
  show ?thesis using run l ok unfolding left_by_def oids_def by (intro exI [of _ m'] exI [of _ r]) auto
qed

lemma trusted_sync_settles_the_selection_witness:
  "\<exists>m' r. trust_loop quiet (\<lambda>_ c oids. (c, Ok (map (\<lambda>_. Valid) oids)) :: unit \<times> (unit + object_verification list)) (\<lambda>_ _. True)
      (selection_root :: unit selection) strategy_default False 1 2 () 0 None outcome_default
      \<lparr>mc_disk = \<lparr>dk_calls = 0, dk_tree = [([], Folder)], dk_escaped = False\<rparr>,
       mc_table = [(GatPath [97], \<lparr>sr_desired_oid = Some (Oid [1]), sr_desired_shard = Some (\<lparr>sid_depth = Levels 1, sid_prefix = [0]\<rparr>), sr_materialized_oid = None,
          sr_materialized_proof = None\<rparr>)], mc_batches = 0\<rparr> = Some (m', r)
    \<and> machine_ok m' \<and> \<not> dk_escaped (mc_disk m')"
proof -
  let ?t = "[(GatPath [97], \<lparr>sr_desired_oid = Some (Oid [1]), sr_desired_shard = Some (\<lparr>sid_depth = Levels 1, sid_prefix = [0]\<rparr>), sr_materialized_oid = None,
          sr_materialized_proof = None\<rparr>)]"
  let ?m = "\<lparr>mc_disk = \<lparr>dk_calls = 0, dk_tree = [([], Folder)], dk_escaped = False\<rparr>, mc_table = ?t, mc_batches = 0\<rparr>"
  have m: "machine_ok ?m" by (simp add: machine_ok_def tree_ok_def rooted_def table_ok_def bt_ok_def row_ok_def row_check_def)
  have w: "\<forall>(p, row) \<in> set (mc_table ?m). tidy (sr_world quiet) p" by (auto intro!: quiet_tidy)
  show ?thesis
    using trusted_sync_settles_the_selection [OF m w, of 1 2 "\<lambda>_ c oids. (c, Ok (map (\<lambda>_. Valid) oids))" "\<lambda>_ _. True" "selection_root :: unit selection"
        strategy_default False "()"] by auto
qed

end
