(* ===== verification/LockShards.thy ===== *)
theory LockShards
  imports LockRoundtrip LockIdentity FileState
begin

text \<open>
  The shards of a lock (the resident half of \<open>gat-io/src/lock/persistence.rs\<close>): distributing the entries over
  shard files, decoding the files, merging their rows and certifying what no single file can: that no path
  lies in two shards, that every row lies in the shard its path hashes to, and that no path is a directory
  of another. \<open>hash\<close> is BLAKE3, which yields 32 bytes; workers that run in parallel have their results
  collected in order, so they are lists here.
\<close>

section \<open>Errors and evidence\<close>

type_synonym shard_path = "str list"

text \<open>
  The failures of reading a lock; \<open>ShardIdError\<close> occurs only as the boxed source of \<open>CorruptShard\<close>. The
  failures of publication and reshape are not needed here.
\<close>

datatype store_error =
    RowError lock_error
  | ShardIdError lock_shard_id_error
  | CorruptShard shard_path store_error
  | MixedShardTopology u8 u8
  | UnsupportedOnDiskKind shard_path
  | NonUtf8Path shard_path
  | StoreIo shard_path
  | FileStateFailed file_state_error

definition wrap_shard_error :: "shard_path \<Rightarrow> store_error \<Rightarrow> store_error" where
  "wrap_shard_error path err = CorruptShard path err"

record shard_file =
  sf_shard_id :: lock_shard_id
  sf_full_path :: shard_path

record shard_evidence =
  ev_shard_id :: lock_shard_id
  ev_identity :: shard_content_identity
  ev_proof :: stat_proof

record resident_shard =
  rs_view :: lock_file
  rs_evidence :: "shard_evidence option"
  rs_placement_error :: "lock_error option"

section \<open>Shapes\<close>

datatype on_disk_shape = Flat | Sharded lock_shard_levels

fun shape_levels :: "on_disk_shape \<Rightarrow> lock_shard_levels" where
  "shape_levels Flat = LEVELS_FLAT"
| "shape_levels (Sharded levels) = levels"

definition shape_for_levels :: "lock_shard_levels \<Rightarrow> on_disk_shape" where
  "shape_for_levels levels = (if levels_is_flat levels then Flat else Sharded levels)"

fun topology_loop :: "lock_shard_levels option \<Rightarrow> lock_shard_id list \<Rightarrow> store_error + lock_shard_levels option" where
  "topology_loop seen [] = Ok seen"
| "topology_loop None (i # ids) = topology_loop (Some (sid_levels i)) ids"
| "topology_loop (Some levels) (i # ids) =
     (if levels = sid_levels i then topology_loop (Some levels) ids
      else Err (MixedShardTopology (levels_get levels) (levels_get (sid_levels i))))"

definition shard_topology :: "lock_shard_id list \<Rightarrow> store_error + on_disk_shape" where
  "shard_topology ids =
     map_ok (\<lambda>seen. shape_for_levels (case seen of None \<Rightarrow> LEVELS_FLAT | Some levels \<Rightarrow> levels)) (topology_loop None ids)"

definition shard_levels_for_ids :: "lock_shard_id list \<Rightarrow> store_error + lock_shard_levels" where
  "shard_levels_for_ids ids = map_ok shape_levels (shard_topology ids)"

definition relative_shard_path :: "lock_shard_id \<Rightarrow> shard_path option" where
  "relative_shard_path shard_id =
     (let bytes = prefix_bytes shard_id
      in if bytes = [] then None
         else Some (map format_02x (butlast bytes) @ [format_02x (last bytes) @ lit ''.tsv'']))"

section \<open>Decoding\<close>

text \<open>A path is hashed into 32 bytes, so the id is never absent.\<close>

definition check_shard_placement :: "(str \<Rightarrow> u8 list) \<Rightarrow> shard_file \<Rightarrow> lock_shard_levels \<Rightarrow> str \<Rightarrow> lock_error + unit" where
  "check_shard_placement hash shard levels path =
     (let expected = the (for_validated_path hash path levels)
      in if expected \<noteq> sf_shard_id shard then
           Err (Domain (MisplacedShardRow path (the (to_canonical_string (sf_shard_id shard))) (the (to_canonical_string expected))))
         else Ok ())"

fun find_error :: "('a \<Rightarrow> 'e + unit) \<Rightarrow> 'a list \<Rightarrow> 'e option" where
  "find_error f [] = None"
| "find_error f (x # xs) = (case f x of Inl e \<Rightarrow> Some e | Inr _ \<Rightarrow> find_error f xs)"

definition decode_resident_shard ::
  "(str \<Rightarrow> u8 list) \<Rightarrow> features \<Rightarrow> shard_file \<Rightarrow> str \<times> stat_proof \<Rightarrow> bool \<Rightarrow> store_error + resident_shard" where
  "decode_resident_shard hash f file observation with_evidence =
     (let evidence = (if with_evidence
            then Some \<lparr>ev_shard_id = sf_shard_id file, ev_identity = content_hash hash (fst observation), ev_proof = snd observation\<rparr>
            else None)
      in and_then (map_err (\<lambda>e. wrap_shard_error (sf_full_path file) (RowError e)) (parse_lock_file f (fst observation))) (\<lambda>view.
         Ok \<lparr>rs_view = view, rs_evidence = evidence,
             rs_placement_error =
               (if shard_is_flat (sf_shard_id file) then None
                else find_error (\<lambda>(path, _). check_shard_placement hash file (sid_levels (sf_shard_id file)) (as_str path))
                       (view_rows view))\<rparr>))"

text \<open>\<open>read\<close> is the coherent read of a file: its text with the proof, or why it failed.\<close>

definition read_resident_shards ::
  "(str \<Rightarrow> u8 list) \<Rightarrow> features \<Rightarrow> (shard_path \<Rightarrow> store_error + (str \<times> stat_proof)) \<Rightarrow> shard_file list \<Rightarrow> bool
     \<Rightarrow> store_error + resident_shard list" where
  "read_resident_shards hash f read files with_evidence =
     try_map (\<lambda>file. and_then (read (sf_full_path file)) (\<lambda>observation.
       decode_resident_shard hash f file observation with_evidence)) files"

section \<open>Merging\<close>

text \<open>The head of a shard's remaining rows, ordered by path and then by the shard's position.\<close>

type_synonym head = "gat_path \<times> oid \<times> nat"

definition head_less :: "head \<Rightarrow> head \<Rightarrow> bool" where
  "head_less a b \<longleftrightarrow>
     (case (a, b) of ((p, _, i), (q, _, j)) \<Rightarrow> as_str p < as_str q \<or> (as_str p = as_str q \<and> i < j))"

text \<open>The heap as the list of what it holds: \<open>peek\<close> is its least head.\<close>

fun heap_peek :: "head list \<Rightarrow> head option" where
  "heap_peek [] = None"
| "heap_peek (h # hs) =
     (case heap_peek hs of None \<Rightarrow> Some h | Some m \<Rightarrow> Some (if head_less m h then m else h))"

lemma heap_peek_in: "heap_peek hs = Some h \<Longrightarrow> h \<in> set hs"
  by (induction hs arbitrary: h) (auto split: option.splits if_splits)

fun init_heads :: "nat \<Rightarrow> (gat_path \<times> oid) list list \<Rightarrow> head list \<times> (gat_path \<times> oid) list list" where
  "init_heads owner [] = ([], [])"
| "init_heads owner (queue # shards) =
     (case init_heads (Suc owner) shards of
        (heads, cursors) \<Rightarrow>
          (case queue of
             [] \<Rightarrow> (heads, [] # cursors)
           | (path, oid) # rest \<Rightarrow> ((path, oid, owner) # heads, rest # cursors)))"

function merge_rows :: "head list \<Rightarrow> (gat_path \<times> oid) list list \<Rightarrow> head list" where
  "merge_rows heads cursors =
     (case heap_peek heads of
        None \<Rightarrow> []
      | Some (path, oid, owner) \<Rightarrow>
          (let heads = remove1 (path, oid, owner) heads
           in (path, oid, owner) #
              (case (if owner < length cursors then cursors ! owner else []) of
                 [] \<Rightarrow> merge_rows heads cursors
               | (path', oid') # rest \<Rightarrow> merge_rows ((path', oid', owner) # heads) (cursors[owner := rest]))))"
  by pat_completeness auto

lemma remaining_less:
  "k < length cs \<Longrightarrow> cs ! k = r # rest \<Longrightarrow> length (concat cs) = Suc (length (concat (cs[k := rest])))"
proof (induction cs arbitrary: k)
  case (Cons c cs)
  then show ?case by (cases k) auto
qed simp

lemma length_without_peek: "heap_peek heads = Some h \<Longrightarrow> length (remove1 h heads) < length heads"
  using heap_peek_in [of heads h] by (auto simp: length_remove1 dest: length_pos_if_in_set)

termination merge_rows
proof (relation "measure (\<lambda>(heads, cursors). length heads + length (concat cursors))", goal_cases)
  case (2 heads cursors h path x oid owner heads')
  then show ?case using length_without_peek by fastforce
next
  case (3 heads cursors h path x oid owner heads' r rest path' oid')
  then have "length (concat cursors) = Suc (length (concat (cursors[owner := rest])))"
    by (intro remaining_less) (auto split: if_splits)
  moreover have "length (remove1 (path, oid, owner) heads) < length heads"
    using 3 length_without_peek by fastforce
  ultimately show ?case using 3 by simp
qed simp

declare merge_rows.simps [simp del]

definition resident_rows :: "resident_shard list \<Rightarrow> head list" where
  "resident_rows shards = (case init_heads 0 (map (\<lambda>shard. view_rows (rs_view shard)) shards) of (heads, cursors) \<Rightarrow> merge_rows heads cursors)"

section \<open>Certification\<close>

text \<open>The stack has its last element first. The result is the first conflict, if any.\<close>

fun certify_loop :: "str option \<Rightarrow> str list \<Rightarrow> lock_error option \<Rightarrow> str list \<Rightarrow> lock_error + lock_error option" where
  "certify_loop previous stack prefix_error [] = Ok prefix_error"
| "certify_loop None stack prefix_error (path # paths) = certify_loop (Some path) (path # stack) prefix_error paths"
| "certify_loop (Some previous) stack prefix_error (path # paths) =
     (if previous = path then Err (Domain (PathInMultipleShards path))
      else
        (let lcp = common_prefix_length previous path;
             stack = dropWhile (\<lambda>s. length s > lcp) stack;
             prefix_error =
               (case stack of
                  ancestor # _ \<Rightarrow>
                    if nth_opt path (length ancestor) = Some SLASH \<and> prefix_error = None
                    then Some (Domain (DirectoryPrefixConflict ancestor path)) else prefix_error
                | [] \<Rightarrow> prefix_error)
         in certify_loop (Some path) (path # stack) prefix_error paths))"

definition certify_resident_shards :: "resident_shard list \<Rightarrow> lock_error + unit" where
  "certify_resident_shards shards =
     (if length shards = 1 then
        (case rs_placement_error (hd shards) of None \<Rightarrow> Ok () | Some error \<Rightarrow> Err error)
      else
        and_then (certify_loop None [] None (map (\<lambda>(path, _, _). as_str path) (resident_rows shards))) (\<lambda>prefix_error.
        case List.map_filter rs_placement_error shards of
          error # _ \<Rightarrow> Err error
        | [] \<Rightarrow> (case prefix_error of Some error \<Rightarrow> Err error | None \<Rightarrow> Ok ())))"


section \<open>Loading a sharded lock\<close>

text \<open>\<open>collect_files\<close> of the directory gives the paths below it, in any order; a path of components orders by components.\<close>

definition shard_name :: "shard_path \<Rightarrow> str" where
  "shard_name rel = lit ''gat.lock/'' @ join_with SLASH rel"

definition parse_shard_file :: "shard_path \<Rightarrow> store_error + shard_file" where
  "parse_shard_file rel =
     and_then (map_err (\<lambda>e. wrap_shard_error rel (ShardIdError e)) (shard_parse_canonical (shard_name rel)))
       (\<lambda>shard_id. Ok \<lparr>sf_shard_id = shard_id, sf_full_path = rel\<rparr>)"

definition load_sharded ::
  "(str \<Rightarrow> u8 list) \<Rightarrow> features \<Rightarrow> (shard_path \<Rightarrow> store_error + (str \<times> stat_proof)) \<Rightarrow> shard_path list \<Rightarrow> store_error + lock" where
  "load_sharded hash f read collected =
     and_then (try_map parse_shard_file (sort collected)) (\<lambda>files.
     and_then (map_err (wrap_shard_error []) (shard_topology (map sf_shard_id files))) (\<lambda>_.
     and_then (read_resident_shards hash f read files False) (\<lambda>shards.
     and_then (map_err RowError (certify_resident_shards shards)) (\<lambda>_.
       Ok \<lparr>lock_entries = concat (map (\<lambda>shard. map (\<lambda>(path, oid). entry_from_validated_parts path oid) (view_rows (rs_view shard))) shards)\<rparr>))))"

section \<open>Distributing a lock over shards\<close>

fun bucket_push :: "lock_shard_id \<Rightarrow> entry \<Rightarrow> (lock_shard_id \<times> entry list) list \<Rightarrow> (lock_shard_id \<times> entry list) list" where
  "bucket_push i e [] = [(i, [e])]"
| "bucket_push i e ((j, es) # buckets) =
     (case shard_cmp i j of
        Less \<Rightarrow> (i, [e]) # (j, es) # buckets
      | Equal \<Rightarrow> (j, es @ [e]) # buckets
      | Greater \<Rightarrow> (j, es) # bucket_push i e buckets)"

definition prepare_sharded_buckets ::
  "(str \<Rightarrow> u8 list) \<Rightarrow> lock \<Rightarrow> lock_shard_levels \<Rightarrow> (lock_shard_id \<times> entry list) list \<times> shard_path list" where
  "prepare_sharded_buckets hash self levels =
     (let buckets = foldl (\<lambda>buckets entry. bucket_push (the (for_path hash (entry_path entry) levels)) entry buckets) []
            (lock_entries self);
          buckets = (if sorted (map entry_path (lock_entries self)) then buckets
                     else map (\<lambda>(i, bucket). (i, sort_key entry_path bucket)) buckets);
          kept = map (\<lambda>(i, _). the (relative_shard_path i)) buckets
      in (buckets, kept))"

definition render_ordered_entries :: "entry list \<Rightarrow> str" where
  "render_ordered_entries entries = foldl append_row (VERSION @ [LF]) entries"

definition render_entries :: "entry list \<Rightarrow> str" where
  "render_entries entries =
     (if sorted (map entry_path entries) then render_ordered_entries entries
      else render_ordered_entries (sort_key entry_path entries))"

text \<open>The files a full rewrite leaves: every bucket under its path, nothing else.\<close>

definition sharded_files :: "(str \<Rightarrow> u8 list) \<Rightarrow> lock \<Rightarrow> lock_shard_levels \<Rightarrow> (shard_path \<times> str) list" where
  "sharded_files hash self levels =
     map (\<lambda>(i, entries). (the (relative_shard_path i), render_ordered_entries entries))
       (fst (prepare_sharded_buckets hash self levels))"

section \<open>The merge\<close>

definition key_of :: "head \<Rightarrow> str \<times> nat" where
  "key_of h = (as_str (fst h), snd (snd h))"

lemma head_less_lin: "head_less a b \<or> key_of a = key_of b \<or> head_less b a"
  by (cases a; cases b) (auto simp: head_less_def key_of_def)

lemma head_less_trans: "head_less a b \<Longrightarrow> head_less b c \<Longrightarrow> head_less a c"
  by (cases a; cases b; cases c) (auto simp: head_less_def)

lemma head_less_irrefl: "\<not> head_less a a"
  by (cases a) (auto simp: head_less_def)

lemma head_less_key: "key_of a = key_of b \<Longrightarrow> head_less a c = head_less b c \<and> head_less c a = head_less c b"
  by (cases a; cases b; cases c) (auto simp: head_less_def key_of_def)

lemma heap_peek_None [simp]: "heap_peek hs = None \<longleftrightarrow> hs = []"
  by (cases hs) (auto split: option.splits)

lemma heap_peek_least: "heap_peek hs = Some m \<Longrightarrow> h \<in> set hs \<Longrightarrow> \<not> head_less h m"
proof (induction hs arbitrary: m)
  case (Cons g hs)
  then show ?case
    by (auto split: option.splits if_splits simp: head_less_irrefl
        dest: head_less_trans) (meson head_less_lin head_less_key head_less_trans)+
qed simp


abbreviation owner_of :: "head \<Rightarrow> nat" where "owner_of h \<equiv> snd (snd h)"
abbreviation row_key :: "gat_path \<times> oid \<Rightarrow> str" where "row_key r \<equiv> as_str (fst r)"

text \<open>Rows with the position of the shard they come from.\<close>

fun tag :: "nat \<Rightarrow> (gat_path \<times> oid) list list \<Rightarrow> head list" where
  "tag n [] = []"
| "tag n (queue # shards) = map (\<lambda>(path, oid). (path, oid, n)) queue @ tag (Suc n) shards"

lemma set_tag: "(p, o', i) \<in> set (tag n cs) \<longleftrightarrow> n \<le> i \<and> i - n < length cs \<and> (p, o') \<in> set (cs ! (i - n))"
proof (induction cs arbitrary: n)
  case (Cons queue cs)
  show ?case
  proof (cases "n < i")
    case True
    then have "i - n = Suc (i - Suc n)" by simp
    with Cons True show ?thesis by auto
  next
    case False
    with Cons show ?thesis by (cases "i = n") auto
  qed
qed simp

lemma tag_update:
  "k < length cs \<Longrightarrow> cs ! k = (p, o') # rest \<Longrightarrow>
     mset (tag n cs) = add_mset (p, o', n + k) (mset (tag n (cs[k := rest])))"
proof (induction cs arbitrary: n k)
  case (Cons queue cs)
  then show ?case by (cases k) auto
qed simp

definition merging :: "head list \<Rightarrow> (gat_path \<times> oid) list list \<Rightarrow> bool" where
  "merging heads cursors \<longleftrightarrow>
     distinct (map owner_of heads) \<and> (\<forall>h \<in> set heads. owner_of h < length cursors)
     \<and> (\<forall>(p, o', i) \<in> set heads. sorted_wrt (<) (map row_key ((p, o') # cursors ! i)))
     \<and> (\<forall>i < length cursors. i \<notin> owner_of ` set heads \<longrightarrow> cursors ! i = [])"

lemma merging_remove:
  assumes "merging heads cursors" "(p, o', i) \<in> set heads"
  shows "distinct (map owner_of (remove1 (p, o', i) heads))"
    "set (remove1 (p, o', i) heads) = set heads - {(p, o', i)}"
    "owner_of ` set (remove1 (p, o', i) heads) = owner_of ` set heads - {i}"
proof -
  have d: "distinct heads" "inj_on owner_of (set heads)" using assms(1) by (simp_all add: merging_def distinct_map)
  show s: "set (remove1 (p, o', i) heads) = set heads - {(p, o', i)}" using d by simp
  show "distinct (map owner_of (remove1 (p, o', i) heads))"
    using d inj_on_subset [OF d(2)] by (simp add: distinct_map)
  show "owner_of ` set (remove1 (p, o', i) heads) = owner_of ` set heads - {i}"
    unfolding s using inj_on_image_set_diff [OF d(2), of "set heads" "{(p, o', i)}"] assms(2) by simp
qed

lemma merging_exhausted:
  assumes "merging heads cursors" "(p, o', i) \<in> set heads" "cursors ! i = []"
  shows "merging (remove1 (p, o', i) heads) cursors"
  unfolding merging_def
proof (intro conjI)
  note r = merging_remove [OF assms(1,2)]
  show "distinct (map owner_of (remove1 (p, o', i) heads))" by (rule r)
  show "\<forall>h \<in> set (remove1 (p, o', i) heads). owner_of h < length cursors"
    "\<forall>(q, u, j) \<in> set (remove1 (p, o', i) heads). sorted_wrt (<) (map row_key ((q, u) # cursors ! j))"
    using assms(1) unfolding r(2) merging_def by blast+
  show "\<forall>j < length cursors. j \<notin> owner_of ` set (remove1 (p, o', i) heads) \<longrightarrow> cursors ! j = []"
    using assms(1,3) unfolding r(3) merging_def by blast
qed

lemma merging_advance:
  assumes "merging heads cursors" "(p, o', i) \<in> set heads" "cursors ! i = (p', q') # rest"
  shows "merging ((p', q', i) # remove1 (p, o', i) heads) (cursors[i := rest])"
  unfolding merging_def
proof (intro conjI)
  note r = merging_remove [OF assms(1,2)]
  have i: "i < length cursors" using assms(1,2) by (force simp: merging_def)
  have other: "j \<noteq> i" if "(u, v, j) \<in> set (remove1 (p, o', i) heads)" for u v j
    using r(3) that by force
  have s: "sorted_wrt (<) (map row_key ((p, o') # cursors ! i))"
    using assms(1,2) unfolding merging_def by fast
  show "distinct (map owner_of ((p', q', i) # remove1 (p, o', i) heads))" using r(1,3) by auto
  show "\<forall>h \<in> set ((p', q', i) # remove1 (p, o', i) heads). owner_of h < length (cursors[i := rest])"
    using assms(1) i unfolding merging_def by (auto dest: notin_set_remove1)
  show "\<forall>(q, u, j) \<in> set ((p', q', i) # remove1 (p, o', i) heads). sorted_wrt (<) (map row_key ((q, u) # cursors[i := rest] ! j))"
  proof (safe, goal_cases)
    case (1 q u j)
    show ?case
    proof (cases "(q, u, j) = (p', q', i)")
      case True
      then show ?thesis using s assms(3) i by simp
    next
      case False
      then have m: "(q, u, j) \<in> set (remove1 (p, o', i) heads)" using 1 by auto
      then have "(q, u, j) \<in> set heads" unfolding r(2) by blast
      then show ?thesis using assms(1) other [OF m] unfolding merging_def by auto
    qed
  qed
  show "\<forall>j < length (cursors[i := rest]). j \<notin> owner_of ` set ((p', q', i) # remove1 (p, o', i) heads) \<longrightarrow> cursors[i := rest] ! j = []"
    using assms(1) r(3) unfolding merging_def by auto
qed

lemma merging_done:
  assumes "merging [] cursors"
  shows "tag 0 cursors = []"
proof (rule ccontr)
  assume "tag 0 cursors \<noteq> []"
  then obtain p q i where "(p, q, i) \<in> set (tag 0 cursors)" by (metis last_in_set old.prod.exhaust)
  then have "i < length cursors" "cursors ! i \<noteq> []" using set_tag [of p q i 0 cursors] by auto
  with assms show False by (simp add: merging_def)
qed

lemma merge_rows_Nil [simp]: "merge_rows [] cursors = []"
  by (subst merge_rows.simps) simp

lemma merge_rows_step:
  assumes "heap_peek heads = Some (p, o', i)" "i < length cursors"
  shows "cursors ! i = [] \<Longrightarrow> merge_rows heads cursors = (p, o', i) # merge_rows (remove1 (p, o', i) heads) cursors"
    "cursors ! i = (p', q') # rest \<Longrightarrow>
       merge_rows heads cursors = (p, o', i) # merge_rows ((p', q', i) # remove1 (p, o', i) heads) (cursors[i := rest])"
  using assms by (subst merge_rows.simps; simp)+

lemma merged_mset:
  "merging heads cursors \<Longrightarrow> mset (merge_rows heads cursors) = mset heads + mset (tag 0 cursors)"
proof (induction heads cursors rule: merge_rows.induct)
  case (1 heads cursors)
  show ?case
  proof (cases "heap_peek heads")
    case None
    with 1(3) show ?thesis by (simp add: merging_done)
  next
    case (Some m)
    obtain p o' i where m: "m = (p, o', i)" by (metis surj_pair)
    have mem: "(p, o', i) \<in> set heads" using heap_peek_in [OF Some] m by simp
    have i: "i < length cursors" using mem 1(3) by (force simp: merging_def)
    show ?thesis
    proof (cases "cursors ! i")
      case Nil
      have "mset (merge_rows (remove1 (p, o', i) heads) cursors) = mset (remove1 (p, o', i) heads) + mset (tag 0 cursors)"
        by (rule 1(1) [OF Some m [symmetric] refl refl]) (simp_all add: i Nil merging_exhausted [OF 1(3) mem Nil])
      then show ?thesis using mem by (simp add: merge_rows_step(1) [OF Some [unfolded m] i Nil])
    next
      case (Cons r rest)
      obtain p' q' where r: "r = (p', q')" by fastforce
      show ?thesis
      proof -
        note c = Cons [unfolded r]
        have "mset (merge_rows ((p', q', i) # remove1 (p, o', i) heads) (cursors[i := rest]))
            = mset ((p', q', i) # remove1 (p, o', i) heads) + mset (tag 0 (cursors[i := rest]))"
          by (rule 1(2) [OF Some m [symmetric] refl refl _ refl]) (simp_all add: i c merging_advance [OF 1(3) mem c])
        then show ?thesis using mem tag_update [OF i c, of 0] by (simp add: merge_rows_step(2) [OF Some [unfolded m] i c])
      qed
    qed
  qed
qed


lemma least_head:
  assumes m: "merging heads cursors" "heap_peek heads = Some h"
  shows "g \<in> set (remove1 h heads) \<Longrightarrow> head_less h g" "x \<in> set (tag 0 cursors) \<Longrightarrow> head_less h x"
proof -
  have d: "distinct (map owner_of heads)" "h \<in> set heads" using m heap_peek_in by (auto simp: merging_def)
  have least: "head_less h g" if "g \<in> set heads" "g \<noteq> h" for g
  proof -
    have "owner_of g \<noteq> owner_of h" using d that by (auto simp: distinct_map dest: inj_onD)
    then show ?thesis using head_less_lin [of h g] heap_peek_least [OF m(2) that(1)] by (auto simp: key_of_def)
  qed
  show "head_less h g" if "g \<in> set (remove1 h heads)"
    using least that d by (auto simp: distinct_map)
  show "head_less h x" if x: "x \<in> set (tag 0 cursors)"
  proof -
    obtain q u i where q: "x = (q, u, i)" by (metis surj_pair)
    have i: "i < length cursors" "(q, u) \<in> set (cursors ! i)" using x set_tag [of q u i 0 cursors] by (auto simp: q)
    then have "i \<in> owner_of ` set heads" using m(1) unfolding merging_def by fastforce
    then obtain r v where r: "(r, v, i) \<in> set heads" by auto
    then have "head_less (r, v, i) x" using m(1) i q unfolding merging_def head_less_def by fastforce
    then show ?thesis using least [OF r] head_less_trans by blast
  qed
qed

lemma set_merged:
  assumes "merging heads cursors"
  shows "set (merge_rows heads cursors) = set heads \<union> set (tag 0 cursors)"
  using arg_cong [OF merged_mset [OF assms], of set_mset] by simp

lemma merged_sorted: "merging heads cursors \<Longrightarrow> sorted_wrt head_less (merge_rows heads cursors)"
proof (induction heads cursors rule: merge_rows.induct)
  case (1 heads cursors)
  show ?case
  proof (cases "heap_peek heads")
    case None
    then show ?thesis by simp
  next
    case (Some m)
    obtain p o' i where m: "m = (p, o', i)" by (metis surj_pair)
    have mem: "(p, o', i) \<in> set heads" using heap_peek_in [OF Some] m by simp
    have i: "i < length cursors" using mem 1(3) by (force simp: merging_def)
    note least = least_head [OF 1(3) Some [unfolded m]]
    show ?thesis
    proof (cases "cursors ! i")
      case Nil
      note next' = merging_exhausted [OF 1(3) mem Nil]
      have "head_less (p, o', i) x" if "x \<in> set (merge_rows (remove1 (p, o', i) heads) cursors)" for x
        using that unfolding set_merged [OF next'] by (blast intro: least)
      moreover have "sorted_wrt head_less (merge_rows (remove1 (p, o', i) heads) cursors)"
        by (rule 1(1) [OF Some m [symmetric] refl refl]) (simp_all add: i Nil next')
      ultimately show ?thesis by (simp add: merge_rows_step(1) [OF Some [unfolded m] i Nil])
    next
      case (Cons r rest)
      obtain p' q' where r: "r = (p', q')" by fastforce
      note next' = merging_advance [OF 1(3) mem Cons [unfolded r]]
      have "set (tag 0 cursors) = insert (p', q', i) (set (tag 0 (cursors[i := rest])))"
        using arg_cong [OF tag_update [OF i Cons [unfolded r], of 0], of set_mset] by simp
      then have tags: "x = (p', q', i) \<or> x \<in> set (tag 0 (cursors[i := rest])) \<Longrightarrow> x \<in> set (tag 0 cursors)" for x by blast
      have "head_less (p, o', i) x"
        if "x \<in> set (merge_rows ((p', q', i) # remove1 (p, o', i) heads) (cursors[i := rest]))" for x
        using that unfolding set_merged [OF next'] list.set by (blast intro: least tags)
      moreover have "sorted_wrt head_less (merge_rows ((p', q', i) # remove1 (p, o', i) heads) (cursors[i := rest]))"
        by (rule 1(2) [OF Some m [symmetric] refl refl _ refl]) (simp_all add: i Cons r next')
      ultimately show ?thesis by (simp add: merge_rows_step(2) [OF Some [unfolded m] i Cons [unfolded r]])
    qed
  qed
qed

lemma init_heads_spec:
  "init_heads n shards = (heads, cursors) \<Longrightarrow>
     mset heads + mset (tag n cursors) = mset (tag n shards) \<and> length cursors = length shards
     \<and> (\<forall>h \<in> set heads. n \<le> owner_of h \<and> owner_of h < n + length shards) \<and> distinct (map owner_of heads)
     \<and> (\<forall>(p, o', i) \<in> set heads. (p, o') # cursors ! (i - n) = shards ! (i - n))
     \<and> (\<forall>i < length shards. n + i \<notin> owner_of ` set heads \<longrightarrow> cursors ! i = [])"
proof (induction n shards arbitrary: heads cursors rule: init_heads.induct)
  case (2 n queue shards)
  obtain hs cs where i: "init_heads (Suc n) shards = (hs, cs)" by fastforce
  note ih = 2(1) [OF i]
  have n: "n \<notin> owner_of ` set hs" using ih by force
  have nth: "(x # cs) ! (j - n) = cs ! (j - Suc n)" "(y # shards) ! (j - n) = shards ! (j - Suc n)"
    if "(p, q, j) \<in> set hs" for p q j x y
  proof -
    have "Suc n \<le> j" using that ih by force
    then have "j - n = Suc (j - Suc n)" by simp
    then show "(x # cs) ! (j - n) = cs ! (j - Suc n)" "(y # shards) ! (j - n) = shards ! (j - Suc n)" by simp_all
  qed
  have later: "n + j \<notin> owner_of ` set hs \<Longrightarrow> j < Suc (length shards) \<Longrightarrow> (x # cs) ! j = []"
    if "j = 0 \<Longrightarrow> x = []" for j and x :: "(gat_path \<times> oid) list"
    using ih that by (cases j) auto
  show ?case
  proof (cases queue)
    case Nil
    with 2(2) i have "heads = hs" "cursors = [] # cs" by auto
    then show ?thesis using ih nth later [of _ "[]"] Nil by (auto split: prod.splits)
  next
    case (Cons r rest)
    with 2(2) i have "heads = (fst r, snd r, n) # hs" "cursors = rest # cs" by (auto split: prod.splits)
    then show ?thesis using ih nth later [of _ rest] Cons n by (auto split: prod.splits)
  qed
qed simp

definition rows_of :: "resident_shard \<Rightarrow> (gat_path \<times> oid) list" where
  "rows_of shard = view_rows (rs_view shard)"

lemma resident_rows_spec:
  assumes "\<forall>shard \<in> set shards. sorted_wrt (<) (map row_key (rows_of shard))"
  shows "sorted_wrt head_less (resident_rows shards)" "mset (resident_rows shards) = mset (tag 0 (map rows_of shards))"
proof -
  obtain heads cursors where i: "init_heads 0 (map rows_of shards) = (heads, cursors)" by fastforce
  note spec = init_heads_spec [OF i]
  have "sorted_wrt (<) (map row_key ((p, o') # cursors ! k))" if "(p, o', k) \<in> set heads" for p o' k
  proof -
    have "k < length shards" "(p, o') # cursors ! k = rows_of (shards ! k)" using spec that by force+
    then show ?thesis using assms by (metis nth_mem)
  qed
  then have m: "merging heads cursors"
    using spec unfolding merging_def by (auto split: prod.splits)
  have r: "resident_rows shards = merge_rows heads cursors"
    using i by (simp add: resident_rows_def rows_of_def [abs_def])
  show "sorted_wrt head_less (resident_rows shards)" unfolding r by (rule merged_sorted [OF m])
  show "mset (resident_rows shards) = mset (tag 0 (map rows_of shards))"
    unfolding r merged_mset [OF m] using spec by simp
qed


section \<open>What certification decides\<close>

definition prefix_witness :: "str list \<Rightarrow> lock_error \<Rightarrow> bool" where
  "prefix_witness ps e \<longleftrightarrow>
     (\<exists>a d. e = Domain (DirectoryPrefixConflict a d) \<and> a \<in> set ps \<and> d \<in> set ps \<and> is_directory_prefix a d)"

definition scan_state :: "str list \<Rightarrow> lock_error option \<Rightarrow> bool" where
  "scan_state seen err \<longleftrightarrow>
     sorted_wrt (<) seen \<and> (case err of None \<Rightarrow> conflict_free (set seen) | Some e \<Rightarrow> prefix_witness seen e)"

lemma prefix_witness_mono: "prefix_witness ps e \<Longrightarrow> set ps \<subseteq> set qs \<Longrightarrow> prefix_witness qs e"
  by (auto simp: prefix_witness_def)

lemma scan_state_snoc:
  assumes "scan_state seen err" "sorted_wrt (<) (seen @ [path])"
  shows "scan_state (seen @ [path])
    (case conflict_on_top (prefixes_of path seen) path of
       Some a \<Rightarrow> if err = None then Some (Domain (DirectoryPrefixConflict a path)) else err
     | None \<Rightarrow> err)"
proof (cases err)
  case (Some e)
  then have "prefix_witness (seen @ [path]) e"
    using assms(1) prefix_witness_mono [of seen e "seen @ [path]"] by (auto simp: scan_state_def)
  with Some assms(2) show ?thesis by (auto simp: scan_state_def split: option.splits)
next
  case None
  then have c: "conflict_free (set seen)" using assms(1) by (simp add: scan_state_def)
  note top = conflict_on_top_prefixes [OF assms(2) c]
  show ?thesis
  proof (cases "conflict_on_top (prefixes_of path seen) path")
    case None
    then have "\<forall>q \<in> set seen. \<not> is_directory_prefix q path" using top by (metis option.distinct(1))
    then have "conflict_free (set (seen @ [path]))" by (rule conflict_free_snoc [OF assms(2) c])
    with None \<open>err = None\<close> assms(2) show ?thesis by (simp add: scan_state_def)
  next
    case (Some a)
    with top have "a \<in> set seen" "is_directory_prefix a path" by blast+
    with Some \<open>err = None\<close> assms(2) show ?thesis by (auto simp: scan_state_def prefix_witness_def)
  qed
qed

lemma certify_loop_outcome:
  assumes "sorted (seen @ previous # rest)" "scan_state (seen @ [previous]) err"
  shows "case certify_loop (Some previous) (previous # prefixes_of previous seen) err rest of
      Inl e \<Rightarrow> \<exists>p. e = Domain (PathInMultipleShards p) \<and> tracked_twice p (seen @ previous # rest)
    | Inr err' \<Rightarrow> scan_state (seen @ previous # rest) err'"
  using assms
proof (induction rest arbitrary: seen previous err)
  case (Cons path rest)
  let ?seen = "seen @ [previous]"
  have le: "previous \<le> path" using Cons.prems(1) by (simp add: sorted_append)
  show ?case
  proof (cases "previous = path")
    case True
    then show ?thesis by (auto simp: tracked_twice_def)
  next
    case False
    have s: "sorted_wrt (<) (?seen @ [path])"
      using Cons.prems(2) False le unfolding scan_state_def by (auto simp: sorted_wrt_append)
    have st: "dropWhile (\<lambda>s. length s > common_prefix_length previous path) (previous # prefixes_of previous seen)
        = prefixes_of path ?seen"
      using lcp.step_prefixes_of [of seen previous path] s by (simp add: lcp_step_def)
    note step = scan_state_snoc [OF Cons.prems(2) s]
    define err' where "err' = (case conflict_on_top (prefixes_of path ?seen) path of
       Some a \<Rightarrow> if err = None then Some (Domain (DirectoryPrefixConflict a path)) else err
     | None \<Rightarrow> err)"
    have e: "(case prefixes_of path ?seen of
         [] \<Rightarrow> err
       | ancestor # _ \<Rightarrow>
           if nth_opt path (length ancestor) = Some SLASH \<and> err = None
           then Some (Domain (DirectoryPrefixConflict ancestor path)) else err) = err'"
      unfolding err'_def by (cases "prefixes_of path ?seen") auto
    have eq: "certify_loop (Some previous) (previous # prefixes_of previous seen) err (path # rest)
        = certify_loop (Some path) (path # prefixes_of path ?seen) err' rest"
      using False by (simp only: certify_loop.simps if_False Let_def st e)
    have "sorted (?seen @ path # rest)" using Cons.prems(1) by simp
    from Cons.IH [OF this step [folded err'_def]] show ?thesis
      unfolding eq append_assoc append_Cons append_Nil .
  qed
qed simp

lemma certify_loop_spec:
  assumes "sorted ps"
  shows "case certify_loop None [] None ps of
      Inl e \<Rightarrow> \<exists>p. e = Domain (PathInMultipleShards p) \<and> tracked_twice p ps
    | Inr err \<Rightarrow> scan_state ps err"
proof (cases ps)
  case Nil
  then show ?thesis by (simp add: scan_state_def conflict_free_def)
next
  case (Cons path rest)
  have "\<not> is_directory_prefix path path" using is_directory_prefix_less [of path path] by auto
  then have "scan_state [path] None" by (simp add: scan_state_def conflict_free_def)
  then show ?thesis
    using certify_loop_outcome [of "[]" path rest None, unfolded append_Nil] assms unfolding Cons by (simp add: prefixes_of_def)
qed


definition shard_paths :: "resident_shard \<Rightarrow> str list" where
  "shard_paths shard = map row_key (view_rows (rs_view shard))"

definition all_paths :: "resident_shard list \<Rightarrow> str list" where
  "all_paths shards = concat (map shard_paths shards)"

definition placed :: "(str \<Rightarrow> u8 list) \<Rightarrow> lock_shard_id \<Rightarrow> str \<Rightarrow> bool" where
  "placed hash i path \<longleftrightarrow> for_validated_path hash path (sid_levels i) = Some i"

lemma placement_total:
  assumes "length (hash path) = 32" "unat (levels_get levels) \<le> 4"
  shows "for_validated_path hash path levels = Some (shard_of (take (unat (levels_get levels)) (hash path)))"
proof (cases levels)
  case (Levels depth)
  let ?bs = "take (unat depth) (hash path)"
  have n: "unat depth \<le> 4" and len: "length ?bs = unat depth" using assms Levels by simp_all
  show ?thesis
  proof (cases "depth = 0")
    case True
    then show ?thesis by (simp add: for_validated_path_def Levels levels_is_flat_def flip: shard_of_Nil)
  next
    case False
    then show ?thesis
      using n len by (simp add: for_validated_path_def Levels levels_is_flat_def copy_at_def shard_of_def Let_def del: length_take)
  qed
qed

lemma wf_shard_levels: "wf_shard i \<Longrightarrow> unat (levels_get (sid_levels i)) \<le> 4"
  by (auto simp: wf_shard_def LEVELS_MAX_def word_le_nat_alt sid_levels_def)

lemma placed_flat:
  assumes "wf_shard i" "shard_is_flat i"
  shows "placed hash i path"
proof -
  have "i = shard_flat" using assms shard_of_simps(2) shard_of_Nil unfolding wf_shard_iff by metis
  then show ?thesis using assms(2) by (simp add: placed_def for_validated_path_def sid_levels_def shard_is_flat_def)
qed

lemma parsed_entries:
  assumes "parse_lock_file f text = Ok v"
  shows "sorted_wrt (<) (map row_key (view_rows v))" "conflict_free (set (map row_key (view_rows v)))"
proof -
  have "lock_parse f text = Ok \<lparr>lock_entries = to_entries v\<rparr>" using assms by (simp add: lock_parse_view)
  then have "valid_rows (entry_rows (to_entries v))" unfolding lock_parse_iff by auto
  then show "sorted_wrt (<) (map row_key (view_rows v))" "conflict_free (set (map row_key (view_rows v)))"
    by (simp_all add: valid_rows_def entry_rows_def view_rows_entries comp_def image_image)
qed

lemma find_error_None: "find_error g xs = None \<longleftrightarrow> (\<forall>x \<in> set xs. \<exists>u. g x = Inr u)"
  by (induction xs) (auto split: sum.splits)

lemma find_error_Some: "find_error g xs = Some e \<Longrightarrow> \<exists>x \<in> set xs. g x = Inl e"
  by (induction xs) (auto split: sum.splits)

lemma decoded_shard:
  assumes "decode_resident_shard hash f file obs ev = Ok shard"
  shows "parse_lock_file f (fst obs) = Ok (rs_view shard)"
    "sorted_wrt (<) (shard_paths shard)" "conflict_free (set (shard_paths shard))"
proof -
  show p: "parse_lock_file f (fst obs) = Ok (rs_view shard)"
    using assms by (auto simp: decode_resident_shard_def and_then_def map_err_def Let_def split: sum.splits)
  show "sorted_wrt (<) (shard_paths shard)" "conflict_free (set (shard_paths shard))"
    using parsed_entries [OF p] by (simp_all add: shard_paths_def)
qed

definition stray_row :: "(str \<Rightarrow> u8 list) \<Rightarrow> shard_file \<Rightarrow> str \<Rightarrow> lock_error" where
  "stray_row hash file path = Domain (MisplacedShardRow path (the (to_canonical_string (sf_shard_id file)))
     (the (to_canonical_string (the (for_validated_path hash path (sid_levels (sf_shard_id file)))))))"

lemma decoded_placement:
  assumes "decode_resident_shard hash f file obs ev = Ok shard" "wf_shard (sf_shard_id file)" "\<And>p. length (hash p) = 32"
  shows "case rs_placement_error shard of
      None \<Rightarrow> \<forall>path \<in> set (shard_paths shard). placed hash (sf_shard_id file) path
    | Some e \<Rightarrow> \<exists>path \<in> set (shard_paths shard). \<not> placed hash (sf_shard_id file) path \<and> e = stray_row hash file path"
proof (cases "shard_is_flat (sf_shard_id file)")
  case True
  then have "rs_placement_error shard = None"
    using assms(1) by (auto simp: decode_resident_shard_def and_then_def map_err_def Let_def split: sum.splits)
  then show ?thesis using placed_flat [OF assms(2) True] by simp
next
  case False
  let ?check = "\<lambda>(path, _ :: oid). check_shard_placement hash file (sid_levels (sf_shard_id file)) (as_str path)"
  have e: "rs_placement_error shard = find_error ?check (view_rows (rs_view shard))"
    using assms(1) False by (auto simp: decode_resident_shard_def and_then_def map_err_def Let_def split: sum.splits)
  have tot: "\<exists>i. for_validated_path hash path (sid_levels (sf_shard_id file)) = Some i" for path
    using placement_total [of hash path "sid_levels (sf_shard_id file)"] assms(3) wf_shard_levels [OF assms(2)] by blast
  have c: "?check r = (if placed hash (sf_shard_id file) (row_key r) then Ok () else Err (stray_row hash file (row_key r)))" for r
    using tot [of "row_key r"] by (cases r) (auto simp: check_shard_placement_def placed_def stray_row_def Let_def)
  show ?thesis
  proof (cases "find_error ?check (view_rows (rs_view shard))")
    case None
    then have "\<forall>r \<in> set (view_rows (rs_view shard)). placed hash (sf_shard_id file) (row_key r)"
      unfolding find_error_None c by (auto split: if_splits)
    with None show ?thesis by (simp add: e shard_paths_def)
  next
    case (Some x)
    from find_error_Some [OF Some] obtain r where "r \<in> set (view_rows (rs_view shard))" "?check r = Err x" by blast
    then have "row_key r \<in> set (shard_paths shard)" "\<not> placed hash (sf_shard_id file) (row_key r)" "x = stray_row hash file (row_key r)"
      unfolding c by (auto simp: shard_paths_def split: if_splits)
    with Some show ?thesis by (auto simp: e)
  qed
qed


lemma tag_paths: "map (\<lambda>(path, _, _). as_str path) (tag n shards) = concat (map (map row_key) shards)"
  by (induction n shards rule: tag.induct) (auto simp: case_prod_unfold)

lemma resident_paths:
  assumes "\<forall>shard \<in> set shards. sorted_wrt (<) (shard_paths shard)"
  shows "sorted (map (\<lambda>(path, _, _). as_str path) (resident_rows shards))"
    "mset (map (\<lambda>(path, _, _). as_str path) (resident_rows shards)) = mset (all_paths shards)"
proof -
  have a: "\<forall>shard \<in> set shards. sorted_wrt (<) (map row_key (rows_of shard))"
    using assms by (simp add: shard_paths_def rows_of_def)
  note spec = resident_rows_spec [OF a]
  show "sorted (map (\<lambda>(path, _, _). as_str path) (resident_rows shards))"
    unfolding sorted_wrt_map by (rule sorted_wrt_mono_rel [OF _ spec(1)]) (auto simp: head_less_def)
  have "mset (map (\<lambda>(path, _, _). as_str path) (resident_rows shards)) = mset (map (\<lambda>(path, _, _). as_str path) (tag 0 (map rows_of shards)))"
    using spec(2) by (metis mset_map)
  also have "\<dots> = mset (all_paths shards)"
    unfolding tag_paths by (simp add: all_paths_def shard_paths_def [abs_def] rows_of_def comp_def)
  finally show "mset (map (\<lambda>(path, _, _). as_str path) (resident_rows shards)) = mset (all_paths shards)" .
qed

lemma first_stored_error:
  "List.map_filter g xs = e # es \<Longrightarrow> \<exists>x \<in> set xs. g x = Some e"
  "List.map_filter g xs = [] \<longleftrightarrow> (\<forall>x \<in> set xs. g x = None)"
  by (induction xs) (auto simp: List.map_filter_simps split: option.splits)

definition cross_check :: "bool \<Rightarrow> str list \<Rightarrow> (lock_error \<Rightarrow> bool) \<Rightarrow> lock_error + unit \<Rightarrow> bool" where
  "cross_check all_placed paths stray r \<longleftrightarrow>
     (case r of
        Inr _ \<Rightarrow> distinct paths \<and> all_placed \<and> conflict_free (set paths)
      | Inl e \<Rightarrow>
          (\<exists>p. e = Domain (PathInMultipleShards p) \<and> tracked_twice p paths)
          \<or> (distinct paths \<and> stray e)
          \<or> (distinct paths \<and> all_placed \<and> prefix_witness paths e))"

lemma tracked_twice_mset: "mset ps = mset qs \<Longrightarrow> tracked_twice p ps = tracked_twice p qs"
proof -
  assume m: "mset ps = mset qs"
  have "length (filter (\<lambda>q. q = p) xs) = size (filter_mset (\<lambda>q. q = p) (mset xs))" for xs
    by (simp flip: mset_filter)
  with m show ?thesis by (simp add: tracked_twice_def)
qed

lemma prefix_witness_mset: "mset ps = mset qs \<Longrightarrow> prefix_witness ps e = prefix_witness qs e"
  using mset_eq_setD [of ps qs] unfolding prefix_witness_def by presburger

lemma certify_outcome:
  assumes paths: "\<forall>shard \<in> set shards. sorted_wrt (<) (shard_paths shard) \<and> conflict_free (set (shard_paths shard))"
    and stored: "all_placed \<longleftrightarrow> (\<forall>shard \<in> set shards. rs_placement_error shard = None)"
    "\<forall>shard \<in> set shards. \<forall>e. rs_placement_error shard = Some e \<longrightarrow> stray e"
  shows "cross_check all_placed (all_paths shards) stray (certify_resident_shards shards)"
proof (cases "length shards = 1")
  case True
  then obtain shard where s: "shards = [shard]" by (auto simp: length_Suc_conv)
  have "distinct (shard_paths shard)" "conflict_free (set (shard_paths shard))"
    using paths s sorted_wrt_less_distinct by auto
  with s stored show ?thesis
    by (cases "rs_placement_error shard") (simp_all add: certify_resident_shards_def cross_check_def all_paths_def)
next
  case False
  let ?ps = "map (\<lambda>(path, _, _). as_str path) (resident_rows shards)"
  have r: "sorted ?ps" "mset ?ps = mset (all_paths shards)" using resident_paths [of shards] paths by auto
  note loop = certify_loop_spec [OF r(1)]
  show ?thesis
  proof (cases "certify_loop None [] None ?ps")
    case (Inl e)
    with loop obtain p where "e = Domain (PathInMultipleShards p)" "tracked_twice p (all_paths shards)"
      using tracked_twice_mset [OF r(2)] by auto
    with Inl False show ?thesis by (auto simp: certify_resident_shards_def cross_check_def)
  next
    case (Inr err)
    with loop have scan: "scan_state ?ps err" by simp
    have d: "distinct (all_paths shards)"
      using sorted_wrt_less_distinct [of ?ps] scan mset_eq_imp_distinct_iff [OF r(2)] by (simp add: scan_state_def)
    have c: "case err of None \<Rightarrow> conflict_free (set (all_paths shards)) | Some e \<Rightarrow> prefix_witness (all_paths shards) e"
      using scan prefix_witness_mset [OF r(2)] mset_eq_setD [OF r(2)] by (auto simp: scan_state_def split: option.splits)
    have run: "certify_resident_shards shards = (case List.map_filter rs_placement_error shards of
          error # _ \<Rightarrow> Err error | [] \<Rightarrow> (case err of Some error \<Rightarrow> Err error | None \<Rightarrow> Ok ()))"
      using Inr False by (simp add: certify_resident_shards_def)
    show ?thesis
    proof (cases "List.map_filter rs_placement_error shards")
      case Nil
      then have "all_placed" using stored(1) first_stored_error(2) by metis
      with Nil d c run show ?thesis by (cases err) (simp_all add: cross_check_def)
    next
      case (Cons e es)
      then have "stray e" using stored(2) first_stored_error(1) [OF Cons] by blast
      with Cons d run show ?thesis by (simp add: cross_check_def)
    qed
  qed
qed


section \<open>Buckets\<close>

lemma shard_text_inject: "wf_shard i \<Longrightarrow> wf_shard j \<Longrightarrow> shard_text i = shard_text j \<longleftrightarrow> i = j"
  using shard_parse_Ok [of "shard_text i" i] shard_parse_Ok [of "shard_text i" j] by fastforce

definition buckets_ok :: "(lock_shard_id \<times> entry list) list \<Rightarrow> bool" where
  "buckets_ok bs \<longleftrightarrow> sorted_wrt (<) (map (\<lambda>b. shard_text (fst b)) bs) \<and> (\<forall>b \<in> set bs. wf_shard (fst b))"

lemma buckets_ok_distinct: "buckets_ok bs \<Longrightarrow> distinct (map fst bs)"
  using sorted_wrt_less_distinct [of "map (\<lambda>b. shard_text (fst b)) bs"]
  by (auto simp: buckets_ok_def distinct_map inj_on_def)

lemma fst_bucket_push: "fst ` set (bucket_push i e bs) = insert i (fst ` set bs) \<or> fst ` set (bucket_push i e bs) = fst ` set bs"
proof (induction bs)
  case (Cons b bs)
  then show ?case by (cases b) (auto split: ordering.splits)
qed simp

lemma bucket_push_ok:
  assumes "buckets_ok bs" "wf_shard i"
  shows "buckets_ok (bucket_push i e bs)"
    "map_of (bucket_push i e bs) = (map_of bs)(i \<mapsto> (case map_of bs i of None \<Rightarrow> [e] | Some b \<Rightarrow> b @ [e]))"
proof -
  have "buckets_ok (bucket_push i e bs)
    \<and> map_of (bucket_push i e bs) = (map_of bs)(i \<mapsto> (case map_of bs i of None \<Rightarrow> [e] | Some b \<Rightarrow> b @ [e]))"
    using assms(1)
  proof (induction bs)
    case Nil
    then show ?case using assms(2) by (simp add: buckets_ok_def)
  next
    case (Cons b bs)
    obtain j es where b: "b = (j, es)" by fastforce
    have wf: "wf_shard j" and ok: "buckets_ok bs" and later: "\<forall>c \<in> set bs. shard_text j < shard_text (fst c)"
      using Cons.prems by (auto simp: buckets_ok_def b)
    have c: "shard_cmp i j = cmp (shard_text i) (shard_text j)" by (rule shard_cmp_text [OF assms(2) wf])
    consider "shard_text i < shard_text j" | "i = j" | "shard_text j < shard_text i"
      using shard_text_inject [OF assms(2) wf] by (meson linorder_neqE)
    then show ?case
    proof cases
      case 1
      then have "shard_cmp i j = Less" by (simp add: c cmp_unfold)
      moreover have "i \<notin> fst ` set (b # bs)" using 1 later b by force
      then have "map_of (b # bs) i = None" by (simp only: map_of_eq_None_iff not_False_eq_True)
      ultimately show ?thesis using 1 later Cons.prems assms(2) b by (auto simp: buckets_ok_def)
    next
      case 2
      then have "shard_cmp i j = Equal" using c by (simp add: cmp_unfold)
      then show ?thesis using 2 Cons.prems b by (auto simp: buckets_ok_def)
    next
      case 3
      then have g: "shard_cmp i j = Greater" "i \<noteq> j" by (auto simp: c cmp_unfold)
      have "\<forall>c \<in> set (bucket_push i e bs). shard_text j < shard_text (fst c)"
      proof
        fix c
        assume "c \<in> set (bucket_push i e bs)"
        then have "fst c \<in> insert i (fst ` set bs)" using fst_bucket_push [of i e bs] by auto
        then show "shard_text j < shard_text (fst c)" using later 3 by auto
      qed
      with Cons.IH [OF ok] g wf show ?thesis by (auto simp: buckets_ok_def b fun_upd_twist)
    qed
  qed
  then show "buckets_ok (bucket_push i e bs)"
    "map_of (bucket_push i e bs) = (map_of bs)(i \<mapsto> (case map_of bs i of None \<Rightarrow> [e] | Some b \<Rightarrow> b @ [e]))" by blast+
qed

lemma mset_bucket_push: "mset (concat (map snd (bucket_push i e bs))) = add_mset e (mset (concat (map snd bs)))"
  by (induction bs) (auto split: ordering.splits)

abbreviation fill :: "(entry \<Rightarrow> lock_shard_id) \<Rightarrow> entry list \<Rightarrow> (lock_shard_id \<times> entry list) list" where
  "fill idf es \<equiv> foldl (\<lambda>buckets entry. bucket_push (idf entry) entry buckets) [] es"

lemma fill_spec:
  assumes "\<And>e. wf_shard (idf e)"
  shows "buckets_ok (fill idf es)" "mset (concat (map snd (fill idf es))) = mset es"
    "map_of (fill idf es) i = (let b = filter (\<lambda>e. idf e = i) es in if b = [] then None else Some b)"
proof (induction es arbitrary: i rule: rev_induct)
  case Nil
  { case 1 show ?case by (simp add: buckets_ok_def) }
  { case 2 show ?case by simp }
  { case 3 show ?case by simp }
next
  case (snoc e es)
  note push = bucket_push_ok [OF snoc(1) assms, of e e]
  { case 1 show ?case using push(1) by simp }
  { case 2 show ?case using snoc(2) by (simp add: mset_bucket_push) }
  { case 3 show ?case using push(2) snoc(3) by (auto simp: Let_def) }
qed


section \<open>Writing and loading\<close>

lemma format_is_hex: "format_02x b = byte_hex b"
  by (simp add: format_02x_def byte_hex_def)

lemma shard_name_eq:
  assumes "bs \<noteq> []" "length bs \<le> 4"
  shows "shard_name (the (relative_shard_path (shard_of bs))) = shard_text (shard_of bs)"
proof -
  have j: "SLASH # join_with SLASH (map byte_hex (butlast cs) @ [byte_hex (last cs) @ t]) = concat (map component_text cs) @ t"
    if "cs \<noteq> []" for cs t
    using that
  proof (induction cs)
    case (Cons c cs)
    then show ?case
      by (cases cs; cases "map byte_hex (butlast cs) @ [byte_hex (last cs) @ t]") (auto simp: component_text_def)
  qed simp
  have "lit ''gat.lock/'' = lit ''gat.lock'' @ [SLASH]" by (simp add: lit_def)
  then show ?thesis
    using j [OF assms(1), of "lit ''.tsv''"] assms shard_of_simps [OF assms(2)]
    by (simp add: shard_name_def relative_shard_path_def shard_text_def format_is_hex [abs_def])
qed

lemma render_ordered_eq: "render_ordered_entries es = file_text es"
  by (simp add: render_ordered_entries_def foldl_append_row file_text_def)

lemma rendered_parses:
  assumes "valid_rows (entry_rows es)"
  shows "\<exists>v. parse_lock_file f (file_text es) = Ok v \<and> to_entries v = es"
proof -
  have "lock_parse f (file_text es) = Ok \<lparr>lock_entries = es\<rparr>"
    unfolding lock_parse_iff using assms
    by (intro exI [of _ "[LF]"] exI [of _ "replicate (length es) [LF]"])
      (simp add: line_end_def list_all_iff file_text_def rows_text_LF [of es, simplified])
  then show ?thesis unfolding lock_parse_view by (cases "parse_lock_file f (file_text es)") auto
qed

lemma preimage_list:
  "mset xs = mset (map g bs) \<Longrightarrow> \<exists>cs. mset cs = mset bs \<and> xs = map g cs"
proof (induction xs arbitrary: bs)
  case (Cons x xs)
  then have "x \<in> set (map g bs)" by (metis list.set_intros(1) mset_eq_setD)
  then obtain b where b: "b \<in> set bs" "g b = x" by auto
  then have "mset xs = mset (map g (remove1 b bs))"
    using Cons.prems by (simp add: image_mset_Diff) (metis add_mset_remove_trivial)
  then obtain cs where "mset cs = mset (remove1 b bs)" "xs = map g cs" using Cons.IH by blast
  then show ?case using b by (intro exI [of _ "b # cs"]) simp
qed simp

lemma topology_uniform:
  assumes "\<forall>i \<in> set ids. sid_levels i = levels" "seen = None \<or> seen = Some levels"
  shows "topology_loop seen ids = Ok (if ids = [] then seen else Some levels)"
  using assms
proof (induction ids arbitrary: seen)
  case (Cons i ids)
  then show ?case by (cases seen) auto
qed simp


lemma sharded_levels:
  assumes "levels_new depth = Ok levels" "\<not> levels_is_flat levels"
  shows "unat (levels_get levels) \<le> 4" "0 < unat (levels_get levels)"
proof -
  have "levels = Levels depth" "depth \<le> 4" "depth \<noteq> 0"
    using assms by (auto simp: levels_new_def LEVELS_MAX_def levels_is_flat_def split: if_splits)
  then show "unat (levels_get levels) \<le> 4" "0 < unat (levels_get levels)"
    by (auto simp: word_le_nat_alt unat_gt_0)
qed

abbreviation place :: "(str \<Rightarrow> u8 list) \<Rightarrow> lock_shard_levels \<Rightarrow> entry \<Rightarrow> lock_shard_id" where
  "place hash levels e \<equiv> the (for_path hash (entry_path e) levels)"

lemma place_spec:
  assumes "\<And>p. length (hash p) = 32" "unat (levels_get levels) \<le> 4"
  shows "\<exists>bs. length bs = unat (levels_get levels) \<and> place hash levels e = shard_of bs"
    "wf_shard (place hash levels e)" "sid_levels (place hash levels e) = levels"
    "placed hash (place hash levels e) (as_str (entry_path e))"
proof -
  let ?bs = "take (unat (levels_get levels)) (hash (as_str (entry_path e)))"
  have len: "length ?bs = unat (levels_get levels)" using assms by simp
  note t = placement_total [of hash "as_str (entry_path e)", OF assms]
  have p: "place hash levels e = shard_of ?bs" by (simp add: for_path_def t)
  show "\<exists>bs. length bs = unat (levels_get levels) \<and> place hash levels e = shard_of bs" using p len by blast
  show "wf_shard (place hash levels e)" unfolding p wf_shard_iff using len assms(2) by (intro exI [of _ ?bs]) simp
  show l: "sid_levels (place hash levels e) = levels"
    unfolding p using len by (cases levels) (simp add: sid_levels_def shard_of_def)
  show "placed hash (place hash levels e) (as_str (entry_path e))" unfolding placed_def l using t p by simp
qed

lemma prepared_buckets:
  fixes l :: lock
  assumes hash: "\<And>p. length (hash p) = 32" and depth: "unat (levels_get levels) \<le> 4"
  defines "buckets \<equiv> fst (prepare_sharded_buckets hash l levels)"
  shows "mset (concat (map snd buckets)) = mset (lock_entries l)"
    "\<forall>(i, b) \<in> set buckets. b \<noteq> [] \<and> sorted (map entry_path b) \<and> (\<forall>e \<in> set b. place hash levels e = i)"
    "distinct (map fst buckets)"
proof -
  let ?es = "lock_entries l" and ?idf = "place hash levels"
  let ?raw = "fill ?idf ?es"
  note spec = fill_spec [of ?idf, OF place_spec(2) [OF hash depth]]
  have raw: "b = filter (\<lambda>e. ?idf e = i) ?es \<and> b \<noteq> []" if "(i, b) \<in> set ?raw" for i b
    using spec(3) [of ?es i] map_of_is_SomeI [OF buckets_ok_distinct [OF spec(1) [of ?es]] that]
    by (auto simp: Let_def split: if_splits)
  have b: "buckets = (if sorted (map entry_path ?es) then ?raw else map (\<lambda>(i, b). (i, sort_key entry_path b)) ?raw)"
    by (simp add: buckets_def prepare_sharded_buckets_def Let_def)
  have m: "mset (concat (map snd (map (\<lambda>(i, b). (i, sort_key entry_path b)) xs))) = mset (concat (map snd xs))" for xs :: "(lock_shard_id \<times> entry list) list"
    by (induction xs) auto
  show "mset (concat (map snd buckets)) = mset ?es"
    unfolding b using spec(2) [of ?es] m by simp
  have "map fst buckets = map fst ?raw" unfolding b by (simp add: case_prod_unfold comp_def)
  then show "distinct (map fst buckets)" using buckets_ok_distinct [OF spec(1) [of ?es]] by simp
  have each: "b \<noteq> [] \<and> sorted (map entry_path b) \<and> (\<forall>e \<in> set b. ?idf e = i)" if i: "(i, b) \<in> set buckets" for i b
  proof (cases "sorted (map entry_path ?es)")
    case True
    then have r: "b = filter (\<lambda>e. ?idf e = i) ?es" "b \<noteq> []" using raw i b by auto
    moreover have "sorted (map entry_path b)" unfolding r(1) by (rule sorted_filter [OF True])
    ultimately show ?thesis by simp
  next
    case False
    then obtain c where c: "(i, c) \<in> set ?raw" "b = sort_key entry_path c" using i b by auto
    have r: "c = filter (\<lambda>e. ?idf e = i) ?es" "c \<noteq> []" using raw [OF c(1)] by blast+
    have "\<forall>e \<in> set c. ?idf e = i" by (subst r(1)) simp
    with r(2) show ?thesis unfolding c(2) by (simp add: set_empty [symmetric] del: set_empty)
  qed
  then show "\<forall>(i, b) \<in> set buckets. b \<noteq> [] \<and> sorted (map entry_path b) \<and> (\<forall>e \<in> set b. ?idf e = i)" by blast
qed

text \<open>
  C36: Certifying the shards of a lock decides what no single file can: it accepts exactly when no path is
  in two shards, every row is in the shard its path hashes to, and no path is a directory of another
  anywhere in the lock; and it reports a path tracked twice before a misplaced row, and that before a
  conflict of two paths, each error naming rows that are really there.
\<close>

theorem certification_decides:
  assumes "\<And>p. length (hash p) = 32"
    "list_all2 (\<lambda>(src, obs) shard. wf_shard (sf_shard_id src) \<and> decode_resident_shard hash f src obs ev = Ok shard) inputs shards"
  shows "case certify_resident_shards shards of
      Inr _ \<Rightarrow> distinct (all_paths shards) \<and> conflict_free (set (all_paths shards))
        \<and> list_all2 (\<lambda>(src, _) shard. \<forall>path \<in> set (shard_paths shard). placed hash (sf_shard_id src) path) inputs shards
    | Inl e \<Rightarrow>
        (\<exists>p. e = Domain (PathInMultipleShards p) \<and> tracked_twice p (all_paths shards))
        \<or> (distinct (all_paths shards)
            \<and> (\<exists>((src, _), shard) \<in> set (zip inputs shards). \<exists>path \<in> set (shard_paths shard).
                  \<not> placed hash (sf_shard_id src) path \<and> e = stray_row hash src path))
        \<or> (distinct (all_paths shards)
            \<and> list_all2 (\<lambda>(src, _) shard. \<forall>path \<in> set (shard_paths shard). placed hash (sf_shard_id src) path) inputs shards
            \<and> (\<exists>a d. e = Domain (DirectoryPrefixConflict a d) \<and> {a, d} \<subseteq> set (all_paths shards) \<and> is_directory_prefix a d))"
proof -
  let ?placed = "list_all2 (\<lambda>(src, _) shard. \<forall>path \<in> set (shard_paths shard). placed hash (sf_shard_id src) path) inputs shards"
  let ?stray = "\<lambda>e. \<exists>((src, _), shard) \<in> set (zip inputs shards). \<exists>path \<in> set (shard_paths shard).
      \<not> placed hash (sf_shard_id src) path \<and> e = stray_row hash src path"
  have len: "length inputs = length shards" using assms(2) by (rule list_all2_lengthD)
  have each: "wf_shard (sf_shard_id src) \<and> decode_resident_shard hash f src obs ev = Ok shard"
    if "((src, obs), shard) \<in> set (zip inputs shards)" for src obs shard
    using assms(2) that by (auto simp: list_all2_iff)
  note decoded = decoded_shard [OF each [THEN conjunct2]]
  note placement = decoded_placement [OF each [THEN conjunct2] each [THEN conjunct1] assms(1)]
  have in_zip: "\<exists>src obs. ((src, obs), shard) \<in> set (zip inputs shards)" if "shard \<in> set shards" for shard
    using that len by (metis in_set_impl_in_set_zip2 old.prod.exhaust)
  have 1: "\<forall>shard \<in> set shards. sorted_wrt (<) (shard_paths shard) \<and> conflict_free (set (shard_paths shard))"
    using in_zip decoded by blast
  have 2: "?placed \<longleftrightarrow> (\<forall>shard \<in> set shards. rs_placement_error shard = None)"
  proof
    assume p: ?placed
    show "\<forall>shard \<in> set shards. rs_placement_error shard = None"
    proof
      fix shard
      assume "shard \<in> set shards"
      then obtain src obs where z: "((src, obs), shard) \<in> set (zip inputs shards)" using in_zip by blast
      then have "\<forall>path \<in> set (shard_paths shard). placed hash (sf_shard_id src) path" using p by (auto simp: list_all2_iff)
      then show "rs_placement_error shard = None" using placement [OF z z] by (auto split: option.splits)
    qed
  next
    assume none: "\<forall>shard \<in> set shards. rs_placement_error shard = None"
    show ?placed
      unfolding list_all2_iff using len
    proof (intro conjI ballI, goal_cases)
      case (2 z)
      obtain src obs shard where z: "z = ((src, obs), shard)" by (metis surj_pair)
      then have "((src, obs), shard) \<in> set (zip inputs shards)" "rs_placement_error shard = None"
        using 2 none by (auto dest: set_zip_rightD)
      then show ?case using placement [of src obs shard] z by simp
    qed simp
  qed
  have 3: "\<forall>shard \<in> set shards. \<forall>e. rs_placement_error shard = Some e \<longrightarrow> ?stray e"
  proof (intro ballI allI impI)
    fix shard e
    assume s: "shard \<in> set shards" and e: "rs_placement_error shard = Some e"
    obtain src obs where z: "((src, obs), shard) \<in> set (zip inputs shards)" using in_zip [OF s] by blast
    show "?stray e" by (rule bexI [OF _ z]) (use placement [OF z z] e in simp)
  qed
  show ?thesis
    using certify_outcome [OF 1 2 3] unfolding cross_check_def prefix_witness_def
    by (cases "certify_resident_shards shards") auto
qed


lemma certification_decides_witness:
  "\<forall>F pf. \<exists>shards. list_all2 (\<lambda>i shard. decode_resident_shard (\<lambda>_. replicate 32 1) F \<lparr>sf_shard_id = shard_of [i], sf_full_path = []\<rparr>
        (file_text [\<lparr>entry_path = GatPath (lit ''a''), entry_oid = Oid (replicate 32 1)\<rparr>], pf) False = Ok shard) [1, 2] shards
     \<and> certify_resident_shards shards = Err (Domain (PathInMultipleShards (lit ''a'')))"
proof (intro allI)
  fix F :: features and pf :: stat_proof
  let ?h = "\<lambda>_ :: str. replicate 32 1 :: u8 list" and ?es = "[\<lparr>entry_path = GatPath (lit ''a''), entry_oid = Oid (replicate 32 1)\<rparr>]"
  let ?src = "\<lambda>i. \<lparr>sf_shard_id = shard_of [i], sf_full_path = []\<rparr>"
  have "valid_rows (entry_rows ?es)"
    by (simp add: valid_rows_def entry_rows_def conflict_free_def) code_simp
  then obtain v where v: "parse_lock_file F (file_text ?es) = Ok v" "to_entries v = ?es" using rendered_parses by blast
  obtain s t where st: "decode_resident_shard ?h F (?src 1) (file_text ?es, pf) False = Ok s" "rs_view s = v"
    "decode_resident_shard ?h F (?src 2) (file_text ?es, pf) False = Ok t" "rs_view t = v"
    using v(1) by (simp add: decode_resident_shard_def map_err_def)
  have wf: "wf_shard (shard_of [i])" for i unfolding wf_shard_iff by (rule exI [of _ "[i]"]) simp
  have paths: "all_paths [s, t] = [lit ''a'', lit ''a'']"
    using v(2) by (simp add: all_paths_def shard_paths_def st view_rows_entries)
  have l: "length (?h p) = 32" for p by simp
  have "list_all2 (\<lambda>(src, obs) shard. wf_shard (sf_shard_id src) \<and> decode_resident_shard ?h F src obs False = Ok shard)
      [(?src 1, (file_text ?es, pf)), (?src 2, (file_text ?es, pf))] [s, t]"
    using st wf by simp
  from certification_decides [OF l this] obtain p where
    "certify_resident_shards [s, t] = Err (Domain (PathInMultipleShards p))" "tracked_twice p [lit ''a'', lit ''a'']"
    unfolding paths by (auto split: sum.splits)
  then have "certify_resident_shards [s, t] = Err (Domain (PathInMultipleShards (lit ''a'')))"
    by (auto simp: tracked_twice_def split: if_splits)
  then show "\<exists>shards. list_all2 (\<lambda>i shard. decode_resident_shard ?h F (?src i) (file_text ?es, pf) False = Ok shard) [1, 2] shards
     \<and> certify_resident_shards shards = Err (Domain (PathInMultipleShards (lit ''a'')))"
    using st by (intro exI [of _ "[s, t]"]) simp
qed

lemma placed_entries_valid:
  assumes "lock_validate l = Ok ()" "\<forall>e \<in> set (lock_entries l). wf_path (entry_path e) \<and> wf_oid (entry_oid e)"
    "mset (concat (map snd buckets)) = mset (lock_entries l)" "(i, b) \<in> set buckets" "sorted (map entry_path b)"
  shows "valid_rows (entry_rows b)"
proof -
  let ?p = "\<lambda>e. as_str (entry_path e)"
  have v: "distinct (lock_paths l)" "conflict_free (set (lock_paths l))" using assms(1) lock_validate_outcome [of l] by blast+
  have sub: "set b \<subseteq> set (lock_entries l)"
    using mset_eq_setD [OF assms(3)] assms(4) by force
  have "mset (map ?p (concat (map snd buckets))) = mset (lock_paths l)"
    using assms(3) by (simp add: lock_paths_def flip: mset_map) (metis mset_map)
  then have "distinct (map ?p (concat (map snd buckets)))" using v(1) mset_eq_imp_distinct_iff by blast
  then have d: "distinct (map ?p b)" using assms(4) by (induction buckets) auto
  have "sorted (map ?p b)"
    using assms(5) by (simp add: sorted_wrt_map less_eq_gat_path_def)
  then have s: "sorted_wrt (<) (map ?p b)" using d by (simp add: strict_sorted_iff)
  have "conflict_free (?p ` set b)"
    by (rule conflict_free_subset [OF v(2)]) (use sub in \<open>auto simp: lock_paths_def\<close>)
  then show ?thesis
    using s sub assms(2) by (auto simp: valid_rows_def entry_rows_def comp_def image_image wf_path_def)
qed

lemma uniform_topology_ok:
  "\<forall>i \<in> set ids. sid_levels i = levels \<Longrightarrow> \<exists>shape. shard_topology ids = Ok shape"
  using topology_uniform [of ids levels None] by (simp add: shard_topology_def)

lemma placed_once:
  assumes "cross_check True paths (\<lambda>_. False) r" "distinct paths" "conflict_free (set paths)"
  shows "r = Ok ()"
proof (cases r)
  case (Inl e)
  have once: "length (filter (\<lambda>q. q = p) ps) \<le> 1" if "distinct ps" for p and ps :: "str list"
    using that by (induction ps) (auto simp: filter_empty_conv)
  have "\<not> tracked_twice p paths" for p using once [OF assms(2), of p] by (simp add: tracked_twice_def)
  then show ?thesis using assms Inl by (auto simp: cross_check_def prefix_witness_def conflict_free_def)
qed simp


lemma try_map_ex:
  "\<forall>x \<in> set xs. \<exists>y. g x = Ok y \<and> Q x y \<Longrightarrow> \<exists>ys. try_map g xs = Ok ys \<and> list_all2 Q xs ys"
proof (induction xs)
  case (Cons x xs)
  then obtain y ys where "g x = Ok y" "Q x y" "try_map g xs = Ok ys" "list_all2 Q xs ys" by auto
  then show ?case by (intro exI [of _ "y # ys"]) simp
qed simp

definition intact :: "resident_shard \<Rightarrow> bool" where
  "intact shard \<longleftrightarrow>
     rs_placement_error shard = None \<and> sorted_wrt (<) (shard_paths shard) \<and> conflict_free (set (shard_paths shard))"

lemma decode_rendered:
  assumes "valid_rows (entry_rows b)" "wf_shard i" "\<And>p. length (hash p) = 32" "\<forall>e \<in> set b. placed hash i (as_str (entry_path e))"
  shows "\<exists>shard. decode_resident_shard hash f \<lparr>sf_shard_id = i, sf_full_path = rel\<rparr> (file_text b, pf) False = Ok shard
    \<and> to_entries (rs_view shard) = b \<and> intact shard"
proof -
  obtain v where v: "parse_lock_file f (file_text b) = Ok v" "to_entries v = b" using rendered_parses [OF assms(1)] by blast
  let ?src = "\<lparr>sf_shard_id = i, sf_full_path = rel\<rparr>"
  obtain shard where d: "decode_resident_shard hash f ?src (file_text b, pf) False = Ok shard" "rs_view shard = v"
    using v(1) by (simp add: decode_resident_shard_def map_err_def)
  have "shard_paths shard = map (\<lambda>e. as_str (entry_path e)) b"
    using d(2) v(2) by (simp add: shard_paths_def view_rows_entries)
  then have "rs_placement_error shard = None"
    using decoded_placement [OF d(1) _ assms(3)] assms(2,4) by (auto split: option.splits)
  with d v(2) decoded_shard(2,3) [OF d(1)] show ?thesis by (auto simp: intact_def)
qed

lemma resident_entries:
  "list_all2 (\<lambda>c shard. to_entries (rs_view shard) = snd c) cs shards \<Longrightarrow>
     concat (map (\<lambda>shard. to_entries (rs_view shard)) shards) = concat (map snd cs)
     \<and> all_paths shards = map (\<lambda>e. as_str (entry_path e)) (concat (map snd cs))"
  by (induction cs shards rule: list_all2_induct) (simp_all add: all_paths_def shard_paths_def view_rows_entries)

text \<open>
  C37: A lock written as shards is read back whole: for every valid lock and every depth, whatever order the
  directory lists the files in, loading the files of a full rewrite finds them canonically named,
  uniformly deep, certified, and gives back exactly the lock's entries.
\<close>

theorem sharded_roundtrip:
  assumes "\<And>p. length (hash p) = 32" "levels_new depth = Ok levels" "\<not> levels_is_flat levels"
    "lock_validate l = Ok ()" "\<forall>e \<in> set (lock_entries l). wf_path (entry_path e) \<and> wf_oid (entry_oid e)"
    "mset collected = mset (map fst (sharded_files hash l levels))"
    "\<forall>(rel, contents) \<in> set (sharded_files hash l levels). \<exists>pf. read rel = Ok (contents, pf)"
  shows "\<exists>m. load_sharded hash f read collected = Ok m \<and> mset (lock_entries m) = mset (lock_entries l)"
proof -
  note lv = sharded_levels [OF assms(2,3)]
  define buckets where "buckets = fst (prepare_sharded_buckets hash l levels)"
  note spec = prepared_buckets [where hash = hash and levels = levels and l = l, OF assms(1) lv(1), folded buckets_def]
  let ?rel = "\<lambda>(i, b :: entry list). the (relative_shard_path i)"
  have files: "sharded_files hash l levels = map (\<lambda>c. (?rel c, file_text (snd c))) buckets"
    by (simp add: sharded_files_def buckets_def render_ordered_eq case_prod_unfold)
  have "mset (sort collected) = mset (map ?rel buckets)" using assms(6) by (simp add: files comp_def)
  then obtain cs where cs: "mset cs = mset buckets" "sort collected = map ?rel cs" using preimage_list by blast
  have sets: "set cs = set buckets" using cs(1) by (rule mset_eq_setD)
  have place: "\<exists>bs. bs \<noteq> [] \<and> length bs \<le> 4 \<and> i = shard_of bs" "wf_shard i" "sid_levels i = levels"
    "\<forall>e \<in> set b. placed hash i (as_str (entry_path e))" if "(i, b) \<in> set cs" for i b
  proof -
    have c: "b \<noteq> []" "\<forall>e \<in> set b. place hash levels e = i" using spec(2) sets that by auto
    then obtain e where e: "e \<in> set b" "place hash levels e = i" by (cases b) auto
    note p = place_spec [of hash levels e, OF assms(1) lv(1), unfolded e(2)]
    show "\<exists>bs. bs \<noteq> [] \<and> length bs \<le> 4 \<and> i = shard_of bs"
    proof -
      obtain bs where bs: "length bs = unat (levels_get levels)" "i = shard_of bs" using p(1) by blast
      then have "bs \<noteq> []" "length bs \<le> 4" using lv by auto
      with bs(2) show ?thesis by blast
    qed
    show "wf_shard i" "sid_levels i = levels" by (rule p)+
    show "\<forall>e \<in> set b. placed hash i (as_str (entry_path e))"
      using c(2) place_spec(4) [of hash levels, OF assms(1) lv(1)] by metis
  qed
  let ?src = "\<lambda>c. \<lparr>sf_shard_id = fst c, sf_full_path = ?rel c\<rparr>"
  have "parse_shard_file (?rel c) = Ok (?src c)" if mem: "c \<in> set cs" for c
  proof -
    obtain i b where c: "c = (i, b)" by fastforce
    obtain bs where "bs \<noteq> []" "length bs \<le> 4" "i = shard_of bs" using place(1) [OF mem [unfolded c]] by (elim exE conjE)
    then have "shard_parse_canonical (shard_name (the (relative_shard_path i))) = Ok i"
      using shard_name_eq [of bs] place(2) [of i b] mem unfolding c shard_parse_Ok by simp
    then show ?thesis unfolding c parse_shard_file_def by (simp add: map_err_def)
  qed
  then have parsed: "try_map parse_shard_file (sort collected) = Ok (map ?src cs)"
    unfolding cs(2) try_map_Inr list_all2_map1 list_all2_map2 list_all2_same by blast
  obtain shape where shape: "shard_topology (map sf_shard_id (map ?src cs)) = Ok shape"
  proof (rule exE [OF uniform_topology_ok [of "map sf_shard_id (map ?src cs)" levels]])
    show "\<forall>i \<in> set (map sf_shard_id (map ?src cs)). sid_levels i = levels" using place(3) by auto
  qed
  let ?decode = "\<lambda>c. and_then (read (?rel c)) (\<lambda>obs. decode_resident_shard hash f (?src c) obs False)"
  have "\<forall>c \<in> set cs. \<exists>shard. ?decode c = Ok shard \<and> (to_entries (rs_view shard) = snd c \<and> intact shard)"
  proof
    fix c
    assume c: "c \<in> set cs"
    obtain i b where ib: "c = (i, b)" by fastforce
    have b: "(i, b) \<in> set buckets" "sorted (map entry_path b)" using c sets spec(2) ib by auto
    obtain pf where pf: "read (?rel c) = Ok (file_text b, pf)"
      using assms(7) c sets ib unfolding files by fastforce
    have "valid_rows (entry_rows b)" by (rule placed_entries_valid [OF assms(4,5) spec(1) b])
    from decode_rendered [OF this place(2) [OF c [unfolded ib]] assms(1) place(4) [OF c [unfolded ib]], of f "?rel c" pf] ib
    show "\<exists>shard. ?decode c = Ok shard \<and> (to_entries (rs_view shard) = snd c \<and> intact shard)"
      unfolding pf by simp
  qed
  from try_map_ex [OF this] obtain shards where shards: "try_map ?decode cs = Ok shards"
    "list_all2 (\<lambda>c shard. to_entries (rs_view shard) = snd c \<and> intact shard) cs shards" by blast
  have run: "read_resident_shards hash f read (map ?src cs) False = Ok shards"
    using shards(1) unfolding read_resident_shards_def try_map_Inr list_all2_map1 by simp
  have all: "concat (map (\<lambda>shard. to_entries (rs_view shard)) shards) = concat (map snd cs)"
      "all_paths shards = map (\<lambda>e. as_str (entry_path e)) (concat (map snd cs))"
    using resident_entries [of cs shards, OF list_all2_mono [OF shards(2)]] by blast+
  have "mset (concat (map snd xs)) = \<Sum>\<^sub># (image_mset (\<lambda>c. mset (snd c)) (mset xs))" for xs :: "(lock_shard_id \<times> entry list) list"
    by (induction xs) auto
  then have m: "mset (concat (map snd cs)) = mset (lock_entries l)" using spec(1) cs(1) by simp
  have paths: "mset (all_paths shards) = mset (lock_paths l)" unfolding all(2) lock_paths_def mset_map m ..
  have "distinct (lock_paths l)" "conflict_free (set (lock_paths l))" using assms(4) lock_validate_outcome [of l] by blast+
  then have ok: "distinct (all_paths shards)" "conflict_free (set (all_paths shards))"
    unfolding mset_eq_imp_distinct_iff [OF paths] mset_eq_setD [OF paths] .
  have "certify_resident_shards shards = Ok ()"
  proof (rule placed_once [OF certify_outcome ok])
    show "\<forall>shard \<in> set shards. sorted_wrt (<) (shard_paths shard) \<and> conflict_free (set (shard_paths shard))"
      using shards(2) by (auto simp: list_all2_conv_all_nth in_set_conv_nth intact_def)
    show "True \<longleftrightarrow> (\<forall>shard \<in> set shards. rs_placement_error shard = None)"
      "\<forall>shard \<in> set shards. \<forall>e. rs_placement_error shard = Some e \<longrightarrow> False"
      using shards(2) by (auto simp: list_all2_conv_all_nth in_set_conv_nth intact_def)
  qed
  then have "load_sharded hash f read collected = Ok \<lparr>lock_entries = concat (map (\<lambda>shard. to_entries (rs_view shard)) shards)\<rparr>"
    using parsed shape run by (simp add: load_sharded_def map_err_def to_entries_def)
  with all(1) m show ?thesis by simp
qed


lemma sharded_roundtrip_witness:
  "\<forall>F pf. let hash = \<lambda>p :: str. replicate 32 (of_nat (length p)) :: u8 list;
       l = \<lparr>lock_entries = [\<lparr>entry_path = GatPath (lit ''b''), entry_oid = Oid (replicate 32 1)\<rparr>,
                          \<lparr>entry_path = GatPath (lit ''a/c''), entry_oid = Oid (replicate 32 2)\<rparr>]\<rparr>;
       files = sharded_files hash l (Levels 1)
     in map fst files = [[lit ''01.tsv''], [lit ''03.tsv'']]
       \<and> (\<exists>m. load_sharded hash F (\<lambda>rel. Ok (the (map_of files rel), pf)) (rev (map fst files)) = Ok m
            \<and> mset (lock_entries m) = mset (lock_entries l))"
proof (intro allI)
  fix F :: features and pf :: stat_proof
  let ?h = "\<lambda>p :: str. replicate 32 (of_nat (length p)) :: u8 list"
  let ?l = "\<lparr>lock_entries = [\<lparr>entry_path = GatPath (lit ''b''), entry_oid = Oid (replicate 32 1)\<rparr>,
                          \<lparr>entry_path = GatPath (lit ''a/c''), entry_oid = Oid (replicate 32 2)\<rparr>]\<rparr>"
  let ?files = "sharded_files ?h ?l (Levels 1)"
  have names: "map fst ?files = [[lit ''01.tsv''], [lit ''03.tsv'']]" by code_simp
  have "distinct (map fst ?files)" unfolding names by code_simp
  then have get: "map_of ?files rel = Some c" if "(rel, c) \<in> set ?files" for rel c using that by simp
  have "\<exists>m. load_sharded ?h F (\<lambda>rel. Ok (the (map_of ?files rel), pf)) (rev (map fst ?files)) = Ok m
      \<and> mset (lock_entries m) = mset (lock_entries ?l)"
  proof (rule sharded_roundtrip)
    show "length (?h p) = 32" for p by simp
    show "levels_new 1 = Ok (Levels 1)" "\<not> levels_is_flat (Levels 1)" by code_simp+
    show "lock_validate ?l = Ok ()" by code_simp
    show "\<forall>e \<in> set (lock_entries ?l). wf_path (entry_path e) \<and> wf_oid (entry_oid e)" by code_simp
    show "mset (rev (map fst ?files)) = mset (map fst ?files)" by simp
    show "\<forall>(rel, contents) \<in> set ?files. \<exists>p. Ok (the (map_of ?files rel), pf) = Ok (contents, p)" using get by auto
  qed
  with names show "let hash = ?h; l = ?l; files = sharded_files hash l (Levels 1)
     in map fst files = [[lit ''01.tsv''], [lit ''03.tsv'']]
       \<and> (\<exists>m. load_sharded hash F (\<lambda>rel. Ok (the (map_of files rel), pf)) (rev (map fst files)) = Ok m
            \<and> mset (lock_entries m) = mset (lock_entries l))"
    unfolding Let_def by blast
qed

end
