(* ===== verification/DesiredQuery.thy ===== *)
theory DesiredQuery
  imports DesiredMirror
begin

text \<open>
  Reading the desired rows (\<open>gat-io/src/state/query.rs\<close>): a query names the candidates, as everything, a
  scope, exact paths or a union of ranges and points, and a selection that has the last word on every
  candidate. The model has the planning of the union from the bounds of a selection's patterns, the
  cursors that page through it, and the enumeration of paths outside excluded subtrees. The database is
  the table of StateTable; a statement selects its rows in path order, and statement \<open>k\<close> of a read fails
  unless \<open>ok k\<close>. \<open>DesiredRow\<close> has the fields of \<open>entry\<close>.
\<close>

section \<open>Scalar values\<close>

text \<open>UTF-8: the bytes of a scalar value, with shifts and masks as quotients and remainders.\<close>

definition is_scalar :: "nat \<Rightarrow> bool" where
  "is_scalar c \<longleftrightarrow> c < 0x110000 \<and> \<not> (0xD800 \<le> c \<and> c < 0xE000)"

definition encode_utf8 :: "nat \<Rightarrow> str" where
  "encode_utf8 c =
     (if c < 0x80 then [of_nat c]
      else if c < 0x800 then [of_nat (0xC0 + c div 64), of_nat (0x80 + c mod 64)]
      else if c < 0x10000 then [of_nat (0xE0 + c div 4096), of_nat (0x80 + c div 64 mod 64), of_nat (0x80 + c mod 64)]
      else [of_nat (0xF0 + c div 262144), of_nat (0x80 + c div 4096 mod 64), of_nat (0x80 + c div 64 mod 64), of_nat (0x80 + c mod 64)])"

fun decode_utf8 :: "str \<Rightarrow> nat" where
  "decode_utf8 [a] = unat a"
| "decode_utf8 [a, b] = unat a mod 32 * 64 + unat b mod 64"
| "decode_utf8 [a, b, c] = unat a mod 16 * 4096 + unat b mod 64 * 64 + unat c mod 64"
| "decode_utf8 [a, b, c, d] = unat a mod 8 * 262144 + unat b mod 64 * 4096 + unat c mod 64 * 64 + unat d mod 64"
| "decode_utf8 _ = 0"

definition is_continuation :: "u8 \<Rightarrow> bool" where
  "is_continuation b \<longleftrightarrow> 0x80 \<le> b \<and> b < 0xC0"

text \<open>The last character of a text, as \<open>char_indices().rev()\<close> yields it: what precedes it, and its bytes.\<close>

definition split_last_char :: "str \<Rightarrow> (str \<times> str) option" where
  "split_last_char s =
     (let n = length (takeWhile is_continuation (rev s))
      in if n < length s then Some (take (length s - Suc n) s, drop (length s - Suc n) s) else None)"

definition next_scalar :: "nat \<Rightarrow> nat option" where
  "next_scalar ch = (if ch = 0xD7FF then Some 0xE000 else if is_scalar (Suc ch) then Some (Suc ch) else None)"

function lexical_prefix_upper :: "str \<Rightarrow> str option" where
  "lexical_prefix_upper text =
     (case split_last_char text of
        None \<Rightarrow> None
      | Some (before, ch) \<Rightarrow>
          (case next_scalar (decode_utf8 ch) of
             Some next_ch \<Rightarrow> Some (before @ encode_utf8 next_ch)
           | None \<Rightarrow> lexical_prefix_upper before))"
  by pat_completeness auto

termination
  by (relation "measure length") (auto simp: split_last_char_def Let_def split: if_splits)

declare lexical_prefix_upper.simps [simp del]

section \<open>Ranges\<close>

record lexical_range =
  lr_lower :: str
  lr_upper :: "str option"

definition range_for_prefix :: "str \<Rightarrow> lexical_range" where
  "range_for_prefix text = \<lparr>lr_lower = text, lr_upper = lexical_prefix_upper text\<rparr>"

text \<open>An absent upper bound is greater than every present one.\<close>

fun cmp_upper :: "str option \<Rightarrow> str option \<Rightarrow> ordering" where
  "cmp_upper None None = Equal"
| "cmp_upper None (Some _) = Greater"
| "cmp_upper (Some _) None = Less"
| "cmp_upper (Some a) (Some b) = cmp a b"

definition ranges_overlap_or_touch :: "lexical_range \<Rightarrow> lexical_range \<Rightarrow> bool" where
  "ranges_overlap_or_touch a b = (case lr_upper a of None \<Rightarrow> True | Some upper \<Rightarrow> lr_lower b \<le> upper)"

text \<open>The order of the sort: the lower bound, then the upper one (stable sorts composed).\<close>

fun upper_rank :: "str option \<Rightarrow> str" where
  "upper_rank None = [1]"
| "upper_rank (Some upper) = 0 # upper"

definition sort_ranges :: "lexical_range list \<Rightarrow> lexical_range list" where
  "sort_ranges ranges = sort_key lr_lower (sort_key (\<lambda>r. upper_rank (lr_upper r)) ranges)"

text \<open>\<open>dedup_by\<close>, with the last range kept so far.\<close>

fun dedup_ranges :: "lexical_range \<Rightarrow> lexical_range list \<Rightarrow> lexical_range list" where
  "dedup_ranges previous [] = [previous]"
| "dedup_ranges previous (rng # ranges) =
     (if \<not> ranges_overlap_or_touch previous rng then previous # dedup_ranges rng ranges
      else dedup_ranges
        (if cmp_upper (lr_upper previous) (lr_upper rng) = Less then previous\<lparr>lr_upper := lr_upper rng\<rparr> else previous)
        ranges)"

definition coalesce_ranges :: "lexical_range list \<Rightarrow> lexical_range list" where
  "coalesce_ranges ranges = (case sort_ranges ranges of [] \<Rightarrow> [] | r # rs \<Rightarrow> dedup_ranges r rs)"

definition below_upper :: "str \<Rightarrow> str option \<Rightarrow> bool" where
  "below_upper path upper = (case upper of None \<Rightarrow> True | Some u \<Rightarrow> path < u)"

fun retain_uncovered_exacts :: "str list \<Rightarrow> lexical_range list \<Rightarrow> str list" where
  "retain_uncovered_exacts [] ranges = []"
| "retain_uncovered_exacts (path # exact) ranges =
     (let ranges = dropWhile (\<lambda>rng. case lr_upper rng of Some upper \<Rightarrow> path \<ge> upper | None \<Rightarrow> False) ranges
      in case ranges of
           rng # _ \<Rightarrow>
             (if path \<ge> lr_lower rng \<and> below_upper path (lr_upper rng) then retain_uncovered_exacts exact ranges
              else path # retain_uncovered_exacts exact ranges)
         | [] \<Rightarrow> path # retain_uncovered_exacts exact ranges)"

section \<open>Planning\<close>

datatype candidate_bound = BoundAny | BoundScope str | BoundPrefix str | BoundExact str

record union_plan =
  up_ranges :: "lexical_range list"
  up_exact :: "str list"

datatype desired_span =
    SpanAll
  | SpanEmpty
  | SpanScope gat_path
  | SpanExact "gat_path list"
  | SpanUnion union_plan

record 'p desired_query =
  dq_span :: desired_span
  dq_shard :: "lock_shard_id option"
  dq_residual :: "'p selection option"

definition query_of_span :: "desired_span \<Rightarrow> 'p desired_query" where
  "query_of_span span = \<lparr>dq_span = span, dq_shard = None, dq_residual = None\<rparr>"

definition in_scope :: "gat_path option \<Rightarrow> 'p desired_query" where
  "in_scope scope = query_of_span (case scope of Some s \<Rightarrow> SpanScope s | None \<Rightarrow> SpanAll)"

definition exact_paths :: "gat_path list \<Rightarrow> 'p desired_query" where
  "exact_paths paths = query_of_span (SpanExact paths)"

text \<open>One pass over the bounds; \<open>None\<close> is the early return of an unbounded span.\<close>

fun gather_bounds :: "candidate_bound list \<Rightarrow> lexical_range list \<Rightarrow> str list \<Rightarrow> (lexical_range list \<times> str list) option" where
  "gather_bounds [] ranges exact = Some (ranges, exact)"
| "gather_bounds (BoundAny # bounds) ranges exact = None"
| "gather_bounds (BoundScope scope # bounds) ranges exact =
     (let scope = (case strip_suffix [SLASH] scope of Some s \<Rightarrow> s | None \<Rightarrow> scope)
      in gather_bounds bounds (ranges @ [range_for_prefix (scope @ [SLASH])]) (exact @ [scope]))"
| "gather_bounds (BoundPrefix text # bounds) ranges exact =
     (if text = [] then None else gather_bounds bounds (ranges @ [range_for_prefix text]) exact)"
| "gather_bounds (BoundExact path # bounds) ranges exact = gather_bounds bounds ranges (exact @ [path])"

definition span_from_bounds :: "candidate_bound list \<Rightarrow> desired_span" where
  "span_from_bounds bounds =
     (case gather_bounds bounds [] [] of
        None \<Rightarrow> SpanAll
      | Some (ranges, exact) \<Rightarrow>
          if ranges = [] \<and> exact = [] then SpanEmpty
          else
            (let ranges = coalesce_ranges ranges;
                 exact = remdups_adj (sort exact);
                 exact = retain_uncovered_exacts exact ranges
             in SpanUnion \<lparr>up_ranges = ranges, up_exact = exact\<rparr>))"

definition from_candidate_bounds :: "candidate_bound list \<Rightarrow> 'p desired_query" where
  "from_candidate_bounds bounds = query_of_span (span_from_bounds bounds)"

definition join_scope :: "str \<Rightarrow> str \<Rightarrow> str" where
  "join_scope scope rel = (if rel = [] then scope else scope @ [SLASH] @ rel)"

text \<open>The loop over the include patterns; \<open>None\<close> is the return on a pattern without a bound.\<close>

fun bounds_of_includes :: "gat_path option \<Rightarrow> 'p gat_glob_pattern list \<Rightarrow> candidate_bound list option" where
  "bounds_of_includes scope [] = Some []"
| "bounds_of_includes scope (inc # includes) =
     (let within = (\<lambda>rel. case scope of Some s \<Rightarrow> join_scope (as_str s) rel | None \<Rightarrow> rel)
      in case bound inc of
           Any \<Rightarrow> None
         | Exact path \<Rightarrow> map_option ((#) (BoundExact (within path))) (bounds_of_includes scope includes)
         | PrefixBound text \<Rightarrow> map_option ((#) (BoundPrefix (within text))) (bounds_of_includes scope includes))"

definition query_for_selection :: "'p selection \<Rightarrow> 'p desired_query" where
  "query_for_selection sel =
     (if include_globs sel = [] then in_scope (scope_path sel)
      else case bounds_of_includes (scope_path sel) (include_globs sel) of
             None \<Rightarrow> in_scope (scope_path sel)
           | Some bounds \<Rightarrow> from_candidate_bounds bounds)"

definition for_selection :: "'p selection \<Rightarrow> 'p desired_query" where
  "for_selection sel =
     (let q = query_for_selection sel
      in if is_unrestricted sel then q else q\<lparr>dq_residual := Some sel\<rparr>)"


section \<open>Statements\<close>

definition desired_rows_where :: "table \<Rightarrow> (gat_path \<Rightarrow> state_row \<Rightarrow> bool) \<Rightarrow> entry list" where
  "desired_rows_where t cond =
     map (\<lambda>(p, r). \<lparr>entry_path = p, entry_oid = the (sr_desired_oid r)\<rparr>)
       (sort_key fst (filter (\<lambda>(p, r). sr_desired_oid r \<noteq> None \<and> cond p r) t))"

definition in_shard :: "lock_shard_id option \<Rightarrow> state_row \<Rightarrow> bool" where
  "in_shard shard r = (case shard of None \<Rightarrow> True | Some i \<Rightarrow> sr_desired_shard r = Some i)"

definition range_sql :: "table \<Rightarrow> gat_path option \<Rightarrow> lock_shard_id option \<Rightarrow> entry list" where
  "range_sql t scope shard = desired_rows_where t (\<lambda>p r. in_shard shard r \<and> in_scope_range scope p)"

definition lexical_range_sql :: "table \<Rightarrow> str \<Rightarrow> str option \<Rightarrow> gat_path option \<Rightarrow> lock_shard_id option \<Rightarrow> entry list" where
  "lexical_range_sql t lower upper frontier shard =
     desired_rows_where t (\<lambda>p r. in_shard shard r
       \<and> (case frontier of Some after \<Rightarrow> as_str after < as_str p | None \<Rightarrow> lower \<le> as_str p)
       \<and> below_upper (as_str p) upper)"

text \<open>The same with \<open>LIMIT\<close>.\<close>

definition range_chunk_sql :: "table \<Rightarrow> lexical_range \<Rightarrow> gat_path option \<Rightarrow> lock_shard_id option \<Rightarrow> nat \<Rightarrow> entry list" where
  "range_chunk_sql t r frontier shard limit = take limit (lexical_range_sql t (lr_lower r) (lr_upper r) frontier shard)"

definition exact_chunk_sql :: "table \<Rightarrow> str list \<Rightarrow> lock_shard_id option \<Rightarrow> entry list" where
  "exact_chunk_sql t chunk shard = desired_rows_where t (\<lambda>p r. in_shard shard r \<and> as_str p \<in> set chunk)"

definition RANGE_STREAM_PAGE_ROWS :: nat where "RANGE_STREAM_PAGE_ROWS = 512"

section \<open>Cursors\<close>

text \<open>
  The statements already run are counted in \<open>k\<close>. A position in a list of paths or ranges is the list of
  those still ahead.
\<close>

record exact_cursor =
  ec_paths :: "str list"
  ec_buffer :: "entry list"

function exact_next_row ::
  "(nat \<Rightarrow> bool) \<Rightarrow> table \<Rightarrow> lock_shard_id option \<Rightarrow> nat \<Rightarrow> exact_cursor
     \<Rightarrow> state_store_error + (entry option \<times> exact_cursor \<times> nat)" where
  "exact_next_row ok t shard k self =
     (case ec_buffer self of
        row # rest \<Rightarrow> Ok (Some row, self\<lparr>ec_buffer := rest\<rparr>, k)
      | [] \<Rightarrow>
          (if ec_paths self = [] then Ok (None, self, k)
           else
             (let chunk = take (sql_chunk_size 1) (ec_paths self);
                  self = self\<lparr>ec_paths := drop (sql_chunk_size 1) (ec_paths self)\<rparr>
              in if ok k then exact_next_row ok t shard (Suc k) (self\<lparr>ec_buffer := exact_chunk_sql t chunk shard\<rparr>)
                 else Err QueryFailed)))"
  by pat_completeness auto

record range_stream =
  rg_ranges :: "lexical_range list"
  rg_frontier :: "gat_path option"
  rg_buffer :: "entry list"
  rg_peeked :: "entry option"

function range_advance ::
  "(nat \<Rightarrow> bool) \<Rightarrow> table \<Rightarrow> lock_shard_id option \<Rightarrow> nat \<Rightarrow> range_stream \<Rightarrow> state_store_error + (range_stream \<times> nat)" where
  "range_advance ok t shard k self =
     (if rg_peeked self \<noteq> None then Ok (self, k)
      else case rg_buffer self of
        row # rest \<Rightarrow> Ok (self\<lparr>rg_buffer := rest, rg_peeked := Some row\<rparr>, k)
      | [] \<Rightarrow>
          (case rg_ranges self of
             [] \<Rightarrow> Ok (self, k)
           | rng # ranges \<Rightarrow>
               (if \<not> ok k then Err QueryFailed
                else
                  (let decoded = range_chunk_sql t rng (rg_frontier self) shard RANGE_STREAM_PAGE_ROWS
                   in if decoded = [] then
                        range_advance ok t shard (Suc k) (self\<lparr>rg_ranges := ranges, rg_frontier := None\<rparr>)
                      else
                        range_advance ok t shard (Suc k)
                          (self\<lparr>rg_frontier := Some (entry_path (last decoded)), rg_buffer := decoded\<rparr>)))))"
  by pat_completeness auto

definition range_lower_bound :: "range_stream \<Rightarrow> str option" where
  "range_lower_bound self =
     (case rg_peeked self of
        Some row \<Rightarrow> Some (as_str (entry_path row))
      | None \<Rightarrow>
          (case rg_buffer self of
             row # _ \<Rightarrow> Some (as_str (entry_path row))
           | [] \<Rightarrow> (case rg_ranges self of rng # _ \<Rightarrow> Some (lr_lower rng) | [] \<Rightarrow> None)))"

record exact_stream =
  ex_paths :: "str list"
  ex_buffer :: "entry list"
  ex_peeked :: "entry option"

function exact_advance ::
  "(nat \<Rightarrow> bool) \<Rightarrow> table \<Rightarrow> lock_shard_id option \<Rightarrow> nat \<Rightarrow> exact_stream \<Rightarrow> state_store_error + (exact_stream \<times> nat)" where
  "exact_advance ok t shard k self =
     (if ex_peeked self \<noteq> None then Ok (self, k)
      else case ex_buffer self of
        row # rest \<Rightarrow> Ok (self\<lparr>ex_buffer := rest, ex_peeked := Some row\<rparr>, k)
      | [] \<Rightarrow>
          (if ex_paths self = [] then Ok (self, k)
           else
             (let refs = take (sql_chunk_size 1) (ex_paths self);
                  self = self\<lparr>ex_paths := drop (sql_chunk_size 1) (ex_paths self)\<rparr>
              in if ok k then exact_advance ok t shard (Suc k) (self\<lparr>ex_buffer := exact_chunk_sql t refs shard\<rparr>)
                 else Err QueryFailed)))"
  by pat_completeness auto

definition exact_lower_bound :: "exact_stream \<Rightarrow> str option" where
  "exact_lower_bound self =
     (case ex_peeked self of
        Some row \<Rightarrow> Some (as_str (entry_path row))
      | None \<Rightarrow>
          (case ex_buffer self of
             row # _ \<Rightarrow> Some (as_str (entry_path row))
           | [] \<Rightarrow> (case ex_paths self of path # _ \<Rightarrow> Some path | [] \<Rightarrow> None)))"

lemma point_chunk_pos: "0 < sql_chunk_size 1"
  by (simp add: sql_chunk_size_def SQL_BIND_BUDGET_def)

termination exact_next_row
  by (relation "measure (\<lambda>(ok, t, shard, k, self). length (ec_paths self))") (use point_chunk_pos in auto)

termination exact_advance
  by (relation "measure (\<lambda>(ok, t, shard, k, self). length (ex_paths self))") (use point_chunk_pos in auto)

termination range_advance
  by (relation "measures [\<lambda>(ok, t, shard, k, self). length (rg_ranges self), \<lambda>(ok, t, shard, k, self). if rg_buffer self = [] then 1 else 0]")
    auto

declare exact_next_row.simps [simp del] exact_advance.simps [simp del] range_advance.simps [simp del]

record union_cursor =
  uc_ranges :: range_stream
  uc_exact :: exact_stream

definition union_open :: "union_plan \<Rightarrow> union_cursor" where
  "union_open plan =
     \<lparr>uc_ranges = \<lparr>rg_ranges = up_ranges plan, rg_frontier = None, rg_buffer = [], rg_peeked = None\<rparr>,
      uc_exact = \<lparr>ex_paths = up_exact plan, ex_buffer = [], ex_peeked = None\<rparr>\<rparr>"

definition take_range :: "union_cursor \<Rightarrow> entry option \<times> union_cursor" where
  "take_range self = (rg_peeked (uc_ranges self), self\<lparr>uc_ranges := (uc_ranges self)\<lparr>rg_peeked := None\<rparr>\<rparr>)"

definition take_exact :: "union_cursor \<Rightarrow> entry option \<times> union_cursor" where
  "take_exact self = (ex_peeked (uc_exact self), self\<lparr>uc_exact := (uc_exact self)\<lparr>ex_peeked := None\<rparr>\<rparr>)"

function union_next_row ::
  "(nat \<Rightarrow> bool) \<Rightarrow> table \<Rightarrow> lock_shard_id option \<Rightarrow> nat \<Rightarrow> union_cursor
     \<Rightarrow> state_store_error + (entry option \<times> union_cursor \<times> nat)" where
  "union_next_row ok t shard k self =
     (case (range_lower_bound (uc_ranges self), exact_lower_bound (uc_exact self)) of
        (None, None) \<Rightarrow> Ok (None, self, k)
      | (Some _, None) \<Rightarrow>
          map_ok (\<lambda>(ranges, k). case take_range (self\<lparr>uc_ranges := ranges\<rparr>) of (row, self) \<Rightarrow> (row, self, k))
            (range_advance ok t shard k (uc_ranges self))
      | (None, Some _) \<Rightarrow>
          map_ok (\<lambda>(exact, k). case take_exact (self\<lparr>uc_exact := exact\<rparr>) of (row, self) \<Rightarrow> (row, self, k))
            (exact_advance ok t shard k (uc_exact self))
      | (Some rb, Some eb) \<Rightarrow>
          (if rg_peeked (uc_ranges self) \<noteq> None \<and> rb \<le> eb then
             Ok (case take_range self of (row, self) \<Rightarrow> (row, self, k))
           else if ex_peeked (uc_exact self) \<noteq> None \<and> eb \<le> rb then
             Ok (case take_exact self of (row, self) \<Rightarrow> (row, self, k))
           else if rb \<le> eb then
             (case range_advance ok t shard k (uc_ranges self) of
                Inl e \<Rightarrow> Err e
              | Inr (ranges, k) \<Rightarrow> union_next_row ok t shard k (self\<lparr>uc_ranges := ranges\<rparr>))
           else
             (case exact_advance ok t shard k (uc_exact self) of
                Inl e \<Rightarrow> Err e
              | Inr (exact, k) \<Rightarrow> union_next_row ok t shard k (self\<lparr>uc_exact := exact\<rparr>))))"
  by pat_completeness auto

text \<open>Advancing a stream leaves a row peeked or the stream exhausted, so each turn of the loop returns or settles a stream.\<close>

definition unsettled :: "union_cursor \<Rightarrow> nat" where
  "unsettled self =
     (if rg_peeked (uc_ranges self) = None \<and> range_lower_bound (uc_ranges self) \<noteq> None then 1 else 0)
     + (if ex_peeked (uc_exact self) = None \<and> exact_lower_bound (uc_exact self) \<noteq> None then 1 else 0)"

lemma range_advance_settles:
  "range_advance ok t shard k self = Ok (self', k') \<Longrightarrow> rg_peeked self' \<noteq> None \<or> range_lower_bound self' = None"
proof (induction ok t shard k self rule: range_advance.induct)
  case (1 ok t shard k self)
  from 1(3) show ?case
    by (subst (asm) range_advance.simps)
      (auto simp: Let_def range_lower_bound_def split: if_splits list.splits option.splits dest: 1(1,2) [rotated -1])
qed

lemma exact_advance_settles:
  "exact_advance ok t shard k self = Ok (self', k') \<Longrightarrow> ex_peeked self' \<noteq> None \<or> exact_lower_bound self' = None"
proof (induction ok t shard k self rule: exact_advance.induct)
  case (1 ok t shard k self)
  from 1(2) show ?case
    by (subst (asm) exact_advance.simps)
      (auto simp: Let_def exact_lower_bound_def split: if_splits list.splits option.splits dest: 1(1) [rotated -1])
qed

termination union_next_row
proof (relation "measure (\<lambda>(ok, t, shard, k, self). unsettled self)", goal_cases)
  case 2
  then show ?case by (auto simp: unsettled_def dest: range_advance_settles) (metis)+
next
  case 3
  then show ?case by (auto simp: unsettled_def dest: exact_advance_settles) (metis)+
qed simp


declare union_next_row.simps [simp del]

datatype row_source = RangeRows "entry list" | ExactRows exact_cursor | UnionRows union_cursor

fun source_next ::
  "(nat \<Rightarrow> bool) \<Rightarrow> table \<Rightarrow> lock_shard_id option \<Rightarrow> nat \<Rightarrow> row_source
     \<Rightarrow> state_store_error + (entry option \<times> row_source \<times> nat)" where
  "source_next ok t shard k (RangeRows rows) =
     (if \<not> ok k then Err QueryFailed
      else case rows of [] \<Rightarrow> Ok (None, RangeRows [], Suc k) | row # rest \<Rightarrow> Ok (Some row, RangeRows rest, Suc k))"
| "source_next ok t shard k (ExactRows cursor) =
     map_ok (\<lambda>(row, cursor, k). (row, ExactRows cursor, k)) (exact_next_row ok t shard k cursor)"
| "source_next ok t shard k (UnionRows cursor) =
     map_ok (\<lambda>(row, cursor, k). (row, UnionRows cursor, k)) (union_next_row ok t shard k cursor)"

text \<open>
  \<open>DesiredRows::next\<close> skips the rows the residual selection rejects. Its loop and the loops of its callers
  are bounded by \<open>fuel\<close>; the outcome is \<open>None\<close> only when it runs out.
\<close>

fun rows_next ::
  "('p \<Rightarrow> str \<Rightarrow> bool) \<Rightarrow> (nat \<Rightarrow> bool) \<Rightarrow> table \<Rightarrow> 'p desired_query \<Rightarrow> nat \<Rightarrow> nat \<Rightarrow> row_source
     \<Rightarrow> (state_store_error + (entry option \<times> row_source \<times> nat)) option" where
  "rows_next mw ok t q 0 k source = None"
| "rows_next mw ok t q (Suc fuel) k source =
     (case source_next ok t (dq_shard q) k source of
        Inl e \<Rightarrow> Some (Err e)
      | Inr (None, source, k) \<Rightarrow> Some (Ok (None, source, k))
      | Inr (Some row, source, k) \<Rightarrow>
          (case dq_residual q of
             Some sel \<Rightarrow>
               if \<not> selection_matches mw sel (entry_path row) then rows_next mw ok t q fuel k source
               else Some (Ok (Some row, source, k))
           | None \<Rightarrow> Some (Ok (Some row, source, k))))"

definition with_desired_rows_on ::
  "(nat \<Rightarrow> bool) \<Rightarrow> table \<Rightarrow> 'p desired_query \<Rightarrow> (nat \<Rightarrow> row_source \<Rightarrow> (state_store_error + 'a) option)
     \<Rightarrow> (state_store_error + 'a) option" where
  "with_desired_rows_on ok t q f =
     (case dq_span q of
        SpanEmpty \<Rightarrow> f 0 (ExactRows \<lparr>ec_paths = [], ec_buffer = []\<rparr>)
      | SpanExact paths \<Rightarrow> f 0 (ExactRows \<lparr>ec_paths = remdups_adj (sort (map as_str paths)), ec_buffer = []\<rparr>)
      | SpanAll \<Rightarrow> if ok 0 then f 1 (RangeRows (range_sql t None (dq_shard q))) else Some (Err QueryFailed)
      | SpanScope s \<Rightarrow> if ok 0 then f 1 (RangeRows (range_sql t (Some s) (dq_shard q))) else Some (Err QueryFailed)
      | SpanUnion plan \<Rightarrow> f 0 (UnionRows (union_open plan)))"

fun collect_rows ::
  "('p \<Rightarrow> str \<Rightarrow> bool) \<Rightarrow> (nat \<Rightarrow> bool) \<Rightarrow> table \<Rightarrow> 'p desired_query \<Rightarrow> nat \<Rightarrow> entry list \<Rightarrow> nat \<Rightarrow> row_source
     \<Rightarrow> (state_store_error + entry list) option" where
  "collect_rows mw ok t q 0 entries k source = None"
| "collect_rows mw ok t q (Suc fuel) entries k source =
     (case rows_next mw ok t q (Suc fuel) k source of
        None \<Rightarrow> None
      | Some (Inl e) \<Rightarrow> Some (Err e)
      | Some (Inr (None, _, _)) \<Rightarrow> Some (Ok entries)
      | Some (Inr (Some row, source, k)) \<Rightarrow> collect_rows mw ok t q fuel (entries @ [row]) k source)"

definition desired_rows_on ::
  "nat \<Rightarrow> ('p \<Rightarrow> str \<Rightarrow> bool) \<Rightarrow> (nat \<Rightarrow> bool) \<Rightarrow> table \<Rightarrow> 'p desired_query \<Rightarrow> (state_store_error + entry list) option" where
  "desired_rows_on fuel mw ok t q = with_desired_rows_on ok t q (collect_rows mw ok t q fuel [])"

definition desired_any_on ::
  "nat \<Rightarrow> ('p \<Rightarrow> str \<Rightarrow> bool) \<Rightarrow> (nat \<Rightarrow> bool) \<Rightarrow> table \<Rightarrow> 'p desired_query \<Rightarrow> (state_store_error + bool) option" where
  "desired_any_on fuel mw ok t q =
     with_desired_rows_on ok t q (\<lambda>k source.
       map_option (map_ok (\<lambda>(row, _, _). row \<noteq> None)) (rows_next mw ok t q fuel k source))"

fun count_rows ::
  "('p \<Rightarrow> str \<Rightarrow> bool) \<Rightarrow> (nat \<Rightarrow> bool) \<Rightarrow> table \<Rightarrow> 'p desired_query \<Rightarrow> nat \<Rightarrow> 64 word \<Rightarrow> nat \<Rightarrow> row_source
     \<Rightarrow> (state_store_error + 64 word) option" where
  "count_rows mw ok t q 0 n k source = None"
| "count_rows mw ok t q (Suc fuel) n k source =
     (case rows_next mw ok t q (Suc fuel) k source of
        None \<Rightarrow> None
      | Some (Inl e) \<Rightarrow> Some (Err e)
      | Some (Inr (None, _, _)) \<Rightarrow> Some (Ok n)
      | Some (Inr (Some row, source, k)) \<Rightarrow> count_rows mw ok t q fuel (n + 1) k source)"

definition count_sql :: "table \<Rightarrow> gat_path option \<Rightarrow> lock_shard_id option \<Rightarrow> nat" where
  "count_sql t scope shard =
     length (filter (\<lambda>(p, r). sr_desired_oid r \<noteq> None \<and> in_shard shard r \<and> in_scope_range scope p) t)"

definition desired_count_on ::
  "nat \<Rightarrow> ('p \<Rightarrow> str \<Rightarrow> bool) \<Rightarrow> (nat \<Rightarrow> bool) \<Rightarrow> table \<Rightarrow> 'p desired_query \<Rightarrow> (state_store_error + 64 word) option" where
  "desired_count_on fuel mw ok t q =
     (case (dq_span q, dq_residual q) of
        (SpanScope s, None) \<Rightarrow> Some (if ok 0 then Ok (of_nat (count_sql t (Some s) (dq_shard q))) else Err QueryFailed)
      | (SpanAll, None) \<Rightarrow> Some (if ok 0 then Ok (of_nat (count_sql t None (dq_shard q))) else Err QueryFailed)
      | (SpanEmpty, _) \<Rightarrow> Some (Ok 0)
      | _ \<Rightarrow> with_desired_rows_on ok t q (count_rows mw ok t q fuel 0))"

end
