(* ===== verification/ScalarText.thy ===== *)
theory ScalarText
  imports DesiredQuery
begin

text \<open>
  The order of UTF-8 texts is the order of their scalar values, and the upper bound a query derives from
  a prefix (\<open>lexical_prefix_upper\<close>, which steps to the next scalar value) lies above every text with that
  prefix.
\<close>

section \<open>Encoding one scalar value\<close>

lemma div_mod_less:
  fixes a b :: nat
  assumes "a < b"
  shows "a div n < b div n \<or> (a div n = b div n \<and> a mod n < b mod n)"
proof (cases "a div n = b div n")
  case True
  then show ?thesis using assms by (metis div_mult_mod_eq nat_add_left_cancel_less)
next
  case False
  then show ?thesis using div_le_mono [of a b n] assms by linarith
qed

lemma byte_less: "a < 256 \<Longrightarrow> b < 256 \<Longrightarrow> (of_nat a :: u8) < of_nat b \<longleftrightarrow> a < b"
  by (simp add: word_less_nat_alt unat_of_nat)

lemma byte_eq: "a < 256 \<Longrightarrow> b < 256 \<Longrightarrow> (of_nat a :: u8) = of_nat b \<longleftrightarrow> a = b"
  by (simp add: word_unat_eq_iff unat_of_nat)

lemma byte_unat: "a < 256 \<Longrightarrow> unat (of_nat a :: u8) = a"
  by (simp add: unat_of_nat)

lemma continuation_byte: "a < 256 \<Longrightarrow> is_continuation (of_nat a) \<longleftrightarrow> 128 \<le> a \<and> a < 192"
  by (simp add: is_continuation_def word_less_nat_alt word_le_nat_alt unat_of_nat)

lemma scalar_class:
  fixes c :: nat
  assumes "c < 0x110000"
  obtains "c < 0x80" | "0x80 \<le> c" "c < 0x800" "c div 64 < 32" | "0x800 \<le> c" "c < 0x10000" "c div 4096 < 16"
    | "0x10000 \<le> c" "c div 262144 < 8"
proof -
  consider "c < 0x80" | "0x80 \<le> c" "c < 0x800" | "0x800 \<le> c" "c < 0x10000" | "0x10000 \<le> c" by linarith
  then show ?thesis using that assms by (cases; linarith?; auto)
qed

lemma masked:
  "(128 + x) mod 64 = x mod (64 :: nat)" "(192 + x) mod 32 = x mod (32 :: nat)"
  "(224 + x) mod 16 = x mod (16 :: nat)" "(240 + x) mod 8 = x mod (8 :: nat)"
proof -
  show "(128 + x) mod 64 = x mod (64 :: nat)" by (subst add.commute) (use mod_mult_self2 [of x 64 2] in simp)
  show "(192 + x) mod 32 = x mod (32 :: nat)" by (subst add.commute) (use mod_mult_self2 [of x 32 6] in simp)
  show "(224 + x) mod 16 = x mod (16 :: nat)" by (subst add.commute) (use mod_mult_self2 [of x 16 14] in simp)
  show "(240 + x) mod 8 = x mod (8 :: nat)" by (subst add.commute) (use mod_mult_self2 [of x 8 30] in simp)
qed

lemma digits:
  fixes c :: nat
  shows "c div 64 * 64 + c mod 64 = c" "c div 4096 * 4096 + c div 64 mod 64 * 64 + c mod 64 = c"
    "c div 262144 * 262144 + c div 4096 mod 64 * 4096 + c div 64 mod 64 * 64 + c mod 64 = c"
proof -
  have d: "c div 4096 = c div 64 div 64" "c div 262144 = c div 64 div 64 div 64" by (simp_all flip: div_mult2_eq)
  have m: "n div 64 * 64 + n mod 64 = n" for n :: nat by simp
  show "c div 64 * 64 + c mod 64 = c" by (rule m)
  show "c div 4096 * 4096 + c div 64 mod 64 * 64 + c mod 64 = c"
    using m [of c] m [of "c div 64"] unfolding d by linarith
  show "c div 262144 * 262144 + c div 4096 mod 64 * 4096 + c div 64 mod 64 * 64 + c mod 64 = c"
    using m [of c] m [of "c div 64"] m [of "c div 64 div 64"] unfolding d by linarith
qed

lemma decode_encode_utf8:
  assumes "c < 0x110000"
  shows "decode_utf8 (encode_utf8 c) = c"
  using assms
proof (cases rule: scalar_class)
  case 1
  then show ?thesis by (simp add: encode_utf8_def byte_unat)
next
  case 2
  have "unat (of_nat (0xC0 + c div 64) :: u8) = 0xC0 + c div 64" "unat (of_nat (0x80 + c mod 64) :: u8) = 0x80 + c mod 64"
    using 2 by (intro byte_unat; simp)+
  then show ?thesis using 2 digits(1) [of c] by (simp add: encode_utf8_def masked del: of_nat_add)
next
  case 3
  have "unat (of_nat (0xE0 + c div 4096) :: u8) = 0xE0 + c div 4096"
    "unat (of_nat (0x80 + c div 64 mod 64) :: u8) = 0x80 + c div 64 mod 64"
    "unat (of_nat (0x80 + c mod 64) :: u8) = 0x80 + c mod 64"
    using 3 by (intro byte_unat; simp)+
  then show ?thesis using 3 digits(2) [of c] by (simp add: encode_utf8_def masked del: of_nat_add)
next
  case 4
  have "unat (of_nat (0xF0 + c div 262144) :: u8) = 0xF0 + c div 262144"
    "unat (of_nat (0x80 + c div 4096 mod 64) :: u8) = 0x80 + c div 4096 mod 64"
    "unat (of_nat (0x80 + c div 64 mod 64) :: u8) = 0x80 + c div 64 mod 64"
    "unat (of_nat (0x80 + c mod 64) :: u8) = 0x80 + c mod 64"
    using 4 by (intro byte_unat; simp)+
  then show ?thesis using 4 digits(3) [of c] by (simp add: encode_utf8_def masked del: of_nat_add)
qed

text \<open>The bytes as numbers, below 256.\<close>

definition utf8_digits :: "nat \<Rightarrow> nat list" where
  "utf8_digits c =
     (if c < 0x80 then [c]
      else if c < 0x800 then [0xC0 + c div 64, 0x80 + c mod 64]
      else if c < 0x10000 then [0xE0 + c div 4096, 0x80 + c div 64 mod 64, 0x80 + c mod 64]
      else [0xF0 + c div 262144, 0x80 + c div 4096 mod 64, 0x80 + c div 64 mod 64, 0x80 + c mod 64])"

lemma encode_digits: "encode_utf8 c = map of_nat (utf8_digits c)"
  by (simp add: encode_utf8_def utf8_digits_def)

lemma digits_bounded: "c < 0x110000 \<Longrightarrow> \<forall>d \<in> set (utf8_digits c). d < 256"
  by (cases rule: scalar_class [of c]) (auto simp: utf8_digits_def)

lemma digits_shape:
  assumes "c < 0x110000"
  shows "\<exists>d ds. utf8_digits c = d # ds \<and> \<not> (128 \<le> d \<and> d < 192) \<and> (\<forall>x \<in> set ds. 128 \<le> x \<and> x < 192)"
  using assms by (cases rule: scalar_class [of c]) (auto simp: utf8_digits_def)

fun diverges :: "nat list \<Rightarrow> nat list \<Rightarrow> bool" where
  "diverges (a # as) (b # bs) \<longleftrightarrow> a < b \<or> (a = b \<and> diverges as bs)"
| "diverges _ _ \<longleftrightarrow> False"

lemma digits_diverge:
  assumes "c < d" "d < 0x110000"
  shows "diverges (utf8_digits c) (utf8_digits d)"
proof -
  have c: "c < 0x110000" using assms by simp
  note low = div_mod_less [OF assms(1), of 64]
  have mid: "c div 64 < d div 64 \<Longrightarrow> c div 4096 < d div 4096 \<or> (c div 4096 = d div 4096 \<and> c div 64 mod 64 < d div 64 mod 64)"
    using div_mod_less [of "c div 64" "d div 64" 64] by (simp flip: div_mult2_eq)
  have high: "c div 4096 < d div 4096 \<Longrightarrow> c div 262144 < d div 262144 \<or> (c div 262144 = d div 262144 \<and> c div 4096 mod 64 < d div 4096 mod 64)"
    using div_mod_less [of "c div 4096" "d div 4096" 64] by (simp flip: div_mult2_eq)
  have eq: "c div 64 = d div 64 \<Longrightarrow> c div 4096 = d div 4096" "c div 4096 = d div 4096 \<Longrightarrow> c div 262144 = d div 262144"
    using div_mult2_eq [of c 64 64] div_mult2_eq [of d 64 64] div_mult2_eq [of c 4096 64] div_mult2_eq [of d 4096 64] by simp_all
  have small: "d < 0x800 \<Longrightarrow> d div 64 < 32" "d < 0x10000 \<Longrightarrow> d div 4096 < 16" by auto
  show ?thesis
  proof (cases rule: scalar_class [OF c])
    case 1
    then show ?thesis using assms by (simp add: utf8_digits_def)
  next
    case 2
    then show ?thesis
    proof (cases "d < 0x800")
      case True
      then have "utf8_digits c = [0xC0 + c div 64, 0x80 + c mod 64]" "utf8_digits d = [0xC0 + d div 64, 0x80 + d mod 64]"
        using 2 assms by (simp_all add: utf8_digits_def)
      then show ?thesis using low by auto
    next
      case False
      with 2 show ?thesis by (simp add: utf8_digits_def)
    qed
  next
    case 3
    then show ?thesis
    proof (cases "d < 0x10000")
      case True
      then have "utf8_digits c = [0xE0 + c div 4096, 0x80 + c div 64 mod 64, 0x80 + c mod 64]"
        "utf8_digits d = [0xE0 + d div 4096, 0x80 + d div 64 mod 64, 0x80 + d mod 64]"
        using 3 assms by (simp_all add: utf8_digits_def)
      then show ?thesis using low mid eq(1) by auto
    next
      case False
      with 3 show ?thesis by (simp add: utf8_digits_def)
    qed
  next
    case 4
    then have "utf8_digits c = [0xF0 + c div 262144, 0x80 + c div 4096 mod 64, 0x80 + c div 64 mod 64, 0x80 + c mod 64]"
      "utf8_digits d = [0xF0 + d div 262144, 0x80 + d div 4096 mod 64, 0x80 + d div 64 mod 64, 0x80 + d mod 64]"
      using assms by (simp_all add: utf8_digits_def)
    moreover have "c div 262144 < d div 262144
        \<or> (c div 262144 = d div 262144 \<and> (c div 4096 mod 64 < d div 4096 mod 64
        \<or> (c div 4096 mod 64 = d div 4096 mod 64 \<and> (c div 64 mod 64 < d div 64 mod 64
        \<or> (c div 64 mod 64 = d div 64 mod 64 \<and> c mod 64 < d mod 64)))))"
    proof (cases "c div 64 = d div 64")
      case True
      note same = True and up = eq(1) [OF True]
      have "c mod 64 < d mod 64" using low same by simp
      then show ?thesis using same up eq(2) [OF up] by simp
    next
      case False
      then have "c div 64 < d div 64" using low by simp
      from mid [OF this] show ?thesis
      proof
        assume "c div 4096 < d div 4096"
        from high [OF this] show ?thesis by blast
      next
        assume a: "c div 4096 = d div 4096 \<and> c div 64 mod 64 < d div 64 mod 64"
        then show ?thesis using eq(2) by simp
      qed
    qed
    ultimately show ?thesis by simp
  qed
qed

lemma diverges_less:
  assumes "diverges as bs" "\<forall>a \<in> set as. a < 256" "\<forall>b \<in> set bs. b < 256"
  shows "(map of_nat as :: str) @ s < map of_nat bs @ t"
  using assms
proof (induction as bs rule: diverges.induct)
  case (1 a as b bs)
  show ?case
  proof (cases "a < b")
    case True
    then have "(of_nat a :: u8) < of_nat b" using byte_less [of a b] 1(3,4) by simp
    then show ?thesis by simp
  next
    case False
    then have "a = b" "diverges as bs" using 1(2) by simp_all
    with 1(1) 1(3,4) have "(map of_nat as :: str) @ s < map of_nat bs @ t" by simp
    then show ?thesis unfolding \<open>a = b\<close> by simp
  qed
qed simp_all

lemma encode_utf8_less:
  assumes "c < d" "d < 0x110000"
  shows "encode_utf8 c @ s < encode_utf8 d @ t"
  unfolding encode_digits
  by (rule diverges_less [OF digits_diverge [OF assms]]) (use digits_bounded [of c] digits_bounded [of d] assms in simp_all)

lemma encode_shape:
  assumes "c < 0x110000"
  shows "\<exists>b bs. encode_utf8 c = b # bs \<and> \<not> is_continuation b \<and> (\<forall>x \<in> set bs. is_continuation x)"
proof -
  obtain d ds where d: "utf8_digits c = d # ds" "\<not> (128 \<le> d \<and> d < 192)" "\<forall>x \<in> set ds. 128 \<le> x \<and> x < 192"
    using digits_shape [OF assms] by blast
  then have "\<forall>x \<in> set (d # ds). x < 256" using digits_bounded [OF assms] by simp
  with d show ?thesis by (auto simp: encode_digits continuation_byte)
qed

section \<open>Texts\<close>

definition utf8 :: "str \<Rightarrow> bool" where
  "utf8 s \<longleftrightarrow> (\<exists>cs. list_all is_scalar cs \<and> s = concat (map encode_utf8 cs))"

lemma utf8_append: "utf8 s \<Longrightarrow> utf8 t \<Longrightarrow> utf8 (s @ t)"
  unfolding utf8_def by (metis concat_append list_all_append map_append)

lemma utf8_ascii: "b < 128 \<Longrightarrow> utf8 [b]"
  unfolding utf8_def
  by (rule exI [of _ "[unat b]"]) (simp add: is_scalar_def encode_utf8_def word_less_nat_alt)

lemma split_last_char_snoc:
  assumes "is_scalar c"
  shows "split_last_char (s @ encode_utf8 c) = Some (s, encode_utf8 c)"
proof -
  have c: "c < 0x110000" using assms by (simp add: is_scalar_def)
  obtain b bs where b: "encode_utf8 c = b # bs" "\<not> is_continuation b" "\<forall>x \<in> set bs. is_continuation x"
    using encode_shape [OF c] by blast
  have "takeWhile is_continuation (rev (s @ encode_utf8 c)) = rev bs"
    unfolding b(1) using b(2,3) by (simp, subst takeWhile_append2) auto
  then show ?thesis by (simp add: split_last_char_def b(1))
qed

text \<open>The bound is above everything that starts with the text, and absent only when nothing above can be.\<close>

lemma lexical_prefix_upper_above:
  assumes "utf8 s"
  shows "below_upper (s @ r) (lexical_prefix_upper s)"
proof -
  obtain cs where cs: "list_all is_scalar cs" "s = concat (map encode_utf8 cs)" using assms unfolding utf8_def by blast
  show ?thesis
    using cs
  proof (induction cs arbitrary: s r rule: rev_induct)
    case Nil
    then show ?case by (simp add: lexical_prefix_upper.simps split_last_char_def below_upper_def)
  next
    case (snoc c cs)
    let ?before = "concat (map encode_utf8 cs)"
    have c: "is_scalar c" "c < 0x110000" using snoc.prems by (auto simp: is_scalar_def)
    have u: "lexical_prefix_upper s = (case next_scalar c of Some d \<Rightarrow> Some (?before @ encode_utf8 d) | None \<Rightarrow> lexical_prefix_upper ?before)"
      using snoc.prems(2) split_last_char_snoc [OF c(1), of ?before] decode_encode_utf8 [OF c(2)]
      by (subst lexical_prefix_upper.simps) simp
    show ?case
    proof (cases "next_scalar c")
      case None
      then show ?thesis using snoc.IH [OF _ refl, of "encode_utf8 c @ r"] snoc.prems unfolding u by simp
    next
      case (Some d)
      then have "c < d" "d < 0x110000" by (auto simp: next_scalar_def is_scalar_def split: if_splits)
      from encode_utf8_less [OF this, of r "[]"] Some snoc.prems(2) show ?thesis unfolding u by (simp add: below_upper_def)
    qed
  qed
qed

lemma encode_low:
  assumes "is_scalar c" "n < length (encode_utf8 c)" "encode_utf8 c ! n < 128"
  shows "n = 0"
proof -
  have c: "c < 0x110000" using assms(1) by (simp add: is_scalar_def)
  then have "length (utf8_digits c) = 1 \<or> (\<forall>d \<in> set (utf8_digits c). 128 \<le> d)"
    by (auto simp: utf8_digits_def)
  then show ?thesis
  proof
    assume "length (utf8_digits c) = 1"
    then show ?thesis using assms(2) by (simp add: encode_digits)
  next
    assume h: "\<forall>d \<in> set (utf8_digits c). 128 \<le> d"
    have n: "n < length (utf8_digits c)" using assms(2) by (simp add: encode_digits)
    then have "utf8_digits c ! n < 256" "128 \<le> utf8_digits c ! n" using h digits_bounded [OF c] by auto
    then show ?thesis using assms(3) n by (simp add: encode_digits word_less_nat_alt byte_unat)
  qed
qed

text \<open>A text cut before an ASCII byte is a text.\<close>

lemma utf8_take:
  assumes "utf8 s" "n < length s" "s ! n < 128"
  shows "utf8 (take n s)"
proof -
  obtain cs where "list_all is_scalar cs" "s = concat (map encode_utf8 cs)" using assms(1) unfolding utf8_def by blast
  then show ?thesis using assms(2,3)
  proof (induction cs arbitrary: s n)
    case (Cons c cs)
    let ?w = "encode_utf8 c" and ?r = "concat (map encode_utf8 cs)"
    have c: "is_scalar c" "utf8 ?w" using Cons.prems(1) unfolding utf8_def by (auto intro!: exI [of _ "[c]"])
    show ?case
    proof (cases "n < length ?w")
      case True
      then have "n = 0" using encode_low [OF c(1) True] Cons.prems by (simp add: nth_append)
      then show ?thesis by (auto simp: utf8_def intro: exI [of _ "[]"])
    next
      case False
      then have "utf8 (take (n - length ?w) ?r)"
        by (intro Cons.IH) (use Cons.prems False in \<open>auto simp: nth_append\<close>)
      then have "utf8 (?w @ take (n - length ?w) ?r)" by (rule utf8_append [OF c(2)])
      then show ?thesis using Cons.prems(2) False by simp
    qed
  qed simp
qed

end
