(* ===== verification/QueryCursors.thy ===== *)
theory QueryCursors
  imports ScalarText
begin

text \<open>
  What the cursors of \<open>DesiredQuery\<close> yield. The mirror's rows are a list ascending by path; a stream stands
  for the rows it has still to yield, and advancing it keeps them.
\<close>

section \<open>Ascending rows\<close>

abbreviation pt :: "entry \<Rightarrow> str" where
  "pt e \<equiv> as_str (entry_path e)"

abbreviation ascending :: "entry list \<Rightarrow> bool" where
  "ascending \<equiv> sorted_wrt (\<lambda>a b. pt a < pt b)"

lemma filter_split:
  assumes "ascending D" "\<And>a b. a \<in> set D \<Longrightarrow> b \<in> set D \<Longrightarrow> P a \<Longrightarrow> Q b \<Longrightarrow> pt a < pt b"
  shows "filter (\<lambda>e. P e \<or> Q e) D = filter P D @ filter Q D"
  using assms
proof (induction D)
  case (Cons x D)
  have ih: "filter (\<lambda>e. P e \<or> Q e) D = filter P D @ filter Q D"
    by (rule Cons.IH) (use Cons.prems in simp_all)
  show ?case
  proof (cases "Q x")
    case True
    have "\<not> P a" if "a \<in> set (x # D)" for a
    proof
      assume "P a"
      then have "pt a < pt x" using Cons.prems(2) [of a x] that True by simp
      then show False using that Cons.prems(1) by auto
    qed
    then have "filter P D = []" "\<not> P x" by (simp_all add: filter_empty_conv)
    then show ?thesis using True ih by simp
  qed (use ih in simp)
qed simp

lemma ascending_filter: "ascending D \<Longrightarrow> ascending (filter P D)"
  by (rule sorted_wrt_filter)

lemma ascending_last: "ascending X \<Longrightarrow> e \<in> set X \<Longrightarrow> pt e \<le> pt (last X)"
  by (induction X) (auto split: if_splits intro: less_imp_le)

lemma filter_page:
  assumes "ascending X" "take n X \<noteq> []"
  shows "filter (\<lambda>e. pt (last (take n X)) < pt e) X = drop n X"
proof -
  have a: "ascending (take n X @ drop n X)" using assms(1) by simp
  then have t: "ascending (take n X)" and d: "\<And>x y. x \<in> set (take n X) \<Longrightarrow> y \<in> set (drop n X) \<Longrightarrow> pt x < pt y"
    unfolding sorted_wrt_append by blast+
  have "filter (\<lambda>e. pt (last (take n X)) < pt e) (take n X @ drop n X) = drop n X"
    unfolding filter_append
    using ascending_last [OF t] d [OF last_in_set [OF assms(2)]] by (force simp: filter_empty_conv not_less filter_id_conv)
  then show ?thesis by simp
qed

lemma ascending_head: "ascending L \<Longrightarrow> x \<in> set L \<Longrightarrow> (\<And>y. y \<in> set L \<Longrightarrow> pt x \<le> pt y) \<Longrightarrow> \<exists>L'. L = x # L' \<and> set L' = set L - {x}"
  by (cases L) force+

lemma ascending_set_eq: "ascending A \<Longrightarrow> ascending B \<Longrightarrow> set A = set B \<Longrightarrow> A = B"
proof (induction A arbitrary: B)
  case (Cons a A)
  have least: "pt a \<le> pt y" if "y \<in> set B" for y
    using that Cons.prems(1) unfolding Cons.prems(3) [symmetric] by (auto intro: less_imp_le)
  have "a \<in> set B" unfolding Cons.prems(3) [symmetric] by simp
  from ascending_head [OF Cons.prems(2) this least] obtain B' where B: "B = a # B'" "set B' = set B - {a}" by blast
  have "a \<notin> set A" using Cons.prems(1) by auto
  then have "set A = set B'" unfolding B(2) Cons.prems(3) [symmetric] by auto
  then show ?case using Cons.IH [of B'] Cons.prems(1,2) unfolding B(1) by simp
qed simp

section \<open>Statements over the mirror\<close>

definition mirror :: "table \<Rightarrow> lock_shard_id option \<Rightarrow> entry list" where
  "mirror t shard = desired_rows_where t (\<lambda>p r. in_shard shard r)"

lemma sort_bt: "bt_ok t \<Longrightarrow> sort_key fst (filter P t) = filter P t"
proof (rule sort_key_id_if_sorted)
  assume "bt_ok t"
  then have "sorted_wrt (<) (map fst t)" by (simp add: bt_ok_def)
  then have "sorted_wrt (<) (map fst (filter P t))" by (induction t) auto
  then show "sorted (map fst (filter P t))" by (rule strict_sorted_imp_sorted)
qed

lemma rows_where:
  assumes "bt_ok t"
  shows "desired_rows_where t (\<lambda>p r. in_shard shard r \<and> C p) = filter (\<lambda>e. C (entry_path e)) (mirror t shard)"
proof -
  have "map f (filter (\<lambda>x. P x \<and> Q x) t) = filter Q' (map f (filter P t))" if "\<And>x. Q' (f x) = Q x"
    for f :: "gat_path \<times> state_row \<Rightarrow> entry" and P Q Q'
    by (induction t) (use that in auto)
  from this [of "\<lambda>e. C (entry_path e)" "\<lambda>(p, r). \<lparr>entry_path = p, entry_oid = the (sr_desired_oid r)\<rparr>" "\<lambda>(p, r). C p"
      "\<lambda>(p, r). sr_desired_oid r \<noteq> None \<and> in_shard shard r"]
  show ?thesis unfolding mirror_def desired_rows_where_def sort_bt [OF assms] by (simp add: case_prod_unfold conj_ac)
qed

lemma mirror_ascending:
  assumes "bt_ok t"
  shows "ascending (mirror t shard)"
proof -
  have "sorted_wrt (<) (map fst t)" using assms by (simp add: bt_ok_def)
  then have "ascending (map (\<lambda>(p, r). \<lparr>entry_path = p, entry_oid = the (sr_desired_oid r)\<rparr>) (filter P t))" for P
    by (induction t) (auto simp: less_gat_path_def)
  then show ?thesis unfolding mirror_def desired_rows_where_def sort_bt [OF assms] .
qed

section \<open>The stream of the ranges\<close>

definition within :: "lexical_range \<Rightarrow> entry \<Rightarrow> bool" where
  "within r e \<longleftrightarrow> lr_lower r \<le> pt e \<and> below_upper (pt e) (lr_upper r)"

definition past :: "lexical_range \<Rightarrow> gat_path option \<Rightarrow> entry \<Rightarrow> bool" where
  "past r frontier e \<longleftrightarrow>
     (case frontier of Some after \<Rightarrow> as_str after < pt e | None \<Rightarrow> lr_lower r \<le> pt e) \<and> below_upper (pt e) (lr_upper r)"

definition list_of :: "'a option \<Rightarrow> 'a list" where
  "list_of x = (case x of None \<Rightarrow> [] | Some a \<Rightarrow> [a])"

lemma list_of_simps [simp]: "list_of None = []" "list_of (Some a) = [a]"
  by (simp_all add: list_of_def)

fun ahead :: "entry list \<Rightarrow> gat_path option \<Rightarrow> lexical_range list \<Rightarrow> entry list" where
  "ahead D frontier [] = []"
| "ahead D frontier (r # rs) = filter (past r frontier) D @ concat (map (\<lambda>r. filter (within r) D) rs)"

definition range_rows :: "entry list \<Rightarrow> range_stream \<Rightarrow> entry list" where
  "range_rows D s = list_of (rg_peeked s) @ rg_buffer s @ ahead D (rg_frontier s) (rg_ranges s)"

definition frontier_ok :: "range_stream \<Rightarrow> bool" where
  "frontier_ok s \<longleftrightarrow> sorted (map lr_lower (rg_ranges s))
     \<and> (\<forall>a r rs. rg_frontier s = Some a \<longrightarrow> rg_ranges s = r # rs \<longrightarrow> lr_lower r \<le> as_str a)"

lemma past_None: "past r None = within r"
  by (simp add: fun_eq_iff past_def within_def)

lemma ahead_None: "ahead D None rs = concat (map (\<lambda>r. filter (within r) D) rs)"
  by (cases rs) (simp_all add: past_None)

lemma range_chunk_rows:
  assumes "bt_ok t"
  shows "range_chunk_sql t r frontier shard n = take n (filter (past r frontier) (mirror t shard))"
  unfolding range_chunk_sql_def lexical_range_sql_def rows_where [OF assms]
  by (simp add: past_def [abs_def] conj_ac cong: option.case_cong)

lemma past_page:
  fixes D :: "entry list"
  assumes "ascending D" "take n (filter (past r frontier) D) \<noteq> []" "\<And>a. frontier = Some a \<Longrightarrow> lr_lower r \<le> as_str a"
  defines "final \<equiv> last (take n (filter (past r frontier) D))"
  shows "filter (past r frontier) D = take n (filter (past r frontier) D) @ filter (past r (Some (entry_path final))) D"
    and "lr_lower r \<le> pt final"
proof -
  let ?X = "filter (past r frontier) D"
  have "final \<in> set ?X" unfolding final_def by (rule in_set_takeD [OF last_in_set [OF assms(2)]])
  then have f: "past r frontier final" by simp
  then show low: "lr_lower r \<le> pt final"
    using assms(3) by (auto simp: past_def split: option.splits intro: order.trans [OF _ less_imp_le])
  have "filter (past r (Some (entry_path final))) D = filter (\<lambda>e. pt final < pt e) ?X"
    unfolding filter_filter
    by (rule filter_cong) (use f low in \<open>auto simp: past_def split: option.splits intro: order.strict_trans order.trans less_imp_le\<close>)
  also have "\<dots> = drop n ?X" unfolding final_def by (rule filter_page [OF ascending_filter [OF assms(1)] assms(2)])
  finally show "?X = take n ?X @ filter (past r (Some (entry_path final))) D" by simp
qed

lemma range_advance_rows:
  "bt_ok t \<Longrightarrow> frontier_ok s \<Longrightarrow>
    (case range_advance ok t shard k s of
       Inl e \<Rightarrow> e = QueryFailed \<and> (\<exists>j. \<not> ok j)
     | Inr (s', k') \<Rightarrow> frontier_ok s' \<and> range_rows (mirror t shard) s' = range_rows (mirror t shard) s)"
proof (induction ok t shard k s rule: range_advance.induct)
  case (1 ok t shard k s)
  note assms = 1(3)
  let ?D = "mirror t shard"
  show ?case
  proof (cases "rg_peeked s")
    case None
    show ?thesis
    proof (cases "rg_buffer s")
      case Nil
      show ?thesis
      proof (cases "rg_ranges s")
        case Nil
        then show ?thesis using \<open>rg_peeked s = None\<close> \<open>rg_buffer s = []\<close> 1(4) by (subst range_advance.simps) simp
      next
        case (Cons rng ranges)
        show ?thesis
        proof (cases "ok k")
          case False
          then show ?thesis using \<open>rg_peeked s = None\<close> \<open>rg_buffer s = []\<close> Cons by (subst range_advance.simps) auto
        next
          case True
          let ?page = "take RANGE_STREAM_PAGE_ROWS (filter (past rng (rg_frontier s)) ?D)"
          let ?dry = "s\<lparr>rg_ranges := ranges, rg_frontier := None\<rparr>"
          let ?full = "s\<lparr>rg_frontier := Some (entry_path (last ?page)), rg_buffer := ?page\<rparr>"
          note chunk = range_chunk_rows [OF assms, of rng "rg_frontier s" shard RANGE_STREAM_PAGE_ROWS]
          have step: "range_advance ok t shard k s = range_advance ok t shard (Suc k) (if ?page = [] then ?dry else ?full)"
            unfolding range_advance.simps [of ok t shard k s] using None Nil Cons True by (simp add: Let_def chunk)
          show ?thesis
          proof (cases "?page = []")
            case empty: True
            then have none: "filter (past rng (rg_frontier s)) ?D = []" by (simp add: RANGE_STREAM_PAGE_ROWS_def)
            have "range_rows ?D ?dry = range_rows ?D s"
              unfolding range_rows_def by (simp add: Cons none ahead_None)
            moreover have "frontier_ok ?dry" using 1(4) Cons by (simp add: frontier_ok_def)
            moreover have "range_advance ok t shard k s = range_advance ok t shard (Suc k) ?dry"
              using step empty by simp
            moreover note 1(1) [OF _ Nil Cons _ chunk [symmetric] _ assms]
            ultimately show ?thesis using None True empty by (auto split: sum.splits)
          next
            case False
            have fr: "lr_lower rng \<le> as_str a" if "rg_frontier s = Some a" for a
              using that 1(4) Cons by (auto simp: frontier_ok_def)
            note page = past_page [OF mirror_ascending [OF assms] False fr]
            have "range_rows ?D ?full = range_rows ?D s"
              unfolding range_rows_def by (simp add: Cons Nil) (metis append_assoc page(1))
            moreover have "frontier_ok ?full" using 1(4) page(2) Cons by (simp add: frontier_ok_def)
            moreover have "range_advance ok t shard k s = range_advance ok t shard (Suc k) ?full"
              using step False by simp
            moreover note 1(2) [OF _ Nil Cons _ chunk [symmetric] _ assms]
            ultimately show ?thesis using None True False by (auto split: sum.splits)
          qed
        qed
      qed
    next
      case (Cons row rest)
      then show ?thesis using None 1(4) by (subst range_advance.simps) (simp add: frontier_ok_def range_rows_def)
    qed
  next
    case (Some row)
    then show ?thesis using 1(4) by (subst range_advance.simps) simp
  qed
qed

lemma range_lower:
  assumes "ascending (range_rows D s)" "frontier_ok s"
  shows "range_lower_bound s = None \<Longrightarrow> range_rows D s = []"
    and "range_lower_bound s = Some b \<Longrightarrow> e \<in> set (range_rows D s) \<Longrightarrow> b \<le> pt e"
    and "rg_peeked s = Some row \<Longrightarrow> range_lower_bound s = Some (pt row)"
proof -
  show "range_rows D s = []" if "range_lower_bound s = None"
    using that by (auto simp: range_lower_bound_def range_rows_def split: option.splits list.splits)
  show "range_lower_bound s = Some (pt row)" if "rg_peeked s = Some row"
    using that by (simp add: range_lower_bound_def)
  show "b \<le> pt e" if b: "range_lower_bound s = Some b" and e: "e \<in> set (range_rows D s)"
  proof (cases "rg_peeked s = None \<and> rg_buffer s = []")
    case True
    then obtain r rs where r: "rg_ranges s = r # rs" "b = lr_lower r"
      using b by (auto simp: range_lower_bound_def split: option.splits list.splits)
    have "b \<le> pt e" if "past r (rg_frontier s) e"
      using that assms(2) r by (auto simp: frontier_ok_def past_def split: option.splits intro: order.trans less_imp_le)
    moreover have "b \<le> pt e" if "r' \<in> set rs" "within r' e" for r'
      using that assms(2) r by (auto simp: frontier_ok_def within_def intro: order.trans)
    ultimately show ?thesis using e True r(1) by (auto simp: range_rows_def)
  next
    case False
    then obtain x xs where "range_rows D s = x # xs" "b = pt x"
      using b by (auto simp: range_lower_bound_def range_rows_def split: option.splits list.splits)
    then show ?thesis using assms(1) e by (auto intro: less_imp_le)
  qed
qed

section \<open>The stream of the points\<close>

definition among :: "str list \<Rightarrow> entry \<Rightarrow> bool" where
  "among ps e \<longleftrightarrow> pt e \<in> set ps"

lemma exact_chunk_rows: "bt_ok t \<Longrightarrow> exact_chunk_sql t ps shard = filter (among ps) (mirror t shard)"
  unfolding exact_chunk_sql_def by (subst rows_where) (simp_all add: among_def [abs_def])

lemma among_split:
  assumes "ascending D" "sorted_wrt (<) ps"
  shows "filter (among ps) D = filter (among (take n ps)) D @ filter (among (drop n ps)) D"
proof -
  have "sorted_wrt (<) (take n ps @ drop n ps)" using assms(2) by simp
  then have lt: "\<And>a b. a \<in> set (take n ps) \<Longrightarrow> b \<in> set (drop n ps) \<Longrightarrow> a < b" unfolding sorted_wrt_append by blast
  have "set ps = set (take n ps) \<union> set (drop n ps)" by (metis append_take_drop_id set_append)
  then have "filter (among ps) D = filter (\<lambda>e. among (take n ps) e \<or> among (drop n ps) e) D"
    by (intro filter_cong) (simp_all add: among_def)
  also have "\<dots> = filter (among (take n ps)) D @ filter (among (drop n ps)) D"
    by (rule filter_split [OF assms(1)]) (use lt in \<open>simp add: among_def\<close>)
  finally show ?thesis .
qed

lemma sorted_drop_lt: "sorted_wrt P ps \<Longrightarrow> sorted_wrt P (drop n ps)"
  by (metis append_take_drop_id sorted_wrt_append)

definition exact_rows :: "entry list \<Rightarrow> exact_stream \<Rightarrow> entry list" where
  "exact_rows D s = list_of (ex_peeked s) @ ex_buffer s @ filter (among (ex_paths s)) D"

lemma exact_advance_rows:
  "bt_ok t \<Longrightarrow> sorted_wrt (<) (ex_paths s) \<Longrightarrow>
    (case exact_advance ok t shard k s of
       Inl e \<Rightarrow> e = QueryFailed \<and> (\<exists>j. \<not> ok j)
     | Inr (s', k') \<Rightarrow> sorted_wrt (<) (ex_paths s') \<and> exact_rows (mirror t shard) s' = exact_rows (mirror t shard) s)"
proof (induction ok t shard k s rule: exact_advance.induct)
  case (1 ok t shard k s)
  let ?D = "mirror t shard" and ?n = "sql_chunk_size 1"
  let ?s = "s\<lparr>ex_paths := drop ?n (ex_paths s), ex_buffer := filter (among (take ?n (ex_paths s))) ?D\<rparr>"
  show ?case
  proof (cases "ex_peeked s = None \<and> ex_buffer s = [] \<and> ex_paths s \<noteq> [] \<and> ok k")
    case True
    then have step: "exact_advance ok t shard k s = exact_advance ok t shard (Suc k) ?s"
      unfolding exact_advance.simps [of ok t shard k s] by (simp add: Let_def exact_chunk_rows [OF 1(2)])
    have rows: "exact_rows ?D ?s = exact_rows ?D s"
      using True among_split [OF mirror_ascending [OF 1(2)] 1(3), where n = ?n] by (simp add: exact_rows_def)
    have "case exact_advance ok t shard (Suc k) ?s of
       Inl e \<Rightarrow> e = QueryFailed \<and> (\<exists>j. \<not> ok j)
     | Inr (s', k') \<Rightarrow> sorted_wrt (<) (ex_paths s') \<and> exact_rows ?D s' = exact_rows ?D ?s"
      by (rule 1(1) [OF _ _ _ refl refl _ 1(2), unfolded exact_chunk_rows [OF 1(2)]]) (use True 1(3) in \<open>simp_all add: sorted_drop_lt\<close>)
    then show ?thesis unfolding step rows .
  next
    case False
    then show ?thesis
      using 1(3) by (subst exact_advance.simps) (auto simp: exact_rows_def split: list.split)
  qed
qed

lemma exact_lower:
  assumes "ascending (exact_rows D s)" "sorted_wrt (<) (ex_paths s)"
  shows "exact_lower_bound s = None \<Longrightarrow> exact_rows D s = []"
    and "exact_lower_bound s = Some b \<Longrightarrow> e \<in> set (exact_rows D s) \<Longrightarrow> b \<le> pt e"
    and "ex_peeked s = Some row \<Longrightarrow> exact_lower_bound s = Some (pt row)"
proof -
  show "exact_rows D s = []" if "exact_lower_bound s = None"
    using that by (auto simp: exact_lower_bound_def exact_rows_def among_def split: option.splits list.splits)
  show "exact_lower_bound s = Some (pt row)" if "ex_peeked s = Some row"
    using that by (simp add: exact_lower_bound_def)
  show "b \<le> pt e" if b: "exact_lower_bound s = Some b" and e: "e \<in> set (exact_rows D s)"
  proof (cases "ex_peeked s = None \<and> ex_buffer s = []")
    case True
    then obtain ps where "ex_paths s = b # ps"
      using b by (auto simp: exact_lower_bound_def split: option.splits list.splits)
    then show ?thesis using assms(2) e True by (auto simp: exact_rows_def among_def intro: less_imp_le)
  next
    case False
    then obtain x xs where "exact_rows D s = x # xs" "b = pt x"
      using b by (auto simp: exact_lower_bound_def exact_rows_def split: option.splits list.splits)
    then show ?thesis using assms(1) e by (auto intro: less_imp_le)
  qed
qed

end
