(* ===== verification/QueryUnion.thy ===== *)
theory QueryUnion
  imports QueryCursors
begin

text \<open>The cursor over ranges and points yields the rows of both in path order.\<close>

definition holds :: "entry list \<Rightarrow> union_cursor \<Rightarrow> entry list \<Rightarrow> bool" where
  "holds D u L \<longleftrightarrow>
     frontier_ok (uc_ranges u) \<and> sorted_wrt (<) (ex_paths (uc_exact u))
     \<and> ascending (range_rows D (uc_ranges u)) \<and> ascending (exact_rows D (uc_exact u)) \<and> ascending L
     \<and> set L = set (range_rows D (uc_ranges u)) \<union> set (exact_rows D (uc_exact u))
     \<and> set (range_rows D (uc_ranges u)) \<inter> set (exact_rows D (uc_exact u)) = {}"

lemma holds_take_range:
  assumes "holds D u L" "rg_peeked (uc_ranges u) = Some row" "\<And>e. e \<in> set (exact_rows D (uc_exact u)) \<Longrightarrow> pt row \<le> pt e"
  shows "\<exists>L'. L = row # L' \<and> holds D (snd (take_range u)) L'"
proof -
  let ?u = "snd (take_range u)"
  have r: "range_rows D (uc_ranges u) = row # range_rows D (uc_ranges ?u)"
    and e: "uc_exact ?u = uc_exact u" and f: "frontier_ok (uc_ranges ?u) = frontier_ok (uc_ranges u)"
    using assms(2) by (simp_all add: take_range_def range_rows_def frontier_ok_def)
  have "pt row \<le> pt y" if "y \<in> set L" for y
    using assms(1,3) that unfolding holds_def r by (auto intro: less_imp_le)
  moreover have "row \<in> set L" "ascending L" using assms(1) unfolding holds_def r by simp_all
  ultimately obtain L' where L: "L = row # L'" "set L' = set L - {row}" using ascending_head [of L row] by blast
  have h: "frontier_ok (uc_ranges u)" "sorted_wrt (<) (ex_paths (uc_exact u))" "ascending (range_rows D (uc_ranges u))"
    "ascending (exact_rows D (uc_exact u))" "ascending L"
    "set L = set (range_rows D (uc_ranges u)) \<union> set (exact_rows D (uc_exact u))"
    "set (range_rows D (uc_ranges u)) \<inter> set (exact_rows D (uc_exact u)) = {}"
    using assms(1) by (simp_all add: holds_def)
  have new: "row \<notin> set (range_rows D (uc_ranges ?u))" using h(3) unfolding r by auto
  have "set L' = set (range_rows D (uc_ranges ?u)) \<union> set (exact_rows D (uc_exact ?u))"
    unfolding L(2) h(6) using new h(7) unfolding r e by auto
  moreover have "ascending L'" using h(5) unfolding L(1) by simp
  ultimately have "holds D ?u L'"
    unfolding holds_def e f using h(1-4,7) unfolding r by simp
  with L(1) show ?thesis by blast
qed

lemma holds_take_exact:
  assumes "holds D u L" "ex_peeked (uc_exact u) = Some row" "\<And>e. e \<in> set (range_rows D (uc_ranges u)) \<Longrightarrow> pt row \<le> pt e"
  shows "\<exists>L'. L = row # L' \<and> holds D (snd (take_exact u)) L'"
proof -
  let ?u = "snd (take_exact u)"
  have r: "exact_rows D (uc_exact u) = row # exact_rows D (uc_exact ?u)"
    and e: "uc_ranges ?u = uc_ranges u" and f: "ex_paths (uc_exact ?u) = ex_paths (uc_exact u)"
    using assms(2) by (simp_all add: take_exact_def exact_rows_def)
  have "pt row \<le> pt y" if "y \<in> set L" for y
    using assms(1,3) that unfolding holds_def r by (auto intro: less_imp_le)
  moreover have "row \<in> set L" "ascending L" using assms(1) unfolding holds_def r by simp_all
  ultimately obtain L' where L: "L = row # L'" "set L' = set L - {row}" using ascending_head [of L row] by blast
  have h: "frontier_ok (uc_ranges u)" "sorted_wrt (<) (ex_paths (uc_exact u))" "ascending (range_rows D (uc_ranges u))"
    "ascending (exact_rows D (uc_exact u))" "ascending L"
    "set L = set (range_rows D (uc_ranges u)) \<union> set (exact_rows D (uc_exact u))"
    "set (range_rows D (uc_ranges u)) \<inter> set (exact_rows D (uc_exact u)) = {}"
    using assms(1) by (simp_all add: holds_def)
  have new: "row \<notin> set (exact_rows D (uc_exact ?u))" using h(4) unfolding r by auto
  have "set L' = set (range_rows D (uc_ranges ?u)) \<union> set (exact_rows D (uc_exact ?u))"
    unfolding L(2) h(6) using new h(7) unfolding r e by auto
  moreover have "ascending L'" using h(5) unfolding L(1) by simp
  ultimately have "holds D ?u L'"
    unfolding holds_def e f using h(1-4,7) unfolding r by simp
  with L(1) show ?thesis by blast
qed

lemma holds_ranges:
  assumes "bt_ok t" "holds (mirror t shard) u L"
  shows "case range_advance ok t shard k (uc_ranges u) of
       Inl e \<Rightarrow> e = QueryFailed \<and> (\<exists>j. \<not> ok j)
     | Inr (r, k') \<Rightarrow> holds (mirror t shard) (u\<lparr>uc_ranges := r\<rparr>) L \<and> (rg_peeked r \<noteq> None \<or> range_lower_bound r = None)"
proof -
  have "frontier_ok (uc_ranges u)" using assms(2) by (simp add: holds_def)
  from range_advance_rows [OF assms(1) this, of ok shard k] range_advance_settles [of ok t shard k "uc_ranges u"] assms(2)
  show ?thesis by (auto simp: holds_def split: sum.splits)
qed

lemma holds_exact:
  assumes "bt_ok t" "holds (mirror t shard) u L"
  shows "case exact_advance ok t shard k (uc_exact u) of
       Inl e \<Rightarrow> e = QueryFailed \<and> (\<exists>j. \<not> ok j)
     | Inr (r, k') \<Rightarrow> holds (mirror t shard) (u\<lparr>uc_exact := r\<rparr>) L \<and> (ex_peeked r \<noteq> None \<or> exact_lower_bound r = None)"
proof -
  have "sorted_wrt (<) (ex_paths (uc_exact u))" using assms(2) by (simp add: holds_def)
  from exact_advance_rows [OF assms(1) this, of ok shard k] exact_advance_settles [of ok t shard k "uc_exact u"] assms(2)
  show ?thesis by (auto simp: holds_def split: sum.splits)
qed

text \<open>What a step of a cursor may answer when the rows of \<open>L\<close> are still to come.\<close>

definition yields :: "(nat \<Rightarrow> bool) \<Rightarrow> ('c \<Rightarrow> entry list \<Rightarrow> bool) \<Rightarrow> entry list \<Rightarrow> state_store_error + (entry option \<times> 'c \<times> nat) \<Rightarrow> bool" where
  "yields ok h L result \<longleftrightarrow>
     (case result of
        Inl e \<Rightarrow> e = QueryFailed \<and> (\<exists>j. \<not> ok j)
      | Inr (None, c, k) \<Rightarrow> L = []
      | Inr (Some row, c, k) \<Rightarrow> \<exists>L'. L = row # L' \<and> h c L')"

lemma yields_take_range:
  assumes "holds D u L" "rg_peeked (uc_ranges u) \<noteq> None \<or> range_lower_bound (uc_ranges u) = None"
    "\<And>row e. rg_peeked (uc_ranges u) = Some row \<Longrightarrow> e \<in> set (exact_rows D (uc_exact u)) \<Longrightarrow> pt row \<le> pt e"
    "rg_peeked (uc_ranges u) = None \<Longrightarrow> exact_rows D (uc_exact u) = []"
  shows "yields ok (holds D) L (Ok (case take_range u of (row, u) \<Rightarrow> (row, u, k)))"
proof (cases "rg_peeked (uc_ranges u)")
  case None
  then have "range_rows D (uc_ranges u) = []" using assms(1,2) range_lower(1) by (auto simp: holds_def)
  then have "L = []" using assms(1,4) None by (simp add: holds_def)
  then show ?thesis using None by (simp add: yields_def take_range_def)
next
  case (Some row)
  from holds_take_range [OF assms(1) Some assms(3) [OF Some]] Some show ?thesis
    by (simp add: yields_def take_range_def)
qed

lemma yields_take_exact:
  assumes "holds D u L" "ex_peeked (uc_exact u) \<noteq> None \<or> exact_lower_bound (uc_exact u) = None"
    "\<And>row e. ex_peeked (uc_exact u) = Some row \<Longrightarrow> e \<in> set (range_rows D (uc_ranges u)) \<Longrightarrow> pt row \<le> pt e"
    "ex_peeked (uc_exact u) = None \<Longrightarrow> range_rows D (uc_ranges u) = []"
  shows "yields ok (holds D) L (Ok (case take_exact u of (row, u) \<Rightarrow> (row, u, k)))"
proof (cases "ex_peeked (uc_exact u)")
  case None
  then have "exact_rows D (uc_exact u) = []" using assms(1,2) exact_lower(1) by (auto simp: holds_def)
  then have "L = []" using assms(1,4) None by (simp add: holds_def)
  then show ?thesis using None by (simp add: yields_def take_exact_def)
next
  case (Some row)
  from holds_take_exact [OF assms(1) Some assms(3) [OF Some]] Some show ?thesis
    by (simp add: yields_def take_exact_def)
qed

lemma union_next_row_yields:
  "bt_ok t \<Longrightarrow> holds (mirror t shard) u L \<Longrightarrow> yields ok (holds (mirror t shard)) L (union_next_row ok t shard k u)"
proof (induction ok t shard k u arbitrary: L rule: union_next_row.induct)
  case (1 ok t shard k u)
  let ?D = "mirror t shard" and ?rb = "range_lower_bound (uc_ranges u)" and ?eb = "exact_lower_bound (uc_exact u)"
  have h: "frontier_ok (uc_ranges u)" "sorted_wrt (<) (ex_paths (uc_exact u))"
    "ascending (range_rows ?D (uc_ranges u))" "ascending (exact_rows ?D (uc_exact u))"
    "set L = set (range_rows ?D (uc_ranges u)) \<union> set (exact_rows ?D (uc_exact u))"
    using 1(4) by (simp_all add: holds_def)
  note rl = range_lower [OF h(3,1)] and el = exact_lower [OF h(4,2)]
  note hr = holds_ranges [OF 1(3,4), of ok k] and he = holds_exact [OF 1(3,4), of ok k]
  note step = union_next_row.simps [of ok t shard k u]
  consider (none) "?rb = None" "?eb = None" | (ranges) rb where "?rb = Some rb" "?eb = None"
    | (exact) eb where "?rb = None" "?eb = Some eb" | (both) rb eb where "?rb = Some rb" "?eb = Some eb"
    by (cases ?rb; cases ?eb) auto
  then show ?case
  proof cases
    case none
    then have "L = []" using rl(1) el(1) h(5) by simp
    then show ?thesis unfolding step by (simp add: none yields_def)
  next
    case (ranges rb)
    have B: "exact_rows ?D (uc_exact u) = []" by (rule el(1) [OF ranges(2)])
    show ?thesis
    proof (cases "range_advance ok t shard k (uc_ranges u)")
      case (Inl e)
      then show ?thesis using hr unfolding step by (simp add: ranges yields_def)
    next
      case (Inr x)
      obtain r k' where x: "x = (r, k')" by (cases x)
      have "holds ?D (u\<lparr>uc_ranges := r\<rparr>) L" "rg_peeked r \<noteq> None \<or> range_lower_bound r = None" using hr by (simp_all add: Inr x)
      from yields_take_range [OF this(1), of ok k'] this(2) B
      show ?thesis unfolding step by (simp add: ranges Inr x)
    qed
  next
    case (exact eb)
    have A: "range_rows ?D (uc_ranges u) = []" by (rule rl(1) [OF exact(1)])
    show ?thesis
    proof (cases "exact_advance ok t shard k (uc_exact u)")
      case (Inl e)
      then show ?thesis using he unfolding step by (simp add: exact yields_def)
    next
      case (Inr x)
      obtain r k' where x: "x = (r, k')" by (cases x)
      have "holds ?D (u\<lparr>uc_exact := r\<rparr>) L" "ex_peeked r \<noteq> None \<or> exact_lower_bound r = None" using he by (simp_all add: Inr x)
      from yields_take_exact [OF this(1), of ok k'] this(2) A
      show ?thesis unfolding step by (simp add: exact Inr x)
    qed
  next
    case (both rb eb)
    consider (range) "rg_peeked (uc_ranges u) \<noteq> None \<and> rb \<le> eb"
      | (exact) "\<not> (rg_peeked (uc_ranges u) \<noteq> None \<and> rb \<le> eb)" "ex_peeked (uc_exact u) \<noteq> None \<and> eb \<le> rb"
      | (advance_range) "\<not> (rg_peeked (uc_ranges u) \<noteq> None \<and> rb \<le> eb)" "\<not> (ex_peeked (uc_exact u) \<noteq> None \<and> eb \<le> rb)" "rb \<le> eb"
      | (advance_exact) "\<not> (rg_peeked (uc_ranges u) \<noteq> None \<and> rb \<le> eb)" "\<not> (ex_peeked (uc_exact u) \<noteq> None \<and> eb \<le> rb)" "\<not> rb \<le> eb"
      by blast
    then show ?thesis
    proof cases
      case range
      have "pt row \<le> pt e" if "rg_peeked (uc_ranges u) = Some row" "e \<in> set (exact_rows ?D (uc_exact u))" for row e
        using rl(3) [OF that(1)] el(2) [OF both(2) that(2)] both(1) range by (auto intro: order.trans)
      from yields_take_range [OF 1(4) _ this, of ok k] range show ?thesis unfolding step both by auto
    next
      case exact
      have "pt row \<le> pt e" if "ex_peeked (uc_exact u) = Some row" "e \<in> set (range_rows ?D (uc_ranges u))" for row e
        using el(3) [OF that(1)] rl(2) [OF both(1) that(2)] both(2) exact(2) by (auto intro: order.trans)
      from yields_take_exact [OF 1(4) _ this, of ok k] exact show ?thesis unfolding step both by auto
    next
      case advance_range
      show ?thesis
      proof (cases "range_advance ok t shard k (uc_ranges u)")
        case (Inl e)
        then show ?thesis using hr advance_range unfolding step both by (auto simp: yields_def)
      next
        case (Inr x)
        obtain r k' where x: "x = (r, k')" by (cases x)
        have "holds ?D (u\<lparr>uc_ranges := r\<rparr>) L" using hr by (simp add: Inr x)
        from 1(1) [OF _ both advance_range Inr x [symmetric] 1(3) this] both
        show ?thesis unfolding step using advance_range Inr x by auto
      qed
    next
      case advance_exact
      show ?thesis
      proof (cases "exact_advance ok t shard k (uc_exact u)")
        case (Inl e)
        then show ?thesis using he advance_exact unfolding step both by (auto simp: yields_def)
      next
        case (Inr x)
        obtain r k' where x: "x = (r, k')" by (cases x)
        have "holds ?D (u\<lparr>uc_exact := r\<rparr>) L" using he by (simp add: Inr x)
        from 1(2) [OF _ both advance_exact Inr x [symmetric] 1(3) this] both
        show ?thesis unfolding step using advance_exact Inr x by auto
      qed
    qed
  qed
qed

end
