(* ===== verification/QueryPlan.thy ===== *)
theory QueryPlan
  imports QueryUnion
begin

text \<open>The plan of a union: what the coalesced ranges cover, and which points are kept beside them.\<close>

definition covers :: "lexical_range \<Rightarrow> str \<Rightarrow> bool" where
  "covers r s \<longleftrightarrow> lr_lower r \<le> s \<and> below_upper s (lr_upper r)"

lemma within_covers: "within r e = covers r (pt e)"
  by (simp add: within_def covers_def)

lemma cmp_upper_Less: "cmp_upper a b = Less \<longleftrightarrow> (\<exists>u. a = Some u \<and> (\<forall>v. b = Some v \<longrightarrow> u < v))"
  by (cases a; cases b) (auto simp: cmp_def)

lemma below_upper_less: "cmp_upper a b = Less \<Longrightarrow> below_upper s a \<Longrightarrow> below_upper s b"
  by (cases b) (auto simp: cmp_upper_Less below_upper_def intro: order.strict_trans)

lemma below_upper_not_less: "cmp_upper a b \<noteq> Less \<Longrightarrow> below_upper s b \<Longrightarrow> below_upper s a"
  by (cases a; cases b) (auto simp: cmp_def below_upper_def split: if_splits)

definition separate :: "lexical_range \<Rightarrow> lexical_range \<Rightarrow> bool" where
  "separate a b \<longleftrightarrow> lr_lower a \<le> lr_lower b \<and> (\<exists>u. lr_upper a = Some u \<and> u < lr_lower b)"

definition widened :: "lexical_range \<Rightarrow> lexical_range \<Rightarrow> lexical_range" where
  "widened a b = (if cmp_upper (lr_upper a) (lr_upper b) = Less then a\<lparr>lr_upper := lr_upper b\<rparr> else a)"

lemma covers_widened:
  assumes "lr_lower a \<le> lr_lower b" "ranges_overlap_or_touch a b"
  shows "covers (widened a b) s \<longleftrightarrow> covers a s \<or> covers b s"
proof (cases "cmp_upper (lr_upper a) (lr_upper b) = Less")
  case True
  then obtain u where u: "lr_upper a = Some u" by (auto simp: cmp_upper_Less)
  then have "lr_lower b \<le> u" using assms(2) by (simp add: ranges_overlap_or_touch_def)
  then have "lr_lower b \<le> s \<or> below_upper s (lr_upper a)" unfolding u by (auto simp: below_upper_def intro: order.trans)
  then show ?thesis
    using True assms(1) below_upper_less [OF True, of s] unfolding widened_def covers_def by (auto intro: order.trans)
next
  case False
  then show ?thesis
    using assms(1) below_upper_not_less [OF False, of s] unfolding widened_def covers_def by (auto intro: order.trans)
qed

lemma dedup_ranges_covers:
  "sorted (map lr_lower (p # rs)) \<Longrightarrow>
     (\<forall>s. (\<exists>r \<in> set (dedup_ranges p rs). covers r s) \<longleftrightarrow> (\<exists>r \<in> set (p # rs). covers r s))
     \<and> sorted_wrt separate (dedup_ranges p rs) \<and> (\<forall>r \<in> set (dedup_ranges p rs). lr_lower p \<le> lr_lower r)"
proof (induction p rs rule: dedup_ranges.induct)
  case (2 p rng rs)
  show ?case
  proof (cases "ranges_overlap_or_touch p rng")
    case True
    let ?w = "widened p rng"
    have lower: "lr_lower ?w = lr_lower p" by (simp add: widened_def)
    have step: "dedup_ranges p (rng # rs) = dedup_ranges ?w rs" using True by (simp add: widened_def)
    have "sorted (map lr_lower (?w # rs))" using 2(3) lower by (auto intro: order.trans)
    with 2(2) [OF _ this [unfolded widened_def]] True
    have ih: "(\<forall>s. (\<exists>r \<in> set (dedup_ranges ?w rs). covers r s) \<longleftrightarrow> (\<exists>r \<in> set (?w # rs). covers r s))
     \<and> sorted_wrt separate (dedup_ranges ?w rs) \<and> (\<forall>r \<in> set (dedup_ranges ?w rs). lr_lower ?w \<le> lr_lower r)"
      by (simp add: widened_def)
    have "covers ?w s \<longleftrightarrow> covers p s \<or> covers rng s" for s
      by (rule covers_widened) (use 2(3) True in simp_all)
    with ih show ?thesis unfolding step lower by simp
  next
    case False
    then obtain u where u: "lr_upper p = Some u" "u < lr_lower rng"
      by (auto simp: ranges_overlap_or_touch_def split: option.splits)
    have low: "lr_lower p \<le> lr_lower rng" using 2(3) by simp
    have "sorted (map lr_lower (rng # rs))" using 2(3) by simp
    note ih = 2(1) [OF False this]
    then show ?thesis using False u low by (auto simp: separate_def intro: order.trans order.strict_trans2)
  qed
qed simp

lemma sorted_sort_ranges: "sorted (map lr_lower (sort_ranges rs))" "set (sort_ranges rs) = set rs"
  by (simp_all add: sort_ranges_def)

lemma coalesce_ranges_covers:
  "(\<forall>s. (\<exists>r \<in> set (coalesce_ranges rs). covers r s) \<longleftrightarrow> (\<exists>r \<in> set rs. covers r s)) \<and> sorted_wrt separate (coalesce_ranges rs)"
proof (cases "sort_ranges rs")
  case Nil
  then show ?thesis using sorted_sort_ranges(2) [of rs] by (simp add: coalesce_ranges_def)
next
  case (Cons p ps)
  have "sorted (map lr_lower (p # ps))" using sorted_sort_ranges(1) [of rs] unfolding Cons .
  from dedup_ranges_covers [OF this] show ?thesis
    unfolding coalesce_ranges_def Cons list.case using sorted_sort_ranges(2) [of rs] unfolding Cons by blast
qed

lemma separate_lowers: "sorted_wrt separate rs \<Longrightarrow> sorted (map lr_lower rs)"
  by (simp add: sorted_map) (auto simp: separate_def elim: sorted_wrt_mono_rel [rotated])

lemma retain_uncovered:
  "sorted exact \<Longrightarrow> sorted (map lr_lower rs) \<Longrightarrow>
     retain_uncovered_exacts exact rs = filter (\<lambda>p. \<not> (\<exists>r \<in> set rs. covers r p)) exact"
proof (induction exact rs rule: retain_uncovered_exacts.induct)
  case (2 path exact ranges)
  let ?P = "\<lambda>rng. case lr_upper rng of Some upper \<Rightarrow> path \<ge> upper | None \<Rightarrow> False"
  define rs where "rs = dropWhile ?P ranges"
  have gone: "\<not> covers r p" if "r \<in> set (takeWhile ?P ranges)" "path \<le> p" for r p
    using set_takeWhileD [OF that(1)] that(2) by (auto simp: covers_def below_upper_def split: option.splits dest: order.trans)
  have split: "set ranges = set (takeWhile ?P ranges) \<union> set rs"
    unfolding rs_def by (metis set_append takeWhile_dropWhile_id)
  have same: "(\<exists>r \<in> set rs. covers r p) \<longleftrightarrow> (\<exists>r \<in> set ranges. covers r p)" if "path \<le> p" for p
    using gone [OF _ that] unfolding split by blast
  have srt: "sorted (map lr_lower rs)"
    using 2(5) unfolding rs_def by (metis map_append sorted_append takeWhile_dropWhile_id)
  have later: "filter (\<lambda>p. \<not> (\<exists>r \<in> set rs. covers r p)) exact = filter (\<lambda>p. \<not> (\<exists>r \<in> set ranges. covers r p)) exact"
    by (rule filter_cong) (use same 2(4) in auto)
  have ex: "sorted exact" using 2(4) by simp
  note def = retain_uncovered_exacts.simps(2) [of path exact ranges, folded rs_def, unfolded Let_def]
  show ?case
  proof (cases rs)
    case Nil
    then show ?thesis
      using 2(1) [OF rs_def Nil ex] srt later same [of path] unfolding def Nil by simp
  next
    case (Cons rng rest)
    have up: "below_upper path (lr_upper rng)"
      using hd_dropWhile [of ?P ranges, folded rs_def] Cons by (auto simp: below_upper_def split: option.splits)
    have cov: "(\<exists>r \<in> set rs. covers r path) \<longleftrightarrow> covers rng path"
      using srt up unfolding Cons by (auto simp: covers_def dest: order.trans)
    show ?thesis
    proof (cases "lr_lower rng \<le> path")
      case True
      then have "covers rng path" using up by (simp add: covers_def)
      then show ?thesis
        using 2(2) [OF rs_def Cons _ ex] srt True up later same [of path] cov unfolding def by (simp add: Cons)
    next
      case False
      then have "\<not> covers rng path" by (simp add: covers_def)
      then show ?thesis
        using 2(3) [OF rs_def Cons _ ex] srt False later same [of path] cov unfolding def by (simp add: Cons)
    qed
  qed
qed simp

end
