(* ===== verification/QueryCorrect.thy ===== *)
theory QueryCorrect
  imports QueryPlan
begin

text \<open>
  The rows a query yields are the mirror's rows in path order that its selection selects: the spans miss
  none of them, the cursors repeat none, and the enumeration ends.
\<close>

section \<open>Spans\<close>

fun span_admits :: "desired_span \<Rightarrow> gat_path \<Rightarrow> bool" where
  "span_admits SpanAll p = True"
| "span_admits SpanEmpty p = False"
| "span_admits (SpanScope s) p = in_scope_range (Some s) p"
| "span_admits (SpanExact ps) p = (p \<in> set ps)"
| "span_admits (SpanUnion plan) p = ((\<exists>r \<in> set (up_ranges plan). covers r (as_str p)) \<or> as_str p \<in> set (up_exact plan))"

definition plan_ok :: "union_plan \<Rightarrow> bool" where
  "plan_ok plan \<longleftrightarrow>
     sorted_wrt separate (up_ranges plan) \<and> sorted_wrt (<) (up_exact plan)
     \<and> (\<forall>p \<in> set (up_exact plan). \<not> (\<exists>r \<in> set (up_ranges plan). covers r p))"

definition span_ok :: "desired_span \<Rightarrow> bool" where
  "span_ok span \<longleftrightarrow> (\<forall>plan. span = SpanUnion plan \<longrightarrow> plan_ok plan)"

lemma separate_rows:
  assumes "ascending D" "sorted_wrt separate rs"
  shows "concat (map (\<lambda>r. filter (within r) D) rs) = filter (\<lambda>e. \<exists>r \<in> set rs. covers r (pt e)) D"
  using assms(2)
proof (induction rs)
  case (Cons r rs)
  have "pt a < pt b" if "covers r (pt a)" "\<exists>r' \<in> set rs. covers r' (pt b)" for a b
    using that Cons.prems by (auto simp: covers_def separate_def below_upper_def)
  then have "filter (\<lambda>e. covers r (pt e) \<or> (\<exists>r' \<in> set rs. covers r' (pt e))) D
      = filter (within r) D @ filter (\<lambda>e. \<exists>r' \<in> set rs. covers r' (pt e)) D"
    unfolding within_covers [abs_def] by (intro filter_split [OF assms(1)]) simp
  then show ?case using Cons by simp
qed simp

lemma union_open_holds:
  assumes "bt_ok t" "plan_ok plan"
  shows "holds (mirror t shard) (union_open plan) (filter (\<lambda>e. span_admits (SpanUnion plan) (entry_path e)) (mirror t shard))"
proof -
  let ?D = "mirror t shard"
  note D = mirror_ascending [OF assms(1), of shard]
  have p: "sorted_wrt separate (up_ranges plan)" "sorted_wrt (<) (up_exact plan)"
    "\<And>p r. p \<in> set (up_exact plan) \<Longrightarrow> r \<in> set (up_ranges plan) \<Longrightarrow> \<not> covers r p"
    using assms(2) by (auto simp: plan_ok_def)
  have r: "range_rows ?D (uc_ranges (union_open plan)) = filter (\<lambda>e. \<exists>r \<in> set (up_ranges plan). covers r (pt e)) ?D"
    by (simp add: union_open_def range_rows_def ahead_None separate_rows [OF D p(1)])
  have e: "exact_rows ?D (uc_exact (union_open plan)) = filter (among (up_exact plan)) ?D"
    by (simp add: union_open_def exact_rows_def)
  show ?thesis
    unfolding holds_def r e
    using p separate_lowers [OF p(1)] ascending_filter [OF D]
    by (auto simp: union_open_def frontier_ok_def among_def)
qed

section \<open>Sources\<close>

definition cursor_rows :: "entry list \<Rightarrow> exact_cursor \<Rightarrow> entry list \<Rightarrow> bool" where
  "cursor_rows D c L \<longleftrightarrow> sorted_wrt (<) (ec_paths c) \<and> L = ec_buffer c @ filter (among (ec_paths c)) D"

lemma exact_next_row_yields:
  "bt_ok t \<Longrightarrow> cursor_rows (mirror t shard) c L \<Longrightarrow> yields ok (cursor_rows (mirror t shard)) L (exact_next_row ok t shard k c)"
proof (induction ok t shard k c rule: exact_next_row.induct)
  case (1 ok t shard k s)
  let ?D = "mirror t shard" and ?n = "sql_chunk_size 1"
  let ?s = "s\<lparr>ec_paths := drop ?n (ec_paths s), ec_buffer := filter (among (take ?n (ec_paths s))) ?D\<rparr>"
  show ?case
  proof (cases "ec_buffer s = [] \<and> ec_paths s \<noteq> [] \<and> ok k")
    case True
    then have step: "exact_next_row ok t shard k s = exact_next_row ok t shard (Suc k) ?s"
      unfolding exact_next_row.simps [of ok t shard k s] by (simp add: Let_def exact_chunk_rows [OF 1(2)])
    have "cursor_rows ?D ?s L"
      using 1(3) True among_split [OF mirror_ascending [OF 1(2)], of "ec_paths s" shard ?n]
      by (simp add: cursor_rows_def sorted_drop_lt)
    then show ?thesis
      unfolding step by (intro 1(1) [OF _ _ refl refl _ 1(2), unfolded exact_chunk_rows [OF 1(2)]]) (use True in simp_all)
  next
    case False
    then show ?thesis
      using 1(3) by (subst exact_next_row.simps) (auto simp: yields_def cursor_rows_def among_def split: list.split)
  qed
qed

fun source_rows :: "entry list \<Rightarrow> row_source \<Rightarrow> entry list \<Rightarrow> bool" where
  "source_rows D (RangeRows rows) L = (L = rows)"
| "source_rows D (ExactRows c) L = cursor_rows D c L"
| "source_rows D (UnionRows u) L = holds D u L"

lemma yields_map:
  "yields ok h L x \<Longrightarrow> (\<And>c L. h c L \<Longrightarrow> h' (f c) L) \<Longrightarrow> yields ok h' L (map_ok (\<lambda>(row, c, k). (row, f c, k)) x)"
  by (cases x) (auto simp: yields_def split: option.splits)

lemma source_next_yields:
  "bt_ok t \<Longrightarrow> source_rows (mirror t shard) s L \<Longrightarrow> yields ok (source_rows (mirror t shard)) L (source_next ok t shard k s)"
proof (cases s)
  case (RangeRows rows)
  then show "source_rows (mirror t shard) s L \<Longrightarrow> ?thesis" by (cases rows) (auto simp: yields_def)
next
  case (ExactRows c)
  then show "bt_ok t \<Longrightarrow> source_rows (mirror t shard) s L \<Longrightarrow> ?thesis"
    by (simp, intro yields_map [OF exact_next_row_yields]) simp_all
next
  case (UnionRows c)
  then show "bt_ok t \<Longrightarrow> source_rows (mirror t shard) s L \<Longrightarrow> ?thesis"
    by (simp, intro yields_map [OF union_next_row_yields]) simp_all
qed

section \<open>The loops\<close>

definition passes :: "('p \<Rightarrow> str \<Rightarrow> bool) \<Rightarrow> 'p desired_query \<Rightarrow> entry \<Rightarrow> bool" where
  "passes mw q e \<longleftrightarrow> (\<forall>sel. dq_residual q = Some sel \<longrightarrow> selection_matches mw sel (entry_path e))"

lemma rows_next_yields:
  assumes "bt_ok t"
  shows "source_rows (mirror t (dq_shard q)) s L \<Longrightarrow> length L < fuel \<Longrightarrow>
    \<exists>result. rows_next mw ok t q fuel k s = Some result
      \<and> yields ok (\<lambda>s' M. \<exists>L'. M = filter (passes mw q) L' \<and> source_rows (mirror t (dq_shard q)) s' L' \<and> length L' < length L)
          (filter (passes mw q) L) result"
proof (induction fuel arbitrary: k s L)
  case (Suc fuel)
  note y = source_next_yields [OF assms Suc.prems(1), of ok k]
  show ?case
  proof (cases "source_next ok t (dq_shard q) k s")
    case (Inl e)
    with y show ?thesis by (simp add: yields_def)
  next
    case (Inr x)
    obtain row s' k' where x: "x = (row, s', k')" by (cases x)
    show ?thesis
    proof (cases row)
      case None
      with y show ?thesis by (simp add: yields_def Inr x)
    next
      case (Some e)
      then obtain L' where L': "L = e # L'" "source_rows (mirror t (dq_shard q)) s' L'" using y by (auto simp: yields_def Inr x)
      show ?thesis
      proof (cases "passes mw q e")
        case True
        then show ?thesis using L' by (auto simp: yields_def Inr x Some passes_def split: option.splits)
      next
        case False
        then obtain sel where sel: "dq_residual q = Some sel" "\<not> selection_matches mw sel (entry_path e)"
          by (auto simp: passes_def)
        have "length L' < fuel" using Suc.prems(2) L'(1) by simp
        from Suc.IH [OF L'(2) this, of k'] False show ?thesis
          using sel L'(1) by (fastforce simp: yields_def Inr x Some split: sum.splits option.splits)
      qed
    qed
  qed
qed simp

lemma collect_rows_ends:
  assumes "bt_ok t"
  shows "source_rows (mirror t (dq_shard q)) s L \<Longrightarrow> length L < fuel \<Longrightarrow>
    collect_rows mw ok t q fuel entries k s = Some (Ok (entries @ filter (passes mw q) L))
    \<or> ((\<exists>j. \<not> ok j) \<and> collect_rows mw ok t q fuel entries k s = Some (Err QueryFailed))"
proof (induction fuel arbitrary: k s L entries)
  case (Suc fuel)
  from rows_next_yields [OF assms Suc.prems, of mw ok k] obtain result where
    r: "rows_next mw ok t q (Suc fuel) k s = Some result"
    "yields ok (\<lambda>s' M. \<exists>L'. M = filter (passes mw q) L' \<and> source_rows (mirror t (dq_shard q)) s' L' \<and> length L' < length L)
          (filter (passes mw q) L) result" by blast
  show ?case
  proof (cases result)
    case (Inl e)
    with r show ?thesis by (auto simp: yields_def)
  next
    case (Inr x)
    obtain row s' k' where x: "x = (row, s', k')" by (cases x)
    show ?thesis
    proof (cases row)
      case None
      with r show ?thesis by (simp add: yields_def Inr x)
    next
      case (Some e)
      then obtain L' where L': "filter (passes mw q) L = e # filter (passes mw q) L'" "source_rows (mirror t (dq_shard q)) s' L'"
        "length L' < length L" using r(2) by (auto simp: yields_def Inr x)
      have "length L' < fuel" using Suc.prems(2) L'(3) by simp
      from Suc.IH [OF L'(2) this, of "entries @ [e]" k'] show ?thesis
        by (simp add: r(1) Inr x Some L'(1) del: rows_next.simps)
    qed
  qed
qed simp

section \<open>Reading\<close>

definition rows_of :: "('p \<Rightarrow> str \<Rightarrow> bool) \<Rightarrow> table \<Rightarrow> 'p desired_query \<Rightarrow> entry list" where
  "rows_of mw t q = filter (passes mw q) (filter (\<lambda>e. span_admits (dq_span q) (entry_path e)) (mirror t (dq_shard q)))"

lemma path_sort_set: "set (remdups_adj (sort ps)) = set ps" "sorted_wrt (<) (remdups_adj (sort (ps :: str list)))"
proof -
  have "sorted_wrt (<) (remdups_adj qs)" if "sorted qs" for qs :: "str list"
    using that by (induction qs rule: remdups_adj.induct) (auto intro: order.strict_trans1 simp: le_less)
  from this [of "sort ps"] show "sorted_wrt (<) (remdups_adj (sort ps))" by simp
qed simp

lemma range_sql_rows: "bt_ok t \<Longrightarrow> range_sql t scope shard = filter (\<lambda>e. in_scope_range scope (entry_path e)) (mirror t shard)"
  unfolding range_sql_def by (rule rows_where)

text \<open>The source a query opens stands for the rows its span admits.\<close>

lemma with_desired_rows_opens:
  assumes "bt_ok t" "span_ok (dq_span q)"
    and "\<And>k s. source_rows (mirror t (dq_shard q)) s (filter (\<lambda>e. span_admits (dq_span q) (entry_path e)) (mirror t (dq_shard q))) \<Longrightarrow> P (f k s)"
    and "\<exists>j. \<not> ok j \<Longrightarrow> P (Some (Err QueryFailed))"
  shows "P (with_desired_rows_on ok t q f)"
proof (cases "dq_span q")
  case SpanAll
  then show ?thesis
    using assms(3) [of "RangeRows (range_sql t None (dq_shard q))" 1] assms(4)
    by (auto simp: with_desired_rows_on_def range_sql_rows [OF assms(1)] in_scope_range_def)
next
  case SpanEmpty
  then show ?thesis
    using assms(3) [of "ExactRows \<lparr>ec_paths = [], ec_buffer = []\<rparr>" 0]
    by (simp add: with_desired_rows_on_def cursor_rows_def among_def)
next
  case (SpanScope s)
  then show ?thesis
    using assms(3) [of "RangeRows (range_sql t (Some s) (dq_shard q))" 1] assms(4)
    by (auto simp: with_desired_rows_on_def range_sql_rows [OF assms(1)])
next
  case (SpanExact ps)
  have "filter (among (remdups_adj (sort (map as_str ps)))) D = filter (\<lambda>e. entry_path e \<in> set ps) D" for D
    by (rule filter_cong) (auto simp: among_def path_sort_set(1) dest: gat_path.expand)
  then show ?thesis
    using assms(3) [of "ExactRows \<lparr>ec_paths = remdups_adj (sort (map as_str ps)), ec_buffer = []\<rparr>" 0] SpanExact
    by (simp add: with_desired_rows_on_def cursor_rows_def path_sort_set(2))
next
  case (SpanUnion plan)
  then have "plan_ok plan" using assms(2) by (simp add: span_ok_def)
  from union_open_holds [OF assms(1) this] SpanUnion show ?thesis
    using assms(3) [of "UnionRows (union_open plan)" 0] by (simp add: with_desired_rows_on_def)
qed

lemma mirror_length: "bt_ok t \<Longrightarrow> length (mirror t shard) \<le> length t"
  unfolding mirror_def desired_rows_where_def by (simp add: sort_bt)

lemma admitted_length:
  assumes "bt_ok t" "length t < fuel"
  shows "length (filter P (mirror t shard)) < fuel"
  using le_less_trans [OF order.trans [OF length_filter_le mirror_length [OF assms(1)]] assms(2)] .

lemma desired_rows_on_rows:
  assumes "bt_ok t" "span_ok (dq_span q)" "length t < fuel"
  shows "desired_rows_on fuel mw ok t q = Some (Ok (rows_of mw t q))
    \<or> ((\<exists>j. \<not> ok j) \<and> desired_rows_on fuel mw ok t q = Some (Err QueryFailed))"
  unfolding desired_rows_on_def
proof (rule with_desired_rows_opens [OF assms(1,2)], goal_cases)
  case (1 k s)
  from collect_rows_ends [OF assms(1) 1 admitted_length [OF assms(1,3)], of mw ok "[]" k]
  show ?case by (simp add: rows_of_def)
qed simp

lemma desired_any_on_rows:
  assumes "bt_ok t" "span_ok (dq_span q)" "length t < fuel"
  shows "desired_any_on fuel mw ok t q = Some (Ok (rows_of mw t q \<noteq> []))
    \<or> ((\<exists>j. \<not> ok j) \<and> desired_any_on fuel mw ok t q = Some (Err QueryFailed))"
  unfolding desired_any_on_def
proof (rule with_desired_rows_opens [OF assms(1,2)], goal_cases)
  case (1 k s)
  from rows_next_yields [OF assms(1) 1 admitted_length [OF assms(1,3)], of mw ok k] obtain result where
    r: "rows_next mw ok t q fuel k s = Some result" "yields ok (\<lambda>s' M. True) (rows_of mw t q) result"
    unfolding rows_of_def yields_def by (fastforce split: sum.splits option.splits)
  then show ?case by (cases result) (auto simp: yields_def split: option.splits)
qed simp

lemma count_rows_ends:
  assumes "bt_ok t"
  shows "source_rows (mirror t (dq_shard q)) s L \<Longrightarrow> length L < fuel \<Longrightarrow>
    count_rows mw ok t q fuel n k s = Some (Ok (n + of_nat (length (filter (passes mw q) L))))
    \<or> ((\<exists>j. \<not> ok j) \<and> count_rows mw ok t q fuel n k s = Some (Err QueryFailed))"
proof (induction fuel arbitrary: k s L n)
  case (Suc fuel)
  from rows_next_yields [OF assms Suc.prems, of mw ok k] obtain result where
    r: "rows_next mw ok t q (Suc fuel) k s = Some result"
    "yields ok (\<lambda>s' M. \<exists>L'. M = filter (passes mw q) L' \<and> source_rows (mirror t (dq_shard q)) s' L' \<and> length L' < length L)
          (filter (passes mw q) L) result" by blast
  show ?case
  proof (cases result)
    case (Inl e)
    with r show ?thesis by (auto simp: yields_def)
  next
    case (Inr x)
    obtain row s' k' where x: "x = (row, s', k')" by (cases x)
    show ?thesis
    proof (cases row)
      case None
      with r show ?thesis by (simp add: yields_def Inr x)
    next
      case (Some e)
      then obtain L' where L': "filter (passes mw q) L = e # filter (passes mw q) L'" "source_rows (mirror t (dq_shard q)) s' L'"
        "length L' < length L" using r(2) by (auto simp: yields_def Inr x)
      have "length L' < fuel" using Suc.prems(2) L'(3) by simp
      from Suc.IH [OF L'(2) this, of "n + 1" k'] show ?thesis
        by (simp add: r(1) Inr x Some L'(1) add.assoc del: rows_next.simps)
    qed
  qed
qed simp

lemma count_sql_rows: "bt_ok t \<Longrightarrow> count_sql t scope shard = length (filter (\<lambda>e. in_scope_range scope (entry_path e)) (mirror t shard))"
proof -
  assume t: "bt_ok t"
  have "count_sql t scope shard = length (range_sql t scope shard)"
    unfolding count_sql_def range_sql_def desired_rows_where_def sort_bt [OF t] by simp
  then show ?thesis by (simp add: range_sql_rows [OF t])
qed

lemma desired_count_on_rows:
  assumes "bt_ok t" "span_ok (dq_span q)" "length t < fuel"
  shows "desired_count_on fuel mw ok t q = Some (Ok (of_nat (length (rows_of mw t q))))
    \<or> ((\<exists>j. \<not> ok j) \<and> desired_count_on fuel mw ok t q = Some (Err QueryFailed))"
proof -
  have cursor: "with_desired_rows_on ok t q (count_rows mw ok t q fuel 0) = Some (Ok (of_nat (length (rows_of mw t q))))
    \<or> ((\<exists>j. \<not> ok j) \<and> with_desired_rows_on ok t q (count_rows mw ok t q fuel 0) = Some (Err QueryFailed))"
  proof (rule with_desired_rows_opens [OF assms(1,2)], goal_cases)
    case (1 k s)
    from count_rows_ends [OF assms(1) 1 admitted_length [OF assms(1,3)], of mw ok 0 k]
    show ?case by (simp add: rows_of_def)
  qed simp
  have pass: "filter (passes mw q) L = L" if "dq_residual q = None" for L
    using that by (simp add: passes_def [abs_def])
  consider (all) "dq_span q = SpanAll" "dq_residual q = None" | (scope) s where "dq_span q = SpanScope s" "dq_residual q = None"
    | (empty) "dq_span q = SpanEmpty" | (cursor) "desired_count_on fuel mw ok t q = with_desired_rows_on ok t q (count_rows mw ok t q fuel 0)"
    by (cases "dq_span q"; cases "dq_residual q") (auto simp: desired_count_on_def)
  then show ?thesis
  proof cases
    case empty
    then show ?thesis by (simp add: desired_count_on_def rows_of_def)
  next
    case (scope s)
    with pass show ?thesis by (auto simp: desired_count_on_def rows_of_def count_sql_rows [OF assms(1)] simp del: filter_filter)
  next
    case all
    with pass show ?thesis by (auto simp: desired_count_on_def rows_of_def count_sql_rows [OF assms(1)] in_scope_range_def simp del: filter_filter)
  qed (use cursor in simp)
qed

section \<open>Coverage\<close>

fun bound_admits :: "candidate_bound \<Rightarrow> str \<Rightarrow> bool" where
  "bound_admits BoundAny s = True"
| "bound_admits (BoundScope scope) s =
     (let scope = (case strip_suffix [SLASH] scope of Some x \<Rightarrow> x | None \<Rightarrow> scope) in s = scope \<or> prefix (scope @ [SLASH]) s)"
| "bound_admits (BoundPrefix text) s = prefix text s"
| "bound_admits (BoundExact path) s = (s = path)"

fun bound_text :: "candidate_bound \<Rightarrow> bool" where
  "bound_text (BoundScope scope) = utf8 (case strip_suffix [SLASH] scope of Some x \<Rightarrow> x | None \<Rightarrow> scope)"
| "bound_text (BoundPrefix text) = utf8 text"
| "bound_text _ = True"

lemma covers_prefix:
  assumes "utf8 x" "prefix x s"
  shows "covers (range_for_prefix x) s"
proof -
  obtain r where s: "s = x @ r" using assms(2) by (auto simp: prefix_def)
  have "x \<le> x @ r" by (induction x) simp_all
  with lexical_prefix_upper_above [OF assms(1), of r] show ?thesis
    unfolding s by (simp add: covers_def range_for_prefix_def)
qed

lemma utf8_slash: "utf8 s \<Longrightarrow> utf8 (s @ [SLASH])"
  by (rule utf8_append) (simp_all add: utf8_ascii)

lemma gather_bounds_covers:
  "gather_bounds bounds ranges exact = Some (ranges', exact') \<Longrightarrow> \<forall>b \<in> set bounds. bound_text b \<Longrightarrow>
     set ranges \<subseteq> set ranges' \<and> set exact \<subseteq> set exact'
     \<and> (\<forall>b \<in> set bounds. bound_admits b s \<longrightarrow> (\<exists>r \<in> set ranges'. covers r s) \<or> s \<in> set exact')"
proof (induction bounds ranges exact rule: gather_bounds.induct)
  case (3 scope bounds ranges exact)
  let ?s = "case strip_suffix [SLASH] scope of Some x \<Rightarrow> x | None \<Rightarrow> scope"
  have "utf8 ?s" using 3(3) by simp
  then have "prefix (?s @ [SLASH]) s \<Longrightarrow> covers (range_for_prefix (?s @ [SLASH])) s"
    by (intro covers_prefix utf8_slash)
  with 3(1) [OF refl] 3(2,3) show ?case by (auto simp: Let_def)
next
  case (4 x bounds ranges exact)
  have "prefix x s \<Longrightarrow> covers (range_for_prefix x) s" using 4(3) by (intro covers_prefix) simp_all
  with 4 show ?case by (auto split: if_splits)
qed auto

lemma span_from_bounds_ok: "span_ok (span_from_bounds bounds)"
proof -
  have "plan_ok \<lparr>up_ranges = coalesce_ranges ranges, up_exact = retain_uncovered_exacts (remdups_adj (sort exact)) (coalesce_ranges ranges)\<rparr>"
    for ranges exact
  proof -
    have s: "sorted_wrt separate (coalesce_ranges ranges)" using coalesce_ranges_covers by blast
    have "sorted (remdups_adj (sort exact))" by simp
    from retain_uncovered [OF this separate_lowers [OF s]] s show ?thesis
      by (simp add: plan_ok_def path_sort_set(2) sorted_wrt_filter)
  qed
  then show ?thesis by (auto simp: span_ok_def span_from_bounds_def Let_def split: option.splits if_splits)
qed

lemma span_from_bounds_covers:
  assumes "\<forall>b \<in> set bounds. bound_text b" "b \<in> set bounds" "bound_admits b (as_str p)"
  shows "span_admits (span_from_bounds bounds) p"
proof (cases "gather_bounds bounds [] []")
  case None
  then show ?thesis by (simp add: span_from_bounds_def)
next
  case (Some x)
  obtain ranges exact where x: "x = (ranges, exact)" by (cases x)
  have c: "(\<exists>r \<in> set ranges. covers r (as_str p)) \<or> as_str p \<in> set exact"
    using gather_bounds_covers [OF Some [unfolded x] assms(1), of "as_str p"] assms(2,3) by blast
  have co: "\<And>s. (\<exists>r \<in> set (coalesce_ranges ranges). covers r s) \<longleftrightarrow> (\<exists>r \<in> set ranges. covers r s)"
    and sep: "sorted_wrt separate (coalesce_ranges ranges)"
    using coalesce_ranges_covers [of ranges] by auto
  have "sorted (remdups_adj (sort exact))" by simp
  from retain_uncovered [OF this separate_lowers [OF sep]] c show ?thesis
    by (auto simp: span_from_bounds_def Some x Let_def co path_sort_set(1))
qed

lemma bounds_of_includes_has:
  "bounds_of_includes scope incs = Some bounds \<Longrightarrow> g \<in> set incs \<Longrightarrow>
     \<exists>b \<in> set bounds. (\<exists>x. bound g = Exact x \<and> b = BoundExact (case scope of Some s \<Rightarrow> join_scope (as_str s) x | None \<Rightarrow> x))
       \<or> (\<exists>x. bound g = PrefixBound x \<and> b = BoundPrefix (case scope of Some s \<Rightarrow> join_scope (as_str s) x | None \<Rightarrow> x))"
proof (induction scope incs arbitrary: bounds rule: bounds_of_includes.induct)
  case (2 scope inc incs)
  let ?w = "\<lambda>x. case scope of Some s \<Rightarrow> join_scope (as_str s) x | None \<Rightarrow> x"
  from 2(3) obtain b bs where b: "bounds_of_includes scope incs = Some bs" "bounds = b # bs"
    "(\<exists>x. bound inc = Exact x \<and> b = BoundExact (?w x)) \<or> (\<exists>x. bound inc = PrefixBound x \<and> b = BoundPrefix (?w x))"
    by (auto split: glob_bound.splits)
  show ?case
  proof (cases "g = inc")
    case True
    with b show ?thesis by auto
  next
    case False
    then have g: "g \<in> set incs" using 2(4) by simp
    have "bound inc \<noteq> Any" using b(3) by auto
    then have "\<exists>b \<in> set bs. (\<exists>x. bound g = Exact x \<and> b = BoundExact (?w x)) \<or> (\<exists>x. bound g = PrefixBound x \<and> b = BoundPrefix (?w x))"
      by (cases "bound inc") (use 2(1,2) b(1) g in auto)
    then show ?thesis unfolding b(2) by auto
  qed
qed simp

lemma bounds_of_includes_texts:
  "bounds_of_includes scope incs = Some bounds \<Longrightarrow> b \<in> set bounds \<Longrightarrow>
     \<exists>g \<in> set incs. (\<exists>x. b = BoundExact x)
       \<or> (\<exists>x. bound g = PrefixBound x \<and> b = BoundPrefix (case scope of Some s \<Rightarrow> join_scope (as_str s) x | None \<Rightarrow> x))"
proof (induction scope incs arbitrary: bounds rule: bounds_of_includes.induct)
  case (2 scope inc incs)
  then show ?case by (cases "bound inc") fastforce+
qed simp

lemma utf8_join: "utf8 s \<Longrightarrow> utf8 x \<Longrightarrow> utf8 (join_scope s x)"
  unfolding join_scope_def append_assoc [symmetric] by (simp only: if_split) (blast intro: utf8_append [OF utf8_slash])

lemma glob_meta_ascii: "is_glob_meta b \<Longrightarrow> b < 128"
  unfolding is_glob_meta_def by (elim disjE) simp_all

lemma wf_path_no_slash: "wf_path p \<Longrightarrow> as_str p \<noteq> s @ [SLASH]"
  using canonical_append [of s "[]"] by (auto simp: wf_path_def)

lemma selection_admits:
  assumes law: "\<And>l r c s. list_all (\<lambda>b. \<not> is_glob_meta b) l \<Longrightarrow> compile (l @ r) = Ok c \<Longrightarrow> mw c s \<Longrightarrow>
      prefix l s \<and> (r = [] \<longrightarrow> s = l)"
    and parsed: "\<And>g. g \<in> set (include_globs sel) \<Longrightarrow> (\<exists>pat. glob_parse compile pat = Ok g) \<and> utf8 (normalized g)"
    and scope: "\<And>s. scope_path sel = Some s \<Longrightarrow> utf8 (as_str s)"
    and m: "selection_matches mw sel p" "wf_path p"
  shows "span_admits (dq_span (for_selection sel)) p"
proof -
  let ?w = "\<lambda>x. case scope_path sel of Some s \<Rightarrow> join_scope (as_str s) x | None \<Rightarrow> x"
  have whole: "span_admits (dq_span (in_scope (scope_path sel))) p"
    using selection_in_scope [OF m(1)] by (cases "scope_path sel") (simp_all add: in_scope_def query_of_span_def)
  have same: "dq_span (for_selection sel) = dq_span (query_for_selection sel)" by (simp add: for_selection_def Let_def)
  show ?thesis
  proof (cases "include_globs sel = [] \<or> bounds_of_includes (scope_path sel) (include_globs sel) = None")
    case True
    then show ?thesis using whole unfolding same query_for_selection_def by auto
  next
    case False
    then obtain bounds where b: "include_globs sel \<noteq> []" "bounds_of_includes (scope_path sel) (include_globs sel) = Some bounds" by auto
    obtain r where r: "reparent_relative sel p = Some r" "filter_matches mw (sel_filter sel) (ref_text r)"
      using m(1) by (auto simp: selection_matches_iff)
    obtain g where g: "g \<in> set (include_globs sel)" "glob_matches mw g (ref_text r)"
      using r(2) b(1) by (auto simp: filter_matches_iff include_globs_def glob_matches_def)
    obtain pat where "glob_parse compile pat = Ok g" using parsed [OF g(1)] by blast
    note parse = glob_first_meta_parse [OF this]
    have admit: "admits (bound g) (ref_text r)"
      by (rule bound_sound [where compile = compile and matches_with = mw, OF law conjunct1 [OF parse] conjunct2 [OF parse] g(2)])
    have p: "as_str p = ?w (ref_text r)"
      using r(1) selection_relative_ref [of sel p]
      by (auto simp: wf_path_no_slash [OF m(2)] scope_path_def selection_relative_def relative_path_Some join_scope_def split: path_scope.splits)
    obtain bd where bd: "bd \<in> set bounds" "(\<exists>x. bound g = Exact x \<and> bd = BoundExact (?w x)) \<or> (\<exists>x. bound g = PrefixBound x \<and> bd = BoundPrefix (?w x))"
      using bounds_of_includes_has [OF b(2) g(1)] by blast
    have "bound_admits bd (as_str p)"
      using bd(2) admit unfolding p by (auto simp: join_scope_def prefix_def split: option.split)
    moreover have "bound_text bd'" if bd': "bd' \<in> set bounds" for bd'
    proof -
      obtain g' where g': "g' \<in> set (include_globs sel)"
        "(\<exists>x. bd' = BoundExact x) \<or> (\<exists>x. bound g' = PrefixBound x \<and> bd' = BoundPrefix (?w x))"
        using bounds_of_includes_texts [OF b(2) bd'] by blast
      have "utf8 x" if pre: "bound g' = PrefixBound x" for x
      proof -
        obtain pat where "glob_parse compile pat = Ok g'" "utf8 (normalized g')" using parsed [OF g'(1)] by blast
        moreover obtain n where n: "glob_first_meta g' = Some n" "x = take n (normalized g')"
          using pre by (auto simp: bound_def split: option.splits if_splits)
        ultimately have "find_position is_glob_meta (normalized g') = Some n" "utf8 (normalized g')"
          using glob_first_meta_parse [of compile pat g'] by auto
        then show ?thesis unfolding n(2) find_position_Some by (blast intro: utf8_take glob_meta_ascii)
      qed
      moreover have "utf8 (?w x)" if "utf8 x" for x
      proof (cases "scope_path sel")
        case (Some s)
        show ?thesis unfolding Some option.case by (rule utf8_join [OF scope [OF Some] that])
      qed (use that in simp)
      ultimately show ?thesis using g'(2) by (elim disjE exE conjE) simp_all
    qed
    ultimately have "span_admits (span_from_bounds bounds) p"
      by (intro span_from_bounds_covers [OF _ bd(1)]) simp_all
    then show ?thesis unfolding same query_for_selection_def using b by (simp add: from_candidate_bounds_def query_of_span_def)
  qed
qed

lemma for_selection_ok: "span_ok (dq_span (for_selection sel))" "dq_shard (for_selection sel) = None"
  "passes mw (for_selection sel) e \<longleftrightarrow> selection_matches mw sel (entry_path e)"
proof -
  show "span_ok (dq_span (for_selection sel))" "dq_shard (for_selection sel) = None"
    using span_from_bounds_ok
    by (auto simp: for_selection_def query_for_selection_def in_scope_def query_of_span_def from_candidate_bounds_def span_ok_def Let_def
        split: option.splits)
  have residual: "dq_residual (query_for_selection sel) = None"
    by (auto simp: query_for_selection_def in_scope_def query_of_span_def from_candidate_bounds_def split: option.splits)
  have "is_unrestricted sel \<Longrightarrow> sel = selection_root"
    by (cases sel) (auto simp: is_unrestricted_def filter_is_unrestricted_def selection_root_def from_scope_patterns_def)
  moreover have "selection_matches mw selection_root c" for c
    by (simp add: selection_matches_def matches_str_def selection_relative_def selection_root_def from_scope_patterns_def
        filter_matches_iff)
  ultimately show "passes mw (for_selection sel) e \<longleftrightarrow> selection_matches mw sel (entry_path e)"
    unfolding passes_def for_selection_def Let_def using residual by (cases "is_unrestricted sel") simp_all
qed

lemma for_selection_rows:
  assumes law: "\<And>l r c s. list_all (\<lambda>b. \<not> is_glob_meta b) l \<Longrightarrow> compile (l @ r) = Ok c \<Longrightarrow> mw c s \<Longrightarrow>
      prefix l s \<and> (r = [] \<longrightarrow> s = l)"
    and parsed: "\<And>g. g \<in> set (include_globs sel) \<Longrightarrow> (\<exists>pat. glob_parse compile pat = Ok g) \<and> utf8 (normalized g)"
    and scope: "\<And>s. scope_path sel = Some s \<Longrightarrow> utf8 (as_str s)"
    and wf: "\<And>p. p \<in> fst ` set t \<Longrightarrow> wf_path p"
  shows "rows_of mw t ((for_selection sel)\<lparr>dq_shard := shard\<rparr>) = filter (\<lambda>e. selection_matches mw sel (entry_path e)) (mirror t shard)"
proof -
  have "passes mw ((for_selection sel)\<lparr>dq_shard := shard\<rparr>) e \<longleftrightarrow> selection_matches mw sel (entry_path e)" for e
    using for_selection_ok(3) [of mw sel e] by (simp add: passes_def)
  moreover have "wf_path (entry_path e)" if "e \<in> set (mirror t shard)" for e
    using that wf by (force simp: mirror_def desired_rows_where_def)
  ultimately show ?thesis
    using selection_admits [where compile = compile and mw = mw and sel = sel, OF law parsed scope] unfolding rows_of_def by (auto intro: filter_cong)
qed

section \<open>Properties\<close>

text \<open>
  C38: reading the rows a selection selects through the candidates planned from its include patterns gives
  the rows of the mirror that the selection matches, in path order, as a scan of the whole mirror would;
  asking whether there is one and counting them agree. Rows come from the restricted shard when there is
  one. The glob engine matches fixed text literally, texts are UTF-8 and stored paths well-formed. The only
  other outcome is a failed statement.
\<close>

theorem desired_reads_agree:
  fixes sel :: "'p selection"
  assumes "\<And>l r c s. list_all (\<lambda>b. \<not> is_glob_meta b) l \<Longrightarrow> compile (l @ r) = Ok c \<Longrightarrow> mw c s \<Longrightarrow>
      prefix l s \<and> (r = [] \<longrightarrow> s = l)"
    and "\<And>g. g \<in> set (include_globs sel) \<Longrightarrow> (\<exists>pat. glob_parse compile pat = Ok g) \<and> utf8 (normalized g)"
    and "\<And>s. scope_path sel = Some s \<Longrightarrow> utf8 (as_str s)"
    and "\<And>p. p \<in> fst ` set t \<Longrightarrow> wf_path p" and "bt_ok t" "length t < fuel"
  shows "let q = (for_selection sel)\<lparr>dq_shard := shard\<rparr>;
        selected = filter (\<lambda>e. selection_matches mw sel (entry_path e)) (desired_rows_where t (\<lambda>_. in_shard shard))
     in (desired_rows_on fuel mw ok t q = Some (Ok selected)
        \<or> (\<exists>j. \<not> ok j) \<and> desired_rows_on fuel mw ok t q = Some (Err QueryFailed))
    \<and> (desired_any_on fuel mw ok t q = Some (Ok (selected \<noteq> []))
        \<or> (\<exists>j. \<not> ok j) \<and> desired_any_on fuel mw ok t q = Some (Err QueryFailed))
    \<and> (desired_count_on fuel mw ok t q = Some (Ok (of_nat (length selected)))
        \<or> (\<exists>j. \<not> ok j) \<and> desired_count_on fuel mw ok t q = Some (Err QueryFailed))"
proof -
  let ?q = "(for_selection sel)\<lparr>dq_shard := shard\<rparr>"
  have rows: "rows_of mw t ?q = filter (\<lambda>e. selection_matches mw sel (entry_path e)) (desired_rows_where t (\<lambda>_. in_shard shard))"
    unfolding mirror_def [symmetric] by (rule for_selection_rows [where compile = compile, OF assms(1-4)])
  have "span_ok (dq_span ?q)" using for_selection_ok(1) [of sel] by simp
  then show ?thesis
    unfolding Let_def rows [symmetric]
    using desired_rows_on_rows [OF assms(5) _ assms(6), of ?q mw ok] desired_any_on_rows [OF assms(5) _ assms(6), of ?q mw ok]
      desired_count_on_rows [OF assms(5) _ assms(6), of ?q mw ok] by blast
qed

text \<open>The engine of one star, the include pattern \<open>a/*\<close>, and the rows \<open>a/x\<close> and \<open>b\<close>.\<close>

definition two_rows :: table where
  "two_rows =
     map (\<lambda>p. (GatPath p, \<lparr>sr_desired_oid = Some (Oid []), sr_desired_shard = None, sr_materialized_oid = None, sr_materialized_proof = None\<rparr>))
       [lit ''a/x'', lit ''b'']"

lemma utf8_ascii_text: "\<forall>b \<in> set s. b < 128 \<Longrightarrow> utf8 s"
proof (induction s)
  case Nil
  show ?case unfolding utf8_def by (rule exI [of _ "[]"]) simp
next
  case (Cons b s)
  then show ?case using utf8_append [of "[b]" s] utf8_ascii [of b] by simp
qed

lemma desired_reads_agree_witness:
  "\<exists>g. glob_parse star_compile (lit ''a/*'') = Ok g
     \<and> desired_rows_on 3 star_matches (\<lambda>_. True) two_rows ((for_selection (from_scope_patterns ScopeRoot [g] []))\<lparr>dq_shard := None\<rparr>)
       = Some (Ok [\<lparr>entry_path = GatPath (lit ''a/x''), entry_oid = Oid []\<rparr>])"
proof -
  define g where "g = \<lparr>normalized = lit ''a/*'', glob_first_meta = Some 2, compiled = (lit ''a/'', True)\<rparr>"
  let ?sel = "from_scope_patterns ScopeRoot [g] []"
  have parse: "glob_parse star_compile (lit ''a/*'') = Ok g" unfolding g_def by code_simp
  have u: "utf8 (normalized g)" by (rule utf8_ascii_text) (simp add: g_def word_less_nat_alt)
  have inc: "include_globs ?sel = [g]" "scope_path ?sel = None" by (simp_all add: include_globs_def scope_path_def from_scope_patterns_def)
  have t: "bt_ok two_rows" "length two_rows < 3" by (simp_all add: two_rows_def bt_ok_def less_gat_path_def)
  have wf: "wf_path p" if "p \<in> fst ` set two_rows" for p
  proof -
    have "wf_path (GatPath (lit ''a/x''))" "wf_path (GatPath (lit ''b''))" by code_simp+
    then show ?thesis using that by (auto simp: two_rows_def)
  qed
  have sel: "filter (\<lambda>e. selection_matches star_matches ?sel (entry_path e)) (desired_rows_where two_rows (\<lambda>_. in_shard None))
      = [\<lparr>entry_path = GatPath (lit ''a/x''), entry_oid = Oid []\<rparr>]"
  proof -
    have "desired_rows_where two_rows (\<lambda>_. in_shard None)
        = [\<lparr>entry_path = GatPath (lit ''a/x''), entry_oid = Oid []\<rparr>, \<lparr>entry_path = GatPath (lit ''b''), entry_oid = Oid []\<rparr>]"
      by (simp add: two_rows_def desired_rows_where_def in_shard_def less_gat_path_def less_eq_gat_path_def)
    moreover have "selection_matches star_matches ?sel (GatPath (lit ''a/x''))" "\<not> selection_matches star_matches ?sel (GatPath (lit ''b''))"
      unfolding g_def by code_simp+
    ultimately show ?thesis by simp
  qed
  have "desired_rows_on 3 star_matches (\<lambda>_. True) two_rows ((for_selection ?sel)\<lparr>dq_shard := None\<rparr>)
      = Some (Ok (filter (\<lambda>e. selection_matches star_matches ?sel (entry_path e)) (desired_rows_where two_rows (\<lambda>_. in_shard None))))"
  proof -
    have A: "(\<exists>pat. glob_parse star_compile pat = Ok g') \<and> utf8 (normalized g')" if "g' \<in> set (include_globs ?sel)" for g'
      using that parse u unfolding inc by auto
    have B: "utf8 (as_str s)" if "scope_path ?sel = Some s" for s using that unfolding inc by simp
    note full = desired_reads_agree [where compile = star_compile and mw = star_matches and sel = ?sel and t = two_rows and fuel = 3
        and shard = None and ok = "\<lambda>_. True", unfolded Let_def]
    have "desired_rows_on 3 star_matches (\<lambda>_. True) two_rows ((for_selection ?sel)\<lparr>dq_shard := None\<rparr>)
        = Some (Ok (filter (\<lambda>e. selection_matches star_matches ?sel (entry_path e)) (desired_rows_where two_rows (\<lambda>_. in_shard None))))
      \<or> (\<exists>j :: nat. \<not> True)
        \<and> desired_rows_on 3 star_matches (\<lambda>_. True) two_rows ((for_selection ?sel)\<lparr>dq_shard := None\<rparr>) = Some (Err QueryFailed)"
      by (rule conjunct1 [OF full]) (fact star_law A B wf t)+
    then show ?thesis by blast
  qed
  with parse sel show ?thesis by auto
qed

text \<open>
  C39: every read ends. Whatever the candidates, the shard, the residual selection and the statements that
  fail, as many steps as the table has rows and one more settle the enumeration, the existence test and the
  count; an enumeration that succeeds repeats nothing and is in path order.
\<close>

theorem desired_reads_end:
  assumes "bt_ok t" "length t < fuel"
    and "dq_span q \<in> {dq_span (in_scope scope :: 'p desired_query), dq_span (exact_paths paths :: 'p desired_query), span_from_bounds bounds}"
  shows "desired_rows_on fuel mw ok t (q :: 'p desired_query) \<noteq> None \<and> desired_any_on fuel mw ok t q \<noteq> None
    \<and> desired_count_on fuel mw ok t q \<noteq> None
    \<and> (\<forall>rows. desired_rows_on fuel mw ok t q = Some (Ok rows) \<longrightarrow> sorted_wrt (<) (map entry_path rows))"
proof -
  have s: "span_ok (dq_span q)"
    using assms(3) span_from_bounds_ok by (auto simp: in_scope_def exact_paths_def query_of_span_def span_ok_def split: option.splits)
  have "ascending (rows_of mw t q)" unfolding rows_of_def by (intro ascending_filter mirror_ascending [OF assms(1)])
  then have "sorted_wrt (<) (map entry_path (rows_of mw t q))" by (simp add: sorted_wrt_map less_gat_path_def)
  then show ?thesis
    using desired_rows_on_rows [OF assms(1) s assms(2), of mw ok] desired_any_on_rows [OF assms(1) s assms(2), of mw ok]
      desired_count_on_rows [OF assms(1) s assms(2), of mw ok] by auto
qed

lemma desired_reads_end_witness:
  "\<forall>ok. desired_count_on 3 star_matches ok two_rows (from_candidate_bounds [BoundScope (lit ''a''), BoundExact (lit ''b'')]) \<noteq> None"
proof
  fix ok
  show "desired_count_on 3 star_matches ok two_rows (from_candidate_bounds [BoundScope (lit ''a''), BoundExact (lit ''b'')]) \<noteq> None"
    using desired_reads_end [where t = two_rows and fuel = 3 and q = "from_candidate_bounds [BoundScope (lit ''a''), BoundExact (lit ''b'')]"
      and bounds = "[BoundScope (lit ''a''), BoundExact (lit ''b'')]" and mw = star_matches and ok = ok]
    by (simp add: two_rows_def bt_ok_def less_gat_path_def from_candidate_bounds_def query_of_span_def)
qed

end
