(* ===== verification/PathEnumeration.thy ===== *)
theory PathEnumeration
  imports QueryPlan
begin

text \<open>
  Enumerating the desired paths outside excluded subtrees (\<open>gat-io/src/state/query.rs\<close>): the excluded
  descendant ranges are coalesced, and one statement per gap between them visits the paths in order. A
  callback takes a path and the caller's state, and answers with the new state and whether to go on.
\<close>

section \<open>Exclusions\<close>

definition exclusions_new :: "gat_path list \<Rightarrow> lexical_range list" where
  "exclusions_new directories =
     coalesce_ranges (map (\<lambda>path. case descendant_range (as_str path) of (lower, upper) \<Rightarrow> \<lparr>lr_lower = lower, lr_upper = Some upper\<rparr>) directories)"

text \<open>\<open>partition_point\<close> on ranges in order.\<close>

definition exclusions_contains :: "lexical_range list \<Rightarrow> gat_path \<Rightarrow> bool" where
  "exclusions_contains ranges path =
     (let index = length (takeWhile (\<lambda>rng. lr_lower rng \<le> as_str path) ranges)
      in 0 < index \<and> below_upper (as_str path) (lr_upper (ranges ! (index - 1))))"

section \<open>Visiting\<close>

fun visit_rows ::
  "(state_store_error \<Rightarrow> 'e) \<Rightarrow> (nat \<Rightarrow> bool) \<Rightarrow> (gat_path \<Rightarrow> 's \<Rightarrow> 's \<times> ('e + unit)) \<Rightarrow> nat \<Rightarrow> entry list \<Rightarrow> 's
     \<Rightarrow> 's \<times> ('e + nat)" where
  "visit_rows from ok visit k [] s = (s, if ok k then Ok (Suc k) else Err (from QueryFailed))"
| "visit_rows from ok visit k (row # paths) s =
     (if \<not> ok k then (s, Err (from QueryFailed))
      else case visit (entry_path row) s of
             (s, Inl e) \<Rightarrow> (s, Err e)
           | (s, Inr _) \<Rightarrow> visit_rows from ok visit (Suc k) paths s)"

definition visit_interval ::
  "(state_store_error \<Rightarrow> 'e) \<Rightarrow> (nat \<Rightarrow> bool) \<Rightarrow> table \<Rightarrow> (gat_path \<Rightarrow> 's \<Rightarrow> 's \<times> ('e + unit)) \<Rightarrow> str \<Rightarrow> str option \<Rightarrow> nat \<Rightarrow> 's
     \<Rightarrow> 's \<times> ('e + nat)" where
  "visit_interval from ok t visit lower upper k s =
     (if \<not> ok k then (s, Err (from QueryFailed))
      else visit_rows from ok visit (Suc k) (lexical_range_sql t lower upper None None) s)"

text \<open>The loop over the ranges and the \<open>None\<close> chained after them.\<close>

fun visit_gaps ::
  "(state_store_error \<Rightarrow> 'e) \<Rightarrow> (nat \<Rightarrow> bool) \<Rightarrow> table \<Rightarrow> (gat_path \<Rightarrow> 's \<Rightarrow> 's \<times> ('e + unit)) \<Rightarrow> str \<Rightarrow> lexical_range list \<Rightarrow> nat \<Rightarrow> 's
     \<Rightarrow> 's \<times> ('e + nat)" where
  "visit_gaps from ok t visit lower [] k s = visit_interval from ok t visit lower None k s"
| "visit_gaps from ok t visit lower (rng # ranges) k s =
     (case visit_interval from ok t visit lower (Some (lr_lower rng)) k s of
        (s, Inl e) \<Rightarrow> (s, Err e)
      | (s, Inr k) \<Rightarrow>
          (case lr_upper rng of
             Some upper \<Rightarrow> visit_gaps from ok t visit upper ranges k s
           | None \<Rightarrow> (s, Ok k)))"

definition visit_desired_paths_excluding ::
  "(state_store_error \<Rightarrow> 'e) \<Rightarrow> (nat \<Rightarrow> bool) \<Rightarrow> table \<Rightarrow> lexical_range list \<Rightarrow> (gat_path \<Rightarrow> 's \<Rightarrow> 's \<times> ('e + unit)) \<Rightarrow> 's
     \<Rightarrow> 's \<times> ('e + unit)" where
  "visit_desired_paths_excluding from ok t excluded visit s =
     (if \<not> ok 0 then (s, Err (from QueryFailed))
      else if excluded = [] then
        (case visit_rows from ok visit 1 (range_sql t None None) s of
           (s, Inl e) \<Rightarrow> (s, Err e)
         | (s, Inr k) \<Rightarrow> (s, Ok ()))
      else
        (case visit_gaps from ok t visit [] excluded 1 s of
           (s, Inl e) \<Rightarrow> (s, Err e)
         | (s, Inr k) \<Rightarrow> (s, if ok k then Ok () else Err (from QueryFailed))))"

section \<open>What is visited\<close>

text \<open>The reference: the callback along a list of paths, up to its first failure.\<close>

fun visit_each :: "(gat_path \<Rightarrow> 's \<Rightarrow> 's \<times> ('e + unit)) \<Rightarrow> gat_path list \<Rightarrow> 's \<Rightarrow> 's \<times> ('e + unit)" where
  "visit_each visit [] s = (s, Ok ())"
| "visit_each visit (p # ps) s = (case visit p s of (s, Inl e) \<Rightarrow> (s, Err e) | (s, Inr _) \<Rightarrow> visit_each visit ps s)"

lemma visit_each_append:
  "visit_each visit (ps @ qs) s = (case visit_each visit ps s of (s, Inl e) \<Rightarrow> (s, Err e) | (s, Inr _) \<Rightarrow> visit_each visit qs s)"
proof (induction ps arbitrary: s)
  case (Cons p ps)
  obtain s' r where "visit p s = (s', r)" by (cases "visit p s")
  then show ?case by (cases r) (simp_all add: Cons.IH)
qed simp

text \<open>An outcome of statements and visits together: the visits alone, or a failed statement after some of them.\<close>

definition visits_as :: "(state_store_error \<Rightarrow> 'e) \<Rightarrow> (nat \<Rightarrow> bool) \<Rightarrow> (gat_path \<Rightarrow> 's \<Rightarrow> 's \<times> ('e + unit)) \<Rightarrow> gat_path list \<Rightarrow> 's \<Rightarrow> 's \<times> ('e + 'a) \<Rightarrow> bool" where
  "visits_as from ok visit ps s out \<longleftrightarrow>
     (fst out = fst (visit_each visit ps s) \<and> map_ok (\<lambda>_. ()) (snd out) = snd (visit_each visit ps s))
     \<or> ((\<exists>j. \<not> ok j) \<and> snd out = Err (from QueryFailed) \<and> (\<exists>qs rs. ps = qs @ rs \<and> visit_each visit qs s = (fst out, Ok ())))"

lemma visits_as_stop:
  "\<exists>j. \<not> ok j \<Longrightarrow> ps = us @ rs \<Longrightarrow> visit_each visit us s = (s', Ok ()) \<Longrightarrow> visits_as from ok visit ps s (s', Err (from QueryFailed))"
  unfolding visits_as_def by (intro disjI2 conjI exI [of _ us] exI [of _ rs]) simp_all

lemma visits_as_full: "visit_each visit ps s = (s', map_ok (\<lambda>_. ()) r) \<Longrightarrow> visits_as from ok visit ps s (s', r)"
  unfolding visits_as_def by simp

lemma visits_as_cases:
  assumes "visits_as from ok visit ps s (s', r)"
  obtains (full) "visit_each visit ps s = (s', map_ok (\<lambda>_. ()) r)"
    | (stop) us rs where "\<exists>j. \<not> ok j" "r = Err (from QueryFailed)" "ps = us @ rs" "visit_each visit us s = (s', Ok ())"
  using assms unfolding visits_as_def by (auto simp: prod_eq_iff)

lemma visits_as_then:
  assumes "visits_as from ok visit ps s out"
    and "\<And>s' k. out = (s', Ok k) \<Longrightarrow> visits_as from ok visit qs s' (f s' k)"
  shows "visits_as from ok visit (ps @ qs) s (case out of (s', Inl e) \<Rightarrow> (s', Err e) | (s', Inr k) \<Rightarrow> f s' k)"
proof -
  obtain s' r where out: "out = (s', r)" by (cases out)
  from assms(1) [unfolded out] show ?thesis
  proof (cases rule: visits_as_cases)
    case full
    show ?thesis
    proof (cases r)
      case (Inl e)
      then show ?thesis using full by (simp add: out) (rule visits_as_full, simp add: visit_each_append)
    next
      case (Inr k)
      obtain s'' r' where f: "f s' k = (s'', r')" by (cases "f s' k")
      have v: "visit_each visit (ps @ us) s = visit_each visit us s'" for us using full by (simp add: visit_each_append Inr)
      have "visits_as from ok visit qs s' (s'', r')" using assms(2) [of s' k] by (simp add: out Inr f)
      then have "visits_as from ok visit (ps @ qs) s (s'', r')"
      proof (cases rule: visits_as_cases)
        case full
        then show ?thesis by (intro visits_as_full) (simp add: v)
      next
        case (stop us rs)
        show ?thesis unfolding stop(2) by (rule visits_as_stop [of _ _ "ps @ us" rs]) (use stop v in simp_all)
      qed
      then show ?thesis by (simp add: out Inr f)
    qed
  next
    case (stop us rs)
    have "visits_as from ok visit (ps @ qs) s (s', Err (from QueryFailed))"
      by (rule visits_as_stop [of _ _ us "rs @ qs"]) (use stop in simp_all)
    then show ?thesis by (simp add: out stop(2))
  qed
qed

lemma visit_rows_visits: "visits_as from ok visit (map entry_path rows) s (visit_rows from ok visit k rows s)"
proof (induction rows arbitrary: k s)
  case Nil
  show ?case
    by (cases "ok k") (auto intro: visits_as_full visits_as_stop [of ok "[]" "[]" "[]"])
next
  case (Cons row rows)
  show ?case
  proof (cases "ok k")
    case True
    obtain s' r where v: "visit (entry_path row) s = (s', r)" by (cases "visit (entry_path row) s")
    have "visits_as from ok visit [entry_path row] s (s', r)" by (rule visits_as_full) (cases r; simp add: v)
    from visits_as_then [OF this, of "map entry_path rows" "\<lambda>s _. visit_rows from ok visit (Suc k) rows s"] Cons.IH
    show ?thesis using True by (cases r) (simp_all add: v)
  next
    case False
    then show ?thesis by (auto intro: visits_as_stop [of _ _ "[]"])
  qed
qed

lemma visits_as_statement: "visits_as from ok visit ps s out \<Longrightarrow> visits_as from ok visit ps s (if \<not> ok k then (s, Err (from QueryFailed)) else out)"
  using visits_as_stop [of ok ps "[]" ps visit s s] by auto

lemma visit_interval_visits:
  "visits_as from ok visit (map entry_path (lexical_range_sql t lower upper None None)) s (visit_interval from ok t visit lower upper k s)"
  unfolding visit_interval_def by (intro visits_as_statement visit_rows_visits)

section \<open>The gaps\<close>

text \<open>The ranges are in order and apart, and each is the interval it claims to be.\<close>

fun gaps_ok :: "str \<Rightarrow> lexical_range list \<Rightarrow> bool" where
  "gaps_ok lower [] = True"
| "gaps_ok lower (r # rs) = (lower \<le> lr_lower r \<and> (\<exists>u. lr_upper r = Some u \<and> lr_lower r \<le> u \<and> gaps_ok u rs))"

lemma interval_rows:
  assumes "bt_ok t"
  shows "lexical_range_sql t lower upper None None = filter (\<lambda>e. lower \<le> pt e \<and> below_upper (pt e) upper) (mirror t None)"
  unfolding lexical_range_sql_def by (subst rows_where [OF assms]) simp

lemma gaps_above: "gaps_ok lower rs \<Longrightarrow> r \<in> set rs \<Longrightarrow> lower \<le> lr_lower r"
  by (induction rs arbitrary: lower) (auto intro: order.trans)

lemma visit_gaps_visits:
  assumes "bt_ok t"
  shows "gaps_ok lower rs \<Longrightarrow>
    visits_as from ok visit (map entry_path (filter (\<lambda>e. lower \<le> pt e \<and> \<not> (\<exists>r \<in> set rs. covers r (pt e))) (mirror t None))) s
      (visit_gaps from ok t visit lower rs k s)"
proof (induction rs arbitrary: lower k s)
  case Nil
  have rows: "lexical_range_sql t lower None None None = filter (\<lambda>e. lower \<le> pt e \<and> \<not> (\<exists>r \<in> set []. covers r (pt e))) (mirror t None)"
    by (simp add: interval_rows [OF assms] below_upper_def)
  show ?case unfolding rows [symmetric] visit_gaps.simps by (rule visit_interval_visits)
next
  case (Cons r rs)
  let ?D = "mirror t None"
  obtain u where u: "lr_upper r = Some u" "lower \<le> lr_lower r" "lr_lower r \<le> u" "gaps_ok u rs" using Cons.prems by auto
  let ?P = "\<lambda>e. lower \<le> pt e \<and> pt e < lr_lower r" and ?Q = "\<lambda>e. u \<le> pt e \<and> \<not> (\<exists>r \<in> set rs. covers r (pt e))"
  have before: "\<not> covers r' s" if "r' \<in> set rs" "s < u" for r' s
    using gaps_above [OF u(4) that(1)] that(2) by (auto simp: covers_def dest: order.trans)
  have "(lower \<le> pt e \<and> \<not> (\<exists>r' \<in> set (r # rs). covers r' (pt e))) \<longleftrightarrow> ?P e \<or> ?Q e" for e
  proof -
    consider "pt e < lr_lower r" | "lr_lower r \<le> pt e" "pt e < u" | "u \<le> pt e" "lr_lower r \<le> pt e" using u(3) by fastforce
    then show ?thesis
    proof cases
      case 1
      then show ?thesis using before [of _ "pt e"] u(3) by (auto simp: covers_def dest: order.strict_trans2)
    next
      case 2
      then show ?thesis using u(1) by (auto simp: covers_def below_upper_def)
    next
      case 3
      then show ?thesis using u(1,2) by (auto simp: covers_def below_upper_def dest: order.trans)
    qed
  qed
  then have "filter (\<lambda>e. lower \<le> pt e \<and> \<not> (\<exists>r' \<in> set (r # rs). covers r' (pt e))) ?D = filter (\<lambda>e. ?P e \<or> ?Q e) ?D"
    by (intro filter_cong) simp_all
  also have "\<dots> = filter ?P ?D @ filter ?Q ?D"
    by (rule filter_split [OF mirror_ascending [OF assms]]) (use u(3) in \<open>auto intro: order.strict_trans2 order.trans\<close>)
  finally have rows: "filter (\<lambda>e. lower \<le> pt e \<and> \<not> (\<exists>r' \<in> set (r # rs). covers r' (pt e))) ?D
      = lexical_range_sql t lower (Some (lr_lower r)) None None @ filter ?Q ?D"
    by (simp add: interval_rows [OF assms] below_upper_def)
  show ?case
    unfolding rows map_append visit_gaps.simps u(1) option.case
    by (rule visits_as_then [OF visit_interval_visits Cons.IH [OF u(4)]])
qed

definition proper :: "lexical_range \<Rightarrow> bool" where
  "proper r \<longleftrightarrow> (\<exists>u. lr_upper r = Some u \<and> lr_lower r \<le> u)"

lemma dedup_ranges_proper: "\<forall>r \<in> set (p # rs). proper r \<Longrightarrow> \<forall>r \<in> set (dedup_ranges p rs). proper r"
proof (induction p rs rule: dedup_ranges.induct)
  case (2 p rng rs)
  have "proper (widened p rng)" using 2(3) by (auto simp: widened_def proper_def cmp_upper_Less intro: order.trans less_imp_le)
  with 2 show ?case by (simp add: widened_def)
qed simp

lemma separate_gaps: "sorted_wrt separate rs \<Longrightarrow> \<forall>r \<in> set rs. proper r \<Longrightarrow> \<forall>r \<in> set rs. lower \<le> lr_lower r \<Longrightarrow> gaps_ok lower rs"
  by (induction rs arbitrary: lower) (auto simp: separate_def proper_def less_imp_le)

text \<open>Being strictly below an excluded directory.\<close>

definition below_some :: "gat_path list \<Rightarrow> gat_path \<Rightarrow> bool" where
  "below_some directories p \<longleftrightarrow> (\<exists>d \<in> set directories. \<exists>q. as_str p = as_str d @ SLASH # q)"

lemma exclusions_new_facts:
  shows "(\<exists>r \<in> set (exclusions_new directories). covers r (as_str p)) \<longleftrightarrow> below_some directories p"
    and "sorted_wrt separate (exclusions_new directories)" "gaps_ok [] (exclusions_new directories)"
proof -
  let ?r = "\<lambda>d. case descendant_range (as_str d) of (lower, upper) \<Rightarrow> \<lparr>lr_lower = lower, lr_upper = Some upper\<rparr>"
  have co: "(\<exists>r \<in> set (exclusions_new directories). covers r s) \<longleftrightarrow> (\<exists>r \<in> set (map ?r directories). covers r s)"
    and sep: "sorted_wrt separate (exclusions_new directories)" for s
    using coalesce_ranges_covers [of "map ?r directories"] by (simp_all add: exclusions_new_def)
  show "(\<exists>r \<in> set (exclusions_new directories). covers r (as_str p)) \<longleftrightarrow> below_some directories p"
    unfolding co by (simp add: covers_def below_upper_def descendant_range_def descendant_range_prefix below_some_def)
  show "sorted_wrt separate (exclusions_new directories)" by (rule sep)
  have "proper (?r d)" for d
  proof -
    have "as_str d @ [SLASH] \<le> as_str d @ [48]" by (induction "as_str d") (simp_all add: word_le_nat_alt)
    then show ?thesis by (simp add: proper_def descendant_range_def)
  qed
  then have proper: "\<forall>r \<in> set (sort_ranges (map ?r directories)). proper r" unfolding sorted_sort_ranges(2) by simp
  have "\<forall>r \<in> set (exclusions_new directories). proper r"
  proof (cases "sort_ranges (map ?r directories)")
    case Nil
    then show ?thesis by (simp add: exclusions_new_def coalesce_ranges_def)
  next
    case (Cons a as)
    with proper have "\<forall>r \<in> set (a # as). proper r" by simp
    from dedup_ranges_proper [OF this] Cons show ?thesis by (simp add: exclusions_new_def coalesce_ranges_def)
  qed
  then show "gaps_ok [] (exclusions_new directories)" by (intro separate_gaps sep) simp_all
qed

lemma exclusions_contains_covers:
  assumes "sorted_wrt separate rs"
  shows "exclusions_contains rs p \<longleftrightarrow> (\<exists>r \<in> set rs. covers r (as_str p))"
  using assms
proof (induction rs rule: rev_induct)
  case (snoc r rs)
  let ?s = "as_str p"
  have sep: "sorted_wrt separate rs" "\<And>a. a \<in> set rs \<Longrightarrow> separate a r" using snoc.prems by (auto simp: sorted_wrt_append)
  show ?case
  proof (cases "lr_lower r \<le> ?s")
    case True
    then have all: "\<forall>a \<in> set (rs @ [r]). lr_lower a \<le> ?s" using sep(2) by (auto simp: separate_def intro: order.trans)
    then have t: "takeWhile (\<lambda>rng. lr_lower rng \<le> ?s) (rs @ [r]) = rs @ [r]" by (simp add: takeWhile_eq_all_conv)
    have "\<not> covers a ?s" if "a \<in> set rs" for a
      using sep(2) [OF that] True by (auto simp: separate_def covers_def below_upper_def)
    then show ?thesis unfolding exclusions_contains_def t Let_def using True by (auto simp: covers_def nth_append)
  next
    case False
    then have t: "takeWhile (\<lambda>rng. lr_lower rng \<le> ?s) (rs @ [r]) = takeWhile (\<lambda>rng. lr_lower rng \<le> ?s) rs"
      by (cases "\<forall>a \<in> set rs. lr_lower a \<le> ?s") (auto simp: takeWhile_append takeWhile_tail intro!: takeWhile_eq_all_conv [THEN iffD2, symmetric])
    have "length (takeWhile (\<lambda>rng. lr_lower rng \<le> ?s) rs) \<le> length rs" by (rule length_takeWhile_le)
    then have "takeWhile (\<lambda>rng. lr_lower rng \<le> ?s) rs \<noteq> [] \<Longrightarrow> length (takeWhile (\<lambda>rng. lr_lower rng \<le> ?s) rs) - 1 < length rs"
      by (cases "takeWhile (\<lambda>rng. lr_lower rng \<le> ?s) rs") simp_all
    then have "exclusions_contains (rs @ [r]) p = exclusions_contains rs p"
      unfolding exclusions_contains_def t Let_def by (auto simp: nth_append)
    then show ?thesis using snoc.IH [OF sep(1)] False by (auto simp: covers_def)
  qed
qed (simp add: exclusions_contains_def)

lemma exclusions_Nil: "exclusions_new [] = []"
  by (simp add: exclusions_new_def coalesce_ranges_def sort_ranges_def)

lemma exclusions_contains_new:
  "exclusions_contains (exclusions_new directories) p \<longleftrightarrow> below_some directories p"
  using exclusions_contains_covers [OF exclusions_new_facts(2)] exclusions_new_facts(1) by simp

lemma visits_excluded:
  assumes "bt_ok t"
  shows "visits_as from ok visit (filter (\<lambda>p. \<not> exclusions_contains (exclusions_new directories) p) (map entry_path (mirror t None))) s
    (visit_desired_paths_excluding from ok t (exclusions_new directories) visit s)"
proof -
  let ?rs = "exclusions_new directories"
  have paths: "filter (\<lambda>p. \<not> exclusions_contains ?rs p) (map entry_path D) = map entry_path (filter (\<lambda>e. \<not> (\<exists>r \<in> set ?rs. covers r (pt e))) D)"
    for D unfolding filter_map comp_def exclusions_contains_covers [OF exclusions_new_facts(2)] ..
  have "visits_as from ok visit (map entry_path (filter (\<lambda>e. \<not> (\<exists>r \<in> set ?rs. covers r (pt e))) (mirror t None))) s
      (visit_desired_paths_excluding from ok t ?rs visit s)"
  proof (cases "?rs = []")
    case True
    have "range_sql t None None = mirror t None" by (simp add: range_sql_def mirror_def in_scope_range_def)
    then have "visits_as from ok visit (map entry_path (mirror t None) @ []) s
       (case visit_rows from ok visit 1 (range_sql t None None) s of (s, Inl e) \<Rightarrow> (s, Err e) | (s, Inr k) \<Rightarrow> (s, Ok ()))"
      by (intro visits_as_then) (simp_all add: visit_rows_visits visits_as_full)
    then show ?thesis
      unfolding visit_desired_paths_excluding_def True by (simp add: visits_as_statement)
  next
    case False
    from visit_gaps_visits [OF assms exclusions_new_facts(3), of "from" ok visit directories s 1]
    have "visits_as from ok visit (map entry_path (filter (\<lambda>e. \<not> (\<exists>r \<in> set ?rs. covers r (pt e))) (mirror t None)) @ []) s
       (case visit_gaps from ok t visit [] ?rs 1 s of (s, Inl e) \<Rightarrow> (s, Err e) | (s, Inr k) \<Rightarrow> (s, if ok k then Ok () else Err (from QueryFailed)))"
      by (intro visits_as_then) (auto intro: visits_as_full visits_as_stop [of _ "[]" "[]" "[]"])
    then show ?thesis
      unfolding visit_desired_paths_excluding_def using False by (simp add: visits_as_statement)
  qed
  then show ?thesis unfolding paths .
qed

text \<open>
  C40: enumerating outside excluded directories visits exactly the desired paths that are not strictly
  below one of them, each once and in path order, and asks \<open>contains\<close> the same question; the callback's
  first failure ends the enumeration with its error. A failing statement ends it after a leading part of
  these visits.
\<close>

theorem excluded_paths_are_skipped:
  assumes "bt_ok t"
  shows "visits_as from ok visit (filter (\<lambda>p. \<not> exclusions_contains (exclusions_new directories) p)
      (map entry_path (desired_rows_where t (\<lambda>_ _. True)))) s
      (visit_desired_paths_excluding from ok t (exclusions_new directories) visit s)
    \<and> (exclusions_contains (exclusions_new directories) p \<longleftrightarrow> (\<exists>d \<in> set directories. \<exists>q. as_str p = as_str d @ SLASH # q))
    \<and> sorted_wrt (<) (map entry_path (desired_rows_where t (\<lambda>_ _. True)))"
proof -
  have D: "desired_rows_where t (\<lambda>_ _. True) = mirror t None" by (simp add: mirror_def in_shard_def)
  have "sorted_wrt (<) (map entry_path (mirror t None))"
    using mirror_ascending [OF assms, of None] by (simp add: sorted_wrt_map less_gat_path_def)
  then show ?thesis
    unfolding D using visits_excluded [OF assms] exclusions_contains_new by (simp add: below_some_def)
qed

text \<open>Three rows, one of them below the excluded \<open>a\<close>; the row \<open>a\<close> itself is visited.\<close>

definition three_rows :: table where
  "three_rows =
     map (\<lambda>p. (GatPath p, \<lparr>sr_desired_oid = Some (Oid []), sr_desired_shard = None, sr_materialized_oid = None, sr_materialized_proof = None\<rparr>))
       [lit ''a'', lit ''a/x'', lit ''b'']"

lemma excluded_paths_are_skipped_witness:
  "visit_desired_paths_excluding id (\<lambda>_. True) three_rows (exclusions_new [GatPath (lit ''a'')]) (\<lambda>p ps. (ps @ [p], Ok ())) []
    = ([GatPath (lit ''a''), GatPath (lit ''b'')], Ok ())"
proof -
  let ?ex = "exclusions_new [GatPath (lit ''a'')]" and ?visit = "\<lambda>p ps. (ps @ [p], Ok ())"
  have "bt_ok three_rows" by (simp add: three_rows_def bt_ok_def less_gat_path_def)
  note full = excluded_paths_are_skipped [OF this, of id "\<lambda>_. True" ?visit "[GatPath (lit ''a'')]" "[]"]
  have D: "map entry_path (desired_rows_where three_rows (\<lambda>_ _. True)) = [GatPath (lit ''a''), GatPath (lit ''a/x''), GatPath (lit ''b'')]"
    by (simp add: three_rows_def desired_rows_where_def less_gat_path_def less_eq_gat_path_def)
  have kept: "filter (\<lambda>p. \<not> exclusions_contains ?ex p) [GatPath (lit ''a''), GatPath (lit ''a/x''), GatPath (lit ''b'')] = [GatPath (lit ''a''), GatPath (lit ''b'')]"
    using full by simp
  from conjunct1 [OF full] show ?thesis unfolding D kept
    by (cases "snd (visit_desired_paths_excluding id (\<lambda>_. True) three_rows ?ex ?visit [])") (simp_all add: visits_as_def prod_eq_iff)
qed

end
