(* ===== verification/InfoExclude.thy ===== *)
theory InfoExclude
  imports FileState ManagedBlock
begin

text \<open>
  Access to \<open>.git/info/exclude\<close> (\<open>gat-io/src/git/exclude.rs\<close>) and the record of what was last written
  there (\<open>gat-io/src/state/reconciliation.rs\<close>). Other processes may edit the file at any time: every call
  on the path is one tick of the environment, which says whether somebody replaced the file just before it
  and whether the call itself fails.
\<close>

section \<open>The file and its environment\<close>

text \<open>UTF-8 as the standard library validates it.\<close>

definition tail_byte :: "u8 \<Rightarrow> bool" where
  "tail_byte b \<longleftrightarrow> 0x80 \<le> b \<and> b \<le> 0xBF"

fun valid_utf8 :: "str \<Rightarrow> bool" where
  "valid_utf8 [] = True"
| "valid_utf8 (a # s) =
     (if a < 0x80 then valid_utf8 s
      else case s of
        [] \<Rightarrow> False
      | b # s1 \<Rightarrow>
          if 0xC2 \<le> a \<and> a \<le> 0xDF then tail_byte b \<and> valid_utf8 s1
          else case s1 of
            [] \<Rightarrow> False
          | c # s2 \<Rightarrow>
              if 0xE0 \<le> a \<and> a \<le> 0xEF then
                (if a = 0xE0 then 0xA0 \<le> b \<and> b \<le> 0xBF else if a = 0xED then 0x80 \<le> b \<and> b \<le> 0x9F else tail_byte b)
                \<and> tail_byte c \<and> valid_utf8 s2
              else case s2 of
                [] \<Rightarrow> False
              | d # s3 \<Rightarrow>
                  0xF0 \<le> a \<and> a \<le> 0xF4
                  \<and> (if a = 0xF0 then 0x90 \<le> b \<and> b \<le> 0xBF else if a = 0xF4 then 0x80 \<le> b \<and> b \<le> 0x8F else tail_byte b)
                  \<and> tail_byte c \<and> tail_byte d \<and> valid_utf8 s3)"

text \<open>
  \<open>xe_edits k\<close> is what another process put at the path just before call \<open>k\<close>, \<open>xe_fails k\<close> says that the
  call fails, \<open>xe_linked k\<close> is what reading through a link yields, \<open>xe_clock k\<close> the time stamped on a file
  published by it, and \<open>xe_opens\<close> whether the repository opens.
\<close>

record exclude_env =
  xe_edits :: "nat \<Rightarrow> node option"
  xe_fails :: "nat \<Rightarrow> bool"
  xe_linked :: "nat \<Rightarrow> io_kind + str"
  xe_clock :: "nat \<Rightarrow> int option"
  xe_opens :: bool

type_synonym io_state = "node \<times> nat"

fun tick :: "exclude_env \<Rightarrow> io_state \<Rightarrow> io_state" where
  "tick env (f, k) = (case xe_edits env k of Some g \<Rightarrow> g | None \<Rightarrow> f, Suc k)"

definition stat_call :: "exclude_env \<Rightarrow> io_state \<Rightarrow> (io_kind + metadata) \<times> io_state" where
  "stat_call env s = (if xe_fails env (snd s) then Err OtherIo else node_meta (fst (tick env s)), tick env s)"

definition observe_call :: "exclude_env \<Rightarrow> io_state \<Rightarrow> stat_proof option \<times> io_state" where
  "observe_call env s =
     (case stat_call env s of
        (Inl _, s) \<Rightarrow> (None, s)
      | (Inr meta, s) \<Rightarrow> (stat_proof_from_metadata meta, s))"

definition read_call :: "exclude_env \<Rightarrow> io_state \<Rightarrow> (io_kind + str) \<times> io_state" where
  "read_call env s =
     (if xe_fails env (snd s) then Err OtherIo
      else case fst (tick env s) of
             Bytes b _ _ \<Rightarrow> if valid_utf8 b then Ok b else Err OtherIo
           | Vacant \<Rightarrow> Err NotFound
           | Link _ \<Rightarrow> xe_linked env (snd s)
           | Special \<Rightarrow> Err OtherIo,
      tick env s)"

datatype info_exclude_error =
    OpenRepository
  | ExcludeRead io_kind
  | ExcludeNotRegularFile
  | ExcludeWrite
  | ExcludeRemove io_kind
  | ConcurrentModification nat
  | ExcludeFileState file_state_error
  | ExcludeUnreachable

text \<open>
  \<open>write_atomic_with_proof\<close> seen from the destination: the proof is minted from the finished temporary file,
  and the rename replaces whatever is there.
\<close>

definition publish_call :: "exclude_env \<Rightarrow> io_state \<Rightarrow> str \<Rightarrow> (info_exclude_error + stat_proof) \<times> io_state" where
  "publish_call env s contents =
     (let staged = Bytes contents (of_nat (length contents)) (xe_clock env (snd s))
      in case node_proof staged of
           None \<Rightarrow> (Err ExcludeWrite, tick env s)
         | Some proof \<Rightarrow>
             if xe_fails env (snd s) then (Err ExcludeWrite, tick env s) else (Ok proof, (staged, Suc (snd s))))"

definition remove_call :: "exclude_env \<Rightarrow> io_state \<Rightarrow> (io_kind + unit) \<times> io_state" where
  "remove_call env s =
     (if xe_fails env (snd s) then (Err OtherIo, tick env s)
      else if fst (tick env s) = Vacant then (Err NotFound, tick env s)
      else (Ok (), (Vacant, Suc (snd s))))"

section \<open>Reading\<close>

datatype info_exclude_mutation = Unchanged | ReplaceFile str | RemoveFile

record info_exclude_update =
  iu_changed :: bool
  iu_proof :: "stat_proof option"

datatype verification_state = Stale | Current "stat_proof option"

datatype exclude_source = MissingSource | Present "str coherent_observation"

fun source_contents :: "exclude_source \<Rightarrow> str" where
  "source_contents MissingSource = []"
| "source_contents (Present observation) = co_value observation"

text \<open>\<open>coherent_observation\<close> with the reading of the file between its two stats.\<close>

definition coherent_read :: "exclude_env \<Rightarrow> io_state \<Rightarrow> (info_exclude_error + str coherent_observation) \<times> io_state" where
  "coherent_read env s =
     (case observe_call env s of
        (None, s) \<Rightarrow> (Err (ExcludeFileState NotRegularFile), s)
      | (Some before, s) \<Rightarrow>
          (case read_call env s of
             (Inl e, s) \<Rightarrow> (Err (ExcludeRead e), s)
           | (Inr val, s) \<Rightarrow>
               (case observe_call env s of
                  (None, s) \<Rightarrow> (Err (ExcludeFileState Observed), s)
                | (Some after, s) \<Rightarrow>
                    (if \<not> proof_matches after before then Err (ExcludeFileState Observed)
                     else Ok \<lparr>co_value = val, co_proof = after\<rparr>, s))))"

definition acquire :: "exclude_env \<Rightarrow> io_state \<Rightarrow> (info_exclude_error + exclude_source) \<times> io_state" where
  "acquire env s =
     (case stat_call env s of
        (Inl NotFound, s) \<Rightarrow> (Ok MissingSource, s)
      | (Inl e, s) \<Rightarrow> (Err (ExcludeRead e), s)
      | (Inr metadata, s) \<Rightarrow>
          if md_kind metadata \<noteq> RegularFile then (Err ExcludeNotRegularFile, s)
          else (case coherent_read env s of (r, s) \<Rightarrow> (map_ok Present r, s)))"

definition source_is_current :: "exclude_env \<Rightarrow> io_state \<Rightarrow> exclude_source \<Rightarrow> bool \<times> io_state" where
  "source_is_current env s source =
     (case source of
        MissingSource \<Rightarrow> (case stat_call env s of (r, s) \<Rightarrow> (r = Err NotFound, s))
      | Present prior \<Rightarrow>
          (case observe_call env s of
             (Some current, s) \<Rightarrow> (proof_matches current (co_proof prior), s)
           | (None, s) \<Rightarrow> (False, s)))"

definition read_info_exclude :: "exclude_env \<Rightarrow> io_state \<Rightarrow> (info_exclude_error + str option) \<times> io_state" where
  "read_info_exclude env s =
     (if \<not> xe_opens env then (Err OpenRepository, s)
      else case acquire env s of
             (r, s) \<Rightarrow> (map_ok (\<lambda>source. case source of MissingSource \<Rightarrow> None | Present observation \<Rightarrow> Some (co_value observation)) r, s))"

section \<open>Mutating\<close>

definition CONCURRENT_MODIFICATION_RETRIES :: nat where "CONCURRENT_MODIFICATION_RETRIES = 3"

text \<open>The attempts from number \<open>attempt\<close> on, with \<open>left\<close> of them left.\<close>

fun mutate_attempts ::
  "exclude_env \<Rightarrow> bool \<Rightarrow> (str \<Rightarrow> info_exclude_mutation) \<Rightarrow> nat \<Rightarrow> nat \<Rightarrow> io_state
     \<Rightarrow> (info_exclude_error + info_exclude_update) \<times> io_state" where
  "mutate_attempts env dry_run derive attempt 0 s = (Err ExcludeUnreachable, s)"
| "mutate_attempts env dry_run derive attempt (Suc left) s =
     (case acquire env s of
        (Inl e, s) \<Rightarrow> (Err e, s)
      | (Inr source, s) \<Rightarrow>
          (let mutation = derive (source_contents source)
           in if mutation = Unchanged then (Ok \<lparr>iu_changed = False, iu_proof = None\<rparr>, s)
              else if dry_run then (Ok \<lparr>iu_changed = True, iu_proof = None\<rparr>, s)
              else
                (case source_is_current env s source of
                   (False, s) \<Rightarrow>
                     if attempt + 1 = CONCURRENT_MODIFICATION_RETRIES
                     then (Err (ConcurrentModification CONCURRENT_MODIFICATION_RETRIES), s)
                     else mutate_attempts env dry_run derive (attempt + 1) left s
                 | (True, s) \<Rightarrow>
                     (case mutation of
                        Unchanged \<Rightarrow> (Err ExcludeUnreachable, s)
                      | ReplaceFile contents \<Rightarrow>
                          (case publish_call env s contents of
                             (r, s) \<Rightarrow> (map_ok (\<lambda>proof. \<lparr>iu_changed = True, iu_proof = Some proof\<rparr>) r, s))
                      | RemoveFile \<Rightarrow>
                          (case remove_call env s of
                             (r, s) \<Rightarrow> (map_ok (\<lambda>_. \<lparr>iu_changed = True, iu_proof = None\<rparr>) (map_err ExcludeRemove r), s))))))"

definition mutate_info_exclude ::
  "exclude_env \<Rightarrow> bool \<Rightarrow> (str \<Rightarrow> info_exclude_mutation) \<Rightarrow> io_state \<Rightarrow> (info_exclude_error + info_exclude_update) \<times> io_state" where
  "mutate_info_exclude env dry_run derive s =
     (if \<not> xe_opens env then (Err OpenRepository, s)
      else mutate_attempts env dry_run derive 0 CONCURRENT_MODIFICATION_RETRIES s)"

section \<open>The record\<close>

record exclude_record =
  er_fingerprint :: "u8 list option"
  er_count :: nat
  er_block_identity :: "u8 list option"
  er_proof :: "stat_proof option"

definition verify_info_exclude ::
  "exclude_env \<Rightarrow> (str \<Rightarrow> u8 list) \<Rightarrow> exclude_record \<Rightarrow> str \<Rightarrow> str \<Rightarrow> io_state \<Rightarrow> (info_exclude_error + verification_state) \<times> io_state" where
  "verify_info_exclude env H prior_record begin_m end_m s =
     (if \<not> xe_opens env then (Err OpenRepository, s)
      else
        (let (hit, s) =
               (case er_proof prior_record of
                  None \<Rightarrow> (False, s)
                | Some prior \<Rightarrow>
                    (case observe_call env s of
                       (Some current, s) \<Rightarrow> (proof_matches current prior, s)
                     | (None, s) \<Rightarrow> (False, s)))
         in if hit then (Ok (Current None), s)
            else case acquire env s of
                   (Inl e, s) \<Rightarrow> (Err e, s)
                 | (Inr MissingSource, s) \<Rightarrow> (Ok Stale, s)
                 | (Inr (Present observation), s) \<Rightarrow>
                     (let ident = map_option H (extract_body (co_value observation) begin_m end_m)
                      in (Ok (if ident \<noteq> None \<and> ident = er_block_identity prior_record
                              then Current (Some (co_proof observation)) else Stale), s))))"

section \<open>What concurrent editors cannot lose\<close>

definition after_ticks :: "exclude_env \<Rightarrow> io_state \<Rightarrow> nat \<Rightarrow> io_state" where
  "after_ticks env s n = (tick env ^^ n) s"

lemma after_ticks_simps [simp]: "after_ticks env s 0 = s" "after_ticks env (tick env s) n = after_ticks env s (Suc n)"
  by (simp_all add: after_ticks_def funpow_swap1)

lemma tick_after [simp]: "tick env (after_ticks env s n) = after_ticks env s (Suc n)"
  by (simp add: after_ticks_def)

lemma after_after [simp]: "after_ticks env (after_ticks env s n) m = after_ticks env s (n + m)"
  by (simp add: after_ticks_def funpow_add add.commute [of n])

lemma after_one: "tick env s = after_ticks env s 1"
  by (simp add: after_ticks_def)

text \<open>
  Stat proofs are believed: a proof that is seen twice means that nothing happened to the file in between.
\<close>

definition honest_stats :: "exclude_env \<Rightarrow> io_state \<Rightarrow> bool" where
  "honest_stats env s \<longleftrightarrow>
     (\<forall>i l j p. i \<le> l \<longrightarrow> l \<le> j \<longrightarrow> node_proof (fst (after_ticks env s i)) = Some p \<longrightarrow> node_proof (fst (after_ticks env s j)) = Some p
        \<longrightarrow> fst (after_ticks env s l) = fst (after_ticks env s i))"

lemma honest_same:
  "honest_stats env s \<Longrightarrow> i \<le> l \<Longrightarrow> l \<le> j \<Longrightarrow> node_proof (fst (after_ticks env s i)) = Some p
    \<Longrightarrow> node_proof (fst (after_ticks env s j)) = Some p \<Longrightarrow> fst (after_ticks env s l) = fst (after_ticks env s i)"
  unfolding honest_stats_def by blast

lemma honest_stats_after: "honest_stats env s \<Longrightarrow> honest_stats env (after_ticks env s n)"
  unfolding honest_stats_def after_after by (meson add_le_cancel_left)

fun text_of :: "node \<Rightarrow> str option" where
  "text_of Vacant = Some []"
| "text_of (Bytes b len t) = Some b"
| "text_of _ = None"

lemma meta_proof: "node_meta f = Ok m \<Longrightarrow> stat_proof_from_metadata m = node_proof f"
  by (cases f) (auto simp: stat_proof_from_metadata_def)

lemma observe_call_Some: "observe_call env s = (Some p, s') \<Longrightarrow> s' = tick env s \<and> node_proof (fst (tick env s)) = Some p"
  by (auto simp: observe_call_def stat_call_def meta_proof split: prod.splits sum.splits if_splits)

lemma observe_call_after: "snd (observe_call env s) = tick env s"
  by (auto simp: observe_call_def stat_call_def split: prod.splits sum.splits)

lemma read_call_after: "snd (read_call env s) = tick env s"
  by (simp add: read_call_def)

lemma coherent_read_after: "\<exists>n \<le> 3. snd (coherent_read env s) = after_ticks env s n"
proof -
  have "snd (coherent_read env s) \<in> after_ticks env s ` {1, 2, 3}"
    using observe_call_after [of env s] read_call_after [of env "tick env s"] observe_call_after [of env "tick env (tick env s)"]
    unfolding coherent_read_def by (auto simp: after_one eval_nat_numeral split: prod.splits option.splits sum.splits)
  then obtain n where "n \<in> {1, 2, 3}" "snd (coherent_read env s) = after_ticks env s n" by blast
  then show ?thesis by (intro exI [of _ n]) auto
qed

lemma coherent_read_Ok:
  assumes "coherent_read env s = (Ok obs, s')"
  shows "s' = after_ticks env s 3 \<and> node_proof (fst (after_ticks env s 1)) = Some (co_proof obs)
    \<and> fst (read_call env (after_ticks env s 1)) = Ok (co_value obs) \<and> node_proof (fst (after_ticks env s 3)) = Some (co_proof obs)"
proof -
  obtain before s1 where o1: "observe_call env s = (Some before, s1)"
    using assms by (auto simp: coherent_read_def split: prod.splits option.splits)
  note p1 = observe_call_Some [OF o1]
  obtain val s2 where r: "read_call env s1 = (Ok val, s2)"
    using assms by (auto simp: coherent_read_def o1 split: prod.splits sum.splits)
  have s2: "s2 = tick env s1" using read_call_after [of env s1] r by simp
  obtain after s3 where o2: "observe_call env s2 = (Some after, s3)"
    using assms by (auto simp: coherent_read_def o1 r split: prod.splits option.splits)
  note p2 = observe_call_Some [OF o2]
  have "proof_matches after before" "co_value obs = val" "co_proof obs = after" "s' = s3"
    using assms by (auto simp: coherent_read_def o1 r o2 split: if_splits)
  then show ?thesis
    using p1 p2 s2 r by (simp add: proof_matches_eq after_one numeral_3_eq_3)
qed

lemma acquire_after: "\<exists>n \<le> 4. snd (acquire env s) = after_ticks env s n"
proof -
  obtain n where n: "n \<le> 3" "snd (coherent_read env (tick env s)) = after_ticks env s (Suc n)"
    using coherent_read_after [of env "tick env s"] by (auto simp: after_one)
  have "snd (acquire env s) = tick env s \<or> snd (acquire env s) = snd (coherent_read env (tick env s))"
    unfolding acquire_def stat_call_def by (auto split: prod.splits sum.splits io_kind.splits)
  then show ?thesis
    using n by (elim disjE) (auto simp: after_one intro: exI [of _ 1] exI [of _ "Suc n"])
qed

text \<open>What was read is what was there.\<close>

lemma acquire_Ok:
  assumes "acquire env s = (Ok source, s')" "honest_stats env s"
  shows "\<exists>n \<le> 4. s' = after_ticks env s n \<and> text_of (fst s') = Some (source_contents source)
    \<and> (case source of MissingSource \<Rightarrow> fst s' = Vacant
       | Present observation \<Rightarrow> n = 4 \<and> node_proof (fst s') = Some (co_proof observation) \<and> valid_utf8 (co_value observation))"
proof (cases source)
  case MissingSource
  then have "s' = tick env s \<and> node_meta (fst (tick env s)) = Err NotFound"
    using assms(1) by (auto simp: acquire_def stat_call_def map_ok_eq_Inr split: prod.splits sum.splits io_kind.splits if_splits)
  moreover have "node_meta f = Err NotFound \<Longrightarrow> f = Vacant" for f by (cases f) auto
  ultimately have "s' = after_ticks env s 1" "fst s' = Vacant" by (auto simp: after_one)
  then show ?thesis using MissingSource by (intro exI [of _ 1]) simp
next
  case (Present obs)
  then have "coherent_read env (tick env s) = (Ok obs, s')"
    using assms(1) by (auto simp: acquire_def stat_call_def map_ok_eq_Inr split: prod.splits sum.splits io_kind.splits if_splits)
  from coherent_read_Ok [OF this] have c: "s' = after_ticks env s 4" "node_proof (fst (after_ticks env s 2)) = Some (co_proof obs)"
    "fst (read_call env (after_ticks env s 2)) = Ok (co_value obs)" "node_proof (fst (after_ticks env s 4)) = Some (co_proof obs)"
    by (simp_all add: after_one eval_nat_numeral)
  have same: "fst (after_ticks env s 3) = fst (after_ticks env s 2)" "fst (after_ticks env s 4) = fst (after_ticks env s 2)"
    by (rule honest_same [OF assms(2) _ _ c(2,4)]; simp)+
  obtain b len t where b: "fst (after_ticks env s 2) = Bytes b len t"
    using c(2) by (cases "fst (after_ticks env s 2)") auto
  have "tick env (after_ticks env s 2) = after_ticks env s 3" by (simp add: eval_nat_numeral)
  then have "co_value obs = b \<and> valid_utf8 b"
    using c(3) same(1) b by (auto simp: read_call_def split: if_splits)
  then show ?thesis using Present c(1,4) same(2) b by (intro exI [of _ 4]) simp
qed

lemma source_is_current_after: "snd (source_is_current env s source) = tick env s"
  using observe_call_after [of env s]
  by (auto simp: source_is_current_def stat_call_def split: exclude_source.splits prod.splits option.splits)

lemma source_is_current_True:
  assumes "source_is_current env s source = (True, s')"
  shows "case source of MissingSource \<Rightarrow> fst s' = Vacant | Present observation \<Rightarrow> node_proof (fst s') = Some (co_proof observation)"
proof (cases source)
  case MissingSource
  have "node_meta f = Err NotFound \<Longrightarrow> f = Vacant" for f by (cases f) auto
  then show ?thesis using assms MissingSource by (auto simp: source_is_current_def stat_call_def split: prod.splits if_splits)
next
  case (Present obs)
  then show ?thesis
    using assms observe_call_Some [of env s] by (auto simp: source_is_current_def proof_matches_eq split: prod.splits option.splits)
qed

text \<open>The outcome of a mutation that started at \<open>s\<close>, within \<open>bound\<close> calls.\<close>

definition mutated_safely ::
  "exclude_env \<Rightarrow> bool \<Rightarrow> (str \<Rightarrow> info_exclude_mutation) \<Rightarrow> nat \<Rightarrow> io_state \<Rightarrow> (info_exclude_error + info_exclude_update) \<times> io_state \<Rightarrow> bool" where
  "mutated_safely env dry_run derive bound s out \<longleftrightarrow>
     (case out of
        (Inl e, s') \<Rightarrow> e \<noteq> ExcludeUnreachable \<and> (\<exists>n \<le> bound. s' = after_ticks env s n)
      | (Inr u, s') \<Rightarrow>
          (\<exists>n < bound. \<exists>t. text_of (fst (after_ticks env s n)) = Some t
            \<and> (iu_changed u \<longleftrightarrow> derive t \<noteq> Unchanged)
            \<and> (if iu_changed u \<and> \<not> dry_run then
                 snd s' = Suc (snd (after_ticks env s n))
                 \<and> (case derive t of
                      Unchanged \<Rightarrow> False
                    | ReplaceFile c \<Rightarrow> text_of (fst s') = Some c \<and> iu_proof u = node_proof (fst s') \<and> iu_proof u \<noteq> None
                    | RemoveFile \<Rightarrow> fst s' = Vacant \<and> iu_proof u = None)
               else s' = after_ticks env s n \<and> iu_proof u = None)))"

lemma mutated_safely_shift:
  assumes "mutated_safely env dry_run derive b (after_ticks env s m) out" "m + b \<le> b'"
  shows "mutated_safely env dry_run derive b' s out"
proof -
  obtain r s' where Pair: "out = (r, s')" by (cases out rule: prod.exhaust)
  show ?thesis
  proof (cases r)
    case (Inl e)
    then obtain n where n: "n \<le> b" "s' = after_ticks env s (m + n)" "e \<noteq> ExcludeUnreachable"
      using assms(1) by (auto simp: mutated_safely_def Pair)
    have "m + n \<le> b'" using n(1) assms(2) by simp
    then show ?thesis unfolding mutated_safely_def Pair Inl prod.case sum.case using n(2,3) by blast
  next
    case (Inr u)
    then obtain n t where "n < b" and rest: "text_of (fst (after_ticks env s (m + n))) = Some t
      \<and> (iu_changed u \<longleftrightarrow> derive t \<noteq> Unchanged)
      \<and> (if iu_changed u \<and> \<not> dry_run then
           snd s' = Suc (snd (after_ticks env s (m + n)))
           \<and> (case derive t of
                Unchanged \<Rightarrow> False
              | ReplaceFile c \<Rightarrow> text_of (fst s') = Some c \<and> iu_proof u = node_proof (fst s') \<and> iu_proof u \<noteq> None
              | RemoveFile \<Rightarrow> fst s' = Vacant \<and> iu_proof u = None)
         else s' = after_ticks env s (m + n) \<and> iu_proof u = None)"
      using assms(1) unfolding mutated_safely_def Pair Inr prod.case sum.case after_after by blast
    moreover have "m + n < b'" using \<open>n < b\<close> assms(2) by simp
    ultimately show ?thesis unfolding mutated_safely_def Pair Inr prod.case sum.case by blast
  qed
qed

lemma mutated_safely_Err:
  "e \<noteq> ExcludeUnreachable \<Longrightarrow> n \<le> b \<Longrightarrow> mutated_safely env dry_run derive b s (Err e, after_ticks env s n)"
  unfolding mutated_safely_def prod.case sum.case by blast

lemma mutated_safely_keep:
  assumes "n < b" "text_of (fst (after_ticks env s n)) = Some t" "iu_changed u \<longleftrightarrow> derive t \<noteq> Unchanged"
    "\<not> (iu_changed u \<and> \<not> dry_run)" "iu_proof u = None"
  shows "mutated_safely env dry_run derive b s (Ok u, after_ticks env s n)"
  unfolding mutated_safely_def prod.case sum.case using assms by (intro exI [of _ n] conjI exI [of _ t]) simp_all

lemma mutated_safely_write:
  assumes "n < b" "text_of (fst (after_ticks env s n)) = Some t" "iu_changed u" "\<not> dry_run" "derive t \<noteq> Unchanged"
    "case derive t of Unchanged \<Rightarrow> False
     | ReplaceFile c \<Rightarrow> text_of f = Some c \<and> iu_proof u = node_proof f \<and> iu_proof u \<noteq> None
     | RemoveFile \<Rightarrow> f = Vacant \<and> iu_proof u = None"
  shows "mutated_safely env dry_run derive b s (Ok u, (f, Suc (snd (after_ticks env s n))))"
  unfolding mutated_safely_def prod.case sum.case fst_conv snd_conv
  using assms by (intro exI [of _ n] conjI exI [of _ t]) simp_all

lemma mutate_attempts_safely:
  "honest_stats env s \<Longrightarrow> attempt + left = CONCURRENT_MODIFICATION_RETRIES \<Longrightarrow> 0 < left \<Longrightarrow>
     mutated_safely env dry_run derive (6 * left) s (mutate_attempts env dry_run derive attempt left s)"
proof (induction left arbitrary: attempt s)
  case (Suc left)
  obtain r s1 where a: "acquire env s = (r, s1)" by (cases "acquire env s")
  show ?case
  proof (cases r)
    case (Inl e)
    have "e \<noteq> ExcludeUnreachable"
      using a by (auto simp: Inl acquire_def coherent_read_def map_ok_def split: prod.splits sum.splits option.splits if_splits io_kind.splits)
    moreover obtain n where n: "n \<le> 4" "s1 = after_ticks env s n" using acquire_after [of env s] unfolding a by auto
    moreover have "n \<le> 6 * Suc left" using n(1) by simp
    ultimately have "mutated_safely env dry_run derive (6 * Suc left) s (Err e, s1)"
      using \<open>e \<noteq> ExcludeUnreachable\<close> by (simp only: mutated_safely_Err)
    then show ?thesis by (simp add: a Inl)
  next
    case (Inr source)
    obtain n where n: "n \<le> 4" "s1 = after_ticks env s n" "text_of (fst s1) = Some (source_contents source)"
      and src: "case source of MissingSource \<Rightarrow> fst s1 = Vacant
       | Present observation \<Rightarrow> n = 4 \<and> node_proof (fst s1) = Some (co_proof observation) \<and> valid_utf8 (co_value observation)"
      using acquire_Ok [OF a [unfolded Inr] Suc.prems(1)] by blast
    let ?t = "source_contents source"
    show ?thesis
    proof (cases "derive ?t = Unchanged \<or> dry_run")
      case True
      have "n < 6 * Suc left" using n(1) by simp
      from mutated_safely_keep [of n "6 * Suc left" env s ?t "\<lparr>iu_changed = derive ?t \<noteq> Unchanged, iu_proof = None\<rparr>" derive dry_run, OF this] n(2,3) True
      show ?thesis by (auto simp: a Inr Let_def simp del: mult_Suc_right)
    next
      case False
      obtain ok s2 where c: "source_is_current env s1 source = (ok, s2)" by (cases "source_is_current env s1 source")
      have s2: "s2 = after_ticks env s (Suc n)" using source_is_current_after [of env s1 source] c n(2) by simp
      show ?thesis
      proof (cases ok)
        case True
        have c': "source_is_current env s1 source = (True, s2)" using c True by simp
        have same: "text_of (fst s2) = Some ?t"
        proof (cases source)
          case MissingSource
          then show ?thesis using source_is_current_True [OF c'] by simp
        next
          case (Present obs)
          then have "node_proof (fst (after_ticks env s n)) = Some (co_proof obs)" "node_proof (fst (after_ticks env s (Suc n))) = Some (co_proof obs)"
            using source_is_current_True [OF c'] src n(2) s2 by auto
          then have "fst s2 = fst s1" unfolding n(2) s2 by (rule honest_same [OF Suc.prems(1) le_SucI [OF le_refl] le_refl])
          then show ?thesis using n(3) by simp
        qed
        have out: "mutate_attempts env dry_run derive attempt (Suc left) s =
            (case derive ?t of
               Unchanged \<Rightarrow> (Err ExcludeUnreachable, s2)
             | ReplaceFile contents \<Rightarrow> (case publish_call env s2 contents of (r, s) \<Rightarrow> (map_ok (\<lambda>proof. \<lparr>iu_changed = True, iu_proof = Some proof\<rparr>) r, s))
             | RemoveFile \<Rightarrow> (case remove_call env s2 of (r, s) \<Rightarrow> (map_ok (\<lambda>_. \<lparr>iu_changed = True, iu_proof = None\<rparr>) (map_err ExcludeRemove r), s)))"
          using False by (simp add: a Inr Let_def c True)
        have bound: "Suc n < 6 * Suc left" "Suc (Suc n) \<le> 6 * Suc left" using n(1) by simp_all
        show ?thesis
        proof (cases "derive ?t")
          case Unchanged
          then show ?thesis using False by simp
        next
          case (ReplaceFile contents)
          let ?staged = "Bytes contents (of_nat (length contents)) (xe_clock env (snd s2))"
          show ?thesis
          proof (cases "node_proof ?staged = None \<or> xe_fails env (snd s2)")
            case True
            then have "mutate_attempts env dry_run derive attempt (Suc left) s = (Err ExcludeWrite, after_ticks env s (Suc (Suc n)))"
              unfolding out ReplaceFile by (auto simp: publish_call_def Let_def s2 split: option.split)
            then show ?thesis using mutated_safely_Err [OF _ bound(2), of ExcludeWrite env dry_run derive s] by (simp del: mult_Suc_right mutate_attempts.simps)
          next
            case written: False
            then obtain p where p: "node_proof ?staged = Some p" by (cases "node_proof ?staged") (simp_all del: node_proof.simps)
            have "mutate_attempts env dry_run derive attempt (Suc left) s = (Ok \<lparr>iu_changed = True, iu_proof = Some p\<rparr>, (?staged, Suc (snd s2)))"
              unfolding out ReplaceFile using written p by (simp add: publish_call_def Let_def)
            then show ?thesis
              using mutated_safely_write [OF bound(1) same [unfolded s2], of "\<lparr>iu_changed = True, iu_proof = Some p\<rparr>" dry_run derive ?staged] False ReplaceFile p
              by (simp add: s2 del: mult_Suc_right node_proof.simps mutate_attempts.simps)
          qed
        next
          case RemoveFile
          show ?thesis
          proof (cases "fst (remove_call env s2)")
            case (Inl e)
            then have "mutate_attempts env dry_run derive attempt (Suc left) s = (Err (ExcludeRemove e), after_ticks env s (Suc (Suc n)))"
              unfolding out RemoveFile by (auto simp: remove_call_def s2 split: if_splits)
            then show ?thesis using mutated_safely_Err [OF _ bound(2), of "ExcludeRemove e" env dry_run derive s] by (simp del: mult_Suc_right mutate_attempts.simps)
          next
            case (Inr x)
            then have "mutate_attempts env dry_run derive attempt (Suc left) s = (Ok \<lparr>iu_changed = True, iu_proof = None\<rparr>, (Vacant, Suc (snd s2)))"
              unfolding out RemoveFile by (auto simp: remove_call_def split: if_splits)
            then show ?thesis
              using mutated_safely_write [OF bound(1) same [unfolded s2], of "\<lparr>iu_changed = True, iu_proof = None\<rparr>" dry_run derive Vacant] False RemoveFile
              by (simp add: s2 del: mult_Suc_right mutate_attempts.simps)
          qed
        qed
      next
        case False': False
        show ?thesis
        proof (cases "left = 0")
          case True
          then have "attempt + 1 = CONCURRENT_MODIFICATION_RETRIES" using Suc.prems(2) by simp
          then have "mutate_attempts env dry_run derive attempt (Suc left) s = (Err (ConcurrentModification CONCURRENT_MODIFICATION_RETRIES), after_ticks env s (Suc n))"
            using False False' by (simp add: a Inr Let_def c s2)
          moreover have "Suc n \<le> 6 * Suc left" using n(1) by simp
          ultimately show ?thesis using mutated_safely_Err [of "ConcurrentModification CONCURRENT_MODIFICATION_RETRIES" "Suc n"] by (simp del: mult_Suc_right mutate_attempts.simps)
        next
          case left: False
          then have "attempt + 1 \<noteq> CONCURRENT_MODIFICATION_RETRIES" using Suc.prems(2) by simp
          then have out: "mutate_attempts env dry_run derive attempt (Suc left) s = mutate_attempts env dry_run derive (attempt + 1) left (after_ticks env s (Suc n))"
            using False False' by (simp add: a Inr Let_def c s2)
          have "mutated_safely env dry_run derive (6 * left) (after_ticks env s (Suc n)) (mutate_attempts env dry_run derive (attempt + 1) left (after_ticks env s (Suc n)))"
            by (rule Suc.IH) (use Suc.prems left in \<open>simp_all add: honest_stats_after\<close>)
          then show ?thesis unfolding out by (rule mutated_safely_shift) (use n(1) in simp)
        qed
      qed
    qed
  qed
qed simp

lemma quiet_after:
  "\<forall>k. xe_edits env k = None \<Longrightarrow> fst (after_ticks env s n) = fst s"
proof (induction n)
  case (Suc n)
  then have "fst (tick env (after_ticks env s n)) = fst s" by (cases "after_ticks env s n") simp
  then show ?case by simp
qed simp

lemma undisturbed_is_current:
  assumes "\<forall>k. xe_edits env k = None" "\<forall>k. \<not> xe_fails env k" "honest_stats env s" "acquire env s = (Ok source, s1)"
  shows "source_is_current env s1 source = (True, tick env s1)"
proof -
  obtain n where n: "s1 = after_ticks env s n" "case source of MissingSource \<Rightarrow> fst s1 = Vacant
       | Present observation \<Rightarrow> n = 4 \<and> node_proof (fst s1) = Some (co_proof observation) \<and> valid_utf8 (co_value observation)"
    using acquire_Ok [OF assms(4,3)] by blast
  have f: "fst (tick env s1) = fst s1" using quiet_after [OF assms(1), of s1 1] by (simp add: after_ticks_def)
  show ?thesis
  proof (cases source)
    case MissingSource
    then show ?thesis using n(2) f assms(2) by (simp add: source_is_current_def stat_call_def)
  next
    case (Present obs)
    then obtain b len t where b: "fst s1 = Bytes b len t" "node_proof (fst s1) = Some (co_proof obs)"
      using n(2) by (cases "fst s1") auto
    then have "stat_proof_from_metadata \<lparr>md_kind = RegularFile, md_len = len, md_modified = t\<rparr> = Some (co_proof obs)"
      using meta_proof [of "fst s1"] by simp
    then show ?thesis
      using Present b f assms(2) by (simp add: source_is_current_def observe_call_def stat_call_def proof_matches_eq)
  qed
qed

lemma mutate_safely:
  assumes "honest_stats env s" "xe_opens env"
  shows "mutated_safely env dry_run derive 18 s (mutate_info_exclude env dry_run derive s)"
proof -
  have "mutated_safely env dry_run derive (6 * 3) s (mutate_attempts env dry_run derive 0 3 s)"
    by (rule mutate_attempts_safely [OF assms(1)]) (simp_all add: CONCURRENT_MODIFICATION_RETRIES_def)
  then show ?thesis using assms(2) by (simp add: mutate_info_exclude_def CONCURRENT_MODIFICATION_RETRIES_def)
qed

text \<open>
  Mutating \<open>.git/info/exclude\<close> never loses a concurrent edit. As long as a stat proof that is seen
  twice means an untouched file, a mutation that reports a change has published the mutation of exactly
  the text the file had at the moment of revalidation, with the proof of the published file, or removed
  the file in that state; a mutation that reports none, fails or runs dry has not touched the file, and
  answers for a text the file did have. At most eighteen calls are made, and without other editors and
  failing calls the first attempt is the last.
\<close>

theorem mutations_lose_no_edit:
  assumes "honest_stats env s" "mutate_info_exclude env dry_run derive s = (r, s')"
  shows "(case r of
        Inl e \<Rightarrow> e \<noteq> ExcludeUnreachable \<and> (\<exists>n \<le> 18. s' = after_ticks env s n)
          \<and> ((\<forall>k. xe_edits env k = None \<and> \<not> xe_fails env k) \<longrightarrow> e \<noteq> ConcurrentModification CONCURRENT_MODIFICATION_RETRIES)
      | Inr u \<Rightarrow>
          (\<exists>n < 18. \<exists>t. text_of (fst (after_ticks env s n)) = Some t
            \<and> (iu_changed u \<longleftrightarrow> derive t \<noteq> Unchanged)
            \<and> (if iu_changed u \<and> \<not> dry_run then
                 snd s' = Suc (snd (after_ticks env s n))
                 \<and> (case derive t of
                      Unchanged \<Rightarrow> False
                    | ReplaceFile c \<Rightarrow> text_of (fst s') = Some c \<and> iu_proof u = node_proof (fst s') \<and> iu_proof u \<noteq> None
                    | RemoveFile \<Rightarrow> fst s' = Vacant \<and> iu_proof u = None)
               else s' = after_ticks env s n \<and> iu_proof u = None)))"
proof (cases "xe_opens env")
  case False
  then show ?thesis using assms(2) by (auto simp: mutate_info_exclude_def intro!: exI [of _ 0])
next
  case True
  then have out: "mutate_attempts env dry_run derive 0 3 s = (r, s')"
    using assms(2) by (simp add: mutate_info_exclude_def CONCURRENT_MODIFICATION_RETRIES_def)
  have safe: "mutated_safely env dry_run derive 18 s (r, s')" using mutate_safely [OF assms(1) True] assms(2) by metis
  have quiet: "e \<noteq> ConcurrentModification CONCURRENT_MODIFICATION_RETRIES"
    if "r = Err e" "\<forall>k. xe_edits env k = None \<and> \<not> xe_fails env k" for e
  proof -
    obtain a s1 where a: "acquire env s = (a, s1)" by (cases "acquire env s")
    show ?thesis
    proof (cases a)
      case (Inl e')
      then have "e' = e" using out that(1) by (simp add: a eval_nat_numeral)
      then show ?thesis
        using a by (auto simp: Inl acquire_def coherent_read_def map_ok_def split: prod.splits sum.splits option.splits if_splits io_kind.splits)
    next
      case (Inr source)
      have "source_is_current env s1 source = (True, tick env s1)"
        by (rule undisturbed_is_current [OF _ _ assms(1) a [unfolded Inr]]) (use that(2) in simp_all)
      then show ?thesis
        using out that(1) by (auto simp: a Inr eval_nat_numeral Let_def publish_call_def remove_call_def map_ok_def map_err_def
            split: if_splits info_exclude_mutation.splits option.splits prod.splits sum.splits)
    qed
  qed
  show ?thesis
  proof (cases r)
    case (Inl e)
    with safe quiet [OF Inl] show ?thesis unfolding mutated_safely_def by simp
  next
    case (Inr u)
    with safe show ?thesis unfolding mutated_safely_def by simp
  qed
qed

text \<open>An editor replaces the file between the reading and the revalidation: the second attempt extends the editor's text.\<close>

definition editor_at_work :: exclude_env where
  "editor_at_work =
     \<lparr>xe_edits = (\<lambda>k. if k = 4 then Some (Bytes [98] 1 (Some 2)) else None), xe_fails = (\<lambda>_. False),
      xe_linked = (\<lambda>_. Err NotFound), xe_clock = (\<lambda>_. Some 9), xe_opens = True\<rparr>"

lemma editor_after:
  "after_ticks editor_at_work (Bytes [97] 1 (Some 1), 0) n = (if n \<le> 4 then Bytes [97] 1 (Some 1) else Bytes [98] 1 (Some 2), n)"
proof (induction n)
  case (Suc n)
  have "after_ticks editor_at_work (Bytes [97] 1 (Some 1), 0) (Suc n) = tick editor_at_work (after_ticks editor_at_work (Bytes [97] 1 (Some 1), 0) n)"
    by simp
  also have "\<dots> = (if Suc n \<le> 4 then Bytes [97] 1 (Some 1) else Bytes [98] 1 (Some 2), Suc n)"
    unfolding Suc.IH by (auto simp: editor_at_work_def)
  finally show ?case .
qed simp

lemma mutations_lose_no_edit_witness:
  "\<exists>u f k. mutate_info_exclude editor_at_work False (\<lambda>t. ReplaceFile (t @ [99])) (Bytes [97] 1 (Some 1), 0) = (Ok u, (f, k))
     \<and> iu_changed u \<and> text_of f = Some [98, 99]"
proof -
  let ?s = "(Bytes [97] 1 (Some 1), 0)" and ?derive = "\<lambda>t. ReplaceFile (t @ [99])"
  have honest: "honest_stats editor_at_work ?s"
    unfolding honest_stats_def editor_after by (auto simp: proof_from_timestamp_def split: if_splits)
  have run: "mutate_info_exclude editor_at_work False ?derive ?s
      = (Ok \<lparr>iu_changed = True, iu_proof = Some \<lparr>sp_size = 2, sp_mtime_secs = 0, sp_mtime_nanos = 9\<rparr>\<rparr>, (Bytes [98, 99] 2 (Some 9), 11))"
    by code_simp
  show ?thesis
    using mutations_lose_no_edit [OF honest run] run by auto
qed

end
