(* ===== verification/ManagedExcludes.thy ===== *)
theory ManagedExcludes
  imports InfoExclude PathEnumeration ConfigModel
begin

text \<open>
  The managed block of \<open>.git/info/exclude\<close> (\<open>gat-engine/src/excludes\<close>): which tracked paths the configured
  patterns already cover, the rules written for the others, and the three ways to bring the block up to
  date. What the Git-ignore engine answers for one path is the parameter \<open>M\<close>: the patterns, the path and
  whether it is a directory give whether a pattern matches and, if so, whether it is negative. \<open>debug\<close> is
  the escaped form of a string literal and \<open>H\<close> the content hash.
\<close>

section \<open>Characters\<close>

text \<open>The scalar values of a text and the Unicode classes the code asks for.\<close>

function utf8_chars :: "str \<Rightarrow> nat list" where
  "utf8_chars s = (case split_last_char s of None \<Rightarrow> [] | Some (before, ch) \<Rightarrow> utf8_chars before @ [decode_utf8 ch])"
  by pat_completeness auto

termination utf8_chars
  by (relation "measure length") (auto simp: split_last_char_def Let_def split: if_splits)

declare utf8_chars.simps [simp del]

definition is_whitespace :: "nat \<Rightarrow> bool" where
  "is_whitespace c \<longleftrightarrow>
     (9 \<le> c \<and> c \<le> 13) \<or> c = 32 \<or> c = 0x85 \<or> c = 0xA0 \<or> c = 0x1680 \<or> (0x2000 \<le> c \<and> c \<le> 0x200A)
     \<or> c = 0x2028 \<or> c = 0x2029 \<or> c = 0x202F \<or> c = 0x205F \<or> c = 0x3000"

definition is_control :: "nat \<Rightarrow> bool" where
  "is_control c \<longleftrightarrow> c < 32 \<or> (0x7F \<le> c \<and> c \<le> 0x9F)"

section \<open>Coverage\<close>

fun pattern_text :: "git_ignore_pattern \<Rightarrow> str" where
  "pattern_text (GitIgnorePattern s) = s"

definition literal_directory :: "str \<Rightarrow> gat_path option" where
  "literal_directory pat =
     Option.bind (Option.bind (strip_prefix [SLASH] pat) (strip_suffix [SLASH])) (\<lambda>directory.
       if list_ex (\<lambda>c. is_whitespace c \<or> is_control c \<or> c \<in> {42, 63, 91, 93, 92}) (utf8_chars directory) then None
       else case parse_canonical directory of Inr p \<Rightarrow> Some p | Inl _ \<Rightarrow> None)"

text \<open>\<open>GitIgnoreMatcher::is_ignored\<close>: every ancestor directory, then the path itself; the last answer counts.\<close>

definition is_ignored :: "(str list \<Rightarrow> str \<Rightarrow> bool \<Rightarrow> bool option) \<Rightarrow> str list \<Rightarrow> str \<Rightarrow> bool" where
  "is_ignored M patterns rel =
     (let ignored = foldl (\<lambda>ignored index.
            if rel ! index = SLASH then
              (case M patterns (take index rel) True of Some negative \<Rightarrow> \<not> negative | None \<Rightarrow> ignored)
            else ignored) False [0..<length rel]
      in case M patterns rel False of Some negative \<Rightarrow> \<not> negative | None \<Rightarrow> ignored)"

record ignore_coverage_plan =
  icp_excluded :: "lexical_range list"
  icp_residual :: "str list option"

fun split_patterns :: "git_ignore_pattern list \<Rightarrow> gat_path list \<Rightarrow> str list \<Rightarrow> gat_path list \<times> str list" where
  "split_patterns [] directories residual = (directories, residual)"
| "split_patterns (pat # patterns) directories residual =
     (case literal_directory (pattern_text pat) of
        Some directory \<Rightarrow> split_patterns patterns (directories @ [directory]) residual
      | None \<Rightarrow> split_patterns patterns directories (residual @ [pattern_text pat]))"

definition coverage_plan_new :: "git_ignore_pattern list \<Rightarrow> ignore_coverage_plan" where
  "coverage_plan_new patterns =
     (case split_patterns patterns [] [] of
        (directories, residual) \<Rightarrow>
          \<lparr>icp_excluded = exclusions_new directories, icp_residual = (if residual = [] then None else Some residual)\<rparr>)"

definition residual_matches :: "(str list \<Rightarrow> str \<Rightarrow> bool \<Rightarrow> bool option) \<Rightarrow> ignore_coverage_plan \<Rightarrow> gat_path \<Rightarrow> bool" where
  "residual_matches M self path = (case icp_residual self of None \<Rightarrow> False | Some residual \<Rightarrow> is_ignored M residual (as_str path))"

definition coverage_plan_covers :: "(str list \<Rightarrow> str \<Rightarrow> bool \<Rightarrow> bool option) \<Rightarrow> ignore_coverage_plan \<Rightarrow> gat_path \<Rightarrow> bool" where
  "coverage_plan_covers M self path \<longleftrightarrow> exclusions_contains (icp_excluded self) path \<or> residual_matches M self path"

section \<open>The body of the block\<close>

definition EXCLUDE_BEGIN :: str where "EXCLUDE_BEGIN = lit ''# >>> gat >>>''"
definition EXCLUDE_END :: str where "EXCLUDE_END = lit ''# <<< gat <<<''"

record exclude_body =
  eb_body :: str
  eb_count :: nat

definition push_pattern :: "exclude_body \<Rightarrow> git_ignore_pattern \<Rightarrow> exclude_body" where
  "push_pattern result pat =
     (let p = pattern_text pat;
          body = (if p = EXCLUDE_BEGIN \<or> p = EXCLUDE_END then eb_body result @ lit ''# '' else eb_body result)
      in \<lparr>eb_body = body @ p @ [LF], eb_count = eb_count result + 1\<rparr>)"

definition exclude_body_new :: "git_ignore_pattern list \<Rightarrow> exclude_body" where
  "exclude_body_new patterns = foldl push_pattern \<lparr>eb_body = [], eb_count = 0\<rparr> patterns"

text \<open>The characters treated specially are ASCII, so the loop over characters is one over bytes.\<close>

definition append_exact_exclude_pattern :: "str \<Rightarrow> str \<Rightarrow> str" where
  "append_exact_exclude_pattern escaped path =
     (let head = rev (dropWhile (\<lambda>b. b = 32) (rev path));
          trailing_spaces = length path - length head
      in escaped @ [SLASH]
         @ concat (map (\<lambda>c. if c = CR then [91, CR, 93] else if c \<in> {92, 42, 63, 91, 93} then [92, c] else [c]) head)
         @ concat (replicate trailing_spaces [92, 32]))"

definition push_path :: "(str \<Rightarrow> str) \<Rightarrow> exclude_body \<Rightarrow> str \<Rightarrow> exclude_body" where
  "push_path debug self path =
     (if LF \<in> set path then self\<lparr>eb_body := eb_body self @ lit ''# No exact Git exclusion for LF path: '' @ debug path @ [LF]\<rparr>
      else \<lparr>eb_body = append_exact_exclude_pattern (eb_body self) path @ [LF], eb_count = eb_count self + 1\<rparr>)"

definition exclude_fingerprint :: "(str \<Rightarrow> u8 list) \<Rightarrow> u8 list \<Rightarrow> git_ignore_pattern list \<Rightarrow> u8 list" where
  "exclude_fingerprint H want patterns =
     H (lit ''gat-excludes-v4'' @ [0] @ want
        @ concat (map (\<lambda>p. to_le_bytes64 (of_nat (length (pattern_text p))) @ pattern_text p) patterns))"

section \<open>Writing the block\<close>

datatype excludes_error = ExcludesStore state_store_error | ExcludesIo info_exclude_error

record sync_status =
  st_changed :: bool
  st_count :: nat

definition derive_block :: "str \<Rightarrow> str \<Rightarrow> info_exclude_mutation" where
  "derive_block body existing =
     (let updated = upsert existing EXCLUDE_BEGIN EXCLUDE_END body
      in if updated = existing then Unchanged else ReplaceFile updated)"

definition render_with_proof ::
  "exclude_env \<Rightarrow> (str \<Rightarrow> u8 list) \<Rightarrow> exclude_body \<Rightarrow> bool \<Rightarrow> io_state
     \<Rightarrow> (info_exclude_error + sync_status \<times> u8 list \<times> info_exclude_update) \<times> io_state" where
  "render_with_proof env H body dry_run s =
     (case mutate_info_exclude env dry_run (derive_block (eb_body body)) s of
        (r, s) \<Rightarrow> (map_ok (\<lambda>update. (\<lparr>st_changed = iu_changed update, st_count = eb_count body\<rparr>, H (eb_body body), update)) r, s))"

definition exact_rules :: "str list \<Rightarrow> str list" where
  "exact_rules exact = remdups_adj (if sorted exact then exact else sort exact)"

definition body_from_lock ::
  "(str list \<Rightarrow> str \<Rightarrow> bool \<Rightarrow> bool option) \<Rightarrow> (str \<Rightarrow> str) \<Rightarrow> git_ignore_pattern list \<Rightarrow> entry list \<Rightarrow> exclude_body" where
  "body_from_lock M debug patterns entries =
     (let plan = coverage_plan_new patterns;
          exact = map (\<lambda>e. as_str (entry_path e)) (filter (\<lambda>e. \<not> coverage_plan_covers M plan (entry_path e)) entries)
      in foldl (push_path debug) (exclude_body_new patterns) (exact_rules exact))"

definition sync_from_lock ::
  "exclude_env \<Rightarrow> (str \<Rightarrow> u8 list) \<Rightarrow> (str list \<Rightarrow> str \<Rightarrow> bool \<Rightarrow> bool option) \<Rightarrow> (str \<Rightarrow> str) \<Rightarrow> git_ignore_pattern list \<Rightarrow> entry list
     \<Rightarrow> bool \<Rightarrow> io_state \<Rightarrow> (info_exclude_error + sync_status) \<times> io_state" where
  "sync_from_lock env H M debug patterns entries dry_run s =
     (case render_with_proof env H (body_from_lock M debug patterns entries) dry_run s of (r, s) \<Rightarrow> (map_ok fst r, s))"

definition body_from_store ::
  "(str list \<Rightarrow> str \<Rightarrow> bool \<Rightarrow> bool option) \<Rightarrow> (str \<Rightarrow> str) \<Rightarrow> git_ignore_pattern list \<Rightarrow> (nat \<Rightarrow> bool) \<Rightarrow> table
     \<Rightarrow> state_store_error + exclude_body" where
  "body_from_store M debug patterns ok t =
     (let plan = coverage_plan_new patterns
      in case visit_desired_paths_excluding id ok t (icp_excluded plan)
                (\<lambda>path body. (if \<not> residual_matches M plan path then push_path debug body (as_str path) else body, Ok ()))
                (exclude_body_new patterns) of
           (body, Inl e) \<Rightarrow> Err e
         | (body, Inr _) \<Rightarrow> Ok body)"

definition managed_block_present :: "exclude_env \<Rightarrow> io_state \<Rightarrow> (info_exclude_error + bool) \<times> io_state" where
  "managed_block_present env s =
     (case read_info_exclude env s of
        (r, s) \<Rightarrow> (map_ok (\<lambda>snapshot. case snapshot of None \<Rightarrow> False
            | Some contents \<Rightarrow> extract_body contents EXCLUDE_BEGIN EXCLUDE_END \<noteq> None) r, s))"

definition derive_removal :: "str \<Rightarrow> info_exclude_mutation" where
  "derive_removal existing =
     (case remove_block existing EXCLUDE_BEGIN EXCLUDE_END of
        None \<Rightarrow> Unchanged
      | Some updated \<Rightarrow> if list_all is_whitespace (utf8_chars updated) then RemoveFile else ReplaceFile updated)"

definition remove_managed_block :: "exclude_env \<Rightarrow> io_state \<Rightarrow> (info_exclude_error + bool) \<times> io_state" where
  "remove_managed_block env s = (case mutate_info_exclude env False derive_removal s of (r, s) \<Rightarrow> (map_ok iu_changed r, s))"

section \<open>The recorded output\<close>

text \<open>The columns of \<open>reconciliation_meta\<close>, and which statements succeed.\<close>

record exclude_meta =
  em_desired :: "u8 list"
  em_fingerprint :: "u8 list option"
  em_count :: int
  em_identity :: "u8 list option"
  em_proof :: "u8 list option"

record store_outcomes =
  so_fingerprint :: bool
  so_record :: bool
  so_refresh :: bool
  so_read :: "nat \<Rightarrow> bool"
  so_save :: bool

definition digest_of :: "u8 list \<Rightarrow> u8 list option" where
  "digest_of bytes = (if length bytes = 32 then Some bytes else None)"

definition desired_fingerprint :: "store_outcomes \<Rightarrow> exclude_meta \<Rightarrow> state_store_error + u8 list" where
  "desired_fingerprint out m =
     (if \<not> so_fingerprint out then Err QueryFailed
      else ok_or (InvalidRow (lit ''invalid desired fingerprint length'')) (digest_of (em_desired m)))"

definition exclude_record_of :: "store_outcomes \<Rightarrow> exclude_meta \<Rightarrow> state_store_error + exclude_record" where
  "exclude_record_of out m =
     (if \<not> so_record out then Err QueryFailed
      else Ok \<lparr>er_fingerprint = Option.bind (em_fingerprint m) digest_of,
               er_count = (if 0 \<le> em_count m then nat (em_count m) else 0),
               er_block_identity = Option.bind (em_identity m) digest_of,
               er_proof = Option.bind (em_proof m) decode_stat_proof\<rparr>)"

definition refresh_exclude_verification :: "store_outcomes \<Rightarrow> verification_state \<Rightarrow> exclude_meta \<Rightarrow> state_store_error + exclude_meta" where
  "refresh_exclude_verification out verification m =
     (case verification of
        Current (Some proof) \<Rightarrow>
          if so_refresh out then Ok (m\<lparr>em_proof := Some (encode_stat_proof proof)\<rparr>) else Err QueryFailed
      | _ \<Rightarrow> Ok m)"

definition record_exclude_output ::
  "store_outcomes \<Rightarrow> u8 list \<Rightarrow> nat \<Rightarrow> u8 list \<Rightarrow> info_exclude_update \<Rightarrow> exclude_meta \<Rightarrow> state_store_error + exclude_meta" where
  "record_exclude_output out fingerprint n block_identity update m =
     (if so_save out then
        Ok (m\<lparr>em_fingerprint := Some fingerprint, em_count := min (int n) (2 ^ 63 - 1), em_identity := Some block_identity,
              em_proof := map_option encode_stat_proof (iu_proof update)\<rparr>)
      else Err QueryFailed)"

section \<open>Bringing the block up to date\<close>

definition rebuild_block ::
  "exclude_env \<Rightarrow> (str \<Rightarrow> u8 list) \<Rightarrow> (str list \<Rightarrow> str \<Rightarrow> bool \<Rightarrow> bool option) \<Rightarrow> (str \<Rightarrow> str) \<Rightarrow> store_outcomes \<Rightarrow> git_ignore_pattern list
     \<Rightarrow> table \<Rightarrow> u8 list \<Rightarrow> exclude_meta \<Rightarrow> io_state \<Rightarrow> (excludes_error + sync_status) \<times> exclude_meta \<times> io_state" where
  "rebuild_block env H M debug out patterns t fingerprint m s =
     (case body_from_store M debug patterns (so_read out) t of
        Inl e \<Rightarrow> (Err (ExcludesStore e), m, s)
      | Inr body \<Rightarrow>
          (case render_with_proof env H body False s of
             (Inl e, s) \<Rightarrow> (Err (ExcludesIo e), m, s)
           | (Inr (status, block_identity, update), s) \<Rightarrow>
               (case record_exclude_output out fingerprint (st_count status) block_identity update m of
                  Inl e \<Rightarrow> (Err (ExcludesStore e), m, s)
                | Inr m \<Rightarrow> (Ok status, m, s))))"

definition sync_from_store_fast_path ::
  "exclude_env \<Rightarrow> (str \<Rightarrow> u8 list) \<Rightarrow> (str list \<Rightarrow> str \<Rightarrow> bool \<Rightarrow> bool option) \<Rightarrow> (str \<Rightarrow> str) \<Rightarrow> store_outcomes \<Rightarrow> git_ignore_pattern list
     \<Rightarrow> table \<Rightarrow> exclude_meta \<Rightarrow> io_state \<Rightarrow> (excludes_error + sync_status) \<times> exclude_meta \<times> io_state" where
  "sync_from_store_fast_path env H M debug out patterns t m s =
     (case desired_fingerprint out m of
        Inl e \<Rightarrow> (Err (ExcludesStore e), m, s)
      | Inr want \<Rightarrow>
          (let expected = exclude_fingerprint H want patterns
           in case exclude_record_of out m of
                Inl e \<Rightarrow> (Err (ExcludesStore e), m, s)
              | Inr recorded \<Rightarrow>
                  if er_fingerprint recorded = Some expected then
                    (case verify_info_exclude env H recorded EXCLUDE_BEGIN EXCLUDE_END s of
                       (Inl e, s) \<Rightarrow> (Err (ExcludesIo e), m, s)
                     | (Inr Stale, s) \<Rightarrow> rebuild_block env H M debug out patterns t expected m s
                     | (Inr (Current proof), s) \<Rightarrow>
                         (case refresh_exclude_verification out (Current proof) m of
                            Inl e \<Rightarrow> (Err (ExcludesStore e), m, s)
                          | Inr m \<Rightarrow> (Ok \<lparr>st_changed = False, st_count = er_count recorded\<rparr>, m, s)))
                  else rebuild_block env H M debug out patterns t expected m s))"

section \<open>Coverage is what Git ignores\<close>

text \<open>The answer of the engine on an ancestor directory or on the path itself.\<close>

definition hits :: "(str list \<Rightarrow> str \<Rightarrow> bool \<Rightarrow> bool option) \<Rightarrow> str list \<Rightarrow> str \<Rightarrow> bool" where
  "hits M ps rel \<longleftrightarrow> (\<exists>i < length rel. rel ! i = SLASH \<and> M ps (take i rel) True \<noteq> None) \<or> M ps rel False \<noteq> None"

text \<open>
  Git-ignore semantics for patterns without negation: a list matches when one of its patterns does, and
  never negatively; a rooted literal directory matches that directory alone.
\<close>

definition excludes_only :: "str list \<Rightarrow> bool" where
  "excludes_only ps \<longleftrightarrow> (\<forall>q \<in> set ps. \<not> prefix (lit ''!'') q)"

definition git_ignore_laws :: "(str list \<Rightarrow> str \<Rightarrow> bool \<Rightarrow> bool option) \<Rightarrow> bool" where
  "git_ignore_laws M \<longleftrightarrow>
     (\<forall>ps p d. excludes_only ps \<longrightarrow> M ps p d \<in> {None, Some False} \<and> (M ps p d \<noteq> None \<longleftrightarrow> (\<exists>q \<in> set ps. M [q] p d \<noteq> None)))
     \<and> (\<forall>q dir p d. literal_directory q = Some dir \<longrightarrow> (M [q] p d \<noteq> None \<longleftrightarrow> d \<and> p = as_str dir))"

lemma is_ignored_hits:
  assumes "git_ignore_laws M" "excludes_only ps"
  shows "is_ignored M ps rel \<longleftrightarrow> hits M ps rel"
proof -
  have v: "M ps p d = None \<or> M ps p d = Some False" for p d
    using assms unfolding git_ignore_laws_def by blast
  let ?f = "\<lambda>ignored index. if rel ! index = SLASH then (case M ps (take index rel) True of Some negative \<Rightarrow> \<not> negative | None \<Rightarrow> ignored) else ignored"
  have "foldl ?f b is \<longleftrightarrow> b \<or> (\<exists>i \<in> set is. rel ! i = SLASH \<and> M ps (take i rel) True \<noteq> None)" for b "is"
  proof (induction "is" arbitrary: b)
    case (Cons i "is")
    then show ?case using v [of "take i rel" True] by auto
  qed simp
  from this [of False "[0..<length rel]"]
  have f: "foldl ?f False [0..<length rel] \<longleftrightarrow> (\<exists>i < length rel. rel ! i = SLASH \<and> M ps (take i rel) True \<noteq> None)" by auto
  show ?thesis unfolding is_ignored_def hits_def Let_def f using v [of rel False] by (elim disjE) simp_all
qed

lemma hits_any:
  assumes "git_ignore_laws M" "excludes_only ps"
  shows "hits M ps rel \<longleftrightarrow> (\<exists>q \<in> set ps. hits M [q] rel)"
  using assms unfolding git_ignore_laws_def hits_def by blast

lemma literal_directory_rooted: "literal_directory q = Some dir \<Longrightarrow> \<not> prefix (lit ''!'') q"
  by (auto simp: literal_directory_def bind_eq_Some_conv strip_prefix_Some)

lemma hits_literal:
  assumes "git_ignore_laws M" "literal_directory q = Some dir"
  shows "hits M [q] rel \<longleftrightarrow> (\<exists>r. rel = as_str dir @ SLASH # r)"
proof -
  have m: "M [q] p d \<noteq> None \<longleftrightarrow> d \<and> p = as_str dir" for p d using assms unfolding git_ignore_laws_def by blast
  have "(\<exists>i < length rel. rel ! i = SLASH \<and> take i rel = as_str dir) \<longleftrightarrow> (\<exists>r. rel = as_str dir @ SLASH # r)"
  proof
    assume "\<exists>i < length rel. rel ! i = SLASH \<and> take i rel = as_str dir"
    then show "\<exists>r. rel = as_str dir @ SLASH # r" using id_take_nth_drop by metis
  next
    assume "\<exists>r. rel = as_str dir @ SLASH # r"
    then show "\<exists>i < length rel. rel ! i = SLASH \<and> take i rel = as_str dir"
      by (auto intro!: exI [of _ "length (as_str dir)"])
  qed
  then show ?thesis unfolding hits_def m by simp
qed

lemma split_patterns_acc:
  "split_patterns ps ds rs =
     (ds @ List.map_filter (\<lambda>p. literal_directory (pattern_text p)) ps,
      rs @ filter (\<lambda>q. literal_directory q = None) (map pattern_text ps))"
  by (induction ps ds rs rule: split_patterns.induct) (auto simp: map_filter_simps split: option.split)

lemma coverage_is_hits:
  assumes "git_ignore_laws M" "excludes_only (map pattern_text ps)"
  shows "coverage_plan_covers M (coverage_plan_new ps) path \<longleftrightarrow> hits M (map pattern_text ps) (as_str path)"
proof -
  let ?texts = "map pattern_text ps" and ?ds = "List.map_filter (\<lambda>p. literal_directory (pattern_text p)) ps"
  let ?rs = "filter (\<lambda>q. literal_directory q = None) ?texts"
  have rs: "excludes_only ?rs" using assms(2) by (auto simp: excludes_only_def)
  have "exclusions_contains (exclusions_new ?ds) path \<longleftrightarrow> (\<exists>d \<in> set ?ds. \<exists>r. as_str path = as_str d @ SLASH # r)"
    using exclusions_contains_covers [OF exclusions_new_facts(2)] exclusions_new_facts(1) by (simp add: below_some_def)
  also have "\<dots> \<longleftrightarrow> (\<exists>q \<in> set ?texts. literal_directory q \<noteq> None \<and> hits M [q] (as_str path))"
    by (auto simp: hits_literal [OF assms(1)] List.map_filter_def image_iff split: option.splits)
  finally have literal: "exclusions_contains (exclusions_new ?ds) path
      \<longleftrightarrow> (\<exists>q \<in> set ?texts. literal_directory q \<noteq> None \<and> hits M [q] (as_str path))" .
  have plan: "coverage_plan_new ps = \<lparr>icp_excluded = exclusions_new ?ds, icp_residual = (if ?rs = [] then None else Some ?rs)\<rparr>"
    by (simp add: coverage_plan_new_def split_patterns_acc)
  have residual: "residual_matches M (coverage_plan_new ps) path \<longleftrightarrow> (\<exists>q \<in> set ?rs. hits M [q] (as_str path))"
  proof (cases "?rs = []")
    case True
    show ?thesis unfolding plan residual_matches_def True by simp
  next
    case False
    then have "icp_residual (coverage_plan_new ps) = Some ?rs" unfolding plan by simp
    then show ?thesis
      unfolding residual_matches_def by (simp only: option.case is_ignored_hits [OF assms(1) rs] hits_any [OF assms(1) rs])
  qed
  have "exclusions_contains (icp_excluded (coverage_plan_new ps)) path
      \<longleftrightarrow> (\<exists>q \<in> set ?texts. literal_directory q \<noteq> None \<and> hits M [q] (as_str path))"
    unfolding plan ignore_coverage_plan.simps by (rule literal)
  then show ?thesis unfolding coverage_plan_covers_def residual hits_any [OF assms] set_filter by blast
qed

section \<open>The two ways to a body\<close>

lemma remdups_adj_strict: "sorted qs \<Longrightarrow> sorted_wrt (<) (remdups_adj (qs :: str list))"
  by (induction qs rule: remdups_adj.induct) (auto intro: order.strict_trans1 simp: le_less)

lemma remdups_sorted_set:
  assumes "sorted_wrt (<) ps" "set qs = set ps"
  shows "exact_rules qs = (ps :: str list)"
proof -
  have "exact_rules qs = remdups_adj (sort qs)" by (simp add: exact_rules_def sorted_sort_id)
  moreover have "remdups_adj (sort qs) = ps"
    using assms by (intro strict_sorted_equal remdups_adj_strict) simp_all
  ultimately show ?thesis by simp
qed

text \<open>The body for a list of paths, all of which are written.\<close>

definition body_of_paths :: "(str \<Rightarrow> str) \<Rightarrow> git_ignore_pattern list \<Rightarrow> str list \<Rightarrow> exclude_body" where
  "body_of_paths debug patterns paths = foldl (push_path debug) (exclude_body_new patterns) paths"

definition uncovered :: "(str list \<Rightarrow> str \<Rightarrow> bool \<Rightarrow> bool option) \<Rightarrow> git_ignore_pattern list \<Rightarrow> gat_path list \<Rightarrow> str list" where
  "uncovered M patterns paths = map as_str (filter (\<lambda>p. \<not> coverage_plan_covers M (coverage_plan_new patterns) p) paths)"

lemma uncovered_sorted: "sorted_wrt (<) paths \<Longrightarrow> sorted_wrt (<) (uncovered M patterns paths)"
  unfolding uncovered_def sorted_wrt_map less_gat_path_def [abs_def] by (rule sorted_wrt_filter)

lemma body_from_lock_paths:
  assumes "sorted_wrt (<) paths" "set (map entry_path entries) = set paths"
  shows "body_from_lock M debug patterns entries = body_of_paths debug patterns (uncovered M patterns paths)"
proof -
  have "sorted_wrt (<) (uncovered M patterns paths)"
    using assms(1) unfolding uncovered_def sorted_wrt_map by (intro sorted_wrt_filter) (simp add: less_gat_path_def [abs_def])
  moreover have "set (map (\<lambda>e. as_str (entry_path e)) (filter (\<lambda>e. \<not> coverage_plan_covers M (coverage_plan_new patterns) (entry_path e)) entries))
      = set (uncovered M patterns paths)"
    unfolding uncovered_def set_map set_filter assms(2) [symmetric] by auto
  ultimately show ?thesis
    unfolding body_from_lock_def Let_def body_of_paths_def by (simp add: remdups_sorted_set)
qed

lemma visit_each_push:
  "visit_each (\<lambda>path body. (if \<not> R path then f body (as_str path) else body, Ok ())) ps b
     = (foldl f b (map as_str (filter (\<lambda>p. \<not> R p) ps)), Ok ())"
  by (induction ps arbitrary: b) auto

lemma body_from_store_paths:
  assumes "bt_ok t"
  shows "(case body_from_store M debug patterns ok t of
       Inl e \<Rightarrow> e = QueryFailed \<and> (\<exists>j. \<not> ok j)
     | Inr body \<Rightarrow> body = body_of_paths debug patterns (uncovered M patterns (map entry_path (mirror t None))))"
proof -
  obtain ds rs where plan: "split_patterns patterns [] [] = (ds, rs)" by (cases "split_patterns patterns [] []")
  let ?plan = "coverage_plan_new patterns" and ?b = "exclude_body_new patterns"
  have ex: "icp_excluded ?plan = exclusions_new ds" by (simp add: coverage_plan_new_def plan)
  let ?visit = "\<lambda>path body. (if \<not> residual_matches M ?plan path then push_path debug body (as_str path) else body, Ok ())"
  obtain b r where out: "visit_desired_paths_excluding id ok t (icp_excluded ?plan) ?visit ?b = (b, r)"
    by (cases "visit_desired_paths_excluding id ok t (icp_excluded ?plan) ?visit ?b")
  have "visits_as id ok ?visit (filter (\<lambda>p. \<not> exclusions_contains (icp_excluded ?plan) p) (map entry_path (mirror t None))) ?b (b, r)"
    using visits_excluded [OF assms, of id ok ?visit ds ?b] unfolding ex [symmetric] out .
  then show ?thesis
  proof (cases rule: visits_as_cases)
    case full
    have "uncovered M patterns (map entry_path (mirror t None))
        = map as_str (filter (\<lambda>p. \<not> residual_matches M ?plan p) (filter (\<lambda>p. \<not> exclusions_contains (icp_excluded ?plan) p) (map entry_path (mirror t None))))"
      by (simp add: uncovered_def coverage_plan_covers_def conj_commute)
    with full show ?thesis
      unfolding visit_each_push body_from_store_def Let_def out by (cases r) (auto simp: body_of_paths_def)
  next
    case (stop us rs)
    then show ?thesis unfolding body_from_store_def Let_def out by simp
  qed
qed

section \<open>The lines of a body\<close>

definition pattern_line :: "git_ignore_pattern \<Rightarrow> str" where
  "pattern_line pat =
     (if pattern_text pat = EXCLUDE_BEGIN \<or> pattern_text pat = EXCLUDE_END then lit ''# '' @ pattern_text pat else pattern_text pat)"

definition path_line :: "(str \<Rightarrow> str) \<Rightarrow> str \<Rightarrow> str" where
  "path_line debug path =
     (if LF \<in> set path then lit ''# No exact Git exclusion for LF path: '' @ debug path else append_exact_exclude_pattern [] path)"

lemma append_exact_append: "append_exact_exclude_pattern escaped path = escaped @ append_exact_exclude_pattern [] path"
  by (simp add: append_exact_exclude_pattern_def Let_def)

lemma body_lines:
  "body_of_paths debug patterns paths =
     \<lparr>eb_body = concat (map (\<lambda>l. l @ [LF]) (map pattern_line patterns @ map (path_line debug) paths)),
      eb_count = length patterns + length (filter (\<lambda>p. LF \<notin> set p) paths)\<rparr>"
proof -
  have new: "foldl push_pattern b ps = \<lparr>eb_body = eb_body b @ concat (map (\<lambda>l. l @ [LF]) (map pattern_line ps)), eb_count = eb_count b + length ps\<rparr>"
    for b ps by (induction ps arbitrary: b) (simp_all add: push_pattern_def pattern_line_def Let_def)
  have "foldl (push_path debug) b ps
      = \<lparr>eb_body = eb_body b @ concat (map (\<lambda>l. l @ [LF]) (map (path_line debug) ps)), eb_count = eb_count b + length (filter (\<lambda>p. LF \<notin> set p) ps)\<rparr>"
    for b ps
  proof (induction ps arbitrary: b)
    case (Cons p ps)
    then show ?case by (simp add: push_path_def path_line_def append_exact_append [of "eb_body b"])
  qed simp
  then show ?thesis by (simp add: body_of_paths_def exclude_body_new_def new)
qed

definition parsed_patterns :: "git_ignore_pattern list \<Rightarrow> bool" where
  "parsed_patterns ps \<longleftrightarrow> (\<forall>p \<in> set ps. \<exists>raw. git_ignore_parse raw = Ok p)"

definition escapes_breaks :: "(str \<Rightarrow> str) \<Rightarrow> bool" where
  "escapes_breaks debug \<longleftrightarrow> (\<forall>s. CR \<notin> set (debug s) \<and> LF \<notin> set (debug s))"

lemma parsed_text:
  assumes "parsed_patterns ps" "p \<in> set ps"
  shows "CR \<notin> set (pattern_text p)" "LF \<notin> set (pattern_text p)" "\<not> prefix (lit ''!'') (pattern_text p)"
proof -
  obtain raw where "git_ignore_parse raw = Ok p" using assms unfolding parsed_patterns_def by blast
  then show "CR \<notin> set (pattern_text p)" "LF \<notin> set (pattern_text p)" "\<not> prefix (lit ''!'') (pattern_text p)"
    by (auto simp: git_ignore_parse_def split: if_splits)
qed

definition escaped_byte :: "u8 \<Rightarrow> str" where
  "escaped_byte c = (if c = CR then [91, CR, 93] else if c \<in> {92, 42, 63, 91, 93} then [92, c] else [c])"

lemma exact_rule_shape:
  "\<exists>head n. append_exact_exclude_pattern [] path = SLASH # concat (map escaped_byte head) @ concat (replicate n [92, 32])
     \<and> path = head @ replicate n 32 \<and> (head = [] \<or> last head \<noteq> 32)"
proof -
  let ?sp = "\<lambda>b. b = (32 :: u8)"
  let ?head = "rev (dropWhile ?sp (rev path))"
  let ?n = "length (takeWhile ?sp (rev path))"
  have "replicate ?n 32 = takeWhile ?sp (rev path)"
    by (rule replicate_length_same) (auto dest: set_takeWhileD)
  then have r: "rev path = replicate ?n 32 @ dropWhile ?sp (rev path)" using takeWhile_dropWhile_id [of ?sp "rev path"] by simp
  have p: "path = ?head @ replicate ?n 32" using arg_cong [OF r, of rev] by (simp only: rev_append rev_replicate rev_rev_ident)
  have n: "length path - length ?head = ?n" using arg_cong [OF p, of length] by (simp only: length_append length_replicate diff_add_inverse)
  have last: "?head = [] \<or> last ?head \<noteq> 32"
    using hd_dropWhile [of ?sp "rev path"] by (auto simp: last_rev)
  show ?thesis
  proof (intro exI conjI)
    show "append_exact_exclude_pattern [] path
        = SLASH # concat (map escaped_byte ?head) @ concat (replicate (length (takeWhile ?sp (rev path))) [92, 32])"
      unfolding append_exact_exclude_pattern_def Let_def n escaped_byte_def [abs_def] append_Nil append_Cons ..
  qed (use p last in blast)+
qed

text \<open>Reading a rule as Git does: no unescaped wildcard, a class of one byte, unescaped spaces at the end dropped.\<close>

fun literal_rule :: "str \<Rightarrow> str option" where
  "literal_rule [] = Some []"
| "literal_rule (c # s) =
     (if c = 92 then (case s of [] \<Rightarrow> None | d # r \<Rightarrow> map_option ((#) d) (literal_rule r))
      else if c = 91 then (case s of d # e # r \<Rightarrow> if d = CR \<and> e = 93 then map_option ((#) d) (literal_rule r) else None | _ \<Rightarrow> None)
      else if c = 42 \<or> c = 63 then None
      else if c = 32 \<and> list_all (\<lambda>b. b = 32) s then Some []
      else map_option ((#) c) (literal_rule s))"

lemma literal_spaces: "literal_rule (concat (replicate n [92, 32])) = Some (replicate n 32)"
  by (induction n) simp_all

lemma literal_escaped:
  assumes "head = [] \<or> last head \<noteq> 32"
  shows "literal_rule (concat (map escaped_byte head) @ concat (replicate n [92, 32])) = Some (head @ replicate n 32)"
  using assms
proof (induction head)
  case Nil
  show ?case by (simp add: literal_spaces)
next
  case (Cons c head)
  let ?rest = "concat (map escaped_byte head) @ concat (replicate n [92, 32])"
  have ih: "literal_rule ?rest = Some (head @ replicate n 32)"
    by (rule Cons.IH) (use Cons.prems in auto)
  have "\<not> list_all (\<lambda>b. b = 32) ?rest" if "c = 32"
  proof -
    from that Cons.prems have "head \<noteq> []" "last head \<noteq> 32" by (auto split: if_splits)
    then have "\<exists>b \<in> set (escaped_byte (last head)). b \<noteq> 32" by (auto simp: escaped_byte_def)
    moreover have "last head \<in> set head" using \<open>head \<noteq> []\<close> by simp
    ultimately show ?thesis by (auto simp: list_all_iff)
  qed
  moreover define rest where "rest = ?rest"
  ultimately have "literal_rule (escaped_byte c @ rest) = Some (c # head @ replicate n 32)"
    using ih by (auto simp: escaped_byte_def)
  then show ?case by (simp add: rest_def)
qed

lemma exact_rule_decodes: "\<exists>r. append_exact_exclude_pattern [] path = SLASH # r \<and> literal_rule r = Some path"
  using exact_rule_shape [of path] literal_escaped by fastforce

lemma exact_rule_line:
  assumes "LF \<notin> set path"
  shows "LF \<notin> set (append_exact_exclude_pattern [] path)" "\<not> suffix [CR] (append_exact_exclude_pattern [] path)"
proof -
  obtain head n where s: "append_exact_exclude_pattern [] path = SLASH # concat (map escaped_byte head) @ concat (replicate n [92, 32])"
    "path = head @ replicate n 32" using exact_rule_shape [of path] by blast
  show "LF \<notin> set (append_exact_exclude_pattern [] path)"
  proof -
    have "LF \<notin> set head" using assms unfolding s(2) by simp
    then show ?thesis unfolding s(1) by (auto simp: escaped_byte_def split: if_splits)
  qed
  have e: "escaped_byte c \<noteq> []" "last (escaped_byte c) \<noteq> CR" for c by (simp_all add: escaped_byte_def)
  have "last (SLASH # concat (map escaped_byte head)) \<noteq> CR"
    by (cases head rule: rev_cases) (use e in \<open>simp_all add: last_append\<close>)
  moreover have "last (concat (replicate n [92, 32]) :: str) \<noteq> CR" "concat (replicate n [92, 32] :: str list) \<noteq> []" if pos: "n \<noteq> 0"
  proof -
    obtain m where m: "n = Suc m" using pos by (cases n) simp_all
    have "concat (replicate (Suc m) [92, 32] :: str list) = concat (replicate m [92, 32]) @ [92, 32]"
      unfolding replicate_Suc replicate_append_same [symmetric] by simp
    then show "last (concat (replicate n [92, 32]) :: str) \<noteq> CR" "concat (replicate n [92, 32] :: str list) \<noteq> []"
      unfolding m by simp_all
  qed
  ultimately have "last (SLASH # concat (map escaped_byte head) @ concat (replicate n [92, 32])) \<noteq> CR"
    by (cases "n = 0") (simp_all add: last_append)
  then show "\<not> suffix [CR] (append_exact_exclude_pattern [] path)" unfolding s(1) suffix_single by simp
qed

lemma marker_facts: "valid_markers EXCLUDE_BEGIN EXCLUDE_END"
  by (simp add: valid_markers_def EXCLUDE_BEGIN_def EXCLUDE_END_def suffix_single)

lemma terminated_lines:
  "\<forall>l \<in> set ls. LF \<notin> set l \<Longrightarrow> ends_line (concat (map (\<lambda>l. l @ [LF]) ls)) \<and> lines (concat (map (\<lambda>l. l @ [LF]) ls)) = map (\<lambda>l. l @ [LF]) ls"
proof (induction ls)
  case (Cons l ls)
  have "lines ((l @ [LF]) @ concat (map (\<lambda>l. l @ [LF]) ls)) = lines (l @ [LF]) @ lines (concat (map (\<lambda>l. l @ [LF]) ls))"
    by (rule lines_append) simp
  then show ?case using Cons by (simp add: lines_single)
qed simp

lemma body_valid:
  assumes "parsed_patterns patterns" "escapes_breaks debug"
  shows "valid_body EXCLUDE_BEGIN EXCLUDE_END (eb_body (body_of_paths debug patterns paths))"
proof -
  let ?ls = "map pattern_line patterns @ map (path_line debug) paths"
  have l: "LF \<notin> set l \<and> \<not> suffix [CR] l \<and> l \<noteq> EXCLUDE_BEGIN \<and> l \<noteq> EXCLUDE_END" if "l \<in> set ?ls" for l
  proof -
    consider p where "p \<in> set patterns" "l = pattern_line p" | p where "l = path_line debug p" "LF \<in> set p"
      | p where "l = append_exact_exclude_pattern [] p" "LF \<notin> set p"
      using \<open>l \<in> set ?ls\<close> by (auto simp: path_line_def)
    then show ?thesis
    proof cases
      case (1 p)
      note t = parsed_text(1,2) [OF assms(1) 1(1)]
      have "\<not> suffix [CR] s" if "CR \<notin> set s" for s :: str
        using that last_in_set [of s] unfolding suffix_single by metis
      moreover have "CR \<notin> set l" "LF \<notin> set l" using t unfolding 1(2) by (auto simp: pattern_line_def)
      moreover have "l \<noteq> EXCLUDE_BEGIN" "l \<noteq> EXCLUDE_END" unfolding 1(2) by (auto simp: pattern_line_def EXCLUDE_BEGIN_def EXCLUDE_END_def)
      ultimately show ?thesis by blast
    next
      case (2 p)
      then have e: "l = lit ''# No exact Git exclusion for LF path: '' @ debug p" by (simp add: path_line_def)
      have d: "CR \<notin> set (debug p)" "LF \<notin> set (debug p)" using assms(2) by (simp_all add: escapes_breaks_def)
      then have "CR \<notin> set l" "LF \<notin> set l" unfolding e by simp_all
      moreover have "\<not> suffix [CR] l" using \<open>CR \<notin> set l\<close> last_in_set [of l] unfolding suffix_single by metis
      moreover have "l \<noteq> EXCLUDE_BEGIN" "l \<noteq> EXCLUDE_END" unfolding e by (simp_all add: EXCLUDE_BEGIN_def EXCLUDE_END_def)
      ultimately show ?thesis by blast
    next
      case (3 p)
      then have "l \<noteq> EXCLUDE_BEGIN" "l \<noteq> EXCLUDE_END"
        using exact_rule_shape [of p] by (auto simp: EXCLUDE_BEGIN_def EXCLUDE_END_def)
      then show ?thesis using exact_rule_line [OF 3(2)] 3(1) by simp
    qed
  qed
  then have "lines (concat (map (\<lambda>l. l @ [LF]) ?ls)) = map (\<lambda>l. l @ [LF]) ?ls" "ends_line (concat (map (\<lambda>l. l @ [LF]) ?ls))"
    using terminated_lines [of ?ls] by blast+
  moreover have "clean_lines EXCLUDE_BEGIN EXCLUDE_END (map (\<lambda>l. l @ [LF]) ?ls)"
    unfolding clean_lines_def using l by (simp del: map_append)
  ultimately show ?thesis unfolding valid_body_def body_lines exclude_body.simps by simp
qed

section \<open>The fingerprint\<close>

definition fingerprint_input :: "u8 list \<Rightarrow> git_ignore_pattern list \<Rightarrow> u8 list" where
  "fingerprint_input want patterns =
     lit ''gat-excludes-v4'' @ [0] @ want @ concat (map (\<lambda>p. to_le_bytes64 (of_nat (length (pattern_text p))) @ pattern_text p) patterns)"

lemma fingerprint_of_input: "exclude_fingerprint H want patterns = H (fingerprint_input want patterns)"
  by (simp add: exclude_fingerprint_def fingerprint_input_def)

lemma framed_inj:
  "concat (map (\<lambda>p. to_le_bytes64 (of_nat (length (pattern_text p))) @ pattern_text p) ps)
     = concat (map (\<lambda>p. to_le_bytes64 (of_nat (length (pattern_text p))) @ pattern_text p) qs) \<Longrightarrow>
   \<forall>p \<in> set ps \<union> set qs. length (pattern_text p) < 2 ^ 64 \<Longrightarrow> ps = qs"
proof (induction ps arbitrary: qs)
  case Nil
  then show ?case by (cases qs) (auto dest!: arg_cong [of _ _ length])
next
  case (Cons p ps)
  let ?f = "\<lambda>p. to_le_bytes64 (of_nat (length (pattern_text p))) @ pattern_text p"
  obtain q qs' where q: "qs = q # qs'"
    using Cons.prems(1) by (cases qs) (auto dest!: arg_cong [of _ _ length])
  have e: "to_le_bytes64 (of_nat (length (pattern_text p))) @ pattern_text p @ concat (map ?f ps)
      = to_le_bytes64 (of_nat (length (pattern_text q))) @ pattern_text q @ concat (map ?f qs')"
    using Cons.prems(1) by (simp add: q)
  then have h: "to_le_bytes64 (of_nat (length (pattern_text p))) = to_le_bytes64 (of_nat (length (pattern_text q)))"
    and t: "pattern_text p @ concat (map ?f ps) = pattern_text q @ concat (map ?f qs')"
    by (simp_all add: append_eq_append_conv)
  have "(of_nat (length (pattern_text p)) :: 64 word) = of_nat (length (pattern_text q))"
    using arg_cong [OF h, of "from_le_bytes :: _ \<Rightarrow> 64 word"] by simp
  then have "unat (of_nat (length (pattern_text p)) :: 64 word) = unat (of_nat (length (pattern_text q)) :: 64 word)" by simp
  moreover have "length (pattern_text p) < 2 ^ 64" "length (pattern_text q) < 2 ^ 64" using Cons.prems(2) by (simp_all add: q)
  ultimately have "length (pattern_text p) = length (pattern_text q)"
    unfolding unat_of_nat by simp
  with t have "pattern_text p = pattern_text q" "concat (map ?f ps) = concat (map ?f qs')" by simp_all
  moreover have "pattern_text p = pattern_text q \<Longrightarrow> p = q" by (cases p; cases q) simp
  ultimately show ?case using Cons.IH [of qs'] Cons.prems(2) by (simp add: q)
qed

lemma fingerprint_input_inj:
  assumes "fingerprint_input want ps = fingerprint_input want' qs" "length want = length want'"
    "\<forall>p \<in> set ps \<union> set qs. length (pattern_text p) < 2 ^ 64"
  shows "want = want' \<and> ps = qs"
proof -
  have "want = want'" and "concat (map (\<lambda>p. to_le_bytes64 (of_nat (length (pattern_text p))) @ pattern_text p) ps)
     = concat (map (\<lambda>p. to_le_bytes64 (of_nat (length (pattern_text p))) @ pattern_text p) qs)"
    using assms(1,2) by (auto simp: fingerprint_input_def)
  with framed_inj assms(3) show ?thesis by blast
qed

section \<open>Installing the block\<close>

definition block_current :: "str \<Rightarrow> str \<Rightarrow> bool" where
  "block_current t body \<longleftrightarrow> (\<exists>k. extract_body t EXCLUDE_BEGIN EXCLUDE_END = Some (rendered k body))"

text \<open>No text the file has ends in a lone carriage return.\<close>

definition whole_lines :: "exclude_env \<Rightarrow> io_state \<Rightarrow> bool" where
  "whole_lines env s \<longleftrightarrow> (\<forall>n t. text_of (fst (after_ticks env s n)) = Some t \<longrightarrow> \<not> suffix [CR] t)"

lemma render_installs:
  assumes "honest_stats env s" "whole_lines env s" "valid_body EXCLUDE_BEGIN EXCLUDE_END (eb_body b)"
    and run: "render_with_proof env H b False s = (Ok (status, ident, update), s')"
  shows "st_count status = eb_count b \<and> ident = H (eb_body b) \<and> st_changed status = iu_changed update
    \<and> (\<exists>n t T. text_of (fst (after_ticks env s n)) = Some t \<and> T = upsert t EXCLUDE_BEGIN EXCLUDE_END (eb_body b)
        \<and> block_current T (eb_body b)
        \<and> remove_block T EXCLUDE_BEGIN EXCLUDE_END
            = Some (case remove_block t EXCLUDE_BEGIN EXCLUDE_END of Some rest \<Rightarrow> rest | None \<Rightarrow> terminated t)
        \<and> (if iu_changed update then text_of (fst s') = Some T \<and> iu_proof update = node_proof (fst s')
           else T = t \<and> s' = after_ticks env s n \<and> iu_proof update = None))"
proof -
  let ?derive = "derive_block (eb_body b)"
  obtain r where m: "mutate_info_exclude env False ?derive s = (r, s')" "map_ok (\<lambda>update. (\<lparr>st_changed = iu_changed update, st_count = eb_count b\<rparr>, H (eb_body b), update)) r = Ok (status, ident, update)"
    using run by (cases "mutate_info_exclude env False ?derive s") (auto simp: render_with_proof_def)
  then have r: "r = Ok update" "status = \<lparr>st_changed = iu_changed update, st_count = eb_count b\<rparr>" "ident = H (eb_body b)"
    by (auto simp: map_ok_eq_Inr)
  have "xe_opens env" using m(1) r(1) by (auto simp: mutate_info_exclude_def split: if_splits)
  from mutate_safely [OF assms(1) this, of False ?derive] obtain n t where n: "text_of (fst (after_ticks env s n)) = Some t"
    "iu_changed update \<longleftrightarrow> ?derive t \<noteq> Unchanged"
    "if iu_changed update \<and> \<not> False then
       snd s' = Suc (snd (after_ticks env s n))
       \<and> (case ?derive t of Unchanged \<Rightarrow> False
          | ReplaceFile c \<Rightarrow> text_of (fst s') = Some c \<and> iu_proof update = node_proof (fst s') \<and> iu_proof update \<noteq> None
          | RemoveFile \<Rightarrow> fst s' = Vacant \<and> iu_proof update = None)
     else s' = after_ticks env s n \<and> iu_proof update = None"
    unfolding m(1) r(1) mutated_safely_def prod.case sum.case by blast
  let ?T = "upsert t EXCLUDE_BEGIN EXCLUDE_END (eb_body b)"
  have "\<not> suffix [CR] t" using assms(2) n(1) unfolding whole_lines_def by blast
  note up = upsert_core [OF marker_facts assms(3) this]
  have d: "?derive t = (if ?T = t then Unchanged else ReplaceFile ?T)" by (simp add: derive_block_def Let_def)
  have "if iu_changed update then text_of (fst s') = Some ?T \<and> iu_proof update = node_proof (fst s')
           else ?T = t \<and> s' = after_ticks env s n \<and> iu_proof update = None"
    using n(2,3) unfolding d by (cases "?T = t") auto
  moreover have "block_current ?T (eb_body b)" unfolding block_current_def using up by blast
  moreover have "st_count status = eb_count b" "ident = H (eb_body b)" "st_changed status = iu_changed update" using r(2,3) by simp_all
  ultimately show ?thesis using n(1) up by (intro conjI exI [of _ n] exI [of _ t] exI [of _ ?T]) simp_all
qed

section \<open>Theorems\<close>

text \<open>
  The plan, which answers rooted literal directories from lexical ranges and asks the engine about the
  other patterns only, covers exactly the paths that the engine, given all the patterns, ignores.
\<close>

theorem coverage_is_git_ignore:
  assumes "git_ignore_laws M" "parsed_patterns patterns"
  shows "coverage_plan_covers M (coverage_plan_new patterns) path
    \<longleftrightarrow> is_ignored M (map pattern_text patterns) (as_str path)"
proof -
  have only: "excludes_only (map pattern_text patterns)"
    using parsed_text(3) [OF assms(2)] by (auto simp: excludes_only_def)
  show ?thesis unfolding coverage_is_hits [OF assms(1) only] is_ignored_hits [OF assms(1) only] ..
qed

text \<open>An engine that knows literal directories only obeys the laws.\<close>

definition literal_engine :: "str list \<Rightarrow> str \<Rightarrow> bool \<Rightarrow> bool option" where
  "literal_engine ps p d =
     (if d \<and> list_ex (\<lambda>q. case literal_directory q of Some dir \<Rightarrow> p = as_str dir | None \<Rightarrow> False) ps then Some False else None)"

lemma literal_engine_laws: "git_ignore_laws literal_engine"
  unfolding git_ignore_laws_def literal_engine_def by (auto simp: list_ex_iff split: option.splits)

text \<open>
  The body streamed out of the state database is the body computed from the lock with the same paths; its
  lines are the patterns, then one line per uncovered path in strictly ascending order. A path without a
  line feed gets a rule that reads, as Git reads it, as a root and exactly this path; only rules are
  counted. A failing statement gives an error instead.
\<close>

theorem exclude_bodies_agree:
  fixes M :: "str list \<Rightarrow> str \<Rightarrow> bool \<Rightarrow> bool option" and debug :: "str \<Rightarrow> str" and patterns :: "git_ignore_pattern list"
  assumes "bt_ok t" "entry_path ` set entries = entry_path ` set (mirror t None)"
  defines "body \<equiv> body_from_lock M debug patterns entries"
    and "rest \<equiv> uncovered M patterns (map entry_path (mirror t None))"
  shows "((\<forall>k. ok k) \<longrightarrow> body_from_store M debug patterns ok t = Ok body)
    \<and> body_from_store M debug patterns ok t \<in> {Ok body, Err QueryFailed}
    \<and> sorted_wrt (<) rest
    \<and> eb_body body = concat (map (\<lambda>l. l @ [LF]) (map pattern_line patterns @ map (path_line debug) rest))
    \<and> eb_count body = length patterns + length (filter (\<lambda>p. LF \<notin> set p) rest)
    \<and> (\<forall>p. LF \<notin> set p \<longrightarrow> (\<exists>r. path_line debug p = SLASH # r \<and> literal_rule r = Some p))"
proof -
  have sorted: "sorted_wrt (<) (map entry_path (mirror t None))"
    unfolding sorted_wrt_map less_gat_path_def by (rule mirror_ascending [OF assms(1)])
  have b: "body = body_of_paths debug patterns rest"
    unfolding body_def rest_def by (rule body_from_lock_paths [OF sorted]) (use assms(2) in simp)
  have s: "sorted_wrt (<) rest" unfolding rest_def by (rule uncovered_sorted [OF sorted])
  have store: "((\<forall>k. ok k) \<longrightarrow> body_from_store M debug patterns ok t = Ok body)
      \<and> body_from_store M debug patterns ok t \<in> {Ok body, Err QueryFailed}"
    using body_from_store_paths [OF assms(1), where M = M and debug = debug and patterns = patterns and ok = ok] unfolding b rest_def
    by (cases "body_from_store M debug patterns ok t") auto
  have rules: "\<exists>r. path_line debug p = SLASH # r \<and> literal_rule r = Some p" if "LF \<notin> set p" for p
    using exact_rule_decodes [of p] that by (simp add: path_line_def)
  show ?thesis using store s rules by (simp add: b body_lines)
qed

end
