(* ===== verification/Spec2Isabelle.thy ===== *)
theory Spec2Isabelle
  imports ManagedBlock LockRoundtrip LockMerge PathPolicy SyncRuns LockShards QueryCorrect PathEnumeration ManagedExcludes
begin

text \<open>
  A model of gat, a Git companion that keeps large files outside Git. A repository tracks paths by the
  content id of the file that belongs there; the desired set is the text file \<open>gat.lock\<close> (or a directory
  of shards of it), the objects lie in a content-addressed cache, and a SQLite database records what the
  last synchronization put into the working tree. This development models the logic of the crates
  \<open>gat-core\<close>, \<open>gat-io\<close> and \<open>gat-engine\<close> as functions on values and explicit state. Definitions bear the
  names of the functions they translate wherever Isabelle allows it.

  \<^bold>\<open>How the parts interact.\<close>
  Paths and content ids are the alphabet of everything else. The lock is parsed into rows, merged,
  sharded, and summed up in an identity that can be maintained entry by entry. The configuration says
  which mount owns a path and where its objects are transferred; the path policy compiles this for one
  operation. A refresh brings the desired half of the state table in line with the shards that changed.
  A plan merges the desired with the materialized half, asks the working tree and the cache about every
  path that is not settled, and yields actions; a sink carries them out on the working tree and writes
  what it did back to the materialized half in batches. Afterwards the block of exclude rules in
  \<open>.git/info/exclude\<close> is brought up to date from the same table.

  \<^bold>\<open>Theories, in the order of the dependencies.\<close>

  \<^item> \<open>Prelude\<close>: bytes and byte strings, results as sums (\<open>Ok\<close>, \<open>Err\<close>, \<open>and_then\<close>), the operations of the
    standard library on strings, and the collections of hints. \<open>OrderedMap\<close>: \<open>BTreeMap\<close> as its ordered
    list of entries.
  \<^item> \<open>LexicalPath\<close> (\<open>gat-core/src/lexical_path.rs\<close>, \<open>path_scope.rs\<close>): strict and lenient parsing of paths,
    prefixes, scopes. \<open>gat_path_normalize_spec\<close> says what normalization computes and which error wins,
    \<open>normalize_parse_canonical\<close> that both parsers agree on canonical texts.
  \<^item> \<open>ObjectId\<close> (\<open>oid.rs\<close>): content ids and their hexadecimal text (\<open>oid_hex_roundtrip\<close>).
  \<^item> \<open>ManagedBlock\<close> (\<open>managed_block.rs\<close>, \<open>newline.rs\<close>): the editor of a marked block inside a file of the
    user. Installing is idempotent, reads back and is undone by removing, for a file that does not end in
    a lone carriage return; \<open>upsert_bare_cr_not_idempotent\<close> shows why that is needed.
  \<^item> \<open>LockModel\<close> (\<open>lock/codec.rs\<close>, \<open>lock/error.rs\<close>): entries, validation, resident mutations, conflicts.
    The stack of open directories every validation keeps is the locale \<open>prefix_stack\<close>, interpreted for
    the lock here, for the decoder in \<open>LockParse\<close> and for the mounts in \<open>ConfigRules\<close>.
  \<^item> \<open>LockEncoding\<close> (\<open>lock/encoding.rs\<close>): the writers; their destination is the locale \<open>sink\<close>, interpreted
    on a growing vector and on a bounded slice.
  \<^item> \<open>LockKernels\<close>, \<open>KernelLanes\<close>, \<open>KernelDigits\<close>, \<open>KernelCorrect\<close> (\<open>lock/reader/kernels.rs\<close>, \<open>x86.rs\<close>,
    \<open>aarch64.rs\<close>): the scalar, SSE2, AVX2 and NEON row kernels with their intrinsics written out over
    lanes of bytes; every kernel returns what the scalar one returns (\<open>kernels_agree\<close>).
  \<^item> \<open>LockReader\<close>, \<open>LockParse\<close>, \<open>LockRoundtrip\<close> (\<open>lock/reader.rs\<close>): the single-pass decoder with its
    arena, row table and index stack; its refinement of a reference parser on plain text, with the exact
    error and line; the grammar of accepted files; round trips; cursor, visitor and lookup.
  \<^item> \<open>LockMerge\<close> (\<open>lock/merge.rs\<close>): the three-way merge, characterized by the value at every path and by
    the errors it reports.
  \<^item> \<open>ShardId\<close>, \<open>LockIdentity\<close>, \<open>LockShards\<close> (\<open>lock/shard.rs\<close>, \<open>lock/identity.rs\<close>,
    \<open>gat-io/src/lock/persistence.rs\<close>): shard identifiers, the accumulated identity (locale
    \<open>xor_accumulator\<close>), the merge and certification of resident shards, loading and rewriting.
  \<^item> \<open>PathSelection\<close> (\<open>globs.rs\<close>, \<open>selection.rs\<close>): patterns, the candidate bounds derived from them,
    filters and selections.
  \<^item> \<open>ConfigModel\<close>, \<open>ConfigRules\<close>, \<open>Settings\<close> (\<open>config.rs\<close>, \<open>settings.rs\<close>, \<open>git_ignore.rs\<close> and the other
    value types): sections and value parsers; validation and lookup of mounts and routes; the accessors
    the \<open>settings!\<close> macro generates (locale \<open>settings_store\<close>) and the layering of configurations (locale
    \<open>layered\<close>). \<open>parsed_settings_valid\<close> says exactly which texts parse to which value.
  \<^item> \<open>PathPolicy\<close> (\<open>gat-engine/src/path_policy.rs\<close>, \<open>remote_catalog.rs\<close>): the policy of one operation.
    Longest-prefix lookup is the locale \<open>prefix_index\<close>, interpreted on the walk over the compiled index
    and on the scans of the configuration, and \<open>prefix_index_pair\<close> relates two of them.
  \<^item> \<open>FileState\<close> (\<open>gat-io/src/file_state.rs\<close>, \<open>worktree.rs\<close>): stat proofs and their wire format, coherent
    observation, identity checks, the status of a worktree file.
  \<^item> \<open>CacheVerify\<close> (\<open>cache/proof.rs\<close>, \<open>cache/object.rs\<close>): the table of proofs and the windowed verification
    session with memo and tickets.
  \<^item> \<open>SyncPlan\<close> (\<open>workspace/sync/plan.rs\<close>): the planner, proved once in the locale \<open>planner\<close> over an
    \<open>object_verifier\<close> and a \<open>total_sink\<close>, which are interpreted on the session and on the collecting sink.
  \<^item> \<open>StateTable\<close>, \<open>DesiredMirror\<close> (\<open>state/schema.rs\<close>, \<open>materialized.rs\<close>, \<open>desired.rs\<close>,
    \<open>reconciliation.rs\<close>): the table and its transactions. Its two halves are two interpretations of the
    locale \<open>table_half\<close>. \<open>apply_batch_in_order\<close> says that a batch acts as its mutations in order up to the
    proof a path refreshed several times in one run may get, and \<open>refreshed_twice_out_of_order\<close> evaluates
    such a batch.
  \<^item> \<open>DesiredQuery\<close>, \<open>ScalarText\<close>, \<open>QueryCursors\<close>, \<open>QueryUnion\<close>, \<open>QueryPlan\<close>, \<open>QueryCorrect\<close>,
    \<open>PathEnumeration\<close> (\<open>state/query.rs\<close>): queries planned as ranges and points, the cursors that page
    through them, and the enumeration outside excluded directories: all rows, once, in path order, ending.
  \<^item> \<open>InfoExclude\<close>, \<open>ManagedExcludes\<close> (\<open>git/exclude.rs\<close>, \<open>gat-engine/src/excludes\<close>): the exclude file under
    concurrent editors (\<open>mutations_lose_no_edit\<close>), coverage by patterns (\<open>coverage_is_git_ignore\<close>), the
    rules of the block from the lock or from the table (\<open>exclude_bodies_agree\<close>), and the recorded output.
  \<^item> \<open>WorktreeFs\<close>, \<open>WorktreeCorrect\<close> (\<open>gat-io/src/worktree.rs\<close>, \<open>cache/object.rs\<close>): a tree of files, folders
    and links in which every system call may fail; confinement, materialization through staging, removal,
    pruning, moves with rollback.
  \<^item> \<open>SyncExecute\<close>, \<open>SyncLedger\<close>, \<open>SyncRuns\<close> (\<open>workspace/sync/execute.rs\<close>, \<open>sync/mod.rs\<close>): the preview and
    execution sinks, the ledger that ties the table and the pending batch to the disk, and whole runs
    (locale \<open>driven_sink\<close>), validated and over the dirty rows.

  \<^bold>\<open>State, errors and what is outside.\<close>
  State is passed explicitly; a record of the model has the fields of the struct it stands for. Fallible
  code returns a sum whose left side is the error. Code that is not in the repository is a parameter: the
  hash of contents and paths (at most the length of its result is assumed), the glob library (compile and match), Git's matching of one path
  (\<open>git_ignore_laws\<close> states that lists without negation match when a member does, and what a rooted literal
  directory matches), and SQLite: tables are ordered lists, statements are functions on them, the argument
  \<open>ok\<close> tells which steps of a transaction the database carries out and \<open>pick\<close> which of several matching
  rows an \<open>UPDATE ... FROM\<close> uses. The operating system is an oracle: views of a path for observations, a
  \<open>world\<close> that says which call on the tree fails and how much of a copy arrives, and for the exclude file an
  \<open>exclude_env\<close> in which other processes may replace the file before any call. Theorems quantify over all of
  these, so every failing call and every interleaving at the granularity of calls is covered.

  \<^bold>\<open>Termination and fuel.\<close>
  Loops over lists are structural; others are functions with a measure (chunking, the runs of a batch,
  scanning a text). Three loops have fuel, because only their data bounds them: \<open>trust_loop\<close> pages through
  the dirty rows and \<open>trusted_sync_settles_the_selection\<close> shows that more fuel than the table has rows
  suffices, whatever fails; the cursors of a query (\<open>rows_next\<close>, \<open>collect_rows\<close>, \<open>count_rows\<close>) likewise end
  within one step more than the table has rows (\<open>desired_reads_end\<close>); a mutation of the exclude file makes
  at most three attempts, as in the code, and eighteen calls. The other bounds are the constants of the
  code: the window of a verification pass, the budget of 30000 bound parameters of a statement, pages of
  the range cursor, batches of 10000 mutations. No theorem depends on their values beyond being positive,
  except where the value is the claim.

  \<^bold>\<open>Simplifications.\<close>
  Strings are byte lists, as UTF-8; scans over characters are scans over bytes where every character
  tested is ASCII, and that a text is well-formed UTF-8 is a hypothesis of the queries, whose upper
  bounds step to the next scalar value (\<open>ScalarText\<close>). A \<open>HashMap\<close> whose order is never observed is an ordered map. Error values keep their
  variant and what decides it, not the paths and messages they carry for display. Permissions, hard-link
  sharing after a publication, case-insensitive file systems and the Windows branches (among them the
  error \<open>NotMaterializable\<close> of \<open>resolve_worktree_path\<close>) are left out.

  \<^bold>\<open>Not modelled.\<close>
  Publication and reshaping of the lock directory, the mount journal, cache ingestion and repair, garbage
  collection, remotes and transfers, Git history and discovery: sequences of system calls, of calls to
  the gix and OpenDAL libraries or of asynchronous tasks whose behaviour is that of those libraries.
  Serde derives, progress reports, the documentation schema, the command line and the output layer have
  no logic of their own beyond forwarding. Of the recorded output of the exclude block the functions are
  modelled; that a recorded fingerprint is never believed wrongly is not proved, since it rests on the
  hash having no collisions.
\<close>

end
